(* ===== verification/Prelude.thy ===== *)
theory Prelude
  imports Main "HOL-Library.Word" "HOL-Library.Multiset"
begin

text \<open>
  Shared vocabulary of the development: names for the machine integer types of the C++ code,
  the value of a double word, the collections of simplification rules, and the generic lemmas
  on words, integers and lists that the component theories use.
\<close>

unbundle bit_operations_syntax

named_theorems u64_simps \<open>values of 64-bit operations as integers\<close>

type_synonym u64 = "64 word"
type_synonym u32 = "32 word"
type_synonym u16 = "16 word"
type_synonym u8 = "8 word"

section \<open>Words read as integers\<close>

text \<open>
  The word base. It is kept opaque: with the numeral written out, linear arithmetic would have
  to multiply inequalities by it.
\<close>

definition W64 :: int where
  "W64 = 2 ^ 64"

lemma W64_gt [simp]: "0 < W64" "0 \<le> W64" "1 < W64" "1 \<le> W64" "2 < W64" "W64 \<noteq> 0"
  by (simp_all add: W64_def)

text \<open>The value of the pair low word, high word.\<close>

definition dw :: "u64 \<Rightarrow> u64 \<Rightarrow> int" where
  "dw lo hi = uint lo + W64 * uint hi"

lemma uint_lt64 [simp]: "uint (a :: u64) < W64"
  using uint_lt2p [of a] by (simp add: W64_def)

lemma uint_add64 [u64_simps]: "uint (a + b :: u64) = (uint a + uint b) mod W64"
  by (simp add: uint_word_ariths W64_def)

lemma uint_sub64 [u64_simps]: "uint (a - b :: u64) = (uint a - uint b) mod W64"
  by (simp add: uint_word_ariths W64_def)

lemma uint_mult64 [u64_simps]: "uint (a * b :: u64) = (uint a * uint b) mod W64"
  by (simp add: uint_word_ariths W64_def)

lemma uint_uminus64 [u64_simps]: "uint (- a :: u64) = (- uint a) mod W64"
  by (simp add: uint_word_ariths W64_def)

text \<open>The remainder of an integer that is at most one base away from the range.\<close>

lemma mod_W64_id: "0 \<le> x \<Longrightarrow> x < W64 \<Longrightarrow> x mod W64 = x"
  by simp

lemma mod_W64_over: "W64 \<le> x \<Longrightarrow> x < 2 * W64 \<Longrightarrow> x mod W64 = x - W64"
  using mod_pos_pos_trivial [of "x - W64" W64] by (simp add: mod_diff_left_eq [symmetric])

lemma mod_W64_under: "- W64 \<le> x \<Longrightarrow> x < 0 \<Longrightarrow> x mod W64 = x + W64"
  using mod_pos_pos_trivial [of "x + W64" W64] by simp

lemma uint_mod_W64 [simp]: "uint (a :: u64) mod W64 = uint a"
  by (rule mod_W64_id) simp_all

lemma uint_add64_no_wrap:
  "uint a + uint b < W64 \<Longrightarrow> uint (a + b :: u64) = uint a + uint b"
  by (simp add: uint_add64 mod_W64_id)

lemma uint_add64_wrap:
  assumes "W64 \<le> uint a + uint b"
  shows "uint (a + b :: u64) = uint a + uint b - W64"
proof -
  have "uint a + uint b < 2 * W64"
    using uint_lt64 [of a] uint_lt64 [of b] by linarith
  with assms show ?thesis by (simp add: uint_add64 mod_W64_over)
qed

lemma uint_sub64_no_wrap:
  assumes "b \<le> a"
  shows "uint (a - b :: u64) = uint a - uint b"
proof -
  have "uint a - uint b < W64"
    using uint_lt64 [of a] uint_nonnegative [of b] by linarith
  with assms show ?thesis by (simp add: uint_sub64 word_le_def)
qed

lemma uint_sub64_wrap:
  assumes "a < b"
  shows "uint (a - b :: u64) = uint a - uint b + W64"
proof -
  have "- W64 \<le> uint a - uint b"
    using uint_lt64 [of b] uint_nonnegative [of a] by linarith
  with assms show ?thesis by (simp add: uint_sub64 word_less_def mod_W64_under)
qed

text \<open>Carry and borrow detection as the C code does it: comparing the wrapped result.\<close>

lemma add64_carry_iff: "(a + b :: u64) < b \<longleftrightarrow> W64 \<le> uint a + uint b"
proof (cases "W64 \<le> uint a + uint b")
  case True
  then show ?thesis
    using uint_lt64 [of a] by (simp add: word_less_def uint_add64_wrap)
next
  case False
  then show ?thesis by (simp add: word_less_def uint_add64_no_wrap)
qed

lemma sub64_borrow_iff: "(a :: u64) < a - b \<longleftrightarrow> a < b"
proof (cases "a < b")
  case True
  then show ?thesis
    using uint_lt64 [of b] by (simp add: word_less_def uint_sub64_wrap)
next
  case False
  then have "b \<le> a" by simp
  then show ?thesis
    using False by (simp add: word_less_def uint_sub64_no_wrap)
qed

section \<open>Double words\<close>

lemma dw_nonneg [simp]: "0 \<le> dw lo hi"
  by (simp add: dw_def)

lemma dw_zero_hi [simp]: "dw lo 0 = uint lo"
  by (simp add: dw_def)

text \<open>Every integer has at most one representation by a remainder and a quotient.\<close>

lemma base_repr_less:
  fixes x y B u v :: int
  assumes "0 < B" "0 \<le> u" "x < B" "y < v"
  shows "x + B * y < u + B * v"
proof -
  have "B * (y + 1) \<le> B * v" using assms(1,4) by (intro mult_left_mono) auto
  then have "B * y + B \<le> B * v" by (simp add: distrib_left)
  with assms(2,3) show ?thesis by linarith
qed

lemma dw_lt: "dw lo hi < W64 * W64"
  using base_repr_less [of W64 0 "uint lo" "uint hi" W64] by (simp add: dw_def)

lemma dw_less_hi: "a2 < b2 \<Longrightarrow> dw a1 a2 < dw b1 b2"
  unfolding dw_def word_less_def by (rule base_repr_less) auto

text \<open>Comparison and equality of double words are lexicographic, high word first.\<close>

lemma dw_less_iff: "dw a1 a2 < dw b1 b2 \<longleftrightarrow> a2 < b2 \<or> (a2 = b2 \<and> a1 < b1)"
proof (cases a2 b2 rule: linorder_cases)
  case less
  then show ?thesis by (simp add: dw_less_hi)
next
  case equal
  then show ?thesis by (simp add: dw_def word_less_def)
next
  case greater
  then have "dw b1 b2 < dw a1 a2" by (rule dw_less_hi)
  with greater show ?thesis by auto
qed

lemma dw_inject: "dw a1 a2 = dw b1 b2 \<longleftrightarrow> a1 = b1 \<and> a2 = b2"
  using dw_less_iff [of a1 a2 b1 b2] dw_less_iff [of b1 b2 a1 a2]
  by (metis less_irrefl linorder_less_linear)

lemma dw_le_iff: "dw a1 a2 \<le> dw b1 b2 \<longleftrightarrow> a2 < b2 \<or> (a2 = b2 \<and> a1 \<le> b1)"
  using dw_less_iff [of a1 a2 b1 b2] dw_inject [of a1 a2 b1 b2] by (auto simp: order_le_less)

section \<open>Halves, shifts and bits of a word\<close>

definition W32 :: int where "W32 = 2 ^ 32"

lemma base_mod_square:
  assumes "0 \<le> x" "x < W64"
  shows "(x + W64 * y) mod (W64 * W64) = x + W64 * (y mod W64)"
  using assms by (simp add: zmod_zmult2_eq)

lemma uint_carry_sum:
  "uint (r1 + a1 :: u64) = uint r1 + uint a1 - W64 * of_bool (r1 + a1 < a1)"
  by (cases "W64 \<le> uint r1 + uint a1")
     (simp_all add: add64_carry_iff uint_add64_wrap uint_add64_no_wrap)

lemma uint_borrow_diff:
  "uint (r1 - a1 :: u64) = uint r1 - uint a1 + W64 * of_bool (r1 < a1)"
  by (cases "r1 < a1") (simp_all add: uint_sub64_wrap uint_sub64_no_wrap)

lemma uint_of_bool64 [simp]: "uint (of_bool b :: u64) = of_bool b"
  by (cases b) simp_all

lemma wrapped_sum_less_iff:
  fixes r a :: int
  assumes "0 \<le> r" "r < B" "0 \<le> a" "a < B"
  shows "(r + a) mod B < a \<longleftrightarrow> B \<le> r + a"
proof (cases "B \<le> r + a")
  case True
  then have "(r + a) mod B = r + a - B"
    using mod_pos_pos_trivial [of "r + a - B" B] assms by (simp add: mod_diff_left_eq [symmetric])
  with True assms show ?thesis by simp
next
  case False
  with assms show ?thesis by simp
qed

declare push_bit_and [simp del]

lemma div_less_of_less_mult:
  fixes x c k :: int
  assumes "0 < c" "x < c * k"
  shows "x div c < k"
proof (rule ccontr)
  assume "\<not> x div c < k"
  then have "c * k \<le> c * (x div c)" using assms(1) by simp
  also have "\<dots> \<le> x" using pos_mod_sign [OF assms(1), of x] mult_div_mod_eq [of c x] by linarith
  finally show False using assms(2) by simp
qed

lemma W32_gt [simp]: "0 < W32" "0 \<le> W32" "1 < W32" "W32 \<noteq> 0"
  by (simp_all add: W32_def)

lemma W32_square: "W32 * W32 = W64"
  by (simp add: W32_def W64_def)

lemma uint_low32: "uint (a AND 4294967295 :: u64) = uint a mod W32"
proof -
  have "(4294967295 :: u64) = mask 32"
    by (simp add: mask_eq_exp_minus_1)
  then show ?thesis
    by (simp only: take_bit_eq_mask [symmetric] unsigned_take_bit_eq take_bit_eq_mod [where 'a = int] W32_def)
qed

lemma take_bit64_uint: "take_bit 64 (uint (a :: u64)) = uint a"
  using uint_lt2p [of a] by (intro take_bit_int_eq_self) simp_all

lemma uint_drop_bit64: "uint (drop_bit n a :: u64) = uint a div 2 ^ n"
proof (cases "n < 64")
  case True
  then show ?thesis
    by (simp add: unsigned_drop_bit_eq take_bit64_uint drop_bit_eq_div [where 'a = int])
next
  case False
  then have "(2 :: int) ^ 64 \<le> 2 ^ n" by (intro power_increasing) auto
  with uint_lt64 [of a] have "uint a < 2 ^ n" unfolding W64_def by linarith
  with False show ?thesis by simp
qed

lemma uint_high32: "uint (drop_bit 32 a :: u64) = uint a div W32"
  by (simp add: uint_drop_bit64 W32_def)

lemma uint_push_bit64: "uint (push_bit n a :: u64) = (uint a * 2 ^ n) mod W64"
  by (simp add: unsigned_push_bit_eq push_bit_eq_mult [where 'a = int] take_bit_eq_mod [where 'a = int] W64_def)

lemma uint_shift32: "uint (push_bit 32 a :: u64) = (uint a * W32) mod W64"
  by (simp add: uint_push_bit64 W32_def)

lemma mult_less_W64:
  assumes "0 \<le> x" "x < W32" "0 \<le> y" "y < W32"
  shows "x * y < W64"
  using mult_strict_mono [of x W32 y W32] assms by (simp add: W32_square)

lemma uint_mult_no_wrap:
  "uint a * uint b < W64 \<Longrightarrow> uint (a * b :: u64) = uint a * uint b"
  by (simp add: uint_mult64)

lemma uint_mult_lt: "uint (a :: u64) * uint (b :: u64) < W64 * W64"
  using mult_strict_mono [of "uint a" W64 "uint b" W64] by simp

lemma uint_div_W32: "uint (a :: u64) div W32 < W32"
  using uint_lt64 [of a] by (intro div_less_of_less_mult) (simp_all add: W32_square)

lemma or_disjoint_add:
  fixes x y :: u64
  assumes "x AND y = 0"
  shows "x OR y = x + y"
  using disjunctive_add_eq_or [of x y] assms by simp

lemma W64_split: "i \<le> 64 \<Longrightarrow> W64 = 2 ^ i * 2 ^ (64 - i)"
  by (simp add: W64_def flip: power_add)

lemma bit_uint64: "bit (uint a) f \<longleftrightarrow> bit a f" for a :: u64
  by (auto simp: bit_uint_iff dest: bit_imp_le_length)

lemma bit_top_unset:
  fixes a :: u64
  assumes "uint a < 2 ^ Suc f" "\<not> bit a f"
  shows "uint a < 2 ^ f"
proof -
  have "uint a div 2 ^ f < 2" using assms(1) by (intro div_less_of_less_mult) simp_all
  moreover have "even (uint a div 2 ^ f)"
    using assms(2) bit_uint64 [of a f] by (simp add: bit_iff_odd [of "uint a"])
  ultimately have "uint a div 2 ^ f = 0"
    using pos_imp_zdiv_nonneg_iff [of "2 ^ f" "uint a"] by (auto elim!: evenE)
  then show ?thesis using mult_div_mod_eq [of "2 ^ f" "uint a"] pos_mod_bound [of "2 ^ f" "uint a"] by simp
qed

lemma bit_top_set:
  fixes a :: u64
  assumes "bit a f"
  shows "2 ^ f \<le> uint a"
proof (rule ccontr)
  assume "\<not> 2 ^ f \<le> uint a"
  then have "uint a div 2 ^ f = 0" by simp
  moreover have "odd (uint a div 2 ^ f)"
    using assms by (simp add: bit_uint64 flip: bit_iff_odd)
  ultimately show False by simp
qed

lemma and_exp_eq_0_iff: "a AND 2 ^ f = 0 \<longleftrightarrow> \<not> bit a f" for a :: u64
  by (simp add: and_exp_eq_0_iff_not_bit)

lemma uint_pos64: "a \<noteq> 0 \<Longrightarrow> 1 \<le> uint (a :: u64)"
  using uint_nonnegative [of a] uint_0_iff [of a] by linarith

lemma uint_exp64: "f < 64 \<Longrightarrow> uint (2 ^ f :: u64) = 2 ^ f"
  using uint_push_bit64 [of f 1] power_strict_increasing [of f 64 "2 :: int"]
  by (simp add: W64_def)

lemma low_byte: "unat (ucast y :: u8) = unat (y :: u64) mod 256"
  by (simp add: unsigned_ucast_eq take_bit_eq_mod [where 'a = nat])

lemma uint_ucast32: "uint (ucast (a :: u64) :: u32) = uint a mod W32"
  by (simp add: unsigned_ucast_eq take_bit_eq_mod [where 'a = int] W32_def)

lemma uint_ucast64: "uint (ucast (a :: u32) :: u64) = uint a"
  by (simp add: unsigned_ucast_eq take_bit_int_eq_self order.strict_trans2 [OF uint_lt2p [of a]])

lemma uint_mult32: "uint (a * b :: u32) = (uint a * uint b) mod W32"
  by (simp add: uint_word_ariths W32_def)

lemma W32_dvd_W64: "W32 dvd W64"
  by (simp flip: W32_square)

lemma mod_W64_mod_W32: "x mod W64 mod W32 = x mod W32"
  using W32_dvd_W64 by (rule mod_mod_cancel)

lemma even_uint64: "even (uint n) \<longleftrightarrow> even n" for n :: u64
  using bit_uint64 [of n 0] by (simp add: bit_0)

lemma uint_of_nat64:
  assumes "int n < W64"
  shows "uint (of_nat n :: u64) = int n"
  using assms uint_word_of_int [of "int n", where 'a = 64] by (simp add: W64_def)

lemma odd_pos64: "odd (uint (n :: u64)) \<Longrightarrow> 0 < uint n"
  by (metis even_zero order_less_le uint_nonnegative)

lemma unat_div2_less: "msk \<noteq> 0 \<Longrightarrow> unat (msk div 2) < unat (msk :: u64)"
  using unat_gt_0 [of msk] by (simp add: unat_div_distrib)

lemma drop_bit1_less: "msk \<noteq> 0 \<Longrightarrow> unat (drop_bit (Suc 0) msk) < unat (msk :: u64)"
  using unat_div2_less [of msk] by (simp add: drop_bit_Suc)

lemma unat_mod_less: "b \<noteq> 0 \<Longrightarrow> unat (a mod b) < unat (b :: u64)"
  by (simp add: unat_mod_distrib unat_gt_0)

lemma unat_lt64: "unat (a :: u64) < 2 ^ 64"
proof -
  have "unat a < 2 ^ LENGTH(64)" by (rule unsigned_less)
  then show ?thesis by simp
qed

lemma bit_unat64: "bit (unat a) i \<longleftrightarrow> bit a i" for a :: u64
  by (auto simp: bit_unsigned_iff dest: bit_imp_le_length)

lemma mod_mult_diff: "((a mod N) * (b mod N) - c) mod N = (a * b - c) mod N" for a b c N :: int
  by (rule mod_diff_cong) (simp_all add: mod_mult_eq)

end
