(* ===== verification/U64arith.thy ===== *)
theory U64arith
  imports Prelude
begin

text \<open>
  The 64-bit arithmetic helpers of \<^verbatim>\<open>utils/arithxx/u64arith.h\<close>: multi-word addition,
  subtraction, multiplication and shifts, modular addition and subtraction, halving modulo an odd
  number, trailing and leading zeros, the inverse modulo the word base, the integer square root
  and the Montgomery reduction. Output pointers become components of the result. Each helper has a portable
  C branch, which is the definition with the name of the function; where the x86-64 branch is a
  different algorithm written in assembly it is a second definition with the suffix \<open>_asm\<close>,
  and a lemma shows that the two branches agree. Checks that are compiled out of a release build
  (\<^verbatim>\<open>ASSERT\<close>, \<^verbatim>\<open>ASSERT_EXPENSIVE\<close>) are hypotheses of the lemmas,
  not branches of the model.
\<close>

section \<open>Instructions of the assembly branches\<close>

text \<open>Result and carry (or borrow) flag of the instructions add, adc, sub and sbb.\<close>

definition addq :: "u64 \<Rightarrow> u64 \<Rightarrow> u64 \<times> bool" where
  "addq d s = (d + s, d + s < s)"

definition adcq :: "u64 \<Rightarrow> u64 \<Rightarrow> bool \<Rightarrow> u64 \<times> bool" where
  "adcq d s cf = (d + s + of_bool cf, 2 ^ 64 \<le> uint d + uint s + of_bool cf)"

definition subq :: "u64 \<Rightarrow> u64 \<Rightarrow> u64 \<times> bool" where
  "subq d s = (d - s, d < s)"

definition sbbq :: "u64 \<Rightarrow> u64 \<Rightarrow> bool \<Rightarrow> u64 \<times> bool" where
  "sbbq d s cf = (d - s - of_bool cf, uint d < uint s + of_bool cf)"

section \<open>Comparison, addition, subtraction\<close>

definition u64arith_gt_2_2 :: "u64 \<Rightarrow> u64 \<Rightarrow> u64 \<Rightarrow> u64 \<Rightarrow> bool" where
  "u64arith_gt_2_2 a1 a2 b1 b2 = (a2 > b2 \<or> (a2 = b2 \<and> a1 > b1))"

definition u64arith_ge_2_2 :: "u64 \<Rightarrow> u64 \<Rightarrow> u64 \<Rightarrow> u64 \<Rightarrow> bool" where
  "u64arith_ge_2_2 a1 a2 b1 b2 = (a2 > b2 \<or> (a2 = b2 \<and> a1 \<ge> b1))"

definition u64arith_lt_2_2 :: "u64 \<Rightarrow> u64 \<Rightarrow> u64 \<Rightarrow> u64 \<Rightarrow> bool" where
  "u64arith_lt_2_2 a1 a2 b1 b2 = (a2 < b2 \<or> (a2 = b2 \<and> a1 < b1))"

definition u64arith_le_2_2 :: "u64 \<Rightarrow> u64 \<Rightarrow> u64 \<Rightarrow> u64 \<Rightarrow> bool" where
  "u64arith_le_2_2 a1 a2 b1 b2 = (a2 < b2 \<or> (a2 = b2 \<and> a1 \<le> b1))"

definition u64arith_add_2_2 :: "u64 \<Rightarrow> u64 \<Rightarrow> u64 \<Rightarrow> u64 \<Rightarrow> u64 \<times> u64" where
  "u64arith_add_2_2 r1 r2 a1 a2 =
     (let r1 = r1 + a1;
          r2 = r2 + (a2 + of_bool (r1 < a1))
      in (r1, r2))"

definition u64arith_add_1_2 :: "u64 \<Rightarrow> u64 \<Rightarrow> u64 \<Rightarrow> u64 \<times> u64" where
  "u64arith_add_1_2 r1 r2 a = u64arith_add_2_2 r1 r2 a 0"

definition u64arith_add_2_2_cy :: "u64 \<Rightarrow> u64 \<Rightarrow> u64 \<Rightarrow> u64 \<Rightarrow> u64 \<times> u64 \<times> bool" where
  "u64arith_add_2_2_cy r1 r2 a1 a2 =
     (let u1 = r1 + a1;
          u2 = r2 + a2 + of_bool (u1 < a1);
          cy = u64arith_gt_2_2 a1 a2 u1 u2
      in (u1, u2, cy))"

definition u64arith_add_2_2_cy_asm :: "u64 \<Rightarrow> u64 \<Rightarrow> u64 \<Rightarrow> u64 \<Rightarrow> u64 \<times> u64 \<times> bool" where
  "u64arith_add_2_2_cy_asm r1 r2 a1 a2 =
     (let (r1, cf) = addq r1 a1;
          (r2, cf) = adcq r2 a2 cf
      in (r1, r2, cf))"

definition u64arith_addmod_1_1 :: "u64 \<Rightarrow> u64 \<Rightarrow> u64 \<Rightarrow> u64" where
  "u64arith_addmod_1_1 a b m = (if b \<ge> m - a then b - (m - a) else a + b)"

definition u64arith_addmod_1_1_asm :: "u64 \<Rightarrow> u64 \<Rightarrow> u64 \<Rightarrow> u64" where
  "u64arith_addmod_1_1_asm a b m =
     (let t = a + b;
          tr = a - m;
          (tr, cf) = addq tr b
      in if \<not> cf then t else tr)"

definition u64arith_sub_2_2 :: "u64 \<Rightarrow> u64 \<Rightarrow> u64 \<Rightarrow> u64 \<Rightarrow> u64 \<times> u64" where
  "u64arith_sub_2_2 r1 r2 a1 a2 =
     (let u = r1;
          r1 = r1 - a1;
          r2 = r2 - (a2 + of_bool (r1 > u))
      in (r1, r2))"

definition u64arith_sub_1_2 :: "u64 \<Rightarrow> u64 \<Rightarrow> u64 \<Rightarrow> u64 \<times> u64" where
  "u64arith_sub_1_2 r1 r2 a = u64arith_sub_2_2 r1 r2 a 0"

definition u64arith_sub_2_2_cy :: "u64 \<Rightarrow> u64 \<Rightarrow> u64 \<Rightarrow> u64 \<Rightarrow> u64 \<times> u64 \<times> bool" where
  "u64arith_sub_2_2_cy r1 r2 a1 a2 =
     (let u1 = r1 - a1;
          u2 = r2 - a2;
          u2 = (if a1 > r1 then u2 - 1 else u2);
          cy = u64arith_gt_2_2 a1 a2 r1 r2
      in (u1, u2, cy))"

definition u64arith_sub_2_2_cy_asm :: "u64 \<Rightarrow> u64 \<Rightarrow> u64 \<Rightarrow> u64 \<Rightarrow> u64 \<times> u64 \<times> bool" where
  "u64arith_sub_2_2_cy_asm r1 r2 a1 a2 =
     (let (r1, cf) = subq r1 a1;
          (r2, cf) = sbbq r2 a2 cf
      in (r1, r2, cf))"

definition u64arith_sub_1_1_ge :: "u64 \<Rightarrow> u64 \<Rightarrow> u64" where
  "u64arith_sub_1_1_ge r a = (let t = r - a in if r \<ge> a then t else r)"

definition u64arith_sub_2_2_ge :: "u64 \<Rightarrow> u64 \<Rightarrow> u64 \<Rightarrow> u64 \<Rightarrow> u64 \<times> u64" where
  "u64arith_sub_2_2_ge r1 r2 a1 a2 =
     (let t1 = r1; t2 = r2
      in if \<not> u64arith_gt_2_2 a1 a2 r1 r2
         then (t1 - a1, t2 - a2 - of_bool (a1 > t1))
         else (r1, r2))"

definition u64arith_submod_1_1 :: "u64 \<Rightarrow> u64 \<Rightarrow> u64 \<Rightarrow> u64" where
  "u64arith_submod_1_1 a b m =
     (let tr = a - b;
          t = (if tr > a then m else 0)
      in tr + t)"

definition u64arith_submod_1_1_asm :: "u64 \<Rightarrow> u64 \<Rightarrow> u64 \<Rightarrow> u64" where
  "u64arith_submod_1_1_asm a b m =
     (let (t, cf) = subq a b;
          tr = t + m
      in if \<not> cf then t else tr)"

section \<open>Multiplication and shifts\<close>

definition u64arith_mul_1_1_2 :: "u64 \<Rightarrow> u64 \<Rightarrow> u64 \<times> u64" where
  "u64arith_mul_1_1_2 a b =
     (let msk = push_bit 32 1 - 1;
          ah = drop_bit 32 a; al = a AND msk;
          bh = drop_bit 32 b; bl = b AND msk;
          t1 = al * bl;
          t2 = 0;
          p1 = ah * bl;
          p2 = drop_bit 32 p1;
          p1 = push_bit 32 (p1 AND msk);
          (t1, t2) = u64arith_add_2_2 t1 t2 p1 p2;
          p1 = al * bh;
          p2 = drop_bit 32 p1;
          p1 = push_bit 32 (p1 AND msk);
          (t1, t2) = u64arith_add_2_2 t1 t2 p1 p2;
          t2 = t2 + ah * bh
      in (t1, t2))"

definition u64arith_sqr_1_2 :: "u64 \<Rightarrow> u64 \<times> u64" where
  "u64arith_sqr_1_2 a =
     (let msk = push_bit 32 1 - 1;
          ah = drop_bit 32 a; al = a AND msk;
          t1 = al * al;
          t2 = 0;
          p1 = ah * al;
          p2 = drop_bit 32 p1;
          p1 = push_bit 32 (p1 AND msk);
          (t1, t2) = u64arith_add_2_2 t1 t2 p1 p2;
          (t1, t2) = u64arith_add_2_2 t1 t2 p1 p2;
          t2 = t2 + ah * ah
      in (t1, t2))"

definition u64arith_shrd :: "u64 \<Rightarrow> u64 \<Rightarrow> nat \<Rightarrow> u64" where
  "u64arith_shrd hi lo i =
     (if i > 0 then drop_bit i lo OR push_bit (64 - i) hi else lo)"

definition u64arith_shr_2 :: "u64 \<Rightarrow> u64 \<Rightarrow> nat \<Rightarrow> u64 \<times> u64" where
  "u64arith_shr_2 lo hi i =
     (let lo = u64arith_shrd hi lo i;
          hi = drop_bit i hi
      in (lo, hi))"

definition u64arith_shld :: "u64 \<Rightarrow> u64 \<Rightarrow> nat \<Rightarrow> u64" where
  "u64arith_shld lo hi i =
     (if i > 0 then push_bit i hi OR drop_bit (64 - i) lo else hi)"

definition u64arith_shl_2 :: "u64 \<Rightarrow> u64 \<Rightarrow> nat \<Rightarrow> u64 \<times> u64" where
  "u64arith_shl_2 lo hi i =
     (let hi = u64arith_shld lo hi i;
          lo = push_bit i lo
      in (lo, hi))"

section \<open>Trailing and leading zeros\<close>

definition trailing_zeros :: "nat list" where
  "trailing_zeros =
     [8, 0, 1, 0, 2, 0, 1, 0, 3, 0, 1, 0, 2, 0, 1, 0, 4, 0, 1, 0, 2, 0, 1, 0, 3, 0, 1, 0, 2, 0, 1, 0,
      5, 0, 1, 0, 2, 0, 1, 0, 3, 0, 1, 0, 2, 0, 1, 0, 4, 0, 1, 0, 2, 0, 1, 0, 3, 0, 1, 0, 2, 0, 1, 0,
      6, 0, 1, 0, 2, 0, 1, 0, 3, 0, 1, 0, 2, 0, 1, 0, 4, 0, 1, 0, 2, 0, 1, 0, 3, 0, 1, 0, 2, 0, 1, 0,
      5, 0, 1, 0, 2, 0, 1, 0, 3, 0, 1, 0, 2, 0, 1, 0, 4, 0, 1, 0, 2, 0, 1, 0, 3, 0, 1, 0, 2, 0, 1, 0,
      7, 0, 1, 0, 2, 0, 1, 0, 3, 0, 1, 0, 2, 0, 1, 0, 4, 0, 1, 0, 2, 0, 1, 0, 3, 0, 1, 0, 2, 0, 1, 0,
      5, 0, 1, 0, 2, 0, 1, 0, 3, 0, 1, 0, 2, 0, 1, 0, 4, 0, 1, 0, 2, 0, 1, 0, 3, 0, 1, 0, 2, 0, 1, 0,
      6, 0, 1, 0, 2, 0, 1, 0, 3, 0, 1, 0, 2, 0, 1, 0, 4, 0, 1, 0, 2, 0, 1, 0, 3, 0, 1, 0, 2, 0, 1, 0,
      5, 0, 1, 0, 2, 0, 1, 0, 3, 0, 1, 0, 2, 0, 1, 0, 4, 0, 1, 0, 2, 0, 1, 0, 3, 0, 1, 0, 2, 0, 1, 0]"

text \<open>
  Both loops run forever on zero, which the callers exclude. The fuel is the number of bytes
  (eight) or bits (64) of a word; \<open>None\<close> is a loop that has not ended by then.
\<close>

fun u64arith_ctz_loop :: "nat \<Rightarrow> u64 \<Rightarrow> nat \<Rightarrow> nat option" where
  "u64arith_ctz_loop 0 y t = None"
| "u64arith_ctz_loop (Suc fuel) y t =
     (let lsh = trailing_zeros ! unat (ucast y :: u8);
          y = drop_bit lsh y;
          t = t + lsh
      in if lsh = 8 then u64arith_ctz_loop fuel y t else Some t)"

definition u64arith_ctz :: "u64 \<Rightarrow> nat option" where
  "u64arith_ctz a = u64arith_ctz_loop 8 a 0"

fun u64arith_clz_loop :: "nat \<Rightarrow> u64 \<Rightarrow> u64 \<Rightarrow> nat \<Rightarrow> nat option" where
  "u64arith_clz_loop 0 a t i = None"
| "u64arith_clz_loop (Suc fuel) a t i =
     (if a AND t = 0 then u64arith_clz_loop fuel a (drop_bit 1 t) (i + 1) else Some i)"

definition u64arith_clz :: "u64 \<Rightarrow> nat option" where
  "u64arith_clz a = u64arith_clz_loop 64 a (push_bit (64 - 1) 1) 0"

section \<open>Inverse, halving, square root, Montgomery reduction\<close>

text \<open>
  One Newton step of \<open>u64arith_invmod\<close>: the product is computed on 32 bits and widened
  before the 64-bit subtraction.
\<close>

definition u64arith_invmod_newton :: "u64 \<Rightarrow> u64 \<Rightarrow> u64" where
  "u64arith_invmod_newton n r =
     2 * r - ucast ((ucast r :: u32) * (ucast r :: u32) * (ucast n :: u32))"

definition u64arith_invmod :: "u64 \<Rightarrow> u64" where
  "u64arith_invmod n =
     (let r = (3 * n) XOR 2;
          r = u64arith_invmod_newton n r;
          r = u64arith_invmod_newton n r;
          r = u64arith_invmod_newton n r;
          k = (ucast (drop_bit 32 (r * n)) :: u32);
          k = k * ucast r;
          r = r - push_bit 32 (ucast k)
      in r)"

definition u64arith_div2mod :: "u64 \<Rightarrow> u64 \<Rightarrow> u64" where
  "u64arith_div2mod n m =
     (if n mod 2 = 0 then n div 2 else n div 2 + m div 2 + 1)"

definition u64arith_div2mod_asm :: "u64 \<Rightarrow> u64 \<Rightarrow> u64" where
  "u64arith_div2mod_asm n m =
     (let M = m div 2;
          cf = bit n 0;
          N = drop_bit 1 n;
          t = (if cf then M else 0);
          (N, _) = adcq N t cf
      in N)"

fun u64arith_sqrt_loop :: "nat \<Rightarrow> u64 \<Rightarrow> u64 \<Rightarrow> u64 \<Rightarrow> u64 \<times> u64 \<times> u64" where
  "u64arith_sqrt_loop 0 d xs s2 = (d, xs, s2)"
| "u64arith_sqrt_loop (Suc i) d xs s2 =
     (let c = xs + s2;
          xs = drop_bit 1 xs;
          (d, xs) = (if d \<ge> c then (d - c, xs OR s2) else (d, xs));
          s2 = drop_bit 2 s2
      in u64arith_sqrt_loop i d xs s2)"

text \<open>
  The leading zero count is a compiler builtin, undefined at zero; it is read as
  \<open>u64arith_clz\<close>.
\<close>

definition u64arith_sqrt :: "u64 \<Rightarrow> u64 option" where
  "u64arith_sqrt n =
     (case u64arith_clz n of None \<Rightarrow> None
      | Some z \<Rightarrow>
          let l = 63 - z;
              d = n;
              xs = 0;
              s2 = push_bit (l - l mod 2) 1;
              (d, xs, s2) = u64arith_sqrt_loop (l div 2) d xs s2;
              c = xs + s2;
              xs = drop_bit 1 xs;
              xs = (if d \<ge> c then xs OR s2 else xs)
          in Some xs)"

text \<open>The check \<open>t \<le> p\<close> is always compiled in; its failure is \<open>None\<close>.\<close>

fun u64arith_div2mod_loop :: "nat \<Rightarrow> u64 \<Rightarrow> u64 \<Rightarrow> u64" where
  "u64arith_div2mod_loop 0 t p = t"
| "u64arith_div2mod_loop (Suc k) t p = u64arith_div2mod_loop k (u64arith_div2mod t p) p"

definition u64arith_post_process_inverse ::
    "u64 \<Rightarrow> u64 \<Rightarrow> u64 \<Rightarrow> u64 \<Rightarrow> u64 \<Rightarrow> nat \<Rightarrow> u64 option" where
  "u64arith_post_process_inverse r p rem den_inv ratio k =
     (let t = (r * p + rem) * den_inv;
          ratio_p = (if ratio \<ge> p then ratio mod p else ratio)
      in if \<not> t \<le> p then None
         else let t = u64arith_addmod_1_1 ratio_p t p
              in Some (u64arith_div2mod_loop k t p))"

definition u64arith_redc :: "u64 \<Rightarrow> u64 \<Rightarrow> u64 \<Rightarrow> u64 \<Rightarrow> u64" where
  "u64arith_redc plow phigh m invm =
     (let t = phigh;
          tlow = plow * invm;
          (tlow, thigh) = u64arith_mul_1_1_2 tlow m;
          t = t + (if plow \<noteq> 0 then 1 else 0)
      in u64arith_addmod_1_1 t thigh m)"

text \<open>
  The assembly branch: \<^verbatim>\<open>cmpq $1, rax; sbbq $-1, t\<close> adds one to \<open>t\<close> unless
  the product is zero, and the final reduction selects by the carry of the addition. The
  multiply instruction is the exact double word product.
\<close>

definition u64arith_redc_asm :: "u64 \<Rightarrow> u64 \<Rightarrow> u64 \<Rightarrow> u64 \<Rightarrow> u64" where
  "u64arith_redc_asm plow phigh m invm =
     (let t = phigh;
          rax = plow * invm;
          (_, cf) = subq rax 1;
          (t, _) = sbbq t (- 1) cf;
          rdx = word_of_int ((uint rax * uint m) div 2 ^ 64);
          r = t + rdx;
          (t, _) = subq t m;
          (t, cf) = addq t rdx
      in if cf then t else r)"

section \<open>Values of the operations\<close>

lemma u64arith_gt_2_2_iff: "u64arith_gt_2_2 a1 a2 b1 b2 \<longleftrightarrow> dw b1 b2 < dw a1 a2"
  by (auto simp: u64arith_gt_2_2_def dw_less_iff)

lemma u64arith_ge_2_2_iff: "u64arith_ge_2_2 a1 a2 b1 b2 \<longleftrightarrow> dw b1 b2 \<le> dw a1 a2"
  by (auto simp: u64arith_ge_2_2_def dw_le_iff)

lemma u64arith_lt_2_2_iff: "u64arith_lt_2_2 a1 a2 b1 b2 \<longleftrightarrow> dw a1 a2 < dw b1 b2"
  by (auto simp: u64arith_lt_2_2_def dw_less_iff)

lemma u64arith_le_2_2_iff: "u64arith_le_2_2 a1 a2 b1 b2 \<longleftrightarrow> dw a1 a2 \<le> dw b1 b2"
  by (auto simp: u64arith_le_2_2_def dw_le_iff)

lemma dw_add_2_2:
  assumes "u64arith_add_2_2 r1 r2 a1 a2 = (s1, s2)"
  shows "dw s1 s2 = (dw r1 r2 + dw a1 a2) mod (W64 * W64)"
proof -
  define c :: int where "c = of_bool (r1 + a1 < a1)"
  have s1: "s1 = r1 + a1" and s2: "s2 = r2 + (a2 + of_bool (r1 + a1 < a1))"
    using assms by (auto simp: u64arith_add_2_2_def Let_def)
  have u1: "uint s1 = uint r1 + uint a1 - W64 * c"
    unfolding s1 c_def by (rule uint_carry_sum)
  have u2: "uint s2 = (uint r2 + uint a2 + c) mod W64"
    unfolding s2 c_def by (simp add: u64_simps mod_simps ac_simps)
  have "dw r1 r2 + dw a1 a2 = uint s1 + W64 * (uint r2 + uint a2 + c)"
    by (simp add: u1 dw_def algebra_simps)
  then show ?thesis
    using base_mod_square [of "uint s1" "uint r2 + uint a2 + c"] by (simp add: dw_def u2)
qed

lemma dw_sub_2_2:
  assumes "u64arith_sub_2_2 r1 r2 a1 a2 = (s1, s2)"
  shows "dw s1 s2 = (dw r1 r2 - dw a1 a2) mod (W64 * W64)"
proof -
  define c :: int where "c = of_bool (r1 < a1)"
  have s1: "s1 = r1 - a1" and s2: "s2 = r2 - (a2 + of_bool (r1 < a1))"
    using assms by (auto simp: u64arith_sub_2_2_def Let_def sub64_borrow_iff)
  have u1: "uint s1 = uint r1 - uint a1 + W64 * c"
    unfolding s1 c_def by (rule uint_borrow_diff)
  have u2: "uint s2 = (uint r2 - uint a2 - c) mod W64"
    unfolding s2 c_def by (simp add: u64_simps mod_simps algebra_simps)
  have "dw r1 r2 - dw a1 a2 = uint s1 + W64 * (uint r2 - uint a2 - c)"
    by (simp add: u1 dw_def algebra_simps)
  then show ?thesis
    using base_mod_square [of "uint s1" "uint r2 - uint a2 - c"] by (simp add: dw_def u2)
qed

lemma add_2_2_cy_fst:
  "u64arith_add_2_2_cy r1 r2 a1 a2 =
     (let (s1, s2) = u64arith_add_2_2 r1 r2 a1 a2
      in (s1, s2, u64arith_gt_2_2 a1 a2 s1 s2))"
  by (simp add: u64arith_add_2_2_cy_def u64arith_add_2_2_def Let_def ac_simps)

lemma dw_add_2_2_cy:
  assumes "u64arith_add_2_2_cy r1 r2 a1 a2 = (s1, s2, cy)"
  shows "dw s1 s2 + W64 * W64 * of_bool cy = dw r1 r2 + dw a1 a2"
proof -
  from assms have s: "u64arith_add_2_2 r1 r2 a1 a2 = (s1, s2)"
    and cy: "cy = (dw s1 s2 < dw a1 a2)"
    by (auto simp: add_2_2_cy_fst u64arith_gt_2_2_iff split: prod.splits)
  have "cy \<longleftrightarrow> W64 * W64 \<le> dw r1 r2 + dw a1 a2"
    unfolding cy dw_add_2_2 [OF s] by (rule wrapped_sum_less_iff) (auto simp: dw_lt)
  moreover have "dw r1 r2 + dw a1 a2 < 2 * (W64 * W64)"
    using dw_lt [of r1 r2] dw_lt [of a1 a2] by linarith
  ultimately show ?thesis
    unfolding dw_add_2_2 [OF s]
    using mod_pos_pos_trivial [of "dw r1 r2 + dw a1 a2 - W64 * W64" "W64 * W64"]
    by (cases cy) (auto simp: mod_diff_left_eq [symmetric] simp flip: not_le)
qed

lemma add_2_2_cy_asm: "u64arith_add_2_2_cy_asm r1 r2 a1 a2 = u64arith_add_2_2_cy r1 r2 a1 a2"
proof -
  obtain s1 s2 cy where s: "u64arith_add_2_2_cy r1 r2 a1 a2 = (s1, s2, cy)"
    using prod_cases3 by blast
  have eqs: "s1 = r1 + a1" "s2 = r2 + a2 + of_bool (s1 < a1)"
    using s by (auto simp: u64arith_add_2_2_cy_def Let_def)
  have "dw s1 s2 + W64 * W64 * of_bool cy = dw r1 r2 + dw a1 a2"
    using s by (rule dw_add_2_2_cy)
  then have "W64 * (uint s2 + W64 * of_bool cy) = W64 * (uint r2 + uint a2 + of_bool (s1 < a1))"
    using uint_carry_sum [of r1 a1] by (simp add: dw_def eqs(1) algebra_simps)
  then have "uint s2 + W64 * of_bool cy = uint r2 + uint a2 + of_bool (s1 < a1)"
    by simp
  moreover have "W64 \<le> uint s2 + W64" "uint s2 < W64" by simp_all
  ultimately have "cy \<longleftrightarrow> W64 \<le> uint r2 + uint a2 + of_bool (s1 < a1)"
    by (cases cy) (auto simp: not_le)
  then show ?thesis
    by (simp add: s u64arith_add_2_2_cy_asm_def addq_def adcq_def eqs W64_def)
qed

lemma dw_sub_2_2_cy:
  assumes "u64arith_sub_2_2_cy r1 r2 a1 a2 = (s1, s2, cy)"
  shows "dw s1 s2 = dw r1 r2 - dw a1 a2 + W64 * W64 * of_bool cy"
proof -
  from assms have s: "u64arith_sub_2_2 r1 r2 a1 a2 = (s1, s2)"
    and cy: "cy \<longleftrightarrow> dw r1 r2 < dw a1 a2"
    by (auto simp: u64arith_sub_2_2_cy_def u64arith_sub_2_2_def u64arith_gt_2_2_iff Let_def
          sub64_borrow_iff split: if_splits)
  have b: "0 \<le> dw r1 r2" "dw r1 r2 < W64 * W64" "0 \<le> dw a1 a2" "dw a1 a2 < W64 * W64"
    by (simp_all add: dw_lt)
  show ?thesis
  proof (cases cy)
    case True
    then have "(dw r1 r2 - dw a1 a2 + W64 * W64) mod (W64 * W64) = dw r1 r2 - dw a1 a2 + W64 * W64"
      using b cy by (intro mod_pos_pos_trivial) linarith+
    with True show ?thesis by (simp add: dw_sub_2_2 [OF s])
  next
    case False
    then have "(dw r1 r2 - dw a1 a2) mod (W64 * W64) = dw r1 r2 - dw a1 a2"
      using b cy by (intro mod_pos_pos_trivial) linarith+
    with False show ?thesis by (simp add: dw_sub_2_2 [OF s])
  qed
qed

lemma sub_2_2_cy_asm: "u64arith_sub_2_2_cy_asm r1 r2 a1 a2 = u64arith_sub_2_2_cy r1 r2 a1 a2"
proof -
  have "(uint r2 < uint a2 + of_bool (r1 < a1)) \<longleftrightarrow> u64arith_gt_2_2 a1 a2 r1 r2"
    by (cases "r1 < a1") (auto simp: u64arith_gt_2_2_def word_less_def word_uint_eq_iff order_le_less)
  then show ?thesis
    by (auto simp: u64arith_sub_2_2_cy_asm_def u64arith_sub_2_2_cy_def subq_def sbbq_def Let_def)
qed

lemma sub_2_2_ge_value:
  assumes "u64arith_sub_2_2_ge r1 r2 a1 a2 = (s1, s2)"
  shows "dw s1 s2 = (if dw a1 a2 \<le> dw r1 r2 then dw r1 r2 - dw a1 a2 else dw r1 r2)"
proof (cases "dw a1 a2 \<le> dw r1 r2")
  case True
  with assms have "u64arith_sub_2_2_cy r1 r2 a1 a2 = (s1, s2, False)"
    by (auto simp: u64arith_sub_2_2_ge_def u64arith_sub_2_2_cy_def u64arith_gt_2_2_iff Let_def)
  from dw_sub_2_2_cy [OF this] True show ?thesis by simp
next
  case False
  with assms show ?thesis by (simp add: u64arith_sub_2_2_ge_def u64arith_gt_2_2_iff)
qed

lemma addmod_1_1_value:
  assumes "a \<le> m" "b \<le> m"
  shows "uint (u64arith_addmod_1_1 a b m) =
           (if uint m \<le> uint a + uint b then uint a + uint b - uint m else uint a + uint b)"
proof -
  have d: "uint (m - a) = uint m - uint a"
    using assms(1) by (rule uint_sub64_no_wrap)
  have le: "m - a \<le> b \<longleftrightarrow> uint m \<le> uint a + uint b"
    by (simp add: word_le_def d) linarith
  show ?thesis
  proof (cases "uint m \<le> uint a + uint b")
    case True
    with le have "m - a \<le> b" by simp
    then show ?thesis
      using True by (simp add: u64arith_addmod_1_1_def uint_sub64_no_wrap d)
  next
    case False
    then have "uint a + uint b < W64" using uint_lt64 [of m] by linarith
    with False le show ?thesis by (simp add: u64arith_addmod_1_1_def uint_add64_no_wrap)
  qed
qed

lemma addmod_1_1_correct:
  assumes "a < m" "b \<le> m"
  shows "uint (u64arith_addmod_1_1 a b m) = (uint a + uint b) mod uint m"
proof -
  have ab: "uint a < uint m" "uint b \<le> uint m"
    using assms by (simp_all add: word_less_def word_le_def)
  have "uint m \<le> uint a + uint b \<Longrightarrow>
          (uint a + uint b) mod uint m = uint a + uint b - uint m"
    using ab mod_pos_pos_trivial [of "uint a + uint b - uint m" "uint m"]
    by (simp add: mod_diff_left_eq [symmetric])
  with ab show ?thesis
    using assms by (simp add: addmod_1_1_value)
qed

lemma addmod_1_1_asm:
  assumes "a < m" "b \<le> m"
  shows "u64arith_addmod_1_1_asm a b m = u64arith_addmod_1_1 a b m"
proof -
  have ab: "uint a < uint m" "uint (a - m) = uint a - uint m + W64" "uint (m - a) = uint m - uint a"
    using assms uint_sub64_no_wrap [of a m] by (simp_all add: word_less_def uint_sub64_wrap word_le_def)
  have "a - m + b < b \<longleftrightarrow> m - a \<le> b"
    unfolding add64_carry_iff word_le_def ab by linarith
  then show ?thesis
    by (auto simp: u64arith_addmod_1_1_asm_def u64arith_addmod_1_1_def addq_def Let_def)
qed

lemma submod_1_1_correct:
  assumes "a < m" "b < m"
  shows "uint (u64arith_submod_1_1 a b m) = (uint a - uint b) mod uint m"
proof (cases "a < b")
  case True
  have ab: "uint a < uint b" "uint b < uint m"
    using True assms by (simp_all add: word_less_def)
  have "uint (a - b + m) = uint a - uint b + uint m"
  proof -
    have "uint (a - b + m) = (uint a - uint b + uint m) mod W64"
      by (simp add: u64_simps mod_simps)
    also have "\<dots> = uint a - uint b + uint m"
      using ab uint_lt64 [of m] uint_nonnegative [of a] by (intro mod_W64_id) linarith+
    finally show ?thesis .
  qed
  moreover have "(uint a - uint b) mod uint m = uint a - uint b + uint m"
  proof -
    have "(uint a - uint b + uint m) mod uint m = uint a - uint b + uint m"
      using ab uint_nonnegative [of a] by (intro mod_pos_pos_trivial) linarith+
    then show ?thesis by simp
  qed
  ultimately show ?thesis
    using True by (simp add: u64arith_submod_1_1_def sub64_borrow_iff)
next
  case False
  then have "b \<le> a" by simp
  moreover have "(uint a - uint b) mod uint m = uint a - uint b"
    using assms(1) \<open>b \<le> a\<close> uint_nonnegative [of b] unfolding word_less_def word_le_def
    by (intro mod_pos_pos_trivial) linarith+
  ultimately show ?thesis
    using False by (simp add: u64arith_submod_1_1_def sub64_borrow_iff uint_sub64_no_wrap)
qed

lemma submod_1_1_asm: "u64arith_submod_1_1_asm a b m = u64arith_submod_1_1 a b m"
  by (simp add: u64arith_submod_1_1_asm_def u64arith_submod_1_1_def subq_def sub64_borrow_iff Let_def)

lemma dw_shifted_cross:
  fixes p :: u64
  shows "dw (push_bit 32 (p AND 4294967295)) (drop_bit 32 p) = uint p * W32"
proof -
  have r: "uint p mod W32 * W32 < W64"
    unfolding W32_square [symmetric] by (intro mult_strict_right_mono) auto
  have "dw (push_bit 32 (p AND 4294967295)) (drop_bit 32 p) =
          uint p mod W32 * W32 + W32 * W32 * (uint p div W32)"
    using r by (simp add: dw_def uint_shift32 uint_low32 uint_high32 W32_square)
  also have "\<dots> = (uint p mod W32 + W32 * (uint p div W32)) * W32"
    by (simp only: algebra_simps)
  also have "\<dots> = uint p * W32" by simp
  finally show ?thesis .
qed

lemma dw_add_2_2_exact:
  assumes "u64arith_add_2_2 r1 r2 a1 a2 = (s1, s2)" "dw r1 r2 + dw a1 a2 < W64 * W64"
  shows "dw s1 s2 = dw r1 r2 + dw a1 a2"
  using assms by (simp add: dw_add_2_2)

text \<open>Adding a product to the high word.\<close>

lemma dw_add_high:
  assumes "dw t1 t2 + W64 * uint h < W64 * W64"
  shows "dw t1 (t2 + h) = dw t1 t2 + W64 * uint h"
proof -
  have "W64 * (uint t2 + uint h) \<le> dw t1 t2 + W64 * uint h"
    by (simp add: dw_def distrib_left)
  with assms have "W64 * (uint t2 + uint h) < W64 * W64" by linarith
  then have "uint t2 + uint h < W64" by simp
  then show ?thesis by (simp add: dw_def uint_add64_no_wrap distrib_left)
qed

lemma halves_product:
  fixes a b :: int
  shows "a * b = a mod W32 * (b mod W32) + (a div W32 * (b mod W32)) * W32
           + (a mod W32 * (b div W32)) * W32 + W64 * (a div W32 * (b div W32))"
proof -
  have "a * b = (a mod W32 + W32 * (a div W32)) * (b mod W32 + W32 * (b div W32))"
    by simp
  also have "\<dots> = a mod W32 * (b mod W32) + (a div W32 * (b mod W32)) * W32
           + (a mod W32 * (b div W32)) * W32 + W32 * W32 * (a div W32 * (b div W32))"
    by (simp only: algebra_simps)
  finally show ?thesis by (simp only: W32_square)
qed

lemma mul_1_1_2_value:
  assumes "u64arith_mul_1_1_2 a b = (r1, r2)"
  shows "dw r1 r2 = uint a * uint b"
proof -
  define msk :: u64 where "msk = 4294967295"
  define ah al bh bl where "ah = drop_bit 32 a" "al = a AND msk" "bh = drop_bit 32 b" "bl = b AND msk"
  note d = this
  have low: "uint al = uint a mod W32" "uint bl = uint b mod W32"
    by (simp_all add: d msk_def uint_low32)
  have high: "uint ah = uint a div W32" "uint bh = uint b div W32"
    by (simp_all add: d uint_high32)
  have lt: "uint al < W32" "uint bl < W32" "uint ah < W32" "uint bh < W32"
    by (simp_all add: low high uint_div_W32)
  have prods: "uint (al * bl) = uint al * uint bl" "uint (ah * bl) = uint ah * uint bl"
    "uint (al * bh) = uint al * uint bh" "uint (ah * bh) = uint ah * uint bh"
    using lt by (simp_all add: uint_mult_no_wrap mult_less_W64)
  obtain s1 s2 where s: "u64arith_add_2_2 (al * bl) 0 (push_bit 32 (ah * bl AND msk)) (drop_bit 32 (ah * bl)) = (s1, s2)"
    by (meson surj_pair)
  obtain t1 t2 where t: "u64arith_add_2_2 s1 s2 (push_bit 32 (al * bh AND msk)) (drop_bit 32 (al * bh)) = (t1, t2)"
    by (meson surj_pair)
  have res: "r1 = t1" "r2 = t2 + ah * bh"
    using assms s t by (simp_all add: u64arith_mul_1_1_2_def Let_def d msk_def)
  have sum: "uint a * uint b = uint (al * bl) + uint (ah * bl) * W32 + uint (al * bh) * W32 + W64 * uint (ah * bh)"
    unfolding prods low high by (rule halves_product)
  have nn: "0 \<le> uint (al * bl)" "0 \<le> uint (ah * bl) * W32" "0 \<le> uint (al * bh) * W32" "0 \<le> W64 * uint (ah * bh)"
    by simp_all
  have tot: "uint a * uint b < W64 * W64" by (rule uint_mult_lt)
  have cross: "dw (push_bit 32 (p AND msk)) (drop_bit 32 p) = uint p * W32" for p
    unfolding msk_def by (rule dw_shifted_cross)
  have bnd: "uint (al * bl) + uint (ah * bl) * W32 < W64 * W64"
    "uint (al * bl) + uint (ah * bl) * W32 + uint (al * bh) * W32 < W64 * W64"
    using sum nn tot by linarith+
  have s': "dw s1 s2 = uint (al * bl) + uint (ah * bl) * W32"
    using bnd(1) by (subst dw_add_2_2_exact [OF s]) (simp_all add: cross)
  have t': "dw t1 t2 = uint (al * bl) + uint (ah * bl) * W32 + uint (al * bh) * W32"
    using bnd(2) by (subst dw_add_2_2_exact [OF t]) (simp_all add: cross s')
  show ?thesis
    unfolding res using sum tot t' by (subst dw_add_high) simp_all
qed

lemma mul_1_1_2_words:
  assumes "u64arith_mul_1_1_2 a b = (r1, r2)"
  shows "uint r1 = (uint a * uint b) mod W64" "uint r2 = (uint a * uint b) div W64"
  using mul_1_1_2_value [OF assms] by (simp_all add: dw_def flip: mul_1_1_2_value [OF assms])

lemma sqr_1_2_eq_mul: "u64arith_sqr_1_2 a = u64arith_mul_1_1_2 a a"
  by (simp add: u64arith_sqr_1_2_def u64arith_mul_1_1_2_def Let_def mult.commute)

text \<open>The shifts of a double word.\<close>

lemma shld_value:
  assumes "i < 64"
  shows "uint (u64arith_shld lo hi i) = (uint hi * 2 ^ i + uint lo * 2 ^ i div W64) mod W64"
proof (cases "i = 0")
  case True
  then show ?thesis by (simp add: u64arith_shld_def)
next
  case False
  have "push_bit i hi AND drop_bit (64 - i) lo = 0"
    using assms by (auto simp: bit_eq_iff bit_simps dest: bit_imp_le_length)
  then have "u64arith_shld lo hi i = push_bit i hi + drop_bit (64 - i) lo"
    using False by (simp add: u64arith_shld_def or_disjoint_add)
  moreover have "uint lo * 2 ^ i div W64 = uint lo div 2 ^ (64 - i)"
    using assms by (simp add: W64_split [of i] mult.commute [of "uint lo"])
  ultimately show ?thesis
    by (simp add: uint_add64 uint_push_bit64 uint_drop_bit64 mod_simps)
qed

lemma dw_shl_2:
  assumes "u64arith_shl_2 lo hi i = (lo', hi')" "i < 64"
  shows "dw lo' hi' = (dw lo hi * 2 ^ i) mod (W64 * W64)"
proof -
  have l: "uint lo' = (uint lo * 2 ^ i) mod W64"
    and h: "uint hi' = (uint hi * 2 ^ i + uint lo * 2 ^ i div W64) mod W64"
    using assms by (auto simp: u64arith_shl_2_def Let_def shld_value uint_push_bit64)
  have "dw lo hi * 2 ^ i = (uint lo * 2 ^ i) mod W64 + W64 * (uint lo * 2 ^ i div W64) + W64 * (uint hi * 2 ^ i)"
    by (simp add: dw_def distrib_right)
  also have "\<dots> = (uint lo * 2 ^ i) mod W64 + W64 * (uint hi * 2 ^ i + uint lo * 2 ^ i div W64)"
    by (simp add: distrib_left)
  finally show ?thesis
    by (simp add: base_mod_square) (simp add: dw_def l h)
qed

lemma shrd_value:
  assumes "i < 64"
  shows "uint (u64arith_shrd hi lo i) = uint lo div 2 ^ i + (uint hi mod 2 ^ i) * 2 ^ (64 - i)"
proof (cases "i = 0")
  case True
  then show ?thesis by (simp add: u64arith_shrd_def)
next
  case False
  have s: "W64 = 2 ^ i * 2 ^ (64 - i)" using assms by (simp add: W64_split)
  have "drop_bit i lo AND push_bit (64 - i) hi = 0"
    using assms by (auto simp: bit_eq_iff bit_simps dest: bit_imp_le_length)
  then have "u64arith_shrd hi lo i = drop_bit i lo + push_bit (64 - i) hi"
    using False by (simp add: u64arith_shrd_def or_disjoint_add)
  then have v: "uint (u64arith_shrd hi lo i) = (uint lo div 2 ^ i + uint hi * 2 ^ (64 - i)) mod W64"
    by (simp add: uint_add64 uint_push_bit64 uint_drop_bit64 mod_simps)
  have "uint lo div 2 ^ i < 2 ^ (64 - i)"
    using uint_lt64 [of lo] s by (intro div_less_of_less_mult) auto
  moreover have "uint hi mod 2 ^ i < 2 ^ i" by simp
  ultimately have "uint lo div 2 ^ i + 2 ^ (64 - i) * (uint hi mod 2 ^ i) < 0 + 2 ^ (64 - i) * 2 ^ i"
    by (intro base_repr_less) simp_all
  then have "uint lo div 2 ^ i + (uint hi mod 2 ^ i) * 2 ^ (64 - i) < W64"
    by (simp add: s mult.commute)
  moreover have "(uint lo div 2 ^ i + uint hi * 2 ^ (64 - i)) mod W64
      = (uint lo div 2 ^ i + (uint hi mod 2 ^ i) * 2 ^ (64 - i)) mod W64"
    unfolding s by (metis mod_add_right_eq mod_mult_mult2)
  ultimately show ?thesis
    by (simp add: v pos_imp_zdiv_nonneg_iff)
qed

lemma dw_shr_2:
  assumes "u64arith_shr_2 lo hi i = (lo', hi')" "i < 64"
  shows "dw lo' hi' = dw lo hi div 2 ^ i"
proof -
  have l: "uint lo' = uint lo div 2 ^ i + (uint hi mod 2 ^ i) * 2 ^ (64 - i)"
    and h: "uint hi' = uint hi div 2 ^ i"
    using assms by (auto simp: u64arith_shr_2_def Let_def shrd_value uint_drop_bit64)
  have s: "W64 = 2 ^ i * 2 ^ (64 - i)" using assms(2) by (simp add: W64_split)
  have "dw lo hi div 2 ^ i = uint lo div 2 ^ i + 2 ^ (64 - i) * uint hi"
    by (simp add: dw_def s mult.assoc div_add1_eq)
  also have "\<dots> = uint lo div 2 ^ i + 2 ^ (64 - i) * (uint hi mod 2 ^ i + 2 ^ i * (uint hi div 2 ^ i))"
    by simp
  also have "\<dots> = dw lo' hi'"
    by (simp only: dw_def l h s algebra_simps)
  finally show ?thesis by simp
qed

lemma clz_loop_value:
  assumes "a \<noteq> 0" "uint a < 2 ^ fuel" "fuel \<le> 64" "t = 2 ^ (fuel - 1)"
  shows "\<exists>k<fuel. u64arith_clz_loop fuel a t i = Some (i + k)
           \<and> 2 ^ (fuel - 1 - k) \<le> uint a \<and> uint a < 2 ^ (fuel - k)"
  using assms
proof (induction fuel arbitrary: i t)
  case 0
  with uint_pos64 [OF 0(1)] show ?case by simp
next
  case (Suc f)
  show ?case
  proof (cases "bit a f")
    case True
    then show ?thesis
      using Suc.prems by (intro exI [of _ 0]) (simp add: and_exp_eq_0_iff bit_top_set)
  next
    case False
    have lt: "uint a < 2 ^ f" using Suc.prems(2) False by (rule bit_top_unset)
    have "0 < f"
      using lt uint_pos64 [OF Suc.prems(1)] by (cases f) simp_all
    then have sh: "drop_bit 1 t = 2 ^ (f - 1)"
    proof -
      have "uint (drop_bit 1 t) = 2 ^ f div 2 ^ 1"
        unfolding uint_drop_bit64 using Suc.prems(3,4) by (simp add: uint_exp64)
      also have "(2 :: int) ^ f div 2 ^ 1 = 2 ^ (f - 1)"
        using \<open>0 < f\<close> by (cases f) simp_all
      also have "\<dots> = uint (2 ^ (f - 1) :: u64)"
        using Suc.prems(3) by (simp add: uint_exp64)
      finally show ?thesis by (simp only: word_uint_eq_iff)
    qed
    obtain k where "k < f" "u64arith_clz_loop f a (2 ^ (f - 1)) (i + 1) = Some (i + 1 + k)"
      "2 ^ (f - 1 - k) \<le> uint a" "uint a < 2 ^ (f - k)"
      using Suc.IH [of "2 ^ (f - 1)" "i + 1"] Suc.prems lt by auto
    then show ?thesis
      using False sh Suc.prems(4) by (intro exI [of _ "Suc k"]) (simp add: and_exp_eq_0_iff)
  qed
qed

lemma clz_value:
  assumes "a \<noteq> 0"
  shows "\<exists>z<64. u64arith_clz a = Some z \<and> 2 ^ (63 - z) \<le> uint a \<and> uint a < 2 ^ (64 - z)"
  using clz_loop_value [OF assms, of 64 "2 ^ 63" 0] uint_lt64 [of a]
  by (simp add: u64arith_clz_def W64_def)

lemma trailing_zeros_table:
  "list_all (\<lambda>(b, t). (t = 8 \<longleftrightarrow> b = 0) \<and> t \<le> 8 \<and> (b \<noteq> 0 \<longrightarrow> b mod 2 ^ t = 0 \<and> odd (b div 2 ^ t)))
     (enumerate 0 trailing_zeros)"
  by (simp add: trailing_zeros_def)

lemma trailing_zeros_entry:
  assumes "b < 256"
  shows "trailing_zeros ! b = 8 \<longleftrightarrow> b = 0" "trailing_zeros ! b \<le> 8"
    "b \<noteq> 0 \<Longrightarrow> 2 ^ (trailing_zeros ! b) dvd b" "b \<noteq> 0 \<Longrightarrow> odd (b div 2 ^ (trailing_zeros ! b))"
proof -
  have "length trailing_zeros = 256" by (simp add: trailing_zeros_def)
  then have "(b, trailing_zeros ! b) \<in> set (enumerate 0 trailing_zeros)"
    using assms nth_enumerate_eq [of b trailing_zeros 0] nth_mem [of b "enumerate 0 trailing_zeros"] by simp
  then have "(trailing_zeros ! b = 8 \<longleftrightarrow> b = 0) \<and> trailing_zeros ! b \<le> 8 \<and>
      (b \<noteq> 0 \<longrightarrow> b mod 2 ^ (trailing_zeros ! b) = 0 \<and> odd (b div 2 ^ (trailing_zeros ! b)))"
    using trailing_zeros_table unfolding list_all_iff by fastforce
  then show "trailing_zeros ! b = 8 \<longleftrightarrow> b = 0" "trailing_zeros ! b \<le> 8"
    "b \<noteq> 0 \<Longrightarrow> 2 ^ (trailing_zeros ! b) dvd b" "b \<noteq> 0 \<Longrightarrow> odd (b div 2 ^ (trailing_zeros ! b))"
    by (simp_all add: mod_0_imp_dvd)
qed

lemma exp_dvd_iff_low_byte:
  assumes "t \<le> 8"
  shows "(2 :: nat) ^ t dvd y \<longleftrightarrow> 2 ^ t dvd y mod 256"
proof -
  have "(256 :: nat) = 2 ^ t * 2 ^ (8 - t)" using assms by (simp flip: power_add)
  then have "(2 :: nat) ^ t dvd 256" by (metis dvd_triv_left)
  then show ?thesis by (simp add: dvd_mod_iff)
qed

lemma ctz_loop_value:
  assumes "y \<noteq> 0" "unat y < 256 ^ fuel"
  shows "\<exists>k. u64arith_ctz_loop fuel y t = Some (t + k)
           \<and> 2 ^ k dvd unat y \<and> odd (unat y div 2 ^ k)"
  using assms
proof (induction fuel arbitrary: y t)
  case 0
  then show ?case by (simp add: unat_eq_zero)
next
  case (Suc fuel)
  define b where "b = unat y mod 256"
  have b: "unat (ucast y :: u8) = b" "b < 256" by (simp_all add: b_def low_byte)
  note tz = trailing_zeros_entry [OF b(2)]
  show ?case
  proof (cases "b = 0")
    case True
    then have q: "unat (drop_bit 8 y) = unat y div 256" "256 dvd unat y"
      by (simp_all add: b_def unat_drop_bit_eq drop_bit_eq_div [where 'a = nat] mod_0_imp_dvd)
    have "unat (drop_bit 8 y) < 256 ^ fuel"
      using Suc.prems(2) by (simp add: q(1) less_mult_imp_div_less mult.commute)
    moreover have "drop_bit 8 y \<noteq> 0"
      using q Suc.prems(1) by (auto simp: unat_eq_zero [symmetric] simp del: unat_eq_zero unat_0_iff elim!: dvdE)
    ultimately obtain k where k: "u64arith_ctz_loop fuel (drop_bit 8 y) (t + 8) = Some (t + 8 + k)"
      "2 ^ k dvd unat y div 256" "odd (unat y div 256 div 2 ^ k)"
      using Suc.IH [of "drop_bit 8 y" "t + 8"] by (auto simp: q(1))
    have "2 ^ (8 + k) dvd unat y" "unat y div 2 ^ (8 + k) = unat y div 256 div 2 ^ k"
      using k(2) q(2) by (auto simp: power_add div_mult2_eq elim!: dvdE)
    with k True tz(1) b(1) show ?thesis
      by (intro exI [of _ "8 + k"]) (simp add: Let_def add.assoc)
  next
    case False
    define k where "k = trailing_zeros ! b"
    have k: "k < 8" "2 ^ k dvd b" "odd (b div 2 ^ k)"
      using tz False by (auto simp: k_def order_le_less)
    have "2 ^ k dvd unat y" using k exp_dvd_iff_low_byte [of k "unat y"] by (simp add: b_def)
    moreover have "odd (unat y div 2 ^ k)"
    proof -
      have "\<not> 2 ^ Suc k dvd b" using k(2,3) by (auto elim!: dvdE)
      then have "\<not> 2 ^ Suc k dvd unat y"
        using k(1) exp_dvd_iff_low_byte [of "Suc k" "unat y"] by (simp add: b_def)
      then show ?thesis using \<open>2 ^ k dvd unat y\<close> by (auto elim!: dvdE evenE)
    qed
    ultimately show ?thesis
      using k(1) b(1) by (intro exI [of _ k]) (simp add: Let_def k_def)
  qed
qed

lemma ctz_value:
  assumes "a \<noteq> 0"
  shows "\<exists>k. u64arith_ctz a = Some k \<and> 2 ^ k dvd unat a \<and> odd (unat a div 2 ^ k)"
proof -
  have "unat a < 256 ^ 8" using unsigned_less [of a] by simp
  from ctz_loop_value [OF assms this, of 0] show ?thesis by (simp add: u64arith_ctz_def)
qed

lemma newton_dvd:
  fixes n r :: int
  assumes "q dvd n * r - 1"
  shows "q * q dvd n * (2 * r - r * r * n) - 1"
proof -
  have "n * (2 * r - r * r * n) - 1 = - ((n * r - 1) * (n * r - 1))"
    by (simp add: algebra_simps)
  then show ?thesis using mult_dvd_mono [OF assms assms] by simp
qed

lemma invmod_newton_mod:
  "uint (u64arith_invmod_newton n r) mod W32 = (2 * uint r - uint r * uint r * uint n) mod W32"
  by (simp add: u64arith_invmod_newton_def u64_simps uint_ucast64 uint_ucast32 uint_mult32
      mod_W64_mod_W32 mod_simps uint_numeral W64_def [symmetric])

lemma invmod_newton_dvd:
  assumes "q dvd uint n * uint r - 1" "q' dvd q * q" "q' dvd W32"
  shows "q' dvd uint n * uint (u64arith_invmod_newton n r) - 1"
proof -
  let ?r = "2 * uint r - uint r * uint r * uint n"
  have "q' dvd uint n * ?r - 1"
    using newton_dvd [OF assms(1)] assms(2) dvd_trans by blast
  moreover have "W32 dvd uint (u64arith_invmod_newton n r) - ?r"
    using invmod_newton_mod [of n r] by (simp add: mod_eq_dvd_iff)
  then have "q' dvd uint n * (uint (u64arith_invmod_newton n r) - ?r)"
    using assms(3) by (meson dvd_mult dvd_trans)
  ultimately have "q' dvd (uint n * ?r - 1) + uint n * (uint (u64arith_invmod_newton n r) - ?r)"
    by (rule dvd_add)
  then show ?thesis by (simp add: algebra_simps)
qed

text \<open>The initial guess: correct on the last five bits, by looking at every odd residue.\<close>

lemma invmod_guess_table:
  "list_all (\<lambda>n. odd n \<longrightarrow> n * ((3 * n mod 32) XOR 2) mod 32 = 1) (map int [0..<32])"
  by (simp add: upt_rec)

lemma invmod_guess:
  assumes "odd (uint n)"
  shows "32 dvd uint n * uint ((3 * n) XOR 2 :: u64) - 1"
proof -
  define k where "k = uint n mod 32"
  have "k \<in> set (map int [0..<32])"
    by (auto simp: k_def image_iff intro!: bexI [of _ "nat (uint n mod 32)"])
  moreover have "odd k" using assms by (simp add: k_def odd_iff_mod_2_eq_one mod_mod_cancel)
  ultimately have table: "k * ((3 * k mod 32) XOR 2) mod 32 = 1"
    using invmod_guess_table by (auto simp: list_all_iff)
  have "uint ((3 * n) XOR 2 :: u64) mod 32 = take_bit 5 (uint (3 * n) XOR 2)"
    by (simp add: take_bit_eq_mod [where 'a = int] unsigned_xor_eq)
  also have "\<dots> = take_bit 5 (uint (3 * n)) XOR 2"
    by (simp add: take_bit_xor)
  also have "take_bit 5 (uint (3 * n)) = (3 * k) mod 32"
  proof -
    have "(32 :: int) dvd W64" by (simp add: W64_def)
    then show ?thesis
      by (simp add: take_bit_eq_mod [where 'a = int] uint_mult64 uint_numeral mod_mod_cancel k_def mod_simps)
  qed
  finally have "uint n * uint ((3 * n) XOR 2 :: u64) mod 32 = k * ((3 * k mod 32) XOR 2) mod 32"
    by (metis k_def mod_mult_eq mod_mod_trivial)
  then show ?thesis using table by (simp add: mod_eq_dvd_iff [of _ 32 1, symmetric])
qed

lemma invmod_last_step:
  fixes n r :: u64
  assumes "W32 dvd uint n * uint r - 1"
  shows "n * (r - push_bit 32 (ucast ((ucast (drop_bit 32 (r * n)) :: u32) * ucast r))) = 1"
proof -
  obtain K where K: "uint n * uint r = 1 + W32 * K"
    using assms by (auto elim!: dvdE simp: algebra_simps)
  let ?k = "(ucast (drop_bit 32 (r * n)) :: u32) * ucast r"
  have "uint (r * n) div W32 mod W32 = K mod W32"
  proof -
    have "uint (r * n) = (1 + W32 * K) mod (W32 * W32)"
      unfolding uint_mult64 mult.commute [of "uint r"] K W32_square ..
    also have "\<dots> = W32 * (K mod W32) + 1"
      by (simp add: zmod_zmult2_eq)
    finally show ?thesis by simp
  qed
  then have k: "uint ?k = (K * uint r) mod W32"
    by (simp add: uint_mult32 uint_ucast32 uint_high32 mod_simps)
  have "uint (push_bit 32 (ucast ?k) :: u64) = (W32 * (K * uint r)) mod W64"
  proof -
    have "(K * uint r) mod W32 * W32 mod (W32 * W32) = K * uint r * W32 mod (W32 * W32)"
      by (metis mod_mult_mult2 mod_mod_trivial)
    then show ?thesis
      by (simp only: uint_shift32 uint_ucast64 k W32_square mult.commute [of W32 "K * uint r"])
  qed
  then have "uint (n * (r - push_bit 32 (ucast ?k))) = (uint n * (uint r - W32 * (K * uint r))) mod W64"
    by (simp add: u64_simps mod_simps)
  also have "uint n * (uint r - W32 * (K * uint r)) = (uint n * uint r) * (1 - W32 * K)"
    by (simp add: algebra_simps)
  also have "\<dots> = 1 + W64 * (- (K * K))"
    by (simp add: K W32_square [symmetric] algebra_simps)
  also have "\<dots> mod W64 = 1" unfolding mod_mult_self2 by simp
  finally show ?thesis by (simp add: word_uint_eq_iff)
qed

lemma invmod_value:
  assumes "odd (uint n)"
  shows "n * u64arith_invmod n = 1"
proof -
  define r0 r1 r2 r3 where "r0 = (3 * n) XOR 2" "r1 = u64arith_invmod_newton n r0"
    "r2 = u64arith_invmod_newton n r1" "r3 = u64arith_invmod_newton n r2"
  note r = this
  have "32 dvd uint n * uint r0 - 1"
    using assms by (simp add: r invmod_guess)
  then have "1024 dvd uint n * uint r1 - 1"
    unfolding r(2) by (rule invmod_newton_dvd) (simp_all add: W32_def)
  then have "1048576 dvd uint n * uint r2 - 1"
    unfolding r(3) by (rule invmod_newton_dvd) (simp_all add: W32_def)
  then have "W32 dvd uint n * uint r3 - 1"
    unfolding r(4) by (rule invmod_newton_dvd) (simp_all add: W32_def)
  then show ?thesis
    using invmod_last_step [of n r3] by (simp add: u64arith_invmod_def Let_def r)
qed

lemma div2mod_value:
  assumes "odd (uint m)" "n < m"
  shows "2 * uint (u64arith_div2mod n m) = uint n + (if even (uint n) then 0 else uint m)"
    and "u64arith_div2mod n m < m"
proof -
  have nm: "uint n < uint m" using assms(2) by (simp add: word_less_def)
  have h: "uint (n div 2) = uint n div 2" "uint (m div 2) = uint m div 2"
    by (simp_all add: uint_div_distrib)
  have even_iff: "n mod 2 = 0 \<longleftrightarrow> even (uint n)"
    by (simp add: word_uint_eq_iff uint_mod_distrib dvd_eq_mod_eq_0)
  show v: "2 * uint (u64arith_div2mod n m) = uint n + (if even (uint n) then 0 else uint m)"
  proof (cases "even (uint n)")
    case True
    then show ?thesis using even_iff by (simp add: u64arith_div2mod_def h)
  next
    case False
    define s where "s = uint n div 2 + uint m div 2 + 1"
    have s: "2 * s = uint n + uint m"
      using False assms(1) by (auto simp: s_def elim!: oddE)
    then have "s < W64" "0 \<le> s" using nm uint_lt64 [of m] uint_nonnegative [of n] by linarith+
    then have "uint (n div 2 + m div 2 + 1) = s"
      by (simp add: u64_simps mod_simps h s_def)
    then show ?thesis using False even_iff s by (simp add: u64arith_div2mod_def)
  qed
  show "u64arith_div2mod n m < m"
    unfolding word_less_def
  proof -
    have "2 * uint (u64arith_div2mod n m) \<le> uint n + uint m" unfolding v by simp
    with nm show "uint (u64arith_div2mod n m) < uint m" by linarith
  qed
qed

lemma div2mod_asm: "u64arith_div2mod_asm n m = u64arith_div2mod n m"
proof -
  have "n mod 2 = 0 \<longleftrightarrow> \<not> bit n 0"
    by (simp add: bit_0 word_uint_eq_iff uint_mod_distrib flip: even_uint64 even_iff_mod_2_eq_zero)
  moreover have "drop_bit 1 n = n div 2" by (simp add: drop_bit_eq_div)
  ultimately show ?thesis
    by (simp add: u64arith_div2mod_asm_def u64arith_div2mod_def adcq_def Let_def)
qed

text \<open>Square root: the state of the digit-by-digit loop before the digit \<open>i\<close>.\<close>

definition sqrt_inv :: "int \<Rightarrow> nat \<Rightarrow> int \<Rightarrow> u64 \<Rightarrow> u64 \<Rightarrow> u64 \<Rightarrow> bool" where
  "sqrt_inv n i x d xs s2 \<longleftrightarrow>
     0 \<le> x \<and> 2 ^ (i + 1) dvd x \<and> x + 2 ^ (i + 1) \<le> W32 \<and> x * x \<le> n \<and> n < (x + 2 ^ (i + 1)) * (x + 2 ^ (i + 1)) \<and>
     uint d = n - x * x \<and> uint xs = x * 2 ^ (i + 1) \<and> uint s2 = 2 ^ i * 2 ^ i"

lemma sqrt_step_c:
  assumes "sqrt_inv n i x d xs s2"
  shows "uint (xs + s2) = (x + 2 ^ i) * (x + 2 ^ i) - x * x"
proof -
  have "0 \<le> x" "x + 2 ^ i < W32"
    using assms by (simp_all add: sqrt_inv_def) (smt (verit) zero_less_power)
  then have "(x + 2 ^ i) * (x + 2 ^ i) < W32 * W32"
    by (intro mult_strict_mono) auto
  moreover have "0 \<le> x * x" by simp
  ultimately have "(x + 2 ^ i) * (x + 2 ^ i) - x * x < W64" by (simp only: W32_square)
  moreover have "uint xs + uint s2 = (x + 2 ^ i) * (x + 2 ^ i) - x * x"
    using assms by (simp add: sqrt_inv_def algebra_simps)
  ultimately show ?thesis by (simp add: uint_add64_no_wrap)
qed

lemma sqrt_or_digit:
  assumes "sqrt_inv n i x d xs s2"
  shows "uint (drop_bit 1 xs) = x * 2 ^ i" "uint (drop_bit 1 xs OR s2) = (x + 2 ^ i) * 2 ^ i"
proof -
  have inv: "0 \<le> x" "2 ^ (i + 1) dvd x" "x + 2 ^ (i + 1) \<le> W32" "uint xs = x * 2 ^ (i + 1)"
    "uint s2 = 2 ^ i * 2 ^ i" using assms by (simp_all add: sqrt_inv_def)
  show h: "uint (drop_bit 1 xs) = x * 2 ^ i"
    by (simp add: uint_drop_bit64 inv(4))
  obtain y where y: "x = 2 ^ (i + 1) * y" using inv(2) by (auto elim: dvdE)
  have "drop_bit 1 xs AND s2 = 0"
  proof -
    have "uint (drop_bit 1 xs) = push_bit (2 * i + 1) y"
    proof -
      have "(2 :: int) ^ (2 * i + 1) = 2 ^ (i + 1) * 2 ^ i" 
      proof -
        have "2 * i + 1 = i + 1 + i" by simp
        then show ?thesis by (simp only: power_add)
      qed
      then show ?thesis by (simp only: h y push_bit_eq_mult ac_simps)
    qed
    moreover have "uint s2 = push_bit (2 * i) 1"
      by (simp only: inv(5) push_bit_eq_mult mult_1 power_add mult_2)
    ultimately have "uint (drop_bit 1 xs AND s2) = push_bit (2 * i + 1) y AND push_bit (2 * i) 1"
      by (simp only: unsigned_and_eq)
    also have "\<dots> = 0"
      by (rule bit_eqI) (auto simp: bit_simps bit_0)
    finally show ?thesis by (simp add: uint_0_iff)
  qed
  then have "drop_bit 1 xs OR s2 = drop_bit 1 xs + s2" by (rule or_disjoint_add)
  moreover have "uint (drop_bit 1 xs) + uint s2 = (x + 2 ^ i) * 2 ^ i"
    unfolding h inv(5) by (simp only: distrib_right)
  moreover have "(x + 2 ^ i) * 2 ^ i < W64"
  proof -
    have "x + 2 ^ i < W32" using inv(3) zero_less_power [of "2 :: int" i] by (simp del: zero_less_power)
    moreover have "(2 :: int) ^ i \<le> x + 2 ^ i" using inv(1) by simp
    ultimately have "(x + 2 ^ i) * 2 ^ i < W32 * W32"
      using inv(1) by (intro mult_strict_mono) auto
    then show ?thesis by (simp only: W32_square)
  qed
  ultimately show "uint (drop_bit 1 xs OR s2) = (x + 2 ^ i) * 2 ^ i"
    by (simp add: uint_add64_no_wrap)
qed

text \<open>The digit is taken exactly when the square of the larger root still fits.\<close>

lemma sqrt_digit:
  assumes "sqrt_inv n i x d xs s2"
  shows "xs + s2 \<le> d \<longleftrightarrow> (x + 2 ^ i) * (x + 2 ^ i) \<le> n"
    and "xs + s2 \<le> d \<Longrightarrow> uint (d - (xs + s2)) = n - (x + 2 ^ i) * (x + 2 ^ i)"
proof -
  have d: "uint d = n - x * x" using assms by (simp add: sqrt_inv_def)
  show "xs + s2 \<le> d \<longleftrightarrow> (x + 2 ^ i) * (x + 2 ^ i) \<le> n"
    unfolding word_le_def sqrt_step_c [OF assms] d by linarith
  show "uint (d - (xs + s2)) = n - (x + 2 ^ i) * (x + 2 ^ i)" if "xs + s2 \<le> d"
    using that by (simp add: uint_sub64_no_wrap sqrt_step_c [OF assms] d)
qed

lemma sqrt_loop_inv:
  assumes "sqrt_inv n i x d xs s2" "u64arith_sqrt_loop i d xs s2 = (d', xs', s2')"
  shows "\<exists>x'. sqrt_inv n 0 x' d' xs' s2'"
  using assms
proof (induction i arbitrary: x d xs s2)
  case 0
  then show ?case by auto
next
  case (Suc i)
  let ?b = "xs + s2 \<le> d"
  let ?x = "if ?b then x + 2 ^ Suc i else x"
  have p: "2 * 2 ^ i \<le> 4 * (2 :: int) ^ i" by simp
  have "sqrt_inv n i ?x (if ?b then d - (xs + s2) else d)
          (if ?b then drop_bit 1 xs OR s2 else drop_bit 1 xs) (drop_bit 2 s2)"
    using p Suc.prems(1) sqrt_digit [OF Suc.prems(1)] sqrt_or_digit [OF Suc.prems(1)]
    by (auto simp: sqrt_inv_def uint_drop_bit64 not_le algebra_simps intro: dvd_add dvd_trans
        elim!: order_trans [rotated])
  then show ?case
    using Suc.IH Suc.prems(2) by (auto simp: Let_def split: if_splits)
qed

lemma sqrt_value:
  assumes "0 < n"
  shows "\<exists>s. u64arith_sqrt n = Some s \<and> uint s * uint s \<le> uint n
           \<and> uint n < (uint s + 1) * (uint s + 1)"
proof -
  have "n \<noteq> 0" using assms by auto
  then obtain z where z: "z < 64" "u64arith_clz n = Some z" "uint n < 2 ^ (64 - z)"
    using clz_value by blast
  define l where "l = 63 - z"
  have "64 - z = l + 1" using z(1) by (simp add: l_def)
  with z(3) have l: "l < 64" "uint n < 2 ^ (l + 1)" by (simp_all add: l_def)
  define i where "i = l div 2"
  have li: "l - l mod 2 = 2 * i" "l + 1 \<le> 2 * i + 2" "i \<le> 31" using l(1) minus_mod_eq_mult_div [of l 2] by (simp_all add: i_def)
  have "(2 :: int) ^ (i + 1) \<le> 2 ^ 32" using li(3) by (intro power_increasing) auto
  moreover have "uint n < 2 ^ (i + 1) * 2 ^ (i + 1)"
  proof -
    have "(2 :: int) ^ (l + 1) \<le> 2 ^ ((i + 1) + (i + 1))"
      using li(2) by (intro power_increasing) auto
    with l(2) show ?thesis by (simp add: power_add)
  qed
  moreover have "uint (2 ^ (2 * i) :: u64) = 2 ^ i * 2 ^ i"
    using li(3) uint_exp64 [of "2 * i"] by (simp only: mult_2 power_add)
  ultimately have inv: "sqrt_inv (uint n) i 0 n 0 (2 ^ (2 * i))"
    by (simp add: sqrt_inv_def W32_def)
  obtain d xs s2 where loop: "u64arith_sqrt_loop i n 0 (2 ^ (2 * i)) = (d, xs, s2)"
    using prod_cases3 by blast
  obtain x where x: "sqrt_inv (uint n) 0 x d xs s2"
    using sqrt_loop_inv [OF inv loop] by blast
  let ?s = "if xs + s2 \<le> d then drop_bit 1 xs OR s2 else drop_bit 1 xs"
  have "u64arith_sqrt n = Some ?s"
    using z(2) loop by (simp add: u64arith_sqrt_def Let_def l_def [symmetric] i_def [symmetric] li(1))
  moreover have "uint ?s = (if (x + 1) * (x + 1) \<le> uint n then x + 1 else x)"
    using sqrt_digit(1) [OF x] sqrt_or_digit [OF x] by simp
  moreover have "x * x \<le> uint n" "uint n < (x + 2) * (x + 2)"
    using x by (simp_all add: sqrt_inv_def)
  ultimately show ?thesis by (auto simp: algebra_simps)
qed

text \<open>Division by a power of two modulo an odd number.\<close>

lemma div2mod_loop_value:
  assumes "odd (uint p)" "t < p"
  shows "u64arith_div2mod_loop k t p < p
    \<and> (uint (u64arith_div2mod_loop k t p) * 2 ^ k) mod uint p = uint t mod uint p"
  using assms(2)
proof (induction k arbitrary: t)
  case 0
  then show ?case by simp
next
  case (Suc k)
  let ?h = "u64arith_div2mod t p"
  let ?r = "u64arith_div2mod_loop k ?h p"
  have h: "?h < p" "(2 * uint ?h) mod uint p = uint t mod uint p"
    using div2mod_value [OF assms(1) Suc.prems] by auto
  have IH: "?r < p" "(uint ?r * 2 ^ k) mod uint p = uint ?h mod uint p"
    using Suc.IH [OF h(1)] by auto
  have "(uint ?r * 2 ^ Suc k) mod uint p = (2 * ((uint ?r * 2 ^ k) mod uint p)) mod uint p"
    by (simp add: mod_simps ac_simps)
  with IH h(2) show ?case by (simp add: mod_simps)
qed

lemma post_process_inverse_value:
  assumes p: "odd (uint p)" "1 < uint p"
    and den: "den * den_inv = 1" "uint r < uint den" "uint rem < uint den"
    and div: "uint den dvd uint r * uint p + uint rem"
  shows "\<exists>t. u64arith_post_process_inverse r p rem den_inv ratio k = Some t \<and> t < p
    \<and> (uint t * uint den * 2 ^ k) mod uint p = (uint ratio * uint den + uint rem) mod uint p"
proof -
  obtain t0 where t0: "uint r * uint p + uint rem = uint den * t0" using div by (auto elim: dvdE)
  have den_pos: "0 < uint den" using den(2) uint_nonnegative [of r] by linarith
  have "0 \<le> uint den * t0" by (simp flip: t0)
  then have t0_nonneg: "0 \<le> t0" using den_pos by (simp add: zero_le_mult_iff)
  have "uint den * t0 < uint den * (uint p + 1)"
  proof -
    have "uint r * uint p \<le> (uint den - 1) * uint p" using den(2) by (intro mult_right_mono) auto
    then have "uint den * t0 \<le> (uint den - 1) * uint p + (uint den - 1)" using t0 den(3) by linarith
    also have "\<dots> = (uint den - 1) * (uint p + 1)" by (simp add: algebra_simps)
    also have "\<dots> < uint den * (uint p + 1)" using p(2) by (intro mult_strict_right_mono) auto
    finally show ?thesis .
  qed
  then have t0_le: "t0 \<le> uint p" using den_pos by simp
  define t where "t = (r * p + rem) * den_inv"
  have t: "uint t = t0"
  proof -
    have "uint t = (uint den * t0 * uint den_inv) mod W64"
      by (simp add: t_def u64_simps mod_simps flip: t0)
    also have "\<dots> = (uint (den * den_inv) * t0) mod W64"
      by (simp add: uint_mult64 mod_simps ac_simps)
    also have "\<dots> = t0"
    proof -
      have "t0 < W64" using t0_le uint_lt64 [of p] by linarith
      with t0_nonneg show ?thesis by (simp add: den(1))
    qed
    finally show ?thesis .
  qed
  define q where "q = (if ratio \<ge> p then ratio mod p else ratio)"
  have q: "q < p" "uint q mod uint p = uint ratio mod uint p"
    using p(2) by (auto simp: q_def word_less_def word_le_def uint_mod_distrib not_le)
  have tp: "t \<le> p" using t0_le by (simp add: word_le_def t)
  define u where "u = u64arith_addmod_1_1 q t p"
  have u: "uint u = (uint q + uint t) mod uint p" "u < p"
    using addmod_1_1_correct [OF q(1) tp] p(2) by (simp_all add: u_def word_less_def)
  define s where "s = u64arith_div2mod_loop k u p"
  have s: "s < p" "(uint s * 2 ^ k) mod uint p = uint u mod uint p"
    using div2mod_loop_value [OF p(1) u(2)] by (auto simp: s_def)
  have "u64arith_post_process_inverse r p rem den_inv ratio k = Some s"
    using tp by (simp add: u64arith_post_process_inverse_def Let_def t_def q_def u_def s_def)
  moreover have "(uint s * uint den * 2 ^ k) mod uint p = (uint ratio * uint den + uint rem) mod uint p"
  proof -
    have "(uint s * uint den * 2 ^ k) mod uint p = ((uint s * 2 ^ k) mod uint p * uint den) mod uint p"
      by (simp add: mod_simps ac_simps)
    also have "\<dots> = ((uint q mod uint p + t0) * uint den) mod uint p"
      unfolding s(2) u(1) t by (metis mod_add_left_eq mod_mod_trivial mod_mult_left_eq)
    also have "\<dots> = (uint ratio * uint den + uint den * t0) mod uint p"
    proof -
      have "((uint ratio mod uint p + t0) * uint den) mod uint p = ((uint ratio + t0) * uint den) mod uint p"
        by (metis mod_add_left_eq mod_mult_left_eq)
      then show ?thesis by (simp add: q(2) distrib_right mult.commute [of t0])
    qed
    also have "\<dots> = (uint ratio * uint den + uint rem) mod uint p"
    proof -
      have "uint ratio * uint den + uint den * t0 = uint ratio * uint den + uint rem + uint r * uint p"
        by (simp flip: t0)
      then show ?thesis by (simp only: mod_mult_self1)
    qed
    finally show ?thesis .
  qed
  ultimately show ?thesis using s(1) by blast
qed

section \<open>Montgomery reduction\<close>

lemma redc_sum:
  assumes inv: "invm * m = - 1"
    and mul: "u64arith_mul_1_1_2 (plow * invm) m = (tlow, thigh)"
  shows "uint plow + uint (plow * invm) * uint m = W64 * (uint thigh + (if plow \<noteq> 0 then 1 else 0))"
proof -
  have tm: "uint (plow * invm) * uint m = uint tlow + W64 * uint thigh"
    using mul_1_1_2_value [OF mul] by (simp add: dw_def)
  have "tlow = - plow"
  proof -
    have "uint tlow = uint (plow * invm * m)"
      using mul_1_1_2_words(1) [OF mul] by (simp add: uint_mult64)
    then have "tlow = plow * invm * m" by (simp only: word_uint_eq_iff)
    also have "\<dots> = - plow" by (simp add: mult.assoc inv)
    finally show ?thesis .
  qed
  then have "uint plow + uint tlow = W64 * (if plow \<noteq> 0 then 1 else 0)"
    using uint_sub64_wrap [of 0 plow] word_neq_0_conv [of plow] by auto
  then show ?thesis by (simp add: tm distrib_left)
qed

lemma redc_high:
  assumes "u64arith_mul_1_1_2 t m = (tlow, thigh)" "m \<noteq> 0"
  shows "uint thigh \<le> uint m - 1"
proof -
  have "uint t * uint m < W64 * uint m"
    using uint_pos64 [OF assms(2)] by (intro mult_strict_right_mono) auto
  then have "uint thigh < uint m"
    unfolding mul_1_1_2_words(2) [OF assms(1)] by (intro div_less_of_less_mult) auto
  then show ?thesis by simp
qed

lemma redc_value:
  assumes inv: "invm * m = - 1" and "phigh < m"
  shows "u64arith_redc plow phigh m invm < m"
    and "(uint (u64arith_redc plow phigh m invm) * W64) mod uint m = dw plow phigh mod uint m"
proof -
  obtain tlow thigh where mul: "u64arith_mul_1_1_2 (plow * invm) m = (tlow, thigh)"
    by (meson surj_pair)
  define c :: int where "c = (if plow \<noteq> 0 then 1 else 0)"
  define t where "t = phigh + (if plow \<noteq> 0 then 1 else 0)"
  define r where "r = u64arith_redc plow phigh m invm"
  have ph: "uint phigh < uint m" and m0: "m \<noteq> 0" using assms(2) by (auto simp: word_less_def)
  have c01: "0 \<le> c" "c \<le> 1" by (simp_all add: c_def)
  have th: "uint thigh \<le> uint m - 1" using redc_high [OF mul m0] .
  have t: "uint t = uint phigh + c"
  proof -
    have "uint phigh + c < W64" using ph uint_lt64 [of m] c01(2) by linarith
    then show ?thesis by (auto simp: t_def c_def uint_add64 split: if_splits)
  qed
  have r: "r = u64arith_addmod_1_1 t thigh m"
    by (simp add: r_def u64arith_redc_def mul t_def Let_def)
  have "t \<le> m" "thigh \<le> m" unfolding word_le_def t using ph c01 th by linarith+
  note v = addmod_1_1_value [OF this, folded r]
  show "u64arith_redc plow phigh m invm < m"
    unfolding r_def [symmetric] word_less_def v t using ph th c01 by auto
  have "uint r mod uint m = (uint t + uint thigh) mod uint m"
    unfolding v by (simp add: mod_diff_left_eq [symmetric])
  then have "(uint r * W64) mod uint m = ((uint t + uint thigh) * W64) mod uint m"
    by (metis mod_mult_left_eq)
  also have "(uint t + uint thigh) * W64 = dw plow phigh + uint (plow * invm) * uint m"
    using redc_sum [OF inv mul] by (simp add: t dw_def c_def algebra_simps)
  also have "\<dots> mod uint m = dw plow phigh mod uint m" by simp
  finally show "(uint (u64arith_redc plow phigh m invm) * W64) mod uint m = dw plow phigh mod uint m"
    by (simp add: r_def)
qed

lemma mult_word_hi:
  assumes "u64arith_mul_1_1_2 a b = (lo, hi)"
  shows "word_of_int ((uint a * uint b) div 2 ^ 64) = hi"
  using mul_1_1_2_words(2) [OF assms] by (metis W64_def word_of_int_uint)

text \<open>
  The two branches of the Montgomery reduction, for every high word below the modulus: they agree unless
  the incremented high word is the modulus itself, which the assembly branch then does not
  subtract.
\<close>

lemma redc_asm_value:
  assumes inv: "invm * m = - 1" and "phigh < m"
  shows "u64arith_redc_asm plow phigh m invm = u64arith_redc plow phigh m invm
    + (if uint phigh + 1 = uint m \<and> plow \<noteq> 0 then m else 0)"
proof -
  obtain tlow thigh where mul: "u64arith_mul_1_1_2 (plow * invm) m = (tlow, thigh)"
    by (meson surj_pair)
  have zero: "plow * invm = 0 \<longleftrightarrow> plow = 0"
  proof
    assume "plow * invm = 0"
    then have "plow * invm * m = 0" by simp
    then show "plow = 0" by (simp add: mult.assoc inv)
  qed simp
  define t where "t = phigh + (if plow \<noteq> 0 then 1 else 0)"
  have t_asm: "phigh - (- 1) - of_bool (plow * invm < 1) = t"
    using zero by (auto simp: t_def word_less_1)
  have m0: "m \<noteq> 0" and ph: "uint phigh < uint m"
    using assms(2) by (auto simp: word_less_def)
  have th: "thigh \<le> m" using redc_high [OF mul m0] by (simp add: word_le_def)
  have ut: "uint t = uint phigh + (if plow \<noteq> 0 then 1 else 0)"
  proof -
    have "uint phigh + uint (1 :: u64) < W64" unfolding unsigned_1 using ph uint_lt64 [of m] by linarith
    from uint_add64_no_wrap [OF this] show ?thesis by (auto simp: t_def)
  qed
  note defs = u64arith_redc_asm_def u64arith_redc_def mul mult_word_hi [OF mul, simplified]
    u64arith_addmod_1_1_asm_def addq_def subq_def sbbq_def Let_def
  show ?thesis
  proof (cases "t = m")
    case True
    then have e: "uint phigh + 1 = uint m \<and> plow \<noteq> 0"
      using ut ph by (auto split: if_splits)
    then have "phigh + 1 = m"
      using True by (simp add: t_def)
    then show ?thesis
      using e t_asm True by (simp add: defs t_def u64arith_addmod_1_1_def add.commute)
  next
    case False
    have "t < m"
      using ut ph False by (auto simp: word_less_def word_uint_eq_iff split: if_splits)
    then have "u64arith_addmod_1_1_asm t thigh m = u64arith_addmod_1_1 t thigh m"
      using th by (rule addmod_1_1_asm)
    moreover have "uint t \<noteq> uint m"
      using False word_uint_eqI by blast
    then have "\<not> (uint phigh + 1 = uint m \<and> plow \<noteq> 0)"
      using ut by (cases "plow = 0") simp_all
    ultimately show ?thesis
      using t_asm by (simp add: defs t_def split: if_splits)
  qed
qed

lemma redc_asm_eq:
  assumes "invm * m = - 1" "uint phigh + 1 < uint m"
  shows "u64arith_redc_asm plow phigh m invm = u64arith_redc plow phigh m invm"
proof -
  have "phigh < m"
    using assms(2) by (simp add: word_less_def)
  then show ?thesis
    using redc_asm_value [OF assms(1)] assms(2) by simp
qed

section \<open>Properties\<close>

text \<open>
  The portable multiplication of two words, built from four products of half words, gives the
  exact two word product, and the squaring function gives the same words.
\<close>

theorem u64arith_mul_exact:
  "(case u64arith_mul_1_1_2 a b of (r1, r2) \<Rightarrow> dw r1 r2 = uint a * uint b)
   \<and> u64arith_sqr_1_2 a = u64arith_mul_1_1_2 a a"
  using mul_1_1_2_value [of a b] by (simp add: sqr_1_2_eq_mul split: prod.split)

text \<open>
  Two word addition and subtraction with carry: the sum with the carry weighted by the square
  of the base, and the difference with the borrow, are exact, and the assembly branches compute
  the same words and flags as the portable ones.
\<close>

theorem u64arith_carry_exact:
  "(case u64arith_add_2_2_cy r1 r2 a1 a2 of (s1, s2, cy) \<Rightarrow>
      dw s1 s2 + W64 * W64 * of_bool cy = dw r1 r2 + dw a1 a2)
   \<and> (case u64arith_sub_2_2_cy r1 r2 a1 a2 of (s1, s2, cy) \<Rightarrow>
      dw s1 s2 = dw r1 r2 - dw a1 a2 + W64 * W64 * of_bool cy)
   \<and> u64arith_add_2_2_cy_asm r1 r2 a1 a2 = u64arith_add_2_2_cy r1 r2 a1 a2
   \<and> u64arith_sub_2_2_cy_asm r1 r2 a1 a2 = u64arith_sub_2_2_cy r1 r2 a1 a2"
  using dw_add_2_2_cy [of r1 r2 a1 a2] dw_sub_2_2_cy [of r1 r2 a1 a2]
  by (auto simp: add_2_2_cy_asm sub_2_2_cy_asm split: prod.split)

text \<open>
  Modular addition and subtraction of one word operands reduced modulo \<open>m\<close> give the reduced
  sum and difference, in the portable and in the assembly branch.
\<close>

theorem u64arith_addsubmod:
  assumes "a < m" "b < m"
  shows "uint (u64arith_addmod_1_1 a b m) = (uint a + uint b) mod uint m
    \<and> u64arith_addmod_1_1_asm a b m = u64arith_addmod_1_1 a b m
    \<and> uint (u64arith_submod_1_1 a b m) = (uint a - uint b) mod uint m
    \<and> u64arith_submod_1_1_asm a b m = u64arith_submod_1_1 a b m"
  using addmod_1_1_correct [OF assms(1), of b] addmod_1_1_asm [OF assms(1), of b] assms(2)
    submod_1_1_correct [OF assms] submod_1_1_asm [of a b m]
  by simp

theorem u64arith_addsubmod_witness:
  "uint (u64arith_addmod_1_1 5 6 7) = 4 \<and> uint (u64arith_submod_1_1 5 6 7) = 6"
  using u64arith_addsubmod [of 5 7 6] by simp

text \<open>
  The inverse of an odd word modulo the base, by one table free guess and five Newton steps of
  growing width.
\<close>

theorem u64arith_invmod_correct:
  assumes "odd (uint n)"
  shows "n * u64arith_invmod n = 1"
  using assms by (rule invmod_value)

theorem u64arith_invmod_correct_witness: "12345 * u64arith_invmod 12345 = 1"
  by (rule u64arith_invmod_correct) simp

text \<open>
  Montgomery reduction: for an odd modulus, with the constant that the modulus classes
  compute, a two word input with reduced high word becomes a reduced residue that is the input
  divided by the base.
\<close>

theorem u64arith_redc_correct:
  assumes "odd (uint m)" "phigh < m"
  shows "(let r = u64arith_redc plow phigh m (- u64arith_invmod m)
    in r < m \<and> (uint r * W64) mod uint m = dw plow phigh mod uint m)"
proof -
  have "(- u64arith_invmod m) * m = - 1" using invmod_value [OF assms(1)] by (simp add: mult.commute)
  from redc_value [OF this assms(2)] show ?thesis by (simp add: Let_def)
qed

theorem u64arith_redc_correct_witness:
  "(let r = u64arith_redc 100 4 15 (- u64arith_invmod 15)
    in r < 15 \<and> (uint r * W64) mod 15 = dw 100 4 mod 15)"
  using u64arith_redc_correct [of 15 4 100] by simp

text \<open>
  The assembly branch of the Montgomery reduction agrees with the portable one when the high
  word is not the largest residue, as it is for every product of reduced residues.
\<close>

theorem u64arith_redc_branches_agree:
  assumes "odd (uint m)" "uint phigh + 1 < uint m"
  shows "u64arith_redc_asm plow phigh m (- u64arith_invmod m) = u64arith_redc plow phigh m (- u64arith_invmod m)"
proof -
  have "(- u64arith_invmod m) * m = - 1" using invmod_value [OF assms(1)] by (simp add: mult.commute)
  from redc_asm_eq [OF this assms(2)] show ?thesis .
qed

theorem u64arith_redc_branches_agree_witness:
  "u64arith_redc_asm 100 4 15 (- u64arith_invmod 15) = u64arith_redc 100 4 15 (- u64arith_invmod 15)"
  by (rule u64arith_redc_branches_agree) simp_all

text \<open>
  C40: The assembly branch of the Montgomery reduction over its documented domain, a high word below an odd
  modulus: it returns the result of the portable branch, but for the largest high word and a nonzero
  low word, where it returns that result plus the modulus. There, and only there, the branches
  differ, and for a modulus of at most 63 bits the result is not below the modulus.
\<close>

theorem u64arith_redc_asm_edge:
  fixes plow phigh m :: u64
  assumes "odd (uint m)" "phigh < m"
  defines "r \<equiv> u64arith_redc plow phigh m (- u64arith_invmod m)"
    and "s \<equiv> u64arith_redc_asm plow phigh m (- u64arith_invmod m)"
  shows "s = r + (if uint phigh + 1 = uint m \<and> plow \<noteq> 0 then m else 0)
    \<and> (s = r \<longleftrightarrow> \<not> (uint phigh + 1 = uint m \<and> plow \<noteq> 0))
    \<and> (uint phigh + 1 = uint m \<and> plow \<noteq> 0 \<and> uint m \<le> 2 ^ 63 \<longrightarrow> m \<le> s)"
proof -
  have inv: "(- u64arith_invmod m) * m = - 1" using invmod_value [OF assms(1)] by (simp add: mult.commute)
  have v: "s = r + (if uint phigh + 1 = uint m \<and> plow \<noteq> 0 then m else 0)"
    unfolding r_def s_def by (rule redc_asm_value [OF inv assms(2)])
  have "m \<noteq> 0" using assms(1) by auto
  moreover have "m \<le> r + m" if "uint m \<le> 2 ^ 63"
  proof -
    have "uint r < uint m"
      using redc_value(1) [OF inv assms(2)] by (simp add: r_def word_less_def)
    then have "uint (r + m) = uint r + uint m"
      using that by (simp add: uint_add64 W64_def)
    then show ?thesis by (simp add: word_le_def)
  qed
  ultimately show ?thesis using v by auto
qed

theorem u64arith_redc_asm_edge_witness:
  "u64arith_redc_asm 1 2 3 (- u64arith_invmod 3) = u64arith_redc 1 2 3 (- u64arith_invmod 3) + 3
   \<and> u64arith_redc_asm 0 2 3 (- u64arith_invmod 3) = u64arith_redc 0 2 3 (- u64arith_invmod 3)
   \<and> 3 \<le> u64arith_redc_asm 1 2 3 (- u64arith_invmod 3)"
  using u64arith_redc_asm_edge [of 3 2 1] u64arith_redc_asm_edge [of 3 2 0] by force

text \<open>
  The integer square root of a nonzero word is found and is the floor of the root.
\<close>

theorem u64arith_sqrt_correct:
  assumes "0 < n"
  shows "\<exists>r. u64arith_sqrt n = Some r \<and> uint r * uint r \<le> uint n \<and> uint n < (uint r + 1) * (uint r + 1)"
  using sqrt_value [OF assms] by auto

theorem u64arith_sqrt_correct_witness:
  "\<exists>r. u64arith_sqrt 1000 = Some r \<and> uint r * uint r \<le> 1000 \<and> 1000 < (uint r + 1) * (uint r + 1)"
  using u64arith_sqrt_correct [of 1000] by simp

text \<open>
  The step that finishes the division of a rational by a prime, for an odd modulus \<open>p\<close>: from
  the inverse of \<open>p\<close> scaled by minus the remainder, one multiplication by the inverse of the
  denominator gives the quotient, and \<open>k\<close> halvings give the value divided by \<open>2 ^ k\<close>; the
  assertion on the way holds.
\<close>

theorem u64arith_post_process_inverse_correct:
  assumes "odd (uint p)" "1 < uint p" "odd (uint den)" "uint r < uint den" "uint rem < uint den"
    and "uint den dvd uint r * uint p + uint rem"
  shows "\<exists>t. u64arith_post_process_inverse r p rem (u64arith_invmod den) ratio k = Some t \<and> t < p
    \<and> (uint t * uint den * 2 ^ k) mod uint p = (uint ratio * uint den + uint rem) mod uint p"
  using assms by (intro post_process_inverse_value invmod_value)

theorem u64arith_post_process_inverse_correct_witness:
  "\<exists>t. u64arith_post_process_inverse 1 11 3 (u64arith_invmod 7) 2 1 = Some t \<and> t < 11
    \<and> (uint t * 7 * 2 ^ 1) mod 11 = (2 * 7 + 3) mod 11"
  using u64arith_post_process_inverse_correct [of 11 7 1 3 2 1] by simp

end
