(* ===== verification/U64div.thy ===== *)
theory U64div
  imports U64arith
begin

text \<open>
  Division of two and three word numbers in \<^verbatim>\<open>utils/arithxx/u64arith.h\<close>: the binary
  long division kept as a reference, the reciprocal by table lookup and Newton iteration, and
  the divisions by a precomputed reciprocal that the modular arithmetic classes call. The portable branches are
  modelled; the assembly branch of the two-by-one division is the machine's divide instruction.
\<close>

section \<open>Binary long division\<close>

fun u64arith_divqr_2_1_1_slow_loop ::
    "nat \<Rightarrow> u64 \<Rightarrow> u64 \<Rightarrow> u64 \<Rightarrow> u64 \<Rightarrow> u64 \<Rightarrow> u64 \<Rightarrow> u64 \<times> u64" where
  "u64arith_divqr_2_1_1_slow_loop 0 R1 R2 D1 D2 M Q = (Q, R1)"
| "u64arith_divqr_2_1_1_slow_loop (Suc i) R1 R2 D1 D2 M Q =
     (let (D2, D1) = u64arith_shr_2 D2 D1 1;
          (R1, R2, Q) =
            (if \<not> u64arith_gt_2_2 D1 D2 R1 R2
             then let (R1, R2) = u64arith_sub_2_2 R1 R2 D1 D2 in (R1, R2, Q + M)
             else (R1, R2, Q));
          M = drop_bit 1 M
      in u64arith_divqr_2_1_1_slow_loop i R1 R2 D1 D2 M Q)"

definition u64arith_divqr_2_1_1_slow :: "u64 \<Rightarrow> u64 \<Rightarrow> u64 \<Rightarrow> u64 \<times> u64" where
  "u64arith_divqr_2_1_1_slow a1 a2 b =
     u64arith_divqr_2_1_1_slow_loop 64 a1 a2 0 b (push_bit 63 1) 0"

section \<open>Reciprocals\<close>

definition lut :: "nat list" where
  "lut =
     [2045, 2037, 2029, 2021, 2013, 2005, 1998, 1990, 1983, 1975, 1968, 1960, 1953, 1946, 1938, 1931,
      1924, 1917, 1910, 1903, 1896, 1889, 1883, 1876, 1869, 1863, 1856, 1849, 1843, 1836, 1830, 1824,
      1817, 1811, 1805, 1799, 1792, 1786, 1780, 1774, 1768, 1762, 1756, 1750, 1745, 1739, 1733, 1727,
      1722, 1716, 1710, 1705, 1699, 1694, 1688, 1683, 1677, 1672, 1667, 1661, 1656, 1651, 1646, 1641,
      1636, 1630, 1625, 1620, 1615, 1610, 1605, 1600, 1596, 1591, 1586, 1581, 1576, 1572, 1567, 1562,
      1558, 1553, 1548, 1544, 1539, 1535, 1530, 1526, 1521, 1517, 1513, 1508, 1504, 1500, 1495, 1491,
      1487, 1483, 1478, 1474, 1470, 1466, 1462, 1458, 1454, 1450, 1446, 1442, 1438, 1434, 1430, 1426,
      1422, 1418, 1414, 1411, 1407, 1403, 1399, 1396, 1392, 1388, 1384, 1381, 1377, 1374, 1370, 1366,
      1363, 1359, 1356, 1352, 1349, 1345, 1342, 1338, 1335, 1332, 1328, 1325, 1322, 1318, 1315, 1312,
      1308, 1305, 1302, 1299, 1295, 1292, 1289, 1286, 1283, 1280, 1276, 1273, 1270, 1267, 1264, 1261,
      1258, 1255, 1252, 1249, 1246, 1243, 1240, 1237, 1234, 1231, 1228, 1226, 1223, 1220, 1217, 1214,
      1211, 1209, 1206, 1203, 1200, 1197, 1195, 1192, 1189, 1187, 1184, 1181, 1179, 1176, 1173, 1171,
      1168, 1165, 1163, 1160, 1158, 1155, 1153, 1150, 1148, 1145, 1143, 1140, 1138, 1135, 1133, 1130,
      1128, 1125, 1123, 1121, 1118, 1116, 1113, 1111, 1109, 1106, 1104, 1102, 1099, 1097, 1095, 1092,
      1090, 1088, 1086, 1083, 1081, 1079, 1077, 1074, 1072, 1070, 1068, 1066, 1064, 1061, 1059, 1057,
      1055, 1053, 1051, 1049, 1047, 1044, 1042, 1040, 1038, 1036, 1034, 1032, 1030, 1028, 1026, 1024]"

definition u64arith_reciprocal_for_div :: "u64 \<Rightarrow> u64" where
  "u64arith_reciprocal_for_div d =
     (let one = 1;
          d0 = d mod 2;
          d9 = drop_bit 55 d;
          d40 = drop_bit 24 d + 1;
          d63 = d div 2 + d0;
          v0 = of_nat (lut ! unat (d9 - 256));
          v1 = push_bit 11 1 * v0 - drop_bit 40 (v0 * v0 * d40) - 1;
          v2 = push_bit 13 v1 + drop_bit 47 (v1 * (push_bit 60 one - v1 * d40));
          (p1, p2) = u64arith_mul_1_1_2 v2 (((v2 div 2) AND (- d0)) - v2 * d63);
          v3 = push_bit 31 v2 + p2 div 2;
          (p1, p2) = u64arith_mul_1_1_2 v3 d;
          (p1, p2) = u64arith_add_2_2 p1 p2 d d;
          v4 = v3 - p2
      in v4)"

definition u64arith_reciprocal_for_div_3by2 :: "u64 \<Rightarrow> u64 \<Rightarrow> u64" where
  "u64arith_reciprocal_for_div_3by2 d0 d1 =
     (let v = u64arith_reciprocal_for_div d1;
          p = d1 * v + d0;
          (v, p) =
            (if p < d0 then
               let v = v - 1;
                   (v, p) = (if p \<ge> d1 then (v - 1, p - d1) else (v, p));
                   p = p - d1
               in (v, p)
             else (v, p));
          (t0, t1) = u64arith_mul_1_1_2 v d0;
          p = p + t1
      in if p < t1 then
           let v = v - 1
           in if u64arith_ge_2_2 t0 p d0 d1 then v - 1 else v
         else v)"

section \<open>Division by a reciprocal\<close>

definition u64arith_divqr_2_1_1_recip_precomp ::
    "u64 \<Rightarrow> u64 \<Rightarrow> u64 \<Rightarrow> u64 \<Rightarrow> nat \<Rightarrow> u64 \<times> u64" where
  "u64arith_divqr_2_1_1_recip_precomp a1 a2 d v s =
     (let u0 = a1; u1 = a2;
          (u0, u1) = u64arith_shl_2 u0 u1 s;
          (q0, q1) = u64arith_mul_1_1_2 v u1;
          (q0, q1) = u64arith_add_2_2 q0 q1 u0 u1;
          q1 = q1 + 1;
          r0 = u0 - q1 * d;
          (q1, r0) = (if r0 > q0 then (q1 - 1, r0 + d) else (q1, r0));
          (q1, r0) = (if r0 \<ge> d then (q1 + 1, r0 - d) else (q1, r0));
          r0 = drop_bit s r0
      in (q1, r0))"

text \<open>\<open>None\<close> is the count of leading zeros of a zero divisor.\<close>

definition u64arith_divqr_2_1_1_recip :: "u64 \<Rightarrow> u64 \<Rightarrow> u64 \<Rightarrow> (u64 \<times> u64) option" where
  "u64arith_divqr_2_1_1_recip a1 a2 b =
     (if a2 = 0 then Some (a1 div b, a1 mod b)
      else case u64arith_clz b of None \<Rightarrow> None
      | Some s \<Rightarrow>
          let d = push_bit s b;
              v = u64arith_reciprocal_for_div d
          in Some (u64arith_divqr_2_1_1_recip_precomp a1 a2 d v s))"

definition u64arith_divqr_2_1_1 :: "u64 \<Rightarrow> u64 \<Rightarrow> u64 \<Rightarrow> (u64 \<times> u64) option" where
  "u64arith_divqr_2_1_1 a1 a2 b = u64arith_divqr_2_1_1_recip a1 a2 b"

definition u64arith_divr_2_1_1 :: "u64 \<Rightarrow> u64 \<Rightarrow> u64 \<Rightarrow> u64 option" where
  "u64arith_divr_2_1_1 a1 a2 b = map_option snd (u64arith_divqr_2_1_1 a1 a2 b)"

definition u64arith_divqr_3_2_1_recip_precomp ::
    "u64 \<Rightarrow> u64 \<Rightarrow> u64 \<Rightarrow> u64 \<Rightarrow> u64 \<Rightarrow> u64 \<Rightarrow> nat \<Rightarrow> u64 \<times> u64 \<times> u64" where
  "u64arith_divqr_3_2_1_recip_precomp u0 u1 u2 d0 d1 v s =
     (let u2 = u64arith_shld u1 u2 s;
          u1 = u64arith_shld u0 u1 s;
          u0 = push_bit s u0;
          (q0, q1) = u64arith_mul_1_1_2 u2 v;
          (q0, q1) = u64arith_add_2_2 q0 q1 u1 u2;
          r1 = u1 - q1 * d1;
          (t0, t1) = u64arith_mul_1_1_2 d0 q1;
          r0 = u0;
          (r0, r1) = u64arith_sub_2_2 r0 r1 t0 t1;
          (r0, r1) = u64arith_sub_2_2 r0 r1 d0 d1;
          q1 = q1 + 1;
          (q1, r0, r1) =
            (if r1 \<ge> q0
             then let (r0, r1) = u64arith_add_2_2 r0 r1 d0 d1 in (q1 - 1, r0, r1)
             else (q1, r0, r1));
          (q1, r0, r1) =
            (if u64arith_ge_2_2 r0 r1 d0 d1
             then let (r0, r1) = u64arith_sub_2_2 r0 r1 d0 d1 in (q1 + 1, r0, r1)
             else (q1, r0, r1));
          (r0, r1) = u64arith_shr_2 r0 r1 s
      in (q1, r0, r1))"

definition u64arith_divqr_3_2_1 ::
    "u64 \<Rightarrow> u64 \<Rightarrow> u64 \<Rightarrow> u64 \<Rightarrow> u64 \<Rightarrow> (u64 \<times> u64 \<times> u64) option" where
  "u64arith_divqr_3_2_1 u0 u1 u2 d0 d1 =
     (case u64arith_clz d1 of None \<Rightarrow> None
      | Some s \<Rightarrow>
          let (d0, d1) = u64arith_shl_2 d0 d1 s;
              v = u64arith_reciprocal_for_div_3by2 d0 d1
          in Some (u64arith_divqr_3_2_1_recip_precomp u0 u1 u2 d0 d1 v s))"

section \<open>One quotient digit\<close>


text \<open>
  One quotient digit by a reciprocal, on integers: \<open>B\<close> is the word base, \<open>d\<close> the normalised
  divisor, \<open>v + B\<close> its reciprocal; \<open>q1\<close> and \<open>q0\<close> are the words of the approximate
  quotient and \<open>R\<close> the candidate remainder.
\<close>

lemma reciprocal_remainder:
  fixes B d v u1 u0 q1 q0 :: int
  assumes d: "0 < d" "d < B" "B \<le> 2 * d"
    and v: "v + B = (B * B - 1) div d"
    and u: "0 \<le> u1" "u1 < d" "0 \<le> u0" "u0 < B"
    and q: "v * u1 + (u0 + B * u1) = q0 + B * q1" "0 \<le> q0" "q0 < B"
  defines "R \<equiv> u0 + B * u1 - (q1 + 1) * d"
  shows "- d \<le> R" "q0 - B < R" "R < B - d \<or> R < q0"
proof -
  define k where "k = B * B - (v + B) * d"
  have k: "1 \<le> k" "k \<le> d"
  proof -
    have "(B * B - 1) = d * (v + B) + (B * B - 1) mod d" unfolding v by simp
    moreover have "0 \<le> (B * B - 1) mod d" "(B * B - 1) mod d < d" using d(1) by simp_all
    ultimately show "1 \<le> k" "k \<le> d" unfolding k_def by (simp_all add: mult.commute)
  qed
  have BR: "B * R = u0 * (B - d) + k * u1 - d * (B - q0)"
  proof -
    have "B * q1 = (v + B) * u1 + u0 - q0" using q(1) by (simp add: algebra_simps)
    then have "B * q1 * d = ((v + B) * u1 + u0 - q0) * d" by simp
    then have "B * R = u0 * B + B * B * u1 - ((v + B) * u1 + u0 - q0) * d - B * d"
      unfolding R_def by (simp add: algebra_simps)
    also have "\<dots> = u0 * (B - d) + k * u1 - d * (B - q0)"
      unfolding k_def by (simp add: algebra_simps)
    finally show ?thesis .
  qed
  have low: "0 \<le> u0 * (B - d)" "0 \<le> k * u1" using u k d by simp_all
  show "q0 - B < R"
  proof -
    have "B * (q0 - B) < - (d * (B - q0))"
      using mult_strict_right_mono [of d B "B - q0"] d q by (simp add: algebra_simps)
    also have "\<dots> \<le> B * R" unfolding BR using low by linarith
    finally show ?thesis using d by simp
  qed
  show "- d \<le> R"
  proof -
    have "B * (- d) \<le> - (d * (B - q0))" using d q by (simp add: algebra_simps)
    also have "\<dots> \<le> B * R" unfolding BR using low by linarith
    finally show ?thesis using d by (simp add: mult_le_cancel_left_pos del: mult_minus_right)
  qed
  show "R < B - d \<or> R < q0"
  proof -
    define mx where "mx = max (B - d) q0"
    have "u0 * (B - d) \<le> (B - 1) * (B - d)" using u d by (intro mult_right_mono) auto
    moreover have "k * u1 \<le> d * (d - 1)" using k u by (intro mult_mono) auto
    ultimately have "B * R \<le> (B - 1) * (B - d) + d * (d - 1) - d * (B - q0)" unfolding BR by linarith
    also have "\<dots> = (B - d) * (B - d) + d * q0 - B" by (simp add: algebra_simps)
    also have "\<dots> < (B - d) * (B - d) + d * q0" using d by simp
    also have "\<dots> \<le> (B - d) * mx + d * mx"
      using d by (intro add_mono mult_left_mono) (auto simp: mx_def)
    also have "\<dots> = B * mx" by (simp add: algebra_simps)
    finally have "R < mx" using d by simp
    then show ?thesis by (auto simp: mx_def max_def split: if_splits)
  qed
qed

lemma divmod_unique_int:
  fixes a b q r :: int
  assumes "a = q * b + r" "0 \<le> r" "r < b"
  shows "a div b = q" "a mod b = r"
  using assms by (auto simp: div_pos_pos_trivial mod_pos_pos_trivial)

text \<open>The two corrections of the code, on the words.\<close>

lemma recip_digit:
  fixes d v u0 u1 q0 q1 :: u64
  assumes d: "W64 \<le> 2 * uint d"
    and v: "uint v + W64 = (W64 * W64 - 1) div uint d"
    and u: "u1 < d"
    and q: "dw q0 q1 = uint v * uint u1 + dw u0 u1"
    and res: "(Q, r) =
       (let q1 = q1 + 1;
            r0 = u0 - q1 * d;
            (q1, r0) = (if r0 > q0 then (q1 - 1, r0 + d) else (q1, r0))
        in if r0 \<ge> d then (q1 + 1, r0 - d) else (q1, r0))"
  shows "uint Q = dw u0 u1 div uint d" "uint r = dw u0 u1 mod uint d"
proof -
  define R where "R = dw u0 u1 - (uint q1 + 1) * uint d"
  have d0: "0 < uint d" using u uint_nonnegative [of u1] unfolding word_less_def by linarith
  have ud: "uint u1 < uint d" using u by (simp add: word_less_def)
  have RB: "- uint d \<le> R" "uint q0 - W64 < R" "R < W64 - uint d \<or> R < uint q0"
    using reciprocal_remainder [of "uint d" W64 "uint v" "uint u1" "uint u0" "uint q0" "uint q1"] q d0 d v ud
    by (simp_all add: R_def dw_def)
  define r0 where "r0 = u0 - (q1 + 1) * d"
  have r0: "uint r0 = R mod W64"
  proof -
    have "R = uint u0 - (uint q1 + 1) * uint d + W64 * uint u1"
      by (simp add: R_def dw_def)
    then have "R mod W64 = (uint u0 - (uint q1 + 1) * uint d) mod W64" by (simp only: mod_mult_self2)
    then show ?thesis by (simp add: r0_def u64_simps mod_simps)
  qed
  have dlt: "uint d < W64" "uint q0 < W64" "0 \<le> uint q0" by simp_all
  have quot: "dw u0 u1 div uint d < W64"
  proof (rule div_less_of_less_mult)
    show "dw u0 u1 < uint d * W64"
      using base_repr_less [of W64 0 "uint u0" "uint u1" "uint d"] ud by (simp add: dw_def mult.commute)
  qed (rule d0)
  \<comment> \<open>it is enough to have the remainder, the quotient follows modulo the base\<close>
  have finish: "uint Q = dw u0 u1 div uint d \<and> uint r = dw u0 u1 mod uint d"
    if "dw u0 u1 = (uint q1 + e) * uint d + R'" "0 \<le> R'" "R' < uint d"
      "uint r = R'" "uint Q = (uint q1 + e) mod W64" for e R'
  proof -
    note dm = divmod_unique_int [OF that(1-3)]
    have "0 \<le> dw u0 u1 div uint d" by (simp add: pos_imp_zdiv_nonneg_iff d0)
    with quot have "0 \<le> uint q1 + e" "uint q1 + e < W64" unfolding dm by simp_all
    then show ?thesis using that(4,5) dm by simp
  qed
  have "uint Q = dw u0 u1 div uint d \<and> uint r = dw u0 u1 mod uint d"
  proof (cases "R < 0")
    case True
    have "- W64 \<le> R" using RB(1) dlt(1) by linarith
    then have "uint r0 = R + W64" using True by (simp add: r0 mod_W64_under)
    then have gt: "q0 < r0" using RB(2) by (simp add: word_less_def)
    have rd: "uint (r0 + d) = R + uint d"
    proof -
      have "uint (r0 + d) = (R + uint d) mod W64" by (simp add: uint_add64 r0 mod_simps)
      then show ?thesis using True RB(1) dlt by simp
    qed
    then have "\<not> d \<le> r0 + d" using True by (simp add: word_le_def)
    then have "Q = q1 + 1 - 1" "r = r0 + d"
      using res gt by (simp_all add: Let_def r0_def)
    then show ?thesis
      using rd True RB(1) by (intro finish [of 0 "R + uint d"]) (simp_all add: R_def algebra_simps)
  next
    case nonneg: False
    moreover have "R < W64" using RB(3) dlt d0 by linarith
    ultimately have R: "uint r0 = R" by (simp add: r0)
    show ?thesis
    proof (cases "q0 < r0")
      case True
      then have lt: "R < W64 - uint d" using RB(3) by (simp add: word_less_def R)
      then have rd: "uint (r0 + d) = R + uint d" by (simp add: uint_add64_no_wrap R)
      then have ge: "d \<le> r0 + d" using nonneg by (simp add: word_le_def)
      then have "Q = q1 + 1 - 1 + 1" "r = r0 + d - d"
        using res True by (simp_all add: Let_def r0_def)
      then show ?thesis
        using lt d nonneg R
        by (intro finish [of 1 R]) (simp_all add: R_def algebra_simps uint_add64)
    next
      case False
      then have le: "R \<le> uint q0" by (simp add: word_less_def R)
      show ?thesis
      proof (cases "d \<le> r0")
        case True
        then have "Q = q1 + 1 + 1" "r = r0 - d" "uint d \<le> R"
          using res False by (simp_all add: Let_def r0_def word_le_def R flip: r0_def)
        moreover have "uint (r0 - d) = R - uint d" using True by (simp add: uint_sub64_no_wrap R)
        moreover have "R - uint d < uint d" using le d dlt(2) by linarith
        moreover have "dw u0 u1 = (uint q1 + 2) * uint d + (R - uint d)"
          by (simp add: R_def algebra_simps)
        moreover have "uint (q1 + 1 + 1) = (uint q1 + 2) mod W64" by (simp add: uint_add64 mod_simps add.commute)
        ultimately show ?thesis by (intro finish [of 2 "R - uint d"]) simp_all
      next
        case ltd: False
        then have "Q = q1 + 1" "r = r0" "R < uint d"
          using res False by (simp_all add: Let_def r0_def word_le_def R flip: r0_def)
        then show ?thesis
          using nonneg R by (intro finish [of 1 R]) (simp_all add: R_def algebra_simps uint_add64)
      qed
    qed
  qed
  then show "uint Q = dw u0 u1 div uint d" "uint r = dw u0 u1 mod uint d" by simp_all
qed

lemma shift_divmod:
  fixes a b :: int
  shows "(a * 2 ^ s) div (b * 2 ^ s) = a div b" "((a * 2 ^ s) mod (b * 2 ^ s)) div 2 ^ s = a mod b"
  by (simp_all add: mod_mult_mult2)

lemma dw_lt_high: "a2 < b \<Longrightarrow> dw a1 a2 < uint b * W64"
  using base_repr_less [of W64 0 "uint a1" "uint a2" "uint b"]
  by (simp add: dw_def word_less_def mult.commute)

lemma dw_high_lt: "dw a1 a2 < uint b * W64 \<Longrightarrow> a2 < b"
proof (rule ccontr)
  assume lt: "dw a1 a2 < uint b * W64" and "\<not> a2 < b"
  then have "uint b * W64 \<le> W64 * uint a2" by (simp add: word_less_def mult.commute)
  with lt show False using uint_nonnegative [of a1] unfolding dw_def by linarith
qed

lemma recip_product_bound:
  fixes B d v u1 u0 :: int
  assumes "0 < d" "0 \<le> v" "0 < B" "v + B = (B * B - 1) div d" "u1 < d" "u0 < B"
  shows "v * u1 + (u0 + B * u1) < B * B"
proof -
  have "(v + B) * d \<le> B * B - 1"
    unfolding assms(4) using pos_mod_sign [OF assms(1), of "B * B - 1"] div_mult_mod_eq [of "B * B - 1" d]
    by linarith
  moreover have "(v + B) * u1 \<le> (v + B) * (d - 1)"
    using assms(2,3,5) by (intro mult_left_mono) auto
  ultimately show ?thesis
    using assms(2,6) by (simp add: algebra_simps)
qed

lemma recip_precomp_value:
  assumes d: "uint d = uint b * 2 ^ s" "W64 \<le> 2 * uint d"
    and v: "uint v + W64 = (W64 * W64 - 1) div uint d"
    and a: "a2 < b" and s: "s < 64"
    and res: "u64arith_divqr_2_1_1_recip_precomp a1 a2 d v s = (q, r)"
  shows "uint q = dw a1 a2 div uint b" "uint r = dw a1 a2 mod uint b"
proof -
  obtain u0 u1 where u: "u64arith_shl_2 a1 a2 s = (u0, u1)" by (meson surj_pair)
  obtain p0 p1 where p: "u64arith_mul_1_1_2 v u1 = (p0, p1)" by (meson surj_pair)
  obtain q0 q1 where q01: "u64arith_add_2_2 p0 p1 u0 u1 = (q0, q1)" by (meson surj_pair)
  have "dw a1 a2 * 2 ^ s < uint d * W64"
    using mult_strict_right_mono [OF dw_lt_high [OF a], of "2 ^ s" a1] by (simp add: d(1) mult.commute mult.left_commute)
  moreover have "uint d * W64 < W64 * W64" by (intro mult_strict_right_mono) simp_all
  ultimately have "(dw a1 a2 * 2 ^ s) mod (W64 * W64) = dw a1 a2 * 2 ^ s"
    by (intro mod_pos_pos_trivial) (simp, linarith)
  with \<open>dw a1 a2 * 2 ^ s < uint d * W64\<close> have U: "dw u0 u1 = dw a1 a2 * 2 ^ s" "u1 < d"
    using dw_shl_2 [OF u s] dw_high_lt [of u0 u1 d] by simp_all
  have ud: "uint u1 < uint d" "0 < uint d"
    using U(2) uint_nonnegative [of u1] unfolding word_less_def by linarith+
  have "uint v * uint u1 + dw u0 u1 < W64 * W64"
    using recip_product_bound [OF ud(2) uint_nonnegative _ v ud(1) uint_lt64] by (simp add: dw_def)
  then have Q: "dw q0 q1 = uint v * uint u1 + dw u0 u1"
    using dw_add_2_2_exact [OF q01] mul_1_1_2_value [OF p] by simp
  define E where "E =
       (let q1 = q1 + 1;
            r0 = u0 - q1 * d;
            (q1, r0) = (if r0 > q0 then (q1 - 1, r0 + d) else (q1, r0))
        in if r0 \<ge> d then (q1 + 1, r0 - d) else (q1, r0))"
  obtain Q r' where fin: "(Q, r') = E" by (metis surj_pair)
  have "(q, r) = (fst E, drop_bit s (snd E))"
    unfolding E_def res [symmetric] u64arith_divqr_2_1_1_recip_precomp_def u p q01 Let_def case_prod_conv
    by (simp split: if_splits)
  then have qr: "q = Q" "r = drop_bit s r'" by (simp_all flip: fin)
  note digit = recip_digit [OF d(2) v U(2) Q fin [unfolded E_def], unfolded U(1) d(1)]
  show "uint q = dw a1 a2 div uint b" "uint r = dw a1 a2 mod uint b"
    by (simp_all add: qr uint_drop_bit64 digit shift_divmod)
qed

section \<open>The Newton iteration for the reciprocal\<close>

text \<open>
  The three refinement steps with the powers of two as parameters: the error after a step is the
  square of the error before, up to one unit of the last place.
\<close>

lemma floor_bounds:
  fixes n P :: int
  assumes "0 < P"
  shows "P * (n div P) \<le> n" "n < P * (n div P) + P"
  using pos_mod_sign [OF assms, of n] pos_mod_bound [OF assms, of n] mult_div_mod_eq [of P n] by linarith+

lemma newton_step_down:
  fixes v x c S T H :: int
  assumes "0 < T" "0 < x" "c * T = 2 * S" "H * T = S * S"
  defines "v' \<equiv> c * v - (v * v * x) div T - 1"
  shows "(S - v * x) * (S - v * x) < T * (H - v' * x)"
    and "T * (H - v' * x) \<le> (S - v * x) * (S - v * x) + T * x"
proof -
  define m where "m = (v * v * x) div T"
  have m: "T * m \<le> v * v * x" "v * v * x < T * m + T"
    unfolding m_def using assms(1) by (rule floor_bounds)+
  have "x * (T * m) \<le> x * (v * v * x)" "x * (v * v * x) < x * (T * m + T)"
    using m assms(2) by (auto intro: mult_left_mono mult_strict_left_mono)
  moreover have "T * (H - v' * x) = (S - v * x) * (S - v * x) - x * (v * v * x) + x * (T * m + T)"
  proof -
    have "T * (H - v' * x) = H * T - (c * T) * v * x + x * (T * m + T)"
      unfolding v'_def m_def [symmetric] by (simp add: algebra_simps)
    then show ?thesis unfolding assms(3,4) by (simp add: algebra_simps)
  qed
  ultimately show "(S - v * x) * (S - v * x) < T * (H - v' * x)"
    "T * (H - v' * x) \<le> (S - v * x) * (S - v * x) + T * x"
    by (simp_all add: algebra_simps)
qed

lemma newton_step_up:
  fixes v x c T H :: int
  assumes "0 < T" "0 < x" "T * c = H"
  defines "v' \<equiv> c * v + (v * (H - v * x)) div T"
  shows "(H - v * x) * (H - v * x) \<le> T * (c * H - v' * x)"
    and "T * (c * H - v' * x) < (H - v * x) * (H - v * x) + T * x"
proof -
  define e where "e = H - v * x"
  define m where "m = (v * e) div T"
  have m: "T * m \<le> v * e" "v * e < T * m + T"
    unfolding m_def using assms(1) by (rule floor_bounds)+
  have "x * (T * m) \<le> x * (v * e)" "x * (v * e) < x * (T * m + T)"
    using m assms(2) by (auto intro: mult_left_mono mult_strict_left_mono)
  moreover have "T * (c * H - v' * x) = H * H - H * (v * x) - x * (T * m)"
    unfolding v'_def e_def [symmetric] m_def [symmetric] by (simp add: algebra_simps flip: assms(3))
  moreover have "H * H - H * (v * x) - x * (v * e) = e * e" by (simp add: e_def algebra_simps)
  ultimately show "(H - v * x) * (H - v * x) \<le> T * (c * H - v' * x)"
    "T * (c * H - v' * x) < (H - v * x) * (H - v * x) + T * x"
    unfolding e_def [symmetric] by (simp_all add: algebra_simps)
qed

text \<open>The last step works with half the error, rounded down.\<close>

lemma newton_step_half:
  fixes v x c T H :: int
  assumes "0 < T" "0 < x" "0 \<le> v" "2 * T * c = H"
  defines "v' \<equiv> c * v + (v * ((H - v * x) div 2)) div T"
  shows "(H - v * x) * (H - v * x) \<le> 2 * T * (c * H - v' * x)"
    and "2 * T * (c * H - v' * x) < (H - v * x) * (H - v * x) + v * x + 2 * T * x"
proof -
  define e where "e = H - v * x"
  define m where "m = (v * (e div 2)) div T"
  have m: "T * m \<le> v * (e div 2)" "v * (e div 2) < T * m + T"
    unfolding m_def using assms(1) by (rule floor_bounds)+
  have "2 * (v * (e div 2)) \<le> v * e" "v * (e - 1) \<le> 2 * (v * (e div 2))"
  proof -
    have "2 * (e div 2) \<le> e" "e - 1 \<le> 2 * (e div 2)" by linarith+
    from this [THEN mult_left_mono [OF _ assms(3)]]
    show "2 * (v * (e div 2)) \<le> v * e" "v * (e - 1) \<le> 2 * (v * (e div 2))"
      by (simp_all add: mult.left_commute)
  qed
  with m have "2 * (T * m) \<le> v * e" "v * (e - 1) < 2 * (T * m) + 2 * T" by linarith+
  then have "x * (2 * (T * m)) \<le> x * (v * e)" "x * (v * (e - 1)) < x * (2 * (T * m) + 2 * T)"
    using assms(2) by (auto intro: mult_left_mono mult_strict_left_mono)
  moreover have "2 * T * (c * H - v' * x) = H * H - H * (v * x) - x * (2 * (T * m))"
    unfolding v'_def e_def [symmetric] m_def [symmetric] by (simp add: algebra_simps flip: assms(4))
  moreover have "H * H - H * (v * x) - x * (v * e) = e * e" by (simp add: e_def algebra_simps)
  ultimately show "(H - v * x) * (H - v * x) \<le> 2 * T * (c * H - v' * x)"
    "2 * T * (c * H - v' * x) < (H - v * x) * (H - v * x) + v * x + 2 * T * x"
    unfolding e_def [symmetric] by (simp_all add: algebra_simps)
qed

text \<open>The table: the first approximation has an error of at most \<open>5 * 2 ^ 39\<close>.\<close>

lemma lut_table:
  "list_all (\<lambda>(i, v). 1024 \<le> v \<and> v \<le> 2045 \<and>
       v * (int i + 257) * 2 ^ 31 \<le> 2 ^ 50 + 5 * 2 ^ 39 \<and> 2 ^ 50 \<le> v * (int i + 256) * 2 ^ 31 + 5 * 2 ^ 39)
     (enumerate 0 (map int lut))"
  by (simp add: lut_def)

lemma lut_entry:
  assumes "i < 256"
  shows "1024 \<le> int (lut ! i)" "int (lut ! i) \<le> 2045"
    "int (lut ! i) * (int i + 257) * 2 ^ 31 \<le> 2 ^ 50 + 5 * 2 ^ 39"
    "2 ^ 50 \<le> int (lut ! i) * (int i + 256) * 2 ^ 31 + 5 * 2 ^ 39"
proof -
  have len: "length lut = 256" by (simp add: lut_def)
  then have "(i, int (lut ! i)) \<in> set (enumerate 0 (map int lut))"
    using assms nth_enumerate_eq [of i "map int lut" 0] nth_mem [of i "enumerate 0 (map int lut)"] by simp
  then have "(\<lambda>(i, v). 1024 \<le> v \<and> v \<le> 2045 \<and>
       v * (int i + 257) * 2 ^ 31 \<le> 2 ^ 50 + 5 * 2 ^ 39 \<and> 2 ^ 50 \<le> v * (int i + 256) * 2 ^ 31 + 5 * 2 ^ 39)
         (i, int (lut ! i))"
    using lut_table unfolding list_all_iff by blast
  then show "1024 \<le> int (lut ! i)" "int (lut ! i) \<le> 2045"
    "int (lut ! i) * (int i + 257) * 2 ^ 31 \<le> 2 ^ 50 + 5 * 2 ^ 39"
    "2 ^ 50 \<le> int (lut ! i) * (int i + 256) * 2 ^ 31 + 5 * 2 ^ 39"
    unfolding case_prod_conv by blast+
qed

text \<open>The first error, for the top bits \<open>d9\<close> of the divisor and the 40-bit part \<open>x\<close>.\<close>

lemma first_error:
  fixes v x i :: int
  assumes "0 \<le> v" "(i + 256) * 2 ^ 31 \<le> x" "x \<le> (i + 257) * 2 ^ 31"
    and "v * (i + 257) * 2 ^ 31 \<le> 2 ^ 50 + 5 * 2 ^ 39" "2 ^ 50 \<le> v * (i + 256) * 2 ^ 31 + 5 * 2 ^ 39"
  shows "(2 ^ 50 - v * x) * (2 ^ 50 - v * x) \<le> 25 * 2 ^ 78"
proof -
  have "v * ((i + 256) * 2 ^ 31) \<le> v * x" "v * x \<le> v * ((i + 257) * 2 ^ 31)"
    using assms(1-3) by (auto intro: mult_left_mono)
  then have "2 ^ 50 - v * x \<le> 5 * 2 ^ 39" "- (5 * 2 ^ 39) \<le> 2 ^ 50 - v * x"
    using assms(4,5) unfolding mult.assoc by linarith+
  then have "\<bar>2 ^ 50 - v * x\<bar> \<le> \<bar>5 * 2 ^ 39\<bar>" by linarith
  then have "(2 ^ 50 - v * x) * (2 ^ 50 - v * x) \<le> 5 * 2 ^ 39 * (5 * 2 ^ 39)"
    using abs_le_square_iff [of "2 ^ 50 - v * x" "5 * 2 ^ 39"] by (simp add: power2_eq_square)
  then show ?thesis by simp
qed

text \<open>All steps on integers.\<close>

lemma reciprocal_steps:
  fixes D v0 :: int
  assumes D: "2 ^ 63 \<le> D" "D < 2 ^ 64"
  defines "x \<equiv> D div 2 ^ 24 + 1"
  assumes v0: "0 \<le> v0" "(2 ^ 50 - v0 * x) * (2 ^ 50 - v0 * x) \<le> 25 * 2 ^ 78"
  defines "v1 \<equiv> 2 ^ 11 * v0 - (v0 * v0 * x) div 2 ^ 40 - 1"
  defines "v2 \<equiv> 2 ^ 13 * v1 + (v1 * (2 ^ 60 - v1 * x)) div 2 ^ 47"
  defines "v3 \<equiv> 2 ^ 31 * v2 + (v2 * ((2 ^ 97 - v2 * D) div 2)) div 2 ^ 65"
  shows "0 < 2 ^ 60 - v1 * x" "2 ^ 60 - v1 * x \<le> 29 * 2 ^ 38" "0 < v1" "v1 \<le> 2 ^ 21"
    "0 < v2" "v2 \<le> 2 ^ 34" "0 < 2 ^ 97 - v2 * D" "8 * (2 ^ 97 - v2 * D) \<le> 15 * D"
    "0 < 2 ^ 128 - v3 * D" "2 ^ 128 - v3 * D < 2 * D"
proof -
  have x: "2 ^ 39 \<le> x" "x \<le> 2 ^ 40" "D < 2 ^ 24 * x" "2 ^ 24 * x \<le> D + 2 ^ 24" "0 < x"
  proof -
    have "2 ^ 63 div 2 ^ 24 \<le> D div 2 ^ 24" using D(1) by (intro zdiv_mono1) auto
    then show "2 ^ 39 \<le> x" by (simp add: x_def)
    then show "0 < x" by simp
    have "D div 2 ^ 24 < 2 ^ 40" using D(2) by (intro div_less_of_less_mult) auto
    then show "x \<le> 2 ^ 40" by (simp add: x_def)
    show "D < 2 ^ 24 * x" "2 ^ 24 * x \<le> D + 2 ^ 24"
      using floor_bounds [of "2 ^ 24" D] by (simp_all add: x_def distrib_left)
  qed
  define e1 where "e1 = 2 ^ 60 - v1 * x"
  have e1: "(2 ^ 50 - v0 * x) * (2 ^ 50 - v0 * x) < 2 ^ 40 * e1"
    "2 ^ 40 * e1 \<le> (2 ^ 50 - v0 * x) * (2 ^ 50 - v0 * x) + 2 ^ 40 * x"
    using newton_step_down [of "2 ^ 40" x "2 ^ 11" "2 ^ 50" "2 ^ 60" v0] x(5) by (simp_all add: e1_def v1_def)
  have e1_pos: "0 < e1"
  proof -
    have "0 \<le> (2 ^ 50 - v0 * x) * (2 ^ 50 - v0 * x)" by simp
    then have "0 < 2 ^ 40 * e1" using e1(1) by (rule order_le_less_trans)
    then show ?thesis by (simp add: zero_less_mult_iff)
  qed
  have e1_le: "e1 \<le> 29 * 2 ^ 38"
  proof -
    have "2 ^ 40 * x \<le> 2 ^ 40 * 2 ^ 40" using x(2) by (intro mult_left_mono) auto
    with e1(2) v0(2) have "2 ^ 40 * e1 \<le> 25 * 2 ^ 78 + 2 ^ 40 * 2 ^ 40" by linarith
    also have "\<dots> = 2 ^ 40 * (29 * 2 ^ 38 :: int)" by simp
    finally show ?thesis by simp
  qed
  show "0 < 2 ^ 60 - v1 * x" "2 ^ 60 - v1 * x \<le> 29 * 2 ^ 38" using e1_pos e1_le by (simp_all add: e1_def)
  have v1x: "v1 * x = 2 ^ 60 - e1" by (simp add: e1_def)
  have "0 < v1 * x" using e1_le unfolding v1x by simp
  then show v1: "0 < v1" using x(5) by (simp add: zero_less_mult_iff)
  have "v1 * 2 ^ 39 \<le> v1 * x" using v1 x(1) by (intro mult_left_mono) auto
  also have "\<dots> \<le> 2 ^ 21 * 2 ^ 39" using e1_pos by (simp add: v1x)
  finally show "v1 \<le> 2 ^ 21" by simp
  define e2 where "e2 = 2 ^ 73 - v2 * x"
  have e2: "e1 * e1 \<le> 2 ^ 47 * e2" "2 ^ 47 * e2 < e1 * e1 + 2 ^ 47 * x"
    using newton_step_up [of "2 ^ 47" x "2 ^ 13" "2 ^ 60" v1] x(5) by (simp_all add: e2_def v2_def e1_def)
  have "0 < e1 * e1" using e1_pos by simp
  then have "0 < 2 ^ 47 * e2" using e2(1) by (rule order_less_le_trans)
  then have e2_pos: "0 < e2" by (simp add: zero_less_mult_iff)
  have "0 \<le> v1 * e1" using v1 e1_pos by simp
  then have v1v2: "2 ^ 13 * v1 \<le> v2" unfolding v2_def e1_def [symmetric] by (simp add: pos_imp_zdiv_nonneg_iff)
  have "0 < 2 ^ 13 * v1" using v1 by simp
  then show v2: "0 < v2" using v1v2 by (rule order_less_le_trans)
  have v2x: "v2 * x = 2 ^ 73 - e2" by (simp add: e2_def)
  have "v2 * 2 ^ 39 \<le> v2 * x" using v2 x(1) by (intro mult_left_mono) auto
  also have "\<dots> \<le> 2 ^ 34 * 2 ^ 39" using e2_pos by (simp add: v2x)
  finally show v2_le: "v2 \<le> 2 ^ 34" by simp
  define g where "g = 2 ^ 24 * x - D"
  have g: "0 < g" "g \<le> 2 ^ 24" using x(3,4) by (simp_all add: g_def)
  define e where "e = 2 ^ 97 - v2 * D"
  have e_eq: "e = 2 ^ 24 * e2 + v2 * g"
    by (simp add: e_def e2_def g_def algebra_simps)
  have "0 < v2 * g" using v2 g(1) by simp
  then show e_pos: "0 < 2 ^ 97 - v2 * D" unfolding e_def [symmetric] e_eq using e2_pos by simp
  have e2_le: "e2 \<le> 841 * 2 ^ 29 + x"
  proof -
    have "e1 * e1 \<le> 29 * 2 ^ 38 * (29 * 2 ^ 38)" using e1_le e1_pos by (intro mult_mono) auto
    with e2(2) have "2 ^ 47 * e2 \<le> 29 * 2 ^ 38 * (29 * 2 ^ 38) + 2 ^ 47 * x" by linarith
    also have "\<dots> = 2 ^ 47 * (841 * 2 ^ 29 + x)" by simp
    finally show ?thesis by simp
  qed
  have "e \<le> 7 * 2 ^ 60 + D"
  proof -
    have "v2 * g \<le> 2 ^ 34 * 2 ^ 24" using v2_le g v2 by (intro mult_mono) auto
    moreover have "2 ^ 24 * e2 \<le> 2 ^ 24 * (841 * 2 ^ 29 + x)" using e2_le by (intro mult_left_mono) auto
    ultimately have "e \<le> 2 ^ 34 * 2 ^ 24 + 841 * 2 ^ 53 + 2 ^ 24 * x" unfolding e_eq by simp
    with x(4) show ?thesis by simp
  qed
  with D(1) show e_le: "8 * (2 ^ 97 - v2 * D) \<le> 15 * D" unfolding e_def [symmetric] by simp
  define e3 where "e3 = 2 ^ 128 - v3 * D"
  have D0: "0 < D" using D(1) by simp
  have e3: "e * e \<le> 2 ^ 66 * e3" "2 ^ 66 * e3 < e * e + v2 * D + 2 ^ 66 * D"
    using newton_step_half [of "2 ^ 65" D v2 "2 ^ 31" "2 ^ 97"] D0 v2 by (simp_all add: e3_def v3_def e_def)
  have "0 < e * e" using e_pos by (simp add: e_def)
  then have "0 < 2 ^ 66 * e3" using e3(1) by (rule order_less_le_trans)
  then show "0 < 2 ^ 128 - v3 * D" unfolding e3_def [symmetric] by (simp add: zero_less_mult_iff)
  have ee: "64 * (e * e) \<le> 225 * (2 ^ 64 * D)"
  proof -
    have "(8 * e) * (8 * e) \<le> (15 * D) * (15 * D)"
      using e_le e_pos D0 unfolding e_def [symmetric] by (rule_tac mult_mono) simp_all
    moreover have "D * D \<le> 2 ^ 64 * D" using D by (intro mult_right_mono) auto
    ultimately show ?thesis by simp
  qed
  have "v2 * D \<le> 2 ^ 34 * D" using v2_le D0 by (intro mult_right_mono) auto
  then have "2 ^ 66 * e3 < 2 ^ 66 * (2 * D)"
  proof -
    have "64 * (2 ^ 66 * e3) < 64 * (e * e) + 64 * (v2 * D) + 64 * (2 ^ 66 * D)" using e3(2) by linarith
    also have "\<dots> \<le> 225 * (2 ^ 64 * D) + 64 * (2 ^ 34 * D) + 64 * (2 ^ 66 * D)"
      using ee \<open>v2 * D \<le> 2 ^ 34 * D\<close> by linarith
    also have "\<dots> = (225 * 2 ^ 64 + 64 * 2 ^ 34 + 64 * 2 ^ 66) * D" by (simp add: algebra_simps)
    also have "\<dots> \<le> (64 * (2 ^ 66 * 2)) * D" using D0 by (intro mult_right_mono) auto
    finally show ?thesis by simp
  qed
  then show "2 ^ 128 - v3 * D < 2 * D" unfolding e3_def [symmetric] by simp
qed

text \<open>The final adjustment: the quotient is the approximation or one more.\<close>

lemma last_adjustment:
  fixes B D v e3 :: int
  assumes "0 < D" "D < B" "v * D = B * B - e3" "0 < e3" "e3 < 2 * D"
  shows "(B * B - 1) div D = (if e3 \<le> D then v else v + 1)"
    and "((v + 1) * D mod (B * B)) div B = (if e3 \<le> D then 0 else B - 1)"
proof -
  have V: "(v + 1) * D = B * B + (D - e3)" using assms(3) by (simp add: algebra_simps)
  have B2: "B \<le> B * B" using assms(1,2) mult_left_mono [of 1 B B] by simp
  show "(B * B - 1) div D = (if e3 \<le> D then v else v + 1)"
  proof (cases "e3 \<le> D")
    case True
    have "(B * B - 1) div D = v"
      using assms True by (intro divmod_unique_int(1) [where r = "e3 - 1"]) auto
    with True show ?thesis by simp
  next
    case False
    have "(B * B - 1) div D = v + 1"
      using assms False V by (intro divmod_unique_int(1) [where r = "e3 - D - 1"]) auto
    with False show ?thesis by simp
  qed
  show "((v + 1) * D mod (B * B)) div B = (if e3 \<le> D then 0 else B - 1)"
  proof (cases "e3 \<le> D")
    case True
    have "D - e3 < B * B" "0 \<le> D - e3" using assms True B2 by linarith+
    then have "(B * B + (D - e3)) mod (B * B) = D - e3" by (simp only: mod_add_self1 mod_pos_pos_trivial)
    moreover have "(D - e3) div B = 0" using True assms by (intro div_pos_pos_trivial) auto
    ultimately show ?thesis using True unfolding V by simp
  next
    case False
    have "B * B + (D - e3) < B * B" "0 \<le> B * B + (D - e3)" using assms False B2 by linarith+
    then have "(B * B + (D - e3)) mod (B * B) = B * B + (D - e3)" by (rule mod_pos_pos_trivial [rotated])
    moreover have "(B * B + (D - e3)) div B = B - 1"
      using assms False by (intro divmod_unique_int(1) [where r = "B + (D - e3)"]) (auto simp: algebra_simps)
    ultimately show ?thesis using False unfolding V by simp
  qed
qed

lemma half_error_word:
  fixes d v :: u64
  shows "uint (((v div 2) AND (- (d mod 2))) - v * (d div 2 + d mod 2)) = ((2 ^ 97 - uint v * uint d) div 2) mod W64"
proof -
  define h where "h = uint d div 2"
  have W: "(2 :: int) ^ 96 = W64 * 2 ^ 32" by (simp add: W64_def)
  show ?thesis
  proof (cases "even (uint d)")
    case True
    then have d0: "d mod 2 = 0" by (simp add: word_uint_eq_iff uint_mod_distrib dvd_eq_mod_eq_0)
    have ud: "uint d = 2 * h" using True by (simp add: h_def)
    have "(2 ^ 97 - uint v * uint d) div 2 = - (uint v * h) + W64 * 2 ^ 32"
      unfolding W [symmetric] ud by (simp add: algebra_simps)
    moreover have "uint (- (v * (d div 2))) = (- (uint v * h)) mod W64"
      by (simp add: u64_simps mod_simps uint_div_distrib h_def)
    ultimately show ?thesis by (simp only: d0 mod_mult_self2) simp
  next
    case False
    then have d0: "d mod 2 = 1" by (simp add: word_uint_eq_iff uint_mod_distrib odd_iff_mod_2_eq_one)
    have ud: "uint d = 2 * h + 1" using False by (simp add: h_def)
    have "(2 ^ 97 - uint v * uint d) div 2 = (uint v div 2 - uint v * (h + 1)) + W64 * 2 ^ 32"
      unfolding W [symmetric] ud by (simp add: algebra_simps)
    moreover have "uint (v div 2 - v * (d div 2 + 1)) = (uint v div 2 - uint v * (h + 1)) mod W64"
      by (simp add: u64_simps mod_simps uint_div_distrib h_def)
    ultimately show ?thesis by (simp only: d0 mod_mult_self2) simp
  qed
qed


lemma uint_push_one: "n < 64 \<Longrightarrow> uint (push_bit n 1 :: u64) = 2 ^ n"
  by (simp add: uint_exp64)

lemma uint_eq_of_mod: "uint (w :: u64) = z mod W64 \<Longrightarrow> 0 \<le> z \<Longrightarrow> z < W64 \<Longrightarrow> uint w = z"
  by simp

lemma dw_div: "dw lo hi div W64 = uint hi"
  by (simp add: dw_def)

lemma table_index:
  fixes d :: u64
  assumes "2 ^ 63 \<le> uint d"
  defines "i \<equiv> unat (drop_bit 55 d - 256)"
  shows "i < 256" "(int i + 256) * 2 ^ 31 \<le> uint d div 2 ^ 24 + 1" "uint d div 2 ^ 24 + 1 \<le> (int i + 257) * 2 ^ 31"
proof -
  define k where "k = uint d div 2 ^ 55"
  have D: "uint d < 2 ^ 64" using uint_lt64 [of d] by (simp add: W64_def)
  have "2 ^ 63 div 2 ^ 55 \<le> k" unfolding k_def using assms(1) by (intro zdiv_mono1) auto
  then have k: "256 \<le> k" by simp
  have k': "k < 2 ^ 9" unfolding k_def using D by (intro div_less_of_less_mult) auto
  have "int i = uint (drop_bit 55 d - 256)" by (simp add: i_def)
  also have "\<dots> = (k - 256) mod W64" by (simp add: u64_simps uint_drop_bit64 k_def)
  also have "\<dots> = k - 256" using k k' by (intro mod_W64_id) (simp_all add: W64_def)
  finally have i: "int i = k - 256" .
  then show "i < 256" using k' by simp
  have "k = (uint d div 2 ^ 24) div 2 ^ 31" by (simp add: k_def flip: zdiv_zmult2_eq)
  then show "(int i + 256) * 2 ^ 31 \<le> uint d div 2 ^ 24 + 1" "uint d div 2 ^ 24 + 1 \<le> (int i + 257) * 2 ^ 31"
    using floor_bounds [of "2 ^ 31" "uint d div 2 ^ 24"] by (simp_all add: i distrib_left)
qed

lemma reciprocal_range:
  fixes B D v e :: int
  assumes "0 < D" "D < B" "B \<le> 2 * D" "v * D = B * B - e" "0 < e" "e < 2 * D"
  shows "B \<le> v" "v < 2 * B"
proof -
  show "B \<le> v"
  proof (rule ccontr)
    assume "\<not> B \<le> v"
    then have "v * D \<le> (B - 1) * D" using assms(1) by (intro mult_right_mono) auto
    then have "B * B < (B + 1) * D" using assms(4,6) by (simp add: algebra_simps)
    also have "\<dots> \<le> (B + 1) * (B - 1)" using assms by (intro mult_left_mono) auto
    finally show False by (simp add: algebra_simps)
  qed
  have "v * D < B * B" using assms(4,5) by simp
  also have "\<dots> \<le> B * (2 * D)" using assms by (intro mult_left_mono) auto
  finally have "v * D < (2 * B) * D" by (simp add: algebra_simps)
  then show "v < 2 * B" using assms(1) by simp
qed

lemma reciprocal_value:
  fixes d :: u64
  assumes d: "2 ^ 63 \<le> uint d"
  shows "uint (u64arith_reciprocal_for_div d) + W64 = (W64 * W64 - 1) div uint d"
proof -
  define D where "D = uint d"
  have D: "2 ^ 63 \<le> D" "D < 2 ^ 64" using d uint_lt64 [of d] by (simp_all add: W64_def D_def)
  define i where "i = unat (drop_bit 55 d - 256)"
  define x where "x = D div 2 ^ 24 + 1"
  note ix = table_index [OF d, folded i_def D_def, folded x_def]
  note lut = lut_entry [OF ix(1)]
  define v0 where "v0 = int (lut ! i)"
  have err: "(2 ^ 50 - v0 * x) * (2 ^ 50 - v0 * x) \<le> 25 * 2 ^ 78"
    using first_error [of v0 "int i" x] lut ix by (simp add: v0_def)
  have v0: "0 \<le> v0" by (simp add: v0_def)
  define v1 where "v1 = 2 ^ 11 * v0 - (v0 * v0 * x) div 2 ^ 40 - 1"
  define v2 where "v2 = 2 ^ 13 * v1 + (v1 * (2 ^ 60 - v1 * x)) div 2 ^ 47"
  define v3 where "v3 = 2 ^ 31 * v2 + (v2 * ((2 ^ 97 - v2 * D) div 2)) div 2 ^ 65"
  note st = reciprocal_steps [OF D v0, folded x_def, OF err, folded v1_def, folded v2_def, folded v3_def]
  define v0w v1w v2w :: u64 where "v0w = of_nat (lut ! i)"
    and "v1w = push_bit 11 1 * v0w - drop_bit 40 (v0w * v0w * (drop_bit 24 d + 1)) - 1"
    and "v2w = push_bit 13 v1w + drop_bit 47 (v1w * (push_bit 60 1 - v1w * (drop_bit 24 d + 1)))"
  define ew where "ew = ((v2w div 2) AND (- (d mod 2))) - v2w * (d div 2 + d mod 2)"
  have xw: "uint (drop_bit 24 d + 1) = x"
  proof -
    have "D div 2 ^ 24 < 2 ^ 40" using D by (intro div_less_of_less_mult) auto
    moreover have "0 \<le> D div 2 ^ 24" using D by (simp add: pos_imp_zdiv_nonneg_iff)
    ultimately show ?thesis
      by (subst uint_add64_no_wrap) (simp_all add: uint_drop_bit64 W64_def x_def D_def)
  qed
  have x0: "0 < x" "x \<le> 2 ^ 40" 
  proof -
    have "D div 2 ^ 24 < 2 ^ 40" using D by (intro div_less_of_less_mult) auto
    moreover have "0 \<le> D div 2 ^ 24" using D by (simp add: pos_imp_zdiv_nonneg_iff)
    ultimately show "0 < x" "x \<le> 2 ^ 40" by (simp_all add: x_def)
  qed
  have v0w: "uint v0w = v0"
    using lut(2) by (simp add: v0w_def v0_def unsigned_of_nat take_bit_nat_eq_self)
  have v0b: "v0 \<le> 2 ^ 11" using lut(2) by (simp add: v0_def)
  have p: "uint (v0w * v0w * (drop_bit 24 d + 1)) = v0 * v0 * x"
  proof (rule uint_eq_of_mod)
    have "v0 * v0 \<le> 2 ^ 11 * 2 ^ 11" using v0b v0 by (intro mult_mono) auto
    then have "v0 * v0 * x \<le> 2 ^ 22 * 2 ^ 40" using x0 v0 by (intro mult_mono) auto
    then show "v0 * v0 * x < W64" by (simp add: W64_def)
    show "0 \<le> v0 * v0 * x" using v0 x0 by simp
    show "uint (v0w * v0w * (drop_bit 24 d + 1)) = v0 * v0 * x mod W64"
      by (simp only: uint_mult64 xw v0w mod_simps)
  qed
  have v1w: "uint v1w = v1"
  proof (rule uint_eq_of_mod)
    have q: "uint (drop_bit 40 (v0w * v0w * (drop_bit 24 d + 1))) = (v0 * v0 * x) div 2 ^ 40"
      by (simp only: uint_drop_bit64 p)
    have "uint (push_bit 11 1 * v0w) = (2 ^ 11 * v0) mod W64"
      by (simp only: uint_mult64 v0w) (simp add: uint_push_one)
    then show "uint v1w = v1 mod W64"
      by (simp only: v1w_def v1_def uint_sub64 q mod_simps) (simp add: mod_simps)
    show "0 \<le> v1" "v1 < W64" using st(3,4) by (simp_all add: W64_def)
  qed
  have e1w: "uint (push_bit 60 1 - v1w * (drop_bit 24 d + 1)) = 2 ^ 60 - v1 * x"
  proof (rule uint_eq_of_mod)
    have "uint (v1w * (drop_bit 24 d + 1)) = (v1 * x) mod W64" by (simp only: uint_mult64 xw v1w)
    moreover have "uint (push_bit 60 1 :: u64) = 2 ^ 60" by (rule uint_push_one) simp
    ultimately show "uint (push_bit 60 1 - v1w * (drop_bit 24 d + 1)) = (2 ^ 60 - v1 * x) mod W64"
      by (simp only: uint_sub64 mod_simps)
    show "0 \<le> 2 ^ 60 - v1 * x" "2 ^ 60 - v1 * x < W64" using st(1,2) by (simp_all add: W64_def)
  qed
  have v2w: "uint v2w = v2"
  proof (rule uint_eq_of_mod)
    have "uint (v1w * (push_bit 60 1 - v1w * (drop_bit 24 d + 1))) = v1 * (2 ^ 60 - v1 * x)"
    proof (rule uint_eq_of_mod)
      show "uint (v1w * (push_bit 60 1 - v1w * (drop_bit 24 d + 1))) = v1 * (2 ^ 60 - v1 * x) mod W64"
        by (simp only: uint_mult64 e1w v1w)
      show "0 \<le> v1 * (2 ^ 60 - v1 * x)" using st(1,3) by (intro mult_nonneg_nonneg) linarith+
      have "v1 * (2 ^ 60 - v1 * x) \<le> 2 ^ 21 * (29 * 2 ^ 38)" using st(1-4) by (intro mult_mono) linarith+
      then show "v1 * (2 ^ 60 - v1 * x) < W64" unfolding W64_def by (rule order_le_less_trans) simp
    qed
    then have "uint (drop_bit 47 (v1w * (push_bit 60 1 - v1w * (drop_bit 24 d + 1)))) = (v1 * (2 ^ 60 - v1 * x)) div 2 ^ 47"
      by (simp only: uint_drop_bit64)
    moreover have "uint (push_bit 13 v1w) = (2 ^ 13 * v1) mod W64"
      by (simp only: uint_push_bit64 v1w mult.commute)
    ultimately show "uint v2w = v2 mod W64"
      by (simp only: v2w_def v2_def uint_add64 mod_simps)
    show "0 \<le> v2" "v2 < W64" using st by (simp_all add: W64_def)
  qed
  have ew: "uint ew = (2 ^ 97 - v2 * D) div 2"
  proof (rule uint_eq_of_mod)
    show "uint ew = (2 ^ 97 - v2 * D) div 2 mod W64"
      using half_error_word [of v2w d] by (simp only: ew_def v2w D_def)
    show "0 \<le> (2 ^ 97 - v2 * D) div 2" using st(7) by (simp add: pos_imp_zdiv_nonneg_iff)
    have "(2 ^ 97 - v2 * D) \<le> 2 * D" using st(8) D(1) by simp
    then have "(2 ^ 97 - v2 * D) div 2 \<le> D" by simp
    then show "(2 ^ 97 - v2 * D) div 2 < W64" using D by (simp add: W64_def)
  qed
  obtain p1 p2 where p12: "u64arith_mul_1_1_2 v2w ew = (p1, p2)" by (meson surj_pair)
  have p2: "uint (p2 div 2) = (v2 * ((2 ^ 97 - v2 * D) div 2)) div 2 ^ 65"
  proof -
    have "dw p1 p2 = v2 * ((2 ^ 97 - v2 * D) div 2)" using mul_1_1_2_value [OF p12] by (simp only: v2w ew)
    then have "(v2 * ((2 ^ 97 - v2 * D) div 2)) div W64 = uint p2" using dw_div [of p1 p2] by (simp only:)
    moreover have "(2 :: int) ^ 65 = W64 * 2" by (simp add: W64_def)
    ultimately show ?thesis by (simp only: zdiv_zmult2_eq uint_div_distrib) simp
  qed
  define v3w where "v3w = push_bit 31 v2w + p2 div 2"
  have BB: "(2 :: int) ^ 128 = W64 * W64" by (simp add: W64_def)
  have e3: "v3 * D = W64 * W64 - (2 ^ 128 - v3 * D)" unfolding BB by simp
  have DW: "0 < D" "D < W64" using D by (simp_all add: W64_def)
  note adj = last_adjustment [OF DW e3 st(9,10)]
  have v3w: "uint v3w = v3 mod W64"
  proof -
    have "uint (push_bit 31 v2w) = (2 ^ 31 * v2) mod W64" by (simp only: uint_push_bit64 v2w mult.commute)
    with p2 show ?thesis by (simp only: v3w_def v3_def uint_add64 mod_simps)
  qed
  have half: "W64 \<le> 2 * D" using D by (simp add: W64_def)
  note rng = reciprocal_range [OF DW half e3 st(9,10)]
  have v3w': "uint v3w = v3 - W64" using rng by (simp add: v3w mod_W64_over)
  obtain p3 p4 where p34: "u64arith_mul_1_1_2 v3w d = (p3, p4)" by (meson surj_pair)
  obtain p5 p6 where p56: "u64arith_add_2_2 p3 p4 d d = (p5, p6)" by (meson surj_pair)
  have "dw p5 p6 = (v3 + 1) * D mod (W64 * W64)"
    using dw_add_2_2 [OF p56] mul_1_1_2_value [OF p34]
    by (simp add: v3w' dw_def algebra_simps flip: D_def)
  then have p6: "uint p6 = (v3 + 1) * D mod (W64 * W64) div W64"
    using dw_div [of p5 p6] by (simp only:)
  have res: "u64arith_reciprocal_for_div d = v3w - p6"
    unfolding u64arith_reciprocal_for_div_def Let_def
      i_def [symmetric] v0w_def [symmetric] v1w_def [symmetric] v2w_def [symmetric] ew_def [symmetric]
      p12 case_prod_conv v3w_def [symmetric] p34 p56 ..
  show ?thesis
  proof (cases "2 ^ 128 - v3 * D \<le> D")
    case True
    then have "uint p6 = 0" by (simp only: p6 adj if_True)
    then have "uint (v3w - p6) = v3 - W64" by (simp add: uint_0_iff v3w')
    then show ?thesis using adj(1) True unfolding res D_def [symmetric] by (simp only: if_True)
  next
    case False
    then have p6': "uint p6 = W64 - 1" by (simp only: p6 adj if_False)
    have "uint (v3w - p6) = (v3 - W64 - (W64 - 1)) mod W64" by (simp only: uint_sub64 v3w' p6')
    also have "\<dots> = (v3 + 1 - W64) mod W64"
      using mod_add_self2 [of "v3 - W64 - (W64 - 1)" W64] by (simp add: algebra_simps)
    also have "\<dots> = v3 + 1 - W64"
    proof (rule mod_W64_id)
      have "(W64 * W64 - 1) div D = v3 + 1" using adj(1) False by (simp only: if_False)
      moreover have "(W64 * W64 - 1) div D < 2 * W64"
      proof (rule div_less_of_less_mult)
        have "W64 * W64 \<le> W64 * (2 * D)" using half by (intro mult_left_mono) auto
        also have "\<dots> = D * (2 * W64)" by (simp add: algebra_simps)
        finally show "W64 * W64 - 1 < D * (2 * W64)" by linarith
      qed (rule DW)
      ultimately show "v3 + 1 - W64 < W64" by simp
    qed (use rng in simp)
    finally show ?thesis using adj(1) False unfolding res D_def [symmetric] by (simp only: if_False)
  qed
qed

lemma normalised_divisor:
  fixes b :: u64
  assumes "b \<noteq> 0"
  obtains s where "s < 64" "u64arith_clz b = Some s" "uint (push_bit s b) = uint b * 2 ^ s"
    "2 ^ 63 \<le> uint (push_bit s b)" "W64 \<le> 2 * uint (push_bit s b)"
proof -
  obtain s where s: "s < 64" "u64arith_clz b = Some s" "2 ^ (63 - s) \<le> uint b" "uint b < 2 ^ (64 - s)"
    using clz_value [OF assms] by blast
  have "uint b * 2 ^ s < 2 ^ (64 - s) * 2 ^ s" using s(4) by simp
  also have "\<dots> = W64" using s(1) W64_split [of s] by (simp add: mult.commute)
  finally have ds: "uint (push_bit s b) = uint b * 2 ^ s" by (simp add: uint_push_bit64)
  have "(2 :: int) ^ 63 = 2 ^ (63 - s) * 2 ^ s" using s(1) by (simp flip: power_add)
  also have "\<dots> \<le> uint (push_bit s b)" unfolding ds using s(3) by (intro mult_right_mono) auto
  finally have "2 ^ 63 \<le> uint (push_bit s b)" .
  moreover from this have "W64 \<le> 2 * uint (push_bit s b)" by (simp add: W64_def)
  ultimately show thesis using that s(1,2) ds by blast
qed

lemma divqr_2_1_1_value:
  assumes "a2 < b"
  shows "\<exists>q r. u64arith_divqr_2_1_1 a1 a2 b = Some (q, r)
    \<and> uint q = dw a1 a2 div uint b \<and> uint r = dw a1 a2 mod uint b"
proof (cases "a2 = 0")
  case True
  then show ?thesis by (simp add: u64arith_divqr_2_1_1_def u64arith_divqr_2_1_1_recip_def uint_div_distrib uint_mod_distrib)
next
  case False
  from assms have "b \<noteq> 0" by auto
  then obtain s where s: "s < 64" "u64arith_clz b = Some s" "uint (push_bit s b) = uint b * 2 ^ s"
    "2 ^ 63 \<le> uint (push_bit s b)" "W64 \<le> 2 * uint (push_bit s b)" by (rule normalised_divisor)
  define d where "d = push_bit s b"
  obtain q r where qr: "u64arith_divqr_2_1_1_recip_precomp a1 a2 d (u64arith_reciprocal_for_div d) s = (q, r)"
    by (meson surj_pair)
  note val = recip_precomp_value [OF s(3,5) reciprocal_value [OF s(4)] assms s(1) qr [unfolded d_def]]
  have "u64arith_divqr_2_1_1 a1 a2 b = Some (q, r)"
    using False s(2) by (simp add: u64arith_divqr_2_1_1_def u64arith_divqr_2_1_1_recip_def Let_def qr flip: d_def)
  with val show ?thesis by blast
qed

section \<open>Properties\<close>

text \<open>
  C39: Division of two words by one, through a reciprocal computed without a division: whenever the
  quotient fits (the high word is smaller than the divisor) the function returns the exact
  quotient and remainder.
\<close>

theorem u64arith_division_exact:
  assumes "a2 < b"
  shows "\<exists>q r. u64arith_divqr_2_1_1 a1 a2 b = Some (q, r) \<and> u64arith_divr_2_1_1 a1 a2 b = Some r
    \<and> uint q = dw a1 a2 div uint b \<and> uint r = dw a1 a2 mod uint b"
  using divqr_2_1_1_value [OF assms, of a1] by (auto simp: u64arith_divr_2_1_1_def)

theorem u64arith_division_exact_witness:
  "\<exists>q r. u64arith_divqr_2_1_1 5 3 7 = Some (q, r) \<and> u64arith_divr_2_1_1 5 3 7 = Some r
    \<and> uint q = dw 5 3 div 7 \<and> uint r = dw 5 3 mod 7"
  using u64arith_division_exact [of 3 7 5] by simp

text \<open>
  The reciprocal of a normalised divisor: the table look-up and the Newton steps on
  integers end in exactly the constant of the division algorithm,
  \<open>\<lfloor>(2 ^ 128 - 1) / d\<rfloor> - 2 ^ 64\<close>.
\<close>

theorem u64arith_reciprocal_exact:
  assumes "2 ^ 63 \<le> uint d"
  shows "uint (u64arith_reciprocal_for_div d) = (W64 * W64 - 1) div uint d - W64"
  using reciprocal_value [OF assms] by simp

theorem u64arith_reciprocal_exact_witness:
  "uint (u64arith_reciprocal_for_div 13835058055282163712) = (W64 * W64 - 1) div 13835058055282163712 - W64"
  using u64arith_reciprocal_exact [of 13835058055282163712] by simp

text \<open>
  The shift and subtract division, kept for machines without a division instruction, does not
  divide: its divisor shift passes the words of the divisor in the wrong order. Seven
  divided by two gives the quotient \<open>2 ^ 63 - 1\<close> and the remainder seven.
\<close>

theorem u64arith_slow_division_wrong:
  "u64arith_divqr_2_1_1_slow 7 0 2 = (9223372036854775807, 7)"
  by code_simp

end
