(* ===== verification/CompileTime.thy ===== *)
theory CompileTime
  imports U64arith
begin

text \<open>
  The compile time functions of \<^verbatim>\<open>utils/cado_compile_time_hacks.hpp\<close>. A template with integer
  parameters is a function of them, a chain of base classes is a recursion. The arguments are
  small non-negative constants, so that the C++ operators on \<open>int\<close> are those of the integers.
\<close>

section \<open>Definitions\<close>

fun log2_ct :: "nat \<Rightarrow> nat" where
  "log2_ct x = (if x > 1 then 1 + log2_ct (x div 2) else 0)"

declare log2_ct.simps [simp del]

text \<open>The bisection of \<open>constant_time_square_root\<close>, from the interval \<open>a\<close>, \<open>b\<close>.\<close>

function constant_sqrt_between :: "nat \<Rightarrow> nat \<Rightarrow> nat \<Rightarrow> nat" where
  "constant_sqrt_between a b x =
     (let m = (a + b) div 2
      in if m \<le> a then a
         else if m * m > x then constant_sqrt_between a m x
         else constant_sqrt_between m b x)"
  by pat_completeness auto
termination
  by (relation "measure (\<lambda>(a, b, x). b - a)") auto

declare constant_sqrt_between.simps [simp del]

definition constant_sqrt :: "nat \<Rightarrow> nat \<Rightarrow> nat" where
  "constant_sqrt digits x = constant_sqrt_between 0 (2 ^ (digits div 2)) x"

fun pow2_mod :: "nat \<Rightarrow> nat \<Rightarrow> nat" where
  "pow2_mod k n =
     (if k = 0 then 1
      else let h = pow2_mod (k div 2) n;
               even_value = (h * h) mod n
           in if k mod 2 \<noteq> 0 then (even_value + even_value) mod n else even_value)"

declare pow2_mod.simps [simp del]

text \<open>The result is the greatest common divisor and the two cofactors.\<close>

function bezout_relation :: "int \<Rightarrow> int \<Rightarrow> int \<Rightarrow> int \<Rightarrow> int \<Rightarrow> int \<Rightarrow> int \<times> int \<times> int" where
  "bezout_relation u0 v0 g0 u1 v1 g1 =
     (if g1 = 0 then (g0, u0, v0)
      else bezout_relation u1 v1 g1 (u0 - (g0 div g1) * u1) (v0 - (g0 div g1) * v1) (g0 mod g1))"
  by pat_completeness auto
termination
  by (relation "measure (\<lambda>(u0, v0, g0, u1, v1, g1). nat \<bar>g1\<bar>)") (auto simp: abs_mod_less)

declare bezout_relation.simps [simp del]

definition bezout :: "int \<Rightarrow> int \<Rightarrow> int \<times> int \<times> int" where
  "bezout a b = bezout_relation 1 0 a 0 1 b"

definition minus_inverse_mod_n :: "int \<Rightarrow> int \<Rightarrow> int" where
  "minus_inverse_mod_n n k =
     (let (g, u, v) = bezout n (n - k)
      in if g = 1 then (if v < 0 then n + v else v) else 0)"

text \<open>\<open>array_map<N, F>\<close> puts \<open>F<N, left - 1>\<close> in front for \<open>left\<close> from \<open>N\<close> down to one.\<close>

fun array_map :: "nat \<Rightarrow> (nat \<Rightarrow> nat \<Rightarrow> 'a) \<Rightarrow> nat \<Rightarrow> 'a list \<Rightarrow> 'a list" where
  "array_map N F 0 rest = rest"
| "array_map N F (Suc left) rest = array_map N F left (F N left # rest)"

text \<open>
  The inverse of an odd constant modulo the base: \<open>c\<close> is the number of correct bits, five at the
  start and never zero.
\<close>

function invmod_ct_loop :: "u64 \<Rightarrow> u64 \<Rightarrow> nat \<Rightarrow> u64" where
  "invmod_ct_loop k current c =
     (if c \<ge> 64 \<or> c = 0 then current
      else invmod_ct_loop k (current * (2 - current * k)) (c * 2))"
  by pat_completeness auto
termination
  by (relation "measure (\<lambda>(k, current, c). 64 - c)") auto

declare invmod_ct_loop.simps [simp del]

definition invmod_ct :: "u64 \<Rightarrow> u64" where
  "invmod_ct k = invmod_ct_loop k ((3 * k) XOR 2) 5"

section \<open>Correctness\<close>

lemma log2_ct_bounds: "0 < x \<Longrightarrow> 2 ^ log2_ct x \<le> x \<and> x < 2 ^ (log2_ct x + 1)"
proof (induction x rule: log2_ct.induct)
  case (1 x)
  show ?case
  proof (cases "x > 1")
    case True
    then have "2 ^ log2_ct (x div 2) \<le> x div 2 \<and> x div 2 < 2 ^ (log2_ct (x div 2) + 1)"
      using 1 by simp
    moreover have "log2_ct x = 1 + log2_ct (x div 2)" using True by (subst log2_ct.simps) simp
    moreover have "2 * (x div 2) \<le> x" "x < 2 * (x div 2) + 2" by linarith+
    ultimately show ?thesis by auto
  next
    case False
    with 1 show ?thesis by (subst (1 2) log2_ct.simps) simp
  qed
qed

lemma constant_sqrt_between_value:
  "a * a \<le> x \<Longrightarrow> x < b * b \<Longrightarrow>
    constant_sqrt_between a b x * constant_sqrt_between a b x \<le> x
    \<and> x < (constant_sqrt_between a b x + 1) * (constant_sqrt_between a b x + 1)"
proof (induction a b x rule: constant_sqrt_between.induct)
  case (1 a b x)
  have ab: "a < b" using "1.prems" by (meson leI le_trans mult_le_mono not_less)
  define m where "m = (a + b) div 2"
  consider (stop) "m \<le> a" | (left) "a < m" "x < m * m" | (right) "a < m" "m * m \<le> x" by linarith
  then show ?case
  proof cases
    case stop
    then have "b = a + 1" using ab by (simp add: m_def)
    moreover have "constant_sqrt_between a b x = a" using stop by (subst constant_sqrt_between.simps) (simp add: Let_def m_def)
    ultimately show ?thesis using "1.prems" by simp
  next
    case left
    then have "constant_sqrt_between a b x = constant_sqrt_between a m x"
      by (subst constant_sqrt_between.simps) (simp add: Let_def m_def)
    with left "1.IH"(1) [OF m_def] "1.prems" show ?thesis by simp
  next
    case right
    then have "constant_sqrt_between a b x = constant_sqrt_between m b x"
      by (subst constant_sqrt_between.simps) (simp add: Let_def m_def)
    with right "1.IH"(2) [OF m_def] "1.prems" show ?thesis by simp
  qed
qed

lemma constant_sqrt_value:
  assumes "x < 2 ^ digits" "even digits"
  shows "constant_sqrt digits x * constant_sqrt digits x \<le> x"
    "x < (constant_sqrt digits x + 1) * (constant_sqrt digits x + 1)"
proof -
  have "(2 :: nat) ^ (digits div 2) * 2 ^ (digits div 2) = 2 ^ digits"
    using assms(2) by (simp flip: power_add mult_2)
  with assms(1) have "x < 2 ^ (digits div 2) * 2 ^ (digits div 2)" by simp
  from constant_sqrt_between_value [of 0 x, OF _ this]
  show "constant_sqrt digits x * constant_sqrt digits x \<le> x"
    "x < (constant_sqrt digits x + 1) * (constant_sqrt digits x + 1)"
    by (simp_all add: constant_sqrt_def)
qed

lemma pow2_mod_value: "1 < n \<Longrightarrow> pow2_mod k n = 2 ^ k mod n"
proof (induction k n rule: pow2_mod.induct)
  case (1 k n)
  show ?case
  proof (cases "k = 0")
    case True
    with 1 show ?thesis by (subst pow2_mod.simps) simp
  next
    case False
    define h where "h = k div 2"
    have ih: "pow2_mod h n = 2 ^ h mod n" using 1 False by (simp add: h_def)
    have hh: "(pow2_mod h n * pow2_mod h n) mod n = 2 ^ (2 * h) mod n"
      by (simp add: ih mod_mult_eq mult_2 power_add)
    show ?thesis
    proof (cases "k mod 2 = 0")
      case True
      then have "k = 2 * h" unfolding h_def by presburger
      then show ?thesis using False True hh by (subst pow2_mod.simps) (simp add: Let_def)
    next
      case odd: False
      then have k: "k = Suc (2 * h)" by (simp add: h_def) presburger
      have "(2 ^ (2 * h) mod n + 2 ^ (2 * h) mod n) mod n = 2 ^ k mod n"
        by (simp add: k mod_add_eq mult_2)
      then show ?thesis using False odd hh by (subst pow2_mod.simps) (simp add: Let_def flip: h_def)
    qed
  qed
qed

lemma bezout_relation_value:
  "bezout_relation u0 v0 g0 u1 v1 g1 = (g, u, v) \<Longrightarrow> 0 \<le> g0 \<Longrightarrow> 0 \<le> g1
   \<Longrightarrow> a * u0 + b * v0 = g0 \<Longrightarrow> a * u1 + b * v1 = g1
   \<Longrightarrow> g = gcd g0 g1 \<and> a * u + b * v = g"
proof (induction u0 v0 g0 u1 v1 g1 rule: bezout_relation.induct)
  case (1 u0 v0 g0 u1 v1 g1)
  show ?case
  proof (cases "g1 = 0")
    case True
    with "1.prems" show ?thesis by (auto simp: bezout_relation.simps [of _ _ _ _ _ 0])
  next
    case False
    have rec: "bezout_relation u1 v1 g1 (u0 - g0 div g1 * u1) (v0 - g0 div g1 * v1) (g0 mod g1) = (g, u, v)"
      using "1.prems"(1) False by (subst (asm) bezout_relation.simps) simp
    have "a * (u0 - g0 div g1 * u1) + b * (v0 - g0 div g1 * v1) = g0 - (g0 div g1) * (a * u1 + b * v1)"
      unfolding "1.prems"(4) [symmetric] by (simp add: algebra_simps)
    also have "\<dots> = g0 mod g1" unfolding "1.prems"(5) by (simp add: minus_div_mult_eq_mod)
    finally have eq: "a * (u0 - g0 div g1 * u1) + b * (v0 - g0 div g1 * v1) = g0 mod g1" .
    have "0 \<le> g0 mod g1" using "1.prems"(3) False by simp
    from "1.IH" [OF False rec "1.prems"(3) this "1.prems"(5) eq]
    show ?thesis by (simp only: gcd_red_int [of g0 g1])
  qed
qed

lemma bezout_value:
  assumes "bezout a b = (g, u, v)" "0 \<le> a" "0 \<le> b"
  shows "g = gcd a b" "a * u + b * v = g"
  using bezout_relation_value [of 1 0 a 0 1 b g u v a b] assms by (simp_all add: bezout_def)

lemma abs_diff_opposite:
  fixes v0 v1 q :: int
  assumes "v0 * v1 \<le> 0" "0 \<le> q"
  shows "\<bar>v0 - q * v1\<bar> = \<bar>v0\<bar> + q * \<bar>v1\<bar>"
proof -
  consider "0 \<le> v0" "v1 \<le> 0" | "v0 \<le> 0" "0 \<le> v1" using assms(1) by (auto simp: mult_le_0_iff)
  then show ?thesis
  proof cases
    case 1
    then have "q * v1 \<le> 0" using assms(2) by (simp add: mult_nonneg_nonpos)
    then show ?thesis using 1 by simp
  next
    case 2
    then have "0 \<le> q * v1" using assms(2) by simp
    then show ?thesis using 2 by simp
  qed
qed

text \<open>The second cofactor is at most the first argument in absolute value.\<close>

lemma bezout_relation_bound:
  "bezout_relation u0 v0 g0 u1 v1 g1 = (g, u, v) \<Longrightarrow> 0 < g0 \<Longrightarrow> 0 \<le> g1 \<Longrightarrow> v0 * v1 \<le> 0
   \<Longrightarrow> \<bar>v1\<bar> * g0 + \<bar>v0\<bar> * g1 = a \<Longrightarrow> \<bar>v0\<bar> \<le> a \<Longrightarrow> \<bar>v\<bar> \<le> a"
proof (induction u0 v0 g0 u1 v1 g1 rule: bezout_relation.induct)
  case (1 u0 v0 g0 u1 v1 g1)
  show ?case
  proof (cases "g1 = 0")
    case True
    with "1.prems" show ?thesis by (auto simp: bezout_relation.simps [of _ _ _ _ _ 0])
  next
    case False
    define q where "q = g0 div g1"
    have rec: "bezout_relation u1 v1 g1 (u0 - q * u1) (v0 - q * v1) (g0 mod g1) = (g, u, v)"
      using "1.prems"(1) False unfolding q_def by (subst (asm) bezout_relation.simps) simp
    have q: "0 \<le> q" "q * g1 + g0 mod g1 = g0"
      using "1.prems"(2,3) False by (simp_all add: q_def pos_imp_zdiv_nonneg_iff)
    have "0 \<le> q * (v1 * v1)" using q(1) by simp
    then have "v0 * v1 \<le> q * (v1 * v1)" using "1.prems"(4) by linarith
    then have sgn: "v1 * (v0 - q * v1) \<le> 0" by (simp add: algebra_simps)
    have ab: "\<bar>v0 - q * v1\<bar> = \<bar>v0\<bar> + q * \<bar>v1\<bar>"
      using "1.prems"(4) q(1) by (rule abs_diff_opposite)
    have "\<bar>v0 - q * v1\<bar> * g1 + \<bar>v1\<bar> * (g0 mod g1) = \<bar>v1\<bar> * (q * g1 + g0 mod g1) + \<bar>v0\<bar> * g1"
      unfolding ab by (simp add: algebra_simps)
    then have inv: "\<bar>v0 - q * v1\<bar> * g1 + \<bar>v1\<bar> * (g0 mod g1) = a" using "1.prems"(5) q(2) by simp
    have "\<bar>v1\<bar> * 1 \<le> \<bar>v1\<bar> * g0" using "1.prems"(2) by (intro mult_left_mono) auto
    moreover have "0 \<le> \<bar>v0\<bar> * g1" using "1.prems"(3) by simp
    ultimately have "\<bar>v1\<bar> \<le> a" using "1.prems"(5) by linarith
    moreover have "0 \<le> g0 mod g1" "0 < g1" using "1.prems"(3) False by simp_all
    ultimately show ?thesis
      using "1.IH" [OF False] rec inv sgn unfolding q_def by blast
  qed
qed

lemma minus_inverse_mod_n_range:
  assumes "0 \<le> k" "k < n"
  shows "0 \<le> minus_inverse_mod_n n k" "minus_inverse_mod_n n k \<le> n"
proof -
  obtain g u v where b: "bezout n (n - k) = (g, u, v)" by (metis prod_cases3)
  then have "\<bar>v\<bar> \<le> n"
    using bezout_relation_bound [of 1 0 n 0 1 "n - k" g u v n] assms by (simp add: bezout_def)
  then show "0 \<le> minus_inverse_mod_n n k" "minus_inverse_mod_n n k \<le> n"
    using assms by (auto simp: minus_inverse_mod_n_def b)
qed

lemma minus_inverse_mod_n_value:
  assumes "0 \<le> k" "k < n" "coprime n k"
  shows "(minus_inverse_mod_n n k * k + 1) mod n = 0"
proof -
  obtain g u v where b: "bezout n (n - k) = (g, u, v)" by (metis prod_cases3)
  have "gcd n (n - k) = 1" using assms(3) by (metis coprime_iff_gcd_eq_1 diff_add_cancel gcd.commute gcd_add2 gcd_diff1)
  with bezout_value [OF b] assms have g: "g = 1" "n * u + (n - k) * v = 1" by simp_all
  have "minus_inverse_mod_n n k mod n = v mod n" by (simp add: minus_inverse_mod_n_def b g)
  then have "(minus_inverse_mod_n n k * k + 1) mod n = (v * k + 1) mod n"
    by (metis mod_add_left_eq mod_mult_left_eq)
  also have "v * k + 1 = n * (u + v)" using g(2) by (simp add: algebra_simps)
  finally show ?thesis by simp
qed

lemma minus_inverse_mod_n_eq_0_iff:
  assumes "0 \<le> k" "k < n" "1 < n"
  shows "minus_inverse_mod_n n k = 0 \<longleftrightarrow> \<not> coprime n k"
proof
  assume z: "minus_inverse_mod_n n k = 0"
  show "\<not> coprime n k" using minus_inverse_mod_n_value [OF assms(1,2)] z assms(3) by auto
next
  assume nc: "\<not> coprime n k"
  obtain g u v where b: "bezout n (n - k) = (g, u, v)" by (metis prod_cases3)
  have "gcd n (n - k) = gcd n k" by (metis diff_add_cancel gcd.commute gcd_add2 gcd_diff1)
  with bezout_value [OF b] assms nc have "g \<noteq> 1" by (simp add: coprime_iff_gcd_eq_1)
  then show "minus_inverse_mod_n n k = 0" by (simp add: minus_inverse_mod_n_def b)
qed

lemma array_map_value: "array_map N F left rest = map (F N) [0..<left] @ rest"
  by (induction left arbitrary: rest) simp_all

lemma invmod_ct_loop_value:
  fixes k :: u64
  assumes "2 ^ min c 64 dvd uint k * uint current - 1" "0 < c"
  shows "2 ^ 64 dvd uint k * uint (invmod_ct_loop k current c) - 1"
  using assms
proof (induction k current c rule: invmod_ct_loop.induct)
  case (1 k current c)
  show ?case
  proof (cases "c \<ge> 64")
    case True
    with "1.prems"(1) show ?thesis by (subst invmod_ct_loop.simps) simp
  next
    case False
    define r r' where "r = uint current" and "r' = uint (current * (2 - current * k))"
    have "2 ^ c * 2 ^ c dvd uint k * (2 * r - r * r * uint k) - 1"
      using newton_dvd "1.prems"(1) False by (simp add: r_def)
    then have "2 ^ min (c * 2) 64 dvd uint k * (2 * r - r * r * uint k) - 1"
      by (rule dvd_trans [rotated]) (simp add: le_imp_power_dvd flip: power_add)
    moreover have "2 ^ min (c * 2) 64 dvd uint k * (r' - (2 * r - r * r * uint k))"
    proof -
      have "r' mod W64 = (2 * r - r * r * uint k) mod W64"
        by (simp add: r_def r'_def u64_simps uint_numeral mod_simps algebra_simps)
      then have "W64 dvd r' - (2 * r - r * r * uint k)" by (simp add: mod_eq_dvd_iff)
      moreover have "2 ^ min (c * 2) 64 dvd W64" unfolding W64_def by (rule le_imp_power_dvd) simp
      ultimately show ?thesis by (meson dvd_mult dvd_trans)
    qed
    ultimately have "2 ^ min (c * 2) 64 dvd
        uint k * (2 * r - r * r * uint k) - 1 + uint k * (r' - (2 * r - r * r * uint k))"
      by (rule dvd_add)
    then have "2 ^ min (c * 2) 64 dvd uint k * r' - 1" by (simp add: algebra_simps)
    then show ?thesis
      using "1.IH" False "1.prems"(2) by (subst invmod_ct_loop.simps) (simp add: r'_def)
  qed
qed

lemma invmod_ct_value:
  assumes "odd (uint k)"
  shows "k * invmod_ct k = 1"
proof -
  have "2 ^ min 5 64 dvd uint k * uint ((3 * k) XOR 2 :: u64) - 1" using invmod_guess [OF assms] by simp
  from invmod_ct_loop_value [OF this] have "W64 dvd uint k * uint (invmod_ct k) - 1"
    by (simp add: invmod_ct_def W64_def)
  then have "(uint k * uint (invmod_ct k)) mod W64 = 1 mod W64" by (simp only: mod_eq_dvd_iff)
  then show ?thesis by (simp add: word_uint_eq_iff uint_mult64)
qed

text \<open>The inverse is the one that the run time function finds.\<close>

lemma invmod_ct_eq:
  assumes "odd (uint k)"
  shows "invmod_ct k = u64arith_invmod k"
proof -
  have "invmod_ct k = invmod_ct k * (k * u64arith_invmod k)" using invmod_value [OF assms] by simp
  also have "\<dots> = (k * invmod_ct k) * u64arith_invmod k" by (simp add: ac_simps)
  finally show ?thesis using invmod_ct_value [OF assms] by simp
qed

section \<open>Properties\<close>

text \<open>
  The table of negated inverses that division by a constant uses: for \<open>k\<close> invertible
  modulo \<open>n\<close> the entry is \<open>- 1 / k\<close> modulo \<open>n\<close>, every entry fits, and the entry is zero exactly when
  \<open>k\<close> has no inverse.
\<close>

theorem minus_inverse_table:
  assumes "1 < n" "k < n"
  defines "inv_n \<equiv> array_map n (\<lambda>n k. minus_inverse_mod_n (int n) (int k)) n []"
  shows "length inv_n = n \<and> 0 \<le> inv_n ! k \<and> inv_n ! k \<le> int n
    \<and> (inv_n ! k = 0 \<longleftrightarrow> \<not> coprime n k)
    \<and> (coprime n k \<longrightarrow> (inv_n ! k * int k + 1) mod int n = 0)"
proof -
  have "inv_n ! k = minus_inverse_mod_n (int n) (int k)" "length inv_n = n"
    using assms by (simp_all add: array_map_value inv_n_def)
  then show ?thesis
    using assms(1,2) minus_inverse_mod_n_range [of "int k" "int n"] minus_inverse_mod_n_eq_0_iff [of "int k" "int n"]
      minus_inverse_mod_n_value [of "int k" "int n"] by simp
qed

theorem minus_inverse_table_witness:
  "(array_map 5 (\<lambda>n k. minus_inverse_mod_n (int n) (int k)) 5 [] ! 3 * 3 + 1) mod 5 = 0"
  using minus_inverse_table [of 5 3] by (simp add: coprime_iff_gcd_eq_1 gcd_non_0_nat)

text \<open>
  The compile time inverse of an odd word is the inverse modulo the base and is the same word as the
  run time Newton iteration gives.
\<close>

theorem invmod_ct_correct:
  assumes "odd (uint k)"
  shows "k * invmod_ct k = 1 \<and> invmod_ct k = u64arith_invmod k"
  using invmod_ct_value [OF assms] invmod_ct_eq [OF assms] by simp

theorem invmod_ct_correct_witness: "13 * invmod_ct 13 = 1 \<and> invmod_ct 13 = u64arith_invmod 13"
  by (rule invmod_ct_correct) simp

text \<open>
  The compile time integer logarithm and square root are the floors of the real ones.
\<close>

theorem compile_time_roots:
  assumes "0 < x" "x < 2 ^ digits" "even digits"
  shows "2 ^ log2_ct x \<le> x \<and> x < 2 ^ (log2_ct x + 1)
    \<and> constant_sqrt digits x * constant_sqrt digits x \<le> x
    \<and> x < (constant_sqrt digits x + 1) * (constant_sqrt digits x + 1)"
  using log2_ct_bounds [OF assms(1)] constant_sqrt_value [OF assms(2,3)] by simp

theorem compile_time_roots_witness:
  "constant_sqrt 16 1000 * constant_sqrt 16 1000 \<le> 1000
    \<and> 1000 < (constant_sqrt 16 1000 + 1) * (constant_sqrt 16 1000 + 1)"
  using compile_time_roots [of 1000 16] by simp

end
