(* ===== verification/ModInt.thy ===== *)
theory ModInt
  imports U64div CompileTime
begin

text \<open>
  The fixed size integers of \<^verbatim>\<open>utils/arithxx/modint.hpp\<close>. An \<open>Integer_base\<close> of \<open>N\<close> words is the
  list of its words, least significant first; \<open>wvalue\<close> is the number it stands for. \<open>Integer64\<close>
  is one word and is modelled by the word itself; \<open>Integer128\<close> is a record of two words.
\<close>

section \<open>Operations common to all sizes\<close>

fun wvalue :: "u64 list \<Rightarrow> int" where
  "wvalue [] = 0"
| "wvalue (a # as) = uint a + W64 * wvalue as"

text \<open>The error is the exception for an input of more than \<open>NN\<close> words.\<close>

definition Integer_set :: "nat \<Rightarrow> u64 list \<Rightarrow> u64 list option" where
  "Integer_set NN s = (if length s > NN then None else Some (s @ replicate (NN - length s) 0))"

text \<open>\<open>Integer_get x r len\<close> is the caller's buffer \<open>r\<close> after the copy.\<close>

definition Integer_get :: "u64 list \<Rightarrow> u64 list \<Rightarrow> nat \<Rightarrow> u64 list" where
  "Integer_get x r len = take (min len (length x)) x @ drop (min len (length x)) r"

fun size_in_words_loop :: "u64 list \<Rightarrow> nat \<Rightarrow> nat" where
  "size_in_words_loop x 0 = 0"
| "size_in_words_loop x (Suc s) = (if x ! s = 0 then size_in_words_loop x s else Suc s)"

definition size_in_words :: "u64 list \<Rightarrow> nat" where
  "size_in_words x = size_in_words_loop x (length x)"

definition fits_uint64_t :: "u64 list \<Rightarrow> bool" where
  "fits_uint64_t x = (size_in_words x \<le> 1)"

definition getWord :: "u64 list \<Rightarrow> nat \<Rightarrow> u64" where
  "getWord x i = (if i < length x then x ! i else 0)"

definition Integer_bool :: "u64 list \<Rightarrow> bool" where
  "Integer_bool x = list_ex (\<lambda>w. w \<noteq> 0) x"

datatype strong_ordering = Less | Equal | Greater

definition compare_u64 :: "u64 \<Rightarrow> u64 \<Rightarrow> strong_ordering" where
  "compare_u64 a b = (if a < b then Less else if a = b then Equal else Greater)"

fun lexicographical_compare_three_way :: "u64 list \<Rightarrow> u64 list \<Rightarrow> strong_ordering" where
  "lexicographical_compare_three_way [] [] = Equal"
| "lexicographical_compare_three_way [] (b # bs) = Less"
| "lexicographical_compare_three_way (a # as) [] = Greater"
| "lexicographical_compare_three_way (a # as) (b # bs) =
     (case compare_u64 a b of Equal \<Rightarrow> lexicographical_compare_three_way as bs | c \<Rightarrow> c)"

definition Integer_compare :: "u64 list \<Rightarrow> u64 list \<Rightarrow> strong_ordering" where
  "Integer_compare x a = lexicographical_compare_three_way (rev x) (rev a)"

definition Integer_compare_u64 :: "u64 list \<Rightarrow> u64 \<Rightarrow> strong_ordering" where
  "Integer_compare_u64 x a =
     (if list_ex (\<lambda>w. w \<noteq> 0) (tl x) then Greater else compare_u64 (hd x) a)"

definition Integer_eq :: "u64 list \<Rightarrow> u64 list \<Rightarrow> bool" where
  "Integer_eq x a = list_all2 (=) x a"

definition Integer_eq_u64 :: "u64 list \<Rightarrow> u64 \<Rightarrow> bool" where
  "Integer_eq_u64 x a = (hd x = a \<and> \<not> list_ex (\<lambda>w. w \<noteq> 0) (tl x))"

definition Integer_or :: "u64 list \<Rightarrow> u64 list \<Rightarrow> u64 list" where
  "Integer_or x a = map2 (OR) x a"

definition Integer_and :: "u64 list \<Rightarrow> u64 list \<Rightarrow> u64 list" where
  "Integer_and x a = map2 (AND) x a"

definition Integer_xor :: "u64 list \<Rightarrow> u64 list \<Rightarrow> u64 list" where
  "Integer_xor x a = map2 (XOR) x a"

definition Integer_or_u64 :: "u64 list \<Rightarrow> u64 \<Rightarrow> u64 list" where
  "Integer_or_u64 x a = x[0 := x ! 0 OR a]"

definition Integer_and_u64 :: "u64 list \<Rightarrow> u64 \<Rightarrow> u64 list" where
  "Integer_and_u64 x a = (x ! 0 AND a) # replicate (length x - 1) 0"

definition Integer_xor_u64 :: "u64 list \<Rightarrow> u64 \<Rightarrow> u64 list" where
  "Integer_xor_u64 x a = x[0 := x ! 0 XOR a]"

text \<open>The complement: the code complements the words of a fresh object, which are zero.\<close>

definition Integer_not :: "u64 list \<Rightarrow> u64 list" where
  "Integer_not x = (let res = replicate (length x) 0 in map (\<lambda>v. NOT v) res)"

text \<open>The loops of \<open>clz\<close> and \<open>ctz\<close> run over the words from one end; \<open>b\<close> counts the zero words.\<close>

fun Integer_clz_loop :: "u64 list \<Rightarrow> nat \<Rightarrow> nat option" where
  "Integer_clz_loop [] b = Some b"
| "Integer_clz_loop (c # cs) b =
     (if c \<noteq> 0 then map_option (\<lambda>z. b + z) (u64arith_clz c) else Integer_clz_loop cs (b + 64))"

definition Integer_clz :: "u64 list \<Rightarrow> nat option" where
  "Integer_clz x = Integer_clz_loop (rev x) 0"

definition Integer_bits :: "u64 list \<Rightarrow> nat option" where
  "Integer_bits x = map_option (\<lambda>z. length x * 64 - z) (Integer_clz x)"

fun Integer_ctz_loop :: "u64 list \<Rightarrow> nat \<Rightarrow> nat option" where
  "Integer_ctz_loop [] b = Some b"
| "Integer_ctz_loop (c # cs) b =
     (if c \<noteq> 0 then map_option (\<lambda>z. b + z) (u64arith_ctz c) else Integer_ctz_loop cs (b + 64))"

definition Integer_ctz :: "u64 list \<Rightarrow> nat option" where
  "Integer_ctz x = Integer_ctz_loop x 0"

text \<open>\<open>mod_n_impl\<close>: the remainder by a small constant, one word at a time from the top.\<close>

fun mod_n :: "u64 \<Rightarrow> u64 list \<Rightarrow> u64" where
  "mod_n n [] = 0"
| "mod_n n [r] = r mod n"
| "mod_n n (r # rs) = (mod_n n rs * of_nat (pow2_mod 64 (unat n)) + r mod n) mod n"

section \<open>One word\<close>

definition Integer64_signed_shift_right :: "u64 \<Rightarrow> nat \<Rightarrow> u64" where
  "Integer64_signed_shift_right a i = word_of_int (sint a div 2 ^ i)"

definition Integer64_sign_bit :: "u64 \<Rightarrow> bool" where
  "Integer64_sign_bit a = (sint a < 0)"

definition Integer64_divexact :: "u64 \<Rightarrow> u64 \<Rightarrow> u64" where
  "Integer64_divexact x a = x div a"

definition reduce_multiple64 :: "u64 \<Rightarrow> u64 \<Rightarrow> u64" where
  "reduce_multiple64 n t = t * invmod_ct n"

section \<open>Two words\<close>

record Integer128 =
  w0 :: u64
  w1 :: u64

definition words128 :: "Integer128 \<Rightarrow> u64 list" where
  "words128 x = [w0 x, w1 x]"

definition mk128 :: "u64 \<Rightarrow> u64 \<Rightarrow> Integer128" where
  "mk128 a0 a1 = \<lparr>w0 = a0, w1 = a1\<rparr>"

definition value128 :: "Integer128 \<Rightarrow> int" where
  "value128 x = dw (w0 x) (w1 x)"

definition Integer128_of_u64 :: "u64 \<Rightarrow> Integer128" where
  "Integer128_of_u64 a = mk128 a 0"

definition Integer128_of_array :: "u64 list \<Rightarrow> Integer128 option" where
  "Integer128_of_array s =
     (case Integer_set 2 s of None \<Rightarrow> None | Some ws \<Rightarrow> Some (mk128 (ws ! 0) (ws ! 1)))"

definition Integer128_inc :: "Integer128 \<Rightarrow> Integer128" where
  "Integer128_inc x = (let (a, b) = u64arith_add_2_2 (w0 x) (w1 x) 1 0 in mk128 a b)"

definition Integer128_add :: "Integer128 \<Rightarrow> Integer128 \<Rightarrow> Integer128" where
  "Integer128_add x y = (let (a, b) = u64arith_add_2_2 (w0 x) (w1 x) (w0 y) (w1 y) in mk128 a b)"

definition Integer128_add_u64 :: "Integer128 \<Rightarrow> u64 \<Rightarrow> Integer128" where
  "Integer128_add_u64 x y = (let (a, b) = u64arith_add_2_2 (w0 x) (w1 x) y 0 in mk128 a b)"

definition Integer128_dec :: "Integer128 \<Rightarrow> Integer128" where
  "Integer128_dec x = (let (a, b) = u64arith_sub_2_2 (w0 x) (w1 x) 1 0 in mk128 a b)"

definition Integer128_sub :: "Integer128 \<Rightarrow> Integer128 \<Rightarrow> Integer128" where
  "Integer128_sub x y = (let (a, b) = u64arith_sub_2_2 (w0 x) (w1 x) (w0 y) (w1 y) in mk128 a b)"

definition Integer128_sub_u64 :: "Integer128 \<Rightarrow> u64 \<Rightarrow> Integer128" where
  "Integer128_sub_u64 x y = (let (a, b) = u64arith_sub_2_2 (w0 x) (w1 x) y 0 in mk128 a b)"

definition Integer128_shr :: "Integer128 \<Rightarrow> nat \<Rightarrow> Integer128" where
  "Integer128_shr x i =
     (if i \<ge> 64 then mk128 (drop_bit (i - 64) (w1 x)) 0
      else let (a, b) = u64arith_shr_2 (w0 x) (w1 x) i in mk128 a b)"

definition Integer128_signed_shift_right :: "Integer128 \<Rightarrow> nat \<Rightarrow> Integer128" where
  "Integer128_signed_shift_right x i =
     (let hi = sint (w1 x)
      in if i \<ge> 64
         then mk128 (word_of_int (hi div 2 ^ (i - 64))) (if hi < 0 then - 1 else 0)
         else mk128 (u64arith_shrd (w1 x) (w0 x) i) (word_of_int (hi div 2 ^ i)))"

definition Integer128_sign_bit :: "Integer128 \<Rightarrow> bool" where
  "Integer128_sign_bit x = (sint (w1 x) < 0)"

definition Integer128_shl :: "Integer128 \<Rightarrow> nat \<Rightarrow> Integer128" where
  "Integer128_shl x i =
     (if i \<ge> 64 then mk128 0 (push_bit (i - 64) (w0 x))
      else let (a, b) = u64arith_shl_2 (w0 x) (w1 x) i in mk128 a b)"

definition Integer128_mul :: "Integer128 \<Rightarrow> Integer128 \<Rightarrow> Integer128" where
  "Integer128_mul x a =
     (let (r0, r1) = u64arith_mul_1_1_2 (w0 x) (w0 a);
          r1 = r1 + (w0 x * w1 a + w1 x * w0 a)
      in mk128 r0 r1)"

definition Integer128_mul_u64 :: "Integer128 \<Rightarrow> u64 \<Rightarrow> Integer128" where
  "Integer128_mul_u64 x a =
     (let t = w1 x;
          (r0, r1) = u64arith_mul_1_1_2 (w0 x) a
      in mk128 r0 (r1 + t * a))"

definition Integer128_div_u64 :: "Integer128 \<Rightarrow> u64 \<Rightarrow> Integer128 option" where
  "Integer128_div_u64 x a =
     (case u64arith_divqr_2_1_1 (w1 x) 0 a of None \<Rightarrow> None
      | Some (q1, r) \<Rightarrow>
          (case u64arith_divqr_2_1_1 (w0 x) r a of None \<Rightarrow> None
           | Some (q0, r) \<Rightarrow> Some (mk128 q0 q1)))"

definition Integer128_div :: "Integer128 \<Rightarrow> Integer128 \<Rightarrow> Integer128 option" where
  "Integer128_div x a =
     (if w1 a = 0 then Integer128_div_u64 x (w0 a)
      else case u64arith_divqr_3_2_1 (w0 x) (w1 x) 0 (w0 a) (w1 a) of None \<Rightarrow> None
      | Some (q, r0, r1) \<Rightarrow> Some (mk128 q 0))"

definition Integer128_mod_u64 :: "Integer128 \<Rightarrow> u64 \<Rightarrow> Integer128 option" where
  "Integer128_mod_u64 x a =
     (case u64arith_divqr_2_1_1 (w1 x) 0 a of None \<Rightarrow> None
      | Some (q, x1) \<Rightarrow>
          (case u64arith_divqr_2_1_1 (w0 x) x1 a of None \<Rightarrow> None
           | Some (q, x0) \<Rightarrow> Some (mk128 x0 0)))"

definition Integer128_mod :: "Integer128 \<Rightarrow> Integer128 \<Rightarrow> Integer128 option" where
  "Integer128_mod x a =
     (if w1 a = 0 then Integer128_mod_u64 x (w0 a)
      else case u64arith_divqr_3_2_1 (w0 x) (w1 x) 0 (w0 a) (w1 a) of None \<Rightarrow> None
      | Some (q, r0, r1) \<Rightarrow> Some (mk128 r0 r1))"

definition Integer128_unary_minus :: "Integer128 \<Rightarrow> Integer128" where
  "Integer128_unary_minus x =
     (let a1 = - w1 x;
          a1 = (if w0 x \<noteq> 0 then a1 - 1 else a1)
      in mk128 (- w0 x) a1)"

text \<open>\<open>None\<close> is the count of trailing zeros of a zero divisor.\<close>

definition Integer128_divexact :: "Integer128 \<Rightarrow> Integer128 \<Rightarrow> Integer128 option" where
  "Integer128_divexact x a =
     (let (n0, n1, d0, d1) =
            (if w0 a = 0 then (w1 x, 0, w1 a, 0) else (w0 x, w1 x, w0 a, w1 a))
      in case u64arith_ctz d0 of None \<Rightarrow> None
         | Some i \<Rightarrow>
             let (d0, d1) = u64arith_shr_2 d0 d1 i;
                 (n0, n1) = u64arith_shr_2 n0 n1 i;
                 invf = u64arith_invmod d0;
                 r0 = invf * n0;
                 (k0, k1) = u64arith_mul_1_1_2 r0 d0;
                 (n0, n1) = u64arith_sub_2_2 n0 n1 k0 k1;
                 n1 = n1 - r0 * d1
             in Some (mk128 r0 (invf * n1)))"

definition Integer128_divexact_u64 :: "Integer128 \<Rightarrow> u64 \<Rightarrow> Integer128 option" where
  "Integer128_divexact_u64 x a = Integer128_divexact x (Integer128_of_u64 a)"

text \<open>
  The multiple of a word by a constant: by doubling and adding up to the cutoff, by the
  product above it.
\<close>

fun mul_c_impl :: "nat \<Rightarrow> u64 \<Rightarrow> Integer128" where
  "mul_c_impl n a =
     (if n = 0 then Integer128_of_u64 0
      else if n = 1 then Integer128_of_u64 a
      else let t = Integer128_shl (mul_c_impl (n div 2) a) 1
           in if n mod 2 \<noteq> 0 then Integer128_add_u64 t a else t)"

declare mul_c_impl.simps [simp del]

definition mul_c :: "nat \<Rightarrow> nat \<Rightarrow> u64 \<Rightarrow> Integer128" where
  "mul_c cutoff n a =
     (if n \<le> cutoff then mul_c_impl n a else Integer128_mul_u64 (Integer128_of_u64 a) (of_nat n))"

definition reduce_multiple128_no_carry :: "u64 \<Rightarrow> Integer128 \<Rightarrow> Integer128" where
  "reduce_multiple128_no_carry n t = mk128 (w0 t * invmod_ct n) (w1 t div n)"

definition reduce_multiple128_carry :: "nat \<Rightarrow> u64 \<Rightarrow> Integer128 \<Rightarrow> Integer128" where
  "reduce_multiple128_carry cutoff n t =
     (let c = invmod_ct n;
          r0 = w0 t * c;
          t2 = mul_c cutoff (unat n) r0;
          t = Integer128_sub t t2;
          r1 = w1 t * c
      in mk128 r0 r1)"

section \<open>Values\<close>

lemma wvalue_nonneg [simp]: "0 \<le> wvalue x"
  by (induction x) simp_all

lemma wvalue_lt: "wvalue x < W64 ^ length x"
proof (induction x)
  case (Cons a x)
  have "uint a + W64 * wvalue x < 0 + W64 * W64 ^ length x"
    using Cons by (intro base_repr_less) simp_all
  then show ?case by simp
qed simp

lemma wvalue_append: "wvalue (x @ y) = wvalue x + W64 ^ length x * wvalue y"
  by (induction x) (simp_all add: distrib_left)

lemma wvalue_zeros [simp]: "wvalue (replicate n 0) = 0"
  by (induction n) simp_all

lemma wvalue_eq_0_iff: "wvalue x = 0 \<longleftrightarrow> (\<forall>w\<in>set x. w = 0)"
proof (induction x)
  case (Cons a x)
  have "uint a + W64 * wvalue x = 0 \<longleftrightarrow> uint a = 0 \<and> wvalue x = 0"
    by (simp add: add_nonneg_eq_0_iff)
  with Cons show ?case by (simp add: uint_0_iff)
qed simp

lemma wvalue_words128: "wvalue (words128 x) = value128 x"
  by (simp add: words128_def value128_def dw_def)

lemma Integer_bool_iff: "Integer_bool x \<longleftrightarrow> wvalue x \<noteq> 0"
  by (simp add: Integer_bool_def list_ex_iff wvalue_eq_0_iff)

lemma Integer_set_value:
  assumes "Integer_set NN s = Some x"
  shows "length x = NN" "wvalue x = wvalue s"
  using assms by (auto simp: Integer_set_def wvalue_append split: if_splits)

section \<open>Size\<close>

lemma wvalue_ge_of_word:
  assumes "i < length x" "x ! i \<noteq> 0"
  shows "W64 ^ i \<le> wvalue x"
  using assms
proof (induction x arbitrary: i)
  case (Cons a x)
  show ?case
  proof (cases i)
    case 0
    with Cons.prems have "1 \<le> uint a" by (simp add: uint_pos64)
    moreover have "0 \<le> W64 * wvalue x" by simp
    ultimately have "1 \<le> uint a + W64 * wvalue x" by linarith
    then show ?thesis using 0 by simp
  next
    case (Suc k)
    then have "W64 * W64 ^ k \<le> W64 * wvalue x" using Cons by (intro mult_left_mono) auto
    then have "W64 * W64 ^ k \<le> uint a + W64 * wvalue x" using uint_nonnegative [of a] by linarith
    then show ?thesis using Suc by simp
  qed
qed simp

lemma wvalue_take_zeros:
  assumes "\<And>i. n \<le> i \<Longrightarrow> i < length x \<Longrightarrow> x ! i = 0" "n \<le> length x"
  shows "wvalue x < W64 ^ n"
proof -
  have "wvalue (drop n x) = 0"
    using assms by (auto simp: wvalue_eq_0_iff in_set_conv_nth)
  then have "wvalue x = wvalue (take n x)"
    using wvalue_append [of "take n x" "drop n x"] by simp
  also have "\<dots> < W64 ^ n" using wvalue_lt [of "take n x"] assms(2) by (simp add: min_absorb2)
  finally show ?thesis .
qed

lemma size_in_words_loop_value:
  assumes "s \<le> length x"
  shows "size_in_words_loop x s \<le> s"
    and "\<And>i. size_in_words_loop x s \<le> i \<Longrightarrow> i < s \<Longrightarrow> x ! i = 0"
    and "0 < size_in_words_loop x s \<Longrightarrow> x ! (size_in_words_loop x s - 1) \<noteq> 0"
  using assms by (induction s) (auto split: if_splits simp: less_Suc_eq)

lemma size_in_words_le_iff: "size_in_words x \<le> n \<longleftrightarrow> wvalue x < W64 ^ n"
proof -
  define s where "s = size_in_words x"
  have s: "s \<le> length x" "\<And>i. s \<le> i \<Longrightarrow> i < length x \<Longrightarrow> x ! i = 0" "0 < s \<Longrightarrow> x ! (s - 1) \<noteq> 0"
    using size_in_words_loop_value [of "length x" x] by (auto simp: s_def size_in_words_def)
  have lt: "wvalue x < W64 ^ s" using s(1,2) by (rule wvalue_take_zeros [rotated]) auto
  show ?thesis
  proof (cases "s \<le> n")
    case True
    have "W64 ^ s \<le> W64 ^ n" using True by (intro power_increasing) simp_all
    with lt have "wvalue x < W64 ^ n" by (rule order_less_le_trans)
    with True show ?thesis by (simp add: s_def)
  next
    case False
    then have "W64 ^ (s - 1) \<le> wvalue x" using s by (intro wvalue_ge_of_word) auto
    moreover have "W64 ^ n \<le> W64 ^ (s - 1)" using False by (intro power_increasing) simp_all
    ultimately have "\<not> wvalue x < W64 ^ n" by linarith
    then show ?thesis using False by (simp add: s_def)
  qed
qed

section \<open>Comparison\<close>

definition compare_int :: "int \<Rightarrow> int \<Rightarrow> strong_ordering" where
  "compare_int a b = (if a < b then Less else if a = b then Equal else Greater)"

lemma compare_u64_value: "compare_u64 a b = compare_int (uint a) (uint b)"
  by (simp add: compare_u64_def compare_int_def word_less_def word_uint_eq_iff)

lemma compare_int_base:
  assumes "0 \<le> x" "x < B" "0 \<le> y" "y < B"
  shows "compare_int (x + B * a) (y + B * b) = (case compare_int a b of Equal \<Rightarrow> compare_int x y | c \<Rightarrow> c)"
  using assms base_repr_less [of B y x a b] base_repr_less [of B x y b a]
  by (auto simp: compare_int_def)

lemma compare_lists:
  "length x = length a \<Longrightarrow> lexicographical_compare_three_way (rev x) (rev a) = compare_int (wvalue x) (wvalue a)"
proof (induction x arbitrary: a rule: rev_induct)
  case Nil
  then show ?case by (simp add: compare_int_def)
next
  case (snoc u x)
  then obtain v y where a: "a = y @ [v]" "length x = length y" by (cases a rule: rev_cases) auto
  have "compare_int (wvalue x + W64 ^ length x * uint u) (wvalue y + W64 ^ length x * uint v)
     = (case compare_int (uint u) (uint v) of Equal \<Rightarrow> compare_int (wvalue x) (wvalue y) | c \<Rightarrow> c)"
    using wvalue_lt [of x] wvalue_lt [of y] a(2) by (intro compare_int_base) simp_all
  then show ?case using snoc.IH [OF a(2)] a by (simp add: wvalue_append compare_u64_value split: strong_ordering.split)
qed

lemma Integer_compare_value:
  "length x = length a \<Longrightarrow> Integer_compare x a = compare_int (wvalue x) (wvalue a)"
  by (simp add: Integer_compare_def compare_lists)

lemma Integer_compare_u64_value:
  assumes "x \<noteq> []"
  shows "Integer_compare_u64 x a = compare_int (wvalue x) (uint a)"
proof -
  obtain w ws where x: "x = w # ws" using assms by (cases x) auto
  show ?thesis
  proof (cases "wvalue ws = 0")
    case True
    then show ?thesis by (simp add: x Integer_compare_u64_def list_ex_iff wvalue_eq_0_iff [symmetric] compare_u64_value)
        (auto simp: wvalue_eq_0_iff)
  next
    case False
    then have "1 \<le> wvalue ws" using wvalue_nonneg [of ws] by linarith
    then have "W64 * 1 \<le> W64 * wvalue ws" by (intro mult_left_mono) auto
    then have "uint a < uint w + W64 * wvalue ws" using uint_lt64 [of a] uint_nonnegative [of w] by linarith
    with False show ?thesis by (auto simp: x Integer_compare_u64_def list_ex_iff wvalue_eq_0_iff compare_int_def)
  qed
qed

lemma Integer_eq_value: "length x = length a \<Longrightarrow> Integer_eq x a \<longleftrightarrow> wvalue x = wvalue a"
proof -
  assume len: "length x = length a"
  have "Integer_eq x a \<longleftrightarrow> x = a" by (simp add: Integer_eq_def list.rel_eq)
  moreover have "x = a" if "wvalue x = wvalue a" using len that
  proof (induction x a rule: list_induct2)
    case (Cons u x v y)
    have "uint u = uint v \<and> wvalue x = wvalue y"
      using Cons.prems base_repr_less [of W64 "uint u" "uint v" "wvalue y" "wvalue x"]
        base_repr_less [of W64 "uint v" "uint u" "wvalue x" "wvalue y"]
      by (cases "wvalue x" "wvalue y" rule: linorder_cases) simp_all
    with Cons show ?case by (simp add: word_uint_eq_iff)
  qed simp
  ultimately show ?thesis by auto
qed

text \<open>The complement does not look at its argument.\<close>

lemma Integer_not_value: "wvalue (Integer_not x) = W64 ^ length x - 1"
proof -
  have "uint (- 1 :: u64) = W64 - 1" by (simp add: W64_def unsigned_minus_1_eq_mask mask_eq_exp_minus_1)
  then have "wvalue (replicate n (- 1 :: u64)) = W64 ^ n - 1" for n
    by (induction n) (simp_all add: right_diff_distrib)
  then show ?thesis by (simp add: Integer_not_def Let_def)
qed

section \<open>Leading and trailing zeros\<close>

lemma W64_power: "W64 ^ n = 2 ^ (64 * n)"
  by (simp add: W64_def power_mult)

lemma Integer_clz_loop_value:
  "\<exists>z. Integer_clz_loop (rev x) b = Some (b + z) \<and> z \<le> 64 * length x
     \<and> wvalue x < 2 ^ (64 * length x - z) \<and> (z < 64 * length x \<longrightarrow> 2 ^ (64 * length x - z - 1) \<le> wvalue x)"
proof (induction x arbitrary: b rule: rev_induct)
  case (snoc u x)
  define n where "n = 64 * length x"
  have xn: "wvalue x < 2 ^ n" using wvalue_lt [of x] by (simp add: W64_power n_def)
  have val: "wvalue (x @ [u]) = wvalue x + 2 ^ n * uint u" by (simp add: wvalue_append W64_power n_def)
  show ?case
  proof (cases "u = 0")
    case True
    obtain z where z: "Integer_clz_loop (rev x) (b + 64) = Some (b + 64 + z)" "z \<le> n"
      "wvalue x < 2 ^ (n - z)" "z < n \<longrightarrow> 2 ^ (n - z - 1) \<le> wvalue x"
      using snoc.IH [of "b + 64"] unfolding n_def by blast
    then show ?thesis using True val by (intro exI [of _ "64 + z"]) (simp add: n_def)
  next
    case False
    then obtain z where z: "z < 64" "u64arith_clz u = Some z" "2 ^ (63 - z) \<le> uint u" "uint u < 2 ^ (64 - z)"
      using clz_value by blast
    have "2 ^ n * 2 ^ (63 - z) \<le> 2 ^ n * uint u" using z(3) by (intro mult_left_mono) auto
    then have lo: "2 ^ (n + (63 - z)) \<le> wvalue (x @ [u])"
      unfolding val power_add using wvalue_nonneg [of x] by linarith
    have "wvalue x + 2 ^ n * uint u < 0 + 2 ^ n * 2 ^ (64 - z)"
      using xn z(4) by (intro base_repr_less) auto
    then have hi: "wvalue (x @ [u]) < 2 ^ (n + (64 - z))" by (simp add: val power_add)
    have "64 * length (x @ [u]) - z = n + (64 - z)" "64 * length (x @ [u]) - z - 1 = n + (63 - z)"
      using z(1) by (simp_all add: n_def)
    then show ?thesis using False z(1,2) lo hi by (intro exI [of _ z]) simp
  qed
qed simp

lemma Integer_bits_value:
  "\<exists>b. Integer_bits x = Some b \<and> wvalue x < 2 ^ b \<and> (0 < b \<longrightarrow> 2 ^ (b - 1) \<le> wvalue x)"
proof -
  obtain z where "Integer_clz_loop (rev x) 0 = Some z" "z \<le> 64 * length x" "wvalue x < 2 ^ (64 * length x - z)"
    "z < 64 * length x \<longrightarrow> 2 ^ (64 * length x - z - 1) \<le> wvalue x"
    using Integer_clz_loop_value [of x 0] by auto
  then show ?thesis
    by (intro exI [of _ "64 * length x - z"]) (auto simp: Integer_bits_def Integer_clz_def mult.commute)
qed

lemma ctz_uint:
  assumes "a \<noteq> 0"
  shows "\<exists>k<64. u64arith_ctz a = Some k \<and> 2 ^ k dvd uint a \<and> odd (uint a div 2 ^ k)"
proof -
  obtain k where k: "u64arith_ctz a = Some k" "2 ^ k dvd unat a" "odd (unat a div 2 ^ k)"
    using ctz_value [OF assms] by blast
  have "2 ^ k \<le> unat a" using k(2) assms by (intro dvd_imp_le) (simp_all add: unat_gt_0)
  also have "unat a < 2 ^ 64" using unsigned_less [of a] by simp
  finally have "(2 :: nat) ^ k < 2 ^ 64" .
  then have "k < 64" by (rule power_less_imp_less_exp [rotated]) simp
  moreover have "int (2 ^ k) dvd int (unat a)" "odd (int (unat a div 2 ^ k))"
    using k(2,3) unfolding int_dvd_int_iff even_of_nat by blast+
  then have "2 ^ k dvd uint a" "odd (uint a div 2 ^ k)" by (simp_all add: zdiv_int)
  ultimately show ?thesis using k(1) by auto
qed

lemma Integer_ctz_loop_value:
  "wvalue x \<noteq> 0 \<Longrightarrow>
    \<exists>k. Integer_ctz_loop x b = Some (b + k) \<and> 2 ^ k dvd wvalue x \<and> odd (wvalue x div 2 ^ k)"
proof (induction x arbitrary: b)
  case (Cons a x)
  show ?case
  proof (cases "a = 0")
    case True
    then obtain k where k: "Integer_ctz_loop x (b + 64) = Some (b + 64 + k)" "2 ^ k dvd wvalue x" "odd (wvalue x div 2 ^ k)"
      using Cons by fastforce
    have "(2 :: int) ^ (64 + k) = W64 * 2 ^ k" by (simp add: W64_def power_add)
    then show ?thesis using True k by (intro exI [of _ "64 + k"]) (simp add: zdiv_zmult2_eq)
  next
    case False
    then obtain k where k: "k < 64" "u64arith_ctz a = Some k" "2 ^ k dvd uint a" "odd (uint a div 2 ^ k)"
      using ctz_uint by blast
    have W: "W64 = 2 ^ k * (2 * 2 ^ (63 - k))"
      using k(1) by (simp add: W64_def flip: power_Suc power_add)
    have "(uint a + W64 * wvalue x) div 2 ^ k = uint a div 2 ^ k + 2 * (2 ^ (63 - k) * wvalue x)"
      unfolding W mult.assoc by (simp add: div_mult_self2)
    moreover have "2 ^ k dvd uint a + W64 * wvalue x" using k(3) by (simp add: W)
    ultimately show ?thesis using False k by (intro exI [of _ k]) simp
  qed
qed simp

lemma Integer_ctz_value:
  assumes "wvalue x \<noteq> 0"
  shows "\<exists>k. Integer_ctz x = Some k \<and> 2 ^ k dvd wvalue x \<and> odd (wvalue x div 2 ^ k)"
  using Integer_ctz_loop_value [OF assms, of 0] by (simp add: Integer_ctz_def)

lemma mod_n_value:
  assumes "1 < uint n" "uint n * uint n < W64"
  shows "uint (mod_n n x) = wvalue x mod uint n"
  using assms
proof (induction n x rule: mod_n.induct)
  case (3 n r r' rs)
  define w :: u64 where "w = of_nat (pow2_mod 64 (unat n))"
  define a where "a = mod_n n (r' # rs)"
  have n0: "0 < uint n" using 3 by simp
  have "pow2_mod 64 (unat n) = 2 ^ 64 mod unat n"
    using "3.prems"(1) by (intro pow2_mod_value) (simp add: uint_nat del: of_nat_unat)
  moreover have "2 ^ 64 mod unat n < 2 ^ 64"
    using n0 order_less_trans [OF mod_less_divisor unsigned_less [of n]] by (simp add: uint_nat del: of_nat_unat)
  ultimately have "unat w = 2 ^ 64 mod unat n"
    by (simp add: w_def unsigned_of_nat take_bit_nat_eq_self_iff)
  then have "uint w = int (2 ^ 64 mod unat n)" by (simp only: uint_nat)
  then have w: "uint w = W64 mod uint n" by (simp only: zmod_int uint_nat W64_def of_nat_power of_nat_numeral)
  have a: "uint a = wvalue (r' # rs) mod uint n" using 3 by (simp add: a_def)
  have bnd: "uint a \<le> uint n - 1" "uint w \<le> uint n - 1" "uint (r mod n) \<le> uint n - 1"
    using n0 by (simp_all add: a w uint_mod_distrib)
  have "uint a * uint w \<le> (uint n - 1) * (uint n - 1)"
    using bnd n0 by (intro mult_mono) auto
  then have "uint a * uint w + uint (r mod n) < W64"
    using bnd(3) "3.prems" by (simp add: algebra_simps)
  moreover have "uint a * uint w < W64" using calculation uint_nonnegative [of "r mod n"] by linarith
  ultimately have "uint (a * w + r mod n) = uint a * uint w + uint (r mod n)"
    by (simp add: uint_add64_no_wrap uint_mult_no_wrap)
  then have "uint (mod_n n (r # r' # rs)) = (uint a * uint w + uint r mod uint n) mod uint n"
    by (simp add: uint_mod_distrib flip: a_def w_def)
  also have "\<dots> = (wvalue (r' # rs) * W64 + uint r) mod uint n"
    unfolding a w by (simp add: mod_simps del: wvalue.simps) (metis mod_add_left_eq mod_mult_eq)
  finally show ?case by (simp add: algebra_simps)
qed (simp_all add: uint_mod_distrib)

section \<open>Two word arithmetic\<close>

lemma power_ge64: "64 \<le> i \<Longrightarrow> (2 :: int) ^ i = W64 * 2 ^ (i - 64)"
  unfolding W64_def by (subst power_add [symmetric]) simp

lemma value128_mk [simp]: "value128 (mk128 a b) = dw a b"
  by (simp add: value128_def mk128_def)

lemma value128_range: "0 \<le> value128 x" "value128 x < W64 * W64"
  by (simp_all add: value128_def dw_lt)

lemma value128_of_u64 [simp]: "value128 (Integer128_of_u64 a) = uint a"
  by (simp add: Integer128_of_u64_def)

lemma mk128_sel [simp]: "w0 (mk128 a b) = a" "w1 (mk128 a b) = b"
  by (simp_all add: mk128_def)

lemma Integer128_add_value:
  "value128 (Integer128_add x y) = (value128 x + value128 y) mod (W64 * W64)"
  by (simp add: Integer128_add_def value128_def dw_add_2_2 split: prod.split)

lemma Integer128_add_u64_value:
  "value128 (Integer128_add_u64 x y) = (value128 x + uint y) mod (W64 * W64)"
  by (simp add: Integer128_add_u64_def value128_def dw_add_2_2 split: prod.split)

lemma Integer128_inc_value: "value128 (Integer128_inc x) = (value128 x + 1) mod (W64 * W64)"
  by (simp add: Integer128_inc_def value128_def dw_add_2_2 split: prod.split)

lemma Integer128_sub_value:
  "value128 (Integer128_sub x y) = (value128 x - value128 y) mod (W64 * W64)"
  by (simp add: Integer128_sub_def value128_def dw_sub_2_2 split: prod.split)

lemma Integer128_sub_u64_value:
  "value128 (Integer128_sub_u64 x y) = (value128 x - uint y) mod (W64 * W64)"
  by (simp add: Integer128_sub_u64_def value128_def dw_sub_2_2 split: prod.split)

lemma Integer128_dec_value: "value128 (Integer128_dec x) = (value128 x - 1) mod (W64 * W64)"
  by (simp add: Integer128_dec_def value128_def dw_sub_2_2 split: prod.split)

lemma dw_mod_base: "dw a b mod W64 = uint a"
  by (simp add: dw_def)

lemma dw_of_parts:
  assumes "uint a = x mod W64" "uint b = (x div W64) mod W64"
  shows "dw a b = x mod (W64 * W64)"
  using assms by (simp add: dw_def zmod_zmult2_eq add.commute)

lemma dw_high_add: "dw a (b + c) = (dw a b + W64 * uint c) mod (W64 * W64)"
  by (rule dw_of_parts) (simp_all add: dw_def uint_add64 add.commute)

lemma dw_high_word_mod: "(dw a b + W64 * k) mod (W64 * W64) = (dw a b + W64 * (k mod W64)) mod (W64 * W64)"
proof -
  have "W64 * (k mod W64) = (W64 * k) mod (W64 * W64)" by (rule mult_mod_right)
  then show ?thesis by (simp only: mod_add_right_eq)
qed

lemma Integer128_mul_value:
  "value128 (Integer128_mul x y) = (value128 x * value128 y) mod (W64 * W64)"
proof -
  obtain r0 r1 where r: "u64arith_mul_1_1_2 (w0 x) (w0 y) = (r0, r1)" by (meson surj_pair)
  define c where "c = w0 x * w1 y + w1 x * w0 y"
  define k where "k = uint (w0 x) * uint (w1 y) + uint (w1 x) * uint (w0 y)"
  have c: "uint c = k mod W64" by (simp add: c_def k_def uint_add64 uint_mult64 mod_simps)
  have "value128 (Integer128_mul x y) = dw r0 (r1 + c)"
    by (simp add: Integer128_mul_def r c_def)
  also have "\<dots> = (dw r0 r1 + W64 * k) mod (W64 * W64)"
    unfolding dw_high_add c by (rule dw_high_word_mod [symmetric])
  also have "\<dots> = (dw r0 r1 + W64 * k + W64 * W64 * (uint (w1 x) * uint (w1 y))) mod (W64 * W64)"
    by simp
  also have "dw r0 r1 + W64 * k + W64 * W64 * (uint (w1 x) * uint (w1 y)) = value128 x * value128 y"
    unfolding mul_1_1_2_value [OF r] k_def value128_def by (simp add: dw_def algebra_simps)
  finally show ?thesis .
qed

lemma Integer128_mul_u64_value:
  "value128 (Integer128_mul_u64 x a) = (value128 x * uint a) mod (W64 * W64)"
proof -
  obtain r0 r1 where r: "u64arith_mul_1_1_2 (w0 x) a = (r0, r1)" by (meson surj_pair)
  have "value128 (Integer128_mul_u64 x a) = (dw r0 r1 + W64 * (uint (w1 x) * uint a)) mod (W64 * W64)"
    by (simp add: Integer128_mul_u64_def r dw_high_add uint_mult64 flip: dw_high_word_mod)
  also have "dw r0 r1 + W64 * (uint (w1 x) * uint a) = value128 x * uint a"
    unfolding mul_1_1_2_value [OF r] value128_def by (simp add: dw_def algebra_simps)
  finally show ?thesis .
qed

lemma div_neg_base:
  fixes a b :: int
  assumes "0 \<le> a" "a < W64"
  shows "(- (a + W64 * b)) div W64 = - b - of_bool (a \<noteq> 0)"
proof (cases "a = 0")
  case True
  then show ?thesis by (simp flip: mult_minus_right)
next
  case False
  then have "(- (a + W64 * b)) div W64 = - b - 1"
    using assms by (intro divmod_unique_int(1) [where r = "W64 - a"]) (simp_all add: algebra_simps)
  then show ?thesis using False by simp
qed

lemma Integer128_unary_minus_value:
  "value128 (Integer128_unary_minus x) = (- value128 x) mod (W64 * W64)"
proof -
  have "dw (- w0 x) (- w1 x - of_bool (w0 x \<noteq> 0)) = (- value128 x) mod (W64 * W64)"
  proof (rule dw_of_parts)
    have "(- value128 x) mod W64 = (- (value128 x mod W64)) mod W64" by (rule mod_minus_eq [symmetric])
    then show "uint (- w0 x) = (- value128 x) mod W64"
      by (simp only: uint_uminus64 value128_def dw_mod_base)
    show "uint (- w1 x - of_bool (w0 x \<noteq> 0)) = (- value128 x) div W64 mod W64"
      unfolding value128_def dw_def div_neg_base [OF uint_nonnegative uint_lt64]
      by (simp add: uint_uminus64 uint_sub64 mod_simps uint_0_iff)
  qed
  then show ?thesis by (cases "w0 x = 0") (simp_all add: Integer128_unary_minus_def Let_def)
qed

lemma Integer128_shl_value:
  assumes "i < 128"
  shows "value128 (Integer128_shl x i) = (value128 x * 2 ^ i) mod (W64 * W64)"
proof (cases "i < 64")
  case True
  then show ?thesis by (simp add: Integer128_shl_def value128_def dw_shl_2 split: prod.split)
next
  case False
  define j where "j = i - 64"
  have i: "(2 :: int) ^ i = W64 * 2 ^ j" using False by (simp add: j_def power_ge64)
  have "value128 x * 2 ^ i = W64 * (uint (w0 x) * 2 ^ j) + W64 * W64 * (uint (w1 x) * 2 ^ j)"
    by (simp add: value128_def dw_def i algebra_simps)
  then have "(value128 x * 2 ^ i) mod (W64 * W64) = (W64 * (uint (w0 x) * 2 ^ j)) mod (W64 * W64)"
    by simp
  also have "\<dots> = W64 * ((uint (w0 x) * 2 ^ j) mod W64)" by (rule mult_mod_right [symmetric])
  finally show ?thesis using False by (simp add: Integer128_shl_def dw_def uint_push_bit64 flip: j_def)
qed

lemma Integer128_shr_value:
  assumes "i < 128"
  shows "value128 (Integer128_shr x i) = value128 x div 2 ^ i"
proof (cases "i < 64")
  case True
  then show ?thesis by (simp add: Integer128_shr_def value128_def dw_shr_2 split: prod.split)
next
  case False
  then have "(2 :: int) ^ i = W64 * 2 ^ (i - 64)" by (simp add: power_ge64)
  then show ?thesis
    using False by (simp add: Integer128_shr_def value128_def zdiv_zmult2_eq dw_div uint_drop_bit64)
qed

text \<open>Division by one word: two digits, the remainder of the first in the second.\<close>

lemma two_digit_division:
  assumes "a \<noteq> 0"
  obtains q1 r1 q0 r0 where
    "u64arith_divqr_2_1_1 (w1 x) 0 a = Some (q1, r1)" "u64arith_divqr_2_1_1 (w0 x) r1 a = Some (q0, r0)"
    "dw q0 q1 = value128 x div uint a" "uint r0 = value128 x mod uint a"
proof -
  have a0: "0 < uint a" using uint_pos64 [OF assms] by simp
  then have "0 < a" by (simp add: word_less_def)
  then obtain q1 r1 where 1: "u64arith_divqr_2_1_1 (w1 x) 0 a = Some (q1, r1)"
    "uint q1 = uint (w1 x) div uint a" "uint r1 = uint (w1 x) mod uint a"
    using divqr_2_1_1_value [of 0 a "w1 x"] by auto
  then have "r1 < a" using a0 by (simp add: word_less_def)
  then obtain q0 r0 where 2: "u64arith_divqr_2_1_1 (w0 x) r1 a = Some (q0, r0)"
    "uint q0 = dw (w0 x) r1 div uint a" "uint r0 = dw (w0 x) r1 mod uint a"
    using divqr_2_1_1_value [of r1 a "w0 x"] by auto
  have "uint (w1 x) = uint a * uint q1 + uint r1" using 1(2,3) by simp
  then have x: "value128 x = dw (w0 x) r1 + uint a * (W64 * uint q1)"
    by (simp add: value128_def dw_def algebra_simps)
  have "dw q0 q1 = value128 x div uint a" "uint r0 = value128 x mod uint a"
    using a0 unfolding x 2(3) by (simp_all add: dw_def 2(2))
  with that 1(1) 2(1) show thesis by blast
qed

lemma Integer128_div_u64_value:
  assumes "a \<noteq> 0"
  shows "\<exists>q. Integer128_div_u64 x a = Some q \<and> value128 q = value128 x div uint a"
  by (rule two_digit_division [OF assms, of x]) (simp add: Integer128_div_u64_def)

lemma Integer128_mod_u64_value:
  assumes "a \<noteq> 0"
  shows "\<exists>r. Integer128_mod_u64 x a = Some r \<and> value128 r = value128 x mod uint a"
  by (rule two_digit_division [OF assms, of x]) (simp add: Integer128_mod_u64_def)

section \<open>Exact division\<close>

lemma inverse_cancel:
  fixes d c :: u64
  assumes "d * c = 1"
  shows "(uint c * (uint d * q)) mod W64 = q mod W64"
proof -
  have "(uint d * uint c) mod W64 = 1" using arg_cong [OF assms, of uint] by (simp add: uint_mult64)
  then have "(uint d * uint c * q) mod W64 = (1 * q) mod W64" by (metis mod_mult_left_eq)
  then show ?thesis by (simp add: ac_simps)
qed

lemma divexact_words:
  assumes odd: "odd (uint d0)" and n: "dw n0 n1 = dw d0 d1 * Q"
    and c: "d0 * c = 1" and r0: "r0 = c * n0"
    and k: "u64arith_mul_1_1_2 r0 d0 = (k0, k1)" and m: "u64arith_sub_2_2 n0 n1 k0 k1 = (m0, m1)"
  shows "dw r0 (c * (m1 - r0 * d1)) = Q mod (W64 * W64)"
proof (rule dw_of_parts)
  define h where "h = Q div W64"
  have n0: "uint n0 = (uint d0 * Q) mod W64"
  proof -
    have "uint n0 = (dw d0 d1 * Q) mod W64" using dw_mod_base [of n0 n1] by (simp only: n)
    also have "\<dots> = (uint d0 * Q) mod W64" by (metis dw_mod_base mod_mult_left_eq)
    finally show ?thesis .
  qed
  show r0v: "uint r0 = Q mod W64"
    by (simp only: r0 uint_mult64 n0 mod_mult_right_eq inverse_cancel [OF c])
  have Q: "Q = uint r0 + W64 * h" unfolding r0v h_def by simp
  have "dw n0 n1 - dw k0 k1 = W64 * (dw d0 d1 * h + uint r0 * uint d1)"
    unfolding n mul_1_1_2_value [OF k] by (subst Q) (simp add: dw_def algebra_simps)
  then have "dw m0 m1 = W64 * ((dw d0 d1 * h + uint r0 * uint d1) mod W64)"
    using dw_sub_2_2 [OF m] by (simp only: mult_mod_right)
  then have "uint m1 = (dw d0 d1 * h + uint r0 * uint d1) mod W64"
    using dw_div [of m0 m1] by simp
  then have "uint (m1 - r0 * d1) = (dw d0 d1 * h) mod W64"
    by (simp add: uint_sub64 uint_mult64 mod_simps)
  also have "\<dots> = (uint d0 * h) mod W64" by (metis dw_mod_base mod_mult_left_eq)
  finally show "uint (c * (m1 - r0 * d1)) = Q div W64 mod W64"
    by (simp only: uint_mult64 mod_mult_right_eq inverse_cancel [OF c] h_def)
qed

lemma divexact_shifted:
  assumes d: "d0 \<noteq> 0" and i: "u64arith_ctz d0 = Some i" and n: "dw n0 n1 = dw d0 d1 * Q"
    and ds: "u64arith_shr_2 d0 d1 i = (e0, e1)" and ns: "u64arith_shr_2 n0 n1 i = (p0, p1)"
  shows "odd (uint e0)" "dw p0 p1 = dw e0 e1 * Q"
proof -
  obtain "i < 64" and dv: "2 ^ i dvd uint d0" and od: "odd (uint d0 div 2 ^ i)"
    using ctz_uint [OF d] i by auto
  have W: "W64 = 2 ^ i * (2 * 2 ^ (63 - i))" using \<open>i < 64\<close> by (simp add: W64_def flip: power_Suc power_add)
  have D: "dw e0 e1 = dw d0 d1 div 2 ^ i" "dw p0 p1 = dw n0 n1 div 2 ^ i"
    using dw_shr_2 [OF ds] dw_shr_2 [OF ns] \<open>i < 64\<close> by simp_all
  have dvd: "2 ^ i dvd dw d0 d1" using dv by (simp add: dw_def W)
  have "dw d0 d1 div 2 ^ i = uint d0 div 2 ^ i + 2 * (2 ^ (63 - i) * uint d1)"
    unfolding dw_def W mult.assoc by (simp add: div_mult_self2)
  then have "odd (dw e0 e1)" using od D by simp
  then show "odd (uint e0)" by (simp add: dw_def W)
  show "dw p0 p1 = dw e0 e1 * Q" unfolding D n using dvd by (simp add: div_mult_swap mult.commute)
qed

lemma Integer128_divexact_value:
  assumes a: "value128 a \<noteq> 0" and dvd: "value128 a dvd value128 x"
  shows "\<exists>r. Integer128_divexact x a = Some r \<and> value128 r = value128 x div value128 a"
proof -
  define Q where "Q = value128 x div value128 a"
  have xQ: "value128 x = value128 a * Q" using dvd by (simp add: Q_def)
  define n0 n1 d0 d1 where "n0 = (if w0 a = 0 then w1 x else w0 x)" and "n1 = (if w0 a = 0 then 0 else w1 x)"
    and "d0 = (if w0 a = 0 then w1 a else w0 a)" and "d1 = (if w0 a = 0 then 0 else w1 a)"
  have d0: "d0 \<noteq> 0" using a by (auto simp: d0_def value128_def dw_def)
  have n: "dw n0 n1 = dw d0 d1 * Q"
  proof (cases "w0 a = 0")
    case True
    then have "W64 * uint (w1 a) * Q = uint (w0 x) + W64 * uint (w1 x)" using xQ by (simp add: value128_def dw_def)
    then have "(W64 * (uint (w1 a) * Q)) div W64 = (uint (w0 x) + W64 * uint (w1 x)) div W64" by (simp add: mult.assoc)
    then show ?thesis using True by (simp add: n0_def n1_def d0_def d1_def)
  next
    case False
    then show ?thesis using xQ by (simp add: n0_def n1_def d0_def d1_def value128_def)
  qed
  obtain i where i: "u64arith_ctz d0 = Some i" using ctz_uint [OF d0] by auto
  obtain e0 e1 where ds: "u64arith_shr_2 d0 d1 i = (e0, e1)" by (meson surj_pair)
  obtain p0 p1 where ns: "u64arith_shr_2 n0 n1 i = (p0, p1)" by (meson surj_pair)
  note sh = divexact_shifted [OF d0 i n ds ns]
  define c where "c = u64arith_invmod e0"
  obtain k0 k1 where k: "u64arith_mul_1_1_2 (c * p0) e0 = (k0, k1)" by (meson surj_pair)
  obtain m0 m1 where m: "u64arith_sub_2_2 p0 p1 k0 k1 = (m0, m1)" by (meson surj_pair)
  have "(if w0 a = 0 then (w1 x, 0, w1 a, 0) else (w0 x, w1 x, w0 a, w1 a)) = (n0, n1, d0, d1)"
    by (simp add: n0_def n1_def d0_def d1_def)
  then have "Integer128_divexact x a = Some (mk128 (c * p0) (c * (m1 - c * p0 * e1)))"
    by (simp add: Integer128_divexact_def i ds ns k m Let_def flip: c_def)
  moreover have "dw (c * p0) (c * (m1 - c * p0 * e1)) = Q mod (W64 * W64)"
    using divexact_words [OF sh _ refl k m] invmod_value [OF sh(1)] by (simp add: c_def)
  moreover have "Q mod (W64 * W64) = Q"
  proof (rule mod_pos_pos_trivial)
    have pos: "0 < value128 a" using a value128_range(1) [of a] by linarith
    then show Q0: "0 \<le> Q" by (simp add: Q_def pos_imp_zdiv_nonneg_iff value128_range)
    have "1 * Q \<le> value128 a * Q" using pos Q0 by (intro mult_right_mono) auto
    then have "Q \<le> value128 x" by (simp only: xQ mult_1)
    then show "Q < W64 * W64" using value128_range(2) [of x] by linarith
  qed
  ultimately show ?thesis by (simp add: Q_def)
qed

section \<open>Division of a multiple of a small constant\<close>

lemma Integer128_mul_c_impl_value:
  "uint a * int n < W64 * W64 \<Longrightarrow> value128 (mul_c_impl n a) = uint a * int n"
proof (induction n a rule: mul_c_impl.induct)
  case (1 n a)
  show ?case
  proof (cases "n \<le> 1")
    case True
    then show ?thesis by (subst mul_c_impl.simps) auto
  next
    case False
    define h where "h = n div 2"
    have n: "n = 2 * h + n mod 2" by (simp add: h_def)
    have "uint a * int h \<le> uint a * int n" by (intro mult_left_mono) (simp_all add: h_def)
    then have lt: "uint a * int h < W64 * W64" using "1.prems" by linarith
    have ih: "value128 (mul_c_impl h a) = uint a * int h"
      using "1.IH" lt False by (simp add: h_def)
    have twice: "uint a * int h * 2 \<le> uint a * int n"
      using mult_left_mono [of "int (2 * h)" "int n" "uint a"] by (simp add: h_def algebra_simps)
    then have lt2: "uint a * int h * 2 < W64 * W64" using "1.prems" by linarith
    have shl: "value128 (Integer128_shl (mul_c_impl h a) 1) = uint a * int h * 2"
      using lt2 by (simp add: Integer128_shl_value ih)
    show ?thesis
    proof (cases "n mod 2 = 0")
      case True
      then have "n = 2 * h" using n by simp
      then show ?thesis using False True shl by (subst mul_c_impl.simps) (simp add: Let_def flip: h_def)
    next
      case odd: False
      then have n1: "int n = 2 * int h + 1" using n by linarith
      have "uint a * int n = uint a * int h * 2 + uint a" by (simp add: n1 algebra_simps)
      with "1.prems" have "value128 (Integer128_add_u64 (Integer128_shl (mul_c_impl h a) 1) a) = uint a * int n"
        by (simp add: Integer128_add_u64_value shl [unfolded One_nat_def])
      then show ?thesis using False odd by (subst mul_c_impl.simps) (simp add: Let_def flip: h_def)
    qed
  qed
qed

lemma mul_c_value:
  assumes "int n < W64"
  shows "value128 (mul_c cutoff n a) = uint a * int n"
proof -
  have "uint (of_nat n :: u64) = int n" using assms by (rule uint_of_nat64)
  moreover have "uint a * int n < W64 * W64"
    using assms by (intro mult_strict_mono') simp_all
  ultimately show ?thesis
    by (simp add: mul_c_def Integer128_mul_c_impl_value Integer128_mul_u64_value)
qed

text \<open>
  Both algorithms divide exactly: the one without carry needs the multiple itself, the other
  one works modulo the square of the base.
\<close>

lemma reduce_multiple64_value:
  assumes "odd (uint n)"
  shows "(uint n * uint (reduce_multiple64 n t)) mod W64 = uint t"
proof -
  have "(uint t * (uint n * uint (invmod_ct n))) mod W64 = uint t"
    using arg_cong [OF invmod_ct_value [OF assms], of uint] mod_mult_right_eq [of "uint t" "uint n * uint (invmod_ct n)" W64]
    by (simp add: uint_mult64)
  then show ?thesis by (simp add: reduce_multiple64_def uint_mult64 mod_simps ac_simps)
qed

lemma reduce_multiple128_no_carry_value:
  assumes "odd (uint n)" "value128 t = uint n * Q"
  shows "value128 (reduce_multiple128_no_carry n t) = Q"
proof -
  have n0: "0 < uint n" using assms(1) by (rule odd_pos64)
  have Q0: "0 \<le> Q" using assms(2) value128_range(1) [of t] n0 by (simp add: zero_le_mult_iff)
  have "uint (w0 t) = (uint n * Q) mod W64" using dw_mod_base [of "w0 t" "w1 t"] assms(2) by (simp add: value128_def)
  then have lo: "uint (w0 t * invmod_ct n) = Q mod W64"
    using inverse_cancel [OF invmod_ct_value [OF assms(1)], of Q] by (simp add: uint_mult64 mod_simps mult.commute)
  have "uint (w1 t) = (uint n * Q) div W64" using dw_div [of "w0 t" "w1 t"] assms(2) by (simp add: value128_def)
  then have "uint (w1 t div n) = ((Q * uint n) div W64) div uint n" by (simp add: uint_div_distrib mult.commute)
  also have "\<dots> = ((Q * uint n) div uint n) div W64" using n0 by (simp add: mult.commute flip: zdiv_zmult2_eq)
  also have "\<dots> = Q div W64" using n0 by simp
  finally show ?thesis using lo by (simp add: reduce_multiple128_no_carry_def dw_def)
qed

lemma reduce_multiple128_carry_value:
  assumes "odd (uint n)" "value128 t = (uint n * Q) mod (W64 * W64)"
  shows "value128 (reduce_multiple128_carry cutoff n t) = Q mod (W64 * W64)"
proof -
  define c where "c = invmod_ct n"
  note inv = inverse_cancel [OF invmod_ct_value [OF assms(1)], folded c_def]
  define h where "h = Q div W64"
  define r0 where "r0 = w0 t * c"
  define s where "s = Integer128_sub t (mul_c cutoff (unat n) r0)"
  have "uint (w0 t) = (uint n * Q) mod (W64 * W64) mod W64"
    using dw_mod_base [of "w0 t" "w1 t"] assms(2) by (simp add: value128_def)
  then have "uint (w0 t) = (uint n * Q) mod W64" by (simp add: mod_mod_cancel)
  then have r0: "uint r0 = Q mod W64"
    using inv [of Q] by (simp add: r0_def uint_mult64 mod_simps mult.commute)
  then have Q: "Q = uint r0 + W64 * h" by (simp add: h_def)
  have "value128 s = (uint n * Q - uint r0 * uint n) mod (W64 * W64)"
    unfolding s_def Integer128_sub_value assms(2) by (simp add: mul_c_value mod_simps)
  also have "uint n * Q - uint r0 * uint n = W64 * (uint n * h)" by (subst Q) (simp add: algebra_simps)
  finally have "value128 s = W64 * ((uint n * h) mod W64)" by (simp only: mult_mod_right)
  then have "uint (w1 s) = (uint n * h) mod W64" using dw_div [of "w0 s" "w1 s"] by (simp add: value128_def)
  then have "uint (w1 s * c) = Q div W64 mod W64"
    using inv [of h] by (simp add: uint_mult64 mod_simps mult.commute h_def)
  then have "dw r0 (w1 s * c) = Q mod (W64 * W64)" using r0 by (intro dw_of_parts)
  then show ?thesis by (simp add: reduce_multiple128_carry_def Let_def c_def r0_def s_def)
qed

section \<open>Signed shift\<close>

definition svalue128 :: "Integer128 \<Rightarrow> int" where
  "svalue128 x = uint (w0 x) + W64 * sint (w1 x)"

lemma div_exp_bounds:
  fixes z :: int
  assumes "- B \<le> z" "z < B"
  shows "- B \<le> z div 2 ^ i" "z div 2 ^ i < B"
proof -
  have B: "0 < B" using assms by linarith
  have "B * 1 \<le> B * 2 ^ i" using B by (intro mult_left_mono) auto
  moreover have "2 ^ i * B = B * 2 ^ i" by (rule mult.commute)
  ultimately have lo: "- (B * 2 ^ i) \<le> z" and hi: "z < 2 ^ i * B" using assms by linarith+
  show "z div 2 ^ i < B" using hi by (intro div_less_of_less_mult) simp_all
  have "z < 2 ^ i * (z div 2 ^ i) + 2 ^ i" by (rule floor_bounds) simp
  with lo have "(- B) * 2 ^ i < (z div 2 ^ i + 1) * 2 ^ i" by (simp add: algebra_simps)
  then have "- B < z div 2 ^ i + 1" by (rule mult_right_less_imp_less) simp
  then show "- B \<le> z div 2 ^ i" by simp
qed

lemma sint_div_exp: "sint (word_of_int (sint (a :: u64) div 2 ^ i) :: u64) = sint a div 2 ^ i"
proof -
  have "- (2 ^ 63) \<le> sint a" "sint a < 2 ^ 63" using sint_ge [of a] sint_lt [of a] by simp_all
  from div_exp_bounds [OF this, of i] show ?thesis
    by (simp add: signed_of_int signed_take_bit_int_eq_self)
qed

lemma Integer64_signed_shift_right_value:
  "sint (Integer64_signed_shift_right a i) = sint a div 2 ^ i"
  by (simp add: Integer64_signed_shift_right_def sint_div_exp)

lemma uint_mod_exp: "i \<le> 64 \<Longrightarrow> uint (a :: u64) mod 2 ^ i = sint a mod 2 ^ i"
proof -
  assume "i \<le> 64"
  have "sint a mod W64 = uint a" by (simp add: W64_def uint_sint take_bit_eq_mod [where 'a = int])
  then show ?thesis using \<open>i \<le> 64\<close> by (metis W64_def le_imp_power_dvd mod_mod_cancel)
qed

lemma Integer128_signed_shift_right_value:
  assumes "i < 128"
  shows "svalue128 (Integer128_signed_shift_right x i) = svalue128 x div 2 ^ i"
proof (cases "i < 64")
  case True
  define H where "H = sint (w1 x)"
  have W: "W64 = 2 ^ i * 2 ^ (64 - i)" using True W64_split [of i] by simp
  have "svalue128 x = uint (w0 x) + 2 ^ i * (2 ^ (64 - i) * H)" by (simp add: svalue128_def W H_def)
  then have "svalue128 x div 2 ^ i = uint (w0 x) div 2 ^ i + 2 ^ (64 - i) * H" by simp
  also have "\<dots> = uint (w0 x) div 2 ^ i + 2 ^ (64 - i) * (H mod 2 ^ i + 2 ^ i * (H div 2 ^ i))" by simp
  also have "\<dots> = uint (w0 x) div 2 ^ i + (H mod 2 ^ i) * 2 ^ (64 - i) + W64 * (H div 2 ^ i)"
    unfolding distrib_left W by (simp add: algebra_simps)
  finally have "svalue128 x div 2 ^ i
      = uint (w0 x) div 2 ^ i + (uint (w1 x) mod 2 ^ i) * 2 ^ (64 - i) + W64 * (H div 2 ^ i)"
    using True by (simp add: uint_mod_exp H_def)
  then show ?thesis using True
    by (simp add: Integer128_signed_shift_right_def Let_def svalue128_def shrd_value sint_div_exp H_def)
next
  case False
  define j where "j = i - 64"
  define H where "H = sint (w1 x)"
  have j: "j < 64" using assms by (simp add: j_def)
  have i: "(2 :: int) ^ i = W64 * 2 ^ j" using False by (simp add: j_def power_ge64)
  have "svalue128 x div 2 ^ i = H div 2 ^ j" by (simp add: i zdiv_zmult2_eq svalue128_def H_def)
  moreover have "uint (word_of_int (H div 2 ^ j) :: u64) + W64 * (if H < 0 then - 1 else 0) = H div 2 ^ j"
  proof -
    have "- (2 ^ 63) \<le> H" "H < 2 ^ 63" using sint_ge [of "w1 x"] sint_lt [of "w1 x"] by (simp_all add: H_def)
    note b = div_exp_bounds [OF this, of j]
    have "uint (word_of_int (H div 2 ^ j) :: u64) = (H div 2 ^ j) mod W64" by (simp add: W64_def uint_word_of_int)
    also have "\<dots> = (if H < 0 then H div 2 ^ j + W64 else H div 2 ^ j)"
    proof (cases "H < 0")
      case True
      then have "H div 2 ^ j < 0" using pos_imp_zdiv_neg_iff [of "2 ^ j" H] by simp
      moreover have "- W64 \<le> H div 2 ^ j" using b(1) by (simp add: W64_def)
      ultimately show ?thesis using True by (simp add: mod_W64_under)
    next
      case False
      then have "0 \<le> H div 2 ^ j" by (simp add: pos_imp_zdiv_nonneg_iff)
      moreover have "H div 2 ^ j < W64" using b(2) by (simp add: W64_def)
      ultimately show ?thesis using False by simp
    qed
    finally show ?thesis by simp
  qed
  ultimately show ?thesis
    using False by (auto simp: Integer128_signed_shift_right_def Let_def svalue128_def H_def simp flip: j_def)
qed

section \<open>Properties\<close>

text \<open>
  The comparison operators of multiword integers order them as the numbers they represent,
  against another integer of the same size and against a single word, and equality of the
  word arrays is equality of the numbers.
\<close>

theorem Integer_order_exact:
  assumes "length x = length a" "x \<noteq> []"
  shows "Integer_compare x a = compare_int (wvalue x) (wvalue a)
    \<and> Integer_compare_u64 x u = compare_int (wvalue x) (uint u)
    \<and> (Integer_eq x a \<longleftrightarrow> wvalue x = wvalue a)"
  using Integer_compare_value [OF assms(1)] Integer_compare_u64_value [OF assms(2)] Integer_eq_value [OF assms(1)]
  by simp

theorem Integer_order_exact_witness:
  "Integer_compare [5, 1] [6, 1] = compare_int (wvalue [5, 1]) (wvalue [6, 1]) \<and> Integer_compare_u64 [5, 1] 9 = Greater"
  using Integer_order_exact [of "[5, 1]" "[6, 1]" 9] by (simp add: compare_int_def W64_def)

text \<open>
  The two word integers are the ring of integers modulo \<open>2 ^ 128\<close>: sum, difference, product,
  negation, increment, decrement and left shift.
\<close>

theorem Integer128_ring:
  assumes "i < 128"
  shows "value128 (Integer128_add x y) = (value128 x + value128 y) mod (W64 * W64)
    \<and> value128 (Integer128_sub x y) = (value128 x - value128 y) mod (W64 * W64)
    \<and> value128 (Integer128_mul x y) = (value128 x * value128 y) mod (W64 * W64)
    \<and> value128 (Integer128_mul_u64 x u) = (value128 x * uint u) mod (W64 * W64)
    \<and> value128 (Integer128_unary_minus x) = (- value128 x) mod (W64 * W64)
    \<and> value128 (Integer128_inc x) = (value128 x + 1) mod (W64 * W64)
    \<and> value128 (Integer128_dec x) = (value128 x - 1) mod (W64 * W64)
    \<and> value128 (Integer128_shl x i) = (value128 x * 2 ^ i) mod (W64 * W64)"
  by (simp only: Integer128_add_value Integer128_sub_value Integer128_mul_value Integer128_mul_u64_value
      Integer128_unary_minus_value Integer128_inc_value Integer128_dec_value Integer128_shl_value [OF assms])

theorem Integer128_ring_witness:
  "value128 (Integer128_shl (mk128 3 0) 100) = (3 * 2 ^ 100) mod (W64 * W64)"
  using Integer128_ring [of 100 "mk128 3 0"] by (simp add: dw_def)

text \<open>
  The right shifts of two word integers: the unsigned one divides the unsigned value, the
  signed one divides the two's complement value, both rounding down, for every shift below 128.
\<close>

theorem Integer128_right_shifts:
  assumes "i < 128"
  shows "value128 (Integer128_shr x i) = value128 x div 2 ^ i
    \<and> svalue128 (Integer128_signed_shift_right x i) = svalue128 x div 2 ^ i"
  using Integer128_shr_value [OF assms] Integer128_signed_shift_right_value [OF assms] by simp

theorem Integer128_right_shifts_witness:
  "svalue128 (Integer128_signed_shift_right (mk128 0 (- 1)) 65) = - 1"
  using Integer128_right_shifts [of 65 "mk128 0 (- 1)"] by (simp add: svalue128_def W64_def)

text \<open>
  Division of a two word integer by a nonzero word gives the exact quotient and remainder, and
  the exact division by a two word divisor of any number of trailing zeros gives the quotient
  whenever the divisor divides.
\<close>

theorem Integer128_division:
  assumes "u \<noteq> 0" "value128 a \<noteq> 0" "value128 a dvd value128 y"
  shows "(\<exists>q. Integer128_div_u64 x u = Some q \<and> value128 q = value128 x div uint u)
    \<and> (\<exists>r. Integer128_mod_u64 x u = Some r \<and> value128 r = value128 x mod uint u)
    \<and> (\<exists>q. Integer128_divexact y a = Some q \<and> value128 q = value128 y div value128 a)"
  using Integer128_div_u64_value [OF assms(1)] Integer128_mod_u64_value [OF assms(1)]
    Integer128_divexact_value [OF assms(2,3)] by blast

theorem Integer128_division_witness:
  "\<exists>q. Integer128_divexact (mk128 12 0) (mk128 4 0) = Some q \<and> value128 q = 3"
  using Integer128_division [of 1 "mk128 4 0" "mk128 12 0"] by (simp add: dw_def)

text \<open>
  Sizes of multiword integers: the number of significant words, the number of significant
  bits, and the number of trailing zero bits of a nonzero integer.
\<close>

theorem Integer_sizes:
  assumes "wvalue x \<noteq> 0"
  shows "(size_in_words x \<le> n \<longleftrightarrow> wvalue x < W64 ^ n)
    \<and> (\<exists>b. Integer_bits x = Some b \<and> wvalue x < 2 ^ b \<and> 2 ^ (b - 1) \<le> wvalue x)
    \<and> (\<exists>k. Integer_ctz x = Some k \<and> 2 ^ k dvd wvalue x \<and> odd (wvalue x div 2 ^ k))"
proof -
  obtain b where "Integer_bits x = Some b" "wvalue x < 2 ^ b" "0 < b \<longrightarrow> 2 ^ (b - 1) \<le> wvalue x"
    using Integer_bits_value [of x] by blast
  moreover have "0 < b" using assms calculation(2) wvalue_nonneg [of x] by (cases b) auto
  ultimately show ?thesis using size_in_words_le_iff [of x n] Integer_ctz_value [OF assms] by blast
qed

theorem Integer_sizes_witness: "size_in_words [0, 4, 0] \<le> 2"
  using Integer_sizes [of "[0, 4, 0]" 2] by (simp add: W64_def)

text \<open>
  The remainder of a multiword integer by a small constant, by a Horner loop on the words with
  the precomputed remainder of the base.
\<close>

theorem mod_n_exact:
  assumes "1 < uint n" "uint n * uint n < W64"
  shows "uint (mod_n n x) = wvalue x mod uint n"
  using assms by (rule mod_n_value)

theorem mod_n_exact_witness: "uint (mod_n 13 [7, 5]) = wvalue [7, 5] mod 13"
  using mod_n_exact [of 13 "[7, 5]"] by (simp add: W64_def)

text \<open>
  Bitwise complement ignores its argument: every integer of the same size has the same
  complement, all bits set, because the operator complements the words of a fresh zero
  object.
\<close>

theorem Integer_not_ignores_argument:
  assumes "length x = length y"
  shows "Integer_not x = Integer_not y \<and> wvalue (Integer_not x) = W64 ^ length x - 1"
  using assms Integer_not_value [of x] by (simp add: Integer_not_def)

theorem Integer_not_ignores_argument_witness:
  "Integer_not [- 1] = Integer_not [0]"
  using Integer_not_ignores_argument [of "[- 1]" "[0]"] by simp

end
