(* ===== verification/ModApi.thy ===== *)
theory ModApi
  imports ModInt "HOL-Library.Monad_Syntax"
begin

text \<open>
  The operations that every modulus class has, from \<^verbatim>\<open>utils/arithxx/arithxx_api.hpp\<close>,
  \<^verbatim>\<open>arithxx_api64.hpp\<close> and \<^verbatim>\<open>arithxx_api_impl.hpp\<close>, for a modulus of one word. The C++ base class calls
  the operations of the derived class through \<open>downcast()\<close>; here a layer is the record of
  these operations, and the base class functions take that record. A residue is the word it stores.
\<close>

section \<open>A layer: what the derived class provides\<close>

record layer =
  op_m :: u64
  op_set1 :: u64
  op_set :: "u64 \<Rightarrow> u64"
  op_get :: "u64 \<Rightarrow> u64"
  op_is1 :: "u64 \<Rightarrow> bool"
  op_add :: "u64 \<Rightarrow> u64 \<Rightarrow> u64"
  op_sub :: "u64 \<Rightarrow> u64 \<Rightarrow> u64"
  op_add1 :: "u64 \<Rightarrow> u64"
  op_mul :: "u64 \<Rightarrow> u64 \<Rightarrow> u64"
  op_sqr :: "u64 \<Rightarrow> u64"
  op_inv :: "u64 \<Rightarrow> u64 option"
  op_even_moduli_allowed :: bool
  op_overflow_bits :: nat

section \<open>Functions of the base class\<close>

definition set0 :: u64 where
  "set0 = 0"

definition api_equal :: "u64 \<Rightarrow> u64 \<Rightarrow> bool" where
  "api_equal a b = (a = b)"

definition is0 :: "u64 \<Rightarrow> bool" where
  "is0 a = (a = 0)"

definition api_set :: "u64 \<Rightarrow> u64 \<Rightarrow> u64" where
  "api_set m s = (if s < m then s else s mod m)"

definition api_set_u64 :: "u64 \<Rightarrow> u64 \<Rightarrow> u64" where
  "api_set_u64 m s = s mod m"

definition api_set1 :: "u64 \<Rightarrow> u64" where
  "api_set1 m = of_bool (m \<noteq> 1)"

definition neg :: "layer \<Rightarrow> u64 \<Rightarrow> u64" where
  "neg me a = (if is0 a then set0 else op_m me - a)"

text \<open>\<open>safe_abs64\<close> of the argument, then the sign.\<close>

definition set_int64 :: "layer \<Rightarrow> int \<Rightarrow> u64" where
  "set_int64 me s =
     (let r = op_set me (word_of_int \<bar>s\<bar>)
      in if s < 0 then neg me r else r)"

definition V_dadd :: "layer \<Rightarrow> u64 \<Rightarrow> u64 \<Rightarrow> u64 \<Rightarrow> u64" where
  "V_dadd me a b d = op_sub me (op_mul me a b) d"

definition V_dbl :: "layer \<Rightarrow> u64 \<Rightarrow> u64 \<Rightarrow> u64" where
  "V_dbl me a two = op_sub me (op_sqr me a) two"

definition sprp2_is_enough :: "layer \<Rightarrow> bool" where
  "sprp2_is_enough me = (op_m me < 2047)"

subsection \<open>Powers\<close>

fun strip_words :: "u64 list \<Rightarrow> nat \<Rightarrow> nat" where
  "strip_words e 0 = 0"
| "strip_words e (Suc i) = (if e ! i = 0 then strip_words e i else Suc i)"

text \<open>One word of the exponent: \<open>step\<close> is the multiplication for a set bit.\<close>

function pow_word :: "layer \<Rightarrow> (u64 \<Rightarrow> u64) \<Rightarrow> u64 \<Rightarrow> u64 \<Rightarrow> u64 \<Rightarrow> u64" where
  "pow_word me step word msk t =
     (if msk = 0 then t
      else let t = op_sqr me t;
               t = (if word AND msk \<noteq> 0 then step t else t)
           in pow_word me step word (drop_bit 1 msk) t)"
  by pat_completeness auto
termination
  by (relation "measure (\<lambda>(me, step, word, msk, t). unat msk)") (auto intro: drop_bit1_less)

declare pow_word.simps [simp del]

fun pow_words :: "layer \<Rightarrow> (u64 \<Rightarrow> u64) \<Rightarrow> u64 list \<Rightarrow> u64 \<Rightarrow> u64 \<Rightarrow> u64" where
  "pow_words me step [] msk t = t"
| "pow_words me step (word # words) msk t =
     pow_words me step words (push_bit 63 1) (pow_word me step word msk t)"

definition pow :: "layer \<Rightarrow> u64 \<Rightarrow> u64 list \<Rightarrow> u64 option" where
  "pow me b e =
     (let i = strip_words e (length e)
      in if i = 0 then Some (op_set1 me)
         else do {
           z \<leftarrow> u64arith_clz (e ! (i - 1));
           let msk = drop_bit 1 (drop_bit z (push_bit 63 1));
           Some (pow_words me (\<lambda>t. op_mul me t b) (rev (take i e)) msk b)
         })"

definition pow2 :: "layer \<Rightarrow> u64 list \<Rightarrow> u64 option" where
  "pow2 me e =
     (let i = strip_words e (length e)
      in if i = 0 then Some (op_set1 me)
         else do {
           z \<leftarrow> u64arith_clz (e ! (i - 1));
           let msk = drop_bit 1 (drop_bit z (push_bit 63 1));
           let t = op_add me (op_set1 me) (op_set1 me);
           Some (pow_words me (\<lambda>t. op_add me t t) (rev (take i e)) msk t)
         })"

definition pow_u64 :: "layer \<Rightarrow> u64 \<Rightarrow> u64 \<Rightarrow> u64 option" where
  "pow_u64 me b e = pow me b [e]"

definition pow2_u64 :: "layer \<Rightarrow> u64 \<Rightarrow> u64 option" where
  "pow2_u64 me e = pow2 me [e]"

definition pow_Integer :: "layer \<Rightarrow> u64 \<Rightarrow> u64 list \<Rightarrow> u64 option" where
  "pow_Integer me b e = pow me b (take (size_in_words e) e)"

definition pow2_Integer :: "layer \<Rightarrow> u64 list \<Rightarrow> u64 option" where
  "pow2_Integer me e = pow2 me (take (size_in_words e) e)"

subsection \<open>Lucas sequences\<close>

function V_loop :: "layer \<Rightarrow> u64 \<Rightarrow> u64 \<Rightarrow> u64 \<Rightarrow> u64 \<Rightarrow> u64 \<Rightarrow> u64 \<Rightarrow> u64 \<times> u64 \<times> u64" where
  "V_loop me two b k msk t0 t1 =
     (if msk > 1
      then let (t0, t1) =
                 (if k AND msk \<noteq> 0
                  then (V_dadd me t1 t0 b, V_dbl me t1 two)
                  else (V_dbl me t0 two, V_dadd me t1 t0 b))
           in V_loop me two b k (drop_bit 1 msk) t0 t1
      else (msk, t0, t1))"
  by pat_completeness auto
termination
  by (relation "measure (\<lambda>(me, two, b, k, msk, t0, t1). unat msk)") (auto intro!: drop_bit1_less split: if_splits)

declare V_loop.simps [simp del]

text \<open>The ladder, for \<open>k\<close> at least three: the last mask and the two running terms.\<close>

definition V_ladder :: "layer \<Rightarrow> u64 \<Rightarrow> u64 \<Rightarrow> u64 \<Rightarrow> (u64 \<times> u64 \<times> u64) option" where
  "V_ladder me two b k =
     do {
       bits \<leftarrow> Integer_bits [k];
       let msk = push_bit (bits - 1) 1;
       let t0 = b;
       let t1 = V_dbl me b two;
       let msk = drop_bit 1 msk;
       let (msk, t0, t1) =
         (if k AND msk = 0 then (drop_bit 1 msk, t1, V_dadd me t1 b b) else (msk, t0, t1));
       Some (V_loop me two b k msk t0 t1)
     }"

text \<open>
  The variables of the caller are addresses of a store, so that \<open>r\<close>, \<open>rp1\<close> and \<open>b\<close> may be the
  same variable; \<open>rp1\<close> is optional.
\<close>

definition V_store :: "layer \<Rightarrow> nat \<Rightarrow> nat option \<Rightarrow> nat \<Rightarrow> u64 \<Rightarrow> (nat \<Rightarrow> u64) \<Rightarrow> (nat \<Rightarrow> u64) option" where
  "V_store me r rp1 b k \<sigma> =
     (let two = op_add1 me (op_set1 me)
      in if k = 0 then
           let \<sigma> = \<sigma>(r := two)
           in Some (case rp1 of None \<Rightarrow> \<sigma> | Some p \<Rightarrow> \<sigma>(p := \<sigma> b))
         else if k = 1 then
           let \<sigma> = \<sigma>(r := \<sigma> b)
           in Some (case rp1 of None \<Rightarrow> \<sigma> | Some p \<Rightarrow> \<sigma>(p := V_dbl me (\<sigma> b) two))
         else if k = 2 then
           (case rp1 of None \<Rightarrow> Some (\<sigma>(r := V_dbl me (\<sigma> b) two))
            | Some p \<Rightarrow>
                let t1 = V_dbl me (\<sigma> b) two;
                    \<sigma> = \<sigma>(p := op_mul me t1 (\<sigma> b));
                    \<sigma> = \<sigma>(p := op_sub me (\<sigma> p) (\<sigma> b))
                in Some (\<sigma>(r := t1)))
         else do {
           (msk, t0, t1) \<leftarrow> V_ladder me two (\<sigma> b) k;
           if k AND msk \<noteq> 0 then
             let t0 = V_dadd me t1 t0 (\<sigma> b);
                 \<sigma> = \<sigma>(r := t0)
             in Some (case rp1 of None \<Rightarrow> \<sigma> | Some p \<Rightarrow> \<sigma>(p := V_dbl me t1 two))
           else
             let \<sigma> = \<sigma>(r := V_dbl me t0 two)
             in Some (case rp1 of None \<Rightarrow> \<sigma> | Some p \<Rightarrow> \<sigma>(p := V_dadd me t1 t0 (\<sigma> b)))
         })"

text \<open>With three different variables: the pair of the two results.\<close>

definition V :: "layer \<Rightarrow> u64 \<Rightarrow> u64 \<Rightarrow> (u64 \<times> u64) option" where
  "V me b k =
     (let two = op_add1 me (op_set1 me)
      in if k = 0 then Some (two, b)
         else if k = 1 then Some (b, V_dbl me b two)
         else if k = 2 then
           let t1 = V_dbl me b two in Some (t1, V_dadd me t1 b b)
         else do {
           (msk, t0, t1) \<leftarrow> V_ladder me two b k;
           if k AND msk \<noteq> 0
             then Some (V_dadd me t1 t0 b, V_dbl me t1 two)
             else Some (V_dbl me t0 two, V_dadd me t1 t0 b)
         })"

subsection \<open>Simultaneous inversion\<close>

fun batch_products :: "layer \<Rightarrow> u64 \<Rightarrow> u64 list \<Rightarrow> u64 list" where
  "batch_products me r [] = []"
| "batch_products me r (a # as) = (let r = op_mul me r a in r # batch_products me r as)"

definition prefix_products :: "layer \<Rightarrow> u64 \<Rightarrow> u64 list \<Rightarrow> u64 list" where
  "prefix_products me a0 as = a0 # batch_products me a0 as"

text \<open>The loop from the last element down: \<open>prods\<close> and \<open>as\<close> are reversed.\<close>

fun batch_back :: "layer \<Rightarrow> u64 \<Rightarrow> u64 list \<Rightarrow> u64 list \<Rightarrow> u64 list \<Rightarrow> u64 list" where
  "batch_back me R (p # prods) (a # as) acc =
     batch_back me (op_mul me R a) prods as (op_mul me R p # acc)"
| "batch_back me R prods as acc = R # acc"

definition batchinv :: "layer \<Rightarrow> u64 list \<Rightarrow> u64 option \<Rightarrow> u64 list option" where
  "batchinv me as c =
     (case as of [] \<Rightarrow> Some []
      | a0 # rest \<Rightarrow>
          let r = prefix_products me a0 rest
          in do {
            R \<leftarrow> op_inv me (last r);
            let R = (case c of None \<Rightarrow> R | Some c \<Rightarrow> op_mul me R c);
            Some (batch_back me R (tl (rev r)) (rev rest) [])
          })"

definition intinv :: "layer \<Rightarrow> u64 \<Rightarrow> u64 option" where
  "intinv me a = map_option (op_get me) (op_inv me (op_set me a))"

subsection \<open>Probable primes\<close>

fun sprp_loop :: "layer \<Rightarrow> nat \<Rightarrow> u64 \<Rightarrow> u64 \<Rightarrow> bool" where
  "sprp_loop me 0 r minusone = False"
| "sprp_loop me (Suc n) r minusone =
     (let r = op_sqr me r in if api_equal r minusone then True else sprp_loop me n r minusone)"

definition is_strong_pseudoprime_base2 :: "layer \<Rightarrow> bool option" where
  "is_strong_pseudoprime_base2 me =
     (let mod8 = op_m me AND 7;
          po2 = (if mod8 = 1 \<or> mod8 = 7 then 0 else 1 :: int);
          mm1 = drop_bit 1 (op_m me - 1)
      in do {
        k \<leftarrow> Integer_ctz [mm1];
        let po2 = po2 + int k;
        let mm1 = drop_bit k mm1;
        let minusone = neg me (op_set1 me);
        r \<leftarrow> pow2_Integer me [mm1];
        if op_is1 me r \<or> api_equal r minusone then Some True
        else Some (sprp_loop me (nat (po2 - 1)) r minusone)
      })"

subsection \<open>Division by a small constant\<close>

text \<open>\<open>None\<close> is the failed assertion, \<open>Some None\<close> the return value \<open>false\<close>.\<close>

definition divn :: "nat \<Rightarrow> layer \<Rightarrow> u64 \<Rightarrow> u64 option option" where
  "divn n me a =
     (let inv_n = array_map n (\<lambda>n k. minus_inverse_mod_n (int n) (int k)) n [];
          an = mod_n (of_nat n) [a];
          mn = mod_n (of_nat n) [op_m me]
      in if inv_n ! unat mn = 0 then Some None
         else let k = (of_int (inv_n ! unat mn) * an) mod of_nat n
              in if (an + k * mn) mod of_nat n \<noteq> 0 then None
                 else let t = (if k = 0 then a
                               else if k = 1 then a + op_m me
                               else if k = 2 then a + op_m me + op_m me
                               else a + op_m me * k)
                      in Some (Some (reduce_multiple64 (of_nat n) t)))"

definition div3 :: "layer \<Rightarrow> u64 \<Rightarrow> u64 option" where
  "div3 me a =
     (let an = mod_n 3 [a];
          mn = mod_n 3 [op_m me]
      in if mn = 0 then None
         else let t = (if an \<noteq> 0
                       then if an + mn = 3 then a + op_m me else a + op_m me + op_m me
                       else a)
              in Some (reduce_multiple64 3 t))"

definition div5 :: "layer \<Rightarrow> u64 \<Rightarrow> u64 option option" where
  "div5 me a = divn 5 me a"

definition div7 :: "layer \<Rightarrow> u64 \<Rightarrow> u64 option option" where
  "div7 me a = divn 7 me a"

definition div11 :: "layer \<Rightarrow> u64 \<Rightarrow> u64 option option" where
  "div11 me a = divn 11 me a"

definition div13 :: "layer \<Rightarrow> u64 \<Rightarrow> u64 option option" where
  "div13 me a = divn 13 me a"

subsection \<open>Jacobi symbol\<close>

text \<open>The change of the sign for \<open>j\<close> factors two, in the second bit of \<open>s\<close>.\<close>

definition jacobi_two :: "nat \<Rightarrow> u64 \<Rightarrow> u32" where
  "jacobi_two j d = ucast (of_nat (2 * j) AND (d XOR drop_bit 1 d))"

text \<open>The inner loop: \<open>v\<close> is reduced by \<open>d\<close> until it is smaller.\<close>

partial_function (option) jacobi_reduce :: "u64 \<Rightarrow> u64 \<Rightarrow> u32 \<Rightarrow> (u64 \<times> u32) option" where
  "jacobi_reduce d v s =
     (let v = v - d
      in if v = 0 then Some (v, s)
         else do {
           j \<leftarrow> Integer_ctz [v];
           let s = s XOR jacobi_two j d;
           let v = drop_bit j v;
           if v \<ge> d then jacobi_reduce d v s else Some (v, s)
         })"

declare jacobi_reduce.simps [code]

partial_function (option) jacobi_loop :: "u64 \<Rightarrow> u64 \<Rightarrow> u32 \<Rightarrow> (u64 \<times> u32) option" where
  "jacobi_loop x mm s =
     (if x > 1
      then do {
        let s = s XOR ucast (x AND mm);
        (mm, s) \<leftarrow> jacobi_reduce x mm s;
        if mm \<le> 1 then Some (mm, s)
        else do {
          let s = s XOR ucast (x AND mm);
          (x, s) \<leftarrow> jacobi_reduce mm x s;
          jacobi_loop x mm s
        }
      }
      else Some (x, s))"

declare jacobi_loop.simps [code]

definition jacobi :: "u64 \<Rightarrow> u64 \<Rightarrow> int option" where
  "jacobi mm x =
     (if x = 0 then Some (if mm = 1 then 1 else 0)
      else do {
        j \<leftarrow> Integer_ctz [x];
        let x = drop_bit j x;
        let s = jacobi_two j mm;
        (x, s) \<leftarrow> jacobi_loop x mm s;
        Some (if x = 0 then 0 else if s AND 2 \<noteq> 0 then - 1 else 1)
      })"

subsection \<open>Greatest common divisor\<close>

definition high_bits :: "u64 \<Rightarrow> bool" where
  "high_bits b = (b AND word_of_int (- (2 ^ 62)) \<noteq> 0)"

text \<open>The unsigned loop for large \<open>b\<close>: \<open>Inl\<close> is the result, \<open>Inr\<close> the pair to go on with.\<close>

partial_function (option) gcd_unsigned :: "nat \<Rightarrow> u64 \<Rightarrow> u64 \<Rightarrow> (u64 + u64 \<times> u64) option" where
  "gcd_unsigned s a b =
     (let b = b - a
      in if b = 0 then Some (Inl (push_bit s a))
         else do {
           j \<leftarrow> Integer_ctz [b];
           let b = drop_bit j b;
           let (a, b) = (if b < a then (b, a) else (a, b));
           if high_bits b then gcd_unsigned s a b else Some (Inr (a, b))
         })"

declare gcd_unsigned.simps [code]

definition gcd_finish :: "nat \<Rightarrow> u64 \<Rightarrow> u64" where
  "gcd_finish s a = push_bit s (if Integer64_sign_bit a then - a else a)"

partial_function (option) gcd_signed :: "nat \<Rightarrow> u64 \<Rightarrow> u64 \<Rightarrow> u64 option" where
  "gcd_signed s a b =
     (if a \<noteq> 0
      then do {
        j \<leftarrow> Integer_ctz [a];
        let a = Integer64_signed_shift_right a j;
        let b = (if (a XOR b) AND 2 \<noteq> 0 then b + a else b - a);
        if b = 0 then Some (gcd_finish s a)
        else do {
          j \<leftarrow> Integer_ctz [b];
          let b = Integer64_signed_shift_right b j;
          let a = (if (a XOR b) AND 2 \<noteq> 0 then a + b else a - b);
          gcd_signed s a b
        }
      }
      else Some (gcd_finish s b))"

declare gcd_signed.simps [code]

definition gcd_start :: "layer \<Rightarrow> u64 \<Rightarrow> (u64 \<times> u64 \<times> nat) option" where
  "gcd_start me A =
     (let a = A; b = op_m me
      in if op_even_moduli_allowed me
         then do {
           ja \<leftarrow> Integer_ctz [a];
           jb \<leftarrow> Integer_ctz [b];
           let a = drop_bit ja a;
           let b = drop_bit jb b;
           let s = min ja jb;
           Some (if b < a then (b, a, s) else (a, b, s))
         }
         else Some (a, b, 0))"

definition api_gcd :: "layer \<Rightarrow> u64 \<Rightarrow> u64 option" where
  "api_gcd me A =
     (if is0 A then Some (op_m me)
      else do {
        (a, b, s) \<leftarrow> gcd_start me A;
        if s + op_overflow_bits me < 2 \<and> high_bits b
        then do {
          j \<leftarrow> Integer_ctz [a];
          let a = drop_bit j a;
          res \<leftarrow> gcd_unsigned s a b;
          (case res of Inl r \<Rightarrow> Some r | Inr (a, b) \<Rightarrow> gcd_signed s a b)
        }
        else gcd_signed s a b
      })"

subsection \<open>The Lucas test and primality\<close>

text \<open>
  \<open>perfect_square\<close> stands for GMP's \<open>mpz_perfect_square_p\<close>. The search for the parameter may
  run forever; \<open>Some None\<close> is the early \<open>return false\<close>.
\<close>

partial_function (option) lucas_parameter ::
    "(u64 \<Rightarrow> bool) \<Rightarrow> layer \<Rightarrow> nat \<Rightarrow> u64 \<Rightarrow> u64 \<Rightarrow> u64 option option" where
  "lucas_parameter perfect_square me i P D =
     do {
       j \<leftarrow> jacobi (op_m me) D;
       if j = - 1 then Some (Some P)
       else do {
         let P = op_add1 me P;
         let D = op_add me (op_add me (op_add me (op_add me D P) P) P) P;
         let P = op_add1 me P;
         if i = 20 \<and> perfect_square (op_m me) then Some None
         else lucas_parameter perfect_square me (i + 1) P D
       }
     }"

declare lucas_parameter.simps [code]

fun lucas_loop :: "layer \<Rightarrow> nat \<Rightarrow> u64 \<Rightarrow> u64 \<Rightarrow> u64 \<Rightarrow> bool" where
  "lucas_loop me 0 two mtwo v = api_equal v two"
| "lucas_loop me (Suc k) two mtwo v =
     (if is0 v then True
      else let v = V_dbl me v two
           in if api_equal v two \<or> api_equal v mtwo then False else lucas_loop me k two mtwo v)"

text \<open>\<open>None\<close> is the failed assertion on \<open>k\<close>, or a search that does not end.\<close>

definition is_strong_lucas_pseudoprime :: "(u64 \<Rightarrow> bool) \<Rightarrow> layer \<Rightarrow> bool option" where
  "is_strong_lucas_pseudoprime perfect_square me =
     (if op_m me = 2 then Some True
      else if op_m me AND 1 = 0 then Some False
      else do {
        p \<leftarrow> lucas_parameter perfect_square me 0 (set_int64 me 3) (set_int64 me 5);
        case p of None \<Rightarrow> Some False
        | Some P \<Rightarrow> do {
            let ell = op_m me + 1;
            k \<leftarrow> Integer_ctz [ell];
            if k = 0 then None
            else do {
              let ell = drop_bit k ell;
              (v, rp1) \<leftarrow> V me P ell;
              let two = set_int64 me 2;
              let mtwo = neg me two;
              if api_equal v two \<or> api_equal v mtwo then Some True
              else Some (lucas_loop me k two mtwo v)
            }
          }
      })"

definition is_prime :: "(u64 \<Rightarrow> bool) \<Rightarrow> layer \<Rightarrow> bool option" where
  "is_prime perfect_square me =
     do {
       b \<leftarrow> is_strong_pseudoprime_base2 me;
       if \<not> b then Some False
       else if sprp2_is_enough me then Some True
       else is_strong_lucas_pseudoprime perfect_square me
     }"

end
