(* ===== verification/ModLayer.thy ===== *)
theory ModLayer
  imports ModApi
begin

text \<open>
  The contract between a modulus class and the functions of its base class, as a locale, and
  what the base class functions compute in every class that keeps it: powers, Lucas sequences,
  simultaneous inversion, the strong pseudoprime test; then division by small constants,
  which works on the stored words.
\<close>

section \<open>The interface of a layer\<close>

definition residue :: "layer \<Rightarrow> u64 \<Rightarrow> bool" where
  "residue me a \<longleftrightarrow> a < op_m me"

definition modulus :: "layer \<Rightarrow> int" where
  "modulus me = uint (op_m me)"

text \<open>
  What the functions of the base class rely on: \<open>val M\<close> is the residue class that a stored word
  stands for, and each operation of the derived class computes on the classes.
\<close>

locale arith_layer =
  fixes lay :: "'m \<Rightarrow> layer" and ok :: "'m \<Rightarrow> bool" and val :: "'m \<Rightarrow> u64 \<Rightarrow> int"
  assumes modulus_pos: "ok M \<Longrightarrow> 0 < modulus (lay M)"
    and val_range: "ok M \<Longrightarrow> residue (lay M) a \<Longrightarrow> 0 \<le> val M a \<and> val M a < modulus (lay M)"
    and val_inj: "ok M \<Longrightarrow> residue (lay M) a \<Longrightarrow> residue (lay M) b \<Longrightarrow> val M a = val M b \<Longrightarrow> a = b"
    and val_zero: "ok M \<Longrightarrow> val M 0 = 0"
    and val_scale: "ok M \<Longrightarrow> residue (lay M) a \<Longrightarrow> residue (lay M) b \<Longrightarrow>
      (k * uint a) mod modulus (lay M) = uint b \<Longrightarrow> (k * val M a) mod modulus (lay M) = val M b"
    and set1: "ok M \<Longrightarrow> residue (lay M) (op_set1 (lay M)) \<and> val M (op_set1 (lay M)) = 1 mod modulus (lay M)"
    and set: "ok M \<Longrightarrow> residue (lay M) (op_set (lay M) s) \<and> val M (op_set (lay M) s) = uint s mod modulus (lay M)"
    and get: "ok M \<Longrightarrow> residue (lay M) a \<Longrightarrow> uint (op_get (lay M) a) = val M a"
    and is1: "ok M \<Longrightarrow> 1 < modulus (lay M) \<Longrightarrow> residue (lay M) a \<Longrightarrow> op_is1 (lay M) a \<longleftrightarrow> val M a = 1"
    and add: "ok M \<Longrightarrow> residue (lay M) a \<Longrightarrow> residue (lay M) b \<Longrightarrow>
      residue (lay M) (op_add (lay M) a b) \<and> val M (op_add (lay M) a b) = (val M a + val M b) mod modulus (lay M)"
    and sub: "ok M \<Longrightarrow> residue (lay M) a \<Longrightarrow> residue (lay M) b \<Longrightarrow>
      residue (lay M) (op_sub (lay M) a b) \<and> val M (op_sub (lay M) a b) = (val M a - val M b) mod modulus (lay M)"
    and add1: "ok M \<Longrightarrow> residue (lay M) a \<Longrightarrow>
      residue (lay M) (op_add1 (lay M) a) \<and> val M (op_add1 (lay M) a) = (val M a + 1) mod modulus (lay M)"
    and mul: "ok M \<Longrightarrow> residue (lay M) a \<Longrightarrow> residue (lay M) b \<Longrightarrow>
      residue (lay M) (op_mul (lay M) a b) \<and> val M (op_mul (lay M) a b) = (val M a * val M b) mod modulus (lay M)"
    and sqr: "ok M \<Longrightarrow> residue (lay M) a \<Longrightarrow>
      residue (lay M) (op_sqr (lay M) a) \<and> val M (op_sqr (lay M) a) = (val M a * val M a) mod modulus (lay M)"

section \<open>Lucas sequences\<close>

text \<open>The sequence \<open>V n (b, 1)\<close> on the integers.\<close>

fun lucasV :: "int \<Rightarrow> nat \<Rightarrow> int" where
  "lucasV b 0 = 2"
| "lucasV b (Suc 0) = b"
| "lucasV b (Suc (Suc n)) = b * lucasV b (Suc n) - lucasV b n"

lemma lucasV_norm:
  "lucasV b (Suc n) * lucasV b (Suc n) + lucasV b n * lucasV b n
     = b * lucasV b n * lucasV b (Suc n) + 4 - b * b"
proof (induction n)
  case (Suc n)
  define x y where "x = lucasV b n" and "y = lucasV b (Suc n)"
  have "y * y + x * x = b * x * y + 4 - b * b" using Suc by (simp add: x_def y_def)
  then have "(b * y - x) * (b * y - x) + y * y = b * y * (b * y - x) + 4 - b * b"
    by (simp add: algebra_simps)
  then show ?case by (simp add: x_def y_def)
qed simp

lemma lucasV_double:
  "lucasV b (2 * n) = lucasV b n * lucasV b n - 2
   \<and> lucasV b (Suc (2 * n)) = lucasV b n * lucasV b (Suc n) - b"
proof (induction n)
  case (Suc n)
  define x y where "x = lucasV b n" and "y = lucasV b (Suc n)"
  have ih: "lucasV b (2 * n) = x * x - 2" "lucasV b (Suc (2 * n)) = x * y - b"
    using Suc by (simp_all add: x_def y_def)
  have nrm: "y * y + x * x = b * x * y + 4 - b * b" using lucasV_norm [of b n] by (simp add: x_def y_def)
  have e1: "lucasV b (Suc (Suc (2 * n))) = y * y - 2"
    using nrm unfolding lucasV.simps(3) ih by (simp add: algebra_simps)
  have "lucasV b (Suc (Suc (Suc (2 * n)))) = b * (y * y - 2) - (x * y - b)"
    by (simp only: lucasV.simps(3) [of b "Suc (2 * n)"] e1 ih)
  also have "\<dots> = y * (b * y - x) - b" by (simp add: algebra_simps)
  finally show ?case using e1 by (simp add: x_def y_def)
qed simp

section \<open>Exponents\<close>

definition nvalue :: "u64 list \<Rightarrow> nat" where
  "nvalue x = nat (wvalue x)"

lemma nvalue_Nil [simp]: "nvalue [] = 0"
  by (simp add: nvalue_def)

lemma nvalue_single [simp]: "nvalue [u] = unat u"
  by (simp add: nvalue_def)

lemma nvalue_snoc: "nvalue (x @ [u]) = nvalue x + 2 ^ (64 * length x) * unat u"
proof -
  have "wvalue (x @ [u]) = wvalue x + int (2 ^ (64 * length x) * unat u)"
    by (simp add: wvalue_append W64_power)
  then show ?thesis by (simp add: nvalue_def nat_add_distrib del: of_nat_mult of_nat_power)
qed

text \<open>The mask that runs over the low \<open>k\<close> bits.\<close>

definition low_mask :: "nat \<Rightarrow> u64" where
  "low_mask k = (if k = 0 then 0 else 2 ^ (k - 1))"

lemma low_mask_0 [simp]: "low_mask 0 = 0"
  by (simp add: low_mask_def)

lemma low_mask_Suc: "low_mask (Suc k) = 2 ^ k"
  by (simp add: low_mask_def)

lemma drop_low_mask: "k < 64 \<Longrightarrow> drop_bit (Suc 0) (2 ^ k :: u64) = low_mask k"
proof (cases k)
  case (Suc j)
  assume "k < 64"
  with Suc show ?thesis
    using uint_exp64 [of k] uint_exp64 [of j] by (simp add: low_mask_def word_uint_eq_iff uint_drop_bit64)
qed (simp add: low_mask_def)

lemma exp_not_0: "k < 64 \<Longrightarrow> (2 ^ k :: u64) \<noteq> 0"
  using uint_exp64 [of k] by (metis power_not_zero uint_0_eq zero_neq_numeral)

lemma and_exp_neq_0_iff: "w AND 2 ^ k \<noteq> 0 \<longleftrightarrow> bit w k" for w :: u64
  by (simp add: and_exp_eq_0_iff)

lemma unat_mod_exp_Suc: "unat (w :: u64) mod 2 ^ Suc k = of_bool (bit w k) * 2 ^ k + unat w mod 2 ^ k"
proof -
  show ?thesis
    using bit_unat64 [of w k] take_bit_Suc_from_most [of k "unat w"] by (simp add: take_bit_eq_mod [where 'a = nat] of_bool_def)
qed

lemma top_mask:
  assumes "z < 64"
  shows "drop_bit 1 (drop_bit z (push_bit 63 1)) = low_mask (63 - z)"
proof -
  have "drop_bit z (push_bit 63 1 :: u64) = 2 ^ (63 - z)"
    using assms by (simp add: word_uint_eq_iff uint_drop_bit64 uint_exp64 power_diff)
  then show ?thesis using drop_low_mask [of "63 - z"] assms by simp
qed

lemma clz_top_bit:
  assumes "w \<noteq> 0" "u64arith_clz w = Some z"
  shows "z < 64" "unat w = 2 ^ (63 - z) + unat w mod 2 ^ (63 - z)"
proof -
  obtain "z < 64" and le: "2 ^ (63 - z) \<le> uint w" and lt: "uint w < 2 ^ (64 - z)"
    using clz_value [OF assms(1)] assms(2) by auto
  then show "z < 64" by simp
  define P :: nat where "P = 2 ^ (63 - z)"
  have "(2 :: int) ^ (64 - z) = 2 * int P" using \<open>z < 64\<close> by (simp add: P_def flip: power_Suc)
  moreover have "(2 :: int) ^ (63 - z) = int P" by (simp add: P_def)
  ultimately have "int P \<le> int (unat w)" "int (unat w) < 2 * int P" using le lt by (simp_all only: uint_nat)
  then have le': "P \<le> unat w" and lt': "unat w < 2 * P" by linarith+
  then have "unat w div P = 1" by (intro div_nat_eqI) simp_all
  then show "unat w = 2 ^ (63 - z) + unat w mod 2 ^ (63 - z)"
    using mult_div_mod_eq [of P "unat w"] by (simp add: P_def)
qed

section \<open>Powers in a layer\<close>

lemma power_square_step:
  fixes t B N :: int
  shows "((t * t * B ^ e) ^ (2 ^ k) * B ^ r) mod N = (t ^ (2 ^ Suc k) * B ^ (e * 2 ^ k + r)) mod N"
proof -
  have "(t * t * B ^ e) ^ (2 ^ k) * B ^ r = t ^ (2 * 2 ^ k) * B ^ (e * 2 ^ k + r)"
    by (simp add: power_mult_distrib power_add mult.assoc mult_2 flip: power_mult)
  then show ?thesis by simp
qed

lemma mod_power_mult: "((a mod N) ^ n * c) mod N = (a ^ n * c) mod N" for a c N :: int
  by (metis mod_mult_left_eq power_mod)

context arith_layer
begin

lemma pow_word_value:
  assumes M: "ok M" and k: "k \<le> 64" and t: "residue (lay M) t"
    and step: "\<And>t. residue (lay M) t \<Longrightarrow>
      residue (lay M) (step t) \<and> val M (step t) = (val M t * B) mod modulus (lay M)"
  shows "residue (lay M) (pow_word (lay M) step w (low_mask k) t)
    \<and> val M (pow_word (lay M) step w (low_mask k) t)
        = (val M t ^ (2 ^ k) * B ^ (unat w mod 2 ^ k)) mod modulus (lay M)"
  using k t
proof (induction k arbitrary: t)
  case 0
  then show ?case using val_range [OF M, of t] by (subst (1 2) pow_word.simps) simp
next
  case (Suc k)
  define N where "N = modulus (lay M)"
  define s where "s = op_sqr (lay M) t"
  define t' where "t' = (if bit w k then step s else s)"
  have s: "residue (lay M) s" "val M s = (val M t * val M t) mod N"
    using sqr [OF M Suc.prems(2)] by (simp_all add: s_def N_def)
  have t': "residue (lay M) t'" "val M t' = (val M t * val M t * B ^ of_bool (bit w k)) mod N"
    using s step [of s] by (auto simp: t'_def N_def mod_simps)
  have unfold: "pow_word (lay M) step w (low_mask (Suc k)) t = pow_word (lay M) step w (low_mask k) t'"
    using Suc.prems(1) drop_low_mask [of k] exp_not_0 [of k]
    by (subst pow_word.simps) (simp add: low_mask_Suc and_exp_eq_0_iff Let_def t'_def s_def)
  have "val M t' ^ (2 ^ k) * B ^ (unat w mod 2 ^ k) mod N
      = (val M t ^ (2 ^ Suc k) * B ^ (unat w mod 2 ^ Suc k)) mod N"
    unfolding t'(2) mod_power_mult unat_mod_exp_Suc by (rule power_square_step)
  then show ?case using Suc.IH [OF _ t'(1)] Suc.prems(1) unfolding unfold N_def by simp
qed

lemma pow_words_value:
  assumes M: "ok M" and t: "residue (lay M) t"
    and step: "\<And>t. residue (lay M) t \<Longrightarrow>
      residue (lay M) (step t) \<and> val M (step t) = (val M t * B) mod modulus (lay M)"
  shows "residue (lay M) (pow_words (lay M) step ws (push_bit 63 1) t)
    \<and> val M (pow_words (lay M) step ws (push_bit 63 1) t)
        = (val M t ^ (2 ^ (64 * length ws)) * B ^ nvalue (rev ws)) mod modulus (lay M)"
  using t
proof (induction ws arbitrary: t)
  case Nil
  then show ?case using val_range [OF M, of t] by simp
next
  case (Cons w ws)
  define N where "N = modulus (lay M)"
  define t' where "t' = pow_word (lay M) step w (low_mask 64) t"
  have m: "low_mask 64 = push_bit 63 1" by (simp add: low_mask_def)
  have "unat w mod 2 ^ 64 = unat w" using unat_lt64 [of w] by (rule mod_less)
  then have t': "residue (lay M) t'" "val M t' = (val M t ^ (2 ^ 64) * B ^ unat w) mod N"
    using pow_word_value [OF M order_refl Cons.prems, of step B w] step by (simp_all only: t'_def N_def)
  have "(val M t' ^ (2 ^ (64 * length ws)) * B ^ nvalue (rev ws)) mod N
      = ((val M t ^ (2 ^ 64) * B ^ unat w) ^ (2 ^ (64 * length ws)) * B ^ nvalue (rev ws)) mod N"
    unfolding t'(2) by (rule mod_power_mult)
  also have "(val M t ^ (2 ^ 64) * B ^ unat w) ^ (2 ^ (64 * length ws)) * B ^ nvalue (rev ws)
      = val M t ^ (2 ^ (64 * length (w # ws))) * B ^ nvalue (rev (w # ws))"
    by (simp only: power_mult_distrib rev.simps nvalue_snoc length_rev length_Cons power_add mult_Suc_right
        flip: power_mult) (simp only: ac_simps)
  finally show ?case using Cons.IH [OF t'(1)] by (simp add: t'_def m flip: N_def)
qed

lemma pow_core:
  assumes M: "ok M" and t: "residue (lay M) t" "val M t = B mod modulus (lay M)"
    and step: "\<And>t. residue (lay M) t \<Longrightarrow>
      residue (lay M) (step t) \<and> val M (step t) = (val M t * B) mod modulus (lay M)"
    and e: "e = x @ [w]" "w \<noteq> 0" and z: "u64arith_clz w = Some z"
  defines "r \<equiv> pow_words (lay M) step (rev e) (drop_bit 1 (drop_bit z (push_bit 63 1))) t"
  shows "residue (lay M) r" "val M r = (B ^ nvalue e) mod modulus (lay M)"
proof -
  define N where "N = modulus (lay M)"
  define k where "k = 63 - z"
  note top = clz_top_bit [OF e(2) z]
  define t' where "t' = pow_word (lay M) step w (low_mask k) t"
  have "k \<le> 64" by (simp add: k_def)
  then have t': "residue (lay M) t'" "val M t' = (val M t ^ (2 ^ k) * B ^ (unat w mod 2 ^ k)) mod N"
    using pow_word_value [OF M _ t(1), of k step B w] step by (simp_all only: t'_def N_def)
  have "val M t' = (B ^ (2 ^ k) * B ^ (unat w mod 2 ^ k)) mod N"
    unfolding t'(2) t(2) N_def by (rule mod_power_mult)
  then have vt': "val M t' = B ^ unat w mod N"
    using top(2) by (simp add: k_def flip: power_add)
  have r: "r = pow_words (lay M) step (rev x) (push_bit 63 1) t'"
    by (simp add: r_def e(1) t'_def k_def top_mask [OF top(1), simplified])
  note pw = pow_words_value [OF M t'(1), of step B "rev x"]
  show "residue (lay M) r" using pw step unfolding r by blast
  have "val M r = (val M t' ^ (2 ^ (64 * length x)) * B ^ nvalue x) mod N"
    using pw step unfolding r N_def by simp
  also have "\<dots> = ((B ^ unat w) ^ (2 ^ (64 * length x)) * B ^ nvalue x) mod N"
    unfolding vt' by (rule mod_power_mult)
  also have "(B ^ unat w) ^ (2 ^ (64 * length x)) * B ^ nvalue x = B ^ nvalue e"
    by (simp add: e(1) nvalue_snoc power_add ac_simps flip: power_mult)
  finally show "val M r = (B ^ nvalue e) mod modulus (lay M)" by (simp add: N_def)
qed

end

lemma strip_words_value:
  "i \<le> length e \<Longrightarrow> strip_words e i \<le> i \<and> nvalue (take i e) = nvalue (take (strip_words e i) e)
     \<and> (strip_words e i \<noteq> 0 \<longrightarrow> e ! (strip_words e i - 1) \<noteq> 0)"
  by (induction i) (auto simp: take_Suc_conv_app_nth nvalue_snoc)

lemma strip_words_cases:
  obtains "strip_words e (length e) = 0" "nvalue e = 0"
  | x w where "take (strip_words e (length e)) e = x @ [w]" "w \<noteq> 0" "nvalue e = nvalue (x @ [w])"
      "e ! (strip_words e (length e) - 1) = w" "strip_words e (length e) \<noteq> 0"
proof -
  define i where "i = strip_words e (length e)"
  have i: "i \<le> length e" "nvalue e = nvalue (take i e)" "i \<noteq> 0 \<Longrightarrow> e ! (i - 1) \<noteq> 0"
    using strip_words_value [of "length e" e] by (auto simp: i_def)
  show thesis
  proof (cases i)
    case 0
    then show thesis using that(1) i(2) by (simp add: i_def)
  next
    case (Suc j)
    then have "take i e = take j e @ [e ! j]" using i(1) by (simp add: take_Suc_conv_app_nth)
    then show thesis using that(2) [of "take j e" "e ! j"] i Suc by (simp add: i_def)
  qed
qed

context arith_layer
begin

lemma pow_value:
  assumes M: "ok M" and b: "residue (lay M) b"
  shows "\<exists>r. pow (lay M) b e = Some r \<and> residue (lay M) r \<and> val M r = val M b ^ nvalue e mod modulus (lay M)"
proof (rule strip_words_cases [of e])
  assume "strip_words e (length e) = 0" "nvalue e = 0"
  then show ?thesis using set1 [OF M] by (simp add: pow_def)
next
  fix x w
  assume e: "take (strip_words e (length e)) e = x @ [w]" "w \<noteq> 0" "nvalue e = nvalue (x @ [w])"
    "e ! (strip_words e (length e) - 1) = w" "strip_words e (length e) \<noteq> 0"
  obtain z where z: "u64arith_clz w = Some z" using clz_value [OF e(2)] by auto
  have vb: "val M b = val M b mod modulus (lay M)" using val_range [OF M b] by simp
  have step: "residue (lay M) t \<Longrightarrow> residue (lay M) (op_mul (lay M) t b)
      \<and> val M (op_mul (lay M) t b) = val M t * val M b mod modulus (lay M)" for t
    using mul [OF M _ b] by blast
  note core = pow_core [OF M b vb step refl e(2) z, of x]
  have "pow (lay M) b e = Some (pow_words (lay M) (\<lambda>t. op_mul (lay M) t b) (rev (x @ [w]))
      (drop_bit 1 (drop_bit z (push_bit 63 1))) b)"
    using e z by (simp add: pow_def Let_def)
  then show ?thesis using core e(3) by simp
qed

lemma two_value:
  assumes M: "ok M"
  shows "residue (lay M) (op_add (lay M) (op_set1 (lay M)) (op_set1 (lay M)))"
    "val M (op_add (lay M) (op_set1 (lay M)) (op_set1 (lay M))) = 2 mod modulus (lay M)"
  using set1 [OF M] add [OF M, of "op_set1 (lay M)" "op_set1 (lay M)"] by (simp_all add: mod_simps)

lemma pow2_value:
  assumes M: "ok M"
  shows "\<exists>r. pow2 (lay M) e = Some r \<and> residue (lay M) r \<and> val M r = 2 ^ nvalue e mod modulus (lay M)"
proof (rule strip_words_cases [of e])
  assume "strip_words e (length e) = 0" "nvalue e = 0"
  then show ?thesis using set1 [OF M] by (simp add: pow2_def)
next
  fix x w
  assume e: "take (strip_words e (length e)) e = x @ [w]" "w \<noteq> 0" "nvalue e = nvalue (x @ [w])"
    "e ! (strip_words e (length e) - 1) = w" "strip_words e (length e) \<noteq> 0"
  obtain z where z: "u64arith_clz w = Some z" using clz_value [OF e(2)] by auto
  have step: "residue (lay M) t \<Longrightarrow> residue (lay M) (op_add (lay M) t t)
      \<and> val M (op_add (lay M) t t) = val M t * 2 mod modulus (lay M)" for t
    using add [OF M, of t t] by (simp add: mult_2_right)
  note core = pow_core [OF M two_value [OF M] step refl e(2) z, of x]
  have "pow2 (lay M) e = Some (pow_words (lay M) (\<lambda>t. op_add (lay M) t t) (rev (x @ [w]))
      (drop_bit 1 (drop_bit z (push_bit 63 1))) (op_add (lay M) (op_set1 (lay M)) (op_set1 (lay M))))"
    using e z by (simp add: pow2_def Let_def)
  then show ?thesis using core e(3) by simp
qed

lemma neg_value:
  assumes M: "ok M" and a: "residue (lay M) a"
  shows "residue (lay M) (neg (lay M) a)" "val M (neg (lay M) a) = (- val M a) mod modulus (lay M)"
proof -
  have pos: "0 < uint (op_m (lay M))" using modulus_pos [OF M] by (simp add: modulus_def)
  show "residue (lay M) (neg (lay M) a)" "val M (neg (lay M) a) = (- val M a) mod modulus (lay M)"
  proof (atomize (full), cases "a = 0")
    case True
    then show "residue (lay M) (neg (lay M) a) \<and> val M (neg (lay M) a) = (- val M a) mod modulus (lay M)"
      using pos val_zero [OF M] by (simp add: neg_def is0_def set0_def residue_def word_less_def)
  next
    case False
    define b where "b = op_m (lay M) - a"
    have lt: "uint a < uint (op_m (lay M))" "1 \<le> uint a"
      using a uint_pos64 [OF False] by (simp_all add: residue_def word_less_def)
    have b: "uint b = uint (op_m (lay M)) - uint a"
      using lt(1) by (simp add: b_def uint_borrow_diff word_less_def)
    have "residue (lay M) b" unfolding residue_def word_less_def b using lt(2) by linarith
    moreover have "((- 1) * uint a) mod modulus (lay M) = uint b"
      using lt zmod_zminus1_eq_if [of "uint a" "modulus (lay M)"] by (simp add: modulus_def b)
    ultimately show "residue (lay M) (neg (lay M) a) \<and> val M (neg (lay M) a) = (- val M a) mod modulus (lay M)"
      using val_scale [OF M a, of b "- 1"] False by (simp add: neg_def is0_def b_def)
  qed
qed

lemma set_int64_value:
  assumes M: "ok M" and s: "\<bar>s\<bar> < W64"
  shows "residue (lay M) (set_int64 (lay M) s)" "val M (set_int64 (lay M) s) = s mod modulus (lay M)"
proof -
  have "uint (word_of_int \<bar>s\<bar> :: u64) = \<bar>s\<bar>" using s by (simp add: uint_word_of_int W64_def)
  then have r: "residue (lay M) (op_set (lay M) (word_of_int \<bar>s\<bar>))"
    "val M (op_set (lay M) (word_of_int \<bar>s\<bar>)) = \<bar>s\<bar> mod modulus (lay M)"
    using set [OF M, of "word_of_int \<bar>s\<bar>"] by simp_all
  show "residue (lay M) (set_int64 (lay M) s)" "val M (set_int64 (lay M) s) = s mod modulus (lay M)"
    using r neg_value [OF M r(1)] by (auto simp: set_int64_def Let_def mod_minus_eq)
qed

section \<open>Lucas sequences in a layer\<close>

lemma V_dadd_value:
  assumes M: "ok M" and "residue (lay M) a" "residue (lay M) b" "residue (lay M) d"
  shows "residue (lay M) (V_dadd (lay M) a b d)"
    "val M (V_dadd (lay M) a b d) = (val M a * val M b - val M d) mod modulus (lay M)"
  using mul [OF M, of a b] sub [OF M, of "op_mul (lay M) a b" d] assms(2-4)
  by (simp_all add: V_dadd_def mod_simps)

lemma V_dbl_value:
  assumes M: "ok M" and "residue (lay M) a" "residue (lay M) two" "val M two = 2 mod modulus (lay M)"
  shows "residue (lay M) (V_dbl (lay M) a two)"
    "val M (V_dbl (lay M) a two) = (val M a * val M a - 2) mod modulus (lay M)"
  using sqr [OF M, of a] sub [OF M, of "op_sqr (lay M) a" two] assms(2-4)
  by (simp_all add: V_dbl_def mod_simps)

text \<open>The running pair of the ladder: two consecutive terms.\<close>

lemma ladder_odd:
  assumes M: "ok M" and r: "residue (lay M) t0" "residue (lay M) t1" "residue (lay M) b" "residue (lay M) two"
    and two: "val M two = 2 mod modulus (lay M)"
    and v: "val M t0 = lucasV (val M b) j mod modulus (lay M)" "val M t1 = lucasV (val M b) (Suc j) mod modulus (lay M)"
  shows "residue (lay M) (V_dadd (lay M) t1 t0 b)" "residue (lay M) (V_dbl (lay M) t1 two)"
    "residue (lay M) (V_dbl (lay M) t0 two)"
    "val M (V_dadd (lay M) t1 t0 b) = lucasV (val M b) (Suc (2 * j)) mod modulus (lay M)"
    "val M (V_dbl (lay M) t1 two) = lucasV (val M b) (Suc (Suc (2 * j))) mod modulus (lay M)"
    "val M (V_dbl (lay M) t0 two) = lucasV (val M b) (2 * j) mod modulus (lay M)"
proof -
  note d = V_dadd_value [OF M r(2,1,3)] and e = V_dbl_value [OF M r(2,4) two] and f = V_dbl_value [OF M r(1,4) two]
  show "residue (lay M) (V_dadd (lay M) t1 t0 b)" "residue (lay M) (V_dbl (lay M) t1 two)"
    "residue (lay M) (V_dbl (lay M) t0 two)" by (rule d e f)+
  have "Suc (Suc (2 * j)) = 2 * Suc j" by simp
  then show "val M (V_dbl (lay M) t1 two) = lucasV (val M b) (Suc (Suc (2 * j))) mod modulus (lay M)"
    using lucasV_double [of "val M b" "Suc j"] by (simp only: e v mod_mult_diff)
  show "val M (V_dbl (lay M) t0 two) = lucasV (val M b) (2 * j) mod modulus (lay M)"
    using lucasV_double [of "val M b" j] by (simp only: f v mod_mult_diff)
  show "val M (V_dadd (lay M) t1 t0 b) = lucasV (val M b) (Suc (2 * j)) mod modulus (lay M)"
    using lucasV_double [of "val M b" j] by (simp only: d v mod_mult_diff mult.commute)
qed

lemma unat_div_exp_step: "unat (k :: u64) div 2 ^ i = 2 * (unat k div 2 ^ Suc i) + of_bool (bit k i)"
proof -
  define q where "q = unat k div 2 ^ i"
  have "unat k div 2 ^ Suc i = q div 2" by (simp add: q_def mult.commute flip: div_mult2_eq)
  moreover have "bit k i \<longleftrightarrow> odd q" unfolding q_def bit_unat64 [symmetric] by (rule bit_iff_odd)
  ultimately show ?thesis by (auto simp: q_def [symmetric] elim: oddE)
qed

lemma V_loop_value:
  assumes M: "ok M" and b: "residue (lay M) b" "residue (lay M) two" "val M two = 2 mod modulus (lay M)"
    and i: "i < 64"
    and t: "residue (lay M) t0" "residue (lay M) t1"
      "val M t0 = lucasV (val M b) (unat k div 2 ^ Suc i) mod modulus (lay M)"
      "val M t1 = lucasV (val M b) (Suc (unat k div 2 ^ Suc i)) mod modulus (lay M)"
  shows "\<exists>s0 s1. V_loop (lay M) two b k (2 ^ i) t0 t1 = (1, s0, s1) \<and> residue (lay M) s0 \<and> residue (lay M) s1
      \<and> val M s0 = lucasV (val M b) (unat k div 2) mod modulus (lay M)
      \<and> val M s1 = lucasV (val M b) (Suc (unat k div 2)) mod modulus (lay M)"
  using i t
proof (induction i arbitrary: t0 t1)
  case 0
  then show ?case by (subst V_loop.simps) simp
next
  case (Suc i)
  define j where "j = unat k div 2 ^ Suc (Suc i)"
  define s0 s1 where "s0 = (if bit k (Suc i) then V_dadd (lay M) t1 t0 b else V_dbl (lay M) t0 two)"
    and "s1 = (if bit k (Suc i) then V_dbl (lay M) t1 two else V_dadd (lay M) t1 t0 b)"
  note st = ladder_odd [OF M Suc.prems(2,3) b(1,2,3) Suc.prems(4,5)]
  have jj: "unat k div 2 ^ Suc i = 2 * j + of_bool (bit k (Suc i))" unfolding j_def by (rule unat_div_exp_step)
  have s: "residue (lay M) s0" "residue (lay M) s1"
    "val M s0 = lucasV (val M b) (unat k div 2 ^ Suc i) mod modulus (lay M)"
    "val M s1 = lucasV (val M b) (Suc (unat k div 2 ^ Suc i)) mod modulus (lay M)"
    unfolding jj using st by (auto simp: s0_def s1_def j_def)
  have "1 < (2 ^ Suc i :: u64)"
    using uint_exp64 [OF Suc.prems(1)] one_less_power [of "2 :: int" "Suc i"] by (simp only: word_less_def) simp
  moreover have "drop_bit (Suc 0) (2 ^ Suc i) = (2 ^ i :: u64)"
    using drop_low_mask [OF Suc.prems(1)] by (simp add: low_mask_def)
  ultimately have "V_loop (lay M) two b k (2 ^ Suc i) t0 t1 = V_loop (lay M) two b k (2 ^ i) s0 s1"
    by (subst V_loop.simps) (auto simp: s0_def s1_def and_exp_eq_0_iff simp del: power_Suc)
  then show ?case using Suc.IH [OF _ s] Suc.prems(1) by simp
qed

end

lemma Integer_bits_single:
  assumes "k \<noteq> 0"
  obtains i where "Integer_bits [k] = Some (Suc i)" "i < 64" "unat k div 2 ^ i = 1"
proof -
  obtain b where b: "Integer_bits [k] = Some b" "uint k < 2 ^ b" "0 < b \<longrightarrow> 2 ^ (b - 1) \<le> uint k"
    using Integer_bits_value [of "[k]"] by auto
  have k: "1 \<le> uint k" using assms by (rule uint_pos64)
  then have "b \<noteq> 0" using b(2) by (cases b) simp_all
  then obtain i where i: "b = Suc i" by (cases b) auto
  then have le: "2 ^ i \<le> uint k" using b(3) by simp
  have "(2 :: int) ^ i < 2 ^ 64" using le uint_lt64 [of k] unfolding W64_def by (rule order_le_less_trans)
  then have "i < 64" by (rule power_less_imp_less_exp [rotated]) simp
  define P :: nat where "P = 2 ^ i"
  have P: "(2 :: int) ^ i = int P" "(2 :: int) ^ b = 2 * int P" by (simp_all add: P_def i)
  have "int P \<le> int (unat k)" "int (unat k) < 2 * int P" using le b(2) by (simp_all only: uint_nat P)
  then have "P \<le> unat k" "unat k < 2 * P" by linarith+
  then have "unat k div P = 1" by (intro div_nat_eqI) simp_all
  with that b(1) i \<open>i < 64\<close> show thesis by (simp add: P_def)
qed

lemma unat_le2: "unat k div 2 ^ i = 1 \<Longrightarrow> k \<noteq> 0 \<Longrightarrow> k \<noteq> 1 \<Longrightarrow> k \<noteq> 2 \<Longrightarrow>
    \<exists>l. i = Suc l \<and> (l = 0 \<longrightarrow> bit (k :: u64) 0)"
proof -
  assume d: "unat k div 2 ^ i = 1" and k: "k \<noteq> 0" "k \<noteq> 1" "k \<noteq> 2"
  have u: "unat k \<noteq> 0" "unat k \<noteq> 1" "unat k \<noteq> 2"
    using k by (auto simp: word_unat_eq_iff)
  obtain l where l: "i = Suc l" using d u by (cases i) auto
  have "odd (unat k)" if "l = 0"
  proof -
    have "unat k div 2 = 1" using d that l by simp
    then have "unat k = 3" using u by linarith
    then show ?thesis by simp
  qed
  then show ?thesis using l bit_unat64 [of k 0] by (simp add: bit_0)
qed

context arith_layer
begin

lemma two_add1_value:
  assumes M: "ok M"
  shows "residue (lay M) (op_add1 (lay M) (op_set1 (lay M)))"
    "val M (op_add1 (lay M) (op_set1 (lay M))) = 2 mod modulus (lay M)"
  using set1 [OF M] add1 [OF M, of "op_set1 (lay M)"] by (simp_all add: mod_simps)

lemma V_ladder_value:
  assumes M: "ok M" and b: "residue (lay M) b" and two: "residue (lay M) two" "val M two = 2 mod modulus (lay M)"
    and k: "k \<noteq> 0" "k \<noteq> 1" "k \<noteq> 2"
  shows "\<exists>s0 s1. V_ladder (lay M) two b k = Some (1, s0, s1) \<and> residue (lay M) s0 \<and> residue (lay M) s1
      \<and> val M s0 = lucasV (val M b) (unat k div 2) mod modulus (lay M)
      \<and> val M s1 = lucasV (val M b) (Suc (unat k div 2)) mod modulus (lay M)"
proof -
  obtain i where i: "Integer_bits [k] = Some (Suc i)" "i < 64" "unat k div 2 ^ i = 1"
    using k(1) by (rule Integer_bits_single)
  obtain l where l: "i = Suc l" "l = 0 \<longrightarrow> bit k 0" using unat_le2 [OF i(3) k] by blast
  define t1 where "t1 = V_dbl (lay M) b two"
  have vb: "val M b = lucasV (val M b) 1 mod modulus (lay M)" using val_range [OF M b] by simp
  have t1: "residue (lay M) t1" "val M t1 = lucasV (val M b) (Suc 1) mod modulus (lay M)"
    using V_dbl_value [OF M b two] by (simp_all add: t1_def)
  have msk: "drop_bit (Suc 0) (push_bit (Suc i - 1) 1) = (2 ^ l :: u64)"
    using drop_low_mask [OF i(2)] l(1) by (simp add: low_mask_def del: power_Suc)
  show ?thesis
  proof (cases "bit k l")
    case True
    have "V_ladder (lay M) two b k = Some (V_loop (lay M) two b k (2 ^ l) b t1)"
      using i(1) True msk by (simp add: V_ladder_def Let_def and_exp_eq_0_iff t1_def)
    moreover have "val M b = lucasV (val M b) (unat k div 2 ^ Suc l) mod modulus (lay M)"
      "val M t1 = lucasV (val M b) (Suc (unat k div 2 ^ Suc l)) mod modulus (lay M)"
      using vb t1(2) i(3) unfolding l(1) by (simp_all only:) 
    ultimately show ?thesis
      using V_loop_value [OF M b two, of l b t1 k] b t1(1) i(2) l(1) by simp
  next
    case False
    then obtain n where n: "l = Suc n" using l(2) by (cases l) auto
    define t2 where "t2 = V_dadd (lay M) t1 b b"
    have t2: "residue (lay M) t2" "val M t2 = lucasV (val M b) (Suc 2) mod modulus (lay M)"
      using ladder_odd(1,4) [OF M b t1(1) b two(1) two(2) vb t1(2)] by (simp_all add: t2_def numeral_2_eq_2)
    have "drop_bit (Suc 0) (2 ^ l) = (2 ^ n :: u64)"
      using drop_low_mask [of l] i(2) l(1) n by (simp add: low_mask_def del: power_Suc)
    then have "V_ladder (lay M) two b k = Some (V_loop (lay M) two b k (2 ^ n) t1 t2)"
      using i(1) False msk by (simp add: V_ladder_def Let_def and_exp_eq_0_iff t1_def t2_def)
    moreover have "unat k div 2 ^ l = 2"
      using unat_div_exp_step [of k l] i(3) False by (simp only: l(1)) simp
    ultimately show ?thesis
      using V_loop_value [OF M b two, of n t1 t2 k] t1 t2 i(2) l(1) n by (simp add: numeral_2_eq_2)
  qed
qed

lemma V_value:
  assumes M: "ok M" and b: "residue (lay M) b"
  shows "\<exists>r rp1. V (lay M) b k = Some (r, rp1) \<and> residue (lay M) r \<and> residue (lay M) rp1
      \<and> val M r = lucasV (val M b) (unat k) mod modulus (lay M)
      \<and> val M rp1 = lucasV (val M b) (Suc (unat k)) mod modulus (lay M)"
proof -
  define two where "two = op_add1 (lay M) (op_set1 (lay M))"
  note two = two_add1_value [OF M, folded two_def]
  have vb: "val M b = lucasV (val M b) 1 mod modulus (lay M)" using val_range [OF M b] by simp
  have t1: "residue (lay M) (V_dbl (lay M) b two)"
    "val M (V_dbl (lay M) b two) = lucasV (val M b) (Suc 1) mod modulus (lay M)"
    using V_dbl_value [OF M b two] by simp_all
  consider "k = 0" | "k = 1" | "k = 2" | "k \<noteq> 0" "k \<noteq> 1" "k \<noteq> 2" by blast
  then show ?thesis
  proof cases
    case 1
    then show ?thesis using two b vb by (simp add: V_def Let_def two_def)
  next
    case 2
    then show ?thesis using t1 b vb by (simp add: V_def Let_def two_def)
  next
    case 3
    then have k: "unat k = Suc 1" by simp
    have "V (lay M) b k = Some (V_dbl (lay M) b two, V_dadd (lay M) (V_dbl (lay M) b two) b b)"
      using 3 by (simp add: V_def Let_def two_def)
    moreover have "Suc (2 * 1) = Suc (Suc 1)" by simp
    ultimately show ?thesis using t1 ladder_odd(1,4) [OF M b t1(1) b two(1) two(2) vb t1(2)]
      unfolding k by metis
  next
    case 4
    obtain s0 s1 where s: "V_ladder (lay M) two b k = Some (1, s0, s1)" "residue (lay M) s0" "residue (lay M) s1"
      "val M s0 = lucasV (val M b) (unat k div 2) mod modulus (lay M)"
      "val M s1 = lucasV (val M b) (Suc (unat k div 2)) mod modulus (lay M)"
      using V_ladder_value [OF M b two 4] by blast
    note st = ladder_odd [OF M s(2,3) b two(1) two(2) s(4,5)]
    have k0: "k AND 1 \<noteq> 0 \<longleftrightarrow> bit k 0" using and_exp_eq_0_iff [of k 0] by simp
    show ?thesis
    proof (cases "bit k 0")
      case True
      then have "unat k = Suc (2 * (unat k div 2))" using unat_div_exp_step [of k 0] by simp
      moreover have "V (lay M) b k = Some (V_dadd (lay M) s1 s0 b, V_dbl (lay M) s1 two)"
        using 4 s(1) True k0 by (simp add: V_def Let_def flip: two_def)
      ultimately show ?thesis using st by metis
    next
      case False
      then have "unat k = 2 * (unat k div 2)" using unat_div_exp_step [of k 0] by simp
      moreover have "V (lay M) b k = Some (V_dbl (lay M) s0 two, V_dadd (lay M) s1 s0 b)"
        using 4 s(1) False k0 by (simp add: V_def Let_def flip: two_def)
      ultimately show ?thesis using st by metis
    qed
  qed
qed

end

text \<open>Different variables: the store version computes the pair.\<close>

lemma V_store_distinct:
  assumes "r \<noteq> p" "r \<noteq> b" "p \<noteq> b" "V me (\<sigma> b) k = Some (x, y)"
  shows "V_store me r (Some p) b k \<sigma> = Some (\<sigma>(r := x, p := y))"
  using assms
  by (auto simp: V_def V_store_def Let_def V_dadd_def fun_upd_twist split: if_splits option.splits
      elim!: Option.bind_eq_Some_conv [THEN iffD1, elim_format])

section \<open>Simultaneous inversion\<close>

locale inverting_layer = arith_layer +
  assumes inv_some: "ok M \<Longrightarrow> residue (lay M) a \<Longrightarrow> op_inv (lay M) a = Some r \<Longrightarrow>
      residue (lay M) r \<and> (val M r * val M a) mod modulus (lay M) = 1 mod modulus (lay M)"
    and inv_none: "ok M \<Longrightarrow> residue (lay M) a \<Longrightarrow> op_inv (lay M) a = None \<Longrightarrow>
      \<not> coprime (val M a) (modulus (lay M)) \<or> modulus (lay M) = 1"

lemma prefix_products_Nil [simp]: "prefix_products me a [] = [a]"
  by (simp add: prefix_products_def)

lemma prefix_products_not_Nil [simp]: "prefix_products me a xs \<noteq> []"
  by (simp add: prefix_products_def)

lemma prefix_products_snoc:
  "prefix_products me a (xs @ [x]) = prefix_products me a xs @ [op_mul me (last (prefix_products me a xs)) x]"
proof -
  have "batch_products me a (xs @ [x]) = batch_products me a xs @ [op_mul me (last (a # batch_products me a xs)) x]"
    by (induction xs arbitrary: a) (simp_all add: Let_def)
  then show ?thesis by (simp add: prefix_products_def)
qed

lemma rev_last: "ys \<noteq> [] \<Longrightarrow> rev ys = last ys # tl (rev ys)"
  by (cases ys rule: rev_cases) auto

context arith_layer
begin

lemma prefix_products_last:
  assumes M: "ok M" and "residue (lay M) a" "\<forall>x\<in>set xs. residue (lay M) x"
  shows "residue (lay M) (last (prefix_products (lay M) a xs))
    \<and> val M (last (prefix_products (lay M) a xs)) = prod_list (map (val M) (a # xs)) mod modulus (lay M)"
  using assms(3)
proof (induction xs rule: rev_induct)
  case Nil
  then show ?case using val_range [OF M assms(2)] assms(2) by simp
next
  case (snoc x xs)
  then show ?case using mul [OF M, of "last (prefix_products (lay M) a xs)" x]
    by (simp add: prefix_products_snoc mod_simps mult.assoc)
qed

lemma batch_back_value:
  assumes M: "ok M" and a: "residue (lay M) a" and xs: "\<forall>x\<in>set xs. residue (lay M) x"
    and R: "residue (lay M) R"
      "(val M R * val M (last (prefix_products (lay M) a xs))) mod modulus (lay M) = C mod modulus (lay M)"
  shows "\<exists>out. batch_back (lay M) R (tl (rev (prefix_products (lay M) a xs))) (rev xs) acc = out @ acc
      \<and> list_all2 (\<lambda>r x. residue (lay M) r \<and> (val M r * val M x) mod modulus (lay M) = C mod modulus (lay M)) out (a # xs)"
  using xs R
proof (induction xs arbitrary: R acc rule: rev_induct)
  case Nil
  then show ?case by (intro exI [of _ "[R]"]) simp
next
  case (snoc x xs)
  define N where "N = modulus (lay M)"
  define rs where "rs = prefix_products (lay M) a xs"
  define p where "p = last rs"
  have x: "residue (lay M) x" "\<forall>x\<in>set xs. residue (lay M) x" using snoc.prems(1) by simp_all
  have p: "residue (lay M) p"
    using prefix_products_last [OF M a x(2)] by (simp add: p_def rs_def)
  have px: "val M (op_mul (lay M) p x) = (val M p * val M x) mod N"
    using mul [OF M p x(1)] by (simp add: N_def)
  have Rx: "residue (lay M) (op_mul (lay M) R x)" "val M (op_mul (lay M) R x) = (val M R * val M x) mod N"
    and Rp: "residue (lay M) (op_mul (lay M) R p)" "val M (op_mul (lay M) R p) = (val M R * val M p) mod N"
    using mul [OF M snoc.prems(2) x(1)] mul [OF M snoc.prems(2) p] by (simp_all add: N_def)
  have C: "(val M R * (val M p * val M x)) mod N = C mod N"
    using snoc.prems(3) px by (simp add: prefix_products_snoc N_def mod_mult_right_eq flip: rs_def p_def)
  have c1: "(val M (op_mul (lay M) R x) * val M (last (prefix_products (lay M) a xs))) mod N = C mod N"
    unfolding rs_def [symmetric] p_def [symmetric] Rx(2) mod_mult_left_eq C [symmetric] by (simp add: ac_simps)
  have c2: "(val M (op_mul (lay M) R p) * val M x) mod N = C mod N"
    unfolding Rp(2) mod_mult_left_eq C [symmetric] by (simp add: ac_simps)
  obtain out where out:
    "batch_back (lay M) (op_mul (lay M) R x) (tl (rev rs)) (rev xs) (op_mul (lay M) R p # acc) = out @ op_mul (lay M) R p # acc"
    "list_all2 (\<lambda>r x. residue (lay M) r \<and> (val M r * val M x) mod N = C mod N) out (a # xs)"
    using snoc.IH [OF x(2) Rx(1), of "op_mul (lay M) R p # acc"] c1 by (auto simp: N_def rs_def)
  have "tl (rev (prefix_products (lay M) a (xs @ [x]))) = p # tl (rev rs)"
    using rev_last [of rs] by (simp add: prefix_products_snoc p_def rs_def)
  then have "batch_back (lay M) R (tl (rev (prefix_products (lay M) a (xs @ [x])))) (rev (xs @ [x])) acc
      = (out @ [op_mul (lay M) R p]) @ acc"
    using out(1) by simp
  moreover have "list_all2 (\<lambda>r x. residue (lay M) r \<and> (val M r * val M x) mod N = C mod N)
      (out @ [op_mul (lay M) R p]) (a # xs @ [x])"
    using out(2) Rp(1) c2 list_all2_appendI [OF out(2), of "[op_mul (lay M) R p]" "[x]"] by simp
  ultimately show ?case unfolding N_def by blast
qed

end

context inverting_layer
begin

lemma batchinv_value:
  assumes M: "ok M" and as: "\<forall>a\<in>set as. residue (lay M) a" and c: "\<forall>c'. c = Some c' \<longrightarrow> residue (lay M) c'"
    and res: "batchinv (lay M) as c = Some rs"
  shows "list_all2 (\<lambda>r a. residue (lay M) r \<and>
      (val M r * val M a) mod modulus (lay M) = (case c of None \<Rightarrow> 1 | Some c \<Rightarrow> val M c) mod modulus (lay M)) rs as"
proof (cases as)
  case Nil
  then show ?thesis using res by (simp add: batchinv_def)
next
  case (Cons a xs)
  define N where "N = modulus (lay M)"
  define C where "C = (case c of None \<Rightarrow> 1 | Some c \<Rightarrow> val M c)"
  define p where "p = last (prefix_products (lay M) a xs)"
  have a: "residue (lay M) a" "\<forall>x\<in>set xs. residue (lay M) x" using as Cons by simp_all
  have p: "residue (lay M) p"
    using prefix_products_last [OF M a] by (simp add: p_def)
  obtain R where R: "op_inv (lay M) p = Some R"
    and rs: "rs = batch_back (lay M) (case c of None \<Rightarrow> R | Some c \<Rightarrow> op_mul (lay M) R c)
        (tl (rev (prefix_products (lay M) a xs))) (rev xs) []"
    using res Cons by (auto simp: batchinv_def Let_def bind_eq_Some_conv simp flip: p_def)
  define R' where "R' = (case c of None \<Rightarrow> R | Some c \<Rightarrow> op_mul (lay M) R c)"
  note inv = inv_some [OF M p R]
  have "residue (lay M) R' \<and> (val M R' * val M p) mod N = C mod N"
  proof (cases c)
    case None
    then show ?thesis using inv by (simp add: R'_def C_def N_def)
  next
    case (Some c')
    have m: "residue (lay M) (op_mul (lay M) R c')" "val M (op_mul (lay M) R c') = (val M R * val M c') mod N"
      using mul [OF M, of R c'] inv c Some by (simp_all add: N_def)
    have "(val M (op_mul (lay M) R c') * val M p) mod N = ((val M R * val M p) mod N * val M c') mod N"
      unfolding m(2) mod_mult_left_eq by (simp add: ac_simps)
    also have "\<dots> = val M c' mod N" using inv by (simp add: N_def mod_mult_left_eq)
    finally show ?thesis using m(1) Some by (simp add: R'_def C_def)
  qed
  then show ?thesis
    using batch_back_value [OF M a, of R' C "[]"] Cons rs by (auto simp: R'_def C_def N_def p_def)
qed

end

section \<open>Strong pseudoprimes to base two\<close>

context arith_layer
begin

lemma sprp_loop_iff:
  assumes M: "ok M" and r: "residue (lay M) r" and mone: "residue (lay M) mone"
  shows "sprp_loop (lay M) n r mone \<longleftrightarrow> (\<exists>i\<in>{1..n}. val M r ^ (2 ^ i) mod modulus (lay M) = val M mone)"
  using r
proof (induction n arbitrary: r)
  case (Suc n)
  define N where "N = modulus (lay M)"
  define s where "s = op_sqr (lay M) r"
  have s: "residue (lay M) s" "val M s = (val M r * val M r) mod N"
    using sqr [OF M Suc.prems] by (simp_all add: s_def N_def)
  have pw: "val M s ^ (2 ^ i) mod N = val M r ^ (2 ^ Suc i) mod N" for i
    unfolding s(2) power_mod by (simp add: power_mult_distrib mult_2 power_add)
  have eq: "api_equal s mone \<longleftrightarrow> val M r ^ (2 ^ Suc 0) mod N = val M mone"
    using val_inj [OF M s(1) mone] s(2) by (auto simp: api_equal_def power2_eq_square)
  have "sprp_loop (lay M) (Suc n) r mone \<longleftrightarrow> api_equal s mone \<or> sprp_loop (lay M) n s mone"
    by (simp add: s_def Let_def)
  also have "\<dots> \<longleftrightarrow> val M r ^ (2 ^ Suc 0) mod N = val M mone
      \<or> (\<exists>i\<in>{1..n}. val M r ^ (2 ^ Suc i) mod N = val M mone)"
    using Suc.IH [OF s(1)] by (simp only: eq N_def pw [unfolded N_def])
  also have "\<dots> \<longleftrightarrow> (\<exists>i\<in>{1..Suc n}. val M r ^ (2 ^ i) mod N = val M mone)"
  proof -
    have "{1..Suc n} = insert (Suc 0) (Suc ` {1..n})" by (auto simp: image_Suc_atLeastAtMost)
    then show ?thesis by (simp only: bex_simps)
  qed
  finally show ?case by (simp add: N_def)
qed simp

lemma minusone_value:
  assumes M: "ok M" and N: "1 < modulus (lay M)"
  shows "residue (lay M) (neg (lay M) (op_set1 (lay M)))"
    "val M (neg (lay M) (op_set1 (lay M))) = modulus (lay M) - 1"
proof -
  note n = neg_value [OF M conjunct1 [OF set1 [OF M]]]
  show "residue (lay M) (neg (lay M) (op_set1 (lay M)))" by (rule n)
  have "(- 1) mod modulus (lay M) = modulus (lay M) - 1" using N by (simp add: zmod_minus1)
  then show "val M (neg (lay M) (op_set1 (lay M))) = modulus (lay M) - 1"
    using n(2) set1 [OF M] N by (simp add: mod_minus_eq)
qed

end

lemma odd_modulus_split:
  fixes m :: u64
  assumes "odd (uint m)" "1 < uint m"
  obtains k d where "Integer_ctz [drop_bit 1 (m - 1)] = Some k" "drop_bit k (drop_bit 1 (m - 1)) = d"
    "odd (unat d)" "uint m - 1 = int (unat d * 2 ^ Suc k)"
proof -
  define w where "w = drop_bit 1 (m - 1)"
  have w: "uint w = (uint m - 1) div 2"
    using assms(2) uint_sub64_no_wrap [of 1 m] by (simp add: w_def uint_drop_bit64 word_le_def)
  have two: "uint m - 1 = 2 * uint w" unfolding w using assms(1) by simp
  then have "uint w \<noteq> 0" using assms(2) by auto
  then obtain k where k: "Integer_ctz [w] = Some k" "2 ^ k dvd uint w" "odd (uint w div 2 ^ k)"
    using Integer_ctz_value [of "[w]"] by auto
  define d where "d = drop_bit k w"
  have d: "uint d = uint w div 2 ^ k" by (simp add: d_def uint_drop_bit64)
  have "odd (int (unat d))" using k(3) by (simp only: d flip: uint_nat) simp
  moreover have "uint w = uint d * 2 ^ k" using k(2) by (simp add: d)
  then have "uint m - 1 = int (unat d * 2 ^ Suc k)" using two by (simp add: uint_nat del: of_nat_unat)
  ultimately show thesis using that k(1) by (simp only: d_def w_def even_of_nat) blast
qed

context arith_layer
begin

lemma sprp2_value:
  assumes M: "ok M" and N: "1 < modulus (lay M)" "odd (modulus (lay M))"
  shows "\<exists>b k d. is_strong_pseudoprime_base2 (lay M) = Some b \<and> odd d \<and> modulus (lay M) - 1 = int (d * 2 ^ Suc k)
    \<and> (b \<longleftrightarrow> 2 ^ d mod modulus (lay M) = 1 \<or> 2 ^ d mod modulus (lay M) = modulus (lay M) - 1
        \<or> (\<exists>i\<in>{1..<k + of_bool (modulus (lay M) mod 8 \<noteq> 1 \<and> modulus (lay M) mod 8 \<noteq> 7)}.
              2 ^ (d * 2 ^ i) mod modulus (lay M) = modulus (lay M) - 1))"
proof -
  define m where "m = op_m (lay M)"
  have m: "odd (uint m)" "1 < uint m" using N by (simp_all add: m_def modulus_def)
  obtain k d where k: "Integer_ctz [drop_bit 1 (m - 1)] = Some k" "drop_bit k (drop_bit 1 (m - 1)) = d"
    "odd (unat d)" "uint m - 1 = int (unat d * 2 ^ Suc k)"
    using m by (rule odd_modulus_split)
  define mone where "mone = neg (lay M) (op_set1 (lay M))"
  note mone = minusone_value [OF M N(1), folded mone_def]
  obtain r where r: "pow2_Integer (lay M) [d] = Some r" "residue (lay M) r" "val M r = 2 ^ unat d mod modulus (lay M)"
  proof -
    have "nvalue (take (size_in_words [d]) [d]) = unat d" by (simp add: size_in_words_def)
    then show thesis using that pow2_value [OF M, of "take (size_in_words [d]) [d]"] by (auto simp: pow2_Integer_def)
  qed
  have low3: "uint (m AND 7) = uint m mod 8"
  proof -
    have "m AND 7 = take_bit 3 m" by (simp add: take_bit_eq_mask mask_eq_exp_minus_1)
    then show ?thesis by (simp add: unsigned_take_bit_eq take_bit_eq_mod [where 'a = int])
  qed
  define c where "c = (modulus (lay M) mod 8 \<noteq> 1 \<and> modulus (lay M) mod 8 \<noteq> 7)"
  have c: "(m AND 7 = 1 \<or> m AND 7 = 7) \<longleftrightarrow> \<not> c"
    using low3 by (simp add: c_def word_uint_eq_iff modulus_def flip: m_def)
  have po2: "nat ((if m AND 7 = 1 \<or> m AND 7 = 7 then 0 else 1) + int k - 1) = k + of_bool c - 1"
    unfolding c by (cases c) (simp_all add: nat_diff_distrib)
  define b where "b = (op_is1 (lay M) r \<or> api_equal r mone \<or> sprp_loop (lay M) (k + of_bool c - 1) r mone)"
  have "is_strong_pseudoprime_base2 (lay M) = Some b"
    unfolding is_strong_pseudoprime_base2_def Let_def m_def [symmetric] k(1,2) Option.bind.simps r(1) mone_def [symmetric] po2
    by (simp add: b_def)
  moreover have "op_is1 (lay M) r \<longleftrightarrow> 2 ^ unat d mod modulus (lay M) = 1"
    using is1 [OF M N(1) r(2)] r(3) by simp
  moreover have "api_equal r mone \<longleftrightarrow> 2 ^ unat d mod modulus (lay M) = modulus (lay M) - 1"
    using val_inj [OF M r(2) mone(1)] r(3) mone(2) by (auto simp: api_equal_def)
  moreover have "sprp_loop (lay M) (k + of_bool c - 1) r mone \<longleftrightarrow>
      (\<exists>i\<in>{1..<k + of_bool c}. 2 ^ (unat d * 2 ^ i) mod modulus (lay M) = modulus (lay M) - 1)"
  proof -
    have "{1..k + of_bool c - 1} = {1..<k + of_bool c}" by auto
    then show ?thesis
      unfolding sprp_loop_iff [OF M r(2) mone(1)] r(3) mone(2) power_mod by (simp add: power_mult)
  qed
  ultimately show ?thesis using k(3,4) unfolding b_def c_def m_def modulus_def by blast
qed

text \<open>A modulus that passes the test is a probable prime of Fermat's kind.\<close>

lemma sprp2_fermat:
  assumes M: "ok M" and N: "1 < modulus (lay M)" "odd (modulus (lay M))"
    and b: "is_strong_pseudoprime_base2 (lay M) = Some True"
  shows "2 ^ nat (modulus (lay M) - 1) mod modulus (lay M) = 1"
proof -
  define n where "n = modulus (lay M)"
  obtain k d where d: "n - 1 = int (d * 2 ^ Suc k)"
    and pr: "2 ^ d mod n = 1 \<or> 2 ^ d mod n = n - 1
      \<or> (\<exists>i\<in>{1..<k + of_bool (n mod 8 \<noteq> 1 \<and> n mod 8 \<noteq> 7)}. 2 ^ (d * 2 ^ i) mod n = n - 1)"
    using sprp2_value [OF M N, folded n_def] unfolding b option.inject by blast
  have n: "1 < n" using N by (simp add: n_def)
  have minus: "x ^ (2 * e) mod n = 1" if "x mod n = n - 1" "0 < e" for x e
  proof -
    have "x mod n = (- 1) mod n" using that(1) n by (simp add: zmod_minus1)
    then have "x ^ (2 * e) mod n = (- 1) ^ (2 * e) mod n" by (metis power_mod)
    then show ?thesis using n by simp
  qed
  have e: "nat (n - 1) = d * 2 ^ Suc k" unfolding d by (rule nat_int)
  consider "2 ^ d mod n = 1" | i where "i \<le> k" "2 ^ (d * 2 ^ i) mod n = n - 1"
  proof -
    have "i \<le> k" if "i \<in> {1..<k + of_bool (n mod 8 \<noteq> 1 \<and> n mod 8 \<noteq> 7)}" for i
      using that by (simp add: of_bool_def split: if_splits)
    with pr that show thesis by (metis le0 mult.right_neutral power_0)
  qed
  then have "2 ^ (d * 2 ^ Suc k) mod n = 1"
  proof cases
    case 1
    then have "(2 ^ d) ^ (2 ^ Suc k) mod n = 1 ^ (2 ^ Suc k) mod n" using n by (metis mod_pos_pos_trivial power_mod zero_le_one)
    then show ?thesis using n by (simp only: power_mult) simp
  next
    case 2
    have "d * 2 ^ Suc k = d * 2 ^ i * (2 * 2 ^ (k - i))" using 2(1) by (simp flip: power_add)
    then show ?thesis using minus [OF 2(2), of "2 ^ (k - i)"] by (simp only: power_mult) simp
  qed
  then show ?thesis by (simp only: e flip: n_def)
qed

end

section \<open>Division by a small constant\<close>

text \<open>The exact quotient of \<open>a + k * m\<close> is a residue and a quotient of the class of \<open>a\<close>.\<close>

lemma exact_quotient:
  fixes n t a m :: u64
  assumes n: "odd (uint n)" and a: "uint a < uint m" and k: "0 \<le> k" "k < uint n"
    and t: "uint t = (uint a + k * uint m) mod W64" and dvd: "uint n dvd uint a + k * uint m"
  shows "reduce_multiple64 n t < m" "(uint n * uint (reduce_multiple64 n t)) mod uint m = uint a"
proof -
  define q where "q = (uint a + k * uint m) div uint n"
  have n0: "0 < uint n" using n by (rule odd_pos64)
  have s: "uint a + k * uint m = uint n * q" using dvd by (simp add: q_def)
  have "k * uint m \<le> (uint n - 1) * uint m" using k by (intro mult_right_mono) simp_all
  then have "uint n * q < uint n * uint m" unfolding s [symmetric] using a by (simp add: algebra_simps)
  then have q_lt: "q < uint m" using n0 by simp
  have "0 \<le> uint a + k * uint m" using k by simp
  then have q0: "0 \<le> q" unfolding s using n0 by (simp add: zero_le_mult_iff)
  have "uint (reduce_multiple64 n t) = (uint (invmod_ct n) * (uint n * q)) mod W64"
    by (simp add: reduce_multiple64_def uint_mult64 t s mod_simps mult.commute)
  also have "\<dots> = q mod W64" by (rule inverse_cancel [OF invmod_ct_value [OF n]])
  also have "\<dots> = q" using q0 q_lt uint_lt64 [of m] by (intro mod_W64_id) linarith+
  finally have r: "uint (reduce_multiple64 n t) = q" .
  show "reduce_multiple64 n t < m" using q_lt by (simp add: word_less_def r)
  have "(uint n * q) mod uint m = (uint a + uint m * k) mod uint m" using s by (simp add: mult.commute)
  then show "(uint n * uint (reduce_multiple64 n t)) mod uint m = uint a"
    unfolding r using a by simp
qed

lemma uint_add_multiple:
  fixes a m k :: u64
  shows "uint (a + m) = (uint a + 1 * uint m) mod W64"
    "uint (a + m + m) = (uint a + 2 * uint m) mod W64"
    "uint (a + m * k) = (uint a + uint k * uint m) mod W64"
proof -
  show "uint (a + m) = (uint a + 1 * uint m) mod W64" by (simp add: uint_add64)
  show "uint (a + m + m) = (uint a + 2 * uint m) mod W64"
    by (simp only: uint_add64 mod_add_left_eq mod_add_right_eq mult_2 add.assoc)
  show "uint (a + m * k) = (uint a + uint k * uint m) mod W64"
    by (simp only: uint_add64 uint_mult64 mod_add_right_eq mult.commute)
qed

lemma mod_n_single: "uint (mod_n n [a]) = uint a mod uint n"
  by (simp add: uint_mod_distrib)

lemma mod3_cases: "(x :: int) mod 3 = 0 \<or> x mod 3 = 1 \<or> x mod 3 = 2"
  by presburger

lemma div3_value:
  assumes a: "a < op_m me"
  shows "uint (op_m me) mod 3 = 0 \<Longrightarrow> div3 me a = None"
    and "uint (op_m me) mod 3 \<noteq> 0 \<Longrightarrow> \<exists>r. div3 me a = Some r \<and> r < op_m me
      \<and> (3 * uint r) mod uint (op_m me) = uint a"
proof -
  define m where "m = op_m me"
  have an: "uint (mod_n 3 [a]) = uint a mod 3" and mn: "uint (mod_n 3 [m]) = uint m mod 3"
    using mod_n_single [of 3] by simp_all
  show "div3 me a = None" if "uint (op_m me) mod 3 = 0"
    using that mn by (simp add: div3_def Let_def uint_0_iff m_def)
  show "\<exists>r. div3 me a = Some r \<and> r < op_m me \<and> (3 * uint r) mod uint (op_m me) = uint a"
    if m0: "uint (op_m me) mod 3 \<noteq> 0"
  proof -
    have lt: "uint a < uint m" using a by (simp add: m_def word_less_def)
    define k :: int where "k = (if uint a mod 3 = 0 then 0 else if uint a mod 3 + uint m mod 3 = 3 then 1 else 2)"
    define t where "t = (if mod_n 3 [a] \<noteq> 0 then if mod_n 3 [a] + mod_n 3 [m] = 3 then a + m else a + m + m else a)"
    have z: "mod_n 3 [a] = 0 \<longleftrightarrow> uint a mod 3 = 0" using an by (simp add: word_uint_eq_iff)
    have "uint (mod_n 3 [a] + mod_n 3 [m]) = uint a mod 3 + uint m mod 3"
    proof (subst uint_add64_no_wrap)
      have "uint a mod 3 < 3" "uint m mod 3 < 3" by simp_all
      moreover have "6 \<le> W64" by (simp add: W64_def)
      ultimately show "uint (mod_n 3 [a]) + uint (mod_n 3 [m]) < W64" unfolding an mn by linarith
      show "uint (mod_n 3 [a]) + uint (mod_n 3 [m]) = uint a mod 3 + uint m mod 3" by (simp only: an mn)
    qed
    then have e: "mod_n 3 [a] + mod_n 3 [m] = 3 \<longleftrightarrow> uint a mod 3 + uint m mod 3 = 3"
      by (simp add: word_uint_eq_iff)
    have "uint t = (uint a + k * uint m) mod W64"
    proof -
      consider "uint a mod 3 = 0" | "uint a mod 3 \<noteq> 0" "uint a mod 3 + uint m mod 3 = 3"
        | "uint a mod 3 \<noteq> 0" "uint a mod 3 + uint m mod 3 \<noteq> 3" by blast
      then show ?thesis
      proof cases
        case 1
        then have "t = a" "k = 0" using z by (simp_all add: t_def k_def)
        then show ?thesis by simp
      next
        case 2
        then have "t = a + m" "k = 1" unfolding t_def k_def using z e by simp_all
        then show ?thesis by (simp only: uint_add_multiple(1))
      next
        case 3
        then have "t = a + m + m" "k = 2" unfolding t_def k_def using z e by simp_all
        then show ?thesis by (simp only: uint_add_multiple(2))
      qed
    qed
    moreover have "3 dvd uint a + k * uint m"
    proof -
      have "(uint a + k * uint m) mod 3 = (uint a mod 3 + k * (uint m mod 3)) mod 3"
        by (rule mod_add_cong [OF mod_mod_trivial [symmetric] mod_mult_right_eq [symmetric]])
      moreover have "uint a mod 3 \<in> {0, 1, 2}" "uint m mod 3 \<in> {1, 2}"
        using m0 mod3_cases [of "uint a"] mod3_cases [of "uint m"] unfolding m_def by blast+
      ultimately have "(uint a + k * uint m) mod 3 = 0" unfolding k_def by (elim insertE emptyE) simp_all
      then show ?thesis by (rule mod_0_imp_dvd)
    qed
    moreover have "0 \<le> k" "k < 3" by (simp_all add: k_def)
    moreover have "uint (3 :: u64) = 3" "odd (3 :: int)" by simp_all
    ultimately have "reduce_multiple64 3 t < m" "(3 * uint (reduce_multiple64 3 t)) mod uint m = uint a"
      using exact_quotient [of 3 a m k t] lt by metis+
    moreover have "div3 me a = Some (reduce_multiple64 3 t)"
    proof -
      have "mod_n 3 [m] \<noteq> 0" using m0 mn by (metis m_def uint_0_eq)
      then show ?thesis unfolding div3_def Let_def m_def [symmetric] t_def [symmetric] by (simp only: if_False)
    qed
    ultimately show ?thesis by (simp add: m_def)
  qed
qed

lemma divn_value:
  assumes n: "odd n" "1 < n" "n < 2 ^ 16" and a: "a < op_m me"
  shows "\<not> coprime (int n) (uint (op_m me)) \<Longrightarrow> divn n me a = Some None"
    and "coprime (int n) (uint (op_m me)) \<Longrightarrow> \<exists>r. divn n me a = Some (Some r) \<and> r < op_m me
      \<and> (int n * uint r) mod uint (op_m me) = uint a"
proof -
  define m where "m = op_m me"
  define nw :: u64 where "nw = of_nat n"
  have W: "(2 :: int) ^ 32 < W64" by (simp add: W64_def)
  have nlt: "int n < 2 ^ 16" using n(3) by (metis of_nat_less_iff of_nat_numeral of_nat_power)
  have nw: "uint nw = int n" using nlt W by (simp add: nw_def uint_of_nat64)
  define an mn where "an = mod_n nw [a]" and "mn = mod_n nw [m]"
  have an: "uint an = uint a mod int n" and mn: "uint mn = uint m mod int n"
    using mod_n_single [of nw] by (simp_all only: an_def mn_def nw)
  have n0: "0 < int n" using n(2) by simp
  have mn_lt: "uint mn < int n" using n0 mn by simp
  have mn_nat: "int (unat mn) = uint mn" by simp
  with mn_lt have mn_idx: "unat mn < n" by linarith
  define v where "v = minus_inverse_mod_n (int n) (uint mn)"
  have tab: "array_map n (\<lambda>n k. minus_inverse_mod_n (int n) (int k)) n [] ! unat mn = v"
    using mn_idx mn_nat by (simp add: array_map_value v_def)
  have v: "0 \<le> v" "v \<le> int n" using minus_inverse_mod_n_range [of "uint mn" "int n"] mn_lt by (simp_all add: v_def)
  have cop: "coprime (int n) (uint mn) \<longleftrightarrow> coprime (int n) (uint m)"
    unfolding mn by (metis coprime_mod_right_iff n0 less_irrefl)
  have v0: "v = 0 \<longleftrightarrow> \<not> coprime (int n) (uint m)"
    using minus_inverse_mod_n_eq_0_iff [of "uint mn" "int n"] mn_lt n(2) cop by (simp add: v_def)
  show "divn n me a = Some None" if "\<not> coprime (int n) (uint (op_m me))"
    using that tab v0 by (simp add: divn_def Let_def m_def mn_def nw_def del: mod_n.simps)
  show "\<exists>r. divn n me a = Some (Some r) \<and> r < op_m me \<and> (int n * uint r) mod uint (op_m me) = uint a"
    if c: "coprime (int n) (uint (op_m me))"
  proof -
    define k where "k = (of_int v * an) mod nw"
    have kv: "uint k = (v * uint an) mod int n"
    proof -
      have "uint an \<le> int n" using pos_mod_bound [OF n0, of "uint a"] unfolding an by linarith
      then have "v * uint an \<le> int n * int n" using v by (intro mult_mono) simp_all
      also have "\<dots> \<le> 2 ^ 16 * 2 ^ 16" using nlt n0 by (intro mult_mono) simp_all
      finally have "v * uint an < W64" using W by simp
      moreover have "uint (of_int v :: u64) = v" using v nlt W by (simp add: uint_word_of_int W64_def)
      ultimately show ?thesis using v by (simp add: k_def uint_mod_distrib nw uint_mult64)
    qed
    then have k: "0 \<le> uint k" "uint k < int n" using n0 by simp_all
    have vm: "(v * uint m + 1) mod int n = 0"
    proof -
      have "(v * uint mn + 1) mod int n = 0"
        using minus_inverse_mod_n_value [of "uint mn" "int n"] mn_lt cop c by (simp add: v_def m_def)
      then show ?thesis unfolding mn by (metis mod_add_left_eq mod_mult_right_eq)
    qed
    have dvd: "int n dvd uint a + uint k * uint m"
    proof -
      have "(uint a + uint k * uint m) mod int n = (uint a + (v * uint a) * uint m) mod int n"
        unfolding kv an by (metis mod_add_right_eq mod_mult_left_eq mod_mult_right_eq)
      also have "uint a + (v * uint a) * uint m = uint a * (v * uint m + 1)" by (simp add: algebra_simps)
      also have "\<dots> mod int n = 0" using vm by (metis mod_mult_right_eq mult_zero_right mod_0)
      finally show ?thesis by (simp add: dvd_eq_mod_eq_0)
    qed
    have chk: "(an + k * mn) mod nw = 0"
    proof -
      have "uint k * uint mn \<le> int n * int n" using k mn_lt n0 by (intro mult_mono) simp_all
      also have "\<dots> \<le> 2 ^ 16 * 2 ^ 16" using nlt n0 by (intro mult_mono) simp_all
      finally have b: "uint k * uint mn \<le> 2 ^ 32" by simp
      have "uint an < 2 ^ 16" using an n0 nlt pos_mod_bound [of "int n" "uint a"] by linarith
      with b have s: "uint an + uint k * uint mn < W64" "uint k * uint mn < W64" by (simp_all add: W64_def)
      then have "uint (an + k * mn) = uint an + uint k * uint mn"
        by (simp add: uint_add64_no_wrap uint_mult_no_wrap)
      then have "uint ((an + k * mn) mod nw) = (uint a + uint k * uint m) mod int n"
        unfolding uint_mod_distrib nw by (simp only: an mn) (rule mod_add_cong [OF mod_mod_trivial mod_mult_right_eq])
      then show ?thesis using dvd by (simp add: word_uint_eq_iff)
    qed
    define t where "t = (if k = 0 then a else if k = 1 then a + m else if k = 2 then a + m + m else a + m * k)"
    have t: "uint t = (uint a + uint k * uint m) mod W64"
    proof -
      consider "k = 0" | "k = 1" | "k = 2" | "k \<noteq> 0" "k \<noteq> 1" "k \<noteq> 2" by blast
      then show ?thesis
      proof cases
        case 2
        then show ?thesis by (simp add: t_def uint_add64)
      next
        case 3
        then show ?thesis using uint_add_multiple(2) [of a m] by (simp add: t_def)
      qed (simp_all add: t_def uint_add_multiple(3))
    qed
    have "odd (uint nw)" using n(1) by (simp add: nw)
    note q = exact_quotient [OF this _ k(1), of a m t]
    have "reduce_multiple64 nw t < m" "(int n * uint (reduce_multiple64 nw t)) mod uint m = uint a"
      using q a k(2) t dvd by (simp_all add: nw m_def word_less_def)
    moreover have "divn n me a = Some (Some (reduce_multiple64 nw t))"
      using v0 c chk
      unfolding divn_def Let_def m_def [symmetric] nw_def [symmetric] mn_def [symmetric] an_def [symmetric]
        tab k_def [symmetric] t_def [symmetric] by simp
    ultimately show ?thesis by (auto simp: m_def)
  qed
qed

end
