(* ===== verification/Mod64.thy ===== *)
theory Mod64
  imports ModLayer
begin

text \<open>
  The class \<open>arithxx_mod64::Modulus\<close> of \<^verbatim>\<open>utils/arithxx/mod64.hpp\<close> and \<^verbatim>\<open>mod64.cpp\<close>: residues modulo a
  one word modulus, stored as they are.
\<close>

section \<open>Definitions\<close>

record Modulus64 =
  m64 :: u64

definition mod64_valid :: "u64 \<Rightarrow> bool" where
  "mod64_valid m = True"

definition mod64_add1 :: "Modulus64 \<Rightarrow> u64 \<Rightarrow> u64" where
  "mod64_add1 M a = (let r = a + 1 in if r = m64 M then 0 else r)"

definition mod64_add :: "Modulus64 \<Rightarrow> u64 \<Rightarrow> u64 \<Rightarrow> u64" where
  "mod64_add M a b = u64arith_addmod_1_1 a b (m64 M)"

definition mod64_add_u64 :: "Modulus64 \<Rightarrow> u64 \<Rightarrow> u64 \<Rightarrow> u64" where
  "mod64_add_u64 M a b = u64arith_addmod_1_1 a (b mod m64 M) (m64 M)"

definition mod64_sub :: "Modulus64 \<Rightarrow> u64 \<Rightarrow> u64 \<Rightarrow> u64" where
  "mod64_sub M a b = u64arith_submod_1_1 a b (m64 M)"

definition mod64_sub1 :: "Modulus64 \<Rightarrow> u64 \<Rightarrow> u64" where
  "mod64_sub1 M a = u64arith_submod_1_1 a 1 (m64 M)"

definition mod64_sub_u64 :: "Modulus64 \<Rightarrow> u64 \<Rightarrow> u64 \<Rightarrow> u64" where
  "mod64_sub_u64 M a b = u64arith_submod_1_1 a (b mod m64 M) (m64 M)"

definition mod64_div2 :: "Modulus64 \<Rightarrow> u64 \<Rightarrow> u64 option" where
  "mod64_div2 M a = (if m64 M mod 2 = 0 then None else Some (u64arith_div2mod a (m64 M)))"

text \<open>A zero modulus has no remainders; the value zero stands for it.\<close>

definition mod64_mul :: "Modulus64 \<Rightarrow> u64 \<Rightarrow> u64 \<Rightarrow> u64" where
  "mod64_mul M a b =
     (let (t1, t2) = u64arith_mul_1_1_2 a b
      in case u64arith_divr_2_1_1 t1 t2 (m64 M) of Some r \<Rightarrow> r | None \<Rightarrow> 0)"

definition mod64_sqr :: "Modulus64 \<Rightarrow> u64 \<Rightarrow> u64" where
  "mod64_sqr M a =
     (let (t1, t2) = u64arith_mul_1_1_2 a a
      in case u64arith_divr_2_1_1 t1 t2 (m64 M) of Some r \<Rightarrow> r | None \<Rightarrow> 0)"

definition mod64_redcsemi_u64_not0 :: "Modulus64 \<Rightarrow> u64 \<Rightarrow> u64 \<Rightarrow> u64" where
  "mod64_redcsemi_u64_not0 M a invm =
     (let tlow = a * invm;
          (tlow, thigh) = u64arith_mul_1_1_2 tlow (m64 M)
      in thigh + 1)"

text \<open>
  The extended Euclidean algorithm of \<open>inv\<close>; \<open>u1\<close> and \<open>v1\<close> are signed words. The function ends
  because the second remainder is smaller after every round.
\<close>

function mod64_inv_loop :: "u64 \<Rightarrow> u64 \<Rightarrow> u64 \<Rightarrow> u64 \<Rightarrow> u64 \<times> u64" where
  "mod64_inv_loop u1 u2 v1 v2 =
     (if v2 \<noteq> 0 then
        let q = u2 div v2;
            u1 = u1 - q * v1;
            u2 = u2 - q * v2
        in if u2 = 0 then (v1, v2)
           else let q = v2 div u2;
                    v1 = v1 - q * u1;
                    v2 = v2 - q * u2
                in mod64_inv_loop u1 u2 v1 v2
      else (u1, u2))"
  by pat_completeness auto
termination
proof (relation "measure (\<lambda>(u1, u2, v1, v2). unat v2)", goal_cases)
  case (2 u1 u2 v1 v2 q u1' u2' q' v1' v2')
  then have "u2' = u2 mod v2" "v2' = v2 mod u2'" "u2' \<noteq> 0" "v2 \<noteq> 0"
    by (simp_all add: minus_div_mult_eq_mod)
  then have "unat v2' < unat u2'" "unat u2' < unat v2" using unat_mod_less by blast+
  then show ?case by simp
qed simp

declare mod64_inv_loop.simps [simp del]

definition mod64_inv :: "Modulus64 \<Rightarrow> u64 \<Rightarrow> u64 option" where
  "mod64_inv M sp =
     (let s = sp; t = m64 M
      in if s = 0 then None
         else if s = 1 then Some (api_set1 t)
         else let u1 = 1; u2 = s; v1 = - (t div s); v2 = t mod s
              in if v2 = 1 then Some (api_set_u64 t (v1 + t))
                 else let (u1, u2) = mod64_inv_loop u1 u2 v1 v2
                      in if u2 \<noteq> 1 then None
                         else Some (api_set_u64 t (if sint u1 < 0 then u1 + t else u1)))"

definition even_inv_lookup_table :: "u64 list" where
  "even_inv_lookup_table =
     [1,  43,  77,  55,  57, 35, 69, 111, 113, 27,  61,  39, 41,  19, 53, 95, 97,
      11, 45,  23,  25,  3,  37, 79, 81,  123, 29,  7,   9,  115, 21, 63, 65, 107,
      13, 119, 121, 99,  5,  47, 49, 91,  125, 103, 105, 83, 117, 31, 33, 75, 109,
      87, 89,  67,  101, 15, 17, 59, 93,  71,  73,  51,  85, 127]"

text \<open>\<open>Some None\<close> is the return value \<open>false\<close>, \<open>None\<close> a recursion that does not end.\<close>

partial_function (option) mod64_inv_powerof2 :: "u64 \<Rightarrow> u64 \<Rightarrow> u64 option option" where
  "mod64_inv_powerof2 x y =
     (if y AND 1 = 0 then Some None
      else if drop_bit 4 x = 0 then Some (Some (api_set_u64 x y))
      else if drop_bit 8 x = 0
        then Some (Some (api_set_u64 x (even_inv_lookup_table ! unat (drop_bit 1 (y - 1)) AND (x - 1))))
      else do {
        c \<leftarrow> u64arith_ctz x;
        let h = drop_bit (c div 2) x;
        r \<leftarrow> mod64_inv_powerof2 h (api_set_u64 h (y AND (h - 1)));
        (case r of None \<Rightarrow> Some None
         | Some t \<Rightarrow> Some (Some (api_set_u64 x ((2 * t - t * t * y) AND (x - 1)))))
      })"

declare mod64_inv_powerof2.simps [code]

definition mod64_inv_odd :: "Modulus64 \<Rightarrow> u64 \<Rightarrow> u64 option" where
  "mod64_inv_odd M a = mod64_inv M a"

text \<open>The record of operations for the functions of the base class.\<close>

definition mod64_layer :: "Modulus64 \<Rightarrow> layer" where
  "mod64_layer M =
     \<lparr>op_m = m64 M, op_set1 = api_set1 (m64 M), op_set = api_set_u64 (m64 M), op_get = (\<lambda>r. r),
      op_is1 = (\<lambda>a. a = 1), op_add = mod64_add M, op_sub = mod64_sub M, op_add1 = mod64_add1 M,
      op_mul = mod64_mul M, op_sqr = mod64_sqr M, op_inv = mod64_inv M,
      op_even_moduli_allowed = True, op_overflow_bits = 0\<rparr>"

section \<open>The operations compute modulo m\<close>

lemma mod64_mul_value:
  assumes "a < m64 M" "b < m64 M"
  shows "uint (mod64_mul M a b) = (uint a * uint b) mod uint (m64 M)"
proof -
  obtain t1 t2 where t: "u64arith_mul_1_1_2 a b = (t1, t2)" by (meson surj_pair)
  have dw: "dw t1 t2 = uint a * uint b" using t by (rule mul_1_1_2_value)
  have "uint a * uint b < uint (m64 M) * W64"
    using assms by (intro mult_strict_mono) (auto simp: word_less_def order_le_less_trans [OF uint_nonnegative])
  then have "t2 < m64 M" using dw_high_lt [of t1 t2 "m64 M"] dw by simp
  then show ?thesis
    using divqr_2_1_1_value [of t2 "m64 M" t1] by (auto simp: mod64_mul_def t u64arith_divr_2_1_1_def dw)
qed

lemma mod64_sqr_eq: "mod64_sqr M a = mod64_mul M a a"
  by (simp add: mod64_sqr_def mod64_mul_def)

lemma mod64_add1_value:
  assumes "a < m64 M"
  shows "uint (mod64_add1 M a) = (uint a + 1) mod uint (m64 M)"
proof -
  have lt: "uint a + 1 \<le> uint (m64 M)" using assms by (simp add: word_less_def)
  then have "uint a + 1 < W64" using uint_lt64 [of "m64 M"] by linarith
  then have u: "uint (a + 1) = uint a + 1" by (simp add: uint_add64)
  show ?thesis
  proof (cases "uint a + 1 = uint (m64 M)")
    case True
    then show ?thesis using u by (simp add: mod64_add1_def Let_def word_uint_eq_iff)
  next
    case False
    then have "(uint a + 1) mod uint (m64 M) = uint a + 1"
      using lt by (intro mod_pos_pos_trivial) (simp_all add: add_nonneg_nonneg)
    with False show ?thesis using u by (simp add: mod64_add1_def Let_def word_uint_eq_iff)
  qed
qed

definition mod64_ok :: "Modulus64 \<Rightarrow> bool" where
  "mod64_ok M \<longleftrightarrow> m64 M \<noteq> 0"

definition mod64_value :: "Modulus64 \<Rightarrow> u64 \<Rightarrow> int" where
  "mod64_value M a = uint a"

lemmas mod64_layer_simps =
  mod64_layer_def residue_def modulus_def mod64_value_def mod64_ok_def

lemma mod64_layer_sel [simp]:
  "op_m (mod64_layer M) = m64 M" "op_set1 (mod64_layer M) = api_set1 (m64 M)"
  "op_set (mod64_layer M) = api_set_u64 (m64 M)" "op_get (mod64_layer M) = (\<lambda>r. r)"
  "op_is1 (mod64_layer M) = (\<lambda>a. a = 1)" "op_add (mod64_layer M) = mod64_add M"
  "op_sub (mod64_layer M) = mod64_sub M" "op_add1 (mod64_layer M) = mod64_add1 M"
  "op_mul (mod64_layer M) = mod64_mul M" "op_sqr (mod64_layer M) = mod64_sqr M"
  "op_inv (mod64_layer M) = mod64_inv M" "op_even_moduli_allowed (mod64_layer M)"
  "op_overflow_bits (mod64_layer M) = 0"
  by (simp_all add: mod64_layer_def)

lemma residue_of_mod: "uint a = z mod uint m \<Longrightarrow> m \<noteq> 0 \<Longrightarrow> a < (m :: u64)"
  using uint_pos64 [of m] by (simp add: word_less_def)

interpretation mod64: arith_layer mod64_layer mod64_ok mod64_value
proof (unfold_locales, goal_cases)
  case (1 M)
  then show ?case using uint_pos64 [of "m64 M"] by (simp add: modulus_def mod64_ok_def)
next
  case (5 M a b k)
  then show ?case by (simp add: mod64_value_def)
next
  case (6 M)
  then show ?case using uint_pos64 [of "m64 M"]
    by (auto simp: mod64_layer_simps api_set1_def word_less_def word_uint_eq_iff)
next
  case (7 M s)
  then show ?case
    using residue_of_mod [of "api_set_u64 (m64 M) s" "uint s" "m64 M"]
    by (simp add: residue_def modulus_def mod64_value_def mod64_ok_def api_set_u64_def uint_mod_distrib)
next
  case (10 M a b)
  then show ?case
    using addmod_1_1_correct [of a "m64 M" b] residue_of_mod [of "mod64_add M a b" _ "m64 M"]
    by (simp add: residue_def modulus_def mod64_value_def mod64_ok_def mod64_add_def)
next
  case (11 M a b)
  then show ?case
    using submod_1_1_correct [of a "m64 M" b] residue_of_mod [of "mod64_sub M a b" _ "m64 M"]
    by (simp add: residue_def modulus_def mod64_value_def mod64_ok_def mod64_sub_def)
next
  case (12 M a)
  then show ?case
    using mod64_add1_value [of a M] residue_of_mod [of "mod64_add1 M a" _ "m64 M"]
    by (simp add: residue_def modulus_def mod64_value_def mod64_ok_def)
next
  case (13 M a b)
  then show ?case
    using mod64_mul_value [of a M b] residue_of_mod [of "mod64_mul M a b" _ "m64 M"]
    by (simp add: residue_def modulus_def mod64_value_def mod64_ok_def)
next
  case (14 M a)
  then show ?case
    using mod64_mul_value [of a M a] residue_of_mod [of "mod64_mul M a a" _ "m64 M"]
    by (simp add: residue_def modulus_def mod64_value_def mod64_ok_def mod64_sqr_eq)
qed (simp_all add: residue_def modulus_def mod64_value_def mod64_ok_def word_less_def word_uint_eq_iff)

section \<open>Inversion\<close>

lemma sint_of_small:
  assumes "2 * \<bar>z\<bar> < W64"
  shows "sint (word_of_int z :: u64) = z"
proof -
  have "2 * \<bar>z\<bar> < 2 * 2 ^ 63" using assms by (simp add: W64_def)
  then have "- (2 ^ 63) \<le> z" "z < 2 ^ 63" by linarith+
  then show ?thesis by (simp add: signed_of_int signed_take_bit_int_eq_self)
qed

lemma sint_sub_mult:
  fixes u v q :: u64
  assumes "2 * \<bar>sint u - uint q * sint v\<bar> < W64"
  shows "sint (u - q * v) = sint u - uint q * sint v"
proof -
  have "u - q * v = word_of_int (sint u - uint q * sint v)" by simp
  then show ?thesis using sint_of_small [OF assms] by simp
qed

text \<open>
  The invariant of the loop for the inverse of \<open>s\<close> modulo \<open>t\<close>: the cofactors have opposite signs and
  the combination of absolute values is \<open>t\<close>, which bounds them.
\<close>

definition inv_pair :: "int \<Rightarrow> int \<Rightarrow> int \<Rightarrow> int \<Rightarrow> int \<Rightarrow> int \<Rightarrow> bool" where
  "inv_pair s t U1 u2 V1 v2 \<longleftrightarrow>
     0 < v2 \<and> t dvd s * V1 - v2 \<and> U1 * V1 \<le> 0 \<and> \<bar>V1\<bar> * u2 + \<bar>U1\<bar> * v2 = t \<and> 2 * \<bar>V1\<bar> \<le> t"

lemma inv_pair_step:
  fixes s t U1 u2 V1 v2 :: int
  assumes p: "inv_pair s t U1 u2 V1 v2" and u: "t dvd s * U1 - u2" "0 \<le> u2"
    and r: "u2 mod v2 \<noteq> 0"
  defines "q \<equiv> u2 div v2"
  shows "inv_pair s t V1 v2 (U1 - q * V1) (u2 mod v2)"
proof -
  have v2: "0 < v2" and dv: "t dvd s * V1 - v2" and sg: "U1 * V1 \<le> 0"
    and sum: "\<bar>V1\<bar> * u2 + \<bar>U1\<bar> * v2 = t" using p by (auto simp: inv_pair_def)
  have q: "0 \<le> q" "u2 = q * v2 + u2 mod v2" using u(2) v2 by (simp_all add: q_def pos_imp_zdiv_nonneg_iff)
  have pos: "0 < u2 mod v2" using r v2 pos_mod_sign [OF v2, of u2] by linarith
  have ab: "\<bar>U1 - q * V1\<bar> = \<bar>U1\<bar> + q * \<bar>V1\<bar>" using sg q(1) by (rule abs_diff_opposite)
  have eq: "\<bar>U1 - q * V1\<bar> * v2 + \<bar>V1\<bar> * (u2 mod v2) = t"
  proof -
    have "\<bar>U1 - q * V1\<bar> * v2 + \<bar>V1\<bar> * (u2 mod v2) = \<bar>V1\<bar> * (q * v2 + u2 mod v2) + \<bar>U1\<bar> * v2"
      unfolding ab by (simp add: algebra_simps)
    also have "\<dots> = t" using sum q(2) by simp
    finally show ?thesis .
  qed
  have "u2 mod v2 < v2" using v2 by simp
  then have "2 \<le> v2" using pos by linarith
  then have "2 * \<bar>U1 - q * V1\<bar> \<le> \<bar>U1 - q * V1\<bar> * v2" by (simp add: mult.commute mult_right_mono)
  moreover have "0 \<le> \<bar>V1\<bar> * (u2 mod v2)" using pos by simp
  ultimately have bnd: "2 * \<bar>U1 - q * V1\<bar> \<le> t" using eq by linarith
  have "V1 * (U1 - q * V1) = U1 * V1 - q * (V1 * V1)" by (simp add: algebra_simps)
  moreover have "0 \<le> q * (V1 * V1)" using q(1) by simp
  ultimately have sg': "V1 * (U1 - q * V1) \<le> 0" using sg by linarith
  have "s * (U1 - q * V1) - u2 mod v2 = (s * U1 - u2) - q * (s * V1 - v2)"
    using q(2) by (simp add: algebra_simps)
  then have "t dvd s * (U1 - q * V1) - u2 mod v2" using u(1) dv by simp
  then show ?thesis using pos sg' eq bnd by (simp add: inv_pair_def algebra_simps)
qed

lemma mod64_inv_loop_value:
  assumes "mod64_inv_loop u1 u2 v1 v2 = (r1, r2)" "t < W64"
    and "t dvd s * sint u1 - uint u2" "2 * \<bar>sint u1\<bar> \<le> t"
    and "v2 \<noteq> 0 \<Longrightarrow> inv_pair s t (sint u1) (uint u2) (sint v1) (uint v2)"
  shows "uint r2 = gcd (uint u2) (uint v2) \<and> t dvd s * sint r1 - uint r2 \<and> 2 * \<bar>sint r1\<bar> \<le> t"
  using assms
proof (induction u1 u2 v1 v2 rule: mod64_inv_loop.induct)
  case (1 u1 u2 v1 v2)
  show ?case
  proof (cases "v2 = 0")
    case True
    then have "r1 = u1" "r2 = u2" using "1.prems"(1) by (subst (asm) mod64_inv_loop.simps; simp)+
    then show ?thesis using "1.prems" True by simp
  next
    case v2: False
    define q u1' u2' where "q = u2 div v2" and "u1' = u1 - q * v1" and "u2' = u2 - q * v2"
    have u2': "uint u2' = uint u2 mod uint v2"
      by (simp add: u2'_def q_def minus_div_mult_eq_mod uint_mod_distrib)
    have uq: "uint q = uint u2 div uint v2" by (simp add: q_def uint_div_distrib)
    note p = "1.prems"(5) [OF v2]
    show ?thesis
    proof (cases "u2' = 0")
      case True
      then have "(r1, r2) = (v1, v2)"
        using "1.prems"(1) v2 by (subst (asm) mod64_inv_loop.simps) (simp add: Let_def q_def u2'_def)
      moreover have "uint u2 mod uint v2 = 0" using True u2' by simp
      ultimately show ?thesis using p by (auto simp: inv_pair_def gcd_proj2_iff dvd_eq_mod_eq_0)
    next
      case u0: False
      have step: "inv_pair s t (sint v1) (uint v2) (sint u1 - uint q * sint v1) (uint u2')"
        using inv_pair_step [OF p "1.prems"(3) uint_nonnegative] u0 unfolding uq u2' [symmetric] by (simp add: uint_0_iff)
      then have b: "2 * \<bar>sint u1 - uint q * sint v1\<bar> \<le> t" by (simp add: inv_pair_def)
      then have s1: "sint u1' = sint u1 - uint q * sint v1"
        unfolding u1'_def using "1.prems"(2) by (intro sint_sub_mult) linarith
      note p1 = step [folded s1]
      define q' v1' v2' where "q' = v2 div u2'" and "v1' = v1 - q' * u1'" and "v2' = v2 - q' * u2'"
      have v2': "uint v2' = uint v2 mod uint u2'"
        by (simp add: v2'_def q'_def minus_div_mult_eq_mod uint_mod_distrib)
      have uq': "uint q' = uint v2 div uint u2'" by (simp add: q'_def uint_div_distrib)
      have loop: "mod64_inv_loop u1' u2' v1' v2' = (r1, r2)"
        using "1.prems"(1) v2 u0 by (subst (asm) mod64_inv_loop.simps)
          (simp add: Let_def q_def u1'_def u2'_def q'_def v1'_def v2'_def)
      have "inv_pair s t (sint u1') (uint u2') (sint v1') (uint v2')" if "v2' \<noteq> 0"
      proof -
        have dv: "t dvd s * sint v1 - uint v2" using p by (simp add: inv_pair_def)
        have "inv_pair s t (sint u1') (uint u2') (sint v1 - uint q' * sint u1') (uint v2')"
          using inv_pair_step [OF p1 dv uint_nonnegative] that unfolding uq' v2' [symmetric] by (simp add: uint_0_iff)
        moreover from this have "2 * \<bar>sint v1 - uint q' * sint u1'\<bar> \<le> t" by (simp add: inv_pair_def)
        then have "sint v1' = sint v1 - uint q' * sint u1'"
          unfolding v1'_def using "1.prems"(2) by (intro sint_sub_mult) linarith
        ultimately show ?thesis by simp
      qed
      moreover have "t dvd s * sint u1' - uint u2'" "2 * \<bar>sint u1'\<bar> \<le> t" using p1 by (simp_all add: inv_pair_def)
      moreover have "gcd (uint u2') (uint v2') = gcd (uint u2) (uint v2)"
        unfolding v2' u2' by (metis gcd.commute gcd_red_int)
      ultimately show ?thesis
        using "1.IH" [OF v2 q_def u1'_def u2'_def u0 q'_def v1'_def v2'_def loop "1.prems"(2)] by metis
    qed
  qed
qed

lemma inverse_mod_add:
  fixes s t r :: int
  assumes "t dvd s * r - 1"
  shows "((r + k * t) mod t * s) mod t = 1 mod t"
proof -
  have "((r + k * t) mod t * s) mod t = ((r + k * t) * s) mod t" by (rule mod_mult_left_eq)
  also have "(r + k * t) * s = s * r + t * (k * s)" by (simp add: algebra_simps)
  also have "\<dots> mod t = s * r mod t" by simp
  also have "\<dots> = 1 mod t" using assms by (simp only: mod_eq_dvd_iff)
  finally show ?thesis .
qed

lemma signed_wrap:
  fixes r m :: u64
  assumes "2 * \<bar>sint r\<bar> \<le> uint m"
  shows "uint (if sint r < 0 then r + m else r) = sint r + (if sint r < 0 then 1 else 0) * uint m"
proof -
  have r: "uint r = sint r mod W64" by (simp add: W64_def uint_sint take_bit_eq_mod [where 'a = int])
  show ?thesis
  proof (cases "sint r < 0")
    case True
    have "uint (r + m) = (sint r + uint m) mod W64" by (simp add: uint_add64 r mod_simps)
    also have "\<dots> = sint r + uint m"
      using True assms uint_lt64 [of m] by (intro mod_W64_id) linarith+
    finally show ?thesis using True by simp
  next
    case False
    then have "sint r mod W64 = sint r" using assms uint_lt64 [of m] by (intro mod_W64_id) linarith+
    then show ?thesis using False r by simp
  qed
qed

lemma mod64_inv_start:
  fixes m a :: u64
  assumes a: "a < m" "2 \<le> uint a"
  defines "t \<equiv> uint m" and "s \<equiv> uint a"
  shows "sint (- (m div a)) = - (t div s)"
    and "\<exists>r1 r2. mod64_inv_loop 1 a (- (m div a)) (m mod a) = (r1, r2) \<and> uint r2 = gcd s t
      \<and> t dvd s * sint r1 - uint r2 \<and> 2 * \<bar>sint r1\<bar> \<le> t"
proof -
  define v1 v2 where "v1 = - (m div a)" and "v2 = m mod a"
  have st: "s < t" "2 \<le> s" "t < W64" using a by (simp_all add: t_def s_def word_less_def)
  have dm: "s * (t div s) + t mod s = t" "0 \<le> t mod s" "0 \<le> t div s"
    using st by (simp_all add: pos_imp_zdiv_nonneg_iff)
  have "2 * (t div s) \<le> s * (t div s)" using st dm by (intro mult_right_mono) simp_all
  then have half: "2 * (t div s) \<le> t" using dm by linarith
  have "v1 = word_of_int (- (t div s))" by (simp add: v1_def t_def s_def flip: uint_div_distrib)
  then show sv1: "sint (- (m div a)) = - (t div s)"
    using sint_of_small [of "- (t div s)"] half st(3) dm(3) by (simp add: v1_def)
  have uv2: "uint v2 = t mod s" by (simp add: v2_def t_def s_def uint_mod_distrib)
  obtain r1 r2 where res: "mod64_inv_loop 1 a v1 v2 = (r1, r2)" by (meson surj_pair)
  have s1: "sint (1 :: u64) = 1" by simp
  have pair: "inv_pair s t (sint (1 :: u64)) (uint a) (sint v1) (uint v2)" if "v2 \<noteq> 0"
  proof -
    have "0 < t mod s" using that dm(2) uv2 by (metis order_less_le uint_0_iff)
    moreover have "t dvd s * (- (t div s)) - t mod s" using dm(1) by (intro dvdI [of _ _ "- 1"]) linarith
    ultimately show ?thesis
      unfolding inv_pair_def s1 sv1 [folded v1_def] uv2 using half dm by (simp add: s_def mult.commute)
  qed
  have "t dvd s * sint (1 :: u64) - uint a" "2 * \<bar>sint (1 :: u64)\<bar> \<le> t" using st by (simp_all add: s_def)
  note val = mod64_inv_loop_value [OF res st(3) this pair]
  have "uint r2 = gcd s (t mod s)" using val by (simp add: uv2 s_def)
  moreover have "t dvd s * sint r1 - uint r2" "2 * \<bar>sint r1\<bar> \<le> t" using val by blast+
  moreover have "gcd s (t mod s) = gcd s t" by (metis gcd.commute gcd_red_int)
  ultimately show "\<exists>r1 r2. mod64_inv_loop 1 a (- (m div a)) (m mod a) = (r1, r2) \<and> uint r2 = gcd s t
      \<and> t dvd s * sint r1 - uint r2 \<and> 2 * \<bar>sint r1\<bar> \<le> t"
    using res by (auto simp: v1_def v2_def)
qed

lemma mod64_inv_value:
  fixes M :: Modulus64
  assumes a: "a < m64 M"
  shows "case mod64_inv M a of
      Some r \<Rightarrow> r < m64 M \<and> (uint r * uint a) mod uint (m64 M) = 1 mod uint (m64 M)
    | None \<Rightarrow> \<not> coprime (uint a) (uint (m64 M)) \<or> uint (m64 M) = 1"
proof -
  define t s where "t = uint (m64 M)" and "s = uint a"
  have st: "s < t" "0 \<le> s" "t < W64" using a by (simp_all add: t_def s_def word_less_def)
  have m0: "m64 M \<noteq> 0" using a by auto
  have inverse: "api_set_u64 (m64 M) x < m64 M \<and> (uint (api_set_u64 (m64 M) x) * s) mod t = 1 mod t"
    if "uint x mod t = (z + k * t) mod t" "t dvd s * z - 1" for x z k
  proof -
    have "uint (api_set_u64 (m64 M) x) = uint x mod t" by (simp add: api_set_u64_def uint_mod_distrib t_def)
    then show ?thesis
      using that inverse_mod_add [OF that(2), of k] residue_of_mod [of "api_set_u64 (m64 M) x" "uint x" "m64 M"] m0
      by (simp add: t_def)
  qed
  consider "a = 0" | "a = 1" | "2 \<le> s"
    using uint_pos64 [of a] by (fastforce simp: s_def word_uint_eq_iff)
  then show ?thesis
  proof cases
    case 1
    then show ?thesis using st by (auto simp: mod64_inv_def t_def)
  next
    case 2
    then have "1 < t" using st by (simp add: s_def)
    then show ?thesis using 2 a by (simp add: mod64_inv_def Let_def api_set1_def t_def word_uint_eq_iff word_less_def)
  next
    case 3
    then have a2: "2 \<le> uint a" and an: "a \<noteq> 0" "a \<noteq> 1" by (auto simp: s_def)
    note start = mod64_inv_start [OF a a2, folded t_def s_def]
    show ?thesis
    proof (cases "m64 M mod a = 1")
      case True
      define v1 where "v1 = - (m64 M div a)"
      have tm: "t mod s = 1" using arg_cong [OF True, of uint] by (simp add: uint_mod_distrib t_def s_def)
      have dm: "s * (t div s) + 1 = t" using div_mult_mod_eq [of t s] tm by (simp add: mult.commute)
      have v1: "sint v1 = - (t div s)" unfolding v1_def by (rule start(1))
      have "1 \<le> t div s" using st 3 by (simp add: int_one_le_iff_zero_less pos_imp_zdiv_pos_iff)
      moreover have "2 * (t div s) \<le> s * (t div s)" using 3 calculation by (intro mult_right_mono) simp_all
      then have "2 * (t div s) \<le> t" using dm by linarith
      ultimately have neg: "sint v1 < 0" and bnd: "2 * \<bar>sint v1\<bar> \<le> uint (m64 M)"
        by (simp_all add: v1 flip: t_def)
      have "uint (v1 + m64 M) mod t = (sint v1 + 1 * t) mod t"
        using signed_wrap [OF bnd] neg by (simp only: if_True t_def)
      moreover have "t dvd s * sint v1 - 1" unfolding v1 using dm by (intro dvdI [of _ _ "- 1"]) (simp add: algebra_simps)
      ultimately have "api_set_u64 (m64 M) (v1 + m64 M) < m64 M
          \<and> (uint (api_set_u64 (m64 M) (v1 + m64 M)) * s) mod t = 1 mod t"
        by (rule inverse)
      moreover have "mod64_inv M a = Some (api_set_u64 (m64 M) (v1 + m64 M))"
        using an True by (simp add: mod64_inv_def Let_def v1_def)
      ultimately show ?thesis by (simp add: t_def s_def)
    next
      case False
      obtain r1 r2 where r: "mod64_inv_loop 1 a (- (m64 M div a)) (m64 M mod a) = (r1, r2)" "uint r2 = gcd s t"
        "t dvd s * sint r1 - uint r2" "2 * \<bar>sint r1\<bar> \<le> t" using start(2) by blast
      show ?thesis
      proof (cases "r2 = 1")
        case one: True
        define x where "x = (if sint r1 < 0 then r1 + m64 M else r1)"
        have x: "uint x mod t = (sint r1 + (if sint r1 < 0 then 1 else 0) * t) mod t"
          using signed_wrap [of r1 "m64 M"] r(4) by (simp add: x_def t_def)
        have "mod64_inv M a = Some (api_set_u64 (m64 M) x)"
          using an False r(1) one by (simp add: mod64_inv_def Let_def x_def)
        moreover have "t dvd s * sint r1 - 1" using r(2,3) one by simp
        ultimately show ?thesis using inverse [OF x] by (simp add: t_def s_def)
      next
        case two: False
        then have "\<not> coprime s t" using r(2) by (auto simp: coprime_iff_gcd_eq_1 word_uint_eq_iff)
        moreover have "mod64_inv M a = None" using an False r(1) two by (simp add: mod64_inv_def Let_def)
        ultimately show ?thesis by (simp add: t_def s_def)
      qed
    qed
  qed
qed

interpretation mod64: inverting_layer mod64_layer mod64_ok mod64_value
proof (unfold_locales, goal_cases)
  case (1 M a r)
  then show ?case using mod64_inv_value [of a M] by (simp add: residue_def modulus_def mod64_value_def)
next
  case (2 M a)
  then show ?case using mod64_inv_value [of a M] by (simp add: residue_def modulus_def mod64_value_def)
qed

section \<open>Properties\<close>

text \<open>
  The plain one word modulus computes in the ring of integers modulo \<open>m\<close>: on reduced
  residues addition, subtraction, multiplication and squaring return the reduced result.
\<close>

theorem mod64_ring:
  assumes "a < m64 M" "b < m64 M"
  shows "uint (mod64_add M a b) = (uint a + uint b) mod uint (m64 M)
    \<and> uint (mod64_sub M a b) = (uint a - uint b) mod uint (m64 M)
    \<and> uint (mod64_mul M a b) = (uint a * uint b) mod uint (m64 M)
    \<and> uint (mod64_sqr M a) = (uint a * uint a) mod uint (m64 M)
    \<and> uint (mod64_add1 M a) = (uint a + 1) mod uint (m64 M)"
  using addmod_1_1_correct [OF assms(1), of b] assms(2) submod_1_1_correct [OF assms]
    mod64_mul_value [OF assms] mod64_mul_value [OF assms(1,1)] mod64_add1_value [OF assms(1)]
  by (simp add: mod64_add_def mod64_sub_def mod64_sqr_eq)

theorem mod64_ring_witness:
  "uint (mod64_mul \<lparr>m64 = 1000003\<rparr> 999999 999998) = 20"
  using mod64_ring [of 999999 "\<lparr>m64 = 1000003\<rparr>" 999998] by simp

text \<open>
  Inversion by the extended Euclidean algorithm on words: a result is reduced and is the
  inverse, and inversion fails only for a residue that has no inverse.
\<close>

theorem mod64_inversion:
  assumes "a < m64 M" "1 < uint (m64 M)"
  shows "case mod64_inv M a of
      Some r \<Rightarrow> r < m64 M \<and> (uint r * uint a) mod uint (m64 M) = 1
    | None \<Rightarrow> \<not> coprime (uint a) (uint (m64 M))"
  using mod64_inv_value [OF assms(1)] assms(2) by (simp split: option.splits)

theorem mod64_inversion_witness:
  "case mod64_inv \<lparr>m64 = 15\<rparr> 6 of
      Some r \<Rightarrow> r < 15 \<and> (uint r * 6) mod 15 = 1
    | None \<Rightarrow> \<not> coprime (6 :: int) 15"
  using mod64_inversion [of 6 "\<lparr>m64 = 15\<rparr>"] by (simp split: option.splits)

text \<open>
  Simultaneous inversion of a vector with one inversion (Montgomery's trick), for the plain one word
  modulus: when it succeeds, every entry times its input is the constant \<open>c\<close>, or one when
  no constant is given.
\<close>

theorem mod64_batchinv:
  assumes "m64 M \<noteq> 0" "\<forall>a\<in>set as. a < m64 M" "case c of None \<Rightarrow> True | Some c \<Rightarrow> c < m64 M"
    "batchinv (mod64_layer M) as c = Some rs"
  shows "list_all2 (\<lambda>r a. r < m64 M \<and> (uint r * uint a) mod uint (m64 M)
    = (case c of None \<Rightarrow> 1 | Some c \<Rightarrow> uint c) mod uint (m64 M)) rs as"
  using mod64.batchinv_value [of M as c rs] assms
  by (simp add: mod64_ok_def residue_def modulus_def mod64_value_def split: option.splits)

theorem mod64_batchinv_witness:
  "list_all2 (\<lambda>r a. r < 5 \<and> (uint r * uint a) mod 5 = 1) [2, 4 :: u64] [3, 4 :: u64]"
proof -
  have "batchinv (mod64_layer \<lparr>m64 = 5\<rparr>) [3, 4] None = Some [2, 4]" by code_simp
  from mod64_batchinv [OF _ _ _ this] show ?thesis by simp
qed

text \<open>
  The arguments of the Lucas function may not share variables as its comment says: with the
  index zero and result and base the same variable, the second result, the sequence at
  index one, is two instead of the base (here three, modulo seven).
\<close>

theorem V_result_aliases_base:
  "map_option (\<lambda>\<sigma>. \<sigma> 1) (V_store (mod64_layer \<lparr>m64 = 7\<rparr>) 0 (Some 1) 0 0 (\<lambda>_. 3)) = Some 2
   \<and> map_option snd (V (mod64_layer \<lparr>m64 = 7\<rparr>) 3 0) = Some 3"
  by (simp add: V_store_def V_def Let_def mod64_layer_def mod64_add1_def api_set1_def)

end
