(* ===== verification/PolySpec.thy ===== *)
theory PolySpec
  imports Prelude
begin

text \<open>
  Polynomials as sequences of coefficients, the specification side of the polynomial theories:
  the sequence of a coefficient list, sum, product (convolution), multiples by monomials and
  congruence modulo an integer, with the ring laws that the proofs on the code use.
\<close>

section \<open>Coefficient sequences\<close>

type_synonym zpoly = "int list"
type_synonym zseq = "nat \<Rightarrow> int"

definition cf :: "zpoly \<Rightarrow> zseq" where
  "cf f i = (if i < length f then f ! i else 0)"

definition sadd :: "zseq \<Rightarrow> zseq \<Rightarrow> zseq" where
  "sadd a b n = a n + b n"

definition ssub :: "zseq \<Rightarrow> zseq \<Rightarrow> zseq" where
  "ssub a b n = a n - b n"

definition conv :: "zseq \<Rightarrow> zseq \<Rightarrow> zseq" where
  "conv a b n = (\<Sum>i\<le>n. a i * b (n - i))"

definition smult :: "int \<Rightarrow> zseq \<Rightarrow> zseq" where
  "smult c a n = c * a n"

definition mono :: "int \<Rightarrow> nat \<Rightarrow> zseq" where
  "mono c k n = (if n = k then c else 0)"

definition scong :: "int \<Rightarrow> zseq \<Rightarrow> zseq \<Rightarrow> bool" where
  "scong m a b \<longleftrightarrow> (\<forall>n. a n mod m = b n mod m)"

definition szero :: zseq where
  "szero n = 0"

text \<open>The value at a point, of a list and of a sequence that is zero from \<open>n\<close> on.\<close>

definition evalp :: "zpoly \<Rightarrow> int \<Rightarrow> int" where
  "evalp f x = (\<Sum>i<length f. f ! i * x ^ i)"

lemmas seq_defs = sadd_def ssub_def smult_def mono_def szero_def

lemma cf_Nil [simp]: "cf [] = szero"
  by (simp add: cf_def fun_eq_iff szero_def)

lemma cf_Cons: "cf (c # f) n = (if n = 0 then c else cf f (n - 1))"
  by (cases n) (simp_all add: cf_def)

lemma cf_append: "cf (f @ g) n = (if n < length f then f ! n else cf g (n - length f))"
  by (auto simp: cf_def nth_append)

lemma cf_ge [simp]: "length f \<le> n \<Longrightarrow> cf f n = 0"
  by (simp add: cf_def)

lemma cf_lt: "n < length f \<Longrightarrow> cf f n = f ! n"
  by (simp add: cf_def)

lemma cf_replicate_0 [simp]: "cf (replicate k 0) = szero"
  by (simp add: cf_def fun_eq_iff szero_def)

lemma cf_append_zeros [simp]: "cf (f @ replicate k 0) = cf f"
  by (auto simp: cf_def fun_eq_iff nth_append)

lemma cf_map: "h 0 = 0 \<Longrightarrow> cf (map h f) n = h (cf f n)"
  by (simp add: cf_def)

lemma cf_single: "cf [c] = mono c 0"
  by (auto simp: cf_def mono_def fun_eq_iff)

lemma cf_monomial: "cf (replicate k 0 @ [c]) = mono c k"
  by (auto simp: cf_def mono_def fun_eq_iff nth_append)

lemma cf_update: "i < length f \<Longrightarrow> cf (f[i := v]) n = (if n = i then v else cf f n)"
  by (auto simp: cf_def)

lemma cf_take: "cf (take k f) n = (if n < k then cf f n else 0)"
  by (auto simp: cf_def)

lemma cf_drop: "cf (drop k f) n = cf f (n + k)"
  by (auto simp: cf_def add.commute)

lemma cf_eq_imp_eq: "cf f = cf g \<Longrightarrow> length f = length g \<Longrightarrow> f = g"
  by (rule nth_equalityI) (simp_all add: cf_def fun_eq_iff, metis)

section \<open>Ring laws\<close>

lemma sadd_szero [simp]: "sadd a szero = a" "sadd szero a = a" "ssub a szero = a"
  by (simp_all add: fun_eq_iff sadd_def ssub_def szero_def)

lemma conv_commute: "conv a b = conv b a"
proof
  fix n
  have "(\<Sum>i\<le>n. a i * b (n - i)) = (\<Sum>i\<le>n. b i * a (n - i))"
    by (rule sum.reindex_bij_witness [of _ "\<lambda>i. n - i" "\<lambda>i. n - i"]) (simp_all add: mult.commute)
  then show "conv a b n = conv b a n" by (simp add: conv_def)
qed

lemma triple_sum:
  fixes h :: "nat \<Rightarrow> nat \<Rightarrow> nat \<Rightarrow> int"
  shows "(\<Sum>j=0..k. \<Sum>i=0..j. h i (j - i) (n - j)) = (\<Sum>j=0..k. \<Sum>i=0..k - j. h j i (n - j - i))"
  by (induction k) (simp_all add: Suc_diff_le sum.distrib add.assoc)

lemma conv_assoc: "conv (conv a b) c = conv a (conv b c)"
proof
  fix n
  have "(\<Sum>j=0..n. \<Sum>i=0..j. a i * b (j - i) * c (n - j)) = (\<Sum>j=0..n. \<Sum>i=0..n - j. a j * b i * c (n - j - i))"
    by (rule triple_sum)
  then show "conv (conv a b) c n = conv a (conv b c) n"
    by (simp add: conv_def sum_distrib_left sum_distrib_right atLeast0AtMost mult.assoc)
qed

lemma conv_add_left: "conv (sadd a b) c = sadd (conv a c) (conv b c)"
  by (simp add: fun_eq_iff conv_def sadd_def algebra_simps sum.distrib)

lemma conv_add_right: "conv c (sadd a b) = sadd (conv c a) (conv c b)"
  by (simp add: fun_eq_iff conv_def sadd_def algebra_simps sum.distrib)

lemma conv_sub_left: "conv (ssub a b) c = ssub (conv a c) (conv b c)"
  by (simp add: fun_eq_iff conv_def ssub_def algebra_simps sum_subtractf)

lemma conv_sub_right: "conv c (ssub a b) = ssub (conv c a) (conv c b)"
  by (simp add: fun_eq_iff conv_def ssub_def algebra_simps sum_subtractf)

lemma conv_smult_left: "conv (smult c a) b = smult c (conv a b)"
  by (simp add: fun_eq_iff conv_def smult_def sum_distrib_left mult.assoc)

lemma conv_smult_right: "conv a (smult c b) = smult c (conv a b)"
  by (simp add: fun_eq_iff conv_def smult_def sum_distrib_left algebra_simps)

lemma conv_zero [simp]: "conv szero a = szero" "conv a szero = szero"
  by (simp_all add: fun_eq_iff conv_def szero_def)

lemma conv_mono: "conv (mono c k) b n = (if k \<le> n then c * b (n - k) else 0)"
proof -
  have "(\<Sum>i\<le>n. (if i = k then c else 0) * b (n - i)) = (\<Sum>i\<le>n. if i = k then c * b (n - i) else 0)"
    by (rule sum.cong) simp_all
  then show ?thesis by (simp add: conv_def mono_def sum.delta)
qed

lemma conv_mono0: "conv (mono c 0) b = smult c b"
  by (simp add: fun_eq_iff conv_mono smult_def)

lemma conv_one [simp]: "conv (mono 1 0) b = b" "conv b (mono 1 0) = b"
  by (simp_all add: conv_mono0 smult_def fun_eq_iff conv_commute [of b])

lemma conv_cong: "scong m a a' \<Longrightarrow> scong m b b' \<Longrightarrow> scong m (conv a b) (conv a' b')"
proof -
  assume h: "scong m a a'" "scong m b b'"
  have "(\<Sum>i\<le>n. a i * b (n - i)) mod m = (\<Sum>i\<le>n. a' i * b' (n - i)) mod m" for n
  proof -
    have "(\<Sum>i\<le>n. a i * b (n - i)) mod m = (\<Sum>i\<le>n. (a i * b (n - i)) mod m) mod m" by (simp add: mod_sum_eq)
    also have "\<dots> = (\<Sum>i\<le>n. (a' i * b' (n - i)) mod m) mod m"
    proof (rule arg_cong [where f = "\<lambda>x. x mod m"], rule sum.cong)
      fix i
      show "(a i * b (n - i)) mod m = (a' i * b' (n - i)) mod m"
        using h by (intro mod_mult_cong) (simp_all add: scong_def)
    qed simp
    also have "\<dots> = (\<Sum>i\<le>n. a' i * b' (n - i)) mod m" by (simp add: mod_sum_eq)
    finally show ?thesis .
  qed
  then show ?thesis by (simp add: scong_def conv_def)
qed

lemma scong_refl [simp]: "scong m a a"
  by (simp add: scong_def)

lemma scong_sym: "scong m a b \<Longrightarrow> scong m b a"
  by (simp add: scong_def)

lemma scong_trans [trans]: "scong m a b \<Longrightarrow> scong m b c \<Longrightarrow> scong m a c"
  by (simp add: scong_def)

lemma scong_add: "scong m a a' \<Longrightarrow> scong m b b' \<Longrightarrow> scong m (sadd a b) (sadd a' b')"
  by (auto simp: scong_def sadd_def intro: mod_add_cong)

lemma scong_sub: "scong m a a' \<Longrightarrow> scong m b b' \<Longrightarrow> scong m (ssub a b) (ssub a' b')"
  by (auto simp: scong_def ssub_def intro: mod_diff_cong)

lemma scong_smult: "scong m a a' \<Longrightarrow> scong m (smult c a) (smult c a')"
  by (auto simp: scong_def smult_def intro: mod_mult_cong)

section \<open>Values\<close>

lemma evalp_Nil [simp]: "evalp [] x = 0"
  by (simp add: evalp_def)

lemma evalp_Cons: "evalp (c # f) x = c + x * evalp f x"
  by (simp add: evalp_def sum.lessThan_Suc_shift sum_distrib_left algebra_simps del: sum.lessThan_Suc)

lemma evalp_append: "evalp (f @ g) x = evalp f x + x ^ length f * evalp g x"
  by (induction f) (simp_all add: evalp_Cons algebra_simps)

lemma evalp_snoc: "evalp (f @ [c]) x = evalp f x + c * x ^ length f"
  by (simp add: evalp_append evalp_Cons)

lemma evalp_cf: "length f \<le> n \<Longrightarrow> evalp f x = (\<Sum>i<n. cf f i * x ^ i)"
proof -
  assume "length f \<le> n"
  then have "(\<Sum>i<n. cf f i * x ^ i) = (\<Sum>i<length f. cf f i * x ^ i)"
    by (intro sum.mono_neutral_right) auto
  then show ?thesis by (simp add: evalp_def cf_lt)
qed

end
