(* ===== verification/MpzPoly.thy ===== *)
theory MpzPoly
  imports PolySpec
begin

text \<open>
  The polynomial structure of \<^verbatim>\<open>utils/mpz_poly.h\<close> and the functions of \<^verbatim>\<open>utils/mpz_poly.cpp\<close> that manage
  it: allocation, access to coefficients, the degree, powers of the variable. The type
  \<open>mpz_poly\<close> has the allocated cells, whose number is the field \<open>alloc\<close> of the C structure, and the degree. Cells above the
  degree hold what earlier operations left there. GMP's integers are the integers. A function
  that writes through a pointer takes the old value of the object and returns the new one;
  functions that behave differently when two pointers are equal have one definition for each
  case.
\<close>

section \<open>The structure\<close>

record mpz_poly =
  coeff :: "int list"
  deg :: int

definition mpz_poly_init :: "int \<Rightarrow> mpz_poly" where
  "mpz_poly_init d = \<lparr>coeff = (if d < 0 then [] else replicate (nat (d + 1)) 0), deg = - 1\<rparr>"

definition mpz_poly_realloc :: "mpz_poly \<Rightarrow> nat \<Rightarrow> mpz_poly" where
  "mpz_poly_realloc f nc =
     (if length (coeff f) < nc then f\<lparr>coeff := coeff f @ replicate (nc - length (coeff f)) 0\<rparr> else f)"

definition mpz_poly_coeff_const :: "mpz_poly \<Rightarrow> nat \<Rightarrow> int" where
  "mpz_poly_coeff_const f i = (if i < length (coeff f) then coeff f ! i else 0)"

text \<open>The loop of \<open>cleandeg\<close> on the number of coefficients that are kept.\<close>

fun strip_len :: "int list \<Rightarrow> nat \<Rightarrow> nat" where
  "strip_len c 0 = 0"
| "strip_len c (Suc n) = (if c ! n = 0 then strip_len c n else Suc n)"

definition mpz_poly_cleandeg :: "mpz_poly \<Rightarrow> int \<Rightarrow> mpz_poly" where
  "mpz_poly_cleandeg f d =
     (let n = (if nat (d + 1) \<ge> length (coeff f) then length (coeff f) else nat (d + 1))
      in f\<lparr>deg := int (strip_len (coeff f) n) - 1\<rparr>)"

text \<open>Cells from \<open>j\<close> up to \<open>i\<close>, exclusive, are set to zero.\<close>

fun zero_cells :: "int list \<Rightarrow> nat \<Rightarrow> nat \<Rightarrow> int list" where
  "zero_cells c j 0 = c"
| "zero_cells c j (Suc i) = (if j < Suc i then (zero_cells c j i)[i := 0] else c)"

text \<open>
  One definition stands for the variants that take the coefficient as a machine integer, which differ only in
  its type.
\<close>

definition mpz_poly_setcoeff :: "mpz_poly \<Rightarrow> nat \<Rightarrow> int \<Rightarrow> mpz_poly" where
  "mpz_poly_setcoeff f i z =
     (let f = mpz_poly_realloc f (i + 1);
          f = f\<lparr>coeff := zero_cells (coeff f) (nat (deg f + 1)) i\<rparr>;
          f = f\<lparr>coeff := (coeff f)[i := z]\<rparr>
      in if int i \<ge> deg f then mpz_poly_cleandeg f (int i) else f)"

text \<open>Coefficients \<open>n - 1\<close> down to \<open>0\<close> of \<open>c\<close> are set in \<open>g\<close>.\<close>

fun setcoeffs_down :: "mpz_poly \<Rightarrow> int list \<Rightarrow> nat \<Rightarrow> mpz_poly" where
  "setcoeffs_down g c 0 = g"
| "setcoeffs_down g c (Suc n) = setcoeffs_down (mpz_poly_setcoeff g n (c ! n)) c n"

text \<open>For two different objects; otherwise nothing is done.\<close>

definition mpz_poly_set :: "mpz_poly \<Rightarrow> mpz_poly \<Rightarrow> mpz_poly" where
  "mpz_poly_set g f = setcoeffs_down (g\<lparr>deg := deg f\<rparr>) (coeff f) (nat (deg f + 1))"

definition mpz_poly_setcoeffs :: "mpz_poly \<Rightarrow> int list \<Rightarrow> int \<Rightarrow> mpz_poly" where
  "mpz_poly_setcoeffs f c d = mpz_poly_cleandeg (setcoeffs_down f c (nat (d + 1))) d"

definition mpz_poly_set_zero :: "mpz_poly \<Rightarrow> mpz_poly" where
  "mpz_poly_set_zero f = f\<lparr>deg := - 1\<rparr>"

definition mpz_poly_set_mpz_ab :: "mpz_poly \<Rightarrow> int \<Rightarrow> int \<Rightarrow> mpz_poly" where
  "mpz_poly_set_mpz_ab rel a b =
     (let rel = mpz_poly_set_zero rel;
          rel = mpz_poly_setcoeff rel 0 a
      in mpz_poly_setcoeff rel 1 (- b))"

text \<open>The exception is the cast of \<open>b\<close> to a signed word.\<close>

definition mpz_poly_set_ab :: "mpz_poly \<Rightarrow> int \<Rightarrow> u64 \<Rightarrow> mpz_poly option" where
  "mpz_poly_set_ab rel a b =
     (if uint b \<ge> 2 ^ 63 then None
      else let rel = mpz_poly_set_zero rel;
               rel = mpz_poly_setcoeff rel 0 a
           in Some (mpz_poly_setcoeff rel 1 (- uint b)))"

definition mpz_poly_swap :: "mpz_poly \<Rightarrow> mpz_poly \<Rightarrow> mpz_poly \<times> mpz_poly" where
  "mpz_poly_swap f g = (g, f)"

definition mpz_poly_set_xi :: "mpz_poly \<Rightarrow> nat \<Rightarrow> mpz_poly" where
  "mpz_poly_set_xi f i =
     (let f = mpz_poly_realloc f (i + 1)
      in f\<lparr>coeff := map (\<lambda>j. of_bool (j = i)) [0..<i + 1] @ drop (i + 1) (coeff f), deg := int i\<rparr>)"

definition mpz_poly_set_mpz :: "mpz_poly \<Rightarrow> int \<Rightarrow> mpz_poly" where
  "mpz_poly_set_mpz f z =
     (let f = mpz_poly_realloc f 1
      in mpz_poly_cleandeg (f\<lparr>coeff := (coeff f)[0 := z]\<rparr>) 0)"

text \<open>Division by a power of the variable, into another object and in place.\<close>

definition mpz_poly_div_xi :: "mpz_poly \<Rightarrow> mpz_poly \<Rightarrow> nat \<Rightarrow> mpz_poly" where
  "mpz_poly_div_xi g f i =
     (if deg f < int i then mpz_poly_set_zero g
      else if i = 0 then mpz_poly_set g f
      else let n = nat (1 + deg f) - i;
               g = mpz_poly_realloc g n
           in g\<lparr>coeff := take n (drop i (coeff f)) @ drop n (coeff g), deg := deg f - int i\<rparr>)"

definition mpz_poly_div_xi_inplace :: "mpz_poly \<Rightarrow> nat \<Rightarrow> mpz_poly" where
  "mpz_poly_div_xi_inplace g i =
     (if deg g < int i then mpz_poly_set_zero g
      else if i = 0 then g
      else let n = nat (deg g + 1)
           in g\<lparr>coeff := take (n - i) (drop i (coeff g)) @ take i (coeff g) @ drop n (coeff g),
                deg := deg g - int i\<rparr>)"

text \<open>
  Multiplication by a power of the variable. In place the cells are exchanged upwards; with two
  objects the loop runs over the degree and the cells of the \<^emph>\<open>result\<close>.
\<close>

fun shift_cells :: "int list \<Rightarrow> nat \<Rightarrow> nat \<Rightarrow> int list" where
  "shift_cells c i 0 = c"
| "shift_cells c i (Suc n) = shift_cells (c[n + i := c ! n]) i n"

fun swap_cells :: "int list \<Rightarrow> nat \<Rightarrow> nat \<Rightarrow> int list" where
  "swap_cells c i 0 = c"
| "swap_cells c i (Suc n) = swap_cells (c[n + i := c ! n, n := c ! (n + i)]) i n"

definition mpz_poly_mul_xi_inplace :: "mpz_poly \<Rightarrow> nat \<Rightarrow> mpz_poly" where
  "mpz_poly_mul_xi_inplace g i =
     (if i = 0 then g
      else let f = g; g = mpz_poly_realloc g (nat (1 + deg f) + i);
               c = swap_cells (coeff g) i (nat (deg g + 1));
               c = zero_cells c 0 i
           in g\<lparr>coeff := c, deg := deg f + int i\<rparr>)"

definition mpz_poly_mul_xi :: "mpz_poly \<Rightarrow> mpz_poly \<Rightarrow> nat \<Rightarrow> mpz_poly" where
  "mpz_poly_mul_xi g f i =
     (if i = 0 then mpz_poly_set g f
      else let g = mpz_poly_realloc g (nat (1 + deg f) + i);
               c = shift_cells (coeff g) i (nat (deg g + 1));
               c = zero_cells c 0 i
           in g\<lparr>coeff := c, deg := deg f + int i\<rparr>)"

section \<open>The value of an object\<close>

definition mpz_poly_ok :: "mpz_poly \<Rightarrow> bool" where
  "mpz_poly_ok f \<longleftrightarrow> - 1 \<le> deg f \<and> deg f < int (length (coeff f))"

definition coeffs :: "mpz_poly \<Rightarrow> zpoly" where
  "coeffs f = take (nat (deg f + 1)) (coeff f)"

text \<open>The list without its leading zeros.\<close>

definition cleandeg :: "zpoly \<Rightarrow> zpoly" where
  "cleandeg c = take (strip_len c (length c)) c"

definition normalized :: "zpoly \<Rightarrow> bool" where
  "normalized f \<longleftrightarrow> f = [] \<or> last f \<noteq> 0"

lemma strip_len_le: "strip_len c n \<le> n"
  by (induction n) (auto simp: le_SucI)

lemma strip_len_take: "n \<le> k \<Longrightarrow> strip_len (take k c) n = strip_len c n"
  by (induction n) auto

lemma strip_len_zero: "strip_len c n \<le> i \<Longrightarrow> i < n \<Longrightarrow> c ! i = 0"
  by (induction n) (auto simp: less_Suc_eq split: if_splits)

lemma strip_len_last: "0 < strip_len c n \<Longrightarrow> c ! (strip_len c n - 1) \<noteq> 0"
  by (induction n) auto

lemma normalized_cleandeg [simp]: "normalized (cleandeg c)"
proof (cases "strip_len c (length c)")
  case (Suc k)
  have "Suc k \<le> length c" using strip_len_le [of c "length c"] Suc by simp
  then have "last (take (Suc k) c) = c ! k" by (simp add: take_Suc_conv_app_nth)
  then show ?thesis using strip_len_last [of c "length c"] Suc by (simp add: normalized_def cleandeg_def)
qed (simp add: normalized_def cleandeg_def)

lemma cf_cleandeg [simp]: "cf (cleandeg c) = cf c"
proof
  fix n
  show "cf (cleandeg c) n = cf c n"
    using strip_len_zero [of c "length c" n] by (auto simp: cleandeg_def cf_take cf_def)
qed

lemma length_cleandeg_le: "length (cleandeg c) \<le> length c"
  by (simp add: cleandeg_def)

lemma cleandeg_normalized: "normalized c \<Longrightarrow> cleandeg c = c"
proof -
  assume "normalized c"
  then have "strip_len c (length c) = length c"
    by (cases c rule: rev_cases) (simp_all add: normalized_def)
  then show ?thesis by (simp add: cleandeg_def)
qed

text \<open>Normalized lists are determined by their coefficients.\<close>

lemma normalized_length:
  assumes "normalized f" "normalized g" "cf f = cf g"
  shows "length f \<le> length g"
proof (rule ccontr)
  assume "\<not> length f \<le> length g"
  then have "f \<noteq> []" "cf g (length f - 1) = 0" by auto
  moreover have "cf f (length f - 1) = last f" using calculation(1) by (simp add: cf_def last_conv_nth)
  ultimately show False using assms by (simp add: normalized_def)
qed

lemma normalized_eqI: "normalized f \<Longrightarrow> normalized g \<Longrightarrow> cf f = cf g \<Longrightarrow> f = g"
  using normalized_length [of f g] normalized_length [of g f] by (intro cf_eq_imp_eq) auto

lemma cleandeg_eqI: "cf c = cf d \<Longrightarrow> cleandeg c = cleandeg d"
  by (rule normalized_eqI) simp_all

section \<open>The functions on objects\<close>

lemma realloc_ok: "mpz_poly_ok f \<Longrightarrow> mpz_poly_ok (mpz_poly_realloc f n)"
  by (auto simp: mpz_poly_ok_def mpz_poly_realloc_def)

lemma realloc_coeffs: "mpz_poly_ok f \<Longrightarrow> coeffs (mpz_poly_realloc f n) = coeffs f"
  by (auto simp: mpz_poly_ok_def mpz_poly_realloc_def coeffs_def)

lemma realloc_length: "length (coeff (mpz_poly_realloc f n)) = max (length (coeff f)) n"
  by (simp add: mpz_poly_realloc_def)

lemma realloc_deg [simp]: "deg (mpz_poly_realloc f n) = deg f"
  by (simp add: mpz_poly_realloc_def)

lemma cleandeg_ok: "mpz_poly_ok (mpz_poly_cleandeg f d)"
proof -
  define n where "n = (if nat (d + 1) \<ge> length (coeff f) then length (coeff f) else nat (d + 1))"
  have "strip_len (coeff f) n \<le> length (coeff f)" using strip_len_le [of "coeff f" n] by (simp add: n_def split: if_splits)
  then show ?thesis by (simp add: mpz_poly_ok_def mpz_poly_cleandeg_def Let_def flip: n_def)
qed

lemma cleandeg_coeffs: "coeffs (mpz_poly_cleandeg f d) = cleandeg (take (nat (d + 1)) (coeff f))"
  using strip_len_le [of "coeff f" "nat (d + 1)"]
  by (auto simp: coeffs_def mpz_poly_cleandeg_def Let_def cleandeg_def strip_len_take min_def)

lemma cleandeg_coeff [simp]: "coeff (mpz_poly_cleandeg f d) = coeff f"
  by (simp add: mpz_poly_cleandeg_def Let_def)

lemma zero_cells_length [simp]: "length (zero_cells c j i) = length c"
  by (induction i) auto

lemma zero_cells_nth: "n < length c \<Longrightarrow> zero_cells c j i ! n = (if j \<le> n \<and> n < i then 0 else c ! n)"
  by (induction i) (auto simp: nth_list_update less_Suc_eq)

lemma cf_coeffs: "mpz_poly_ok f \<Longrightarrow> cf (coeffs f) n = (if int n \<le> deg f then coeff f ! n else 0)"
  by (auto simp: mpz_poly_ok_def coeffs_def cf_take cf_def)

text \<open>
  Setting a coefficient: the value is the old polynomial with that coefficient changed, without leading
  zeros when the degree can have changed.
\<close>

lemma setcoeff_ok: "mpz_poly_ok f \<Longrightarrow> mpz_poly_ok (mpz_poly_setcoeff f i z)"
  by (auto simp: mpz_poly_setcoeff_def Let_def cleandeg_ok) (simp add: mpz_poly_ok_def realloc_length)

lemma setcoeff_cf:
  assumes "mpz_poly_ok f"
  shows "cf (coeffs (mpz_poly_setcoeff f i z)) = (cf (coeffs f))(i := z)"
proof
  fix n
  define r where "r = mpz_poly_realloc f (i + 1)"
  define c where "c = (zero_cells (coeff r) (nat (deg f + 1)) i)[i := z]"
  have r: "mpz_poly_ok r" "coeffs r = coeffs f" "i < length (coeff r)" "deg r = deg f"
    using assms by (simp_all add: r_def realloc_ok realloc_coeffs realloc_length)
  then have len: "length c = length (coeff r)" "deg f < int (length c)" "i < length c" by (auto simp: c_def mpz_poly_ok_def)
  have old: "cf (coeffs f) n = (if int n \<le> deg f then coeff r ! n else 0)" using cf_coeffs [OF r(1)] r(2,4) by simp
  have c: "c ! n = (if n = i then z else if deg f < int n \<and> n < i then 0 else coeff r ! n)" if "n < length c"
    using that len by (auto simp: c_def zero_cells_nth nth_list_update)
  show "cf (coeffs (mpz_poly_setcoeff f i z)) n = ((cf (coeffs f))(i := z)) n"
  proof (cases "int i \<ge> deg f")
    case True
    then have "coeffs (mpz_poly_setcoeff f i z) = cleandeg (take (i + 1) c)"
      by (simp add: mpz_poly_setcoeff_def Let_def cleandeg_coeffs c_def nat_add_distrib flip: r_def)
        (simp add: r_def)
    then have "cf (coeffs (mpz_poly_setcoeff f i z)) n = (if n < i + 1 then cf c n else 0)" by (simp add: cf_take)
    then show ?thesis using True c len old by (auto simp: cf_def)
  next
    case False
    then have "coeffs (mpz_poly_setcoeff f i z) = take (nat (deg f + 1)) c"
      by (simp add: mpz_poly_setcoeff_def Let_def coeffs_def c_def flip: r_def) (simp add: r_def)
    then have "cf (coeffs (mpz_poly_setcoeff f i z)) n = (if int n \<le> deg f then cf c n else 0)" by (auto simp: cf_take)
    then show ?thesis using False c len old by (auto simp: cf_def)
  qed
qed

lemma setcoeff_normalized:
  assumes "mpz_poly_ok f" "normalized (coeffs f)"
  shows "normalized (coeffs (mpz_poly_setcoeff f i z))"
proof (cases "int i \<ge> deg f")
  case True
  then show ?thesis by (simp add: mpz_poly_setcoeff_def Let_def cleandeg_coeffs)
next
  case False
  define g n where "g = mpz_poly_setcoeff f i z" and "n = nat (deg f)"
  have n: "deg f = int n" "i < n" using False by (simp_all add: n_def)
  have d: "deg g = int n" using False n by (simp add: g_def mpz_poly_setcoeff_def Let_def)
  have len: "length (coeffs h) = Suc n" if "mpz_poly_ok h" "deg h = int n" for h
  proof -
    have "nat (1 + int n) = Suc n" by simp
    then show ?thesis using that by (simp add: coeffs_def mpz_poly_ok_def add.commute)
  qed
  have lf: "length (coeffs f) = Suc n" and lg: "length (coeffs g) = Suc n"
    using len [OF assms(1) n(1)] len [OF _ d] setcoeff_ok [OF assms(1)] by (simp_all add: g_def)
  have "coeffs f \<noteq> []" using lf by auto
  then have "coeffs f ! n \<noteq> 0" using assms(2) lf last_conv_nth [of "coeffs f"] by (auto simp: normalized_def)
  moreover have "coeffs g ! n = coeffs f ! n"
    using fun_cong [OF setcoeff_cf [OF assms(1), of i z], of n] n(2) lf lg by (simp add: cf_def flip: g_def)
  ultimately have "last (coeffs g) \<noteq> 0" using lg by (subst last_conv_nth) auto
  then show ?thesis by (simp add: normalized_def g_def)
qed

lemma setcoeffs_down_cf:
  "mpz_poly_ok g \<Longrightarrow> mpz_poly_ok (setcoeffs_down g c n)
   \<and> cf (coeffs (setcoeffs_down g c n)) i = (if i < n then c ! i else cf (coeffs g) i)"
  by (induction n arbitrary: g) (auto simp: setcoeff_ok setcoeff_cf less_Suc_eq)

text \<open>
  Copying into another object gives the same polynomial. The target takes the degree of the source
  first, so that the cells above are never part of the value.
\<close>

lemma realloc_top:
  "coeffs (mpz_poly_setcoeff g i z) = cleandeg (take (i + 1) ((zero_cells (coeff (mpz_poly_realloc g (i + 1))) (nat (deg g + 1)) i)[i := z]))"
  if "deg g \<le> int i"
  using that by (simp add: mpz_poly_setcoeff_def Let_def cleandeg_coeffs nat_add_distrib)

lemma set_top:
  assumes "deg g = int n"
  shows "mpz_poly_ok (mpz_poly_setcoeff g n z)"
    "cf (coeffs (mpz_poly_setcoeff g n z)) i = (if i < n then cf (coeff (mpz_poly_realloc g (n + 1))) i else if i = n then z else 0)"
proof -
  show "mpz_poly_ok (mpz_poly_setcoeff g n z)" using assms by (simp add: mpz_poly_setcoeff_def Let_def cleandeg_ok)
  define c where "c = coeff (mpz_poly_realloc g (n + 1))"
  have len: "length c \<ge> n + 1" by (simp add: c_def realloc_length)
  have z: "zero_cells c (nat (int n + 1)) n = c" by (intro nth_equalityI) (auto simp: zero_cells_nth)
  have "coeffs (mpz_poly_setcoeff g n z) = cleandeg (take (n + 1) (c[n := z]))"
    using assms realloc_top [of g n z] by (simp only: c_def [symmetric] z order_refl)
  then show "cf (coeffs (mpz_poly_setcoeff g n z)) i
      = (if i < n then cf (coeff (mpz_poly_realloc g (n + 1))) i else if i = n then z else 0)"
    using len unfolding c_def [symmetric] by (simp add: cf_take cf_update)
qed

lemma set_cf:
  assumes f: "mpz_poly_ok f"
  shows "mpz_poly_ok (mpz_poly_set g f)" "cf (coeffs (mpz_poly_set g f)) = cf (coeffs f)"
proof -
  have "mpz_poly_ok (mpz_poly_set g f) \<and> cf (coeffs (mpz_poly_set g f)) i = cf (coeffs f) i" for i
  proof (cases "nat (deg f + 1)")
    case 0
    then have "deg f = - 1" using f by (simp add: mpz_poly_ok_def)
    then show ?thesis by (simp add: mpz_poly_set_def mpz_poly_ok_def coeffs_def)
  next
    case (Suc n)
    then have d: "deg f = int n" by simp
    define h where "h = mpz_poly_setcoeff (g\<lparr>deg := deg f\<rparr>) n (coeff f ! n)"
    have h: "mpz_poly_ok h" "\<And>i. n \<le> i \<Longrightarrow> cf (coeffs h) i = (if i = n then coeff f ! n else 0)"
      using set_top [of "g\<lparr>deg := deg f\<rparr>" n] d by (simp_all add: h_def)
    have "mpz_poly_set g f = setcoeffs_down h (coeff f) n" by (simp add: mpz_poly_set_def Suc h_def)
    then show ?thesis
      using setcoeffs_down_cf [OF h(1), of "coeff f" n i] h(2) [of i] cf_coeffs [OF f, of i] d by auto
  qed
  then show "mpz_poly_ok (mpz_poly_set g f)" "cf (coeffs (mpz_poly_set g f)) = cf (coeffs f)" by auto
qed

lemma set_xi_coeffs: "coeffs (mpz_poly_set_xi f i) = replicate i 0 @ [1]"
proof -
  have "nat (1 + int i) = Suc i" by simp
  then show ?thesis
    by (intro nth_equalityI) (auto simp: mpz_poly_set_xi_def Let_def coeffs_def nth_append add.commute less_Suc_eq)
qed

lemma swap_cells_length [simp]: "length (swap_cells c i n) = length c"
  by (induction n arbitrary: c) simp_all

lemma swap_cells_nth:
  assumes "n + i \<le> length c" "0 < i"
  shows "i \<le> k \<Longrightarrow> k < length c \<Longrightarrow> swap_cells c i n ! k = (if k < n + i then c ! (k - i) else c ! k)"
  using assms
proof (induction n arbitrary: c)
  case (Suc n)
  then show ?case by (cases "k = n + i") (auto simp: nth_list_update)
qed simp

lemma mul_xi_inplace_coeffs:
  assumes "mpz_poly_ok g"
  shows "coeffs (mpz_poly_mul_xi_inplace g i) = replicate i 0 @ coeffs g"
proof (cases "i = 0")
  case False
  define n where "n = nat (1 + deg g)"
  define r where "r = mpz_poly_realloc g (n + i)"
  have n: "1 + deg g = int n" using assms by (simp add: n_def mpz_poly_ok_def)
  have r: "coeffs r = coeffs g" "n + i \<le> length (coeff r)" "deg r = deg g"
    using assms by (simp_all add: r_def realloc_coeffs realloc_length)
  have lc: "length (coeffs g) = n" using assms n by (simp add: coeffs_def mpz_poly_ok_def add.commute)
  have e: "nat (1 + deg g) = n" "nat (deg g + 1) = n" "nat (deg g + int i + 1) = n + i"
    using n by (simp_all add: add.commute)
  have "coeffs g = take n (coeff r)" using r(1,3) e(2) by (simp add: coeffs_def)
  then have nth: "coeff r ! k = coeffs g ! k" if "k < n" for k using that by simp
  have "coeffs (mpz_poly_mul_xi_inplace g i) = take (n + i) (zero_cells (swap_cells (coeff r) i n) 0 i)"
    using False by (simp add: mpz_poly_mul_xi_inplace_def Let_def coeffs_def e flip: r_def)
  moreover have "take (n + i) (zero_cells (swap_cells (coeff r) i n) 0 i) = replicate i 0 @ coeffs g"
    using r(2) lc nth False by (intro nth_equalityI) (auto simp: zero_cells_nth swap_cells_nth nth_append)
  ultimately show ?thesis by simp
qed (simp add: mpz_poly_mul_xi_inplace_def)

lemma div_xi_inplace_coeffs:
  assumes "mpz_poly_ok g"
  shows "coeffs (mpz_poly_div_xi_inplace g i) = drop i (coeffs g)"
    and "mpz_poly_ok g' \<Longrightarrow> normalized (coeffs g) \<Longrightarrow> cf (coeffs (mpz_poly_div_xi g' g i)) = cf (drop i (coeffs g))"
proof -
  define n where "n = nat (deg g + 1)"
  have n: "deg g = int n - 1" "n \<le> length (coeff g)" using assms by (auto simp: n_def mpz_poly_ok_def)
  have c: "coeffs g = take n (coeff g)" by (simp add: coeffs_def n_def)
  have nat1: "nat (int n - int i) = n - i" by simp
  show "coeffs (mpz_poly_div_xi_inplace g i) = drop i (coeffs g)"
  proof (cases "n \<le> i")
    case True
    then show ?thesis using n by (simp add: mpz_poly_div_xi_inplace_def mpz_poly_set_zero_def coeffs_def)
  next
    case False
    have "coeffs (mpz_poly_div_xi_inplace g i) = take (n - i) (drop i (coeff g))" if "i \<noteq> 0"
    proof -
      have "length (take (n - i) (drop i (coeff g))) = n - i" using n by simp
      then show ?thesis
        using that False n by (simp only: mpz_poly_div_xi_inplace_def Let_def coeffs_def mpz_poly.simps if_False) (simp add: nat1)
    qed
    then show ?thesis using c False by (cases "i = 0") (simp_all add: mpz_poly_div_xi_inplace_def n(1) drop_take)
  qed
  assume g': "mpz_poly_ok g'" "normalized (coeffs g)"
  show "cf (coeffs (mpz_poly_div_xi g' g i)) = cf (drop i (coeffs g))"
  proof (cases "deg g < int i \<or> i = 0")
    case True
    then show ?thesis using n set_cf(2) [OF assms, of g']
      by (auto simp: mpz_poly_div_xi_def coeffs_def mpz_poly_set_zero_def)
  next
    case False
    then have "coeffs (mpz_poly_div_xi g' g i) = take (n - i) (drop i (coeff g))"
      using n by (simp add: mpz_poly_div_xi_def Let_def coeffs_def nat1)
    then show ?thesis by (simp add: c drop_take)
  qed
qed

section \<open>Properties\<close>

text \<open>
  The coefficient management keeps the structure well formed and refines the update of a
  coefficient sequence: setting a coefficient changes that coefficient and no other,
  whatever the cells above the degree held, and keeps the leading coefficient nonzero; copying
  gives the same polynomial.
\<close>

theorem mpz_poly_setcoeff_refines:
  assumes "mpz_poly_ok f" "normalized (coeffs f)"
  shows "mpz_poly_ok (mpz_poly_setcoeff f i z)
    \<and> cf (coeffs (mpz_poly_setcoeff f i z)) = (cf (coeffs f))(i := z)
    \<and> normalized (coeffs (mpz_poly_setcoeff f i z))
    \<and> mpz_poly_ok (mpz_poly_set g f) \<and> cf (coeffs (mpz_poly_set g f)) = cf (coeffs f)"
  using setcoeff_ok [OF assms(1)] setcoeff_cf [OF assms(1)] setcoeff_normalized [OF assms] set_cf [OF assms(1)] by simp

theorem mpz_poly_setcoeff_refines_witness:
  "cf (coeffs (mpz_poly_setcoeff \<lparr>coeff = [1, 2, 7, 9], deg = 1\<rparr> 3 5)) = (cf [1, 2])(3 := 5)"
  using mpz_poly_setcoeff_refines [of "\<lparr>coeff = [1, 2, 7, 9], deg = 1\<rparr>" 3 5 "mpz_poly_init 0"]
  by (simp add: mpz_poly_ok_def coeffs_def normalized_def numeral_2_eq_2)

text \<open>
  C35: Multiplication by a power of the variable: in place it prepends zeros, but into another
  object it copies the cells of the target instead of the source. With a target that holds
  \<open>9 x\<close> and the source \<open>1 + 2 x\<close>, the result of the multiplication by \<open>x\<close> is \<open>9 x ^ 2\<close>.
\<close>

theorem mpz_poly_mul_xi_wrong:
  "(mpz_poly_ok g \<longrightarrow> coeffs (mpz_poly_mul_xi_inplace g i) = replicate i 0 @ coeffs g)
   \<and> coeffs (mpz_poly_mul_xi \<lparr>coeff = [0, 9], deg = 1\<rparr> \<lparr>coeff = [1, 2], deg = 1\<rparr> 1) = [0, 0, 9]"
  using mul_xi_inplace_coeffs [of g i]
  by (simp add: mpz_poly_mul_xi_def mpz_poly_realloc_def coeffs_def numeral_2_eq_2)

theorem mpz_poly_mul_xi_wrong_witness:
  "coeffs (mpz_poly_mul_xi_inplace \<lparr>coeff = [1, 2], deg = 1\<rparr> 2) = [0, 0, 1, 2]"
  using mpz_poly_mul_xi_wrong [of "\<lparr>coeff = [1, 2], deg = 1\<rparr>" 2]
  by (simp add: mpz_poly_ok_def coeffs_def numeral_2_eq_2)

end
