(* ===== verification/MpzPolyArith.thy ===== *)
theory MpzPolyArith
  imports MpzPoly
begin

text \<open>
  The functions of \<^verbatim>\<open>utils/mpz_poly.cpp\<close> that work coefficient by coefficient, evaluation,
  translation, rotation, content and reduction modulo an integer. From here on a polynomial is the list of its
  coefficients from degree zero to the degree: these functions write every cell of the result
  up to its degree before they read it, so that the cells above the degree play no role.
\<close>

section \<open>Tests\<close>

definition mpz_cmp :: "int \<Rightarrow> int \<Rightarrow> int" where
  "mpz_cmp a b = sgn (a - b)"

fun cmp_down :: "zpoly \<Rightarrow> zpoly \<Rightarrow> nat \<Rightarrow> int" where
  "cmp_down a b 0 = 0"
| "cmp_down a b (Suc i) =
     (let r = (if i \<ge> length b then sgn (a ! i)
               else if i \<ge> length a then - sgn (b ! i)
               else mpz_cmp (a ! i) (b ! i))
      in if r \<noteq> 0 then r else cmp_down a b i)"

definition mpz_poly_cmp :: "zpoly \<Rightarrow> zpoly \<Rightarrow> int" where
  "mpz_poly_cmp a b = cmp_down a b (max (length a) (length b))"

fun cmp_mpz_down :: "zpoly \<Rightarrow> int \<Rightarrow> nat \<Rightarrow> int" where
  "cmp_mpz_down a b 0 = (if a = [] then - sgn b else mpz_cmp (a ! 0) b)"
| "cmp_mpz_down a b (Suc i) = (let r = sgn (a ! Suc i) in if r \<noteq> 0 then r else cmp_mpz_down a b i)"

definition mpz_poly_cmp_mpz :: "zpoly \<Rightarrow> int \<Rightarrow> int" where
  "mpz_poly_cmp_mpz a b = cmp_mpz_down a b (length a - 1)"

definition mpz_poly_normalized_p :: "zpoly \<Rightarrow> bool" where
  "mpz_poly_normalized_p f = (f = [] \<or> f ! (length f - 1) \<noteq> 0)"

definition mpz_poly_is_monic :: "zpoly \<Rightarrow> bool" where
  "mpz_poly_is_monic f = (if f = [] then True else f ! (length f - 1) = 1)"

text \<open>The caller guarantees a polynomial of degree at least zero.\<close>

fun valuation_loop :: "zpoly \<Rightarrow> nat \<Rightarrow> nat" where
  "valuation_loop [] n = n"
| "valuation_loop [c] n = n"
| "valuation_loop (c # f) n = (if c = 0 then valuation_loop f (n + 1) else n)"

definition mpz_poly_valuation :: "zpoly \<Rightarrow> nat" where
  "mpz_poly_valuation f = valuation_loop f 0"

definition mpz_poly_is_monomial_multiple :: "zpoly \<Rightarrow> bool" where
  "mpz_poly_is_monomial_multiple f = (f = [] \<or> mpz_poly_valuation f = length f - 1)"

definition mpz_poly_is_monomial :: "zpoly \<Rightarrow> bool" where
  "mpz_poly_is_monomial f = (f \<noteq> [] \<and> mpz_poly_valuation f = length f - 1 \<and> last f = 1)"

definition mpz_poly_divisible_mpz :: "zpoly \<Rightarrow> int \<Rightarrow> bool" where
  "mpz_poly_divisible_mpz P a = list_all (\<lambda>c. a dvd c) P"

section \<open>Operations by coefficient\<close>

definition mpz_poly_neg :: "zpoly \<Rightarrow> zpoly" where
  "mpz_poly_neg g = map uminus g"

definition mpz_poly_add :: "zpoly \<Rightarrow> zpoly \<Rightarrow> zpoly" where
  "mpz_poly_add g h =
     (let n = max (length g) (length h)
      in cleandeg (map (\<lambda>i. let z = (if i < length g then g ! i else 0)
                            in if i < length h then z + h ! i else z) [0..<n]))"

definition mpz_poly_sub :: "zpoly \<Rightarrow> zpoly \<Rightarrow> zpoly" where
  "mpz_poly_sub g h =
     (let n = max (length g) (length h)
      in cleandeg (map (\<lambda>i. if i < length g \<and> i < length h then g ! i - h ! i
                            else if i < length g then g ! i
                            else - (h ! i)) [0..<n]))"

definition mpz_poly_add_ui :: "zpoly \<Rightarrow> int \<Rightarrow> zpoly" where
  "mpz_poly_add_ui f a =
     (if f \<noteq> [] then let g = f[0 := f ! 0 + a] in if length g = 1 then cleandeg g else g
      else [a])"

definition mpz_poly_sub_ui :: "zpoly \<Rightarrow> int \<Rightarrow> zpoly" where
  "mpz_poly_sub_ui f a =
     (if f \<noteq> [] then let g = f[0 := f ! 0 - a] in if length g = 1 then cleandeg g else g
      else [- a])"

definition mpz_poly_add_mpz :: "zpoly \<Rightarrow> int \<Rightarrow> zpoly" where
  "mpz_poly_add_mpz g a =
     (if g = [] then cleandeg [a]
      else let f = g[0 := g ! 0 + a] in if length f = 1 then cleandeg f else f)"

definition mpz_poly_sub_mpz :: "zpoly \<Rightarrow> int \<Rightarrow> zpoly" where
  "mpz_poly_sub_mpz g a =
     (if g = [] then map uminus (cleandeg [a])
      else let f = g[0 := g ! 0 - a] in if length f = 1 then cleandeg f else f)"

definition mpz_poly_mul_mpz :: "zpoly \<Rightarrow> int \<Rightarrow> zpoly" where
  "mpz_poly_mul_mpz P a = cleandeg (map (\<lambda>c. c * a) P)"

definition mpz_poly_mul_si :: "zpoly \<Rightarrow> int \<Rightarrow> zpoly" where
  "mpz_poly_mul_si g k = cleandeg (map (\<lambda>c. c * k) g)"

definition mpz_poly_divexact_mpz :: "zpoly \<Rightarrow> int \<Rightarrow> zpoly" where
  "mpz_poly_divexact_mpz P a = cleandeg (map (\<lambda>c. c div a) P)"

definition mpz_poly_divexact_ui :: "zpoly \<Rightarrow> int \<Rightarrow> zpoly" where
  "mpz_poly_divexact_ui g k = cleandeg (map (\<lambda>c. c div k) g)"

text \<open>
  \<open>addmul_cells c g k t\<close> adds \<open>k * g\<close> to the cells from \<open>t\<close> on. The rotations first extend the copy of \<open>f\<close>
  by zeros; the variants for machine integers are the same function.
\<close>

definition addmul_cells :: "int list \<Rightarrow> zpoly \<Rightarrow> int \<Rightarrow> nat \<Rightarrow> int list" where
  "addmul_cells c g k t = fold (\<lambda>i c. c[i + t := c ! (i + t) + g ! i * k]) [0..<length g] c"

definition mpz_poly_rotation :: "zpoly \<Rightarrow> zpoly \<Rightarrow> int \<Rightarrow> nat \<Rightarrow> zpoly" where
  "mpz_poly_rotation f g k t =
     (let fr = f @ replicate (t + length g - length f) 0
      in cleandeg (addmul_cells fr g k t))"

definition mpz_poly_reverse_rotation :: "zpoly \<Rightarrow> zpoly \<Rightarrow> int \<Rightarrow> nat \<Rightarrow> zpoly" where
  "mpz_poly_reverse_rotation f g k t =
     (let fr = f @ replicate (t + length g - length f) 0
      in cleandeg (addmul_cells fr g (- k) t))"

definition mpz_poly_addmul_si :: "zpoly \<Rightarrow> zpoly \<Rightarrow> int \<Rightarrow> zpoly" where
  "mpz_poly_addmul_si f g k =
     (let fr = f @ replicate (length g - length f) 0
      in cleandeg (addmul_cells fr g k 0))"

text \<open>The inner loop of the translation, on the coefficients from \<open>i\<close> on.\<close>

fun translation_row :: "int \<Rightarrow> int list \<Rightarrow> int list" where
  "translation_row k (a # b # r) = (a + b * k) # translation_row k (b # r)"
| "translation_row k r = r"

fun mpz_poly_translation :: "zpoly \<Rightarrow> int \<Rightarrow> zpoly" where
  "mpz_poly_translation [] k = []"
| "mpz_poly_translation (c # f) k = translation_row k (c # mpz_poly_translation f k)"

text \<open>The running pair of the loop is the previous coefficient and the rest of the source.\<close>

fun mul_xplusa_loop :: "int \<Rightarrow> zpoly \<Rightarrow> int \<Rightarrow> zpoly" where
  "mul_xplusa_loop aux [] a = [aux]"
| "mul_xplusa_loop aux (c # f) a = (aux + c * a) # mul_xplusa_loop c f a"

definition mpz_poly_mul_xplusa :: "zpoly \<Rightarrow> int \<Rightarrow> zpoly" where
  "mpz_poly_mul_xplusa f a = mul_xplusa_loop 0 f a"

definition mpz_poly_derivative :: "zpoly \<Rightarrow> zpoly" where
  "mpz_poly_derivative f =
     (if length f \<le> 1 then [] else map (\<lambda>n. f ! (n + 1) * int (n + 1)) [0..<length f - 1])"

definition mpz_poly_to_monic :: "zpoly \<Rightarrow> zpoly" where
  "mpz_poly_to_monic f =
     (if f = [] then []
      else let d = length f - 1
           in map (\<lambda>k. ((\<lambda>t. t * last f) ^^ (d - 1 - k)) (f ! k)) [0..<d] @ [1])"

section \<open>Evaluation\<close>

definition mpz_poly_eval :: "zpoly \<Rightarrow> int \<Rightarrow> int" where
  "mpz_poly_eval f x = (if f = [] then 0 else foldr (\<lambda>c res. res * x + c) (butlast f) (last f))"

definition mpz_poly_eval_mod_mpz :: "zpoly \<Rightarrow> int \<Rightarrow> int \<Rightarrow> int" where
  "mpz_poly_eval_mod_mpz f x m =
     (if f = [] then 0 else foldr (\<lambda>c res. (res * x + c) mod m) (butlast f) (last f mod m))"

definition mpz_poly_is_root :: "zpoly \<Rightarrow> int \<Rightarrow> int \<Rightarrow> bool" where
  "mpz_poly_is_root f root m = (mpz_poly_eval_mod_mpz f root m = 0)"

text \<open>Several polynomials at one point; \<open>w\<close> is the current power.\<close>

fun eval_several_loop :: "int \<Rightarrow> int \<Rightarrow> zpoly list \<Rightarrow> nat \<Rightarrow> nat \<Rightarrow> int \<Rightarrow> int list \<Rightarrow> int list" where
  "eval_several_loop x m fs i 0 w r = r"
| "eval_several_loop x m fs i (Suc n) w r =
     (let w = (w * x) mod m
      in eval_several_loop x m fs (i + 1) n w
           (map2 (\<lambda>f rj. if i < length f then rj + w * f ! i else rj) fs r))"

definition mpz_poly_eval_several_mod_mpz :: "zpoly list \<Rightarrow> int \<Rightarrow> int \<Rightarrow> int list" where
  "mpz_poly_eval_several_mod_mpz fs x m =
     (if length fs = 1 then [mpz_poly_eval_mod_mpz (hd fs) x m]
      else let r = map (\<lambda>f. if f \<noteq> [] then f ! 0 else 0) fs;
               r = map2 (\<lambda>f rj. if 1 < length f then rj + x * f ! 1 else rj) fs r;
               maxlen = fold max (map length fs) 0;
               r = eval_several_loop x m fs 2 (maxlen - 2) x r
           in map (\<lambda>rj. rj mod m) r)"

text \<open>The derivative at a point, for a nonzero polynomial.\<close>

fun eval_diff_loop :: "zpoly \<Rightarrow> int \<Rightarrow> nat \<Rightarrow> int \<Rightarrow> int" where
  "eval_diff_loop f x 0 res = res"
| "eval_diff_loop f x (Suc i) res = (if i = 0 then res else eval_diff_loop f x i (res * x + f ! i * int i))"

definition mpz_poly_eval_diff :: "zpoly \<Rightarrow> int \<Rightarrow> int" where
  "mpz_poly_eval_diff f x =
     (let d = length f - 1 in eval_diff_loop f x d (f ! d * int d))"

text \<open>The homogeneous form of degree \<open>d > 0\<close> at \<open>(i, j)\<close>.\<close>

fun homogeneous_loop :: "zpoly \<Rightarrow> int \<Rightarrow> int \<Rightarrow> nat \<Rightarrow> int \<Rightarrow> int \<Rightarrow> int" where
  "homogeneous_loop f i j 0 v jpow = v"
| "homogeneous_loop f i j (Suc k) v jpow =
     (let v = v * i; jpow = jpow * j in homogeneous_loop f i j k (v + f ! k * jpow) jpow)"

definition mpz_poly_homogeneous_eval :: "zpoly \<Rightarrow> int \<Rightarrow> int \<Rightarrow> int" where
  "mpz_poly_homogeneous_eval f i j =
     (let k = length f - 1;
          v = f ! k * i;
          jpow = j;
          k = k - 1
      in homogeneous_loop f i j k (v + f ! k * jpow) jpow)"

section \<open>Content and norms\<close>

definition mpz_poly_content :: "zpoly \<Rightarrow> int" where
  "mpz_poly_content f = (if f = [] then 0 else \<bar>fold (\<lambda>a c. gcd c a) (tl f) (hd f)\<bar>)"

fun trivial_content_loop :: "int \<Rightarrow> int list \<Rightarrow> int" where
  "trivial_content_loop c [] = c"
| "trivial_content_loop c (a # r) = (if c > 1 then trivial_content_loop \<bar>gcd c a\<bar> r else c)"

definition mpz_poly_has_trivial_content :: "zpoly \<Rightarrow> bool" where
  "mpz_poly_has_trivial_content f = (trivial_content_loop \<bar>hd f\<bar> (tl f) = 1)"

text \<open>The result tells whether the content was not trivial.\<close>

definition mpz_poly_divide_by_content :: "zpoly \<Rightarrow> bool \<times> zpoly" where
  "mpz_poly_divide_by_content f =
     (let c = mpz_poly_content f in if c = 1 then (False, f) else (True, map (\<lambda>a. a div c) f))"

definition mpz_poly_infinity_norm :: "zpoly \<Rightarrow> int" where
  "mpz_poly_infinity_norm f =
     (if f = [] then 0 else fold (\<lambda>a n. if \<bar>a\<bar> > \<bar>n\<bar> then \<bar>a\<bar> else n) (tl f) \<bar>hd f\<bar>)"

section \<open>Reduction modulo an integer\<close>

definition mpz_poly_mod_mpz :: "zpoly \<Rightarrow> int \<Rightarrow> zpoly" where
  "mpz_poly_mod_mpz A m = cleandeg (map (\<lambda>c. c mod m) A)"

definition mpz_poly_mod_mpz_lazy :: "zpoly \<Rightarrow> int \<Rightarrow> zpoly" where
  "mpz_poly_mod_mpz_lazy A m = cleandeg (map (\<lambda>c. if c \<ge> 0 then c mod m else - ((- c) mod m)) A)"

definition mpz_poly_sub_mod_mpz :: "zpoly \<Rightarrow> zpoly \<Rightarrow> int \<Rightarrow> zpoly" where
  "mpz_poly_sub_mod_mpz g h m = mpz_poly_mod_mpz (mpz_poly_sub g h) m"

text \<open>
  Halving modulo an odd integer; \<open>None\<close> is the failed assertion that it is odd. The function
  writes the cells of \<open>f\<close> and does not touch its degree; \<open>f\<close> and \<open>g\<close> may be the same object.
\<close>

definition mpz_poly_div_2_mod_mpz :: "mpz_poly \<Rightarrow> mpz_poly \<Rightarrow> int \<Rightarrow> mpz_poly option" where
  "mpz_poly_div_2_mod_mpz f g m =
     (if even m then None
      else let n = nat (deg g + 1);
               f = mpz_poly_realloc f n
           in Some (f\<lparr>coeff := map (\<lambda>c. if odd c then (c + m) div 2 else c div 2) (take n (coeff g)) @ drop n (coeff f)\<rparr>))"

section \<open>Coefficients of the results\<close>

lemma cf_map_upt: "cf (map h [0..<n]) i = (if i < n then h i else 0)"
  by (simp add: cf_def)

lemma neg_cf: "cf (mpz_poly_neg g) n = - cf g n"
  by (simp add: mpz_poly_neg_def cf_map)

lemma add_cf: "cf (mpz_poly_add g h) = sadd (cf g) (cf h)"
  by (auto simp: mpz_poly_add_def Let_def fun_eq_iff cf_map_upt sadd_def cf_def)

lemma sub_cf: "cf (mpz_poly_sub g h) = ssub (cf g) (cf h)"
  by (auto simp: mpz_poly_sub_def Let_def fun_eq_iff cf_map_upt ssub_def cf_def)

lemma mul_mpz_cf: "cf (mpz_poly_mul_mpz P a) = smult a (cf P)"
  by (simp add: mpz_poly_mul_mpz_def fun_eq_iff cf_map smult_def mult.commute)

lemma mul_si_cf: "cf (mpz_poly_mul_si P a) = smult a (cf P)"
  by (simp add: mpz_poly_mul_si_def fun_eq_iff cf_map smult_def mult.commute)

lemma mod_mpz_cf: "cf (mpz_poly_mod_mpz A m) n = cf A n mod m"
  by (simp add: mpz_poly_mod_mpz_def cf_map)

lemma mod_mpz_scong: "scong m (cf (mpz_poly_mod_mpz A m)) (cf A)"
  by (simp add: scong_def mod_mpz_cf)

lemma divexact_mpz_cf: "cf (mpz_poly_divexact_mpz P a) n = cf P n div a"
  by (simp add: mpz_poly_divexact_mpz_def cf_map)

lemma add_mpz_cf: "cf (mpz_poly_add_mpz g a) = sadd (cf g) (mono a 0)"
  by (auto simp: mpz_poly_add_mpz_def Let_def fun_eq_iff cf_update sadd_def mono_def cf_Cons szero_def cf_lt)

lemma sub_mpz_cf: "cf (mpz_poly_sub_mpz g a) = ssub (cf g) (mono a 0)"
  by (auto simp: mpz_poly_sub_mpz_def Let_def fun_eq_iff cf_update ssub_def mono_def cf_Cons szero_def cf_lt cf_map)

lemma addmul_cells_length [simp]: "length (addmul_cells c g k t) = length c"
proof -
  have "length (fold (\<lambda>i c. c[i + t := c ! (i + t) + g ! i * k]) is c) = length c" for "is"
    by (induction "is" arbitrary: c) simp_all
  then show ?thesis by (simp add: addmul_cells_def)
qed

lemma addmul_cells_nth:
  fixes c g :: "int list"
  assumes "t + n \<le> length c" "j < length c"
  shows "fold (\<lambda>i c. c[i + t := c ! (i + t) + g ! i * k]) [0..<n] c ! j
    = c ! j + (if t \<le> j \<and> j < t + n then g ! (j - t) * k else 0)"
  using assms
proof (induction n)
  case (Suc n)
  define d where "d = fold (\<lambda>i c. c[i + t := c ! (i + t) + g ! i * k]) [0..<n] c"
  have "length (fold (\<lambda>i c. c[i + t := c ! (i + t) + g ! i * k]) is c) = length c" for "is"
    by (induction "is" arbitrary: c) simp_all
  then have "length d = length c" by (simp add: d_def)
  moreover have dj: "d ! j = c ! j + (if t \<le> j \<and> j < t + n then g ! (j - t) * k else 0)"
    using Suc by (simp add: d_def)
  moreover have "fold (\<lambda>i c. c[i + t := c ! (i + t) + g ! i * k]) [0..<Suc n] c = d[n + t := d ! (n + t) + g ! n * k]"
    by (simp add: d_def)
  ultimately show ?case using Suc.prems by (cases "j = n + t") auto
qed simp

lemma addmul_cells_cf:
  assumes "t + length g \<le> length c"
  shows "cf (addmul_cells c g k t) = sadd (cf c) (conv (mono k t) (cf g))"
proof
  fix n
  show "cf (addmul_cells c g k t) n = sadd (cf c) (conv (mono k t) (cf g)) n"
  proof (cases "n < length c")
    case True
    then show ?thesis
      using addmul_cells_nth [OF assms True, of g k, folded addmul_cells_def]
      by (auto simp: cf_lt sadd_def conv_mono cf_def mult.commute)
  qed (use assms in \<open>auto simp: sadd_def conv_mono\<close>)
qed

lemma rotation_cf:
  "cf (mpz_poly_rotation f g k t) = sadd (cf f) (conv (mono k t) (cf g))"
  "cf (mpz_poly_reverse_rotation f g k t) = ssub (cf f) (conv (mono k t) (cf g))"
  by (simp_all add: mpz_poly_rotation_def mpz_poly_reverse_rotation_def Let_def addmul_cells_cf)
    (simp add: fun_eq_iff sadd_def ssub_def conv_mono)

lemma addmul_si_cf: "cf (mpz_poly_addmul_si f g k) = sadd (cf f) (smult k (cf g))"
  by (simp add: mpz_poly_addmul_si_def Let_def addmul_cells_cf conv_mono0)

lemma mul_xplusa_loop_cf: "cf (mul_xplusa_loop aux f a) n = (if n = 0 then aux else cf f (n - 1)) + a * cf f n"
proof (induction f arbitrary: aux n)
  case (Cons c f)
  then show ?case by (cases n) (simp_all add: cf_Cons mult.commute)
qed (simp add: cf_Cons szero_def)

lemma mul_xplusa_cf: "cf (mpz_poly_mul_xplusa f a) = conv (sadd (mono 1 1) (mono a 0)) (cf f)"
  by (simp add: fun_eq_iff mpz_poly_mul_xplusa_def mul_xplusa_loop_cf conv_add_left sadd_def conv_mono)

lemma derivative_cf: "cf (mpz_poly_derivative f) n = int (n + 1) * cf f (n + 1)"
  by (auto simp: mpz_poly_derivative_def cf_map_upt cf_def mult.commute)

lemma normalized_results [simp]:
  "normalized (mpz_poly_add g h)" "normalized (mpz_poly_sub g h)" "normalized (mpz_poly_mul_mpz g a)"
  "normalized (mpz_poly_mod_mpz g m)" "normalized (mpz_poly_rotation f g k t)"
  "normalized (mpz_poly_divexact_mpz g a)"
  by (simp_all add: mpz_poly_add_def mpz_poly_sub_def mpz_poly_mul_mpz_def mpz_poly_mod_mpz_def
      mpz_poly_rotation_def mpz_poly_divexact_mpz_def Let_def)

section \<open>Values of the results\<close>

lemma eval_value: "mpz_poly_eval f x = evalp f x"
proof -
  have "foldr (\<lambda>c res. res * x + c) f r = evalp f x + x ^ length f * r" for f r
    by (induction f) (simp_all add: evalp_Cons algebra_simps)
  then show ?thesis
    using evalp_snoc [of "butlast f" "last f" x] by (auto simp: mpz_poly_eval_def)
qed

lemma eval_mod_value: "mpz_poly_eval_mod_mpz f x m = evalp f x mod m"
proof -
  have "foldr (\<lambda>c res. (res * x + c) mod m) f (r mod m) = (evalp f x + x ^ length f * r) mod m" for f r
  proof (induction f)
    case (Cons c f)
    have "((evalp f x + x ^ length f * r) mod m * x + c) mod m = ((evalp f x + x ^ length f * r) * x + c) mod m"
      by (metis mod_add_left_eq mod_mult_left_eq)
    then show ?case using Cons by (simp add: evalp_Cons algebra_simps)
  qed simp
  then show ?thesis
    using evalp_snoc [of "butlast f" "last f" x] by (auto simp: mpz_poly_eval_mod_mpz_def mult.commute)
qed

lemma translation_length [simp]: "length (translation_row k r) = length r" "length (mpz_poly_translation f k) = length f"
proof -
  show row: "length (translation_row k r) = length r" for r by (induction k r rule: translation_row.induct) simp_all
  show "length (mpz_poly_translation f k) = length f" by (induction f) (simp_all add: row)
qed

lemma translation_row_value: "evalp (translation_row k (a # q)) x = a + x * evalp q x + k * evalp q x"
  by (induction q arbitrary: a) (simp_all add: evalp_Cons algebra_simps)

lemma translation_value: "evalp (mpz_poly_translation f k) x = evalp f (x + k)"
  by (induction f) (simp_all add: translation_row_value evalp_Cons algebra_simps)

lemma homogeneous_loop_value:
  "homogeneous_loop f i j k v jp = v * i ^ k + jp * (\<Sum>l<k. f ! l * i ^ l * j ^ (k - l))"
proof (induction k arbitrary: v jp)
  case (Suc k)
  have "(\<Sum>l<k. f ! l * i ^ l * j ^ (Suc k - l)) = j * (\<Sum>l<k. f ! l * i ^ l * j ^ (k - l))"
    by (simp add: sum_distrib_left Suc_diff_le algebra_simps)
  then show ?case using Suc by (simp add: Let_def algebra_simps)
qed simp

lemma homogeneous_value:
  assumes "2 \<le> length f"
  shows "mpz_poly_homogeneous_eval f i j = (\<Sum>k<length f. f ! k * i ^ k * j ^ (length f - 1 - k))"
proof -
  obtain k where k: "length f = Suc (Suc k)" using assms le_Suc_ex [OF assms] by auto
  define S where "S = (\<Sum>l<k. f ! l * i ^ l * j ^ (k - l))"
  have "(\<Sum>l<k. f ! l * i ^ l * j ^ (Suc k - l)) = j * S"
    by (simp add: S_def sum_distrib_left Suc_diff_le algebra_simps)
  then have "(\<Sum>k<length f. f ! k * i ^ k * j ^ (length f - 1 - k)) = j * S + f ! k * i ^ k * j + f ! Suc k * i ^ Suc k"
    by (simp add: k)
  also have "\<dots> = mpz_poly_homogeneous_eval f i j"
    unfolding mpz_poly_homogeneous_eval_def Let_def k diff_Suc_1 homogeneous_loop_value S_def [symmetric]
    by (simp add: algebra_simps)
  finally show ?thesis by simp
qed

lemma eval_diff_loop_value:
  "eval_diff_loop f x (Suc n) res = res * x ^ n + (\<Sum>i<n. f ! Suc i * int (Suc i) * x ^ i)"
proof (induction n arbitrary: res)
  case (Suc n)
  have "eval_diff_loop f x (Suc (Suc n)) res = eval_diff_loop f x (Suc n) (res * x + f ! Suc n * int (Suc n))" by simp
  then show ?case unfolding Suc by (simp add: algebra_simps)
qed simp

lemma eval_diff_value:
  assumes "f \<noteq> []"
  shows "mpz_poly_eval_diff f x = evalp (mpz_poly_derivative f) x"
proof -
  obtain d where d: "length f = Suc d" using assms by (cases f) auto
  show ?thesis
  proof (cases d)
    case 0
    then show ?thesis using d by (simp add: mpz_poly_eval_diff_def mpz_poly_derivative_def)
  next
    case (Suc n)
    have "mpz_poly_derivative f = map (\<lambda>i. f ! Suc i * int (Suc i)) [0..<Suc n]"
      using d Suc by (simp add: mpz_poly_derivative_def)
    then have "evalp (mpz_poly_derivative f) x = (\<Sum>i<Suc n. f ! Suc i * int (Suc i) * x ^ i)"
      unfolding evalp_def by (intro sum.cong) (simp_all del: upt_Suc)
    also have "\<dots> = mpz_poly_eval_diff f x"
      unfolding mpz_poly_eval_diff_def Let_def d Suc diff_Suc_1 eval_diff_loop_value by (simp add: algebra_simps)
    finally show ?thesis by simp
  qed
qed

lemma content_value:
  "0 \<le> mpz_poly_content f" "d dvd mpz_poly_content f \<longleftrightarrow> (\<forall>c\<in>set f. d dvd c)"
proof -
  have "d dvd fold (\<lambda>a c. gcd c a) r c \<longleftrightarrow> d dvd c \<and> (\<forall>a\<in>set r. d dvd a)" for r c
    by (induction r arbitrary: c) auto
  then show "d dvd mpz_poly_content f \<longleftrightarrow> (\<forall>c\<in>set f. d dvd c)"
    by (cases f) (simp_all add: mpz_poly_content_def)
qed (simp add: mpz_poly_content_def)

lemma eval_several_loop_value:
  assumes "length r = length fs" "j < length fs"
  shows "length (eval_several_loop x m fs i n w r) = length fs
    \<and> eval_several_loop x m fs i n w r ! j mod m
       = (r ! j + w * x * (\<Sum>k<n. cf (fs ! j) (i + k) * x ^ k)) mod m"
  using assms
proof (induction n arbitrary: i w r)
  case (Suc n)
  define w' where "w' = (w * x) mod m"
  define r' where "r' = map2 (\<lambda>f rj. if i < length f then rj + w' * f ! i else rj) fs r"
  have r': "length r' = length fs" "r' ! j = r ! j + w' * cf (fs ! j) i" using Suc.prems by (auto simp: r'_def cf_def)
  define S where "S = (\<Sum>k<n. cf (fs ! j) (Suc (i + k)) * x ^ k)"
  have "(\<Sum>k<Suc n. cf (fs ! j) (i + k) * x ^ k) = cf (fs ! j) i + x * S"
    unfolding sum.lessThan_Suc_shift S_def by (simp add: sum_distrib_left algebra_simps)
  moreover have "(r' ! j + w' * x * S) mod m = (r ! j + w * x * (cf (fs ! j) i + x * S)) mod m"
  proof -
    have "(r' ! j + w' * x * S) mod m = (r ! j + w' * (cf (fs ! j) i + x * S)) mod m"
      unfolding r'(2) by (simp add: algebra_simps)
    also have "\<dots> = (r ! j + w * x * (cf (fs ! j) i + x * S)) mod m"
      unfolding w'_def by (intro mod_add_cong mod_mult_left_eq refl)
    finally show ?thesis .
  qed
  moreover have "eval_several_loop x m fs i (Suc n) w r = eval_several_loop x m fs (i + 1) n w' r'"
    unfolding r'_def w'_def by (simp add: Let_def)
  ultimately show ?case using Suc.IH [OF r'(1) Suc.prems(2), of "i + 1" w'] by (simp add: S_def)
qed simp

lemma fold_max_ge: "(\<forall>y\<in>set ys. y \<le> fold max ys a) \<and> a \<le> fold max ys a" for a :: nat
proof (induction ys arbitrary: a)
  case (Cons b ys)
  show ?case using Cons.IH [of "max b a"] by simp
qed simp

lemma eval_several_value:
  "mpz_poly_eval_several_mod_mpz fs x m = map (\<lambda>f. evalp f x mod m) fs"
proof (cases "length fs = 1")
  case True
  then show ?thesis by (cases fs) (simp_all add: mpz_poly_eval_several_mod_mpz_def eval_mod_value)
next
  case False
  define r where "r = map2 (\<lambda>f rj. if 1 < length f then rj + x * f ! 1 else rj) fs (map (\<lambda>f. if f \<noteq> [] then f ! 0 else 0) fs)"
  define L where "L = fold max (map length fs) 0"
  show ?thesis
  proof (rule nth_equalityI)
    have lr: "length r = length fs" by (simp add: r_def)
    have "length (eval_several_loop x m fs i n w s) = length fs" if "length s = length fs" for i n w s
      using that by (induction n arbitrary: i w s) (simp_all add: Let_def)
    then show len: "length (mpz_poly_eval_several_mod_mpz fs x m) = length (map (\<lambda>f. evalp f x mod m) fs)"
      using False lr by (simp add: mpz_poly_eval_several_mod_mpz_def Let_def flip: r_def L_def)
    fix j assume "j < length (mpz_poly_eval_several_mod_mpz fs x m)"
    then have j: "j < length fs" using len by simp
    define f where "f = fs ! j"
    have "length f \<le> L" using j fold_max_ge [of "map length fs" 0] by (auto simp: L_def f_def)
    have rj: "r ! j = cf f 0 + x * cf f 1" using j by (auto simp: r_def cf_def f_def)
    have "evalp f x = (\<Sum>i<2 + (L - 2). cf f i * x ^ i)" using \<open>length f \<le> L\<close> by (intro evalp_cf) simp
    also have "\<dots> = r ! j + x * x * (\<Sum>k<L - 2. cf f (2 + k) * x ^ k)"
      unfolding rj by (simp add: sum.lessThan_Suc_shift sum_distrib_left numeral_2_eq_2 algebra_simps del: sum.lessThan_Suc)
    finally have "evalp f x = r ! j + x * x * (\<Sum>k<L - 2. cf f (2 + k) * x ^ k)" .
    then show "mpz_poly_eval_several_mod_mpz fs x m ! j = map (\<lambda>f. evalp f x mod m) fs ! j"
      using False j eval_several_loop_value [OF lr j, of x m 2 "L - 2" x]
      unfolding mpz_poly_eval_several_mod_mpz_def Let_def r_def [symmetric] L_def [symmetric] by (simp add: f_def)
  qed
qed

lemma all_less_Suc: "(\<forall>i<Suc n. P i) \<longleftrightarrow> (\<forall>i<n. P i) \<and> P n"
  by (auto simp: less_Suc_eq)

lemma cmp_down_0_iff: "cmp_down a b n = 0 \<longleftrightarrow> (\<forall>i<n. cf a i = cf b i)"
  if "n \<le> max (length a) (length b)"
  using that
proof (induction n)
  case (Suc n)
  define r where "r = (if n \<ge> length b then sgn (a ! n) else if n \<ge> length a then - sgn (b ! n) else mpz_cmp (a ! n) (b ! n))"
  have "r = 0 \<longleftrightarrow> cf a n = cf b n" using Suc.prems by (auto simp: r_def mpz_cmp_def cf_def sgn_0_0)
  moreover have "cmp_down a b (Suc n) = (if r \<noteq> 0 then r else cmp_down a b n)" by (simp add: r_def)
  ultimately show ?case using Suc by (simp add: all_less_Suc)
qed simp

lemma cmp_0_iff: "mpz_poly_cmp a b = 0 \<longleftrightarrow> cf a = cf b"
proof -
  have "mpz_poly_cmp a b = 0 \<longleftrightarrow> (\<forall>i<max (length a) (length b). cf a i = cf b i)"
    by (simp add: mpz_poly_cmp_def cmp_down_0_iff)
  also have "\<dots> \<longleftrightarrow> cf a = cf b"
  proof
    assume h: "\<forall>i<max (length a) (length b). cf a i = cf b i"
    show "cf a = cf b"
    proof
      fix i
      show "cf a i = cf b i" using h by (cases "i < max (length a) (length b)") auto
    qed
  qed simp
  finally show ?thesis .
qed

section \<open>Properties\<close>

text \<open>
  Evaluation. The value at a point, its residue, the values of several polynomials at once with shared
  powers, the test for a root, the shifted polynomial, the homogeneous form and the value of the derivative
  are what their names say.
\<close>
theorem mpz_poly_evaluations:
  "mpz_poly_eval f x = evalp f x
   \<and> mpz_poly_eval_mod_mpz f x m = evalp f x mod m
   \<and> mpz_poly_eval_several_mod_mpz fs x m = map (\<lambda>f. evalp f x mod m) fs
   \<and> (mpz_poly_is_root f x m \<longleftrightarrow> m dvd evalp f x)
   \<and> evalp (mpz_poly_translation f k) x = evalp f (x + k)
   \<and> (2 \<le> length f \<longrightarrow> mpz_poly_homogeneous_eval f i j = (\<Sum>k<length f. f ! k * i ^ k * j ^ (length f - 1 - k)))
   \<and> (f \<noteq> [] \<longrightarrow> mpz_poly_eval_diff f x = evalp (mpz_poly_derivative f) x)"
  using eval_value [of f x] eval_mod_value [of f x m] eval_several_value [of fs x m] translation_value [of f k x]
    homogeneous_value [of f i j] eval_diff_value [of f x]
  by (simp add: mpz_poly_is_root_def mod_eq_0_iff_dvd)

theorem mpz_poly_evaluations_witness:
  "mpz_poly_homogeneous_eval [1, 2, 3] 4 5 = (\<Sum>k<3. [1, 2, 3] ! k * 4 ^ k * 5 ^ (2 - k))
   \<and> mpz_poly_eval_diff [1, 2, 3] 4 = evalp (mpz_poly_derivative [1, 2, 3]) 4 \<and> mpz_poly_eval_diff [1, 2, 3] 4 = 26"
proof -
  have "mpz_poly_eval_diff [1, 2, 3] 4 = 26" by code_simp
  then show ?thesis using mpz_poly_evaluations [of "[1, 2, 3]" 4 1 "[]" 0 4 5] by (simp add: numeral_3_eq_3)
qed

text \<open>
  The linear operations have the coefficients of sums, differences, multiples and shifted multiples, and
  leave a normalised polynomial; residues are taken coefficient by coefficient.
\<close>
theorem mpz_poly_linear_operations:
  "cf (mpz_poly_add g h) = sadd (cf g) (cf h) \<and> normalized (mpz_poly_add g h)
   \<and> cf (mpz_poly_sub g h) = ssub (cf g) (cf h) \<and> normalized (mpz_poly_sub g h)
   \<and> cf (mpz_poly_mul_mpz g a) = smult a (cf g) \<and> normalized (mpz_poly_mul_mpz g a)
   \<and> cf (mpz_poly_rotation g h a t) = sadd (cf g) (conv (mono a t) (cf h)) \<and> normalized (mpz_poly_rotation g h a t)
   \<and> cf (mpz_poly_mul_xplusa g a) = conv (sadd (mono 1 1) (mono a 0)) (cf g)
   \<and> cf (mpz_poly_mod_mpz g m) = (\<lambda>n. cf g n mod m) \<and> normalized (mpz_poly_mod_mpz g m)
   \<and> (mpz_poly_cmp g h = 0 \<longleftrightarrow> cf g = cf h)"
  by (simp add: add_cf sub_cf mul_mpz_cf rotation_cf mul_xplusa_cf mod_mpz_cf cmp_0_iff fun_eq_iff [of "cf (mpz_poly_mod_mpz g m)"])

text \<open>
  The content is nonnegative and is divided by exactly the common divisors of the coefficients.
\<close>
theorem mpz_poly_content_greatest:
  "0 \<le> mpz_poly_content f \<and> (d dvd mpz_poly_content f \<longleftrightarrow> list_all (\<lambda>c. d dvd c) f)"
  using content_value [where f = f] by (simp add: list_all_iff)

text \<open>
  Halving in place modulo an odd integer gives a polynomial whose double is congruent to the
  argument. Into another object the degree of the result is not set: the half of a polynomial of degree one, written
  to a zero polynomial, is read back as zero.
\<close>
theorem mpz_poly_div_2_degree:
  assumes "mpz_poly_ok g" "odd m"
  shows "\<exists>f. mpz_poly_div_2_mod_mpz g g m = Some f \<and> mpz_poly_ok f \<and> deg f = deg g
    \<and> scong m (smult 2 (cf (coeffs f))) (cf (coeffs g))
    \<and> map_option coeffs (mpz_poly_div_2_mod_mpz (mpz_poly_init 1) \<lparr>coeff = [2, 4], deg = 1\<rparr> 7) = Some []"
proof -
  define n where "n = nat (deg g + 1)"
  define hv where "hv = (\<lambda>c. if odd c then (c + m) div 2 else c div (2 :: int))"
  have n: "n \<le> length (coeff g)" using assms(1) by (auto simp: mpz_poly_ok_def n_def)
  have "mpz_poly_realloc g n = g" using n by (simp add: mpz_poly_realloc_def)
  then have f: "mpz_poly_div_2_mod_mpz g g m = Some (g\<lparr>coeff := map hv (take n (coeff g)) @ drop n (coeff g)\<rparr>)"
    using assms(2) unfolding mpz_poly_div_2_mod_mpz_def Let_def n_def [symmetric] hv_def by simp
  define f where "f = g\<lparr>coeff := map hv (take n (coeff g)) @ drop n (coeff g)\<rparr>"
  have c: "coeffs f = map hv (coeffs g)" using n by (simp add: f_def coeffs_def flip: n_def)
  have "2 * hv x = x \<or> 2 * hv x = x + m" for x using assms(2) by (auto simp: hv_def)
  then have "(2 * hv x) mod m = x mod m" for x by (metis mod_add_self2)
  then have "scong m (smult 2 (cf (coeffs f))) (cf (coeffs g))" unfolding c by (simp add: scong_def smult_def cf_map hv_def) 
  moreover have "mpz_poly_ok f" using assms(1) n by (simp add: f_def mpz_poly_ok_def)
  moreover have "map_option coeffs (mpz_poly_div_2_mod_mpz (mpz_poly_init 1) \<lparr>coeff = [2, 4], deg = 1\<rparr> 7) = Some []"
    by code_simp
  ultimately show ?thesis using f by (auto simp: f_def)
qed

theorem mpz_poly_div_2_degree_witness:
  "\<exists>f. mpz_poly_div_2_mod_mpz \<lparr>coeff = [3, 4], deg = 1\<rparr> \<lparr>coeff = [3, 4], deg = 1\<rparr> 7 = Some f
     \<and> scong 7 (smult 2 (cf (coeffs f))) (cf [3, 4])"
  using mpz_poly_div_2_degree [of "\<lparr>coeff = [3, 4], deg = 1\<rparr>" 7] by (auto simp: mpz_poly_ok_def coeffs_def)

end
