(* ===== verification/MpzPolyMul.thy ===== *)
theory MpzPolyMul
  imports MpzPolyArith
begin

text \<open>
  Multiplication and squaring of polynomials in \<^verbatim>\<open>utils/mpz_poly.cpp\<close>: the schoolbook routines, the special
  cases of small degree, the generic Toom-Cook routine with its interpolation by fraction free
  elimination, the dispatch between them and powering. The straight line code of the special
  cases is kept statement by statement; the variable \<open>f2\<close> stands for the cell \<^verbatim>\<open>f[2]\<close>.
\<close>

section \<open>Schoolbook routines\<close>

definition mpz_poly_mul_basecase :: "zpoly \<Rightarrow> zpoly \<Rightarrow> zpoly" where
  "mpz_poly_mul_basecase g h =
     fold (\<lambda>i f. addmul_cells f h (g ! i) i) [0..<length g] (replicate (length g + length h - 1) 0)"

text \<open>The cell of degree \<open>2 r\<close> serves as a temporary in the third loop.\<close>

definition mpz_poly_sqr_basecase :: "zpoly \<Rightarrow> zpoly" where
  "mpz_poly_sqr_basecase g =
     (let r = length g - 1;
          f = replicate (2 * r + 1) 0;
          f = fold (\<lambda>i f. addmul_cells f (take i g) (g ! i) i) [0..<r + 1] f;
          f = fold (\<lambda>i f. f[i := 2 * f ! i]) [0..<2 * r] f;
          f = fold (\<lambda>i f. let f = f[2 * r := g ! i * g ! i] in f[2 * i := f ! (2 * i) + f ! (2 * r)]) [0..<r] f
      in f[2 * r := g ! r * g ! r])"

section \<open>Squares of small degree\<close>

definition mpz_poly_sqr_tc2 :: "int \<Rightarrow> int \<Rightarrow> int \<times> int \<times> int" where
  "mpz_poly_sqr_tc2 g0 g1 =
     (let f0 = g0 * g0;
          f2 = g1 * g1;
          f1 = g0 + g1;
          f1 = f1 * f1;
          f1 = f1 - f0;
          f1 = f1 - f2
      in (f0, f1, f2))"

definition tdiv_2exp :: "int \<Rightarrow> nat \<Rightarrow> int" where
  "tdiv_2exp a n = sgn a * (\<bar>a\<bar> div 2 ^ n)"

definition mpz_poly_sqr_tc3 :: "zpoly \<Rightarrow> zpoly" where
  "mpz_poly_sqr_tc3 a =
     (let c0 = a ! 0 * a ! 0;
          c1 = a ! 2 + a ! 0;
          c2 = c1 - a ! 1;
          c1 = c1 + a ! 1;
          c1 = c1 * c1;
          c2 = c2 * c2;
          c3 = a ! 2 * a ! 1;
          c3 = c3 * 2;
          c2 = c1 + c2;
          c2 = tdiv_2exp c2 1;
          c1 = c1 - c2;
          c1 = c1 - c3;
          c4 = a ! 2 * a ! 2;
          c2 = c2 - c4;
          c2 = c2 - c0
      in [c0, c1, c2, c3, c4])"

definition mpz_poly_sqr_tc4 :: "zpoly \<Rightarrow> zpoly" where
  "mpz_poly_sqr_tc4 g =
     (let f0 = g ! 0 + g ! 2;
          f1 = g ! 1 + g ! 3;
          (f2, f3, f4) = mpz_poly_sqr_tc2 f0 f1;
          t = f2;
          (f0, f1, f2) = mpz_poly_sqr_tc2 (g ! 0) (g ! 1);
          f4 = f4 - f2;
          f3 = f3 - f1;
          t = t - f0;
          f2 = f2 + t;
          t = f4;
          (f4, f5, f6) = mpz_poly_sqr_tc2 (g ! 2) (g ! 3);
          t = t - f6;
          f3 = f3 - f5;
          f2 = f2 - f4;
          f4 = f4 + t
      in [f0, f1, f2, f3, f4, f5, f6])"

section \<open>Toom-Cook interpolation\<close>

definition tdiv :: "int \<Rightarrow> int \<Rightarrow> int" where
  "tdiv a b = sgn a * sgn b * (\<bar>a\<bar> div \<bar>b\<bar>)"

definition MAX_TC_DEGREE :: nat where
  "MAX_TC_DEGREE = 19"

definition tc_points :: "int list" where
  "tc_points = [0, 1, -1, 2, -2, 3, -3, 4, -4, 5, -5, 6, -6, 7, -7, 8, -8, 9, -9]"

definition tc_G :: "int list" where
  "tc_G = [1, 1, 2, 6, 24, 120, 720, 5040, 40320, 362880, 3628800, 39916800, 479001600,
     6227020800, 87178291200, 1307674368000, 20922789888000, 355687428096000]"

text \<open>A row of the matrix: the powers of a point up to the degree.\<close>

fun tc_row :: "int \<Rightarrow> int \<Rightarrow> nat \<Rightarrow> int list" where
  "tc_row x p 0 = [p]"
| "tc_row x p (Suc n) = p # tc_row x (x * p) n"

text \<open>
  Forward elimination of one row, with its entry \<open>v\<close> of \<open>f\<close>, by the rows above it, which are paired with their entries of
  \<open>f\<close>; then of all the rows in turn.
\<close>

fun tc_steps :: "nat \<Rightarrow> (int list \<times> int) list \<Rightarrow> int list \<times> int \<Rightarrow> int list \<times> int" where
  "tc_steps j [] rv = rv"
| "tc_steps j ((rowj, fj) # ds) (row, v) =
     (let g = tc_G ! j;
          h = tdiv (row ! j) g;
          g = tdiv (rowj ! j) g;
          v = g * v - fj * h;
          row = take j row @ map2 (\<lambda>a b. g * a - h * b) (drop j row) (drop j rowj)
      in tc_steps (j + 1) ds (row, v))"

fun tc_forward :: "(int list \<times> int) list \<Rightarrow> (int list \<times> int) list \<Rightarrow> (int list \<times> int) list" where
  "tc_forward ds [] = ds"
| "tc_forward ds (rv # rest) = tc_forward (ds @ [tc_steps 0 ds rv]) rest"

text \<open>Back substitution from the last row up; \<open>sol\<close> are the coefficients found so far.\<close>

fun tc_back :: "(int list \<times> int) list \<Rightarrow> int list \<Rightarrow> int list" where
  "tc_back [] sol = sol"
| "tc_back ((row, v) # rs) sol =
     (let i = length rs;
          v = fold (\<lambda>(m, fj) v. v - fj * m) (zip (drop (i + 1) row) sol) v
      in tc_back rs (v div (row ! i) # sol))"

definition mpz_poly_mul_tc_interpolate :: "int list \<Rightarrow> nat \<Rightarrow> int list" where
  "mpz_poly_mul_tc_interpolate f t =
     (let rows = map (\<lambda>i. (tc_row (tc_points ! i) 1 t, f ! i)) [0..<t]
      in tc_back (rev (tc_forward [] rows)) [f ! t])"

definition mpz_poly_mul_eval_si :: "zpoly \<Rightarrow> int \<Rightarrow> int" where
  "mpz_poly_mul_eval_si g i = foldr (\<lambda>c v. v * i + c) (butlast g) (last g)"

section \<open>The product\<close>

definition mpz_poly_mul_tc_2 :: "zpoly \<Rightarrow> zpoly \<Rightarrow> zpoly" where
  "mpz_poly_mul_tc_2 g h =
     (let f0 = g ! 0 + g ! 1;
          f2 = h ! 0 + h ! 1;
          f1 = f0 * f2;
          f0 = g ! 0 * h ! 0;
          f2 = g ! 1 * h ! 1;
          f1 = f1 - f0;
          f1 = f1 - f2
      in [f0, f1, f2])"

definition mpz_poly_mul_tc_3 :: "zpoly \<Rightarrow> zpoly \<Rightarrow> zpoly" where
  "mpz_poly_mul_tc_3 g h =
     (let f1 = g ! 2 + g ! 0;
          f2 = f1 + g ! 1;
          f1 = f1 - g ! 1;
          f0 = h ! 0 + h ! 1;
          f2 = f2 * f0;
          f0 = h ! 0 - h ! 1;
          f0 = f1 * f0;
          f1 = f2 - f0;
          f2 = f2 + f0;
          f1 = f1 div 2;
          f2 = f2 div 2;
          f0 = g ! 0 * h ! 0;
          f2 = f2 - f0;
          f3 = g ! 2 * h ! 1;
          f1 = f1 - f3
      in [f0, f1, f2, f3])"

definition mpz_poly_mul_tc_4 :: "zpoly \<Rightarrow> zpoly \<Rightarrow> zpoly" where
  "mpz_poly_mul_tc_4 g h =
     (let f0 = g ! 2 + g ! 0;
          f4 = h ! 2 + h ! 0;
          f3 = f0 - g ! 1;
          f2 = f4 - h ! 1;
          f0 = f0 + g ! 1;
          f4 = f4 + h ! 1;
          f1 = f3 * f2;
          f2 = f0 * f4;
          f0 = f0 + g ! 2;
          f0 = f0 * 2;
          f0 = f0 - g ! 0;
          f4 = f4 + h ! 2;
          f4 = f4 * 2;
          f4 = f4 - h ! 0;
          f3 = f0 * f4;
          f0 = g ! 0 * h ! 0;
          f4 = g ! 2 * h ! 2;
          f3 = f3 - f1;
          f3 = f3 div 3;
          f1 = f2 - f1;
          f1 = f1 div 2;
          f2 = f2 - f0;
          f3 = f3 - f2;
          f3 = f3 div 2;
          f3 = f3 - f4 * 2;
          f2 = f2 - f1;
          f2 = f2 - f4;
          f1 = f1 - f3
      in [f0, f1, f2, f3, f4])"

text \<open>The generic routine for degrees \<open>r \<ge> s > 0\<close> with \<open>r + s \<le> MAX_TC_DEGREE\<close>.\<close>

definition mpz_poly_mul_tc_generic :: "zpoly \<Rightarrow> zpoly \<Rightarrow> zpoly" where
  "mpz_poly_mul_tc_generic g h =
     (let t = length g + length h - 2
      in mpz_poly_mul_tc_interpolate
           (map (\<lambda>i. if i = 0 then g ! 0 * h ! 0
                     else if i = t then last g * last h
                     else mpz_poly_mul_eval_si g (tc_points ! i) * mpz_poly_mul_eval_si h (tc_points ! i))
              [0..<t + 1]) t)"

definition mpz_poly_mul_tc_ge :: "zpoly \<Rightarrow> zpoly \<Rightarrow> zpoly" where
  "mpz_poly_mul_tc_ge g h =
     (let r = length g - 1; s = length h - 1; t = r + s
      in if s = 0 then map (\<lambda>c. c * h ! 0) g
         else if t = 2 then mpz_poly_mul_tc_2 g h
         else if t = 3 then mpz_poly_mul_tc_3 g h
         else if r = 2 then mpz_poly_mul_tc_4 g h
         else if t > MAX_TC_DEGREE then mpz_poly_mul_basecase g h
         else mpz_poly_mul_tc_generic g h)"

definition mpz_poly_mul_tc :: "zpoly \<Rightarrow> zpoly \<Rightarrow> zpoly" where
  "mpz_poly_mul_tc g h =
     (if g = [] \<or> h = [] then []
      else if length g < length h then mpz_poly_mul_tc_ge h g
      else mpz_poly_mul_tc_ge g h)"

text \<open>
  The size \<open>nbits\<close> that selects the squaring routine is read from the cell of degree zero of the result, which
  holds whatever was there before: it is a parameter.
\<close>

definition mpz_poly_sqr_tc :: "nat \<Rightarrow> zpoly \<Rightarrow> zpoly" where
  "mpz_poly_sqr_tc nbits g =
     (if g = [] then []
      else let r = length g - 1
           in if r = 0 then [g ! 0 * g ! 0]
              else if r = 1 then (case mpz_poly_sqr_tc2 (g ! 0) (g ! 1) of (f0, f1, f2) \<Rightarrow> [f0, f1, f2])
              else if r = 2 \<and> nbits < 4096 then mpz_poly_sqr_tc3 g
              else if r = 3 \<and> nbits < 4096 then mpz_poly_sqr_tc4 g
              else let t = 2 * r
                   in if t > MAX_TC_DEGREE then mpz_poly_sqr_basecase g
                      else mpz_poly_mul_tc_interpolate
                             (map (\<lambda>i. if i = 0 then g ! 0 * g ! 0
                                       else if i = t then g ! r * g ! r
                                       else let v = mpz_poly_mul_eval_si g (tc_points ! i) in v * v)
                                [0..<t + 1]) t)"

text \<open>For two different objects, and for twice the same one.\<close>

definition mpz_poly_mul :: "zpoly \<Rightarrow> zpoly \<Rightarrow> zpoly" where
  "mpz_poly_mul g h =
     (if g = [] \<or> h = [] then []
      else if length g = 1 then mpz_poly_mul_mpz h (g ! 0)
      else if length h = 1 then mpz_poly_mul_mpz g (h ! 0)
      else mpz_poly_mul_tc g h)"

definition mpz_poly_mul_self :: "nat \<Rightarrow> zpoly \<Rightarrow> zpoly" where
  "mpz_poly_mul_self nbits g = mpz_poly_sqr_tc nbits g"

section \<open>The reference product\<close>

fun padd :: "zpoly \<Rightarrow> zpoly \<Rightarrow> zpoly" where
  "padd [] h = h"
| "padd g [] = g"
| "padd (a # g) (b # h) = (a + b) # padd g h"

fun pmul :: "zpoly \<Rightarrow> zpoly \<Rightarrow> zpoly" where
  "pmul [] h = []"
| "pmul (c # g) h = padd (map (\<lambda>b. c * b) h) (0 # pmul g h)"

lemma padd_length [simp]: "length (padd g h) = max (length g) (length h)"
  by (induction g h rule: padd.induct) simp_all

lemma padd_cf: "cf (padd g h) n = cf g n + cf h n"
  by (induction g h arbitrary: n rule: padd.induct) (simp_all add: cf_Cons szero_def)

lemma padd_evalp: "evalp (padd g h) x = evalp g x + evalp h x"
  by (induction g h rule: padd.induct) (simp_all add: evalp_Cons algebra_simps)

lemma pmul_length: "g \<noteq> [] \<Longrightarrow> h \<noteq> [] \<Longrightarrow> length (pmul g h) = length g + length h - 1"
proof (induction g)
  case (Cons c g)
  have "1 \<le> length h" using Cons.prems(2) by (cases h) auto
  then show ?case using Cons by (cases "g = []") (auto simp: max_def)
qed simp

lemma conv_cf_Cons: "conv (cf (c # g)) b = sadd (smult c b) (conv (mono 1 1) (conv (cf g) b))"
proof -
  have "cf (c # g) n = sadd (mono c 0) (conv (mono 1 1) (cf g)) n" for n
    unfolding sadd_def conv_mono by (simp add: cf_Cons mono_def)
  then have "cf (c # g) = sadd (mono c 0) (conv (mono 1 1) (cf g))" by (rule ext)
  then show ?thesis by (simp only: conv_add_left conv_mono0 conv_assoc)
qed

lemma pmul_cf: "cf (pmul g h) = conv (cf g) (cf h)"
proof (induction g)
  case (Cons c g)
  show ?case unfolding conv_cf_Cons
    by (auto simp: fun_eq_iff padd_cf cf_map smult_def sadd_def cf_Cons conv_mono Cons)
qed simp

lemma evalp_map_times: "evalp (map ((*) c) h) x = c * evalp h x"
  by (induction h) (simp_all add: evalp_Cons distrib_left mult.left_commute)

lemma pmul_evalp: "evalp (pmul g h) x = evalp g x * evalp h x"
  by (induction g) (simp_all add: padd_evalp evalp_map_times evalp_Cons algebra_simps)

lemma pmul_commute: "g \<noteq> [] \<Longrightarrow> h \<noteq> [] \<Longrightarrow> pmul g h = pmul h g"
  by (intro cf_eq_imp_eq) (simp_all add: pmul_cf conv_commute pmul_length)

lemma pmul_hd: "g \<noteq> [] \<Longrightarrow> h \<noteq> [] \<Longrightarrow> pmul g h ! 0 = g ! 0 * h ! 0"
  by (cases g; cases h) simp_all

lemma pmul_last:
  assumes "g \<noteq> []" "h \<noteq> []"
  shows "pmul g h ! (length g + length h - 2) = last g * last h"
proof -
  define r s where "r = length g - 1" and "s = length h - 1"
  have len: "length g = Suc r" "length h = Suc s" using assms by (cases g; cases h; simp add: r_def s_def)+
  have "pmul g h ! (r + s) = (\<Sum>i\<le>r + s. cf g i * cf h (r + s - i))"
    using fun_cong [OF pmul_cf [of g h], of "r + s"] pmul_length [OF assms] len by (simp add: cf_lt conv_def)
  also have "\<dots> = (\<Sum>i\<le>r + s. if i = r then cf g i * cf h (r + s - i) else 0)"
  proof (rule sum.cong)
    fix i assume "i \<in> {..r + s}"
    then show "cf g i * cf h (r + s - i) = (if i = r then cf g i * cf h (r + s - i) else 0)"
      using len by (cases i r rule: linorder_cases) simp_all
  qed simp
  also have "\<dots> = cf g r * cf h s" by (simp add: sum.delta)
  finally show ?thesis using assms len by (simp add: cf_lt last_conv_nth)
qed

section \<open>The interpolation is exact\<close>

text \<open>
  The elimination on the matrix alone, with what the code relies on as checks: the listed
  divisors divide both entries, pivots are positive, and all entries and products fit a signed
  word.
\<close>

definition fits_int64 :: "int \<Rightarrow> bool" where
  "fits_int64 x \<longleftrightarrow> \<bar>x\<bar> < 2 ^ 63"

fun tc_msteps :: "nat \<Rightarrow> int list list \<Rightarrow> int list \<Rightarrow> int list option" where
  "tc_msteps j [] row = Some row"
| "tc_msteps j (rowj # ds) row =
     (let d = tc_G ! j; h = row ! j div d; g = rowj ! j div d;
          row' = map2 (\<lambda>a b. g * a - h * b) row rowj
      in if row ! j = h * d \<and> rowj ! j = g * d \<and> d > 0
           \<and> list_all (\<lambda>a. fits_int64 (g * a)) row \<and> list_all (\<lambda>b. fits_int64 (h * b)) rowj
           \<and> list_all fits_int64 row'
         then tc_msteps (j + 1) ds row' else None)"

fun tc_mforward :: "int list list \<Rightarrow> int list list \<Rightarrow> bool" where
  "tc_mforward ds [] = True"
| "tc_mforward ds (row # rest) =
     (case tc_msteps 0 ds row of None \<Rightarrow> False
      | Some row' \<Rightarrow> row' ! length ds > 0 \<and> tc_mforward (ds @ [row']) rest)"

definition tc_rows :: "nat \<Rightarrow> int list list" where
  "tc_rows t = map (\<lambda>x. tc_row x 1 t) (take t tc_points)"

lemma tc_matrix_checked: "tc_mforward [] (tc_rows 19)"
  by code_simp

text \<open>A smaller matrix is a corner of the largest one, and so is its elimination.\<close>

lemma tc_msteps_take:
  assumes "tc_msteps j ds row = Some row'" "j + length ds < m"
  shows "tc_msteps j (map (take m) ds) (take m row) = Some (take m row')"
  using assms
proof (induction ds arbitrary: j row)
  case (Cons rowj ds)
  have lt: "list_all P (take m xs)" if "list_all P xs" for P and xs :: "int list"
    using that by (auto simp: list_all_iff dest: in_set_takeD)
  define h g where "h = row ! j div tc_G ! j" and "g = rowj ! j div tc_G ! j"
  show ?case
    using Cons.prems Cons.IH [of "Suc j" "map2 (\<lambda>a b. g * a - h * b) row rowj"]
      lt [of fits_int64 "map2 (\<lambda>a b. g * a - h * b) row rowj"]
    by (auto simp: Let_def lt take_map take_zip h_def g_def split: if_splits)
qed simp

lemma tc_mforward_take:
  "tc_mforward ds (rows @ rest) \<Longrightarrow> length ds + length rows \<le> m \<Longrightarrow> tc_mforward (map (take m) ds) (map (take m) rows)"
proof (induction rows arbitrary: ds)
  case (Cons row rows)
  then obtain row' where "tc_msteps 0 ds row = Some row'" "row' ! length ds > 0" "tc_mforward (ds @ [row']) (rows @ rest)"
    by (auto split: option.splits)
  then show ?case using Cons.IH [of "ds @ [row']"] Cons.prems(2) tc_msteps_take [of 0 ds row row' m] by simp
qed simp

lemma take_tc_row: "take (Suc n) (tc_row x p (n + k)) = tc_row x p n"
proof (induction n arbitrary: p)
  case 0
  then show ?case by (cases k) simp_all
qed simp

lemma tc_rows_checked:
  assumes "t \<le> MAX_TC_DEGREE"
  shows "tc_mforward [] (tc_rows t)"
proof -
  obtain k where k: "19 = t + k" using assms le_Suc_ex [of t 19] by (auto simp: MAX_TC_DEGREE_def)
  have "tc_rows t = map (take (Suc t)) (take t (tc_rows 19))"
    using assms unfolding tc_rows_def k by (simp add: take_tc_row take_map MAX_TC_DEGREE_def)
  moreover have "tc_rows 19 = take t (tc_rows 19) @ drop t (tc_rows 19)" by simp
  moreover have "length (take t (tc_rows 19)) \<le> Suc t" by simp
  ultimately show ?thesis using tc_mforward_take [of "[]" "take t (tc_rows 19)" "drop t (tc_rows 19)" "Suc t"] tc_matrix_checked
    by simp
qed

definition dot :: "int list \<Rightarrow> int list \<Rightarrow> int" where
  "dot r a = (\<Sum>k<length r. r ! k * a ! k)"

lemma dot_map2:
  "length r = length s \<Longrightarrow> dot (map2 (\<lambda>a b. g * a - h * b) r s) a = g * dot r a - h * dot s a"
  by (simp add: dot_def sum_subtractf sum_distrib_left left_diff_distrib mult.assoc)

text \<open>A row that is reduced up to column \<open>j\<close> and holds a linear relation on the coefficients \<open>a\<close>.\<close>

definition reduced :: "nat \<Rightarrow> int list \<Rightarrow> nat \<Rightarrow> int list \<times> int \<Rightarrow> bool" where
  "reduced n a j rv \<longleftrightarrow> length (fst rv) = n \<and> (\<forall>k<j. fst rv ! k = 0) \<and> snd rv = dot (fst rv) a"

lemma tdiv_exact: "d > 0 \<Longrightarrow> tdiv (q * d) d = q" for q d :: int
  by (simp add: tdiv_def abs_mult sgn_mult mult_sgn_abs)

lemma tc_step_eq:
  fixes g h :: int
  assumes "j \<le> length row" "length row = length rowj" "\<And>k. k < j \<Longrightarrow> row ! k = 0" "\<And>k. k < j \<Longrightarrow> rowj ! k = 0"
  shows "take j row @ map2 (\<lambda>a b. g * a - h * b) (drop j row) (drop j rowj) = map2 (\<lambda>a b. g * a - h * b) row rowj"
proof (rule nth_equalityI)
  fix i assume "i < length (take j row @ map2 (\<lambda>a b. g * a - h * b) (drop j row) (drop j rowj))"
  then show "(take j row @ map2 (\<lambda>a b. g * a - h * b) (drop j row) (drop j rowj)) ! i
      = map2 (\<lambda>a b. g * a - h * b) row rowj ! i"
    using assms by (cases "i < j") (simp_all add: nth_append)
qed (use assms in auto)

lemma tc_steps_reduced:
  assumes "reduced n a j (row, v)" "\<forall>k<length ds. reduced n a (j + k) (ds ! k)"
    and "j + length ds < n" "tc_msteps j (map fst ds) row = Some row'"
  shows "reduced n a (j + length ds) (tc_steps j ds (row, v)) \<and> fst (tc_steps j ds (row, v)) = row'"
  using assms
proof (induction ds arbitrary: j row v)
  case (Cons d ds)
  obtain rowj fj where d: "d = (rowj, fj)" by (cases d)
  define D g h where "D = tc_G ! j" and "g = rowj ! j div D" and "h = row ! j div D"
  define row1 where "row1 = map2 (\<lambda>a b. g * a - h * b) row rowj"
  have chk: "row ! j = h * D" "rowj ! j = g * D" "D > 0" "tc_msteps (j + 1) (map fst ds) row1 = Some row'"
    using Cons.prems(4) by (simp_all add: d Let_def D_def g_def h_def row1_def split: if_splits)
  have r: "length row = n" "\<forall>k<j. row ! k = 0" "v = dot row a" and rj: "length rowj = n" "\<forall>k<j. rowj ! k = 0" "fj = dot rowj a"
    using Cons.prems(1) spec [OF Cons.prems(2), of 0] by (simp_all add: reduced_def d)
  have jn: "j < n" using Cons.prems(3) by simp
  have "tdiv (row ! j) D = h" "tdiv (rowj ! j) D = g" using tdiv_exact [OF chk(3)] by (simp_all add: chk(1,2))
  then have step: "tc_steps j (d # ds) (row, v) = tc_steps (j + 1) ds (row1, g * v - fj * h)"
    using tc_step_eq [of j row rowj g h] r rj jn by (simp add: d Let_def row1_def flip: D_def)
  have "row1 ! k = 0" if "k < j + 1" for k
    using that r rj jn chk(1,2) by (cases "k = j") (simp_all add: row1_def)
  then have red: "reduced n a (j + 1) (row1, g * v - fj * h)"
    using r rj by (simp add: reduced_def row1_def dot_map2)
  have "\<forall>k<length ds. reduced n a (j + 1 + k) (ds ! k)"
    using Cons.prems(2) by (auto simp: less_Suc_eq_0_disj)
  then show ?case using Cons.IH [OF red _ _ chk(4)] Cons.prems(3) step by simp
qed simp

lemma tc_forward_reduced:
  assumes "tc_mforward (map fst ds) (map fst rows)" "length ds + length rows < n"
    and "\<forall>k<length ds. reduced n a k (ds ! k) \<and> fst (ds ! k) ! k > 0" "\<forall>rv\<in>set rows. reduced n a 0 rv"
  shows "length (tc_forward ds rows) = length ds + length rows
    \<and> (\<forall>k<length ds + length rows. reduced n a k (tc_forward ds rows ! k) \<and> fst (tc_forward ds rows ! k) ! k > 0)"
  using assms
proof (induction rows arbitrary: ds)
  case (Cons rv rows)
  obtain row v where rv: "rv = (row, v)" by (cases rv)
  obtain row' where row': "tc_msteps 0 (map fst ds) row = Some row'" "row' ! length ds > 0"
    "tc_mforward (map fst ds @ [row']) (map fst rows)"
    using Cons.prems(1) by (auto simp: rv split: option.splits)
  define e where "e = tc_steps 0 ds (row, v)"
  have e: "reduced n a (length ds) e" "fst e = row'"
    using tc_steps_reduced [OF _ _ _ row'(1), of n a v] Cons.prems by (simp_all add: e_def rv)
  have "\<forall>k<length (ds @ [e]). reduced n a k ((ds @ [e]) ! k) \<and> fst ((ds @ [e]) ! k) ! k > 0"
    using Cons.prems(3) e row'(2) by (auto simp: nth_append less_Suc_eq)
  then show ?case
    using Cons.IH [of "ds @ [e]"] Cons.prems row'(3) e(2) by (simp add: rv flip: e_def)
qed simp

lemma fold_submul:
  "length ms = length fs \<Longrightarrow> fold (\<lambda>(m, fj) v. v - fj * m) (zip ms fs) v = v - (\<Sum>k<length fs. ms ! k * fs ! k)" for v :: int
proof (induction fs arbitrary: ms v)
  case (Cons m fs)
  then show ?case
    by (cases ms) (simp_all add: sum.lessThan_Suc_shift mult.commute del: sum.lessThan_Suc)
qed simp

lemma dot_split:
  assumes "length row = length a" "i < length a" "\<forall>k<i. row ! k = 0"
  shows "dot row a = row ! i * a ! i + (\<Sum>k<length a - (i + 1). drop (i + 1) row ! k * drop (i + 1) a ! k)"
proof -
  obtain m where m: "length a = Suc i + m" using assms(2) less_iff_Suc_add by auto
  have "(\<Sum>k<Suc i + m. row ! k * a ! k) = (\<Sum>k<Suc i. row ! k * a ! k) + (\<Sum>k<m. row ! (Suc i + k) * a ! (Suc i + k))"
    by (induction m) simp_all
  then show ?thesis using assms by (simp add: dot_def m)
qed

lemma tc_back_solves:
  assumes "length rs < length a" "\<forall>k<length rs. reduced (length a) a k (rs ! k) \<and> fst (rs ! k) ! k > 0"
  shows "tc_back (rev rs) (drop (length rs) a) = a"
  using assms
proof (induction rs rule: rev_induct)
  case (snoc rv rs)
  obtain row v where rv: "rv = (row, v)" by (cases rv)
  define i where "i = length rs"
  have r: "length row = length a" "\<forall>k<i. row ! k = 0" "v = dot row a" "row ! i > 0" "i < length a"
    using spec [OF snoc.prems(2), of i] snoc.prems(1) by (simp_all add: reduced_def i_def rv)
  have "fold (\<lambda>(m, fj) v. v - fj * m) (zip (drop (i + 1) row) (drop (i + 1) a)) v = row ! i * a ! i"
    using r dot_split [OF r(1,5,2)] by (simp add: fold_submul)
  then have step: "tc_back (rev (rs @ [rv])) (drop (length (rs @ [rv])) a) = tc_back (rev rs) (a ! i # drop (i + 1) a)"
    using r(4) by (simp add: rv Let_def flip: i_def)
  have "\<forall>k<length rs. reduced (length a) a k (rs ! k) \<and> fst (rs ! k) ! k > 0"
    using snoc.prems(2) by (metis length_append_singleton less_SucI nth_append)
  then show ?case using snoc.IH snoc.prems(1) step r(5) by (simp add: Cons_nth_drop_Suc i_def)
qed simp

lemma tc_row_nth: "k \<le> n \<Longrightarrow> tc_row x p n ! k = p * x ^ k"
  by (induction n arbitrary: p k) (auto simp: nth_Cons split: nat.splits)

lemma tc_row_length [simp]: "length (tc_row x p n) = Suc n"
  by (induction n arbitrary: p) simp_all

lemma dot_tc_row: "length a = Suc n \<Longrightarrow> dot (tc_row x 1 n) a = evalp a x"
  by (simp add: dot_def evalp_def tc_row_nth mult.commute)

lemma tc_interpolate_correct:
  assumes "t \<le> MAX_TC_DEGREE" "length a = t + 1" "length f = t + 1"
    and "\<And>i. i < t \<Longrightarrow> f ! i = evalp a (tc_points ! i)" "f ! t = a ! t"
  shows "mpz_poly_mul_tc_interpolate f t = a"
proof -
  define rows where "rows = map (\<lambda>i. (tc_row (tc_points ! i) 1 t, f ! i)) [0..<t]"
  have len: "t \<le> length tc_points" using assms(1) by (simp add: tc_points_def MAX_TC_DEGREE_def)
  then have "take t tc_points = map ((!) tc_points) [0..<t]" by (intro nth_equalityI) simp_all
  then have fst: "map fst rows = tc_rows t" by (simp add: rows_def tc_rows_def)
  have "\<forall>rv\<in>set rows. reduced (t + 1) a 0 rv" using assms by (auto simp: rows_def reduced_def dot_tc_row)
  then have "length (tc_forward [] rows) = t
    \<and> (\<forall>k<t. reduced (t + 1) a k (tc_forward [] rows ! k) \<and> fst (tc_forward [] rows ! k) ! k > 0)"
    using tc_forward_reduced [of "[]" rows "t + 1" a] tc_rows_checked [OF assms(1)] fst by (simp add: rows_def)
  moreover have "[f ! t] = drop t a" using assms(2,5) by (simp add: Cons_nth_drop_Suc [symmetric])
  ultimately show ?thesis
    using tc_back_solves [of "tc_forward [] rows" a] assms(2)
    by (simp add: mpz_poly_mul_tc_interpolate_def Let_def flip: rows_def)
qed

section \<open>The routines compute the product\<close>

lemma eval_si_value: "g \<noteq> [] \<Longrightarrow> mpz_poly_mul_eval_si g x = evalp g x"
  using eval_value [of g x] by (simp add: mpz_poly_mul_eval_si_def mpz_poly_eval_def)

lemma tc_generic_correct:
  assumes "g \<noteq> []" "h \<noteq> []" "length g + length h - 2 \<le> MAX_TC_DEGREE" "0 < length g + length h - 2"
  shows "mpz_poly_mul_tc_generic g h = pmul g h"
proof -
  define t where "t = length g + length h - 2"
  have len: "length (pmul g h) = t + 1" using assms by (simp add: pmul_length t_def)
  have "evalp (pmul g h) (tc_points ! 0) = pmul g h ! 0"
    using len by (cases "pmul g h") (simp_all add: evalp_Cons tc_points_def)
  then have "evalp (pmul g h) (tc_points ! 0) = g ! 0 * h ! 0" using assms(1,2) by (simp add: pmul_hd)
  then show ?thesis
    unfolding mpz_poly_mul_tc_generic_def Let_def t_def [symmetric]
    using assms(3,4) len pmul_last [OF assms(1,2)]
    by (intro tc_interpolate_correct) (simp_all add: eval_si_value assms(1,2) pmul_evalp del: upt_Suc flip: t_def)
qed

lemma two_list: "length g = 2 \<Longrightarrow> \<exists>a b. g = [a, b]"
  by (auto simp: numeral_2_eq_2 length_Suc_conv)

lemma three_list: "length g = 3 \<Longrightarrow> \<exists>a b c. g = [a, b, c]"
  by (auto simp: numeral_3_eq_3 length_Suc_conv)

lemma four_list: "length g = 4 \<Longrightarrow> \<exists>a b c d. g = [a, b, c, d]"
  by (auto simp: eval_nat_numeral length_Suc_conv)

lemma tc_2_correct: "length g = 2 \<Longrightarrow> length h = 2 \<Longrightarrow> mpz_poly_mul_tc_2 g h = pmul g h"
  by (auto dest!: two_list simp: mpz_poly_mul_tc_2_def Let_def algebra_simps)

lemma tc_3_correct: "length g = 3 \<Longrightarrow> length h = 2 \<Longrightarrow> mpz_poly_mul_tc_3 g h = pmul g h"
proof -
  assume "length g = 3" "length h = 2"
  then obtain a b c d e where gh: "g = [a, b, c]" "h = [d, e]" using three_list two_list by blast
  have "((c + a + b) * (d + e) - (c + a - b) * (d - e)) div 2 = ((a + c) * e + b * d) * 2 div 2"
    by (simp add: algebra_simps)
  moreover have "((c + a + b) * (d + e) + (c + a - b) * (d - e)) div 2 = ((a + c) * d + b * e) * 2 div 2"
    by (simp add: algebra_simps)
  ultimately show ?thesis
    unfolding gh mpz_poly_mul_tc_3_def Let_def by simp (simp add: algebra_simps)
qed

lemma tc_4_correct: "length g = 3 \<Longrightarrow> length h = 3 \<Longrightarrow> mpz_poly_mul_tc_4 g h = pmul g h"
proof -
  assume "length g = 3" "length h = 3"
  then obtain a b c d e f where gh: "g = [a, b, c]" "h = [d, e, f]" using three_list by blast
  define u v w where "u = (c + a - b) * (f + d - e)" and "v = (c + a + b) * (f + d + e)"
    and "w = ((c + a + b + c) * 2 - a) * ((f + d + e + f) * 2 - d)"
  have 1: "(w - u) div 3 = a * e + b * d + (a * f + b * e + c * d) + 3 * (b * f + c * e) + 5 * (c * f)"
  proof -
    have "w - u = 3 * (a * e + b * d + (a * f + b * e + c * d) + 3 * (b * f + c * e) + 5 * (c * f))"
      unfolding w_def u_def by (simp add: algebra_simps)
    then show ?thesis by simp
  qed
  have 2: "(v - u) div 2 = a * e + b * d + (b * f + c * e)"
  proof -
    have "v - u = 2 * (a * e + b * d + (b * f + c * e))" unfolding v_def u_def by (simp add: algebra_simps)
    then show ?thesis by simp
  qed
  have 3: "((w - u) div 3 - (v - a * d)) div 2 = b * f + c * e + 2 * (c * f)"
  proof -
    have "(w - u) div 3 - (v - a * d) = 2 * (b * f + c * e + 2 * (c * f))" unfolding 1 v_def by (simp add: algebra_simps)
    then show ?thesis by simp
  qed
  have "mpz_poly_mul_tc_4 g h = [a * d, (v - u) div 2 - (((w - u) div 3 - (v - a * d)) div 2 - c * f * 2),
      v - a * d - (v - u) div 2 - c * f, ((w - u) div 3 - (v - a * d)) div 2 - c * f * 2, c * f]"
    unfolding gh u_def v_def w_def by (simp add: mpz_poly_mul_tc_4_def Let_def)
  then show ?thesis unfolding 3 2 unfolding gh by (simp add: v_def algebra_simps)
qed

lemma cf_take_Suc: "n < length g \<Longrightarrow> cf (take (Suc n) g) = sadd (cf (take n g)) (mono (g ! n) n)"
  by (auto simp: fun_eq_iff cf_take sadd_def mono_def cf_def)

lemma mul_basecase_cf:
  assumes "g \<noteq> []" "h \<noteq> []"
  shows "mpz_poly_mul_basecase g h = pmul g h"
proof -
  define F where "F = (\<lambda>n. fold (\<lambda>i f. addmul_cells f h (g ! i) i) [0..<n] (replicate (length g + length h - 1) 0))"
  have len: "length (F n) = length g + length h - 1" for n by (induction n) (simp_all add: F_def)
  have "n \<le> length g \<Longrightarrow> cf (F n) = conv (cf (take n g)) (cf h)" for n
  proof (induction n)
    case (Suc n)
    then have "n + length h \<le> length (F n)" using len assms(2) by (cases h) auto
    then have "cf (addmul_cells (F n) h (g ! n) n) = sadd (cf (F n)) (conv (mono (g ! n) n) (cf h))"
      by (rule addmul_cells_cf)
    then show ?case using Suc by (simp add: F_def cf_take_Suc conv_add_left)
  qed (simp add: F_def)
  then have "cf (F (length g)) = cf (pmul g h)" by (simp add: pmul_cf)
  then show ?thesis using len pmul_length [OF assms]
    by (intro cf_eq_imp_eq) (simp_all add: mpz_poly_mul_basecase_def F_def)
qed

lemma tc_ge_correct:
  assumes "h \<noteq> []" "length h \<le> length g"
  shows "mpz_poly_mul_tc_ge g h = pmul g h"
proof -
  define r s where "r = length g - 1" and "s = length h - 1"
  have len: "length g = Suc r" "length h = Suc s" "s \<le> r" using assms by (cases g; cases h; simp add: r_def s_def)+
  then have ne: "g \<noteq> []" "h \<noteq> []" by auto
  have D: "mpz_poly_mul_tc_ge g h = (if s = 0 then map (\<lambda>c. c * h ! 0) g
         else if r + s = 2 then mpz_poly_mul_tc_2 g h
         else if r + s = 3 then mpz_poly_mul_tc_3 g h
         else if r = 2 then mpz_poly_mul_tc_4 g h
         else if r + s > MAX_TC_DEGREE then mpz_poly_mul_basecase g h
         else mpz_poly_mul_tc_generic g h)"
    by (simp add: mpz_poly_mul_tc_ge_def Let_def r_def s_def)
  have c0: "map (\<lambda>c. c * h ! 0) g = pmul g h" if "s = 0"
  proof -
    have "length h = 1" using len(2) that by simp
    then obtain d where "h = [d]" by (cases h) auto
    then show ?thesis by (induction g) simp_all
  qed
  show ?thesis
    unfolding D
    using len ne c0 tc_2_correct [of g h] tc_3_correct [of g h] tc_4_correct [of g h] mul_basecase_cf [of g h]
      tc_generic_correct [of g h] by auto
qed

lemma mul_tc_correct: "g \<noteq> [] \<Longrightarrow> h \<noteq> [] \<Longrightarrow> mpz_poly_mul_tc g h = pmul g h"
  by (simp add: mpz_poly_mul_tc_def tc_ge_correct pmul_commute)

lemma mul_cf: "cf (mpz_poly_mul g h) = conv (cf g) (cf h)"
proof -
  have one: "cf f = mono (f ! 0) 0" if "length f = 1" for f
    using that by (cases f) (simp_all add: cf_single)
  consider "g = [] \<or> h = []" | "length g = 1" "h \<noteq> []" | "length g \<noteq> 1" "length h = 1" "g \<noteq> []" "h \<noteq> []"
    | "g \<noteq> []" "h \<noteq> []" "length g \<noteq> 1" "length h \<noteq> 1" by fastforce
  then show ?thesis
  proof cases
    case 2
    then show ?thesis using conv_mono0 [of "g ! 0" "cf h"] by (auto simp: mpz_poly_mul_def mul_mpz_cf one)
  next
    case 3
    then show ?thesis using conv_mono0 [of "h ! 0" "cf g"] by (simp add: mpz_poly_mul_def mul_mpz_cf one conv_commute)
  qed (auto simp: mpz_poly_mul_def mul_tc_correct pmul_cf)
qed

lemma pmul_normalized: "normalized g \<Longrightarrow> normalized h \<Longrightarrow> g \<noteq> [] \<Longrightarrow> h \<noteq> [] \<Longrightarrow> normalized (pmul g h)"
  using pmul_last [of g h] pmul_length [of g h] by (auto simp: normalized_def last_conv_nth numeral_2_eq_2)

lemma mul_normalized: "normalized g \<Longrightarrow> normalized h \<Longrightarrow> normalized (mpz_poly_mul g h)"
  by (auto simp: mpz_poly_mul_def mul_tc_correct pmul_normalized)

text \<open>The square: the routine with two thirds of the products.\<close>

lemma mul_self_step:
  "n < length g \<Longrightarrow> conv (cf (take (Suc n) g)) (cf (take (Suc n) g))
     = sadd (conv (cf (take n g)) (cf (take n g)))
         (sadd (smult 2 (conv (mono (g ! n) n) (cf (take n g)))) (mono (g ! n * g ! n) (2 * n)))"
proof -
  assume "n < length g"
  define a m where "a = cf (take n g)" and "m = mono (g ! n) n"
  have "conv m m = mono (g ! n * g ! n) (2 * n)" unfolding m_def by (auto simp: fun_eq_iff conv_mono) (auto simp: mono_def)
  moreover have "conv a m = conv m a" by (rule conv_commute)
  ultimately show ?thesis
    unfolding cf_take_Suc [OF \<open>n < length g\<close>] conv_add_left conv_add_right a_def [symmetric] m_def [symmetric]
    by (auto simp: fun_eq_iff sadd_def smult_def)
qed

lemma sqr_loop1_cf:
  fixes g :: zpoly
  defines "F \<equiv> \<lambda>n. fold (\<lambda>i f. addmul_cells f (take i g) (g ! i) i) [0..<n] (replicate (2 * length g - 1) 0)"
  assumes "n \<le> length g"
  shows "length (F n) = 2 * length g - 1"
    "smult 2 (cf (F n)) = ssub (conv (cf (take n g)) (cf (take n g))) (\<lambda>k. if even k \<and> k div 2 < n then g ! (k div 2) * g ! (k div 2) else 0)"
proof -
  have len: "length (F n) = 2 * length g - 1" for n by (induction n) (simp_all add: F_def)
  then show "length (F n) = 2 * length g - 1" .
  show "smult 2 (cf (F n)) = ssub (conv (cf (take n g)) (cf (take n g))) (\<lambda>k. if even k \<and> k div 2 < n then g ! (k div 2) * g ! (k div 2) else 0)"
    using assms(2)
  proof (induction n)
    case (Suc n)
    then have "n + length (take n g) \<le> length (F n)" using len by simp
    then have "cf (addmul_cells (F n) (take n g) (g ! n) n) = sadd (cf (F n)) (conv (mono (g ! n) n) (cf (take n g)))"
      by (rule addmul_cells_cf)
    moreover have "F (Suc n) = addmul_cells (F n) (take n g) (g ! n) n" by (simp add: F_def)
    ultimately have c: "cf (F (Suc n)) = sadd (cf (F n)) (conv (mono (g ! n) n) (cf (take n g)))" by simp
    have ih: "2 * cf (F n) k = conv (cf (take n g)) (cf (take n g)) k - (if even k \<and> k div 2 < n then g ! (k div 2) * g ! (k div 2) else 0)" for k
      using Suc by (simp add: fun_eq_iff smult_def ssub_def)
    show ?case
    proof
      fix k
      have "even k \<Longrightarrow> k = 2 * n \<longleftrightarrow> k div 2 = n" by auto
      moreover have "odd k \<Longrightarrow> k \<noteq> 2 * n" by auto
      ultimately show "smult 2 (cf (F (Suc n))) k = ssub (conv (cf (take (Suc n) g)) (cf (take (Suc n) g)))
          (\<lambda>k. if even k \<and> k div 2 < Suc n then g ! (k div 2) * g ! (k div 2) else 0) k"
        using Suc.prems unfolding c by (auto simp: smult_def ssub_def sadd_def mul_self_step ih mono_def distrib_left less_Suc_eq)
    qed
  qed (simp add: F_def fun_eq_iff smult_def ssub_def szero_def)
qed

lemma sqr_loop2_nth:
  fixes f :: "int list"
  assumes "n \<le> length f" "j < length f"
  shows "length (fold (\<lambda>i f. f[i := 2 * f ! i]) [0..<n] f) = length f
    \<and> fold (\<lambda>i f. f[i := 2 * f ! i]) [0..<n] f ! j = (if j < n then 2 * f ! j else f ! j)"
  using assms by (induction n) (auto simp: nth_list_update less_Suc_eq)

lemma sqr_loop3_nth:
  fixes f :: "int list"
  assumes "length f = 2 * r + 1" "n \<le> r" "j < 2 * r"
  shows "length (fold (\<lambda>i f. let f = f[2 * r := g ! i * g ! i] in f[2 * i := f ! (2 * i) + f ! (2 * r)]) [0..<n] f) = 2 * r + 1
    \<and> fold (\<lambda>i f. let f = f[2 * r := g ! i * g ! i] in f[2 * i := f ! (2 * i) + f ! (2 * r)]) [0..<n] f ! j
      = f ! j + (if even j \<and> j div 2 < n then g ! (j div 2) * g ! (j div 2) else 0)"
  using assms
proof (induction n)
  case (Suc n)
  have "even j \<Longrightarrow> j = 2 * n \<longleftrightarrow> j div 2 = n" "odd j \<Longrightarrow> j \<noteq> 2 * n" by auto
  then show ?case using Suc by (auto simp: Let_def nth_list_update less_Suc_eq)
qed simp

lemma sqr_basecase_correct:
  assumes "g \<noteq> []"
  shows "mpz_poly_sqr_basecase g = pmul g g"
proof -
  define r where "r = length g - 1"
  have lg: "length g = r + 1" using assms by (cases g) (simp_all add: r_def)
  define f1 where "f1 = fold (\<lambda>i f. addmul_cells f (take i g) (g ! i) i) [0..<r + 1] (replicate (2 * r + 1) 0)"
  define f2 where "f2 = fold (\<lambda>i f. f[i := 2 * f ! i]) [0..<2 * r] f1"
  define f3 where "f3 = fold (\<lambda>i f. let f = f[2 * r := g ! i * g ! i] in f[2 * i := f ! (2 * i) + f ! (2 * r)]) [0..<r] f2"
  have 1: "length f1 = 2 * r + 1" and c1: "smult 2 (cf f1) = ssub (conv (cf g) (cf g)) (\<lambda>k. if even k \<and> k div 2 < r + 1 then g ! (k div 2) * g ! (k div 2) else 0)"
    using sqr_loop1_cf [of "length g" g] lg by (simp_all add: f1_def del: upt_Suc)
  have 2: "length f2 = 2 * r + 1" using sqr_loop2_nth [of "2 * r" f1 0] 1 by (simp add: f2_def)
  have f3: "length f3 = 2 * r + 1" "f3 ! j = 2 * f1 ! j + (if even j \<and> j div 2 < r then g ! (j div 2) * g ! (j div 2) else 0)" if "j < 2 * r" for j
    using sqr_loop2_nth [of "2 * r" f1 j] sqr_loop3_nth [OF 2, of r j g] that 1 by (simp_all add: f2_def f3_def)
  have len: "length f3 = 2 * r + 1" using f3(1) [of 0] 2 by (cases "r = 0") (simp_all add: f3_def)
  have eq: "mpz_poly_sqr_basecase g = f3[2 * r := g ! r * g ! r]"
    unfolding mpz_poly_sqr_basecase_def Let_def r_def [symmetric] f1_def [symmetric] f2_def [symmetric] f3_def [unfolded Let_def, symmetric] ..
  have p: "length (pmul g g) = 2 * r + 1" "pmul g g ! (2 * r) = g ! r * g ! r"
    using pmul_length [of g g] pmul_last [of g g] assms lg by (simp_all add: last_conv_nth mult_2)
  show ?thesis
  proof (rule nth_equalityI)
    fix j assume "j < length (mpz_poly_sqr_basecase g)"
    then have j: "j < 2 * r + 1" using eq len by simp
    show "mpz_poly_sqr_basecase g ! j = pmul g g ! j"
    proof (cases "j = 2 * r")
      case False
      then have "pmul g g ! j = conv (cf g) (cf g) j" using j p by (simp add: pmul_cf [symmetric] cf_lt)
      also have "\<dots> = f3 ! j" using f3(2) [of j] False j fun_cong [OF c1, of j] 1 by (auto simp: smult_def ssub_def cf_lt)
      finally show ?thesis using False by (simp add: eq)
    qed (use p len eq in simp)
  qed (use len eq p in simp)
qed

lemma sqr_tc2_correct: "mpz_poly_sqr_tc2 a b = (a * a, a * b + b * a, b * b)"
  by (simp add: mpz_poly_sqr_tc2_def Let_def algebra_simps)

lemma sqr_tc3_correct: "length g = 3 \<Longrightarrow> mpz_poly_sqr_tc3 g = pmul g g"
proof -
  assume "length g = 3"
  then obtain a b c where g: "g = [a, b, c]" using three_list by blast
  have "(c + a + b) * (c + a + b) + (c + a - b) * (c + a - b) = 2 * ((c + a) * (c + a) + b * b)"
    by (simp add: algebra_simps)
  moreover have "tdiv_2exp (2 * x) 1 = x" for x :: int by (simp add: tdiv_2exp_def abs_mult sgn_mult mult_sgn_abs)
  ultimately have "tdiv_2exp ((c + a + b) * (c + a + b) + (c + a - b) * (c + a - b)) 1 = (c + a) * (c + a) + b * b"
    by (simp only:)
  then show ?thesis
    unfolding g mpz_poly_sqr_tc3_def Let_def by simp (simp add: algebra_simps)
qed

lemma sqr_tc4_correct: "length g = 4 \<Longrightarrow> mpz_poly_sqr_tc4 g = pmul g g"
  by (auto dest!: four_list simp: mpz_poly_sqr_tc4_def Let_def sqr_tc2_correct algebra_simps)

lemma sqr_tc_correct:
  assumes "g \<noteq> []"
  shows "mpz_poly_sqr_tc nbits g = pmul g g"
proof -
  define r where "r = length g - 1"
  have lg: "length g = Suc r" using assms by (cases g) (simp_all add: r_def)
  have last: "last g = g ! r" using assms lg by (simp add: last_conv_nth)
  have gen: "mpz_poly_mul_tc_interpolate (map (\<lambda>i. if i = 0 then g ! 0 * g ! 0 else if i = 2 * r then g ! r * g ! r
      else let v = mpz_poly_mul_eval_si g (tc_points ! i) in v * v) [0..<2 * r + 1]) (2 * r) = mpz_poly_mul_tc_generic g g"
  proof -
    have t: "length g + length g - 2 = 2 * r" using lg by simp
    show ?thesis unfolding mpz_poly_mul_tc_generic_def Let_def last t ..
  qed
  have 0: "[g ! 0 * g ! 0] = pmul g g" if "r = 0" using that lg by (cases g) auto
  have 1: "(case mpz_poly_sqr_tc2 (g ! 0) (g ! 1) of (f0, f1, f2) \<Rightarrow> [f0, f1, f2]) = pmul g g" if "r = 1"
    using two_list [of g] that lg by (auto simp: sqr_tc2_correct)
  have D: "mpz_poly_sqr_tc nbits g = (if r = 0 then [g ! 0 * g ! 0]
              else if r = 1 then (case mpz_poly_sqr_tc2 (g ! 0) (g ! 1) of (f0, f1, f2) \<Rightarrow> [f0, f1, f2])
              else if r = 2 \<and> nbits < 4096 then mpz_poly_sqr_tc3 g
              else if r = 3 \<and> nbits < 4096 then mpz_poly_sqr_tc4 g
              else if 2 * r > MAX_TC_DEGREE then mpz_poly_sqr_basecase g else mpz_poly_mul_tc_generic g g)"
    unfolding gen [symmetric] mpz_poly_sqr_tc_def Let_def r_def [symmetric] using assms by simp
  show ?thesis
    unfolding D using lg assms 0 1 sqr_tc3_correct [of g] sqr_tc4_correct [of g] sqr_basecase_correct [of g]
      tc_generic_correct [of g g] by auto
qed

lemma mul_self_cf: "cf (mpz_poly_mul_self nbits g) = conv (cf g) (cf g)"
proof (cases "g = []")
  case True
  then show ?thesis by (simp add: mpz_poly_mul_self_def mpz_poly_sqr_tc_def)
next
  case False
  then show ?thesis by (simp add: mpz_poly_mul_self_def sqr_tc_correct pmul_cf)
qed

section \<open>Properties\<close>

text \<open>
  C26: The product of two polynomials, whichever of the routines the degrees select, has the coefficients
  of the product and its values; the product of normalised polynomials is normalised, so that the omitted
  call of \<open>cleandeg\<close> is not needed; without zero factors it is the result of the schoolbook routine.
\<close>
theorem mpz_poly_mul_correct:
  assumes "normalized g" "normalized h"
  shows "cf (mpz_poly_mul g h) = conv (cf g) (cf h) \<and> normalized (mpz_poly_mul g h)
    \<and> evalp (mpz_poly_mul g h) x = evalp g x * evalp h x
    \<and> (g \<noteq> [] \<longrightarrow> h \<noteq> [] \<longrightarrow> mpz_poly_mul g h = mpz_poly_mul_basecase g h)"
proof -
  have c: "cf (mpz_poly_mul g h) = conv (cf g) (cf h)" by (rule mul_cf)
  have n: "normalized (mpz_poly_mul g h)" using assms by (rule mul_normalized)
  have p: "mpz_poly_mul g h = pmul g h" if "g \<noteq> []" "h \<noteq> []"
    using n pmul_normalized [OF assms that] by (rule normalized_eqI) (simp add: c pmul_cf)
  then have "g \<noteq> [] \<longrightarrow> h \<noteq> [] \<longrightarrow> mpz_poly_mul g h = mpz_poly_mul_basecase g h"
    by (simp add: mul_basecase_cf)
  moreover have "evalp (mpz_poly_mul g h) x = evalp g x * evalp h x"
    using p by (cases "g = [] \<or> h = []") (auto simp: mpz_poly_mul_def pmul_evalp)
  ultimately show ?thesis using c n by blast
qed

theorem mpz_poly_mul_correct_witness:
  "normalized [1, 0, -2, 5] \<and> normalized [3, 1, 7]
   \<and> mpz_poly_mul [1, 0, -2, 5] [3, 1, 7] = mpz_poly_mul_basecase [1, 0, -2, 5] [3, 1, 7]
   \<and> mpz_poly_mul [1, 0, -2, 5] [3, 1, 7] = [3, 1, 1, 13, -9, 35]"
proof -
  have n: "normalized [1, 0, -2, 5]" "normalized [3, 1, 7]" by (simp_all add: normalized_def)
  have "mpz_poly_mul_basecase [1, 0, -2, 5] [3, 1, 7] = [3, 1, 1, 13, -9, 35]" by code_simp
  then show ?thesis using n mpz_poly_mul_correct [OF n] by simp
qed

text \<open>
  C27: The square, whichever routine the degree and the size read from the result select, equals the product
  of the polynomial by itself.
\<close>
theorem mpz_poly_sqr_correct:
  "cf (mpz_poly_mul_self nbits g) = conv (cf g) (cf g)
   \<and> (g \<noteq> [] \<longrightarrow> mpz_poly_mul_self nbits g = mpz_poly_mul_basecase g g)"
  using mul_self_cf [of nbits g] by (auto simp: mpz_poly_mul_self_def sqr_tc_correct mul_basecase_cf)

theorem mpz_poly_sqr_correct_witness:
  "mpz_poly_mul_self 5000 [1, -2, 3] = mpz_poly_mul_basecase [1, -2, 3] [1, -2, 3]
   \<and> mpz_poly_mul_self 5000 [1, -2, 3] = [1, -4, 10, -12, 9]"
proof -
  have "mpz_poly_mul_basecase [1, -2, 3] [1, -2, 3] = [1, -4, 10, -12, 9]" by code_simp
  then show ?thesis using mpz_poly_sqr_correct [of 5000 "[1, -2, 3]"] by simp
qed

text \<open>
  C28: The interpolation recovers every polynomial of degree at most 19 from its values at the first points and
  its leading coefficient; during the elimination the listed divisors divide the entries and no entry of the
  matrix and no product of entries leaves the range of a signed 64-bit word.
\<close>
theorem mpz_poly_mul_tc_interpolate_exact:
  assumes "t \<le> MAX_TC_DEGREE" "length a = t + 1"
  shows "mpz_poly_mul_tc_interpolate (map (\<lambda>i. evalp a (tc_points ! i)) [0..<t] @ [a ! t]) t = a
    \<and> tc_mforward [] (tc_rows t)"
  using assms tc_interpolate_correct [of t a "map (\<lambda>i. evalp a (tc_points ! i)) [0..<t] @ [a ! t]"]
    tc_rows_checked [of t] by (simp add: nth_append)

theorem mpz_poly_mul_tc_interpolate_exact_witness:
  "mpz_poly_mul_tc_interpolate (map (\<lambda>i. evalp [1, 2, 3, 4, 5] (tc_points ! i)) [0..<4] @ [5]) 4 = [1, 2, 3, 4, 5]"
  using mpz_poly_mul_tc_interpolate_exact [of 4 "[1, 2, 3, 4, 5]"] by (simp add: MAX_TC_DEGREE_def)

end
