(* ===== verification/GmpAux.thy ===== *)
theory GmpAux
  imports PolySpec
begin

text \<open>
  Reductions of one integer: the centred residue of \<^verbatim>\<open>utils/gmp_aux.c\<close>, which compares limb by limb, and the
  reduction with a precomputed inverse of \<^verbatim>\<open>utils/mpz_poly.cpp\<close>. GMP's size functions are written out; the
  modular inverse of GMP is a parameter of the functions that call it, with its documented law.
\<close>

unbundle bit_operations_syntax

section \<open>GMP\<close>

text \<open>The number of bits of a natural number, zero for zero; GMP's base 2 size, which is one for zero; the number of limbs.\<close>

fun nbits :: "nat \<Rightarrow> nat" where
  "nbits n = (if n = 0 then 0 else Suc (nbits (n div 2)))"

declare nbits.simps [simp del]

definition mpz_sizeinbase2 :: "int \<Rightarrow> nat" where
  "mpz_sizeinbase2 x = (if x = 0 then 1 else nbits (nat \<bar>x\<bar>))"

definition mpz_size :: "int \<Rightarrow> nat" where
  "mpz_size x = (nbits (nat \<bar>x\<bar>) + 63) div 64"

definition mpz_getlimbn :: "int \<Rightarrow> nat \<Rightarrow> u64" where
  "mpz_getlimbn x n = word_of_int (\<bar>x\<bar> div W64 ^ n)"

text \<open>Division by a power of two towards zero, and the nonnegative residue.\<close>

definition mpz_tdiv_q_2exp :: "int \<Rightarrow> nat \<Rightarrow> int" where
  "mpz_tdiv_q_2exp x n = sgn x * (\<bar>x\<bar> div 2 ^ n)"

definition mpz_mod :: "int \<Rightarrow> int \<Rightarrow> int" where
  "mpz_mod x m = x mod \<bar>m\<bar>"

text \<open>
  The law of the inverse: if there is an inverse it is returned in the range of residues,
  otherwise the call fails.
\<close>

definition invert_ok :: "(int \<Rightarrow> int \<Rightarrow> int option) \<Rightarrow> bool" where
  "invert_ok invert \<longleftrightarrow> (\<forall>a m. m \<noteq> 0 \<longrightarrow>
     (case invert a m of None \<Rightarrow> gcd a m \<noteq> 1
      | Some x \<Rightarrow> (a * x) mod \<bar>m\<bar> = 1 mod \<bar>m\<bar> \<and> 0 \<le> x \<and> (x < \<bar>m\<bar> \<or> \<bar>m\<bar> = 1)))"

text \<open>The value that a call leaves in its result when the return value is not tested: the inverse, if there is one.\<close>

definition inverse_ok :: "(int \<Rightarrow> int \<Rightarrow> int) \<Rightarrow> bool" where
  "inverse_ok ginv \<longleftrightarrow> (\<forall>a m. m \<noteq> 0 \<longrightarrow> gcd a m = 1 \<longrightarrow> (a * ginv a m) mod \<bar>m\<bar> = 1 mod \<bar>m\<bar>)"

section \<open>The centred residue\<close>

fun ndiv_sub :: "int \<Rightarrow> int \<Rightarrow> nat \<Rightarrow> bool" where
  "ndiv_sub a c 0 = False"
| "ndiv_sub a c (Suc n) =
     (let cj = mpz_getlimbn c n;
          aj = push_bit 1 (mpz_getlimbn a n);
          aj = (if n > 0 then aj OR drop_bit 63 (mpz_getlimbn a (n - 1)) else aj)
      in if aj > cj then True else if aj < cj then False else ndiv_sub a c n)"

definition mpz_ndiv_r :: "int \<Rightarrow> int \<Rightarrow> int" where
  "mpz_ndiv_r b c =
     (let a = mpz_mod b c;
          n = mpz_size c
      in if n = 0 then 0
         else let sub = (if mpz_getlimbn a (n - 1) \<ge> push_bit 63 1 then True else ndiv_sub a c n)
              in if sub then a - c else a)"

section \<open>Reduction with a precomputed inverse\<close>

text \<open>The exception is the assertion on the sign of the modulus.\<close>

definition barrett_precompute_inverse :: "int \<Rightarrow> int option" where
  "barrett_precompute_inverse m =
     (let n = mpz_sizeinbase2 m
      in if m > 0 then Some (2 ^ (2 * n) div m) else None)"

partial_function (option) barrett_loop :: "int \<Rightarrow> int \<Rightarrow> int \<Rightarrow> int option" where
  "barrett_loop m invm r =
     (let n = mpz_sizeinbase2 m; sr = mpz_sizeinbase2 r
      in if sr > n + 1
         then let a1 = mpz_tdiv_q_2exp r (if sr \<le> 2 * n then n else sr - n);
                  a1 = a1 * invm;
                  a1 = mpz_tdiv_q_2exp a1 n;
                  a1 = a1 * m;
                  a1 = (if sr \<ge> 2 * n then a1 * 2 ^ (sr - 2 * n) else a1)
              in barrett_loop m invm (r - a1)
         else Some r)"

partial_function (option) barrett_adjust :: "int \<Rightarrow> int \<Rightarrow> int option" where
  "barrett_adjust m r =
     (if \<bar>r\<bar> \<ge> \<bar>m\<bar> then barrett_adjust m (if r > 0 then r - m else r + m) else Some r)"

definition mpz_mod_barrett :: "int \<Rightarrow> int \<Rightarrow> int \<Rightarrow> int option" where
  "mpz_mod_barrett a m invm =
     (case barrett_loop m invm a of None \<Rightarrow> None
      | Some r \<Rightarrow>
          (case barrett_adjust m r of None \<Rightarrow> None
           | Some r \<Rightarrow> Some (if r < 0 then r + m else r)))"

declare barrett_loop.simps [code]
declare barrett_adjust.simps [code]

section \<open>Sizes\<close>

lemma nbits_0_iff: "nbits n = 0 \<longleftrightarrow> n = 0"
  by (subst nbits.simps) simp

lemma nbits_bounds: "n < 2 ^ nbits n \<and> (n \<noteq> 0 \<longrightarrow> 2 ^ (nbits n - 1) \<le> n)"
proof (induction n rule: nbits.induct)
  case (1 n)
  show ?case
  proof (cases "n = 0")
    case False
    define k where "k = nbits (n div 2)"
    have ih: "n div 2 < 2 ^ k" "n div 2 \<noteq> 0 \<longrightarrow> 2 ^ (k - 1) \<le> n div 2" using 1 [OF False] by (simp_all add: k_def)
    have "nbits n = Suc k" using False by (simp add: nbits.simps [of n] k_def)
    moreover have "n < 2 ^ Suc k" using ih(1) by simp
    moreover have "2 ^ k \<le> n"
    proof (cases k)
      case (Suc j)
      then have "n div 2 \<noteq> 0" using nbits_0_iff [of "n div 2"] by (simp add: k_def)
      then show ?thesis using ih(2) Suc by simp
    qed (use False in simp)
    ultimately show ?thesis by simp
  qed (simp add: nbits.simps)
qed

lemma sizeinbase2_bounds:
  "\<bar>x\<bar> < 2 ^ mpz_sizeinbase2 x" "x \<noteq> 0 \<Longrightarrow> 2 ^ (mpz_sizeinbase2 x - 1) \<le> \<bar>x\<bar>" "0 < mpz_sizeinbase2 x"
proof -
  define n where "n = nat \<bar>x\<bar>"
  have n: "int n = \<bar>x\<bar>" by (simp add: n_def)
  have "int n < int (2 ^ nbits n)" using nbits_bounds [of n] by (simp only: of_nat_less_iff)
  then show "\<bar>x\<bar> < 2 ^ mpz_sizeinbase2 x" using n by (auto simp: mpz_sizeinbase2_def n_def)
  have "int (2 ^ (nbits n - 1)) \<le> int n" if "n \<noteq> 0" using nbits_bounds [of n] that unfolding of_nat_le_iff by blast
  then show "x \<noteq> 0 \<Longrightarrow> 2 ^ (mpz_sizeinbase2 x - 1) \<le> \<bar>x\<bar>" using n by (auto simp: mpz_sizeinbase2_def n_def)
  show "0 < mpz_sizeinbase2 x" using nbits_0_iff [of "nat \<bar>x\<bar>"] by (auto simp: mpz_sizeinbase2_def)
qed

lemma W64_power_exp: "W64 ^ n = 2 ^ (64 * n)"
  by (simp add: W64_def power_mult)

lemma mpz_size_bound: "\<bar>x\<bar> < W64 ^ mpz_size x"
proof -
  define b where "b = nbits (nat \<bar>x\<bar>)"
  have "int (nat \<bar>x\<bar>) < int (2 ^ b)" using nbits_bounds [of "nat \<bar>x\<bar>"] unfolding b_def of_nat_less_iff by blast
  then have "\<bar>x\<bar> < 2 ^ b" by simp
  also have "(2 :: int) ^ b \<le> 2 ^ (64 * mpz_size x)"
    by (rule power_increasing) (simp_all add: mpz_size_def flip: b_def)
  finally show ?thesis by (simp add: W64_power_exp)
qed

lemma mpz_size_0: "mpz_size x = 0 \<longleftrightarrow> x = 0"
proof -
  have "mpz_size x = 0 \<longleftrightarrow> nbits (nat \<bar>x\<bar>) = 0" by (simp add: mpz_size_def div_eq_0_iff)
  then show ?thesis by (simp add: nbits_0_iff)
qed

lemma div_W64_Suc: "x div W64 ^ Suc n = x div W64 ^ n div W64"
  by (simp add: power_Suc2 zdiv_zmult2_eq del: power_Suc)

lemma mult_div_le_self: "0 < c \<Longrightarrow> c * (x div c) \<le> x" for c x :: int
  using mult_div_mod_eq [of c x] pos_mod_sign [of c x] by linarith

lemma less_mult_div_Suc: "0 < c \<Longrightarrow> x < c * (x div c + 1)" for c x :: int
  using mult_div_mod_eq [of c x] pos_mod_bound [of c x] unfolding distrib_left by linarith

lemma uint_getlimbn: "uint (mpz_getlimbn x n) = (\<bar>x\<bar> div W64 ^ n) mod W64"
  by (simp add: mpz_getlimbn_def uint_word_of_int W64_def)

lemma even_gap: "even x \<Longrightarrow> even y \<Longrightarrow> x < y \<Longrightarrow> t \<le> 1 \<Longrightarrow> x + t < y" for x y t :: int
  by presburger

text \<open>The limb of the double of a number, composed from two of its limbs.\<close>

lemma double_limb:
  assumes "0 \<le> a"
  shows "uint (push_bit 1 (mpz_getlimbn a (Suc n)) OR drop_bit 63 (mpz_getlimbn a n)) = (2 * a div W64 ^ Suc n) mod W64"
    and "uint (push_bit 1 (mpz_getlimbn a 0)) = (2 * a) mod W64"
proof -
  show "uint (push_bit 1 (mpz_getlimbn a 0)) = (2 * a) mod W64"
    using assms mod_mult_right_eq [of 2 a W64] by (simp only: uint_push_bit64 uint_getlimbn) (simp add: mult.commute)
  define x y b where "x = mpz_getlimbn a (Suc n)" and "y = mpz_getlimbn a n" and "b = a div W64 ^ n"
  define t where "t = uint y div 2 ^ 63"
  have W: "W64 = 2 * 2 ^ 63" by (simp add: W64_def)
  have "uint y div 2 ^ 63 < 2" using W uint_lt64 [of y] by (intro div_less_of_less_mult) simp_all
  then have t: "0 \<le> t" "t \<le> 1" by (simp_all add: t_def pos_imp_zdiv_nonneg_iff)
  have orsum: "push_bit 1 x OR drop_bit 63 y = push_bit 1 x + drop_bit 63 y"
    by (rule or_disjoint_add, rule bit_word_eqI) (auto simp: bit_simps mult.commute [of x] bit_double_iff dest: bit_imp_le_length)
  have ux: "uint x = (b div W64) mod W64" and uy: "uint y = b mod W64"
    using assms by (simp_all add: x_def y_def uint_getlimbn b_def div_mult2_eq mult.commute flip: zdiv_zmult2_eq)
  define l where "l = b mod W64"
  have l: "0 \<le> l" "b = W64 * (b div W64) + l" "t = l div 2 ^ 63" by (simp_all add: l_def t_def uy)
  have e: "(2 * b + r) div W64 = 2 * (b div W64) + t" if "0 \<le> r" "r \<le> 1" for r
  proof -
    have eq: "2 * b + r = 2 * l + r + W64 * (2 * (b div W64))" using l(2) by (simp add: algebra_simps)
    have "(2 * b + r) div W64 = (2 * l + r) div W64 + 2 * (b div W64)" unfolding eq by (subst div_mult_self2) simp_all
    moreover have "(2 * l + r) div W64 = (2 * l + r) div 2 div 2 ^ 63" unfolding W by (simp add: zdiv_zmult2_eq)
    moreover have "(2 * l + r) div 2 = l" using that by presburger
    ultimately show ?thesis using l(3) by simp
  qed
  have "2 * a div W64 ^ Suc n = (2 * a div W64 ^ n) div W64" by (rule div_W64_Suc)
  also have "2 * a div W64 ^ n = 2 * b + (2 * (a mod W64 ^ n)) div W64 ^ n"
  proof -
    have "2 * a = 2 * (a mod W64 ^ n) + W64 ^ n * (2 * b)" using mult_div_mod_eq [of "W64 ^ n" a] unfolding b_def by linarith
    then show ?thesis by simp
  qed
  also have "(2 * b + (2 * (a mod W64 ^ n)) div W64 ^ n) div W64 = 2 * (b div W64) + t"
  proof (rule e)
    have "2 * (a mod W64 ^ n) < W64 ^ n * 2" by simp
    then have "2 * (a mod W64 ^ n) div W64 ^ n < 2" by (intro div_less_of_less_mult) simp_all
    then show "2 * (a mod W64 ^ n) div W64 ^ n \<le> 1" by simp
  qed (simp add: pos_imp_zdiv_nonneg_iff)
  finally have rhs: "2 * a div W64 ^ Suc n = 2 * (b div W64) + t" .
  have p: "uint (push_bit 1 x) = (2 * (b div W64)) mod W64" 
    unfolding uint_push_bit64 ux power_one_right by (simp only: mult.commute [of _ 2] mod_mult_right_eq)
  have "even ((2 * (b div W64)) mod W64)" unfolding W by (simp add: dvd_mod_iff)
  moreover have "(2 * (b div W64)) mod W64 < W64" by simp
  moreover have "even W64" unfolding W by simp
  ultimately have "(2 * (b div W64)) mod W64 + t < W64" using t(2) by (intro even_gap)
  then have lhs: "uint (push_bit 1 x OR drop_bit 63 y) = (2 * (b div W64)) mod W64 + t"
    unfolding orsum uint_add64 p uint_drop_bit64 t_def [symmetric] using t by (intro mod_W64_id) simp_all
  have "((2 * (b div W64)) mod W64 + t) mod W64 = (2 * (b div W64)) mod W64 + t"
    using \<open>(2 * (b div W64)) mod W64 + t < W64\<close> t by (intro mod_W64_id) simp_all
  then show "uint (push_bit 1 (mpz_getlimbn a (Suc n)) OR drop_bit 63 (mpz_getlimbn a n)) = (2 * a div W64 ^ Suc n) mod W64"
    unfolding x_def [symmetric] y_def [symmetric] lhs rhs by (metis mod_add_left_eq)
qed

lemma div_eq_less_iff:
  fixes x y B :: int
  assumes "0 < B"
  shows "x div B < y div B \<Longrightarrow> x < y"
  using zdiv_mono1 [OF _ assms, of y x] by linarith

lemma limb_of_div: "x div W64 ^ n = W64 * (x div W64 ^ Suc n) + (x div W64 ^ n) mod W64" for x :: int
  unfolding div_W64_Suc by simp

text \<open>The comparison of limbs compares the double of \<open>a\<close> with \<open>c\<close> once the parts above agree.\<close>

lemma ndiv_sub_iff:
  assumes "0 \<le> a" "0 \<le> c" "2 * a div W64 ^ n = c div W64 ^ n"
  shows "ndiv_sub a c n \<longleftrightarrow> c < 2 * a"
  using assms(3)
proof (induction n)
  case (Suc n)
  define cj aj where "cj = mpz_getlimbn c n"
    and "aj = (if n > 0 then push_bit 1 (mpz_getlimbn a n) OR drop_bit 63 (mpz_getlimbn a (n - 1)) else push_bit 1 (mpz_getlimbn a n))"
  have uc: "uint cj = (c div W64 ^ n) mod W64" using assms(2) by (simp add: cj_def uint_getlimbn)
  have ua: "uint aj = (2 * a div W64 ^ n) mod W64"
    using double_limb [OF assms(1)] by (cases n) (simp_all add: aj_def del: One_nat_def)
  have "2 * a div W64 ^ n - c div W64 ^ n = uint aj - uint cj"
    using limb_of_div [of "2 * a" n] limb_of_div [of c n] assms Suc.prems by (simp add: ua uc)
  then have cmp: "aj > cj \<longleftrightarrow> 2 * a div W64 ^ n > c div W64 ^ n" "aj < cj \<longleftrightarrow> 2 * a div W64 ^ n < c div W64 ^ n"
    by (auto simp: word_less_def)
  have D: "ndiv_sub a c (Suc n) = (if aj > cj then True else if aj < cj then False else ndiv_sub a c n)"
    unfolding ndiv_sub.simps Let_def aj_def cj_def by simp
  have B: "0 < W64 ^ n" by simp
  show ?case
    unfolding D using cmp div_eq_less_iff [OF B, of c "2 * a"] div_eq_less_iff [OF B, of "2 * a" c] Suc.IH by auto
qed (use assms in simp)

lemma ndiv_r_value:
  assumes "0 < c"
  shows "mpz_ndiv_r b c = (if 2 * (b mod c) > c then b mod c - c else b mod c)"
proof -
  define a n where "a = b mod c" and "n = mpz_size c"
  have a: "0 \<le> a" "a < c" using assms by (simp_all add: a_def)
  obtain k where k: "n = Suc k" using mpz_size_0 [of c] assms by (cases n) (simp_all add: n_def)
  have c: "c < W64 ^ n" using mpz_size_bound [of c] assms by (simp add: n_def)
  have top: "uint (mpz_getlimbn a k) = a div W64 ^ k"
  proof -
    have "a div W64 ^ k < W64" using a c k by (intro div_less_of_less_mult) (simp_all add: mult.commute)
    then show ?thesis using a by (simp add: uint_getlimbn mod_W64_id pos_imp_zdiv_nonneg_iff)
  qed
  have big: "c < 2 * a" if "push_bit 63 1 \<le> mpz_getlimbn a k"
  proof -
    have "2 ^ 63 \<le> a div W64 ^ k" using that by (simp add: word_le_def top)
    then have "W64 ^ k * 2 ^ 63 \<le> W64 ^ k * (a div W64 ^ k)" by simp
    also have "\<dots> \<le> a" by (rule mult_div_le_self) simp
    finally have "W64 ^ k * 2 ^ 63 \<le> a" .
    moreover have "W64 ^ n = 2 * (W64 ^ k * 2 ^ 63)" by (simp add: k W64_def)
    ultimately show ?thesis using c by simp
  qed
  have small: "ndiv_sub a c n \<longleftrightarrow> c < 2 * a" if "\<not> push_bit 63 1 \<le> mpz_getlimbn a k"
  proof (rule ndiv_sub_iff)
    have "uint (mpz_getlimbn a k) < 2 ^ 63" using that by (simp add: word_le_def)
    then have "a div W64 ^ k < 2 ^ 63" by (simp add: top)
    then have "W64 ^ k * (a div W64 ^ k + 1) \<le> W64 ^ k * 2 ^ 63" by (intro mult_left_mono) simp_all
    moreover have "a < W64 ^ k * (a div W64 ^ k + 1)" by (rule less_mult_div_Suc) simp
    moreover have "W64 ^ n = 2 * (W64 ^ k * 2 ^ 63)" by (simp add: k W64_def)
    ultimately have "2 * a < W64 ^ n" by linarith
    then show "2 * a div W64 ^ n = c div W64 ^ n" using a c by simp
  qed (use a in simp_all)
  show ?thesis
    using big small k assms unfolding mpz_ndiv_r_def Let_def mpz_mod_def abs_of_pos [OF assms] a_def [symmetric] n_def [symmetric]
    by (auto simp del: push_bit_of_1)
qed

lemma ndiv_r_mod: "0 < c \<Longrightarrow> mpz_ndiv_r b c mod c = b mod c"
  by (simp add: ndiv_r_value)

section \<open>Barrett reduction\<close>

lemma tdiv_q_2exp_minus: "mpz_tdiv_q_2exp (- x) n = - mpz_tdiv_q_2exp x n"
  by (simp add: mpz_tdiv_q_2exp_def sgn_minus)

lemma tdiv_q_2exp_nonneg: "0 \<le> x \<Longrightarrow> mpz_tdiv_q_2exp x n = x div 2 ^ n"
  by (cases "x = 0") (simp_all add: mpz_tdiv_q_2exp_def)

lemma sizeinbase2_minus [simp]: "mpz_sizeinbase2 (- x) = mpz_sizeinbase2 x" "mpz_sizeinbase2 \<bar>x\<bar> = mpz_sizeinbase2 x"
  by (simp_all add: mpz_sizeinbase2_def)

text \<open>One round for a nonnegative argument: a positive multiple of the modulus, at most the argument, is subtracted.\<close>

lemma barrett_round:
  fixes m r :: int
  defines "n \<equiv> mpz_sizeinbase2 m" and "sr \<equiv> mpz_sizeinbase2 r"
  defines "a1 \<equiv> r div 2 ^ (if sr \<le> 2 * n then n else sr - n)"
  defines "x \<equiv> a1 * (2 ^ (2 * n) div m) div 2 ^ n * m * 2 ^ (sr - 2 * n)"
  assumes "0 < m" "0 \<le> r" "sr > n + 1"
  shows "0 < x" "x \<le> r" "m dvd x"
proof -
  define e where "e = sr - 2 * n"
  define q where "q = 2 ^ (2 * n) div m"
  have n: "2 ^ (n - 1) \<le> m" "m < 2 ^ n" "0 < n"
    using sizeinbase2_bounds [of m] assms(5) by (simp_all add: n_def)
  have sh: "(if sr \<le> 2 * n then n else sr - n) = n + e" by (simp add: e_def)
  have r: "2 ^ (sr - 1) \<le> r"
    using sizeinbase2_bounds(2) [of r] assms(6,7) by (cases "r = 0") (auto simp: sr_def mpz_sizeinbase2_def)
  have "(2 :: int) ^ (n + e) \<le> 2 ^ (sr - 1)" using assms(7) n(3) by (intro power_increasing) (auto simp: e_def)
  then have "2 ^ (n + e) \<le> r" using r by linarith
  then have "1 \<le> r div 2 ^ (n + e)" by (simp add: pos_imp_zdiv_pos_iff zdiv_mono1 [of "2 ^ (n + e)" r "2 ^ (n + e)", simplified])
  then have a1: "1 \<le> a1" by (simp add: a1_def sh)
  have "2 ^ n * m \<le> 2 ^ n * 2 ^ n" using n(2) by simp
  then have "2 ^ n \<le> q" using assms(5) n(2) zdiv_mono1 [of "2 ^ n * m" "2 ^ (2 * n)" m] by (simp add: q_def power_add mult_2)
  then have "1 * 2 ^ n \<le> a1 * q" using a1 by (intro mult_mono) simp_all
  then have "1 \<le> a1 * q div 2 ^ n" using zdiv_mono1 [of "2 ^ n" "a1 * q" "2 ^ n"] by simp
  then have pos: "0 < a1 * q div 2 ^ n * m * 2 ^ e" using assms(5) by simp
  have "2 ^ n * (a1 * q div 2 ^ n * m) = 2 ^ n * (a1 * q div 2 ^ n) * m" by simp
  also have "\<dots> \<le> a1 * q * m" using assms(5) by (intro mult_right_mono mult_div_le_self) simp_all
  also have "\<dots> \<le> a1 * 2 ^ (2 * n)"
  proof -
    have "q * m \<le> 2 ^ (2 * n)" using mult_div_le_self [OF assms(5), of "2 ^ (2 * n)"] by (simp add: q_def mult.commute)
    then show ?thesis using a1 by (simp add: mult.assoc)
  qed
  finally have "2 ^ n * (a1 * q div 2 ^ n * m) \<le> 2 ^ n * (a1 * 2 ^ n)" by (simp add: mult_2 power_add mult.left_commute)
  then have "a1 * q div 2 ^ n * m * 2 ^ e \<le> a1 * 2 ^ n * 2 ^ e" by (intro mult_right_mono) simp_all
  also have "\<dots> \<le> r"
  proof -
    have "a1 = r div 2 ^ (n + e)" by (simp only: a1_def sh)
    then show ?thesis using mult_div_le_self [of "2 ^ (n + e)" r] by (simp add: power_add ac_simps)
  qed
  finally show "x \<le> r" unfolding x_def q_def [symmetric] e_def [symmetric] .
  show "0 < x" unfolding x_def q_def [symmetric] e_def [symmetric] by (rule pos)
  show "m dvd x" by (simp add: x_def)
qed

lemma barrett_loop_returns:
  assumes "0 < m"
  shows "\<exists>r'. barrett_loop m (2 ^ (2 * mpz_sizeinbase2 m) div m) r = Some r' \<and> r' mod m = r mod m"
proof (induction r rule: measure_induct_rule [where f = "\<lambda>r. nat \<bar>r\<bar>"])
  case (less r)
  define n sr where "n = mpz_sizeinbase2 m" and "sr = mpz_sizeinbase2 r"
  define X where "X = (\<lambda>y. mpz_tdiv_q_2exp (mpz_tdiv_q_2exp y (if sr \<le> 2 * n then n else sr - n) * (2 ^ (2 * n) div m)) n * m * 2 ^ (sr - 2 * n))"
  have neg: "X (- y) = - X y" for y by (simp add: X_def tdiv_q_2exp_minus)
  have pos: "X y = y div 2 ^ (if sr \<le> 2 * n then n else sr - n) * (2 ^ (2 * n) div m) div 2 ^ n * m * 2 ^ (sr - 2 * n)" if "0 \<le> y" for y
    using that assms unfolding X_def
    by (subst tdiv_q_2exp_nonneg) (simp_all add: tdiv_q_2exp_nonneg pos_imp_zdiv_nonneg_iff del: mult_cancel_right)
  have step: "barrett_loop m (2 ^ (2 * n) div m) r = (if sr > n + 1 then barrett_loop m (2 ^ (2 * n) div m) (r - X r) else Some r)"
    by (subst barrett_loop.simps) (auto simp: Let_def X_def n_def sr_def)
  show ?case
  proof (cases "sr > n + 1")
    case True
    have b: "0 < X \<bar>r\<bar> \<and> X \<bar>r\<bar> \<le> \<bar>r\<bar> \<and> m dvd X \<bar>r\<bar>"
      using barrett_round [of m "\<bar>r\<bar>", unfolded sizeinbase2_minus, folded n_def sr_def, OF assms abs_ge_zero True]
      unfolding pos [OF abs_ge_zero] by blast
    then have "\<bar>r - X r\<bar> < \<bar>r\<bar>" "m dvd X r" using neg [of r] by (auto simp: abs_if split: if_splits)
    then have "(r - X r) mod m = r mod m" by (simp add: mod_eq_dvd_iff)
    then show ?thesis using less.IH [of "r - X r"] \<open>\<bar>r - X r\<bar> < \<bar>r\<bar>\<close> step True by (simp add: n_def)
  qed (use step in \<open>simp add: n_def\<close>)
qed

lemma barrett_adjust_returns:
  assumes "0 < m"
  shows "\<exists>r'. barrett_adjust m r = Some r' \<and> r' mod m = r mod m \<and> \<bar>r'\<bar> < m"
proof (induction r rule: measure_induct_rule [where f = "\<lambda>r. nat \<bar>r\<bar>"])
  case (less r)
  define s where "s = (if r > 0 then r - m else r + m)"
  have step: "barrett_adjust m r = (if \<bar>r\<bar> \<ge> m then barrett_adjust m s else Some r)"
    using assms by (subst barrett_adjust.simps) (simp add: s_def)
  have "s mod m = r mod m" by (simp add: s_def)
  moreover have "\<bar>r\<bar> \<ge> m \<Longrightarrow> \<bar>s\<bar> < \<bar>r\<bar>" using assms by (auto simp: s_def)
  ultimately show ?case using less.IH [of s] step by auto
qed

lemma mod_barrett_value:
  assumes "barrett_precompute_inverse m = Some invm"
  shows "mpz_mod_barrett a m invm = Some (a mod m)"
proof -
  have m: "0 < m" and invm: "invm = 2 ^ (2 * mpz_sizeinbase2 m) div m"
    using assms by (simp_all add: barrett_precompute_inverse_def Let_def split: if_splits)
  obtain r where r: "barrett_loop m invm a = Some r" "r mod m = a mod m" using barrett_loop_returns [OF m] invm by blast
  obtain s where s: "barrett_adjust m r = Some s" "s mod m = r mod m" "\<bar>s\<bar> < m" using barrett_adjust_returns [OF m] by blast
  have "(if s < 0 then s + m else s) = s mod m"
  proof (cases "s < 0")
    case True
    then have "(s + m) mod m = s + m" using s(3) by (intro mod_pos_pos_trivial) simp_all
    then show ?thesis using True by simp
  next
    case False
    then show ?thesis using s(3) by (simp add: mod_pos_pos_trivial)
  qed
  then show ?thesis using r s by (simp add: mpz_mod_barrett_def)
qed

section \<open>Properties\<close>

text \<open>
  C33: The limb by limb comparison yields the residue \<open>a\<close> of \<open>b\<close> modulo \<open>c\<close> with \<open>-c < 2 a \<le> c\<close>. When \<open>c\<close> is even and the
  residue is its half the result is \<open>c/2\<close>, not \<open>-c/2\<close>.
\<close>
theorem mpz_ndiv_r_centred:
  assumes "0 < c"
  shows "mpz_ndiv_r b c mod c = b mod c \<and> - c < 2 * mpz_ndiv_r b c \<and> 2 * mpz_ndiv_r b c \<le> c"
  using pos_mod_sign [OF assms, of b] pos_mod_bound [OF assms, of b] by (simp add: ndiv_r_value [OF assms])

theorem mpz_ndiv_r_centred_witness:
  "mpz_ndiv_r 7 10 mod 10 = 7 \<and> - 10 < 2 * mpz_ndiv_r 7 10 \<and> mpz_ndiv_r 7 10 = -3 \<and> mpz_ndiv_r 5 10 = 5"
  using mpz_ndiv_r_centred [of 10 7] by (simp add: ndiv_r_value)

text \<open>
  C32: Reduction with the precomputed inverse returns, for every integer and every positive modulus, the
  nonnegative residue; both of its loops end.
\<close>
theorem mpz_mod_barrett_returns:
  assumes "0 < m"
  shows "\<exists>invm. barrett_precompute_inverse m = Some invm \<and> mpz_mod_barrett a m invm = Some (a mod m)"
proof -
  obtain invm where "barrett_precompute_inverse m = Some invm" using assms by (auto simp: barrett_precompute_inverse_def Let_def)
  then show ?thesis using mod_barrett_value by blast
qed

theorem mpz_mod_barrett_returns_witness:
  "\<exists>invm. barrett_precompute_inverse 97 = Some invm \<and> mpz_mod_barrett (-123456789) 97 invm = Some 58"
  using mpz_mod_barrett_returns [of 97 "-123456789"] by simp

end
