(* ===== verification/MpzPolyDiv.thy ===== *)
theory MpzPolyDiv
  imports MpzPolyMul GmpAux CompileTime
begin

text \<open>
  Divisions of polynomials in \<^verbatim>\<open>utils/mpz_poly.cpp\<close>: with remainder over the integers and modulo an integer, the
  division in place that is the step of the greatest common divisor, exact division modulo a
  prime, and the monic multiple. The coefficients up to the degree are the list; the
  divisor is not the zero list. The inverse modulo an integer is GMP's, a parameter.
\<close>

section \<open>Division in place\<close>

text \<open>The number of coefficients below \<open>n\<close> when those that \<open>N\<close> divides are left off from the top.\<close>

fun strip_dvd :: "int \<Rightarrow> zpoly \<Rightarrow> nat \<Rightarrow> nat" where
  "strip_dvd N h 0 = 0"
| "strip_dvd N h (Suc n) = (if N dvd h ! n then strip_dvd N h n else Suc n)"

definition pseudodiv_cells :: "zpoly \<Rightarrow> zpoly \<Rightarrow> int \<Rightarrow> nat \<Rightarrow> nat \<Rightarrow> zpoly" where
  "pseudodiv_cells h f N dh d =
     fold (\<lambda>i h. let tmp = mpz_mod (h ! dh * f ! i) N
                 in h[dh - d + i := mpz_ndiv_r (h ! (dh - d + i) - tmp) N]) [0..<d] h"

lemma strip_dvd_le: "strip_dvd N h n \<le> n"
  by (induction n) (auto simp: le_SucI)

function pseudodiv_loop :: "int \<Rightarrow> zpoly \<Rightarrow> int \<Rightarrow> zpoly \<Rightarrow> zpoly" where
  "pseudodiv_loop ivl f N h =
     (if f \<noteq> [] \<and> length f \<le> length h
      then let d = length f - 1; dh = length h - 1;
               h = (if ivl \<noteq> 1 then h[dh := mpz_ndiv_r (h ! dh * ivl) N] else h);
               h = pseudodiv_cells h f N dh d
           in pseudodiv_loop ivl f N (take (strip_dvd N h dh) h)
      else h)"
  by pat_completeness auto

termination
proof (relation "measure (\<lambda>(ivl, f, N, h). length h)", goal_cases)
  case (2 ivl f N h d dh h1 h2)
  have "strip_dvd N h2 dh \<le> length h - 1" using strip_dvd_le [of N h2 dh] 2 by simp
  moreover have "length h - 1 < length h" using 2(1) by (cases h) auto
  ultimately have "strip_dvd N h2 dh < length h" by (rule le_less_trans)
  then show ?case by (simp add: min_less_iff_disj)
qed simp

declare pseudodiv_loop.simps [simp del]

text \<open>On failure the divisor of the modulus that was found is returned, otherwise the remainder.\<close>

definition mpz_poly_pseudodiv_r :: "(int \<Rightarrow> int \<Rightarrow> int option) \<Rightarrow> zpoly \<Rightarrow> zpoly \<Rightarrow> int \<Rightarrow> int + zpoly" where
  "mpz_poly_pseudodiv_r invert h f N =
     (let tmp = last f
      in if tmp \<noteq> 1
         then (case invert tmp N of None \<Rightarrow> Inl (gcd tmp N)
               | Some ivl \<Rightarrow> Inr (pseudodiv_loop ivl f N h))
         else Inr (pseudodiv_loop 1 f N h))"

definition mpz_poly_div_r_mod_mpz_clobber :: "(int \<Rightarrow> int \<Rightarrow> int option) \<Rightarrow> zpoly \<Rightarrow> zpoly \<Rightarrow> int \<Rightarrow> bool \<times> zpoly" where
  "mpz_poly_div_r_mod_mpz_clobber invert h f p =
     (case mpz_poly_pseudodiv_r invert h f p of Inl _ \<Rightarrow> (False, h) | Inr r \<Rightarrow> (True, r))"

section \<open>Quotient and remainder\<close>

text \<open>The steps for the quotient's coefficients \<open>k - 1\<close> down to \<open>0\<close>; \<open>q\<close> are those above.\<close>

definition submul_mod_cells :: "zpoly \<Rightarrow> zpoly \<Rightarrow> int \<Rightarrow> nat \<Rightarrow> int \<Rightarrow> zpoly" where
  "submul_mod_cells r g c k p =
     fold (\<lambda>j r. r[j := mpz_mod (r ! j - c * g ! (j - k)) p]) (rev [k..<length g + k]) r"

fun div_qr_mod_loop :: "int \<Rightarrow> zpoly \<Rightarrow> int \<Rightarrow> nat \<Rightarrow> zpoly \<Rightarrow> zpoly \<Rightarrow> zpoly \<times> zpoly" where
  "div_qr_mod_loop invlg g p 0 q r = (q, r)"
| "div_qr_mod_loop invlg g p (Suc k) q r =
     (let c = mpz_mod (r ! (k + (length g - 1)) * invlg) p
      in div_qr_mod_loop invlg g p k (c # q) (submul_mod_cells r g c k p))"

definition mpz_poly_div_qr_mod_mpz ::
  "(int \<Rightarrow> int \<Rightarrow> int option) \<Rightarrow> zpoly \<Rightarrow> zpoly \<Rightarrow> int \<Rightarrow> (zpoly \<times> zpoly) option" where
  "mpz_poly_div_qr_mod_mpz invert f g p =
     (if length f < length g then Some ([], f)
      else let lg = mpz_mod (last g) p;
               run = (\<lambda>invlg. case div_qr_mod_loop invlg g p (length f - length g + 1) [] f of
                        (q, r) \<Rightarrow> (q, cleandeg r))
           in if lg \<noteq> 1
              then (case invert lg p of None \<Rightarrow> None | Some invlg \<Rightarrow> Some (run invlg))
              else Some (run 1))"

text \<open>Over the integers; the division fails when a quotient of leading coefficients is not an integer.\<close>

fun div_qr_loop :: "zpoly \<Rightarrow> nat \<Rightarrow> zpoly \<Rightarrow> zpoly \<Rightarrow> (zpoly \<times> zpoly) option" where
  "div_qr_loop g 0 q r = Some (q, r)"
| "div_qr_loop g (Suc k) q r =
     (let a = r ! (k + (length g - 1)); lg = last g
      in if \<not> lg dvd a then None
         else div_qr_loop g k (a div lg # q) (addmul_cells r g (- (a div lg)) k))"

definition mpz_poly_div_qr :: "zpoly \<Rightarrow> zpoly \<Rightarrow> (zpoly \<times> zpoly) option" where
  "mpz_poly_div_qr f g =
     (if length f < length g then Some ([], f)
      else case div_qr_loop g (length f - length g + 1) [] f of None \<Rightarrow> None
           | Some (q, r) \<Rightarrow> Some (q, cleandeg r))"

definition mpz_poly_div_r :: "zpoly \<Rightarrow> zpoly \<Rightarrow> zpoly option" where
  "mpz_poly_div_r f g = map_option snd (mpz_poly_div_qr f g)"

definition mpz_poly_mod :: "zpoly \<Rightarrow> zpoly \<Rightarrow> zpoly option" where
  "mpz_poly_mod f g = mpz_poly_div_r f g"

section \<open>Exact division and the monic multiple\<close>

text \<open>The step for the coefficient \<open>dh\<close> updates only the cells of degree at least \<open>d\<close>.\<close>

definition divexact_step :: "zpoly \<Rightarrow> int \<Rightarrow> int \<Rightarrow> nat \<Rightarrow> zpoly \<Rightarrow> int \<times> zpoly" where
  "divexact_step f p t dh h =
     (let d = length f - 1;
          h = (if t \<noteq> 1 then h[dh := mpz_mod (h ! dh * t) p] else h);
          qc = mpz_mod (h ! dh) p;
          h = fold (\<lambda>i h. let aux = h ! dh * f ! i
                          in h[dh - d + i := mpz_mod (h ! (dh - d + i) - aux) p])
                [(if 2 * d > dh then 2 * d - dh else 0)..<d] h
      in (qc, h))"

fun divexact_loop :: "zpoly \<Rightarrow> int \<Rightarrow> int \<Rightarrow> nat \<Rightarrow> zpoly \<Rightarrow> zpoly \<Rightarrow> zpoly" where
  "divexact_loop f p t 0 q h = q"
| "divexact_loop f p t (Suc k) q h =
     (case divexact_step f p t (k + (length f - 1)) h of (qc, h) \<Rightarrow> divexact_loop f p t k (qc # q) h)"

definition mpz_poly_divexact :: "(int \<Rightarrow> int \<Rightarrow> int option) \<Rightarrow> zpoly \<Rightarrow> zpoly \<Rightarrow> int \<Rightarrow> zpoly option" where
  "mpz_poly_divexact invert h f p =
     (case invert (mpz_mod (last f) p) p of None \<Rightarrow> None
      | Some t \<Rightarrow> Some (divexact_loop f p t (length h - length f + 1) [] h))"

text \<open>The return value of the inversion is not tested.\<close>

definition mpz_poly_makemonic_mod_mpz :: "(int \<Rightarrow> int \<Rightarrow> int) \<Rightarrow> zpoly \<Rightarrow> int \<Rightarrow> zpoly" where
  "mpz_poly_makemonic_mod_mpz ginv P m =
     (let n = strip_dvd m P (length P)
      in if n = 0 then []
         else let aux = mpz_mod (P ! (n - 1)) m;
                  aux2 = ginv aux m
              in map (\<lambda>c. mpz_mod (aux2 * c) m) (take (n - 1) P) @ [1])"

section \<open>Congruence modulo a polynomial and an integer\<close>

definition pcong :: "int \<Rightarrow> zpoly \<Rightarrow> zpoly \<Rightarrow> zpoly \<Rightarrow> bool" where
  "pcong m f a b \<longleftrightarrow> (\<exists>q :: zpoly. scong m (cf a) (sadd (cf b) (conv (cf q) (cf f))))"

lemma pcongI: "scong m (cf a) (sadd (cf b) (conv (cf q) (cf f))) \<Longrightarrow> pcong m f a b"
  by (auto simp: pcong_def)

lemma scong_imp_pcong: "scong m (cf a) (cf b) \<Longrightarrow> pcong m f a b"
  by (rule pcongI [of _ _ _ "[]"]) simp

lemma pcong_refl [simp]: "pcong m f a a"
  by (simp add: scong_imp_pcong)

lemma pcong_sym: "pcong m f a b \<Longrightarrow> pcong m f b a"
proof -
  assume "pcong m f a b"
  then obtain q where q: "scong m (cf a) (sadd (cf b) (conv (cf q) (cf f)))" by (auto simp: pcong_def)
  have neg: "cf (mpz_poly_neg q) = ssub szero (cf q)" by (simp add: fun_eq_iff neg_cf ssub_def szero_def)
  have "scong m (ssub (cf a) (conv (cf q) (cf f))) (ssub (sadd (cf b) (conv (cf q) (cf f))) (conv (cf q) (cf f)))"
    using q by (rule scong_sub) simp
  then have "scong m (cf b) (sadd (cf a) (conv (cf (mpz_poly_neg q)) (cf f)))"
    unfolding neg conv_sub_left by (simp add: scong_def sadd_def ssub_def szero_def)
  then show ?thesis by (rule pcongI)
qed

lemma pcong_trans [trans]: "pcong m f a b \<Longrightarrow> pcong m f b c \<Longrightarrow> pcong m f a c"
proof -
  assume "pcong m f a b" "pcong m f b c"
  then obtain q r where q: "scong m (cf a) (sadd (cf b) (conv (cf q) (cf f)))"
    and r: "scong m (cf b) (sadd (cf c) (conv (cf r) (cf f)))" by (auto simp: pcong_def)
  have "scong m (sadd (cf b) (conv (cf q) (cf f))) (sadd (sadd (cf c) (conv (cf r) (cf f))) (conv (cf q) (cf f)))"
    using r by (rule scong_add) simp
  then have "scong m (cf a) (sadd (cf c) (conv (cf (mpz_poly_add r q)) (cf f)))"
    unfolding add_cf conv_add_left using q by (simp add: scong_def sadd_def add.assoc)
  then show ?thesis by (rule pcongI)
qed

text \<open>Products respect it, for any lists that have the coefficients of the products.\<close>

lemma pcong_mul:
  assumes "pcong m f a a'" "pcong m f b b'" "cf c = conv (cf a) (cf b)" "cf c' = conv (cf a') (cf b')"
  shows "pcong m f c c'"
proof -
  obtain q r where q: "scong m (cf a) (sadd (cf a') (conv (cf q) (cf f)))"
    and r: "scong m (cf b) (sadd (cf b') (conv (cf r) (cf f)))" using assms(1,2) by (auto simp: pcong_def)
  define k where "k = mpz_poly_add (mpz_poly_mul q b') (mpz_poly_add (mpz_poly_mul a' r) (mpz_poly_mul q (mpz_poly_mul f r)))"
  have "scong m (cf c) (conv (sadd (cf a') (conv (cf q) (cf f))) (sadd (cf b') (conv (cf r) (cf f))))"
    unfolding assms(3) using q r by (rule conv_cong)
  also have "conv (sadd (cf a') (conv (cf q) (cf f))) (sadd (cf b') (conv (cf r) (cf f)))
      = sadd (cf c') (conv (cf k) (cf f))"
  proof -
    have 1: "conv (conv (cf q) (cf f)) (cf b') = conv (conv (cf q) (cf b')) (cf f)"
      unfolding conv_assoc by (simp only: conv_commute [of "cf f"])
    have 2: "conv (cf a') (conv (cf r) (cf f)) = conv (conv (cf a') (cf r)) (cf f)" by (simp only: conv_assoc)
    have 3: "conv (conv (cf q) (cf f)) (conv (cf r) (cf f)) = conv (conv (cf q) (conv (cf f) (cf r))) (cf f)"
      by (simp only: conv_assoc)
    show ?thesis
      unfolding k_def add_cf mul_cf conv_add_left conv_add_right 1 2 3 assms(4) by (simp add: fun_eq_iff sadd_def)
  qed
  finally show ?thesis by (rule pcongI)
qed

lemma pcong_step:
  assumes "scong m (cf b) (ssub (cf a) (conv (mono c k) (cf f)))"
  shows "pcong m f a b"
proof -
  have "scong m (cf a) (sadd (ssub (cf a) (conv (mono c k) (cf f))) (conv (mono c k) (cf f)))"
    by (simp add: scong_def sadd_def ssub_def)
  also have "scong m \<dots> (sadd (cf b) (conv (mono c k) (cf f)))" using scong_sym [OF assms] by (rule scong_add) simp
  finally show ?thesis by (intro pcongI [of _ _ _ "replicate k 0 @ [c]"]) (simp add: cf_monomial)
qed

section \<open>Updates of distinct cells\<close>

lemma fold_update_nth:
  fixes r :: "int list"
  assumes "distinct (map ix js)" "\<forall>j\<in>set js. ix j < length r \<and> ix j \<noteq> piv"
  shows "length (fold (\<lambda>j r. r[ix j := F j (r ! ix j) (r ! piv)]) js r) = length r
    \<and> (\<forall>j\<in>set js. fold (\<lambda>j r. r[ix j := F j (r ! ix j) (r ! piv)]) js r ! ix j = F j (r ! ix j) (r ! piv))
    \<and> (\<forall>i. i \<notin> ix ` set js \<longrightarrow> fold (\<lambda>j r. r[ix j := F j (r ! ix j) (r ! piv)]) js r ! i = r ! i)"
  using assms
proof (induction js arbitrary: r)
  case (Cons j js)
  define r' where "r' = r[ix j := F j (r ! ix j) (r ! piv)]"
  have piv: "r' ! piv = r ! piv" using Cons.prems by (simp add: r'_def)
  have other: "r' ! ix i = r ! ix i" if "i \<in> set js" for i 
  proof -
    have "ix i \<noteq> ix j" using Cons.prems(1) imageI [OF that, of ix] by auto
    then show ?thesis by (simp add: r'_def)
  qed
  have "ix j \<notin> ix ` set js" using Cons.prems(1) by auto
  moreover have "r' ! ix j = F j (r ! ix j) (r ! piv)" using Cons.prems by (simp add: r'_def)
  moreover have "\<forall>i. i \<notin> ix ` set (j # js) \<longrightarrow> r' ! i = r ! i" by (auto simp: r'_def)
  moreover have "length r' = length r" by (simp add: r'_def)
  ultimately show ?case
    using Cons.IH [of r'] Cons.prems piv other unfolding fold_simps o_def r'_def [symmetric] by auto
qed simp

lemma mod_diff_right_mod: "(x - y mod p) mod p = (x - y) mod p" for x y p :: int
  by (simp add: mod_diff_right_eq)

lemma submul_mod_cells_cf:
  assumes "length g + k \<le> length r" "0 < p"
  shows "length (submul_mod_cells r g c k p) = length r"
    "scong p (cf (submul_mod_cells r g c k p)) (ssub (cf r) (conv (mono c k) (cf g)))"
    "\<And>j. k \<le> j \<Longrightarrow> j < length g + k \<Longrightarrow> cf (submul_mod_cells r g c k p) j = (cf r j - c * cf g (j - k)) mod p"
    "\<And>j. length g + k \<le> j \<Longrightarrow> cf (submul_mod_cells r g c k p) j = cf r j"
proof -
  define s where "s = submul_mod_cells r g c k p"
  have u: "length s = length r" "\<forall>j\<in>{k..<length g + k}. s ! j = mpz_mod (r ! j - c * g ! (j - k)) p"
    "\<forall>i. i \<notin> {k..<length g + k} \<longrightarrow> s ! i = r ! i"
    using fold_update_nth [of "\<lambda>j. j" "rev [k..<length g + k]" r "length r" "\<lambda>j x _. mpz_mod (x - c * g ! (j - k)) p"] assms(1)
    by (simp_all add: s_def submul_mod_cells_def)
  show "length (submul_mod_cells r g c k p) = length r" using u(1) by (simp add: s_def)
  have in': "cf s j = (cf r j - c * cf g (j - k)) mod p" if "j \<in> {k..<length g + k}" for j
    using that u assms by (auto simp: cf_def mpz_mod_def)
  then show "\<And>j. k \<le> j \<Longrightarrow> j < length g + k \<Longrightarrow> cf (submul_mod_cells r g c k p) j = (cf r j - c * cf g (j - k)) mod p"
    by (simp add: s_def)
  show "\<And>j. length g + k \<le> j \<Longrightarrow> cf (submul_mod_cells r g c k p) j = cf r j"
    using u by (auto simp: cf_def s_def)
  have "cf s n mod p = (cf r n - conv (mono c k) (cf g) n) mod p" for n
  proof (cases "n \<in> {k..<length g + k}")
    case True
    then show ?thesis using in' [OF True] by (simp add: conv_mono)
  next
    case False
    then have "cf s n = cf r n" "conv (mono c k) (cf g) n = 0" using u by (auto simp: cf_def conv_mono)
    then show ?thesis by simp
  qed
  then show "scong p (cf (submul_mod_cells r g c k p)) (ssub (cf r) (conv (mono c k) (cf g)))"
    by (simp add: scong_def ssub_def s_def)
qed

lemma strip_dvd_above: "strip_dvd N h n \<le> i \<Longrightarrow> i < n \<Longrightarrow> N dvd h ! i"
  by (induction n) (auto simp: less_Suc_eq split: if_splits)

lemma strip_dvd_last: "0 < strip_dvd N h n \<Longrightarrow> \<not> N dvd h ! (strip_dvd N h n - 1)"
  by (induction n) auto

text \<open>One round of the division in place, \<open>c\<close> being the quotient's coefficient.\<close>

lemma pseudodiv_round:
  assumes "f \<noteq> []" "length f \<le> length h" "0 < N" "(last f * c) mod N = h ! (length h - 1) mod N"
  defines "dh \<equiv> length h - 1" and "d \<equiv> length f - 1"
  defines "h2 \<equiv> pseudodiv_cells (h[dh := c]) f N dh d"
  shows "length h2 = length h" "scong N (cf (take (strip_dvd N h2 dh) h2)) (ssub (cf h) (conv (mono c (dh - d)) (cf f)))"
proof -
  have len: "length f = Suc d" "length h = Suc dh" "d \<le> dh"
    using assms(1,2) by (cases f; cases h; simp add: d_def dh_def)+
  define h1 where "h1 = h[dh := c]"
  have h1: "length h1 = Suc dh" "h1 ! dh = c" "i \<noteq> dh \<Longrightarrow> h1 ! i = h ! i" for i using len by (simp_all add: h1_def)
  define b where "b = dh - d"
  have b: "dh = b + d" using len(3) by (simp add: b_def)
  have u: "length h2 = Suc dh" "\<forall>i\<in>{0..<d}. h2 ! (b + i) = mpz_ndiv_r (h1 ! (b + i) - mpz_mod (c * f ! i) N) N"
    "\<forall>i. i \<notin> (\<lambda>i. b + i) ` {0..<d} \<longrightarrow> h2 ! i = h1 ! i"
  proof -
    have "distinct (map (\<lambda>i. b + i) [0..<d])" by (simp add: distinct_map)
    moreover have "\<forall>j\<in>set [0..<d]. b + j < length h1 \<and> b + j \<noteq> dh" using h1(1) b by auto
    ultimately show "length h2 = Suc dh" "\<forall>i\<in>{0..<d}. h2 ! (b + i) = mpz_ndiv_r (h1 ! (b + i) - mpz_mod (c * f ! i) N) N"
      "\<forall>i. i \<notin> (\<lambda>i. b + i) ` {0..<d} \<longrightarrow> h2 ! i = h1 ! i"
      using fold_update_nth [of "\<lambda>i. b + i" "[0..<d]" h1 dh "\<lambda>i x c. mpz_ndiv_r (x - mpz_mod (c * f ! i) N) N"] h1(1,2)
      unfolding h2_def pseudodiv_cells_def Let_def h1_def [symmetric] b_def [symmetric] by simp_all
  qed
  show "length h2 = length h" using u(1) len by simp
  have low: "cf h2 n mod N = (cf h n - conv (mono c (b)) (cf f) n) mod N" if nd: "n < dh" for n
  proof (cases "b \<le> n")
    case True
    then obtain i where i: "n = b + i" "i < d" using nd le_Suc_ex [OF True] b by auto
    have "cf h2 n = mpz_ndiv_r (h ! n - mpz_mod (c * f ! i) N) N" using i nd u h1(3) [of n] by (simp add: cf_lt)
    then have "cf h2 n mod N = (h ! n - c * f ! i) mod N"
      using assms(3) by (simp add: ndiv_r_mod mpz_mod_def mod_diff_right_eq)
    then show ?thesis using i nd len by (simp add: conv_mono cf_lt)
  next
    case False
    then have "n \<notin> (\<lambda>i. b + i) ` {0..<d}" by auto
    then have "cf h2 n = cf h n" using nd u h1 len by (simp add: cf_lt)
    then show ?thesis using False by (simp add: conv_mono)
  qed
  have "cf (take (strip_dvd N h2 dh) h2) n mod N = (cf h n - conv (mono c (b)) (cf f) n) mod N" for n
  proof -
    consider "n < strip_dvd N h2 dh" | "strip_dvd N h2 dh \<le> n" "n < dh" | "n = dh" | "dh < n" by linarith
    then show ?thesis
    proof cases
      case 1
      then show ?thesis using low [of n] strip_dvd_le [of N h2 dh] by (simp add: cf_take)
    next
      case 2
      then have "cf h2 n mod N = 0" using strip_dvd_above [OF 2] u(1) by (simp add: cf_lt dvd_imp_mod_0)
      then show ?thesis using low [OF 2(2)] 2(1) by (simp add: cf_take)
    next
      case 3
      have "(h ! dh - last f * c) mod N = 0" using assms(4) by (simp add: mod_eq_dvd_iff mod_0_imp_dvd dh_def dvd_diff_commute)
      then have "(cf h n - conv (mono c (b)) (cf f) n) mod N = 0"
        using 3 len assms(1) b by (simp add: conv_mono cf_lt last_conv_nth mult.commute)
      then show ?thesis using 3 strip_dvd_le [of N h2 dh] by (simp add: cf_take)
    next
      case 4
      then show ?thesis using len b strip_dvd_le [of N h2 dh] by (simp add: cf_take conv_mono)
    qed
  qed
  then show "scong N (cf (take (strip_dvd N h2 dh) h2)) (ssub (cf h) (conv (mono c (dh - d)) (cf f)))"
    by (simp add: scong_def ssub_def b_def)
qed

lemma pseudodiv_loop_length: "length (pseudodiv_loop ivl f N h) \<le> length h"
proof (induction h rule: measure_induct_rule [where f = length])
  case (less h)
  define dh where "dh = length h - 1"
  have l: "length (take (strip_dvd N x dh) y) < length h" if "f \<noteq> []" "length f \<le> length h" for x y :: zpoly
    using strip_dvd_le [of N x dh] that by (cases h) (auto simp: dh_def)
  have "length (pseudodiv_loop ivl f N (take (strip_dvd N x dh) y)) \<le> length h"
    if "f \<noteq> []" "length f \<le> length h" for x y :: zpoly
    using less.IH [OF l [OF that]] l [OF that] by (meson le_trans less_imp_le)
  then show ?case
    by (subst pseudodiv_loop.simps) (simp add: Let_def dh_def del: length_take)
qed

lemma pseudodiv_loop_correct:
  assumes "f \<noteq> []" "0 < N" "(last f * ivl) mod N = 1 mod N"
  shows "pcong N f h (pseudodiv_loop ivl f N h) \<and> length (pseudodiv_loop ivl f N h) < length f
    \<and> (length f \<le> length h \<longrightarrow> pseudodiv_loop ivl f N h = [] \<or> \<not> N dvd last (pseudodiv_loop ivl f N h))"
proof (induction h rule: measure_induct_rule [where f = length])
  case (less h)
  show ?case
  proof (cases "length f \<le> length h")
    case False
    then have "pseudodiv_loop ivl f N h = h" by (subst pseudodiv_loop.simps) simp
    then show ?thesis using False by simp
  next
    case True
    define dh d where "dh = length h - 1" and "d = length f - 1"
    define c where "c = (if ivl \<noteq> 1 then mpz_ndiv_r (h ! dh * ivl) N else h ! dh)"
    define h2 where "h2 = pseudodiv_cells (h[dh := c]) f N dh d"
    define h3 where "h3 = take (strip_dvd N h2 dh) h2"
    have hd: "(if ivl \<noteq> 1 then h[dh := mpz_ndiv_r (h ! dh * ivl) N] else h) = h[dh := c]"
      by (simp add: c_def)
    have step: "pseudodiv_loop ivl f N h = pseudodiv_loop ivl f N h3"
      using pseudodiv_loop.simps [of ivl f N h] True assms(1)
      unfolding Let_def dh_def [symmetric] d_def [symmetric] hd h2_def [symmetric] h3_def [symmetric] by simp
    have "c mod N = (h ! dh * ivl) mod N" using assms(2) by (simp add: c_def ndiv_r_mod)
    then have "(last f * c) mod N = (last f * (h ! dh * ivl)) mod N" by (metis mod_mult_right_eq)
    also have "\<dots> = (h ! dh * (last f * ivl)) mod N" by (simp add: ac_simps)
    also have "\<dots> = h ! dh mod N" using assms(3) by (metis mod_mult_right_eq mult.right_neutral)
    finally have lc: "(last f * c) mod N = h ! (length h - 1) mod N" by (simp add: dh_def)
    note round = pseudodiv_round [OF assms(1) True assms(2) lc, folded dh_def d_def, folded h2_def, folded h3_def]
    have "pcong N f h h3" using round(2) by (rule pcong_step)
    have dl: "dh < length h" using True assms(1) by (cases h) (simp_all add: dh_def)
    have l3: "length h3 = strip_dvd N h2 dh" using strip_dvd_le [of N h2 dh] dl round(1) by (simp add: h3_def)
    then have lt: "length h3 < length h" using strip_dvd_le [of N h2 dh] dl by simp
    have last: "h3 = [] \<or> \<not> N dvd last h3"
      using strip_dvd_last [of N h2 dh] l3 by (cases "h3 = []") (simp_all add: last_conv_nth, simp add: h3_def)
    have "length h3 < length f \<Longrightarrow> pseudodiv_loop ivl f N h3 = h3" by (subst pseudodiv_loop.simps) simp
    then show ?thesis
      unfolding step using less.IH [OF lt] last pcong_trans [OF \<open>pcong N f h h3\<close>] by (cases "length f \<le> length h3") auto
  qed
qed

text \<open>
  The cells that the division in place writes are centred modulo \<open>N\<close>; the others keep the
  coefficients of the dividend, reduced or not.
\<close>

definition centred :: "int \<Rightarrow> int \<Rightarrow> bool" where
  "centred N c \<longleftrightarrow> - N < 2 * c \<and> 2 * c \<le> N"

lemma ndiv_r_centred:
  assumes "0 < N"
  shows "centred N (mpz_ndiv_r b N)"
  using pos_mod_sign [OF assms, of b] pos_mod_bound [OF assms, of b] by (simp add: centred_def ndiv_r_value [OF assms])

lemma pseudodiv_cells_nth:
  assumes "d \<le> dh" "dh < length h" "0 < N"
  shows "length (pseudodiv_cells h f N dh d) = length h
    \<and> (\<forall>j < dh. centred N (pseudodiv_cells h f N dh d ! j) \<or> pseudodiv_cells h f N dh d ! j = h ! j)"
proof -
  have "distinct (map (\<lambda>i. dh - d + i) [0..<d])" by (simp add: distinct_map)
  moreover have "\<forall>i\<in>set [0..<d]. dh - d + i < length h \<and> dh - d + i \<noteq> dh" using assms by auto
  ultimately have u: "length (pseudodiv_cells h f N dh d) = length h"
    "\<forall>i\<in>{0..<d}. pseudodiv_cells h f N dh d ! (dh - d + i) = mpz_ndiv_r (h ! (dh - d + i) - mpz_mod (h ! dh * f ! i) N) N"
    "\<forall>i. i \<notin> (\<lambda>i. dh - d + i) ` {0..<d} \<longrightarrow> pseudodiv_cells h f N dh d ! i = h ! i"
    using fold_update_nth [of "\<lambda>i. dh - d + i" "[0..<d]" h dh "\<lambda>i x c. mpz_ndiv_r (x - mpz_mod (c * f ! i) N) N"]
    unfolding pseudodiv_cells_def Let_def by simp_all
  have "centred N (pseudodiv_cells h f N dh d ! j) \<or> pseudodiv_cells h f N dh d ! j = h ! j" for j
  proof (cases "j \<in> (\<lambda>i. dh - d + i) ` {0..<d}")
    case True
    then obtain i where "i \<in> {0..<d}" "j = dh - d + i" by blast
    then have "pseudodiv_cells h f N dh d ! j = mpz_ndiv_r (h ! j - mpz_mod (h ! dh * f ! i) N) N" using u(2) by simp
    then show ?thesis using ndiv_r_centred [OF assms(3)] by simp
  qed (use u(3) in blast)
  then show ?thesis using u(1) by blast
qed

lemma pseudodiv_loop_cells:
  assumes "0 < N"
  shows "\<forall>j < length (pseudodiv_loop ivl f N h). centred N (pseudodiv_loop ivl f N h ! j) \<or> pseudodiv_loop ivl f N h ! j = h ! j"
proof (induction h rule: measure_induct_rule [where f = length])
  case (less h)
  show ?case
  proof (cases "f \<noteq> [] \<and> length f \<le> length h")
    case False
    then have "pseudodiv_loop ivl f N h = h" by (subst pseudodiv_loop.simps) auto
    then show ?thesis by simp
  next
    case True
    define dh d where "dh = length h - 1" and "d = length f - 1"
    define h1 where "h1 = (if ivl \<noteq> 1 then h[dh := mpz_ndiv_r (h ! dh * ivl) N] else h)"
    define h2 where "h2 = pseudodiv_cells h1 f N dh d"
    define h3 where "h3 = take (strip_dvd N h2 dh) h2"
    have step: "pseudodiv_loop ivl f N h = pseudodiv_loop ivl f N h3"
      using pseudodiv_loop.simps [of ivl f N h] True
      unfolding Let_def dh_def [symmetric] d_def [symmetric] h1_def [symmetric] h2_def [symmetric] h3_def [symmetric] by simp
    have "length f \<noteq> 0" "h \<noteq> []" using True by auto
    then have d: "d \<le> dh" "dh < length h1" "length h1 = length h" using True by (auto simp: dh_def d_def h1_def)
    have c: "length h2 = length h" "\<forall>j < dh. centred N (h2 ! j) \<or> h2 ! j = h1 ! j"
      using pseudodiv_cells_nth [OF d(1,2) assms] d(3) by (simp_all add: h2_def)
    have l3: "length h3 \<le> dh" using strip_dvd_le [of N h2 dh] by (simp add: h3_def)
    have "centred N (h3 ! j) \<or> h3 ! j = h ! j" if "j < length h3" for j
    proof -
      have "j < dh" using that l3 by (rule order_less_le_trans)
      moreover have "h3 ! j = h2 ! j" using that by (simp add: h3_def)
      moreover have "h1 ! j = h ! j" using calculation(1) by (simp add: h1_def)
      ultimately show ?thesis using c(2) by auto
    qed
    moreover have "length h3 < length h" using l3 d by simp
    moreover have "length (pseudodiv_loop ivl f N h3) \<le> length h3" by (rule pseudodiv_loop_length)
    ultimately show ?thesis unfolding step using less.IH by (metis order_less_le_trans)
  qed
qed

lemma pseudodiv_cells_result:
  assumes "0 < N" "mpz_poly_pseudodiv_r invert h f N = Inr r" "j < length r"
  shows "centred N (r ! j) \<or> r ! j = h ! j"
  using assms(2,3) pseudodiv_loop_cells [OF assms(1)]
  by (auto simp: mpz_poly_pseudodiv_r_def Let_def split: if_splits option.splits)

text \<open>Cells below a gap of the quotient are not touched.\<close>

lemma pseudodiv_gap:
  assumes "0 < N" "\<not> N dvd c"
  shows "mpz_poly_pseudodiv_r invert [c, 0, 1, 1] [1, 1] N = Inr [c]"
proof -
  have "(1 - mpz_mod 1 N) mod N = 0" using assms(1) by (simp add: mpz_mod_def mod_diff_right_eq)
  then have z: "N dvd mpz_ndiv_r (1 - mpz_mod 1 N) N"
    using ndiv_r_mod [OF assms(1), of "1 - mpz_mod 1 N"] by (simp add: dvd_eq_mod_eq_0)
  have "pseudodiv_loop 1 [1, 1] N [c, 0, 1, 1] = pseudodiv_loop 1 [1, 1] N [c]"
    using z assms(2) by (subst pseudodiv_loop.simps) (auto simp: pseudodiv_cells_def Let_def numeral_3_eq_3)
  also have "\<dots> = [c]" by (subst pseudodiv_loop.simps) simp
  finally show ?thesis by (simp add: mpz_poly_pseudodiv_r_def)
qed

text \<open>The quotient and remainder modulo an integer.\<close>

lemma cf_snoc: "cf (q @ [c]) = sadd (cf q) (mono c (length q))"
  by (auto simp: fun_eq_iff sadd_def mono_def cf_def nth_append)

lemma lead_cancel:
  fixes a l ivl p :: int
  assumes "(l * ivl) mod p = 1 mod p" "0 < p"
  shows "(a - mpz_mod (a * ivl) p * l) mod p = 0"
proof -
  have "mpz_mod (a * ivl) p * l mod p = a * ivl * l mod p"
    using assms(2) by (simp only: mpz_mod_def abs_of_pos mod_mult_left_eq)
  also have "a * ivl * l = a * (l * ivl)" by (simp add: ac_simps)
  also have "a * (l * ivl) mod p = a mod p" using mod_mult_right_eq [of a "l * ivl" p] mod_mult_right_eq [of a 1 p] assms(1) by simp
  finally show ?thesis by (simp add: mod_eq_dvd_iff mod_eq_0_iff_dvd dvd_diff_commute)
qed

lemma div_qr_mod_loop_correct:
  assumes "g \<noteq> []" "0 < p" "(last g * ivl) mod p = 1 mod p"
    and "k + (length g - 1) \<le> length r" "\<And>j. k + (length g - 1) \<le> j \<Longrightarrow> cf r j = 0"
  shows "\<exists>qs r'. div_qr_mod_loop ivl g p k q r = (qs @ q, r') \<and> length qs = k \<and> (\<forall>c\<in>set qs. 0 \<le> c \<and> c < p)
    \<and> scong p (cf r) (sadd (cf r') (conv (cf qs) (cf g))) \<and> (\<forall>j\<ge>length g - 1. cf r' j = 0)
    \<and> (0 < k \<longrightarrow> (\<forall>j. 0 \<le> cf r' j \<and> cf r' j < p))"
  using assms(4,5)
proof (induction k arbitrary: q r)
  case 0
  show ?case by (rule exI [of _ "[]"], rule exI [of _ r]) (use 0 in simp)
next
  case (Suc k)
  define d where "d = length g - 1"
  have lg: "length g = Suc d" using assms(1) by (cases g) (simp_all add: d_def)
  define c r1 where "c = mpz_mod (r ! (k + d) * ivl) p" and "r1 = submul_mod_cells r g c k p"
  have fit: "length g + k \<le> length r" using Suc.prems(1) lg by simp
  note r1 = submul_mod_cells_cf [OF fit assms(2), where c = c, folded r1_def]
  have piv: "cf r (k + d) = r ! (k + d)" using fit lg by (simp add: cf_lt)
  have "cf g d = last g" using lg assms(1) by (simp add: cf_lt last_conv_nth)
  then have "cf r1 (k + d) = 0"
    using r1(3) [of "k + d"] lg piv lead_cancel [OF assms(3,2), of "r ! (k + d)"] by (simp add: c_def)
  moreover have "cf r1 j = 0" if "k + d < j" for j using that r1(4) [of j] lg Suc.prems(2) [of j] by simp
  ultimately have zero: "cf r1 j = 0" if "k + (length g - 1) \<le> j" for j
    using that lg by (cases "j = k + d") simp_all
  obtain qs r' where IH: "div_qr_mod_loop ivl g p k (c # q) r1 = (qs @ c # q, r')" "length qs = k" "\<forall>c\<in>set qs. 0 \<le> c \<and> c < p"
    "scong p (cf r1) (sadd (cf r') (conv (cf qs) (cf g)))" "\<forall>j\<ge>d. cf r' j = 0"
    "0 < k \<longrightarrow> (\<forall>j. 0 \<le> cf r' j \<and> cf r' j < p)"
  proof -
    have "k + (length g - 1) \<le> length r1" using fit r1(1) lg by simp
    from Suc.IH [of r1 "c # q", OF this zero] show ?thesis using that unfolding d_def by blast
  qed
  have step: "div_qr_mod_loop ivl g p (Suc k) q r = ((qs @ [c]) @ q, r')"
    using IH(1) by (simp add: Let_def c_def r1_def d_def)
  have cp: "0 \<le> c" "c < p" using assms(2) by (simp_all add: c_def mpz_mod_def)
  have "scong p (sadd (cf r1) (conv (mono c k) (cf g))) (sadd (sadd (cf r') (conv (cf qs) (cf g))) (conv (mono c k) (cf g)))"
    using IH(4) by (rule scong_add) simp
  moreover have "scong p (cf r) (sadd (cf r1) (conv (mono c k) (cf g)))"
  proof -
    have "scong p (sadd (ssub (cf r) (conv (mono c k) (cf g))) (conv (mono c k) (cf g))) (sadd (cf r1) (conv (mono c k) (cf g)))"
      using scong_sym [OF r1(2)] by (rule scong_add) simp
    then show ?thesis by (simp add: scong_def sadd_def ssub_def)
  qed
  ultimately have cong: "scong p (cf r) (sadd (cf r') (conv (cf (qs @ [c])) (cf g)))"
    unfolding cf_snoc conv_add_left IH(2) by (simp add: scong_def sadd_def add.assoc)
  have small: "0 \<le> cf r' j \<and> cf r' j < p" for j
  proof (cases k)
    case 0
    then have "r' = r1" using IH(1) by simp
    moreover have "cf r1 j = (cf r j - c * cf g j) mod p" if "j < d" using r1(3) [of j] 0 that lg by simp
    ultimately show ?thesis using assms(2) IH(5) by (cases "j < d") simp_all
  qed (use IH(6) in simp)
  show ?case using step IH cp cong small by (intro exI [of _ "qs @ [c]"] exI [of _ r']) (auto simp: lg)
qed

lemma div_qr_loop_correct:
  assumes "g \<noteq> []" "div_qr_loop g k q r = Some (q', r')"
    and "k + (length g - 1) \<le> length r" "\<And>j. k + (length g - 1) \<le> j \<Longrightarrow> cf r j = 0"
  shows "\<exists>qs. q' = qs @ q \<and> length qs = k \<and> cf r = sadd (cf r') (conv (cf qs) (cf g)) \<and> (\<forall>j\<ge>length g - 1. cf r' j = 0)"
  using assms(2-4)
proof (induction k arbitrary: q r)
  case 0
  then show ?case by simp
next
  case (Suc k)
  define d where "d = length g - 1"
  have lg: "length g = Suc d" using assms(1) by (cases g) (simp_all add: d_def)
  define c r1 where "c = r ! (k + d) div last g" and "r1 = addmul_cells r g (- c) k"
  have dvd: "last g dvd r ! (k + d)" and rec: "div_qr_loop g k (c # q) r1 = Some (q', r')"
    using Suc.prems(1) by (simp_all add: Let_def c_def r1_def d_def split: if_splits)
  have fit: "k + length g \<le> length r" using Suc.prems(2) lg by simp
  have r1: "cf r1 = ssub (cf r) (conv (mono c k) (cf g))"
    using addmul_cells_cf [OF fit, of "- c"] by (simp add: r1_def fun_eq_iff sadd_def ssub_def conv_mono)
  have zero: "cf r1 j = 0" if "k + (length g - 1) \<le> j" for j
  proof (cases "j = k + d")
    case True
    have "cf g d = last g" "cf r (k + d) = r ! (k + d)" using lg fit assms(1) by (simp_all add: cf_lt last_conv_nth)
    then show ?thesis using dvd by (simp add: r1 ssub_def conv_mono True c_def)
  next
    case False
    then show ?thesis using that Suc.prems(3) [of j] lg by (simp add: r1 ssub_def conv_mono)
  qed
  have len1: "k + (length g - 1) \<le> length r1" using fit by (simp add: r1_def)
  have "\<exists>qs. q' = qs @ c # q \<and> length qs = k \<and> cf r1 = sadd (cf r') (conv (cf qs) (cf g)) \<and> (\<forall>j\<ge>length g - 1. cf r' j = 0)"
    by (rule Suc.IH [OF rec len1]) (rule zero)
  then obtain qs where qs: "q' = qs @ c # q" "length qs = k" "cf r1 = sadd (cf r') (conv (cf qs) (cf g))" "\<forall>j\<ge>length g - 1. cf r' j = 0"
    by blast
  have "cf r = sadd (cf r1) (conv (mono c k) (cf g))" by (simp add: r1 fun_eq_iff sadd_def ssub_def)
  then have "cf r = sadd (cf r') (conv (cf (qs @ [c])) (cf g))"
    unfolding qs(3) cf_snoc conv_add_left qs(2) by (simp add: fun_eq_iff sadd_def)
  then show ?case using qs by (intro exI [of _ "qs @ [c]"]) simp
qed

text \<open>If there is a quotient the loop finds it.\<close>

lemma div_qr_loop_complete:
  assumes "g \<noteq> []" "last g \<noteq> 0" "k + (length g - 1) \<le> length r" "length Q \<le> k"
    and "cf r = sadd (cf R) (conv (cf Q) (cf g))" "\<And>j. length g - 1 \<le> j \<Longrightarrow> cf R j = 0"
  shows "\<exists>q' r'. div_qr_loop g k q r = Some (q', r')"
  using assms(3-5)
proof (induction k arbitrary: q r Q)
  case (Suc k)
  define d where "d = length g - 1"
  have lg: "length g = Suc d" using assms(1) by (cases g) (simp_all add: d_def)
  have fit: "k + length g \<le> length r" using Suc.prems(1) lg by simp
  define c where "c = cf Q k"
  have Q: "cf Q = sadd (cf (take k Q)) (mono c k)"
    using Suc.prems(2) by (auto simp: fun_eq_iff sadd_def cf_take mono_def c_def)
  have low: "conv (cf (take k Q)) (cf g) (k + d) = 0"
  proof -
    have "cf (take k Q) i * cf g (k + d - i) = 0" for i using lg by (cases "i < k") (simp_all add: cf_take)
    then show ?thesis unfolding conv_def by (intro sum.neutral) blast
  qed
  have gd: "cf g d = last g" "cf r (k + d) = r ! (k + d)" using lg fit assms(1) by (simp_all add: cf_lt last_conv_nth)
  have "r ! (k + d) = cf R (k + d) + conv (cf (take k Q)) (cf g) (k + d) + conv (mono c k) (cf g) (k + d)"
    using gd(2) fun_cong [OF Suc.prems(3), of "k + d"] unfolding Q conv_add_left by (simp add: sadd_def)
  then have a: "r ! (k + d) = c * last g" using low gd(1) assms(6) [of "k + d"] lg by (simp add: conv_mono)
  define r1 where "r1 = addmul_cells r g (- c) k"
  have "cf r1 = ssub (cf r) (conv (mono c k) (cf g))"
    using addmul_cells_cf [OF fit, of "- c"] by (simp add: r1_def fun_eq_iff sadd_def ssub_def conv_mono)
  then have "cf r1 = sadd (cf R) (conv (cf (take k Q)) (cf g))"
    unfolding Suc.prems(3) Q conv_add_left by (simp add: fun_eq_iff sadd_def ssub_def)
  then obtain q' r' where "div_qr_loop g k (c # q) r1 = Some (q', r')"
    using Suc.IH [of r1 "take k Q" "c # q"] fit lg by (auto simp: r1_def)
  then show ?case using a assms(2) lg by (simp add: Let_def r1_def)
qed simp

text \<open>Exact division works on the cells of degree at least that of the divisor only.\<close>

lemma divexact_step_correct:
  fixes h f :: zpoly
  assumes "f \<noteq> []" "0 < p" "(last f * t) mod p = 1 mod p" "k + (length f - 1) < length h"
    and "divexact_step f p t (k + (length f - 1)) h = (qc, h')"
  shows "length h' = length h" "qc mod p = (h ! (k + (length f - 1)) * t) mod p" "0 \<le> qc" "qc < p"
    "\<And>j. length f - 1 \<le> j \<Longrightarrow> j < k + (length f - 1) \<Longrightarrow> cf h' j mod p = (cf h j - conv (mono qc k) (cf f) j) mod p"
proof -
  define d dh where "d = length f - 1" and "dh = k + d"
  have lf: "length f = Suc d" using assms(1) by (cases f) (simp_all add: d_def)
  define a where "a = (if t \<noteq> 1 then mpz_mod (h ! dh * t) p else h ! dh)"
  define h1 where "h1 = h[dh := a]"
  define L where "L = [(if 2 * d > dh then 2 * d - dh else 0)..<d]"
  have h1: "length h1 = length h" "h1 ! dh = a" "i \<noteq> dh \<Longrightarrow> h1 ! i = h ! i" for i
    using assms(4) by (simp_all add: h1_def dh_def d_def)
  have am: "a mod p = (h ! dh * t) mod p" using assms(2) by (simp add: a_def mpz_mod_def)
  have eq: "(if t \<noteq> 1 then h[dh := mpz_mod (h ! dh * t) p] else h) = h1" by (simp add: h1_def a_def)
  have D: "qc = mpz_mod a p" "h' = fold (\<lambda>i h. h[k + i := mpz_mod (h ! (k + i) - h ! dh * f ! i) p]) L h1"
    using assms(5) h1(2) unfolding divexact_step_def Let_def d_def [symmetric] dh_def [symmetric] eq L_def [symmetric]
    by (auto simp: dh_def)
  show "0 \<le> qc" "qc < p" using assms(2) by (simp_all add: D(1) mpz_mod_def)
  show "qc mod p = (h ! (k + (length f - 1)) * t) mod p"
    using am assms(2) unfolding d_def [symmetric] dh_def [symmetric] by (simp add: D(1) mpz_mod_def)
  have "distinct (map (\<lambda>i. k + i) L)" by (simp add: L_def distinct_map)
  moreover have "\<forall>j\<in>set L. k + j < length h1 \<and> k + j \<noteq> dh" using assms(4) h1(1) by (auto simp: L_def dh_def d_def)
  ultimately have u: "length h' = length h" "\<forall>i\<in>set L. h' ! (k + i) = mpz_mod (h1 ! (k + i) - a * f ! i) p"
    "\<forall>i. i \<notin> (\<lambda>i. k + i) ` set L \<longrightarrow> h' ! i = h1 ! i"
    using fold_update_nth [of "\<lambda>i. k + i" L h1 dh "\<lambda>i x c. mpz_mod (x - c * f ! i) p"] h1(1,2) unfolding D(2) by simp_all
  then show "length h' = length h" by simp
  fix j assume j: "length f - 1 \<le> j" "j < k + (length f - 1)"
  have jd: "d \<le> j" "j < dh" "j < length h" using j assms(4) by (simp_all add: d_def dh_def)
  show "cf h' j mod p = (cf h j - conv (mono qc k) (cf f) j) mod p"
  proof (cases "k \<le> j")
    case True
    then obtain i where i: "j = k + i" using le_Suc_ex by blast
    then have "i \<in> set L" using jd by (auto simp: L_def dh_def)
    then have "cf h' j = (cf h j - a * f ! i) mod p" using u(1,2) jd i h1(3) [of j] assms(2) by (auto simp: cf_lt mpz_mod_def)
    moreover have "i < length f" using i jd lf by (simp add: dh_def)
    ultimately have "cf h' j mod p = (cf h j - a * f ! i) mod p" "conv (mono qc k) (cf f) j = qc * f ! i"
      using i by (simp_all add: conv_mono cf_lt)
    moreover have "(cf h j - a * f ! i) mod p = (cf h j - qc * f ! i) mod p"
      using assms(2) by (intro mod_diff_cong mod_mult_cong) (simp_all add: D(1) mpz_mod_def)
    ultimately show ?thesis by simp
  next
    case False
    then have "j \<notin> (\<lambda>i. k + i) ` set L" by auto
    then have "cf h' j = cf h j" using u h1 jd by (simp add: cf_lt)
    then show ?thesis using False by (simp add: conv_mono)
  qed
qed

lemma divexact_loop_correct:
  assumes "f \<noteq> []" "0 < p" "(last f * t) mod p = 1 mod p" "k + (length f - 1) \<le> length h" "length Q \<le> k"
    and "\<And>j. length f - 1 \<le> j \<Longrightarrow> j < k + (length f - 1) \<Longrightarrow> cf h j mod p = conv (cf Q) (cf f) j mod p"
  shows "\<exists>qs. divexact_loop f p t k q h = qs @ q \<and> length qs = k \<and> (\<forall>c\<in>set qs. 0 \<le> c \<and> c < p) \<and> scong p (cf qs) (cf Q)"
  using assms(4-6)
proof (induction k arbitrary: q h Q)
  case 0
  then show ?case by simp
next
  case (Suc k)
  define d where "d = length f - 1"
  have lf: "length f = Suc d" using assms(1) by (cases f) (simp_all add: d_def)
  obtain qc h' where step: "divexact_step f p t (k + (length f - 1)) h = (qc, h')" by fastforce
  have fit: "k + (length f - 1) < length h" using Suc.prems(1) by simp
  note S = divexact_step_correct [OF assms(1-3) fit step]
  define c where "c = cf Q k"
  have Q: "cf Q = sadd (cf (take k Q)) (mono c k)"
    using Suc.prems(2) by (auto simp: fun_eq_iff sadd_def cf_take mono_def c_def)
  have low: "conv (cf (take k Q)) (cf f) (k + d) = 0"
  proof -
    have "cf (take k Q) i * cf f (k + d - i) = 0" for i using lf by (cases "i < k") (simp_all add: cf_take)
    then show ?thesis unfolding conv_def by (intro sum.neutral) blast
  qed
  have fd: "cf f d = last f" "cf h (k + d) = h ! (k + d)" using lf fit assms(1) by (simp_all add: cf_lt last_conv_nth)
  have "conv (cf Q) (cf f) (k + d) = c * last f"
    unfolding Q conv_add_left using low fd by (simp add: sadd_def conv_mono)
  then have "h ! (k + d) mod p = (c * last f) mod p" using Suc.prems(3) [of "k + d"] lf fd by simp
  then have "(h ! (k + d) * t) mod p = (c * last f * t) mod p" by (metis mod_mult_left_eq)
  also have "c * last f * t = c * (last f * t)" by simp
  also have "c * (last f * t) mod p = c mod p" using mod_mult_right_eq [of c "last f * t" p] mod_mult_right_eq [of c 1 p] assms(3) by simp
  finally have qc: "qc mod p = c mod p" using S(2) lf by simp
  have rest: "cf h' j mod p = conv (cf (take k Q)) (cf f) j mod p" if "length f - 1 \<le> j" "j < k + (length f - 1)" for j
  proof -
    have "cf h' j mod p = (cf h j - conv (mono qc k) (cf f) j) mod p" using S(5) that by simp
    also have "\<dots> = (conv (cf Q) (cf f) j - conv (mono c k) (cf f) j) mod p"
    proof (rule mod_diff_cong)
      show "cf h j mod p = conv (cf Q) (cf f) j mod p" using Suc.prems(3) [of j] that by simp
      show "conv (mono qc k) (cf f) j mod p = conv (mono c k) (cf f) j mod p"
        using qc by (auto simp: conv_mono intro: mod_mult_cong)
    qed
    finally show ?thesis unfolding Q conv_add_left by (simp add: sadd_def)
  qed
  have "k + (length f - 1) \<le> length h'" using fit S(1) by simp
  then obtain qs where qs: "divexact_loop f p t k (qc # q) h' = qs @ qc # q" "length qs = k" "\<forall>c\<in>set qs. 0 \<le> c \<and> c < p"
    "scong p (cf qs) (cf (take k Q))"
    using Suc.IH [of h' "take k Q" "qc # q", OF _ _ rest] by auto
  have "scong p (cf (qs @ [qc])) (cf Q)"
    unfolding cf_snoc Q qs(2) using qs(4) qc by (intro scong_add) (simp_all add: scong_def mono_def)
  then show ?case using qs S(3,4) step by (intro exI [of _ "qs @ [qc]"]) auto
qed

section \<open>The law of the inverse\<close>

lemma invert_SomeD:
  assumes "invert_ok invert" "invert a m = Some x" "0 < m"
  shows "(a * x) mod m = 1 mod m" "0 \<le> x"
  using assms(1) [unfolded invert_ok_def, rule_format, of m a] assms(2,3) by auto

lemma invert_NoneD:
  assumes "invert_ok invert" "invert a m = None" "m \<noteq> 0"
  shows "gcd a m \<noteq> 1"
  using assms(1) [unfolded invert_ok_def, rule_format, of m a] assms(2,3) by auto

lemma invert_coprime: "invert_ok invert \<Longrightarrow> gcd a m = 1 \<Longrightarrow> m \<noteq> 0 \<Longrightarrow> \<exists>x. invert a m = Some x"
  using invert_NoneD [of invert a m] by fastforce

text \<open>An instance, from the coefficients of Bezout's relation.\<close>

definition bezout_invert :: "int \<Rightarrow> int \<Rightarrow> int option" where
  "bezout_invert a m =
     (case bezout (a mod \<bar>m\<bar>) \<bar>m\<bar> of (g, u, v) \<Rightarrow> if g = 1 then Some (u mod \<bar>m\<bar>) else None)"

lemma bezout_invert_ok: "invert_ok bezout_invert"
  unfolding invert_ok_def
proof (intro allI impI)
  fix a m :: int
  assume m: "m \<noteq> 0"
  obtain g u v where b: "bezout (a mod \<bar>m\<bar>) \<bar>m\<bar> = (g, u, v)" by (metis prod_cases3)
  have g: "g = gcd (a mod \<bar>m\<bar>) \<bar>m\<bar>" "a mod \<bar>m\<bar> * u + \<bar>m\<bar> * v = g" using bezout_value [OF b] m by simp_all
  have "gcd (a mod \<bar>m\<bar>) \<bar>m\<bar> = gcd a \<bar>m\<bar>" by (metis gcd.commute gcd_red_int)
  then have "g = gcd a m" using g(1) by simp
  moreover have "(a * (u mod \<bar>m\<bar>)) mod \<bar>m\<bar> = 1 mod \<bar>m\<bar>" if "g = 1"
  proof -
    have "(a * (u mod \<bar>m\<bar>)) mod \<bar>m\<bar> = (a mod \<bar>m\<bar> * u) mod \<bar>m\<bar>" by (metis mod_mult_left_eq mod_mult_right_eq)
    also have "\<dots> = (a mod \<bar>m\<bar> * u + \<bar>m\<bar> * v) mod \<bar>m\<bar>" by simp
    finally show ?thesis using g(2) that by simp
  qed
  ultimately show "case bezout_invert a m of None \<Rightarrow> gcd a m \<noteq> 1
      | Some x \<Rightarrow> (a * x) mod \<bar>m\<bar> = 1 mod \<bar>m\<bar> \<and> 0 \<le> x \<and> (x < \<bar>m\<bar> \<or> \<bar>m\<bar> = 1)"
    using b m by (auto simp: bezout_invert_def)
qed

definition bezout_inverse :: "int \<Rightarrow> int \<Rightarrow> int" where
  "bezout_inverse a m = (case bezout_invert a m of None \<Rightarrow> 0 | Some x \<Rightarrow> x)"

lemma bezout_inverse_ok: "inverse_ok bezout_inverse"
  unfolding inverse_ok_def
proof (intro allI impI)
  fix a m :: int
  assume "m \<noteq> 0" "gcd a m = 1"
  then show "(a * bezout_inverse a m) mod \<bar>m\<bar> = 1 mod \<bar>m\<bar>"
    using bezout_invert_ok [unfolded invert_ok_def, rule_format, of m a]
    by (auto simp: bezout_inverse_def split: option.splits)
qed

section \<open>The divisions as a whole\<close>

lemma div_qr_correct:
  assumes "g \<noteq> []" "mpz_poly_div_qr f g = Some (q, r)"
  shows "cf f = sadd (cf r) (conv (cf q) (cf g))" "length r < length g"
proof -
  define d where "d = length g - 1"
  have lg: "length g = Suc d" using assms(1) by (cases g) (simp_all add: d_def)
  have "cf f = sadd (cf r) (conv (cf q) (cf g)) \<and> length r < length g"
  proof (cases "length f < length g")
    case True
    then show ?thesis using assms(2) by (auto simp: mpz_poly_div_qr_def)
  next
    case False
    then obtain r' where r': "div_qr_loop g (length f - length g + 1) [] f = Some (q, r')" "r = cleandeg r'"
      using assms(2) by (auto simp: mpz_poly_div_qr_def split: option.splits)
    have len: "length f - length g + 1 + (length g - 1) = length f" using False lg by simp
    obtain qs where qs: "q = qs @ []" "cf f = sadd (cf r') (conv (cf qs) (cf g))" "\<forall>j\<ge>length g - 1. cf r' j = 0"
      using div_qr_loop_correct [OF assms(1) r'(1)] len by auto
    have "length (cleandeg r') < length g"
    proof (rule ccontr)
      assume "\<not> length (cleandeg r') < length g"
      then have "cleandeg r' \<noteq> []" "d \<le> length (cleandeg r') - 1" using lg by auto
      then have "last (cleandeg r') = 0" using qs(3) lg cf_lt [of "length (cleandeg r') - 1" "cleandeg r'"]
        by (simp add: last_conv_nth)
      then show False using normalized_cleandeg [of r'] \<open>cleandeg r' \<noteq> []\<close> by (simp add: normalized_def)
    qed
    then show ?thesis using qs r'(2) by simp
  qed
  then show "cf f = sadd (cf r) (conv (cf q) (cf g))" "length r < length g" by simp_all
qed

text \<open>The length of a quotient, from its leading coefficient.\<close>

lemma conv_top:
  assumes "length Q = Suc k" "length g = Suc d"
  shows "conv (cf Q) (cf g) (k + d) = Q ! k * g ! d"
proof -
  have "cf Q = sadd (cf (take k Q)) (mono (Q ! k) k)"
    using assms(1) by (auto simp: fun_eq_iff sadd_def cf_take mono_def cf_def)
  moreover have "cf (take k Q) i * cf g (k + d - i) = 0" for i using assms by (cases "i < k") (simp_all add: cf_take)
  then have "conv (cf (take k Q)) (cf g) (k + d) = 0" unfolding conv_def by (intro sum.neutral) blast
  ultimately show ?thesis using assms(2) by (simp add: conv_add_left sadd_def conv_mono cf_lt)
qed

lemma div_qr_complete:
  assumes "g \<noteq> []" "normalized g" "cf f = sadd (cf R) (conv (cf Q) (cf g))" "length R < length g"
  shows "mpz_poly_div_qr f g \<noteq> None"
proof (cases "length f < length g")
  case False
  define d where "d = length g - 1"
  have lg: "length g = Suc d" using assms(1) by (cases g) (simp_all add: d_def)
  define S where "S = cleandeg Q"
  have g0: "last g \<noteq> 0" using assms(1,2) by (simp add: normalized_def)
  have f: "cf f = sadd (cf R) (conv (cf S) (cf g))" using assms(3) by (simp add: S_def)
  have R: "cf R j = 0" if "d \<le> j" for j using that assms(4) lg by simp
  have lS: "length S \<le> length f - length g + 1"
  proof (cases "length S")
    case (Suc k)
    then have "S \<noteq> []" by auto
    then have "S ! k \<noteq> 0" using normalized_cleandeg [of Q] Suc by (simp add: normalized_def last_conv_nth flip: S_def)
    then have "cf f (k + d) \<noteq> 0"
      using conv_top [OF Suc lg] g0 R [of "k + d"] lg assms(1) unfolding f by (simp add: sadd_def last_conv_nth)
    then have "k + d < length f" by (meson cf_ge not_le)
    then show ?thesis using Suc lg by simp
  qed simp
  have k: "length f - length g + 1 + (length g - 1) \<le> length f" using False lg by simp
  have "\<exists>q' r'. div_qr_loop g (length f - length g + 1) [] f = Some (q', r')"
    by (rule div_qr_loop_complete [OF assms(1) g0 k lS f]) (use R lg in simp)
  then show ?thesis using False by (auto simp: mpz_poly_div_qr_def simp del: div_qr_loop.simps)
qed (simp add: mpz_poly_div_qr_def)

lemma cleandeg_shorter:
  assumes "\<forall>j\<ge>d. cf r j = 0"
  shows "length (cleandeg r) \<le> d"
proof (rule ccontr)
  assume "\<not> length (cleandeg r) \<le> d"
  then have "cleandeg r \<noteq> []" "d \<le> length (cleandeg r) - 1" by auto
  then have "last (cleandeg r) = 0"
    using assms cf_lt [of "length (cleandeg r) - 1" "cleandeg r"] by (simp add: last_conv_nth)
  then show False using normalized_cleandeg [of r] \<open>cleandeg r \<noteq> []\<close> by (simp add: normalized_def)
qed

lemma div_qr_mod_correct:
  assumes "invert_ok invert" "g \<noteq> []" "0 < p" "length g \<le> length f" "mpz_poly_div_qr_mod_mpz invert f g p = Some (q, r)"
  shows "scong p (cf f) (sadd (cf r) (conv (cf q) (cf g))) \<and> length r < length g \<and> length q = length f - length g + 1
    \<and> (\<forall>c\<in>set q. 0 \<le> c \<and> c < p) \<and> (\<forall>j. 0 \<le> cf r j \<and> cf r j < p)"
proof -
  define d where "d = length g - 1"
  have lg: "length g = Suc d" using assms(2) by (cases g) (simp_all add: d_def)
  obtain ivl r' where ivl: "(last g * ivl) mod p = 1 mod p"
    and r': "div_qr_mod_loop ivl g p (length f - length g + 1) [] f = (q, r')" "r = cleandeg r'"
  proof (cases "mpz_mod (last g) p = 1")
    case True
    then have "(last g * 1) mod p = 1 mod p" using assms(3) by (simp add: mpz_mod_def) (metis mod_mod_trivial)
    then show ?thesis using that [of 1] True assms(4,5) by (auto simp: mpz_poly_div_qr_mod_mpz_def Let_def split: prod.splits)
  next
    case False
    then obtain i where i: "invert (mpz_mod (last g) p) p = Some i"
      using assms(4,5) by (auto simp: mpz_poly_div_qr_mod_mpz_def Let_def split: option.splits)
    have "(last g * i) mod p = 1 mod p"
      using invert_SomeD(1) [OF assms(1) i assms(3)] assms(3) by (simp add: mpz_mod_def mod_mult_left_eq)
    then show ?thesis using that [of i] i False assms(4,5) by (auto simp: mpz_poly_div_qr_mod_mpz_def Let_def split: prod.splits)
  qed
  have len: "length f - length g + 1 + (length g - 1) = length f" using assms(4) lg by simp
  have "\<exists>qs r''. div_qr_mod_loop ivl g p (length f - length g + 1) [] f = (qs @ [], r'') \<and> length qs = length f - length g + 1
    \<and> (\<forall>c\<in>set qs. 0 \<le> c \<and> c < p) \<and> scong p (cf f) (sadd (cf r'') (conv (cf qs) (cf g))) \<and> (\<forall>j\<ge>length g - 1. cf r'' j = 0)
    \<and> (0 < length f - length g + 1 \<longrightarrow> (\<forall>j. 0 \<le> cf r'' j \<and> cf r'' j < p))"
    by (rule div_qr_mod_loop_correct [OF assms(2,3) ivl]) (use len in simp_all)
  then show ?thesis using r' cleandeg_shorter [of d r'] lg by auto
qed

lemma div_qr_mod_fails:
  assumes "invert_ok invert" "0 < p" "mpz_poly_div_qr_mod_mpz invert f g p = None"
  shows "gcd (last g) p \<noteq> 1"
proof -
  have "invert (mpz_mod (last g) p) p = None"
    using assms(3) by (auto simp: mpz_poly_div_qr_mod_mpz_def Let_def split: option.splits if_splits)
  then have "gcd (last g mod p) p \<noteq> 1" using invert_NoneD [OF assms(1)] assms(2) by (auto simp: mpz_mod_def)
  then show ?thesis by (metis gcd.commute gcd_red_int)
qed

lemma pseudodiv_correct:
  assumes "invert_ok invert" "f \<noteq> []" "0 < N"
  shows "case mpz_poly_pseudodiv_r invert h f N of
      Inl e \<Rightarrow> e = gcd (last f) N \<and> e \<noteq> 1
    | Inr r \<Rightarrow> pcong N f h r \<and> length r < length f \<and> (length f \<le> length h \<longrightarrow> r = [] \<or> \<not> N dvd last r)"
proof (cases "last f = 1")
  case True
  then show ?thesis using pseudodiv_loop_correct [OF assms(2,3), of 1 h] by (simp add: mpz_poly_pseudodiv_r_def Let_def)
next
  case False
  show ?thesis
  proof (cases "invert (last f) N")
    case None
    then show ?thesis using False invert_NoneD [OF assms(1) None] assms(3) by (simp add: mpz_poly_pseudodiv_r_def)
  next
    case (Some i)
    then show ?thesis
      using False pseudodiv_loop_correct [OF assms(2,3) invert_SomeD(1) [OF assms(1) Some assms(3)], of h]
      by (simp add: mpz_poly_pseudodiv_r_def)
  qed
qed

section \<open>Properties\<close>

text \<open>
  C30: Division over the integers. A result is a quotient and a remainder of smaller degree; the division
  fails only if there are none, for a divisor whose leading coefficient is not zero.
\<close>
theorem mpz_poly_div_qr_decides:
  assumes "g \<noteq> []" "normalized g"
  shows "case mpz_poly_div_qr f g of
      Some (q, r) \<Rightarrow> cf f = sadd (cf r) (conv (cf q) (cf g)) \<and> length r < length g
    | None \<Rightarrow> \<not> (\<exists>Q R. cf f = sadd (cf R) (conv (cf Q) (cf g)) \<and> length R < length g)"
  using div_qr_correct [OF assms(1)] div_qr_complete [OF assms] by (fastforce split: option.split)

theorem mpz_poly_div_qr_decides_witness:
  "mpz_poly_div_qr [2, 3, 1, 4] [1, 0, 2] = None \<and> mpz_poly_div_qr [2, 3, 6, 4] [1, 0, 2] = Some ([3, 2], [-1, 1])
   \<and> \<not> (\<exists>Q R. cf [2, 3, 1, 4] = sadd (cf R) (conv (cf Q) (cf [1, 0, 2])) \<and> length R < 3)
   \<and> cf [2, 3, 6, 4] = sadd (cf [-1, 1]) (conv (cf [3, 2]) (cf [1, 0, 2]))"
proof -
  have n: "[1, 0, 2] \<noteq> ([] :: zpoly)" "normalized [1, 0, 2]" by (simp_all add: normalized_def)
  have 1: "mpz_poly_div_qr [2, 3, 1, 4] [1, 0, 2] = None" and 2: "mpz_poly_div_qr [2, 3, 6, 4] [1, 0, 2] = Some ([3, 2], [-1, 1])"
    by code_simp+
  show ?thesis using mpz_poly_div_qr_decides [OF n, of "[2, 3, 1, 4]"] mpz_poly_div_qr_decides [OF n, of "[2, 3, 6, 4]"]
    unfolding 1 2 by (simp add: numeral_3_eq_3)
qed

text \<open>
  C31: Division modulo an integer of a dividend that is not shorter than the divisor, with a quotient and
  in place. A result is congruent to the dividend and has smaller degree than the divisor; a
  failure happens only if the leading coefficient has a common divisor with the modulus, which the
  division in place returns. The quotient and the remainder beside it are reduced. The remainder in
  place has a nonzero leading coefficient, and each of its coefficients is centred or is the one that the dividend
  has there: it need not be reduced, as the division of \<open>c + x^2 + x^3\<close> by \<open>1 + x\<close> shows, which leaves \<open>c\<close>.
\<close>
theorem mpz_poly_div_mod_correct:
  assumes "invert_ok invert" "g \<noteq> []" "0 < p" "length g \<le> length f"
  shows "(case mpz_poly_div_qr_mod_mpz invert f g p of
      Some (q, r) \<Rightarrow> scong p (cf f) (sadd (cf r) (conv (cf q) (cf g))) \<and> length r < length g
        \<and> (\<forall>c\<in>set q. 0 \<le> c \<and> c < p) \<and> (\<forall>c\<in>set r. 0 \<le> c \<and> c < p)
    | None \<Rightarrow> gcd (last g) p \<noteq> 1)
   \<and> (case mpz_poly_pseudodiv_r invert f g p of
      Inr r \<Rightarrow> pcong p g f r \<and> length r < length g \<and> (r = [] \<or> \<not> p dvd last r)
        \<and> (\<forall>j < length r. - p < 2 * r ! j \<and> 2 * r ! j \<le> p \<or> r ! j = f ! j)
    | Inl e \<Rightarrow> e = gcd (last g) p \<and> e \<noteq> 1)
   \<and> (\<not> p dvd c \<longrightarrow> mpz_poly_pseudodiv_r invert [c, 0, 1, 1] [1, 1] p = Inr [c])"
proof -
  have nth: "\<forall>c\<in>set r. 0 \<le> c \<and> c < p" if "\<forall>j. 0 \<le> cf r j \<and> cf r j < p" for r
    using that by (metis cf_lt in_set_conv_nth)
  have "case mpz_poly_div_qr_mod_mpz invert f g p of
      Some (q, r) \<Rightarrow> scong p (cf f) (sadd (cf r) (conv (cf q) (cf g))) \<and> length r < length g
        \<and> (\<forall>c\<in>set q. 0 \<le> c \<and> c < p) \<and> (\<forall>c\<in>set r. 0 \<le> c \<and> c < p)
    | None \<Rightarrow> gcd (last g) p \<noteq> 1"
  proof (cases "mpz_poly_div_qr_mod_mpz invert f g p")
    case None
    then show ?thesis using div_qr_mod_fails [OF assms(1,3)] by simp
  next
    case (Some qr)
    obtain q r where qr: "qr = (q, r)" by (cases qr)
    have "mpz_poly_div_qr_mod_mpz invert f g p = Some (q, r)" by (simp only: Some qr)
    from div_qr_mod_correct [OF assms this] show ?thesis unfolding Some qr option.case prod.case using nth [of r] by blast
  qed
  moreover have "case mpz_poly_pseudodiv_r invert f g p of
      Inr r \<Rightarrow> pcong p g f r \<and> length r < length g \<and> (r = [] \<or> \<not> p dvd last r)
        \<and> (\<forall>j < length r. - p < 2 * r ! j \<and> 2 * r ! j \<le> p \<or> r ! j = f ! j)
    | Inl e \<Rightarrow> e = gcd (last g) p \<and> e \<noteq> 1"
    using pseudodiv_correct [OF assms(1-3), of f] pseudodiv_cells_result [OF assms(3), of invert f g] assms(4)
    by (cases "mpz_poly_pseudodiv_r invert f g p") (simp_all add: centred_def)
  ultimately show ?thesis using pseudodiv_gap [OF assms(3)] by blast
qed

theorem mpz_poly_div_mod_correct_witness:
  "mpz_poly_div_qr_mod_mpz bezout_invert [1, 2, 3, 4] [5, 3] 7 = Some ([4, 5, 6], [2])
   \<and> mpz_poly_pseudodiv_r bezout_invert [1, 2, 3, 4] [5, 3] 7 = Inr [2] \<and> pcong 7 [5, 3] [1, 2, 3, 4] [2]
   \<and> mpz_poly_pseudodiv_r bezout_invert [1, 2, 3, 4] [5, 3] 6 = Inl 3
   \<and> mpz_poly_pseudodiv_r bezout_invert [100, 0, 1, 1] [1, 1] 7 = Inr [100]"
proof -
  have 1: "mpz_poly_div_qr_mod_mpz bezout_invert [1, 2, 3, 4] [5, 3] 7 = Some ([4, 5, 6], [2])"
    and 2: "mpz_poly_pseudodiv_r bezout_invert [1, 2, 3, 4] [5, 3] 7 = Inr [2]"
    and 3: "mpz_poly_pseudodiv_r bezout_invert [1, 2, 3, 4] [5, 3] 6 = Inl 3" by code_simp+
  show ?thesis using mpz_poly_div_mod_correct [OF bezout_invert_ok, of "[5, 3]" 7 "[1, 2, 3, 4]" 100] 1 2 3 by simp
qed

text \<open>
  Exact division modulo an integer finds the quotient whenever there is one and the leading coefficient of
  the divisor is invertible.
\<close>
theorem mpz_poly_divexact_correct:
  assumes "invert_ok invert" "f \<noteq> []" "0 < p" "gcd (last f) p = 1" "length f \<le> length h"
    and "length Q = length h - length f + 1" "scong p (cf h) (conv (cf Q) (cf f))"
  shows "\<exists>q. mpz_poly_divexact invert h f p = Some q \<and> scong p (cf q) (cf Q) \<and> length q = length Q \<and> (\<forall>c\<in>set q. 0 \<le> c \<and> c < p)"
proof -
  have "gcd (last f mod p) p = 1" using assms(4) by (metis gcd.commute gcd_red_int)
  then obtain t where t: "invert (mpz_mod (last f) p) p = Some t"
    using invert_coprime [OF assms(1), of "last f mod p" p] assms(3) unfolding mpz_mod_def by auto
  have lt: "(last f * t) mod p = 1 mod p"
    using invert_SomeD(1) [OF assms(1) t assms(3)] assms(3) by (simp add: mpz_mod_def mod_mult_left_eq)
  have k: "length Q + (length f - 1) \<le> length h" using assms(2,5,6) by (cases f) simp_all
  have "\<exists>qs. divexact_loop f p t (length Q) [] h = qs @ [] \<and> length qs = length Q \<and> (\<forall>c\<in>set qs. 0 \<le> c \<and> c < p) \<and> scong p (cf qs) (cf Q)"
    by (rule divexact_loop_correct [OF assms(2,3) lt k]) (use assms(7) in \<open>simp_all add: scong_def\<close>)
  then show ?thesis using t assms(6) by (auto simp: mpz_poly_divexact_def)
qed

theorem mpz_poly_divexact_correct_witness:
  "\<exists>q. mpz_poly_divexact bezout_invert [10, 11, 3] [5, 3] 7 = Some q \<and> scong 7 (cf q) (cf [2, 1])"
proof -
  have "conv (cf [2, 1]) (cf [5, 3]) = cf [10, 11, 3]" using pmul_cf [of "[2, 1]" "[5, 3]"] by simp
  moreover have "gcd 3 (7 :: int) = 1" by code_simp
  ultimately show ?thesis using mpz_poly_divexact_correct [OF bezout_invert_ok, of "[5, 3]" 7 "[10, 11, 3]" "[2, 1]"] by auto
qed

end
