(* ===== verification/MpzPolyModF.thy ===== *)
theory MpzPolyModF
  imports MpzPolyDiv
begin

text \<open>
  Arithmetic modulo a polynomial and an integer in \<^verbatim>\<open>utils/mpz_poly.cpp\<close>: the reduction by a polynomial that need
  not be monic, products and squares followed by a reduction, powers by squaring and with a
  sliding window, and the expansion of the coefficients in powers of a prime. A reduction polynomial may be
  absent, as the null pointer is in the code. The value \<open>ginv a m\<close> is what GMP leaves as the inverse.
\<close>

section \<open>Reduction\<close>

definition mpz_poly_size :: "zpoly \<Rightarrow> nat" where
  "mpz_poly_size f = fold (\<lambda>c S. if mpz_size c > S then mpz_size c else S) f 0"

text \<open>One step: the coefficient of the quotient, and the cells that it changes.\<close>

definition mod_f_quot :: "zpoly \<Rightarrow> int \<Rightarrow> int option \<Rightarrow> nat \<Rightarrow> nat \<Rightarrow> int \<Rightarrow> int" where
  "mod_f_quot f m invf size_f size_R Rd =
     (let Rd = (case invf of None \<Rightarrow> Rd
                | Some i \<Rightarrow> let c = mpz_mod Rd (last f); c = c * i; c = mpz_mod c (last f) in Rd - m * c);
          c = Rd div last f
      in if mpz_size c + size_f > (3 * size_R) div 2 then mpz_mod c m else c)"

fun mod_f_loop :: "zpoly \<Rightarrow> int \<Rightarrow> int option \<Rightarrow> nat \<Rightarrow> nat \<Rightarrow> nat \<Rightarrow> zpoly \<Rightarrow> zpoly" where
  "mod_f_loop f m invf size_f size_R 0 R = R"
| "mod_f_loop f m invf size_f size_R (Suc k) R =
     (let dR = length R - 1;
          c = mod_f_quot f m invf size_f size_R (R ! dR);
          R = addmul_cells R (butlast f) (- c) (dR - (length f - 1))
      in mod_f_loop f m invf size_f size_R k (take dR R))"

definition mod_f_reduce :: "(int \<Rightarrow> int \<Rightarrow> int) \<Rightarrow> zpoly \<Rightarrow> zpoly \<Rightarrow> int \<Rightarrow> int option \<Rightarrow> zpoly" where
  "mod_f_reduce ginv R f m invf =
     (let invf_local = (if mpz_poly_is_monic f then None
                        else case invf of Some i \<Rightarrow> Some i | None \<Rightarrow> Some (ginv m (last f)));
          size_f = mpz_poly_size f;
          size_R = mpz_poly_size R
      in mod_f_loop f m invf_local size_f size_R (length R + 1 - length f) R)"

definition mpz_poly_mod_f_mod_mpz :: "(int \<Rightarrow> int \<Rightarrow> int) \<Rightarrow> zpoly \<Rightarrow> zpoly option \<Rightarrow> int \<Rightarrow> int option \<Rightarrow> zpoly" where
  "mpz_poly_mod_f_mod_mpz ginv R f m invf =
     mpz_poly_mod_mpz (case f of None \<Rightarrow> R | Some f \<Rightarrow> mod_f_reduce ginv R f m invf) m"

text \<open>With the precomputed inverse of the modulus.\<close>

definition mpz_poly_mod_mpz_barrett :: "zpoly \<Rightarrow> int \<Rightarrow> int \<Rightarrow> zpoly option" where
  "mpz_poly_mod_mpz_barrett A m invm =
     map_option cleandeg (foldr (\<lambda>c r. case r of None \<Rightarrow> None
        | Some r \<Rightarrow> (case mpz_mod_barrett c m invm of None \<Rightarrow> None | Some c \<Rightarrow> Some (c # r))) A (Some []))"

definition mpz_poly_mod_f_mod_mpz_barrett ::
  "(int \<Rightarrow> int \<Rightarrow> int) \<Rightarrow> zpoly \<Rightarrow> zpoly option \<Rightarrow> int \<Rightarrow> int option \<Rightarrow> int \<Rightarrow> zpoly option" where
  "mpz_poly_mod_f_mod_mpz_barrett ginv R f m invf invm =
     mpz_poly_mod_mpz_barrett (case f of None \<Rightarrow> R | Some f \<Rightarrow> mod_f_reduce ginv R f m invf) m invm"

section \<open>Products\<close>

definition mpz_poly_mul_mod_f_mod_mpz ::
  "(int \<Rightarrow> int \<Rightarrow> int) \<Rightarrow> zpoly \<Rightarrow> zpoly \<Rightarrow> zpoly option \<Rightarrow> int \<Rightarrow> int option \<Rightarrow> zpoly" where
  "mpz_poly_mul_mod_f_mod_mpz ginv P1 P2 f m invf =
     mpz_poly_mod_f_mod_mpz ginv (cleandeg (mpz_poly_mul_tc P1 P2)) f m invf"

text \<open>The result of the square is a fresh object, whose cells are zero.\<close>

definition mpz_poly_sqr_mod_f_mod_mpz ::
  "(int \<Rightarrow> int \<Rightarrow> int) \<Rightarrow> zpoly \<Rightarrow> zpoly option \<Rightarrow> int \<Rightarrow> int option \<Rightarrow> zpoly" where
  "mpz_poly_sqr_mod_f_mod_mpz ginv P f m invf =
     mpz_poly_mod_f_mod_mpz ginv (cleandeg (mpz_poly_sqr_tc (mpz_sizeinbase2 0) P)) f m invf"

definition mpz_poly_mul_mod_f :: "zpoly \<Rightarrow> zpoly \<Rightarrow> zpoly \<Rightarrow> zpoly option" where
  "mpz_poly_mul_mod_f P1 P2 f = mpz_poly_div_r (mpz_poly_mul P1 P2) f"

section \<open>Powers\<close>

text \<open>The bits of the exponent below the highest one, from the top; \<open>k\<close> of them are left.\<close>

fun pow_ui_loop :: "u64 \<Rightarrow> zpoly \<Rightarrow> nat \<Rightarrow> zpoly \<Rightarrow> zpoly" where
  "pow_ui_loop n A 0 B = B"
| "pow_ui_loop n A (Suc k) B =
     (let B = mpz_poly_mul_self (mpz_sizeinbase2 0) B
      in pow_ui_loop n A k (if bit n k then mpz_poly_mul B A else B))"

text \<open>The search for the highest bit starts at bit 63.\<close>

fun high_bit :: "u64 \<Rightarrow> nat \<Rightarrow> nat" where
  "high_bit n 0 = 0"
| "high_bit n (Suc k) = (if push_bit (Suc k) 1 > n then high_bit n k else Suc k)"

definition mpz_poly_pow_ui :: "zpoly \<Rightarrow> u64 \<Rightarrow> zpoly" where
  "mpz_poly_pow_ui A n =
     (if n = 0 then [1] else if A = [] then [] else pow_ui_loop n A (high_bit n 63) A)"

text \<open>The window.\<close>

function pow_window :: "nat \<Rightarrow> nat \<Rightarrow> nat" where
  "pow_window k l = (if k div (l + 1) + 2 ^ (l - 1) > k div (l + 2) + 2 ^ l then pow_window k (l + 1) else l)"
  by pat_completeness auto

termination
proof (relation "measure (\<lambda>(k, l). k - l)", goal_cases)
  case (2 k l)
  have "(2 :: nat) ^ (l - 1) \<le> 2 ^ l" by (rule power_increasing) simp_all
  then have "0 < k div (l + 1)" using 2 by linarith
  then have "l + 1 \<le> k" by (simp add: div_greater_zero_iff)
  then show ?case by simp
qed simp

declare pow_window.simps [simp del]

fun pow_table :: "('a \<Rightarrow> 'a \<Rightarrow> 'a) \<Rightarrow> 'a \<Rightarrow> nat \<Rightarrow> 'a \<Rightarrow> 'a list" where
  "pow_table mul t0 0 t = []"
| "pow_table mul t0 (Suc n) t = (let t = mul t t0 in t # pow_table mul t0 n t)"

text \<open>All bits of a window from bit \<open>k - 1\<close> down: squarings and the value of the window.\<close>

fun pow_squares :: "('a \<Rightarrow> 'a) \<Rightarrow> int \<Rightarrow> nat \<Rightarrow> nat \<Rightarrow> 'a \<Rightarrow> nat \<Rightarrow> 'a \<times> nat" where
  "pow_squares sqr a j 0 R e = (R, e)"
| "pow_squares sqr a j (Suc n) R e = pow_squares sqr a j n (sqr R) (2 * e + of_bool (bit a (j + n)))"

definition mpz_scan1 :: "int \<Rightarrow> nat \<Rightarrow> nat \<Rightarrow> nat" where
  "mpz_scan1 a i k = hd (filter (bit a) [i..<k + 1])"

lemma scan1_bounds:
  assumes "i \<le> k" "bit a k"
  shows "i \<le> mpz_scan1 a i k" "mpz_scan1 a i k \<le> k" "bit a (mpz_scan1 a i k)"
proof -
  have "k \<in> set (filter (bit a) [i..<k + 1])" using assms by simp
  then have "filter (bit a) [i..<k + 1] \<noteq> []" by (metis empty_iff empty_set)
  then have "mpz_scan1 a i k \<in> set (filter (bit a) [i..<k + 1])" unfolding mpz_scan1_def by (rule hd_in_set)
  then show "i \<le> mpz_scan1 a i k" "mpz_scan1 a i k \<le> k" "bit a (mpz_scan1 a i k)" by auto
qed

text \<open>The loop with \<open>k\<close> bits left; bit \<open>k - 1\<close> is the next one.\<close>

function pow_loop :: "('a \<Rightarrow> 'a) \<Rightarrow> ('a \<Rightarrow> 'a \<Rightarrow> 'a) \<Rightarrow> 'a \<Rightarrow> 'a list \<Rightarrow> int \<Rightarrow> nat \<Rightarrow> nat \<Rightarrow> 'a \<Rightarrow> 'a" where
  "pow_loop sqr mul P T a l 0 R = R"
| "pow_loop sqr mul P T a l (Suc k) R =
     (if \<not> bit a k then pow_loop sqr mul P T a l k (sqr R)
      else let j = mpz_scan1 a (if k \<ge> l then k - (l - 1) else 0) k;
               (R, e) = pow_squares sqr a j (k + 1 - j) R 0
           in pow_loop sqr mul P T a l j (mul R (if e = 1 then P else T ! (e div 2))))"
  by pat_completeness auto

termination
proof (relation "measure (\<lambda>(sqr, mul, P, T, a, l, k, R). k)", goal_cases)
  case (3 sqr mul P T a l k R j x R' e)
  then show ?case using scan1_bounds(2) [of _ k a] by (simp add: le_imp_less_Suc)
qed simp_all

definition pow_windowed :: "('a \<Rightarrow> 'a) \<Rightarrow> ('a \<Rightarrow> 'a \<Rightarrow> 'a) \<Rightarrow> 'a \<Rightarrow> int \<Rightarrow> 'a" where
  "pow_windowed sqr mul P a =
     (let k = mpz_sizeinbase2 a;
          l = pow_window k 1;
          L = 2 ^ (l - 1);
          T = (if l > 1 then let t0 = sqr P; t1 = mul t0 P in t0 # t1 # pow_table mul t0 (L - 2) t1 else [])
      in pow_loop sqr mul P T a l (k - 1) P)"

definition mpz_poly_pow_mod_f_mod_mpz ::
  "(int \<Rightarrow> int \<Rightarrow> int) \<Rightarrow> zpoly \<Rightarrow> zpoly option \<Rightarrow> int \<Rightarrow> int \<Rightarrow> zpoly" where
  "mpz_poly_pow_mod_f_mod_mpz ginv P f a p =
     (if a = 0 then [1]
      else let invf = (case f of None \<Rightarrow> None | Some f \<Rightarrow> Some (ginv p (last f)))
           in pow_windowed (\<lambda>R. mpz_poly_sqr_mod_f_mod_mpz ginv R f p invf)
                (\<lambda>R S. mpz_poly_mul_mod_f_mod_mpz ginv R S f p invf) P a)"

section \<open>Powering with a sliding window\<close>

lemma pow_window_ge: "l \<le> m \<Longrightarrow> l \<le> pow_window k m"
proof (induction k m rule: pow_window.induct)
  case (1 k m)
  then show ?case by (subst pow_window.simps) auto
qed

lemma div_eq_one_between: "0 < c \<Longrightarrow> c \<le> x \<Longrightarrow> x < 2 * c \<Longrightarrow> x div c = 1" for c x :: int
  using div_pos_geq [of c x] by simp

text \<open>
  The algorithm in general: \<open>rel x n\<close> says that \<open>x\<close> stands for the power \<open>n\<close>; squaring doubles the exponent and
  multiplication adds them.
\<close>

locale power_ops =
  fixes sqr :: "'a \<Rightarrow> 'a" and mul :: "'a \<Rightarrow> 'a \<Rightarrow> 'a" and rel :: "'a \<Rightarrow> nat \<Rightarrow> bool"
  assumes sqr: "rel x n \<Longrightarrow> rel (sqr x) (2 * n)"
    and mul: "rel x n \<Longrightarrow> rel y k \<Longrightarrow> rel (mul x y) (n + k)"
begin

lemma pow_table_nth:
  "rel t0 2 \<Longrightarrow> rel t n \<Longrightarrow> i < k \<Longrightarrow> rel (pow_table mul t0 k t ! i) (n + 2 * (i + 1))"
proof (induction k arbitrary: t n i)
  case (Suc k)
  have t: "rel (mul t t0) (n + 2)" using mul [OF Suc.prems(2,1)] .
  then show ?case using Suc.IH [OF Suc.prems(1) t, of "i - 1"] Suc.prems(3) by (cases i) (simp_all add: Let_def)
qed simp

lemma pow_squares_value:
  "rel R n \<Longrightarrow> pow_squares sqr a j k R e = (R', e')
    \<Longrightarrow> rel R' (n * 2 ^ k) \<and> int e' = int e * 2 ^ k + (a div 2 ^ j) mod 2 ^ k"
proof (induction k arbitrary: R n e)
  case (Suc k)
  have "int e' = int (2 * e + of_bool (bit a (j + k))) * 2 ^ k + (a div 2 ^ j) mod 2 ^ k"
    and "rel R' (2 * n * 2 ^ k)"
    using Suc.IH [OF sqr [OF Suc.prems(1)]] Suc.prems(2) by simp_all
  moreover have "(a div 2 ^ j) mod 2 ^ Suc k = of_bool (bit a (j + k)) * 2 ^ k + (a div 2 ^ j) mod 2 ^ k"
    using take_bit_Suc_from_most [of k "drop_bit j a"] by (simp add: take_bit_eq_mod drop_bit_eq_div bit_drop_bit_eq mult.commute flip: drop_bit_eq_div)
  ultimately show ?case by (simp add: algebra_simps)
qed simp

lemma pow_loop_value:
  assumes "rel P 1" "\<And>e. odd e \<Longrightarrow> 3 \<le> e \<Longrightarrow> e < 2 ^ l \<Longrightarrow> rel (T ! (e div 2)) e" "1 \<le> l" "0 \<le> a"
  shows "rel R (nat (a div 2 ^ k)) \<Longrightarrow> rel (pow_loop sqr mul P T a l k R) (nat a)"
proof (induction k arbitrary: R rule: less_induct)
  case (less k)
  show ?case
  proof (cases k)
    case 0
    then show ?thesis using less.prems by simp
  next
    case (Suc m)
    define h where "h = a div 2 ^ Suc m"
    have h: "0 \<le> h" "rel R (nat h)" using less.prems assms(4) Suc by (simp_all add: h_def pos_imp_zdiv_nonneg_iff)
    show ?thesis
    proof (cases "bit a m")
      case False
      then have "a div 2 ^ m = 2 * h" by (simp add: h_def bit_iff_odd zdiv_zmult2_eq mult.commute [of 2])
      then have "rel (sqr R) (nat (a div 2 ^ m))" using sqr [OF h(2)] h(1) by (simp add: nat_mult_distrib)
      then show ?thesis using less.IH [of m] Suc False by simp
    next
      case True
      define j where "j = mpz_scan1 a (if m \<ge> l then m - (l - 1) else 0) m"
      define w where "w = m + 1 - j"
      obtain R' e where e: "pow_squares sqr a j w R 0 = (R', e)" by (cases "pow_squares sqr a j w R 0")
      have "(if m \<ge> l then m - (l - 1) else 0) \<le> m" by simp
      from scan1_bounds [OF this True, folded j_def]
      have j: "m + 1 \<le> j + l" "j \<le> m" "bit a j" using assms(3) by (auto split: if_splits)
      have w: "w \<le> l" "m + 1 = j + w" "w \<noteq> 0" using j by (simp_all add: w_def)
      have R': "rel R' (nat h * 2 ^ w)" and ev: "int e = (a div 2 ^ j) mod 2 ^ w" using pow_squares_value [OF h(2) e] by simp_all
      have "int e < 2 ^ w" by (simp add: ev)
      then have "int e < int (2 ^ w)" by simp
      then have "e < 2 ^ w" by (simp only: of_nat_less_iff)
      then have lt: "e < 2 ^ l" using w(1) by (meson less_le_trans one_le_numeral power_increasing)
      have "odd (int e)" using j(3) w(3) by (simp add: ev bit_iff_odd dvd_mod_iff)
      then have odd: "odd e" by simp
      define X where "X = (if e = 1 then P else T ! (e div 2))"
      have "rel X e"
      proof (cases "e = 1")
        case False
        then have "3 \<le> e" using odd by presburger
        then show ?thesis using assms(2) [OF odd _ lt] False by (simp add: X_def)
      qed (use assms(1) in \<open>simp add: X_def\<close>)
      then have "rel (mul R' X) (nat h * 2 ^ w + e)" using mul [OF R'] by blast
      moreover have "nat h * 2 ^ w + e = nat (a div 2 ^ j)"
      proof -
        have "a div 2 ^ j = 2 ^ w * (a div 2 ^ j div 2 ^ w) + int e" by (simp add: ev)
        also have "a div 2 ^ j div 2 ^ w = h" using w(2) by (simp add: h_def zdiv_zmult2_eq [symmetric] power_add [symmetric] del: power_Suc)
        finally have "a div 2 ^ j = int (nat h * 2 ^ w + e)" using h(1) by (simp add: mult.commute)
        then show ?thesis by (simp only: nat_int)
      qed
      ultimately have "rel (pow_loop sqr mul P T a l j (mul R' X)) (nat a)" using less.IH [of j] j(2) Suc by simp
      then show ?thesis using True e unfolding Suc pow_loop.simps Let_def j_def [symmetric] w_def [symmetric] by (simp add: X_def)
    qed
  qed
qed

lemma pow_windowed_value:
  assumes "rel P 1" "0 < a"
  shows "rel (pow_windowed sqr mul P a) (nat a)"
proof -
  define k l where "k = mpz_sizeinbase2 a" and "l = pow_window k 1"
  define t0 t1 where "t0 = sqr P" and "t1 = mul t0 P"
  define T where "T = (if l > 1 then t0 # t1 # pow_table mul t0 (2 ^ (l - 1) - 2) t1 else [])"
  have t: "rel t0 2" "rel t1 3" using sqr [OF assms(1)] mul [OF sqr [OF assms(1)] assms(1)] by (simp_all add: t0_def t1_def eval_nat_numeral)
  have l: "1 \<le> l" unfolding l_def by (rule pow_window_ge) simp
  have T: "rel (T ! (e div 2)) e" if "odd e" "3 \<le> e" "e < 2 ^ l" for e
  proof (cases "e = 3")
    case True
    have "l \<noteq> 1" using that True by auto
    then show ?thesis using True t(2) l by (simp add: T_def)
  next
    case False
    define i where "i = e div 2 - 2"
    have e: "e = 3 + 2 * (i + 1)" "e div 2 = i + 2" using that False by (simp_all add: i_def) presburger+
    have "l \<noteq> 1" using that by auto
    then obtain m where m: "l = Suc (Suc m)" using l by (metis Suc_le_D One_nat_def not0_implies_Suc)
    have "i < 2 ^ (l - 1) - 2" using that(3) e(1) by (simp add: m)
    then show ?thesis using pow_table_nth [OF t, of i] e m by (simp add: T_def)
  qed
  have k: "2 ^ (k - 1) \<le> a" "a < 2 ^ k" "0 < k" using sizeinbase2_bounds [of a] assms(2) by (simp_all add: k_def)
  obtain m where m: "k = Suc m" using k(3) by (cases k) simp_all
  have "a div 2 ^ m = 1" using k m by (simp add: div_eq_one_between)
  then have "rel P (nat (a div 2 ^ (k - 1)))" using assms(1) m by simp
  then have "rel (pow_loop sqr mul P T a l (k - 1) P) (nat a)" using pow_loop_value [OF assms(1) T l] assms(2) by simp
  then show ?thesis
    unfolding pow_windowed_def Let_def k_def [symmetric] l_def [symmetric] t0_def [symmetric] t1_def [symmetric] T_def [symmetric] .
qed

end

section \<open>The reduction is a congruence\<close>

definition bounded :: "int \<Rightarrow> zpoly \<Rightarrow> bool" where
  "bounded m f \<longleftrightarrow> (\<forall>c\<in>set f. 0 \<le> c \<and> c < m)"

lemma mod_mpz_bounded: "0 < m \<Longrightarrow> bounded m (mpz_poly_mod_mpz A m)"
  by (auto simp: bounded_def mpz_poly_mod_mpz_def cleandeg_def dest!: in_set_takeD)

lemma mod_f_quot_value:
  assumes "last f \<noteq> 0" "0 < m"
    and "case invf of None \<Rightarrow> last f = 1 | Some i \<Rightarrow> (m * i) mod \<bar>last f\<bar> = 1 mod \<bar>last f\<bar>"
  shows "(mod_f_quot f m invf sf sR Rd * last f) mod m = Rd mod m"
proof -
  define R' where "R' = (case invf of None \<Rightarrow> Rd
                | Some i \<Rightarrow> let c = mpz_mod Rd (last f); c = c * i; c = mpz_mod c (last f) in Rd - m * c)"
  have "last f dvd R' \<and> R' mod m = Rd mod m"
  proof (cases invf)
    case None
    then show ?thesis using assms(3) by (simp add: R'_def)
  next
    case (Some i)
    define L where "L = \<bar>last f\<bar>"
    have inv: "(m * i) mod L = 1 mod L" using assms(3) Some by (simp add: L_def)
    have R': "R' = Rd - m * ((Rd mod L * i) mod L)" by (simp add: R'_def Some Let_def mpz_mod_def L_def)
    have "(m * ((Rd mod L * i) mod L)) mod L = (Rd * (m * i)) mod L"
    proof -
      have "(m * ((Rd mod L * i) mod L)) mod L = (m * (Rd mod L * i)) mod L" by (rule mod_mult_right_eq)
      also have "m * (Rd mod L * i) = (Rd mod L) * (m * i)" by simp
      also have "(Rd mod L) * (m * i) mod L = (Rd * (m * i)) mod L" by (rule mod_mult_left_eq)
      finally show ?thesis .
    qed
    also have "\<dots> = Rd mod L" using mod_mult_right_eq [of Rd "m * i" L] mod_mult_right_eq [of Rd 1 L] inv by simp
    finally have "L dvd R'" unfolding R' by (simp add: mod_eq_dvd_iff dvd_diff_commute)
    moreover have "R' mod m = Rd mod m" unfolding R' by (simp add: mod_eq_dvd_iff)
    ultimately show ?thesis by (simp add: L_def)
  qed
  then have "(R' div last f) * last f = R'" "R' mod m = Rd mod m" by simp_all
  then show ?thesis
    using assms(2) mod_mult_left_eq [of "R' div last f" m "last f"]
    unfolding mod_f_quot_def Let_def R'_def [unfolded Let_def, symmetric] by (simp add: mpz_mod_def)
qed

lemma mod_f_step:
  fixes R f :: zpoly
  assumes "f \<noteq> []" "length f \<le> length R" "(c * last f) mod m = R ! (length R - 1) mod m"
  defines "dR \<equiv> length R - 1"
  shows "scong m (cf (take dR (addmul_cells R (butlast f) (- c) (dR - (length f - 1))))) (ssub (cf R) (conv (mono c (dR - (length f - 1))) (cf f)))"
proof -
  define d b where "d = length f - 1" and "b = dR - d"
  have lf: "length f = Suc d" using assms(1) by (cases f) (simp_all add: d_def)
  have lR: "length R = Suc dR" "dR = b + d" using assms(2) lf by (auto simp: dR_def b_def)
  have f: "cf f = sadd (cf (butlast f)) (mono (last f) d)"
    using cf_snoc [of "butlast f" "last f"] assms(1) lf by simp
  have fit: "b + length (butlast f) \<le> length R" using lR lf by simp
  have c1: "cf (addmul_cells R (butlast f) (- c) b) n = cf R n - conv (mono c b) (cf (butlast f)) n" for n
    using addmul_cells_cf [OF fit, of "- c"] by (simp add: sadd_def conv_mono)
  have c2: "conv (mono c b) (cf f) n = conv (mono c b) (cf (butlast f)) n + (if n = dR then c * last f else 0)" for n
    unfolding f conv_add_right sadd_def using lR(2) by (auto simp: conv_mono mono_def)
  have "cf (take dR (addmul_cells R (butlast f) (- c) b)) n mod m = (cf R n - conv (mono c b) (cf f) n) mod m" for n
  proof (cases n dR rule: linorder_cases)
    case less
    then show ?thesis by (simp add: cf_take c1 c2)
  next
    case equal
    have "conv (mono c b) (cf (butlast f)) dR = 0" using lf lR(2) by (simp add: conv_mono)
    moreover have "(R ! dR - c * last f) mod m = 0" using assms(3) by (simp add: dR_def mod_eq_0_iff_dvd mod_eq_dvd_iff dvd_diff_commute)
    ultimately show ?thesis using equal lR(1) by (simp add: cf_take c2 cf_lt)
  next
    case greater
    then have "conv (mono c b) (cf (butlast f)) n = 0" using lf lR(2) by (simp add: conv_mono)
    then show ?thesis using greater lR(1) by (simp add: cf_take c2)
  qed
  then show ?thesis by (simp add: scong_def ssub_def b_def d_def)
qed

lemma mod_f_loop_correct:
  assumes "f \<noteq> []" "last f \<noteq> 0" "0 < m"
    and "case invf of None \<Rightarrow> last f = 1 | Some i \<Rightarrow> (m * i) mod \<bar>last f\<bar> = 1 mod \<bar>last f\<bar>"
  shows "length R = k + (length f - 1) \<Longrightarrow> pcong m f R (mod_f_loop f m invf sf sR k R) \<and> length (mod_f_loop f m invf sf sR k R) = length f - 1"
proof (induction k arbitrary: R)
  case (Suc k)
  define dR c where "dR = length R - 1" and "c = mod_f_quot f m invf sf sR (R ! dR)"
  define R1 where "R1 = take dR (addmul_cells R (butlast f) (- c) (dR - (length f - 1)))"
  have len: "length f \<le> length R" using Suc.prems assms(1) by (cases f) simp_all
  have "scong m (cf R1) (ssub (cf R) (conv (mono c (dR - (length f - 1))) (cf f)))"
    using mod_f_step [OF assms(1) len, of c m] mod_f_quot_value [OF assms(2-4), of sf sR "R ! dR"]
    by (simp add: R1_def c_def dR_def)
  then have "pcong m f R R1" by (rule pcong_step)
  moreover have "length R1 = k + (length f - 1)" using Suc.prems by (simp add: R1_def dR_def)
  moreover have "mod_f_loop f m invf sf sR (Suc k) R = mod_f_loop f m invf sf sR k R1"
    unfolding mod_f_loop.simps Let_def R1_def c_def dR_def ..
  ultimately show ?case using Suc.IH [of R1] pcong_trans by auto
qed simp

text \<open>What the code requires of the polynomial, the modulus and the inverse that is passed.\<close>

definition modulus_ok :: "zpoly option \<Rightarrow> int \<Rightarrow> bool" where
  "modulus_ok f m \<longleftrightarrow> 0 < m \<and> (case f of None \<Rightarrow> True | Some f \<Rightarrow> f \<noteq> [] \<and> last f \<noteq> 0 \<and> gcd m (last f) = 1)"

definition invf_ok :: "zpoly option \<Rightarrow> int \<Rightarrow> int option \<Rightarrow> bool" where
  "invf_ok f m invf \<longleftrightarrow>
     (case (f, invf) of (Some f, Some i) \<Rightarrow> (m * i) mod \<bar>last f\<bar> = 1 mod \<bar>last f\<bar> | _ \<Rightarrow> True)"

text \<open>Congruence when the polynomial may be absent.\<close>

definition fcong :: "zpoly option \<Rightarrow> int \<Rightarrow> zpoly \<Rightarrow> zpoly \<Rightarrow> bool" where
  "fcong f m a b \<longleftrightarrow> (case f of None \<Rightarrow> scong m (cf a) (cf b) | Some f \<Rightarrow> pcong m f a b)"

definition below_deg :: "zpoly option \<Rightarrow> zpoly \<Rightarrow> bool" where
  "below_deg f R \<longleftrightarrow> (case f of None \<Rightarrow> True | Some f \<Rightarrow> length R < length f)"

lemma fcong_refl [simp]: "fcong f m a a"
  by (simp add: fcong_def split: option.split)

lemma fcong_sym: "fcong f m a b \<Longrightarrow> fcong f m b a"
  by (auto simp: fcong_def pcong_sym scong_sym split: option.splits)

lemma fcong_trans [trans]: "fcong f m a b \<Longrightarrow> fcong f m b c \<Longrightarrow> fcong f m a c"
  using pcong_trans [of m "the f" a b c] scong_trans [of m "cf a" "cf b" "cf c"] by (cases f) (simp_all add: fcong_def)

lemma fcong_mul:
  "fcong f m a a' \<Longrightarrow> fcong f m b b' \<Longrightarrow> cf c = conv (cf a) (cf b) \<Longrightarrow> cf c' = conv (cf a') (cf b') \<Longrightarrow> fcong f m c c'"
  using conv_cong [of m "cf a" "cf a'" "cf b" "cf b'"] pcong_mul [of m "the f" a a' b b' c c'] by (cases f) (simp_all add: fcong_def)

lemma mod_f_mod_correct:
  assumes "inverse_ok ginv" "modulus_ok f m" "invf_ok f m invf"
  shows "fcong f m R (mpz_poly_mod_f_mod_mpz ginv R f m invf) \<and> below_deg f (mpz_poly_mod_f_mod_mpz ginv R f m invf)
    \<and> bounded m (mpz_poly_mod_f_mod_mpz ginv R f m invf)"
proof -
  have m: "0 < m" using assms(2) by (simp add: modulus_ok_def)
  have red: "scong m (cf A) (cf (mpz_poly_mod_mpz A m))" for A by (rule scong_sym) (rule mod_mpz_scong)
  show ?thesis
  proof (cases f)
    case None
    then show ?thesis using red m by (simp add: fcong_def below_deg_def mpz_poly_mod_f_mod_mpz_def mod_mpz_bounded)
  next
    case (Some g)
    have g: "g \<noteq> []" "last g \<noteq> 0" "gcd m (last g) = 1" using assms(2) Some by (simp_all add: modulus_ok_def)
    define il where "il = (if mpz_poly_is_monic g then None else case invf of Some i \<Rightarrow> Some i | None \<Rightarrow> Some (ginv m (last g)))"
    have il: "case il of None \<Rightarrow> last g = 1 | Some i \<Rightarrow> (m * i) mod \<bar>last g\<bar> = 1 mod \<bar>last g\<bar>"
    proof (cases "mpz_poly_is_monic g")
      case True
      then show ?thesis using g(1) by (simp add: il_def mpz_poly_is_monic_def last_conv_nth)
    next
      case False
      then show ?thesis
        using assms(1) [unfolded inverse_ok_def, rule_format, of "last g" m] assms(3) g(2,3) Some
        by (cases invf) (simp_all add: il_def invf_ok_def)
    qed
    define S where "S = mod_f_reduce ginv R g m invf"
    have "pcong m g R S \<and> length S < length g"
    proof (cases "length R < length g")
      case True
      then show ?thesis by (simp add: S_def mod_f_reduce_def Let_def)
    next
      case False
      have "length R = (length R + 1 - length g) + (length g - 1)" using False g(1) by (cases g) simp_all
      from mod_f_loop_correct [OF g(1,2) m il this] g(1) show ?thesis
        by (simp add: S_def mod_f_reduce_def Let_def il_def [symmetric])
    qed
    moreover have "length (mpz_poly_mod_mpz S m) \<le> length S"
      using length_cleandeg_le [of "map (\<lambda>c. c mod m) S"] by (simp add: mpz_poly_mod_mpz_def)
    ultimately show ?thesis
      using pcong_trans [OF _ scong_imp_pcong [OF red]] m
      by (simp add: Some fcong_def below_deg_def mpz_poly_mod_f_mod_mpz_def mod_mpz_bounded flip: S_def)
  qed
qed

lemma mul_mod_f_correct:
  assumes "inverse_ok ginv" "modulus_ok f m" "invf_ok f m invf" "cf Q = conv (cf P1) (cf P2)"
  shows "fcong f m (mpz_poly_mul_mod_f_mod_mpz ginv P1 P2 f m invf) Q \<and> below_deg f (mpz_poly_mul_mod_f_mod_mpz ginv P1 P2 f m invf)
    \<and> bounded m (mpz_poly_mul_mod_f_mod_mpz ginv P1 P2 f m invf)"
proof -
  define T where "T = cleandeg (mpz_poly_mul_tc P1 P2)"
  have "cf T = cf Q"
  proof (cases "P1 = [] \<or> P2 = []")
    case True
    then show ?thesis unfolding T_def assms(4) by (auto simp: mpz_poly_mul_tc_def)
  next
    case False
    then show ?thesis unfolding T_def assms(4) by (simp add: mul_tc_correct pmul_cf)
  qed
  then have "fcong f m T Q" by (cases f) (simp_all add: fcong_def scong_imp_pcong)
  then show ?thesis
    using mod_f_mod_correct [OF assms(1-3), of T] fcong_sym fcong_trans
    unfolding mpz_poly_mul_mod_f_mod_mpz_def T_def [symmetric] by blast
qed

lemma sqr_mod_f_correct:
  assumes "inverse_ok ginv" "modulus_ok f m" "invf_ok f m invf" "cf Q = conv (cf P) (cf P)"
  shows "fcong f m (mpz_poly_sqr_mod_f_mod_mpz ginv P f m invf) Q \<and> below_deg f (mpz_poly_sqr_mod_f_mod_mpz ginv P f m invf)
    \<and> bounded m (mpz_poly_sqr_mod_f_mod_mpz ginv P f m invf)"
proof -
  define T where "T = cleandeg (mpz_poly_sqr_tc (mpz_sizeinbase2 0) P)"
  have "cf T = cf Q" unfolding T_def assms(4) using mul_self_cf by (simp add: mpz_poly_mul_self_def)
  then have "fcong f m T Q" by (cases f) (simp_all add: fcong_def scong_imp_pcong)
  then show ?thesis
    using mod_f_mod_correct [OF assms(1-3), of T] fcong_sym fcong_trans
    unfolding mpz_poly_sqr_mod_f_mod_mpz_def T_def [symmetric] by blast
qed

section \<open>Powers\<close>

fun ppow :: "zpoly \<Rightarrow> nat \<Rightarrow> zpoly" where
  "ppow P 0 = [1]"
| "ppow P (Suc n) = pmul P (ppow P n)"

lemma ppow_cf_add: "cf (ppow P (n + k)) = conv (cf (ppow P n)) (cf (ppow P k))"
  by (induction n) (simp_all add: pmul_cf conv_assoc cf_single)

lemma ppow_1: "cf (ppow P 1) = cf P"
  by (simp add: pmul_cf cf_single)

text \<open>The operations modulo the polynomial and the integer satisfy the laws of the powering algorithm.\<close>

definition represents_power ::
  "(int \<Rightarrow> int \<Rightarrow> int) \<Rightarrow> zpoly option \<Rightarrow> int \<Rightarrow> int option \<Rightarrow> zpoly \<Rightarrow> zpoly \<Rightarrow> nat \<Rightarrow> bool" where
  "represents_power ginv f p invf P x n \<longleftrightarrow>
     (inverse_ok ginv \<and> modulus_ok f p \<and> invf_ok f p invf \<longrightarrow>
        fcong f p x (ppow P n) \<and> (n \<noteq> 1 \<longrightarrow> below_deg f x \<and> bounded p x))"

interpretation powf: power_ops
  "\<lambda>R. mpz_poly_sqr_mod_f_mod_mpz ginv R f p invf" "\<lambda>R S. mpz_poly_mul_mod_f_mod_mpz ginv R S f p invf"
  "represents_power ginv f p invf P" for ginv f p invf P
proof
  fix x n
  assume h: "represents_power ginv f p invf P x n"
  show "represents_power ginv f p invf P (mpz_poly_sqr_mod_f_mod_mpz ginv x f p invf) (2 * n)"
    unfolding represents_power_def
  proof (intro impI conjI)
    assume a: "inverse_ok ginv \<and> modulus_ok f p \<and> invf_ok f p invf"
    have r: "fcong f p (mpz_poly_sqr_mod_f_mod_mpz ginv x f p invf) (pmul x x)"
      "below_deg f (mpz_poly_sqr_mod_f_mod_mpz ginv x f p invf)" "bounded p (mpz_poly_sqr_mod_f_mod_mpz ginv x f p invf)"
      using sqr_mod_f_correct [of ginv f p invf "pmul x x" x] a by (simp_all add: pmul_cf)
    have "fcong f p x (ppow P n)" using h a by (simp add: represents_power_def)
    then have "fcong f p (pmul x x) (ppow P (2 * n))"
      using fcong_mul [of f p x "ppow P n" x "ppow P n"] by (simp add: pmul_cf ppow_cf_add mult_2)
    then show "fcong f p (mpz_poly_sqr_mod_f_mod_mpz ginv x f p invf) (ppow P (2 * n))" using r(1) fcong_trans by blast
    show "below_deg f (mpz_poly_sqr_mod_f_mod_mpz ginv x f p invf)" "bounded p (mpz_poly_sqr_mod_f_mod_mpz ginv x f p invf)" by fact+
  qed
next
  fix x n y k
  assume h: "represents_power ginv f p invf P x n" "represents_power ginv f p invf P y k"
  show "represents_power ginv f p invf P (mpz_poly_mul_mod_f_mod_mpz ginv x y f p invf) (n + k)"
    unfolding represents_power_def
  proof (intro impI conjI)
    assume a: "inverse_ok ginv \<and> modulus_ok f p \<and> invf_ok f p invf"
    have r: "fcong f p (mpz_poly_mul_mod_f_mod_mpz ginv x y f p invf) (pmul x y)"
      "below_deg f (mpz_poly_mul_mod_f_mod_mpz ginv x y f p invf)" "bounded p (mpz_poly_mul_mod_f_mod_mpz ginv x y f p invf)"
      using mul_mod_f_correct [of ginv f p invf "pmul x y" x y] a by (simp_all add: pmul_cf)
    have "fcong f p x (ppow P n)" "fcong f p y (ppow P k)" using h a by (simp_all add: represents_power_def)
    then have "fcong f p (pmul x y) (ppow P (n + k))"
      by (rule fcong_mul) (simp_all add: pmul_cf ppow_cf_add)
    then show "fcong f p (mpz_poly_mul_mod_f_mod_mpz ginv x y f p invf) (ppow P (n + k))" using r(1) fcong_trans by blast
    show "below_deg f (mpz_poly_mul_mod_f_mod_mpz ginv x y f p invf)" "bounded p (mpz_poly_mul_mod_f_mod_mpz ginv x y f p invf)" by fact+
  qed
qed

lemma double_odd: "x div 2 = e \<Longrightarrow> x = e + e + of_bool (odd x)" for x e :: nat
  by (cases "odd x") (auto elim: oddE evenE)

lemma high_bit_correct: "unat n < 2 ^ Suc m \<Longrightarrow> m < 64 \<Longrightarrow> n \<noteq> 0 \<Longrightarrow> unat n div 2 ^ high_bit n m = 1"
proof (induction m)
  case (Suc m)
  have "unat (push_bit (Suc m) 1 :: u64) = 2 ^ Suc m"
    unfolding push_bit_of_1 unat_eq_nat_uint uint_exp64 [OF Suc.prems(2)] by (simp add: nat_power_eq nat_mult_distrib)
  then have c: "push_bit (Suc m) 1 > n \<longleftrightarrow> unat n < 2 ^ Suc m" by (simp add: word_less_nat_alt)
  show ?case
  proof (cases "unat n < 2 ^ Suc m")
    case True
    then show ?thesis using Suc c by simp
  next
    case False
    then have "unat n div 2 ^ Suc m = 1" using Suc.prems(1) by (intro div_nat_eqI) simp_all
    then show ?thesis using False c by simp
  qed
qed (simp add: unat_eq_zero less_2_cases_iff)

lemma pow_ui_loop_cf:
  "cf B = cf (ppow A (unat n div 2 ^ k)) \<Longrightarrow> cf (pow_ui_loop n A k B) = cf (ppow A (unat n))"
proof (induction k arbitrary: B)
  case (Suc k)
  define e where "e = unat n div 2 ^ Suc k"
  have b: "bit n k \<longleftrightarrow> odd (unat n div 2 ^ k)" using bit_unat64 [of n k] by (simp add: bit_iff_odd)
  have "unat n div 2 ^ k div 2 = e" by (simp add: e_def div_mult2_eq [symmetric] mult.commute)
  then have d: "unat n div 2 ^ k = e + e + of_bool (bit n k)" unfolding b by (rule double_odd)
  define B' where "B' = (let B = mpz_poly_mul_self (mpz_sizeinbase2 0) B in if bit n k then mpz_poly_mul B A else B)"
  have "cf B' = cf (ppow A (unat n div 2 ^ k))"
    using Suc.prems unfolding d e_def [symmetric] B'_def Let_def
    by (auto simp: mul_cf mul_self_cf ppow_cf_add pmul_cf cf_single)
  then show ?case using Suc.IH [of B'] unfolding B'_def by (simp add: Let_def)
qed simp

lemma pow_ui_cf: "cf (mpz_poly_pow_ui A n) = cf (ppow A (unat n))"
proof (cases "n = 0 \<or> A = []")
  case True
  have "cf (ppow [] (unat n)) = szero" if "n \<noteq> 0" using that by (cases "unat n") (auto simp: unat_eq_zero)
  then show ?thesis using True by (auto simp: mpz_poly_pow_ui_def)
next
  case False
  have "unat n < 2 ^ Suc 63" using unat_lt64 [of n] by simp
  then have "unat n div 2 ^ high_bit n 63 = 1" using False by (intro high_bit_correct) simp_all
  then have "cf A = cf (ppow A (unat n div 2 ^ high_bit n 63))" using ppow_1 [of A] by simp
  from pow_ui_loop_cf [OF this] show ?thesis using False by (simp add: mpz_poly_pow_ui_def)
qed

section \<open>Expansion in powers of a prime\<close>

text \<open>The powers: each is the square of the one before, divided by the prime where the exponent is odd.\<close>

fun base_modp_powers :: "int \<Rightarrow> nat list \<Rightarrow> nat \<Rightarrow> int \<Rightarrow> int list option" where
  "base_modp_powers p [] K1 pk1 = Some []"
| "base_modp_powers p (K # Ks) K1 pk1 =
     (let pk = pk1 * pk1
      in if odd K
         then if K = 2 * K1 - 1
              then map_option ((#) (pk div p)) (base_modp_powers p Ks K (pk div p)) else None
         else if K = 2 * K1
              then map_option ((#) pk) (base_modp_powers p Ks K pk) else None)"

text \<open>Truncated quotient and remainder; the coefficients of the successive remainders.\<close>

definition tdiv_qr :: "int \<Rightarrow> int \<Rightarrow> int \<times> int" where
  "tdiv_qr a b = (tdiv a b, a - tdiv a b * b)"

fun base_modp_split :: "zpoly \<Rightarrow> int list \<Rightarrow> zpoly list" where
  "base_modp_split R [] = [cleandeg R]"
| "base_modp_split R (pk # pks) =
     cleandeg (map (\<lambda>c. fst (tdiv_qr c pk)) R) # base_modp_split (map (\<lambda>c. snd (tdiv_qr c pk)) R) pks"

text \<open>
  The list \<open>K\<close> has the exponents \<open>K[0], \<dots>, K[l]\<close>. The result has the polynomials \<open>P[0], \<dots>, P[l]\<close> and a zero
  polynomial that ends the list; an assertion that fails is \<open>None\<close>.
\<close>

definition mpz_poly_base_modp_init :: "zpoly \<Rightarrow> int \<Rightarrow> nat list \<Rightarrow> zpoly list option" where
  "mpz_poly_base_modp_init P0 p K =
     (let l = length K - 1
      in if \<not> l > 0 \<or> K ! l \<noteq> 1 then None
         else (case base_modp_powers p (rev (take (l - 1) (tl K))) 1 p of None \<Rightarrow> None
               | Some pks \<Rightarrow> Some (rev (base_modp_split P0 (rev (p # pks))) @ [[]])))"

definition mpz_poly_base_modp_lift :: "zpoly \<Rightarrow> zpoly list \<Rightarrow> nat \<Rightarrow> int \<Rightarrow> zpoly" where
  "mpz_poly_base_modp_lift a P k pk =
     (let Q = P ! k
      in if Q = [] then a
         else cleandeg (map (\<lambda>i. if i < length a \<and> i < length Q then a ! i + Q ! i * pk
                                 else if i < length Q then Q ! i * pk else a ! i)
                [0..<max (length a) (length Q)]))"

lemma base_modp_powers_value:
  "base_modp_powers p Ks K1 (p ^ K1) = Some pks \<Longrightarrow> p \<noteq> 0 \<Longrightarrow> 1 \<le> K1 \<Longrightarrow> pks = map (\<lambda>K. p ^ K) Ks"
proof (induction Ks arbitrary: K1 pks)
  case (Cons K Ks)
  show ?case
  proof (cases "odd K")
    case True
    then have K: "K = 2 * K1 - 1" using Cons.prems(1) by (simp add: Let_def split: if_splits)
    have "p ^ K1 * p ^ K1 = p * p ^ K" using Cons.prems(3) by (simp add: K power_add [symmetric] power_Suc [symmetric] mult_2 del: power_Suc)
    then have "p ^ K1 * p ^ K1 div p = p ^ K" using Cons.prems(2) by simp
    moreover have "1 \<le> K" using True by (cases K) simp_all
    ultimately show ?thesis using Cons.prems Cons.IH [of K] K True by (auto simp: Let_def)
  next
    case False
    then have K: "K = 2 * K1" using Cons.prems(1) by (simp add: Let_def split: if_splits)
    have "p ^ K1 * p ^ K1 = p ^ K" by (simp add: K power_add [symmetric] mult_2)
    moreover have "1 \<le> K" using K Cons.prems(3) by simp
    ultimately show ?thesis using Cons.prems Cons.IH [of K] K False by (auto simp: Let_def)
  qed
qed simp

lemma base_modp_split_length [simp]: "length (base_modp_split R qs) = Suc (length qs)"
  by (induction qs arbitrary: R) simp_all

text \<open>The polynomial is recovered from its parts, the last part being the remainder.\<close>

lemma base_modp_split_sum:
  "cf R n = cf (last (base_modp_split R qs)) n + (\<Sum>i<length qs. qs ! i * cf (base_modp_split R qs ! i) n)"
proof (induction qs arbitrary: R)
  case (Cons pk qs)
  define Q R' where "Q = map (\<lambda>c. fst (tdiv_qr c pk)) R" and "R' = map (\<lambda>c. snd (tdiv_qr c pk)) R"
  have "cf R n = pk * cf Q n + cf R' n" by (simp add: Q_def R'_def cf_def tdiv_qr_def mult.commute)
  moreover have "base_modp_split R (pk # qs) = cleandeg Q # base_modp_split R' qs" by (simp add: Q_def R'_def)
  moreover have "base_modp_split R' qs \<noteq> []" using base_modp_split_length [of R' qs] by (metis list.size(3) nat.distinct(1))
  ultimately show ?case using Cons.IH [of R'] by (simp add: sum.lessThan_Suc_shift del: sum.lessThan_Suc)
qed simp

lemma base_modp_lift_cf: "cf (mpz_poly_base_modp_lift a P k pk) = sadd (cf a) (smult pk (cf (P ! k)))"
proof (cases "P ! k = []")
  case False
  have "cf (mpz_poly_base_modp_lift a P k pk) n = cf a n + pk * cf (P ! k) n" for n
    using False by (simp add: mpz_poly_base_modp_lift_def Let_def cf_map_upt mult.commute) (auto simp: cf_def)
  then show ?thesis by (simp add: fun_eq_iff sadd_def smult_def)
qed (simp add: mpz_poly_base_modp_lift_def fun_eq_iff sadd_def smult_def szero_def)

lemma fold_lift_cf:
  "cf (fold (\<lambda>k a. mpz_poly_base_modp_lift a P k (w k)) ks a) n = cf a n + (\<Sum>k\<leftarrow>ks. w k * cf (P ! k) n)"
  by (induction ks arbitrary: a) (simp_all add: base_modp_lift_cf sadd_def smult_def)

lemma pow_mod_f_one: "mpz_poly_pow_mod_f_mod_mpz ginv P f 1 p = P"
proof -
  have "mpz_sizeinbase2 1 = 1" by (simp add: mpz_sizeinbase2_def nbits.simps)
  then show ?thesis by (simp add: mpz_poly_pow_mod_f_mod_mpz_def pow_windowed_def Let_def)
qed

text \<open>The weights and the parts that the lifting visits.\<close>

lemma base_modp_init_parts:
  assumes "mpz_poly_base_modp_init P0 p K = Some P" "p \<noteq> 0"
  obtains l qs S where "length K = Suc l" "length qs = l" "S = base_modp_split P0 qs" "length P = Suc (Suc l)"
    "\<And>k. k \<le> l \<Longrightarrow> P ! k = S ! (l - k)" "\<And>k. 1 \<le> k \<Longrightarrow> k \<le> l \<Longrightarrow> p ^ (K ! (Suc l - k)) = qs ! (l - k)"
proof -
  define l where "l = length K - 1"
  have l: "0 < l" "K ! l = 1" "length K = Suc l"
    using assms(1) by (auto simp: mpz_poly_base_modp_init_def Let_def l_def split: if_splits)
  define Ks where "Ks = rev (take (l - 1) (tl K))"
  obtain pks where pks: "base_modp_powers p Ks 1 p = Some pks" "P = rev (base_modp_split P0 (rev (p # pks))) @ [[]]"
    using assms(1) by (auto simp: mpz_poly_base_modp_init_def Let_def Ks_def l_def split: if_splits option.splits)
  define qs S where "qs = rev (p # pks)" and "S = base_modp_split P0 qs"
  have pv: "pks = map (\<lambda>K. p ^ K) Ks" using base_modp_powers_value [of p Ks 1 pks] pks(1) assms(2) by simp
  have lk: "length Ks = l - 1" using l by (simp add: Ks_def)
  then have lq: "length qs = l" using l(1) pv by (simp add: qs_def)
  have lS: "length S = Suc l" using lq by (simp add: S_def)
  have PS: "P ! k = S ! (l - k)" if "k \<le> l" for k using that lS pks(2) by (simp add: S_def qs_def nth_append rev_nth)
  have w: "p ^ (K ! (Suc l - k)) = qs ! (l - k)" if "1 \<le> k" "k \<le> l" for k
  proof (cases "k = 1")
    case True
    then show ?thesis using l lq lk pv by (simp add: qs_def nth_append)
  next
    case False
    define j where "j = k - 2"
    then have j: "k = Suc (Suc j)" using that(1) False by simp
    have "Ks ! j = K ! (Suc l - k)" using that(2) l j by (simp add: Ks_def rev_nth nth_tl Suc_diff_Suc)
    moreover have "qs ! (l - k) = pks ! j"
    proof -
      have lp: "length (p # pks) = l" using lk pv l(1) by simp
      then have "l - k < length (p # pks)" using that l(1) by simp
      from rev_nth [OF this] have "qs ! (l - k) = (p # pks) ! (l - Suc (l - k))" by (simp only: qs_def lp)
      moreover have "l - Suc (l - k) = Suc j" using that j by simp
      ultimately show ?thesis by simp
    qed
    ultimately show ?thesis using that(2) j lk pv by simp
  qed
  have "length P = Suc (Suc l)" using lS pks(2) by (simp add: S_def qs_def)
  then show thesis using that [OF l(3) lq S_def _ PS w] by blast
qed

section \<open>Properties\<close>

text \<open>
  C29: Powering modulo a polynomial and an integer. For a modulus that is prime to the leading coefficient the
  result is congruent to the power; for exponents above one it has smaller degree than the polynomial and its
  coefficients are residues. The table and the window are always large enough. With
  exponent one the polynomial is returned as it is, reduced neither by the polynomial nor by the integer.
\<close>
theorem mpz_poly_pow_mod_f_mod_mpz_correct:
  assumes "inverse_ok ginv" "modulus_ok f p" "0 \<le> a"
  shows "fcong f p (mpz_poly_pow_mod_f_mod_mpz ginv P f a p) (ppow P (nat a))
    \<and> (1 < a \<longrightarrow> below_deg f (mpz_poly_pow_mod_f_mod_mpz ginv P f a p) \<and> bounded p (mpz_poly_pow_mod_f_mod_mpz ginv P f a p))
    \<and> mpz_poly_pow_mod_f_mod_mpz ginv P f 1 p = P"
proof (cases "a = 0")
  case False
  define invf where "invf = (case f of None \<Rightarrow> None | Some f \<Rightarrow> Some (ginv p (last f)))"
  have "invf_ok f p invf"
    using assms(1,2) by (auto simp: invf_ok_def invf_def inverse_ok_def modulus_ok_def split: option.splits)
  moreover have "represents_power ginv f p invf P P 1"
    by (cases f) (simp_all add: represents_power_def fcong_def pmul_cf cf_single scong_imp_pcong)
  then have "represents_power ginv f p invf P (mpz_poly_pow_mod_f_mod_mpz ginv P f a p) (nat a)"
    using powf.pow_windowed_value [of ginv f p invf P P a] False assms(3)
    by (simp add: mpz_poly_pow_mod_f_mod_mpz_def Let_def flip: invf_def)
  ultimately show ?thesis using assms pow_mod_f_one [of ginv P f p] by (auto simp: represents_power_def)
qed (use pow_mod_f_one in \<open>simp add: mpz_poly_pow_mod_f_mod_mpz_def\<close>)

theorem mpz_poly_pow_mod_f_mod_mpz_correct_witness:
  "fcong (Some [1, 0, 3]) 7 (mpz_poly_pow_mod_f_mod_mpz bezout_inverse [1, 2] (Some [1, 0, 3]) 300 7) (ppow [1, 2] 300)
   \<and> bounded 7 (mpz_poly_pow_mod_f_mod_mpz bezout_inverse [1, 2] (Some [1, 0, 3]) 300 7)"
proof -
  have "gcd 7 (3 :: int) = 1" by code_simp
  then have "modulus_ok (Some [1, 0, 3]) 7" by (simp add: modulus_ok_def)
  then show ?thesis using mpz_poly_pow_mod_f_mod_mpz_correct [OF bezout_inverse_ok, of "Some [1, 0, 3]" 7 300 "[1, 2]"] by simp
qed

text \<open>
  The power of a polynomial by a 64-bit exponent has the coefficients of the iterated product.
\<close>
theorem mpz_poly_pow_ui_correct:
  "cf (mpz_poly_pow_ui A n) = cf (ppow A (unat n))"
  by (rule pow_ui_cf)

text \<open>
  C34: Expansion and lifting are inverse to each other: starting from the first part and adding the other parts
  with their powers of the prime gives back the polynomial.
\<close>
theorem mpz_poly_base_modp_roundtrip:
  assumes "mpz_poly_base_modp_init P0 p K = Some P" "p \<noteq> 0"
  shows "length P = length K + 1 \<and>
    cf (fold (\<lambda>k a. mpz_poly_base_modp_lift a P k (p ^ (K ! (length K - k)))) [1..<length K] (P ! 0)) = cf P0"
proof -
  obtain l qs S where l: "length K = Suc l" and lq: "length qs = l" and S: "S = base_modp_split P0 qs" and lP: "length P = Suc (Suc l)"
    and PS: "\<And>k. k \<le> l \<Longrightarrow> P ! k = S ! (l - k)" and w: "\<And>k. 1 \<le> k \<Longrightarrow> k \<le> l \<Longrightarrow> p ^ (K ! (Suc l - k)) = qs ! (l - k)"
    using base_modp_init_parts [OF assms] by metis
  have lS: "length S = Suc l" using lq by (simp add: S)
  have "cf (fold (\<lambda>k a. mpz_poly_base_modp_lift a P k (p ^ (K ! (length K - k)))) [1..<length K] (P ! 0)) n = cf P0 n" for n
  proof -
    have "(\<Sum>k\<leftarrow>[1..<Suc l]. p ^ (K ! (Suc l - k)) * cf (P ! k) n) = (\<Sum>k\<in>{1..<Suc l}. p ^ (K ! (Suc l - k)) * cf (P ! k) n)"
      unfolding interv_sum_list_conv_sum_set_nat set_upt ..
    also have "\<dots> = (\<Sum>i<l. qs ! i * cf (S ! i) n)"
      by (rule sum.reindex_bij_witness [of _ "\<lambda>i. l - i" "\<lambda>k. l - k"]) (auto simp: w PS)
    finally have "(\<Sum>k\<leftarrow>[1..<Suc l]. p ^ (K ! (Suc l - k)) * cf (P ! k) n) = (\<Sum>i<l. qs ! i * cf (S ! i) n)" .
    moreover have "P ! 0 = last S" using PS [of 0] lS by (simp add: last_conv_nth flip: length_0_conv)
    ultimately show ?thesis
      using base_modp_split_sum [of P0 n qs] lq unfolding fold_lift_cf l by (simp add: S del: upt_Suc)
  qed
  moreover have "length P = length K + 1" using lP l by simp
  ultimately show ?thesis by blast
qed

theorem mpz_poly_base_modp_roundtrip_witness:
  "mpz_poly_base_modp_init [100, -37, 1] 3 [5, 3, 2, 1] = Some [[1, -1, 1], [], [2, -1], [3, -1], []]
   \<and> cf (fold (\<lambda>k a. mpz_poly_base_modp_lift a [[1, -1, 1], [], [2, -1], [3, -1], []] k (3 ^ ([5, 3, 2, 1] ! (4 - k)))) [1..<4] [1, -1, 1]) = cf [100, -37, 1]"
proof -
  have 1: "mpz_poly_base_modp_init [100, -37, 1] 3 [5, 3, 2, 1] = Some [[1, -1, 1], [], [2, -1], [3, -1], []]" by code_simp
  show ?thesis using mpz_poly_base_modp_roundtrip [OF 1] 1 by (simp add: eval_nat_numeral)
qed

end
