(* ===== verification/MinMaxHeap.thy ===== *)
theory MinMaxHeap
  imports Prelude
begin

text \<open>
  The min-max heap of \<^verbatim>\<open>src/utils/min_max_heap.hpp\<close>: a binary heap in an array in which the
  nodes on even levels (the root is on one) are greater than their descendants and those on odd
  levels smaller. The container is a list, the comparison object a relation \<^term>\<open>lt\<close>, the
  exceptions are values of a sum type. Indices are natural numbers; the section on 32-bit
  indices shows that the \<^verbatim>\<open>unsigned int\<close> computations of the code agree with them as long as the
  heap has at most \<^term>\<open>2 ^ 30\<close> elements.
\<close>

section \<open>Operations\<close>

datatype heap_error = Domain_error | Invalid_argument | Underflow_error

text \<open>\<^verbatim>\<open>log2\<close>: the loop counts the bits of its argument.\<close>

fun log2_loop :: "nat \<Rightarrow> nat \<Rightarrow> nat" where
  "log2_loop zvalue result =
    (if zvalue = 0 then result else log2_loop (zvalue div 2) (Suc result))"

declare log2_loop.simps [simp del]

definition log2 :: "nat \<Rightarrow> heap_error + nat" where
  "log2 zvalue = (if zvalue = 0 then Inl Domain_error else Inr (log2_loop zvalue 0 - 1))"

definition parent :: "nat \<Rightarrow> nat" where
  "parent zindex = (zindex - 1) div 2"

definition leftChild :: "nat \<Rightarrow> nat" where
  "leftChild zindex = 2 * zindex + 1"

definition rightChild :: "nat \<Rightarrow> nat" where
  "rightChild zindex = 2 * zindex + 2"

definition isOnMinLevel :: "nat \<Rightarrow> heap_error + bool" where
  "isOnMinLevel zindex =
    (case log2 (zindex + 1) of Inl e \<Rightarrow> Inl e | Inr l \<Rightarrow> Inr (l mod 2 = 1))"

definition isOnMaxLevel :: "nat \<Rightarrow> heap_error + bool" where
  "isOnMaxLevel zindex = (case isOnMinLevel zindex of Inl e \<Rightarrow> Inl e | Inr b \<Rightarrow> Inr (\<not> b))"

text \<open>\<^verbatim>\<open>std::swap\<close> of two elements of the container.\<close>

definition swap_at :: "'a list \<Rightarrow> nat \<Rightarrow> nat \<Rightarrow> 'a list" where
  "swap_at h i j = h[i := h ! j, j := h ! i]"

text \<open>
  The template parameter \<^verbatim>\<open>MaxLevel\<close> is an argument. The exclusive or of the comparison with it is
  the inequality of two Booleans.
\<close>

lemma parent_less [simp]: "0 < z \<Longrightarrow> parent z < z"
  by (simp add: parent_def)

lemma parent_le [simp]: "parent z \<le> z"
  by (simp add: parent_def)

lemma parent_parent_less [simp]: "0 < z \<Longrightarrow> parent (parent z) < z"
  by (meson le_less_trans parent_le parent_less)

function trickleUp_aux :: "('a \<Rightarrow> 'a \<Rightarrow> bool) \<Rightarrow> bool \<Rightarrow> nat \<Rightarrow> 'a list \<Rightarrow> 'a list" where
  "trickleUp_aux lt MaxLevel zindex h =
    (if zindex = 0 then h
     else if parent zindex = 0 then h
     else let g = parent (parent zindex) in
       if lt (h ! zindex) (h ! g) \<noteq> MaxLevel
       then trickleUp_aux lt MaxLevel g (swap_at h g zindex)
       else h)"
  by pat_completeness auto
termination
  by (relation "measure (\<lambda>(lt, M, z, h). z)") auto

declare trickleUp_aux.simps [simp del]

definition trickleUp ::
    "('a \<Rightarrow> 'a \<Rightarrow> bool) \<Rightarrow> nat \<Rightarrow> 'a list \<Rightarrow> heap_error + 'a list" where
  "trickleUp lt zindex h =
    (if zindex = 0 then Inr h
     else let p = parent zindex in
       case isOnMinLevel zindex of
         Inl e \<Rightarrow> Inl e
       | Inr True \<Rightarrow>
           Inr (if lt (h ! p) (h ! zindex)
                then trickleUp_aux lt True p (swap_at h p zindex)
                else trickleUp_aux lt False zindex h)
       | Inr False \<Rightarrow>
           Inr (if lt (h ! zindex) (h ! p)
                then trickleUp_aux lt False p (swap_at h p zindex)
                else trickleUp_aux lt True zindex h))"

text \<open>
  The search for the smallest node of \<^verbatim>\<open>trickleDown_\<close>: the two children, then the loop over the at
  most four grandchildren, which stops at the end of the container.
\<close>

definition better_node ::
    "('a \<Rightarrow> 'a \<Rightarrow> bool) \<Rightarrow> bool \<Rightarrow> 'a list \<Rightarrow> nat \<Rightarrow> nat \<Rightarrow> nat" where
  "better_node lt MaxLevel h i smallestNode =
    (if i < length h \<and> lt (h ! i) (h ! smallestNode) \<noteq> MaxLevel then i else smallestNode)"

function grandchild_loop ::
    "('a \<Rightarrow> 'a \<Rightarrow> bool) \<Rightarrow> bool \<Rightarrow> 'a list \<Rightarrow> nat \<Rightarrow> nat \<Rightarrow> nat \<Rightarrow> nat" where
  "grandchild_loop lt MaxLevel h leftGrandchild i smallestNode =
    (if i < 4 \<and> leftGrandchild + i < length h
     then grandchild_loop lt MaxLevel h leftGrandchild (Suc i)
            (if lt (h ! (leftGrandchild + i)) (h ! smallestNode) \<noteq> MaxLevel
             then leftGrandchild + i else smallestNode)
     else smallestNode)"
  by pat_completeness auto
termination
  by (relation "measure (\<lambda>(lt, M, h, l, i, s). 4 - i)") auto

declare grandchild_loop.simps [simp del]

definition smallest_node :: "('a \<Rightarrow> 'a \<Rightarrow> bool) \<Rightarrow> bool \<Rightarrow> 'a list \<Rightarrow> nat \<Rightarrow> nat" where
  "smallest_node lt MaxLevel h zindex =
    (let left = leftChild zindex;
         s0 = better_node lt MaxLevel h left zindex;
         s1 = better_node lt MaxLevel h (left + 1) s0
     in grandchild_loop lt MaxLevel h (leftChild left) 0 s1)"

text \<open>The nodes that the search looks at.\<close>

definition desc2 :: "nat \<Rightarrow> nat list" where
  "desc2 z = [2 * z + 1, 2 * z + 2, 4 * z + 3, 4 * z + 4, 4 * z + 5, 4 * z + 6]"

lemma grandchild_loop_cases:
  "grandchild_loop lt M h l i s = s
   \<or> (\<exists>k<4. i \<le> k \<and> grandchild_loop lt M h l i s = l + k \<and> l + k < length h)"
proof (induction lt M h l i s rule: grandchild_loop.induct)
  case (1 lt M h l i s)
  show ?case
  proof (cases "i < 4 \<and> l + i < length h")
    case True
    then show ?thesis
      using 1 [OF True] by (subst (1 2) grandchild_loop.simps) (auto split: if_splits intro: Suc_leD)
  next
    case False
    then show ?thesis
      by (subst grandchild_loop.simps) auto
  qed
qed

lemma smallest_node_cases:
  "smallest_node lt M h z = z
   \<or> smallest_node lt M h z \<in> set (desc2 z) \<and> smallest_node lt M h z < length h"
  using grandchild_loop_cases [of lt M h "leftChild (leftChild z)" 0
      "better_node lt M h (leftChild z + 1) (better_node lt M h (leftChild z) z)"]
  by (auto simp: smallest_node_def Let_def better_node_def leftChild_def desc2_def
        numeral_eq_Suc less_Suc_eq split: if_splits)

lemma smallest_node_measure:
  assumes "smallest_node lt M h z \<noteq> z"
  shows "length h - smallest_node lt M h z < length h - z"
  using smallest_node_cases [of lt M h z] assms by (auto simp: desc2_def)

function trickleDown_aux ::
    "('a \<Rightarrow> 'a \<Rightarrow> bool) \<Rightarrow> bool \<Rightarrow> nat \<Rightarrow> 'a list \<Rightarrow> heap_error + 'a list" where
  "trickleDown_aux lt MaxLevel zindex h =
    (if length h \<le> zindex then Inl Invalid_argument
     else let s = smallest_node lt MaxLevel h zindex in
       if zindex = s then Inr h
       else let h1 = swap_at h zindex s in
         if s - leftChild zindex > 1
         then trickleDown_aux lt MaxLevel s
                (if lt (h1 ! parent s) (h1 ! s) \<noteq> MaxLevel then swap_at h1 (parent s) s else h1)
         else Inr h1)"
  by pat_completeness auto
termination
  by (relation "measure (\<lambda>(lt, M, z, h). length h - z)")
    (auto simp: swap_at_def intro: smallest_node_measure)

declare trickleDown_aux.simps [simp del]

definition trickleDown ::
    "('a \<Rightarrow> 'a \<Rightarrow> bool) \<Rightarrow> nat \<Rightarrow> 'a list \<Rightarrow> heap_error + 'a list" where
  "trickleDown lt zindex h =
    (case isOnMinLevel zindex of
       Inl e \<Rightarrow> Inl e
     | Inr b \<Rightarrow> trickleDown_aux lt (\<not> b) zindex h)"

definition findMinIndex :: "('a \<Rightarrow> 'a \<Rightarrow> bool) \<Rightarrow> 'a list \<Rightarrow> heap_error + nat" where
  "findMinIndex lt h =
    (if length h = 0 then Inl Underflow_error
     else if length h = 1 then Inr 0
     else if length h = 2 then Inr 1
     else Inr (if lt (h ! 1) (h ! 2) then 1 else 2))"

definition deleteElement ::
    "('a \<Rightarrow> 'a \<Rightarrow> bool) \<Rightarrow> nat \<Rightarrow> 'a list \<Rightarrow> heap_error + 'a list" where
  "deleteElement lt zindex h =
    (if length h \<le> zindex then Inl Underflow_error
     else if zindex = length h - 1 then Inr (butlast h)
     else trickleDown lt zindex (butlast (swap_at h zindex (length h - 1))))"

definition heap_empty :: "'a list \<Rightarrow> bool" where
  "heap_empty h = (length h = 0)"

definition heap_size :: "'a list \<Rightarrow> nat" where
  "heap_size h = length h"

definition heap_push :: "('a \<Rightarrow> 'a \<Rightarrow> bool) \<Rightarrow> 'a \<Rightarrow> 'a list \<Rightarrow> heap_error + 'a list" where
  "heap_push lt zvalue h = (let h1 = h @ [zvalue] in trickleUp lt (length h1 - 1) h1)"

definition findMax :: "'a list \<Rightarrow> heap_error + 'a" where
  "findMax h = (if heap_empty h then Inl Underflow_error else Inr (h ! 0))"

definition findMin :: "('a \<Rightarrow> 'a \<Rightarrow> bool) \<Rightarrow> 'a list \<Rightarrow> heap_error + 'a" where
  "findMin lt h = (case findMinIndex lt h of Inl e \<Rightarrow> Inl e | Inr i \<Rightarrow> Inr (h ! i))"

definition popMax ::
    "('a \<Rightarrow> 'a \<Rightarrow> bool) \<Rightarrow> 'a list \<Rightarrow> heap_error + 'a \<times> 'a list" where
  "popMax lt h =
    (if length h = 0 then Inl Underflow_error
     else let temp = h ! 0 in
       case deleteElement lt 0 h of Inl e \<Rightarrow> Inl e | Inr h' \<Rightarrow> Inr (temp, h'))"

definition heap_pop ::
    "('a \<Rightarrow> 'a \<Rightarrow> bool) \<Rightarrow> 'a list \<Rightarrow> heap_error + 'a \<times> 'a list" where
  "heap_pop lt h = popMax lt h"

definition popMin ::
    "('a \<Rightarrow> 'a \<Rightarrow> bool) \<Rightarrow> 'a list \<Rightarrow> heap_error + 'a \<times> 'a list" where
  "popMin lt h =
    (if length h = 0 then Inl Underflow_error
     else case findMinIndex lt h of
       Inl e \<Rightarrow> Inl e
     | Inr smallest \<Rightarrow>
         (let temp = h ! smallest in
          case deleteElement lt smallest h of Inl e \<Rightarrow> Inl e | Inr h' \<Rightarrow> Inr (temp, h')))"

section \<open>Levels\<close>

text \<open>\<^verbatim>\<open>maxlev\<close> says that a node is on a max level: the root is, and levels alternate.\<close>

function maxlev :: "nat \<Rightarrow> bool" where
  "maxlev z = (if z = 0 then True else \<not> maxlev (parent z))"
  by pat_completeness auto
termination
  by (relation "measure id") auto

declare maxlev.simps [simp del]

lemma maxlev_0 [simp]: "maxlev 0"
  by (simp add: maxlev.simps)

lemma maxlev_parent [simp]: "0 < z \<Longrightarrow> maxlev (parent z) = (\<not> maxlev z)"
  using maxlev.simps [of z] by simp

lemma maxlev_rec [code]: "maxlev 0 = True" "maxlev (Suc n) = (\<not> maxlev (n div 2))"
  using maxlev_parent [of "Suc n"] by (auto simp: parent_def)

lemma log2_loop_add: "log2_loop v (r + k) = log2_loop v r + k"
proof (induction v r arbitrary: k rule: log2_loop.induct)
  case (1 v r)
  then show ?case
    by (subst (1 2) log2_loop.simps) (simp flip: add_Suc)
qed

lemma log2_loop_Suc: "log2_loop v (Suc r) = Suc (log2_loop v r)"
  using log2_loop_add [of v r 1] by simp

lemma log2_loop_pos: "0 < v \<Longrightarrow> 0 < log2_loop v 0"
  by (subst log2_loop.simps) (simp add: log2_loop_Suc)

lemma log2_loop_parent:
  assumes "0 < z"
  shows "log2_loop (Suc z) 0 = Suc (log2_loop (Suc (parent z)) 0)"
proof -
  have "Suc z div 2 = Suc (parent z)"
    using assms by (simp add: parent_def)
  then show ?thesis
    by (subst log2_loop.simps) (simp add: log2_loop_Suc)
qed

lemma log2_loop_level: "odd (log2_loop (Suc z) 0) = maxlev z"
proof (induction z rule: maxlev.induct)
  case (1 z)
  show ?case
  proof (cases "z = 0")
    case True
    then show ?thesis
      by (simp add: log2_loop.simps)
  next
    case False
    then show ?thesis
      using 1 by (simp add: log2_loop_parent)
  qed
qed

lemma isOnMinLevel_eq [simp]: "isOnMinLevel z = Inr (\<not> maxlev z)"
proof -
  obtain k where k: "log2_loop (Suc z) 0 = Suc k"
    using log2_loop_pos [of "Suc z"] gr0_implies_Suc by blast
  then have "even k = maxlev z"
    using log2_loop_level [of z] by simp
  then have "(k mod 2 = 1) = (\<not> maxlev z)"
    using odd_iff_mod_2_eq_one [of k] by blast
  then show ?thesis
    using k by (simp add: isOnMinLevel_def log2_def)
qed

lemma log2_correct:
  assumes "0 < v"
  obtains l where "log2 v = Inr l" "2 ^ l \<le> v" "v < 2 ^ Suc l"
proof -
  have "2 ^ (log2_loop v 0 - 1) \<le> v \<and> v < 2 ^ log2_loop v 0"
    using assms
  proof (induction v rule: less_induct)
    case (less v)
    show ?case
    proof (cases "v = 1")
      case True
      then show ?thesis
        by (simp add: log2_loop.simps)
    next
      case False
      define w where "w = v div 2"
      have w: "0 < w" "w < v" and v: "v = 2 * w \<or> v = 2 * w + 1"
        using less.prems False by (auto simp: w_def)
      have "log2_loop v 0 = Suc (log2_loop w 0)"
        using less.prems by (subst log2_loop.simps) (simp add: log2_loop_Suc w_def)
      moreover obtain k where "log2_loop w 0 = Suc k"
        using log2_loop_pos [OF w(1)] gr0_implies_Suc by blast
      ultimately show ?thesis
        using less.IH [OF w(2) w(1)] v by auto
    qed
  qed
  moreover have "Suc (log2_loop v 0 - 1) = log2_loop v 0"
    using log2_loop_pos [OF assms] by simp
  ultimately show ?thesis
    using that [of "log2_loop v 0 - 1"] assms by (simp add: log2_def)
qed

section \<open>The order of the heap\<close>

text \<open>
  An edge leads from a node to one of its children or grandchildren. A node on a max level is at
  least as great as the nodes its edges lead to, a node on a min level at most as great.
\<close>

definition edge :: "nat \<Rightarrow> nat \<Rightarrow> bool" where
  "edge i j = (0 < j \<and> (i = parent j \<or> 0 < parent j \<and> i = parent (parent j)))"

definition leM :: "('a \<Rightarrow> 'a \<Rightarrow> bool) \<Rightarrow> bool \<Rightarrow> 'a \<Rightarrow> 'a \<Rightarrow> bool" where
  "leM lt M x y = (if M then \<not> lt x y else \<not> lt y x)"

definition min_max_ordered :: "('a \<Rightarrow> 'a \<Rightarrow> bool) \<Rightarrow> 'a list \<Rightarrow> bool" where
  "min_max_ordered lt h =
    (\<forall>j<length h. \<forall>i<j. edge i j \<longrightarrow> leM lt (maxlev i) (h ! i) (h ! j))"

lemma edge_less: "edge i j \<Longrightarrow> i < j"
  by (auto simp: edge_def)

lemma parent_eq_iff: "0 < j \<Longrightarrow> parent j = i \<longleftrightarrow> j = 2 * i + 1 \<or> j = 2 * i + 2"
  unfolding parent_def by presburger

lemma edge_desc2: "edge i j = (j \<in> set (desc2 i))"
proof
  assume "edge i j"
  then consider "0 < j" "parent j = i" | k where "0 < j" "0 < k" "parent j = k" "parent k = i"
    by (auto simp: edge_def)
  then show "j \<in> set (desc2 i)"
  proof cases
    case 1
    then show ?thesis
      by (auto simp add: parent_eq_iff desc2_def)
  next
    case 2
    then have "k = 2 * i + 1 \<or> k = 2 * i + 2" "j = 2 * k + 1 \<or> j = 2 * k + 2"
      using parent_eq_iff by blast+
    then show ?thesis
      unfolding desc2_def by auto
  qed
next
  assume "j \<in> set (desc2 i)"
  then show "edge i j"
    by (auto simp: desc2_def edge_def parent_def)
qed

text \<open>The same order on a function from indices, as the proofs use it.\<close>

definition holds :: "('a \<Rightarrow> 'a \<Rightarrow> bool) \<Rightarrow> (nat \<Rightarrow> 'a) \<Rightarrow> nat \<Rightarrow> nat \<Rightarrow> bool" where
  "holds lt f i j = leM lt (maxlev i) (f i) (f j)"

definition good :: "('a \<Rightarrow> 'a \<Rightarrow> bool) \<Rightarrow> nat \<Rightarrow> (nat \<Rightarrow> 'a) \<Rightarrow> bool" where
  "good lt n f = (\<forall>i j. edge i j \<longrightarrow> j < n \<longrightarrow> holds lt f i j)"

lemma min_max_ordered_good: "min_max_ordered lt h = good lt (length h) ((!) h)"
  using edge_less by (auto simp: min_max_ordered_def good_def holds_def)

definition swf :: "(nat \<Rightarrow> 'a) \<Rightarrow> nat \<Rightarrow> nat \<Rightarrow> nat \<Rightarrow> 'a" where
  "swf f i j = f(i := f j, j := f i)"

lemma nth_swap_at: "i < length h \<Longrightarrow> j < length h \<Longrightarrow> (!) (swap_at h i j) = swf ((!) h) i j"
  by (auto simp: swap_at_def swf_def fun_eq_iff nth_list_update)

lemma length_swap_at [simp]: "length (swap_at h i j) = length h"
  by (simp add: swap_at_def)

lemma mset_swap_at [simp]:
  "i < length h \<Longrightarrow> j < length h \<Longrightarrow> mset (swap_at h i j) = mset h"
  by (simp add: swap_at_def mset_swap)

text \<open>The edge from the grandparent.\<close>

definition grand :: "nat \<Rightarrow> nat \<Rightarrow> bool" where
  "grand g z = (0 < z \<and> 0 < parent z \<and> g = parent (parent z))"

lemma grand_edge: "grand g z \<Longrightarrow> edge g z"
  by (simp add: grand_def edge_def)

lemma grand_unique: "grand g z \<Longrightarrow> grand g' z \<Longrightarrow> g' = g"
  by (simp add: grand_def)

lemma grand_level: "grand g z \<Longrightarrow> maxlev g = maxlev z"
  by (auto simp: grand_def)

lemma edge_cases:
  assumes "edge i j"
  obtains (child) "0 < j" "i = parent j" "maxlev i = (\<not> maxlev j)" | (grand) "grand i j"
  using assms by (auto simp: edge_def grand_def)

text \<open>
  What holds while an element moves up from node \<^term>\<open>z\<close>: all edges except the one from the
  grandparent are in order, and the grandparent is in order with the nodes below \<^term>\<open>z\<close>. While an
  element moves down, the edges out of \<^term>\<open>z\<close> may be out of order.
\<close>

definition up_pre :: "('a \<Rightarrow> 'a \<Rightarrow> bool) \<Rightarrow> nat \<Rightarrow> (nat \<Rightarrow> 'a) \<Rightarrow> nat \<Rightarrow> bool" where
  "up_pre lt n f z =
    ((\<forall>i j. edge i j \<longrightarrow> j < n \<longrightarrow> \<not> (j = z \<and> grand i z) \<longrightarrow> holds lt f i j)
     \<and> (\<forall>g j. grand g z \<longrightarrow> edge z j \<longrightarrow> j < n \<longrightarrow> leM lt (maxlev z) (f g) (f j)))"

definition down_pre :: "('a \<Rightarrow> 'a \<Rightarrow> bool) \<Rightarrow> nat \<Rightarrow> (nat \<Rightarrow> 'a) \<Rightarrow> nat \<Rightarrow> bool" where
  "down_pre lt n f z =
    ((\<forall>i j. edge i j \<longrightarrow> j < n \<longrightarrow> i \<noteq> z \<longrightarrow> holds lt f i j)
     \<and> (\<forall>g j. grand g z \<longrightarrow> edge z j \<longrightarrow> j < n \<longrightarrow> leM lt (maxlev z) (f g) (f j)))"

section \<open>Comparison objects\<close>

text \<open>
  What the heap needs of its comparison object: it is a strict weak order. Equivalent elements
  need not be equal, as with pairs that are compared by their scores only.
\<close>

locale strict_weak_order =
  fixes lt :: "'a \<Rightarrow> 'a \<Rightarrow> bool"
  assumes lt_asym: "lt x y \<Longrightarrow> \<not> lt y x"
    and nlt_trans: "\<not> lt x y \<Longrightarrow> \<not> lt y z \<Longrightarrow> \<not> lt x z"
begin

lemma lt_irrefl [simp]: "\<not> lt x x"
  using lt_asym by blast

lemma leM_refl [simp]: "leM lt M x x"
  using lt_asym by (auto simp: leM_def)

lemma leM_trans: "leM lt M x y \<Longrightarrow> leM lt M y z \<Longrightarrow> leM lt M x z"
  using nlt_trans by (auto simp: leM_def)

lemma leM_flip: "leM lt (\<not> M) x y = leM lt M y x"
  by (simp add: leM_def)

text \<open>The test of the code, and its failure, order the two elements.\<close>

lemma test_leM: "lt x y \<noteq> M \<Longrightarrow> leM lt M x y"
  using lt_asym by (auto simp: leM_def)

lemma test_leM_not: "\<not> (lt x y \<noteq> M) \<Longrightarrow> leM lt M y x"
  using lt_asym by (auto simp: leM_def)

lemma goodD: "good lt n f \<Longrightarrow> edge i j \<Longrightarrow> j < n \<Longrightarrow> leM lt (maxlev i) (f i) (f j)"
  by (simp add: good_def holds_def)

text \<open>The root is a greatest element.\<close>

lemma good_root_greatest:
  assumes "good lt n f" "j < n"
  shows "\<not> lt (f 0) (f j)"
  using assms(2)
proof (induction j rule: less_induct)
  case (less j)
  show ?case
  proof (cases "j = 0")
    case True
    then show ?thesis
      using lt_asym by blast
  next
    case False
    define i where "i = (if maxlev j then parent (parent j) else parent j)"
    have "maxlev j \<Longrightarrow> 0 < parent j"
      using False by (metis gr0I maxlev_0 maxlev_parent)
    then have e: "edge i j" "maxlev i"
      using False by (auto simp: edge_def i_def)
    then have "\<not> lt (f i) (f j)"
      using goodD [OF assms(1)] less.prems by (force simp: leM_def)
    moreover have "\<not> lt (f 0) (f i)"
      using less edge_less [OF e(1)] by simp
    ultimately show ?thesis
      using nlt_trans by blast
  qed
qed

text \<open>Every other node has a smaller or equivalent one among the children of the root.\<close>

lemma good_children_least:
  assumes "good lt n f" "0 < j" "j < n"
  shows "\<exists>i\<in>{1, 2}. i \<le> j \<and> \<not> lt (f j) (f i)"
  using assms(2,3)
proof (induction j rule: less_induct)
  case (less j)
  show ?case
  proof (cases "parent j = 0")
    case True
    then have "j = 1 \<or> j = 2"
      using parent_eq_iff [of j 0] less.prems by (auto simp: numeral_2_eq_2)
    then show ?thesis
      using lt_asym by blast
  next
    case False
    define i where "i = (if maxlev j then parent j else parent (parent j))"
    have "\<not> maxlev j \<Longrightarrow> 0 < parent (parent j)"
      using less.prems False by (metis gr0I maxlev_0 maxlev_parent)
    then have e: "edge i j" "\<not> maxlev i" "0 < i"
      using less.prems False by (auto simp: edge_def i_def)
    then have "\<not> lt (f j) (f i)"
      using goodD [OF assms(1)] less.prems by (force simp: leM_def)
    moreover obtain k where "k \<in> {1, 2}" "k \<le> i" "\<not> lt (f i) (f k)"
      using less.IH [of i] e edge_less [OF e(1)] less.prems less_trans by blast
    ultimately show ?thesis
      using nlt_trans edge_less [OF e(1)] by fastforce
  qed
qed

text \<open>One step up: the element at \<^term>\<open>z\<close> changes places with its grandparent.\<close>

lemma up_step_good:
  assumes "up_pre lt n f z" "\<And>g. grand g z \<Longrightarrow> leM lt (maxlev z) (f g) (f z)"
  shows "good lt n f"
  unfolding good_def
proof (intro allI impI)
  fix i j
  assume e: "edge i j" "j < n"
  show "holds lt f i j"
  proof (cases "j = z \<and> grand i z")
    case True
    then show ?thesis
      using assms(2) [of i] grand_level [of i z] by (simp add: holds_def)
  next
    case False
    then show ?thesis
      using assms(1) e by (simp add: up_pre_def)
  qed
qed

lemma up_step:
  assumes up: "up_pre lt n f z" and g: "grand g z" and z: "z < n"
    and le: "leM lt (maxlev z) (f z) (f g)"
  shows "up_pre lt n (swf f g z) g"
proof -
  define M where "M = maxlev z"
  define p where "p = parent z"
  have lv: "maxlev g = M" "maxlev p = (\<not> M)" and ord: "g < p" "p < z" "edge g p" "edge p z" "edge g z"
    using g by (auto simp: grand_def M_def p_def edge_def)
  have E: "leM lt (maxlev i) (f i) (f j)" if "edge i j" "j < n" "\<not> (j = z \<and> i = g)" for i j
    using up that g unfolding up_pre_def holds_def by (metis grand_def)
  have B: "leM lt M (f g) (f j)" if "edge z j" "j < n" for j
    using up that g unfolding up_pre_def M_def by metis
  have zg: "leM lt M (f z) (f g)"
    using le by (simp add: M_def)
  have below_g: "leM lt M (f g) (swf f g z j)" if "edge g j" "j < n" for j
    using E [OF that] lv ord edge_less [OF that(1)] by (cases "j = z") (auto simp: swf_def)
  have "holds lt (swf f g z) i j" if e: "edge i j" "j < n" and ne: "\<not> (j = g \<and> grand i g)" for i j
  proof -
    consider "i = g" | "i = z" | "j = z" "i \<noteq> g" | "j = g" | "i \<notin> {g, z}" "j \<notin> {g, z}"
      by blast
    then show ?thesis
    proof cases
      case 1
      then show ?thesis
        using leM_trans [OF zg below_g] e edge_less [OF e(1)] lv ord
        by (simp add: holds_def swf_def)
    next
      case 2
      then show ?thesis
        using B e edge_less [OF e(1)] ord by (auto simp: holds_def swf_def M_def)
    next
      case 3
      then have "i = p"
        using e(1) g by (auto simp: edge_def p_def grand_def)
      then show ?thesis
        using 3 E [OF ord(3)] ord z lv leM_flip [of M] by (auto simp: holds_def swf_def)
    next
      case 4
      then have i: "i = parent g" "maxlev i = (\<not> M)" "0 < g"
        using e(1) ne lv by (auto elim!: edge_cases)
      then have "edge i p"
        using g ord by (auto simp: edge_def p_def grand_def)
      then have "leM lt M (f p) (f i)" "leM lt M (f z) (f p)"
        using E [of i p] E [OF ord(4)] i(2) lv ord z leM_flip [of M] by auto
      then show ?thesis
        using 4 i leM_trans leM_flip [of M] edge_less [OF e(1)] ord
        by (auto simp: holds_def swf_def)
    next
      case 5
      then show ?thesis
        using E [OF e] by (simp add: holds_def swf_def)
    qed
  qed
  moreover have "leM lt M (swf f g z g2) (swf f g z j)" if "grand g2 g" "edge g j" "j < n" for g2 j
  proof -
    have "leM lt M (f g2) (f g)"
      using E [OF grand_edge [OF that(1)]] grand_level [OF that(1)] lv ord z by simp
    then show ?thesis
      using leM_trans [OF _ below_g [OF that(2,3)]] edge_less [OF grand_edge [OF that(1)]] ord
      by (simp add: swf_def)
  qed
  ultimately show ?thesis
    by (simp add: up_pre_def lv)
qed

text \<open>The first step: a new leaf changes places with its parent, or stays.\<close>

lemma up_start_swap:
  assumes gd: "good lt z f" and z: "0 < z"
    and le: "leM lt (\<not> maxlev z) (f z) (f (parent z))"
  shows "up_pre lt (Suc z) (swf f (parent z) z) (parent z)"
proof -
  define p where "p = parent z"
  define M where "M = maxlev p"
  have pz: "p < z" "M = (\<not> maxlev z)" "edge p z"
    using z by (auto simp: p_def M_def edge_def)
  have zp: "leM lt M (f z) (f p)"
    using le pz by (simp add: p_def)
  have E: "leM lt (maxlev i) (f i) (f j)" if "edge i j" "j < z" for i j
    using goodD [OF gd that] .
  have below_p: "leM lt M (f p) (swf f p z j)" if "edge p j" "j < Suc z" for j
    using E [of p j] that pz edge_less [OF that(1)] by (cases "j = z") (auto simp: swf_def M_def)
  have "holds lt (swf f p z) i j"
    if e: "edge i j" "j < Suc z" and ne: "\<not> (j = p \<and> grand i p)" for i j
  proof -
    have "i \<noteq> z"
      using edge_less [OF e(1)] e(2) by auto
    then consider "i = p" | "j = z" "i \<noteq> p" | "j = p" | "i \<notin> {p, z}" "j \<notin> {p, z}"
      by blast
    then show ?thesis
    proof cases
      case 1
      then show ?thesis
        using leM_trans [OF zp below_p] e edge_less [OF e(1)] pz
        by (simp add: holds_def swf_def M_def)
    next
      case 2
      then have "i = parent p" "0 < p"
        using e(1) by (auto simp: edge_def p_def)
      moreover have "parent p < p"
        using \<open>0 < p\<close> by simp
      ultimately have "edge i p" "i < p" "i \<noteq> z"
        using pz(1) by (simp_all add: edge_def)
      then show ?thesis
        using 2 E [of i p] pz by (auto simp: holds_def swf_def)
    next
      case 3
      then have i: "i = parent p" "maxlev i = (\<not> M)" "0 < p"
        using e(1) ne by (auto simp: M_def elim!: edge_cases)
      then have "leM lt M (f p) (f i)"
        using E [of i p] e(1) 3 pz leM_flip [of M] by auto
      then have "leM lt M (f z) (f i)"
        using leM_trans [OF zp] by blast
      then show ?thesis
        using 3 i leM_flip [of M] edge_less [OF e(1)] pz by (auto simp: holds_def swf_def)
    next
      case 4
      then show ?thesis
        using E [OF e(1)] e(2) by (auto simp: holds_def swf_def)
    qed
  qed
  moreover have "leM lt M (swf f p z g) (swf f p z j)" if "grand g p" "edge p j" "j < Suc z" for g j
  proof -
    have "leM lt M (f g) (f p)"
      using E [OF grand_edge [OF that(1)]] grand_level [OF that(1)] pz by (simp add: M_def)
    then show ?thesis
      using leM_trans [OF _ below_p [OF that(2,3)]] edge_less [OF grand_edge [OF that(1)]] pz
      by (simp add: swf_def)
  qed
  ultimately show ?thesis
    unfolding p_def [symmetric] by (simp add: up_pre_def M_def)
qed

lemma up_start_stay:
  assumes "good lt z f" "leM lt (maxlev z) (f z) (f (parent z))"
  shows "up_pre lt (Suc z) f z"
proof -
  have "holds lt f i j" if e: "edge i j" "j < Suc z" and ne: "\<not> (j = z \<and> grand i z)" for i j
  proof (cases "j = z")
    case True
    then have "i = parent z" "maxlev i = (\<not> maxlev z)"
      using e(1) ne by (auto elim!: edge_cases)
    then show ?thesis
      using assms(2) True leM_flip [of "maxlev z"] by (simp add: holds_def)
  next
    case False
    then show ?thesis
      using goodD [OF assms(1) e(1)] e(2) by (simp add: holds_def)
  qed
  moreover have "\<not> (edge z j \<and> j < Suc z)" for j
    using edge_less [of z j] by auto
  ultimately show ?thesis
    unfolding up_pre_def by blast
qed

text \<open>The search of \<^verbatim>\<open>trickleDown_\<close> finds an extreme node.\<close>

lemma better_node_extreme:
  "leM lt M (h ! better_node lt M h i s) (h ! s)"
  "i < length h \<Longrightarrow> leM lt M (h ! better_node lt M h i s) (h ! i)"
  using test_leM [of "h ! i" "h ! s" M] test_leM_not [of "h ! i" "h ! s" M]
  by (auto simp: better_node_def)

lemma grandchild_loop_step:
  "i < 4 \<Longrightarrow> l + i < length h \<Longrightarrow>
    grandchild_loop lt M h l i s = grandchild_loop lt M h l (Suc i) (better_node lt M h (l + i) s)"
  by (subst grandchild_loop.simps) (simp add: better_node_def)

lemma grandchild_loop_extreme:
  shows "leM lt M (h ! grandchild_loop lt M h l i s) (h ! s)"
    and "i \<le> k \<Longrightarrow> k < 4 \<Longrightarrow> l + k < length h
      \<Longrightarrow> leM lt M (h ! grandchild_loop lt M h l i s) (h ! (l + k))"
proof (induction "4 - i" arbitrary: i s)
  case 0
  {
    case 1
    then show ?case
      using 0 by (subst grandchild_loop.simps) simp
  next
    case 2
    then show ?case
      using 0 by simp
  }
next
  case (Suc d)
  have d: "d = 4 - Suc i" "i < 4"
    using Suc.hyps(3) by auto
  {
    case 1
    show ?case
    proof (cases "l + i < length h")
      case True
      then show ?thesis
        using leM_trans [OF Suc.hyps(1) [OF d(1)] better_node_extreme(1)] 
        by (simp add: grandchild_loop_step d(2))
    next
      case False
      then show ?thesis
        by (subst grandchild_loop.simps) simp
    qed
  next
    case 2
    then have True: "l + i < length h"
      by simp
    show ?case
    proof (cases "k = i")
      case k: True
      then show ?thesis
        using leM_trans [OF Suc.hyps(1) [OF d(1)] better_node_extreme(2) [OF True]]
        by (simp add: grandchild_loop_step [OF d(2) True])
    next
      case False
      then show ?thesis
        using Suc.hyps(2) [OF d(1)] 2
        by (simp add: grandchild_loop_step [OF d(2) True])
    qed
  }
qed

lemma smallest_node_extreme:
  assumes "j = z \<or> edge z j" "j < length h"
  shows "leM lt M (h ! smallest_node lt M h z) (h ! j)"
proof -
  define s0 where "s0 = better_node lt M h (leftChild z) z"
  define s1 where "s1 = better_node lt M h (leftChild z + 1) s0"
  define s where "s = smallest_node lt M h z"
  have s: "s = grandchild_loop lt M h (4 * z + 3) 0 s1"
    by (simp add: s_def smallest_node_def s1_def s0_def Let_def leftChild_def numeral_3_eq_3)
  have 1: "leM lt M (h ! s) (h ! s1)"
    unfolding s by (rule grandchild_loop_extreme)
  have 2: "leM lt M (h ! s) (h ! s0)"
    using 1 better_node_extreme(1) leM_trans s1_def by blast
  have z: "leM lt M (h ! s) (h ! z)"
    using 2 better_node_extreme(1) leM_trans s0_def by blast
  consider "j = z" | "j = leftChild z" | "j = leftChild z + 1"
    | k where "k < 4" "j = 4 * z + 3 + k"
    using assms(1) unfolding edge_desc2 desc2_def leftChild_def by force
  then show ?thesis
    unfolding s_def [symmetric]
  proof cases
    case 1
    then show "leM lt M (h ! s) (h ! j)"
      using z by simp
  next
    case 2
    then show "leM lt M (h ! s) (h ! j)"
      using \<open>leM lt M (h ! s) (h ! s0)\<close> better_node_extreme(2) assms(2) leM_trans s0_def by blast
  next
    case 3
    then show "leM lt M (h ! s) (h ! j)"
      using \<open>leM lt M (h ! s) (h ! s1)\<close> better_node_extreme(2) assms(2) leM_trans s1_def by blast
  next
    case 4
    then show "leM lt M (h ! s) (h ! j)"
      unfolding s using grandchild_loop_extreme(2) [of 0 k "4 * z + 3" h M s1] assms(2) by simp
  qed
qed

text \<open>
  One step down. The facts that every case uses are about a node \<^term>\<open>s\<close> that is extreme among
  \<^term>\<open>z\<close> and the nodes its edges lead to.
\<close>

lemma down_stop:
  assumes "down_pre lt n f z" "\<And>j. edge z j \<Longrightarrow> j < n \<Longrightarrow> leM lt (maxlev z) (f z) (f j)"
  shows "good lt n f"
  using assms unfolding good_def down_pre_def holds_def by blast

lemma down_into:
  assumes dn: "down_pre lt n f z" and z: "z < n" and s: "edge z s" "s < n"
    and ext: "leM lt (maxlev z) (f s) (f z)"
    and e: "edge i z"
  shows "leM lt (maxlev i) (f i) (f s)"
  using e
proof (cases rule: edge_cases)
  case child
  have "holds lt f i z"
    using dn e z edge_less [OF e] unfolding down_pre_def by blast
  then have "leM lt (maxlev z) (f z) (f i)"
    using child leM_flip [of "maxlev z"] by (simp add: holds_def)
  then show ?thesis
    using leM_trans [OF ext] child leM_flip [of "maxlev z"] by simp
next
  case grand
  then show ?thesis
    using dn s grand_level [OF grand] unfolding down_pre_def by simp
qed

lemma down_child:
  assumes dn: "down_pre lt n f z" and z: "z < n" and s: "0 < s" "parent s = z" "s < n"
    and ext: "\<And>j. j = z \<or> edge z j \<Longrightarrow> j < n \<Longrightarrow> leM lt (maxlev z) (f s) (f j)"
  shows "good lt n (swf f z s)"
  unfolding good_def
proof (intro allI impI)
  fix i j
  assume e: "edge i j" "j < n"
  define M where "M = maxlev z"
  have zs: "edge z s" "z < s" "maxlev s = (\<not> M)"
    using s by (auto simp: edge_def M_def)
  have E: "leM lt (maxlev i) (f i) (f j)" if "edge i j" "j < n" "i \<noteq> z" for i j
    using dn that by (auto simp: down_pre_def holds_def)
  have sz: "leM lt M (f s) (f z)"
    using ext z by (simp add: M_def)
  consider "i = z" | "i = s" | "j = z" | "j = s" "i \<noteq> z" | "i \<notin> {z, s}" "j \<notin> {z, s}"
    by blast
  then show "holds lt (swf f z s) i j"
  proof cases
    case 1
    then show ?thesis
      using ext [of j] e sz edge_less [OF e(1)] by (auto simp: holds_def swf_def M_def)
  next
    case 2
    then have "leM lt M (f j) (f s)"
      using E [OF e] zs leM_flip [of M] by auto
    then show ?thesis
      using 2 leM_trans [OF _ sz] zs leM_flip [of M] edge_less [OF e(1)]
      by (auto simp: holds_def swf_def)
  next
    case 3
    then show ?thesis
      using down_into [OF dn z zs(1) s(3) _ e(1) [unfolded 3]] sz edge_less [OF e(1)] zs
      by (auto simp: holds_def swf_def M_def)
  next
    case 4
    then have "i = parent z" "0 < z"
      using e(1) s by (auto simp: edge_def)
    then have "edge i z" "i < z"
      by (simp_all add: edge_def)
    then show ?thesis
      using 4 E [of i z] z zs by (auto simp: holds_def swf_def)
  next
    case 5
    then show ?thesis
      using E [OF e] by (simp add: holds_def swf_def)
  qed
qed

text \<open>
  The extreme node \<^term>\<open>s\<close> is a grandchild. Its value goes to \<^term>\<open>z\<close>; the value of \<^term>\<open>z\<close> and that
  of the parent \<^term>\<open>q\<close> of \<^term>\<open>s\<close> go to \<^term>\<open>q\<close> and \<^term>\<open>s\<close> in the order of their levels. Here
  \<^term>\<open>f2\<close> is the outcome.
\<close>

lemma down_grandchild:
  assumes dn: "down_pre lt n f z" and z: "z < n" and g: "grand z s" and s: "s < n"
    and ext: "\<And>j. j = z \<or> edge z j \<Longrightarrow> j < n \<Longrightarrow> leM lt (maxlev z) (f s) (f j)"
    and f2: "f2 z = f s" "\<And>k. k \<notin> {z, parent s, s} \<Longrightarrow> f2 k = f k"
    and f2': "f2 (parent s) = f z \<and> f2 s = f (parent s) \<or> f2 (parent s) = f (parent s) \<and> f2 s = f z"
    and ord: "leM lt (maxlev z) (f2 s) (f2 (parent s))"
  shows "down_pre lt n f2 s"
proof -
  define M where "M = maxlev z"
  define q where "q = parent s"
  have lv: "maxlev s = M" "maxlev q = (\<not> M)" "parent q = z" "0 < q"
    and lt: "z < q" "q < s" and ed: "edge z q" "edge q s" "edge z s"
    using g by (auto simp: grand_def M_def q_def edge_def)
  have E: "leM lt (maxlev i) (f i) (f j)" if "edge i j" "j < n" "i \<noteq> z" for i j
    using dn that by (auto simp: down_pre_def holds_def)
  have X: "leM lt M (f s) (f j)" if "j = z \<or> edge z j" "j < n" for j
    using ext that by (simp add: M_def)
  have qs: "leM lt M (f2 s) (f2 q)" "f2 q = f z \<and> f2 s = f q \<or> f2 q = f q \<and> f2 s = f z"
    using ord f2' by (simp_all add: M_def q_def)
  have same: "f2 k = f k" if "k \<notin> {z, q, s}" for k
    using f2(2) that by (simp add: q_def)
  have low: "leM lt M (f s) (f2 q)" "leM lt M (f s) (f2 s)"
    using qs(2) X [of z] X [of q] z s lt ed by auto
  have top: "leM lt M (f q) (f2 q)"
    using qs by auto
  have "holds lt f2 i j" if e: "edge i j" "j < n" and ne: "i \<noteq> s" for i j
  proof -
    consider "i = z" | "i = q" "j = s" | "i = q" "j \<noteq> s" | "j = z" | "j \<in> {q, s}" "i \<notin> {z, q}"
      | "i \<notin> {z, q, s}" "j \<notin> {z, q, s}"
      using ne by blast
    then show ?thesis
    proof cases
      case 1
      have "leM lt M (f s) (f2 j)"
        using X [of j] e 1 low same edge_less [OF e(1)] by (cases "j \<in> {q, s}") auto
      then show ?thesis
        using 1 by (simp add: holds_def f2 M_def)
    next
      case 2
      then show ?thesis
        using qs(1) lv leM_flip [of M] by (simp add: holds_def)
    next
      case 3
      then have "leM lt M (f j) (f q)"
        using E [OF e] lv lt leM_flip [of M] by auto
      then have "leM lt M (f j) (f2 q)"
        using leM_trans top by blast
      then show ?thesis
        using 3 lv lt leM_flip [of M] same [of j] edge_less [OF e(1)] by (auto simp: holds_def)
    next
      case 4
      then have "i \<notin> {z, q, s}" "leM lt (maxlev i) (f i) (f s)"
        using down_into [OF dn z ed(3) s _ e(1) [unfolded 4]] X [of z] z lt edge_less [OF e(1)]
        by (auto simp: M_def)
      then show ?thesis
        using 4 f2 same by (simp add: holds_def)
    next
      case 5
      have "j \<noteq> s"
        using 5 e(1) g by (auto simp: edge_def q_def grand_def)
      then have i: "j = q" "i = parent z" "0 < z"
        using 5 e(1) lv by (auto simp: edge_def)
      then have "edge i z" "i < z"
        by (simp_all add: edge_def)
      then have "leM lt (maxlev i) (f i) (f z)" "leM lt (maxlev i) (f i) (f q)"
        using E [of i z] E [OF e] z i(1) less_imp_neq [OF \<open>i < z\<close>] by simp_all
      then show ?thesis
        using 5 i qs(2) same [of i] \<open>i < z\<close> lt by (auto simp: holds_def)
    next
      case 6
      then show ?thesis
        using E [OF e] same by (simp add: holds_def)
    qed
  qed
  moreover have "leM lt M (f2 z) (f2 j)" if "edge s j" "j < n" for j
    using E [OF that] lv lt edge_less [OF that(1)] same [of j] f2 by auto
  ultimately show ?thesis
    using lv(1) unfolding down_pre_def by (auto dest: grand_unique [OF g])
qed

text \<open>The operations keep the elements and restore the order.\<close>

lemma trickleUp_aux_mset:
  "z < length h \<Longrightarrow> mset (trickleUp_aux lt M z h) = mset h"
proof (induction z arbitrary: h rule: less_induct)
  case (less z)
  then show ?case
    using less_trans [OF parent_parent_less [of z]]
    by (subst trickleUp_aux.simps) (auto simp: Let_def)
qed

lemma trickleUp_aux_good:
  assumes "up_pre lt (length h) ((!) h) z" "z < length h" "M = maxlev z"
  shows "min_max_ordered lt (trickleUp_aux lt M z h)"
  using assms
proof (induction z arbitrary: h rule: less_induct)
  case (less z)
  show ?case
  proof (cases "0 < z \<and> 0 < parent z")
    case False
    then have "\<not> grand g z" for g
      by (auto simp: grand_def)
    then have "min_max_ordered lt h"
      using up_step_good [OF less.prems(1)] by (simp add: min_max_ordered_good)
    then show ?thesis
      using False by (subst trickleUp_aux.simps) auto
  next
    case True
    define g where "g = parent (parent z)"
    have g: "grand g z" "g < z" "maxlev g = M"
      using True less.prems(3) by (auto simp: grand_def g_def)
    show ?thesis
    proof (cases "lt (h ! z) (h ! g) \<noteq> M")
      case t: True
      have "up_pre lt (length h) ((!) (swap_at h g z)) g"
        using up_step [OF less.prems(1) g(1) less.prems(2)] test_leM [OF t] less.prems(2,3) g(2)
        by (simp add: nth_swap_at)
      then have "min_max_ordered lt (trickleUp_aux lt M g (swap_at h g z))"
        using less.IH [OF g(2), of "swap_at h g z"] less.prems(2) g by simp
      then show ?thesis
        using True t by (subst trickleUp_aux.simps) (simp add: g_def Let_def)
    next
      case f: False
      have "min_max_ordered lt h"
        unfolding min_max_ordered_good
        using test_leM_not [OF f] less.prems(3) grand_unique [OF g(1)]
        by (intro up_step_good [OF less.prems(1)]) auto
      then show ?thesis
        using True f by (subst trickleUp_aux.simps) (simp add: g_def Let_def)
    qed
  qed
qed

lemma good_less: "good lt n f \<Longrightarrow> m \<le> n \<Longrightarrow> good lt m f"
  by (meson good_def less_le_trans)

lemma good_cong: "good lt n f \<Longrightarrow> (\<And>k. k < n \<Longrightarrow> f k = f' k) \<Longrightarrow> good lt n f'"
  unfolding good_def holds_def using edge_less less_trans by metis

lemma trickleUp_ok:
  assumes gd: "good lt z ((!) h)" and len: "length h = Suc z"
  shows "\<exists>h'. trickleUp lt z h = Inr h' \<and> min_max_ordered lt h' \<and> mset h' = mset h"
proof (cases "z = 0")
  case True
  then have "min_max_ordered lt h"
    using len by (auto simp: min_max_ordered_def)
  then show ?thesis
    using True by (simp add: trickleUp_def)
next
  case False
  define p where "p = parent z"
  define M where "M = maxlev p"
  have p: "p < z" "M = (\<not> maxlev z)"
    using False by (auto simp: p_def M_def)
  have tr: "trickleUp lt z h =
      Inr (if (if M then lt (h ! p) (h ! z) else lt (h ! z) (h ! p))
           then trickleUp_aux lt M p (swap_at h p z) else trickleUp_aux lt (\<not> M) z h)"
    using False p by (simp add: trickleUp_def p_def [symmetric] Let_def split: bool.split)
  show ?thesis
  proof (cases "if M then lt (h ! p) (h ! z) else lt (h ! z) (h ! p)")
    case True
    then have "leM lt M (h ! z) (h ! p)"
      using lt_asym by (auto simp: leM_def split: if_splits)
    then have "up_pre lt (Suc z) ((!) (swap_at h p z)) p"
      using up_start_swap [OF gd] False p len by (simp add: nth_swap_at p_def)
    then show ?thesis
      using True tr trickleUp_aux_good [of "swap_at h p z" p M] trickleUp_aux_mset [of p "swap_at h p z" M]
        p len by (simp add: M_def)
  next
    case f: False
    then have "leM lt (\<not> M) (h ! z) (h ! p)"
      by (auto simp: leM_def split: if_splits)
    then have "up_pre lt (Suc z) ((!) h) z"
      using up_start_stay [OF gd] p by (simp add: p_def)
    then show ?thesis
      using f tr trickleUp_aux_good [of h z "\<not> M"] trickleUp_aux_mset [of z h "\<not> M"] p len
      by simp
  qed
qed

lemma heap_push_ok:
  assumes "min_max_ordered lt h"
  shows "\<exists>h'. heap_push lt x h = Inr h' \<and> min_max_ordered lt h' \<and> mset h' = add_mset x (mset h)"
proof -
  have "good lt (length h) ((!) (h @ [x]))"
    using assms good_cong [of "length h" "(!) h" "(!) (h @ [x])"]
    by (simp add: min_max_ordered_good nth_append)
  then show ?thesis
    using trickleUp_ok [of "length h" "h @ [x]"] by (simp add: heap_push_def)
qed

lemma edge_grandchild:
  assumes "edge z s" "s - leftChild z > 1"
  shows "grand z s"
  using assms(1)
proof (cases rule: edge_cases)
  case child
  then show ?thesis
    using assms(2) parent_eq_iff [of s z] by (auto simp: leftChild_def)
qed

lemma edge_child:
  assumes "edge z s" "\<not> s - leftChild z > 1"
  shows "parent s = z"
  using assms by (auto simp: edge_desc2 desc2_def leftChild_def parent_def)

text \<open>The element that the second swap leaves at the grandchild is in order with its parent.\<close>

lemma second_swap:
  assumes "h1 = swap_at h z s" "z < parent s" "parent s < s" "s < length h"
    and "h2 = (if lt (h1 ! parent s) (h1 ! s) \<noteq> M then swap_at h1 (parent s) s else h1)"
  shows "length h2 = length h" "mset h2 = mset h" "h2 ! z = h ! s"
    "k \<notin> {z, parent s, s} \<Longrightarrow> h2 ! k = h ! k"
    "h2 ! parent s = h ! z \<and> h2 ! s = h ! parent s
      \<or> h2 ! parent s = h ! parent s \<and> h2 ! s = h ! z"
    "leM lt M (h2 ! s) (h2 ! parent s)"
  using assms test_leM [of "h1 ! parent s" "h1 ! s" M] test_leM_not [of "h1 ! parent s" "h1 ! s" M]
  by (auto simp: nth_swap_at swf_def)

lemma trickleDown_aux_ok:
  assumes "down_pre lt (length h) ((!) h) z" "z < length h" "M = maxlev z"
  shows "\<exists>h'. trickleDown_aux lt M z h = Inr h' \<and> min_max_ordered lt h' \<and> mset h' = mset h"
  using assms
proof (induction "length h - z" arbitrary: h z rule: less_induct)
  case less
  define s where "s = smallest_node lt M h z"
  have ext: "leM lt M (h ! s) (h ! j)" if "j = z \<or> edge z j" "j < length h" for j
    using smallest_node_extreme [OF that] by (simp add: s_def)
  have s: "s = z \<or> edge z s \<and> s < length h"
    using smallest_node_cases [of lt M h z] by (simp add: s_def edge_desc2)
  note unfold = trickleDown_aux.simps [of lt M z h, folded s_def]
  show ?case
  proof (cases "s = z")
    case True
    then have "min_max_ordered lt h"
      using down_stop [OF less.prems(1)] ext less.prems(3) by (simp add: min_max_ordered_good)
    then show ?thesis
      using True less.prems(2) by (simp add: unfold)
  next
    case False
    then have e: "edge z s" "s < length h" "z < s" "0 < s"
      using s edge_less [of z s] by auto
    define h1 where "h1 = swap_at h z s"
    show ?thesis
    proof (cases "s - leftChild z > 1")
      case child: False
      have "min_max_ordered lt h1"
        unfolding min_max_ordered_good
        using down_child [OF less.prems(1,2) e(4) edge_child [OF e(1) child] e(2)] ext less.prems(2,3)
          e(2) by (simp add: h1_def nth_swap_at)
      then show ?thesis
        using False child less.prems(2) e(2) by (simp add: unfold h1_def)
    next
      case True
      have g: "grand z s"
        using edge_grandchild [OF e(1) True] .
      define h2 where
        "h2 = (if lt (h1 ! parent s) (h1 ! s) \<noteq> M then swap_at h1 (parent s) s else h1)"
      have p: "z < parent s" "parent s < s"
        using g by (auto simp: grand_def)
      note h2 = second_swap [OF h1_def p e(2) h2_def]
      have "down_pre lt (length h) ((!) h2) s"
        by (rule down_grandchild [OF less.prems(1,2) g e(2)])
          (use ext less.prems(3) h2 in auto)
      then have "\<exists>h'. trickleDown_aux lt M s h2 = Inr h' \<and> min_max_ordered lt h' \<and> mset h' = mset h2"
        using less.hyps [of h2 s] h2(1) e(2,3) grand_level [OF g] less.prems(3) by auto
      moreover have "trickleDown_aux lt M z h = trickleDown_aux lt M s h2"
        using False True less.prems(2) unfolding unfold h2_def h1_def Let_def by simp
      ultimately show ?thesis
        using h2(2) by simp
    qed
  qed
qed

lemma delete_down_pre:
  assumes gd: "min_max_ordered lt h" and z: "parent z = 0" "z < length h - 1"
  defines "h1 \<equiv> butlast (swap_at h z (length h - 1))"
  shows "down_pre lt (length h1) ((!) h1) z" "length h1 = length h - 1"
    "mset h1 = mset h - {#h ! z#}"
proof -
  define n where "n = length h - 1"
  have n: "length h = Suc n" "z < n"
    using z by (auto simp: n_def)
  show len: "length h1 = length h - 1"
    by (simp add: h1_def)
  have h1: "h1 ! k = (if k = z then h ! n else h ! k)" if "k < n" for k
    using that n by (simp add: h1_def nth_butlast nth_swap_at swf_def)
  have nonempty: "swap_at h z n \<noteq> []"
    using n length_swap_at [of h z n] by (metis Zero_not_Suc list.size(3))
  have last: "last (swap_at h z n) = h ! z"
    using n nonempty by (subst last_conv_nth) (auto simp: nth_swap_at swf_def)
  have "swap_at h z n = h1 @ [h ! z]"
    using last n append_butlast_last_id [OF nonempty] by (simp add: h1_def)
  then have "mset h = add_mset (h ! z) (mset h1)"
    using mset_swap_at [of z h n] n by simp
  then show "mset h1 = mset h - {#h ! z#}"
    by simp
  have E: "leM lt (maxlev i) (h ! i) (h ! j)" if "edge i j" "j < Suc n" for i j
    using goodD that gd n by (auto simp: min_max_ordered_good)
  have root: "leM lt True (h ! 0) (h ! n)"
    using good_root_greatest [of "Suc n" "(!) h" n] gd n by (simp add: min_max_ordered_good leM_def)
  have "holds lt ((!) h1) i j" if e: "edge i j" "j < n" "i \<noteq> z" for i j
  proof (cases "j = z")
    case True
    then have "i = 0" "0 < z"
      using e(1) z by (auto simp: edge_def)
    then show ?thesis
      using root n True e h1 by (simp add: holds_def)
  next
    case False
    then show ?thesis
      using E [OF e(1)] e h1 edge_less [OF e(1)] by (simp add: holds_def)
  qed
  moreover have "\<not> grand g z" for g
    using z by (simp add: grand_def)
  ultimately show "down_pre lt (length h1) ((!) h1) z"
    using len by (simp add: down_pre_def n_def)
qed

lemma butlast_ordered: "min_max_ordered lt h \<Longrightarrow> min_max_ordered lt (butlast h)"
  using good_less [of "length h" "(!) h" "length h - 1"]
    good_cong [of "length h - 1" "(!) h" "(!) (butlast h)"]
  by (simp add: min_max_ordered_good nth_butlast)

lemma mset_butlast: "h \<noteq> [] \<Longrightarrow> mset (butlast h) = mset h - {#h ! (length h - 1)#}"
  by (cases h rule: rev_cases) (simp_all add: nth_append)

lemma deleteElement_ok:
  assumes "min_max_ordered lt h" "parent z = 0" "z < length h"
  shows "\<exists>h'. deleteElement lt z h = Inr h' \<and> min_max_ordered lt h' \<and> mset h' = mset h - {#h ! z#}"
proof (cases "z = length h - 1")
  case True
  moreover have "h \<noteq> []"
    using assms(3) by auto
  moreover have "\<not> length h \<le> z"
    using assms(3) by simp
  ultimately show ?thesis
    using butlast_ordered [OF assms(1)] mset_butlast [of h] by (simp add: deleteElement_def)
next
  case False
  then have z: "z < length h - 1"
    using assms(3) by simp
  then show ?thesis
    using trickleDown_aux_ok [OF delete_down_pre(1) [OF assms(1,2) z]]
      delete_down_pre(2,3) [OF assms(1,2) z] assms(3) False
    by (simp add: deleteElement_def trickleDown_def)
qed

lemma in_mset_nth: "y \<in># mset h \<Longrightarrow> \<exists>j<length h. y = h ! j"
  by (auto simp: in_set_conv_nth)

lemma findMax_ok:
  assumes "min_max_ordered lt h" "h \<noteq> []"
  shows "findMax h = Inr (h ! 0) \<and> (\<forall>y\<in>#mset h. \<not> lt (h ! 0) y)"
  using assms good_root_greatest [of "length h" "(!) h"] in_mset_nth [of _ h]
  by (auto simp: findMax_def heap_empty_def min_max_ordered_good)

lemma findMinIndex_ok:
  assumes ord: "min_max_ordered lt h" and ne: "h \<noteq> []"
  shows "\<exists>i. findMinIndex lt h = Inr i \<and> i < length h \<and> parent i = 0
    \<and> (\<forall>y\<in>#mset h. \<not> lt y (h ! i))"
proof -
  define n where "n = length h"
  define i where "i = (if n = 1 then 0 else if n = 2 then 1 else if lt (h ! 1) (h ! 2) then 1 else 2 :: nat)"
  have n: "0 < n"
    using ne by (simp add: n_def)
  have i: "findMinIndex lt h = Inr i" "i < n" "parent i = 0"
    using n by (auto simp: findMinIndex_def i_def parent_def simp flip: n_def length_0_conv)
  have gd: "good lt n ((!) h)"
    using ord by (simp add: n_def min_max_ordered_good)
  have child: "\<not> lt (h ! k) (h ! i)" if "k \<in> {1, 2}" "k < n" for k
    using that lt_asym [of "h ! 1" "h ! 2"] by (auto simp: i_def)
  have pos: "\<not> lt (h ! j) (h ! i)" if "0 < j" "j < n" for j
  proof -
    have "\<exists>k\<in>{1, 2}. k \<le> j \<and> \<not> lt (h ! j) (h ! k)"
      using good_children_least [OF gd that] .
    then obtain k where k: "k \<in> {1, 2}" "k \<le> j" "\<not> lt (h ! j) (h ! k)"
      by blast
    then have "\<not> lt (h ! k) (h ! i)"
      using child le_less_trans [OF k(2) that(2)] by blast
    then show ?thesis
      using k(3) nlt_trans by blast
  qed
  have root: "\<not> lt (h ! 0) (h ! i)"
    using good_root_greatest [OF gd i(2)] .
  have "\<not> lt (h ! j) (h ! i)" if "j < n" for j
    using pos root that by (cases "j = 0") auto
  then show ?thesis
    using i in_mset_nth [of _ h] unfolding n_def by blast
qed

lemma findMin_ok:
  assumes "min_max_ordered lt h" "h \<noteq> []"
  shows "\<exists>x\<in>#mset h. findMin lt h = Inr x \<and> (\<forall>y\<in>#mset h. \<not> lt y x)"
  using findMinIndex_ok [OF assms] by (auto simp: findMin_def)

lemma popMin_ok:
  assumes "min_max_ordered lt h" "h \<noteq> []"
  shows "\<exists>x h'. popMin lt h = Inr (x, h') \<and> findMin lt h = Inr x \<and> min_max_ordered lt h'
    \<and> x \<in># mset h \<and> mset h' = mset h - {#x#}"
proof -
  obtain i where i: "findMinIndex lt h = Inr i" "i < length h" "parent i = 0"
    using findMinIndex_ok [OF assms] by blast
  then show ?thesis
    using deleteElement_ok [OF assms(1) i(3,2)] assms(2)
    by (auto simp: popMin_def findMin_def)
qed

lemma popMax_ok:
  assumes "min_max_ordered lt h" "h \<noteq> []"
  shows "\<exists>x h'. popMax lt h = Inr (x, h') \<and> findMax h = Inr x \<and> min_max_ordered lt h'
    \<and> x \<in># mset h \<and> mset h' = mset h - {#x#}"
  using deleteElement_ok [of h 0] assms
  by (auto simp: popMax_def findMax_def heap_empty_def parent_def)

end

section \<open>The interface\<close>

text \<open>The multiset \<^term>\<open>kept\<close> holds the best \<^term>\<open>cap\<close> elements of \<^term>\<open>all\<close>.\<close>

definition best_of :: "('a \<Rightarrow> 'a \<Rightarrow> bool) \<Rightarrow> nat \<Rightarrow> 'a multiset \<Rightarrow> 'a multiset \<Rightarrow> bool" where
  "best_of lt cap all kept =
    (kept \<subseteq># all \<and> size kept = min cap (size all)
     \<and> (\<forall>y\<in>#kept. \<forall>x\<in>#all - kept. \<not> lt y x))"

context strict_weak_order
begin

lemma best_of_push:
  assumes best: "best_of lt cap all kept" and y: "y \<in># add_mset x kept"
    and min: "\<And>z. z \<in># add_mset x kept \<Longrightarrow> \<not> lt z y"
    and full: "cap < size (add_mset x kept)"
  shows "best_of lt cap (add_mset x all) (add_mset x kept - {#y#})"
proof -
  define new where "new = add_mset x kept - {#y#}"
  have sub: "kept \<subseteq># all" and sz: "size kept = min cap (size all)"
    and ord: "\<And>u v. u \<in># kept \<Longrightarrow> v \<in># all - kept \<Longrightarrow> \<not> lt u v"
    using best by (auto simp: best_of_def)
  have cap: "size kept = cap" "cap \<le> size all"
    using sz full by auto
  have xk: "add_mset x kept = add_mset y new"
    using y by (simp add: new_def)
  then have "size (add_mset x kept) = size (add_mset y new)"
    by simp
  then have "size new = cap"
    using cap by simp
  moreover have "add_mset y new \<subseteq># add_mset x all"
    using sub by (simp flip: xk)
  then have "new \<subset># add_mset x all"
    by (rule mset_subset_eq_insertD [THEN conjunct2])
  then have "new \<subseteq># add_mset x all"
    by (rule subset_mset.less_imp_le)
  moreover have rest: "add_mset x all - new = add_mset y (all - kept)"
  proof -
    have "add_mset x all = add_mset x kept + (all - kept)"
      using sub by simp
    then show ?thesis
      by (simp add: xk)
  qed
  have "\<not> lt u v" if "u \<in># new" "v \<in># add_mset x all - new" for u v
  proof -
    have u: "\<not> lt u y" "u \<in># add_mset x kept"
      using that(1) min [of u] by (simp_all add: xk)
    show ?thesis
    proof (cases "v = y")
      case True
      then show ?thesis
        using u by simp
    next
      case False
      then have v: "v \<in># all - kept"
        using that(2) by (simp add: rest)
      show ?thesis
      proof (cases "y \<in># kept")
        case True
        then show ?thesis
          using ord v u nlt_trans by blast
      next
        case no: False
        then have "new = kept"
          using y by (simp add: new_def)
        then show ?thesis
          using that(1) v ord by blast
      qed
    qed
  qed
  ultimately show ?thesis
    using cap unfolding best_of_def new_def by auto
qed

end

text \<open>
  What the clients of the heap rely on: a container of a multiset of elements from which a
  least and a greatest element can be read and removed.
\<close>

locale double_ended_queue = strict_weak_order lt
  for lt :: "'a \<Rightarrow> 'a \<Rightarrow> bool" +
  fixes new :: 'q
    and is_empty :: "'q \<Rightarrow> bool"
    and count_of :: "'q \<Rightarrow> nat"
    and push :: "'a \<Rightarrow> 'q \<Rightarrow> 'e + 'q"
    and find_min :: "'q \<Rightarrow> 'e + 'a"
    and find_max :: "'q \<Rightarrow> 'e + 'a"
    and pop_min :: "'q \<Rightarrow> 'e + 'a \<times> 'q"
    and pop_max :: "'q \<Rightarrow> 'e + 'a \<times> 'q"
    and invar :: "'q \<Rightarrow> bool"
    and elems :: "'q \<Rightarrow> 'a multiset"
  assumes new_ok: "invar new" "elems new = {#}"
    and is_empty_ok: "is_empty q = (elems q = {#})"
    and count_ok: "count_of q = size (elems q)"
    and push_ok: "invar q \<Longrightarrow>
      \<exists>q'. push x q = Inr q' \<and> invar q' \<and> elems q' = add_mset x (elems q)"
    and find_min_ok: "invar q \<Longrightarrow> elems q \<noteq> {#} \<Longrightarrow>
      \<exists>x\<in>#elems q. find_min q = Inr x \<and> (\<forall>y\<in>#elems q. \<not> lt y x)"
    and find_max_ok: "invar q \<Longrightarrow> elems q \<noteq> {#} \<Longrightarrow>
      \<exists>x\<in>#elems q. find_max q = Inr x \<and> (\<forall>y\<in>#elems q. \<not> lt x y)"
    and pop_min_ok: "invar q \<Longrightarrow> elems q \<noteq> {#} \<Longrightarrow>
      \<exists>x q'. pop_min q = Inr (x, q') \<and> find_min q = Inr x \<and> invar q'
        \<and> x \<in># elems q \<and> elems q' = elems q - {#x#}"
    and pop_max_ok: "invar q \<Longrightarrow> elems q \<noteq> {#} \<Longrightarrow>
      \<exists>x q'. pop_max q = Inr (x, q') \<and> find_max q = Inr x \<and> invar q'
        \<and> x \<in># elems q \<and> elems q' = elems q - {#x#}"
begin

text \<open>
  Adding an element to a queue of bounded size and removing a least one when the bound is
  passed: if the queue held the best elements seen so far, it does so afterwards.
\<close>

lemma push_pop_keeps_best:
  assumes q: "invar q" and best: "best_of lt cap all (elems q)"
  shows "\<exists>q'. push x q = Inr q' \<and> invar q'
    \<and> (if cap < count_of q'
       then \<exists>y q''. pop_min q' = Inr (y, q'') \<and> invar q'' \<and> best_of lt cap (add_mset x all) (elems q'')
       else best_of lt cap (add_mset x all) (elems q'))"
proof -
  obtain q' where q': "push x q = Inr q'" "invar q'" "elems q' = add_mset x (elems q)"
    using push_ok [OF q] by blast
  have sub: "elems q \<subseteq># all" and sz: "size (elems q) = min cap (size all)"
    using best by (auto simp: best_of_def)
  show ?thesis
  proof (cases "cap < count_of q'")
    case True
    then obtain y q'' where y: "pop_min q' = Inr (y, q'')" "find_min q' = Inr y" "invar q''"
      "y \<in># elems q'" "elems q'' = elems q' - {#y#}"
      using pop_min_ok [OF q'(2)] q'(3) by auto
    have min: "\<not> lt z y" if "z \<in># elems q'" for z
      using find_min_ok [OF q'(2)] y(2) that q'(3) by auto
    have "best_of lt cap (add_mset x all) (elems q'')"
      using best_of_push [OF best, of y x] y min q'(3) True
      by (simp add: count_ok)
    then show ?thesis
      using True q' y by auto
  next
    case False
    then have "size (elems q) < cap"
      using q'(3) by (simp add: count_ok)
    then have "elems q = all"
      using sz sub mset_subset_size [of "elems q" all] by (auto simp: min_def subset_mset_def split: if_splits)
    then have "best_of lt cap (add_mset x all) (elems q')"
      using \<open>size (elems q) < cap\<close> q'(3) by (simp add: best_of_def)
    then show ?thesis
      using False q' by auto
  qed
qed

text \<open>The next greatest element is at least as great as all that remain.\<close>

lemma pop_max_next:
  assumes "invar q" "elems q \<noteq> {#}"
  obtains x q' where "pop_max q = Inr (x, q')" "invar q'" "elems q = add_mset x (elems q')"
    "\<forall>y\<in>#elems q'. \<not> lt x y"
proof -
  obtain x q' where x: "pop_max q = Inr (x, q')" "find_max q = Inr x" "invar q'"
    "x \<in># elems q" "elems q' = elems q - {#x#}"
    using pop_max_ok [OF assms] by blast
  moreover have "\<forall>y\<in>#elems q. \<not> lt x y"
    using find_max_ok [OF assms] x(2) by auto
  ultimately show thesis
    using that by (metis in_diffD insert_DiffM)
qed

end

sublocale strict_weak_order \<subseteq> heap: double_ended_queue lt "[]" heap_empty heap_size
  "heap_push lt" "findMin lt" findMax "popMin lt" "popMax lt" "min_max_ordered lt" mset
proof unfold_locales
  show "min_max_ordered lt []"
    by (simp add: min_max_ordered_def)
  fix h
  assume h: "min_max_ordered lt h" "mset h \<noteq> {#}"
  have "h ! 0 \<in># mset h"
    using h(2) by (cases h) auto
  then show "\<exists>x\<in>#mset h. findMax h = Inr x \<and> (\<forall>y\<in>#mset h. \<not> lt x y)"
    using findMax_ok [OF h(1)] h(2) by auto
qed (simp_all add: heap_empty_def heap_size_def heap_push_ok findMin_ok popMin_ok popMax_ok
    del: set_mset_mset)

text \<open>Orders that the heap is used with start from the one of a linearly ordered type.\<close>

interpretation linorder_lt: strict_weak_order "(<) :: 'a::linorder \<Rightarrow> 'a \<Rightarrow> bool"
  by unfold_locales auto

text \<open>Whatever the elements are, an operation changes the size as expected.\<close>

lemma trickleDown_aux_length: "trickleDown_aux lt M z h = Inr h' \<Longrightarrow> length h' = length h"
proof (induction "length h - z" arbitrary: z h rule: less_induct)
  case less
  define s where "s = smallest_node lt M h z"
  note unfold = trickleDown_aux.simps [of lt M z h, folded s_def]
  have z: "z < length h"
    using less.prems unfold by (simp split: if_splits)
  show ?case
  proof (cases "z \<noteq> s \<and> s - leftChild z > 1")
    case True
    define h1 where "h1 = swap_at h z s"
    define h2 where
      "h2 = (if lt (h1 ! parent s) (h1 ! s) \<noteq> M then swap_at h1 (parent s) s else h1)"
    have "trickleDown_aux lt M z h = trickleDown_aux lt M s h2"
      using True z unfolding unfold h2_def h1_def Let_def by simp
    moreover have "length h2 = length h"
      by (simp add: h2_def h1_def)
    moreover have "length h - s < length h - z"
      using smallest_node_measure [of lt M h z] True by (simp add: s_def)
    ultimately show ?thesis
      using less.hyps [of h2 s] less.prems by simp
  next
    case False
    then show ?thesis
      using less.prems z by (auto simp: unfold Let_def split: if_splits)
  qed
qed

lemma deleteElement_length: "deleteElement lt z h = Inr h' \<Longrightarrow> length h = Suc (length h')"
  by (cases h rule: rev_cases)
    (auto simp: deleteElement_def trickleDown_def dest!: trickleDown_aux_length split: if_splits)

lemma popMax_length: "popMax lt h = Inr (x, h') \<Longrightarrow> length h = Suc (length h')"
  using deleteElement_length [of lt 0 h]
  by (auto simp: popMax_def Let_def split: if_splits sum.splits)

section \<open>32-bit indices\<close>

text \<open>The index computations of the code, at the width of \<^verbatim>\<open>unsigned int\<close>.\<close>

definition parent32 :: "u32 \<Rightarrow> u32" where
  "parent32 zindex = (zindex - 1) div 2"

definition leftChild32 :: "u32 \<Rightarrow> u32" where
  "leftChild32 zindex = 2 * zindex + 1"

definition rightChild32 :: "u32 \<Rightarrow> u32" where
  "rightChild32 zindex = 2 * zindex + 2"

lemma unat_leftChild32:
  assumes "unat z < 2 ^ 31"
  shows "unat (leftChild32 z) = leftChild (unat z)"
proof -
  have "unat (2 * z) = 2 * unat z"
    using assms by (simp add: unat_word_ariths unat_of_nat)
  then show ?thesis
    using assms unfolding leftChild32_def leftChild_def by (simp add: unat_word_ariths)
qed

lemma unat_parent32: "z \<noteq> 0 \<Longrightarrow> unat (parent32 z) = parent (unat z)"
  unfolding parent32_def parent_def
  by (simp add: unat_div unat_minus_one)

section \<open>Properties\<close>

text \<open>
  C18: Adding an element never fails, keeps the order of the heap, and adds exactly that element.
\<close>

theorem heap_push_invariant:
  assumes "strict_weak_order lt" "min_max_ordered lt h"
  shows "\<exists>h'. heap_push lt x h = Inr h' \<and> min_max_ordered lt h' \<and> mset h' = add_mset x (mset h)"
  using strict_weak_order.heap_push_ok [OF assms] .

lemma example_heap_ordered: "min_max_ordered (<) [9, 2, 1 :: int, 7, 8]"
  by (simp add: min_max_ordered_def All_less_Suc edge_def parent_def leM_def maxlev_rec)

theorem heap_push_invariant_witness:
  "\<exists>h'. heap_push (<) 10 [9, 2, 1 :: int, 7, 8] = Inr h' \<and> min_max_ordered (<) h'
     \<and> mset h' = add_mset 10 (mset [9, 2, 1, 7, 8])"
  using heap_push_invariant [OF linorder_lt.strict_weak_order_axioms example_heap_ordered] .

text \<open>
  C19: On a nonempty heap the two removals never fail: they return a least and a greatest
  element, the ones the queries show, take just that element out and keep the order of the heap.
\<close>

theorem heap_pop_extremes:
  assumes "strict_weak_order lt" "min_max_ordered lt h" "h \<noteq> []"
  shows "(\<exists>x h'. popMin lt h = Inr (x, h') \<and> findMin lt h = Inr x \<and> min_max_ordered lt h'
            \<and> mset h = add_mset x (mset h') \<and> (\<forall>y\<in>#mset h. \<not> lt y x))
         \<and> (\<exists>x h'. popMax lt h = Inr (x, h') \<and> findMax h = Inr x \<and> min_max_ordered lt h'
            \<and> mset h = add_mset x (mset h') \<and> (\<forall>y\<in>#mset h. \<not> lt x y))"
proof
  obtain x h' where x: "popMin lt h = Inr (x, h')" "findMin lt h = Inr x" "min_max_ordered lt h'"
    "x \<in># mset h" "mset h' = mset h - {#x#}"
    using strict_weak_order.popMin_ok [OF assms] by blast
  moreover have "\<forall>y\<in>#mset h. \<not> lt y x"
    using strict_weak_order.findMin_ok [OF assms] x(2) by auto
  ultimately show "\<exists>x h'. popMin lt h = Inr (x, h') \<and> findMin lt h = Inr x \<and> min_max_ordered lt h'
      \<and> mset h = add_mset x (mset h') \<and> (\<forall>y\<in>#mset h. \<not> lt y x)"
    using insert_DiffM by metis
next
  obtain x h' where x: "popMax lt h = Inr (x, h')" "findMax h = Inr x" "min_max_ordered lt h'"
    "x \<in># mset h" "mset h' = mset h - {#x#}"
    using strict_weak_order.popMax_ok [OF assms] by blast
  moreover have "\<forall>y\<in>#mset h. \<not> lt x y"
    using strict_weak_order.findMax_ok [OF assms] x(2) by auto
  ultimately show "\<exists>x h'. popMax lt h = Inr (x, h') \<and> findMax h = Inr x \<and> min_max_ordered lt h'
      \<and> mset h = add_mset x (mset h') \<and> (\<forall>y\<in>#mset h. \<not> lt x y)"
    using insert_DiffM by metis
qed

theorem heap_pop_extremes_witness:
  "(\<exists>x h'. popMin (<) [9, 2, 1 :: int, 7, 8] = Inr (x, h')
      \<and> findMin (<) [9, 2, 1, 7, 8] = Inr x \<and> min_max_ordered (<) h'
      \<and> mset [9, 2, 1, 7, 8] = add_mset x (mset h')
      \<and> x \<le> 9 \<and> x \<le> 2 \<and> x \<le> 1 \<and> x \<le> 7 \<and> x \<le> 8)
   \<and> (\<exists>x h'. popMax (<) [9, 2, 1 :: int, 7, 8] = Inr (x, h')
      \<and> findMax [9, 2, 1, 7, 8] = Inr x \<and> min_max_ordered (<) h'
      \<and> mset [9, 2, 1, 7, 8] = add_mset x (mset h')
      \<and> 9 \<le> x \<and> 2 \<le> x \<and> 1 \<le> x \<and> 7 \<le> x \<and> 8 \<le> x)"
  using heap_pop_extremes [OF linorder_lt.strict_weak_order_axioms example_heap_ordered]
  by (simp add: not_less)

text \<open>
  The exceptions: queries and removals on an empty heap raise an underflow error, deleting
  or moving an element that does not exist raises one too or an invalid argument error, and
  there is no logarithm of zero.
\<close>

theorem heap_errors:
  "findMax ([] :: 'a list) = Inl Underflow_error \<and> findMin lt ([] :: 'a list) = Inl Underflow_error
   \<and> popMax lt ([] :: 'a list) = Inl Underflow_error \<and> popMin lt ([] :: 'a list) = Inl Underflow_error
   \<and> deleteElement lt (length h + k) (h :: 'a list) = Inl Underflow_error
   \<and> trickleDown lt (length h + k) h = Inl Invalid_argument
   \<and> log2 0 = Inl Domain_error"
  by (simp add: findMax_def heap_empty_def findMin_def findMinIndex_def popMax_def popMin_def
      deleteElement_def trickleDown_def trickleDown_aux.simps log2_def)

text \<open>
  In a heap of at most $2^{30}$ elements the index computations at 32 bits do not wrap around:
  they give the indices of the model.
\<close>

theorem heap_indices_fit:
  assumes "unat z < n" "n \<le> 2 ^ 30"
  shows "unat (leftChild32 z) = leftChild (unat z)
    \<and> unat (leftChild32 z + 1) = leftChild (unat z) + 1
    \<and> unat (rightChild32 z) = rightChild (unat z)
    \<and> unat (leftChild32 (leftChild32 z)) = leftChild (leftChild (unat z))
    \<and> unat (parent32 (leftChild32 z)) = unat z \<and> unat (parent32 (rightChild32 z)) = unat z"
proof -
  have z: "unat z < 2 ^ 31"
    using assms by simp
  have l: "unat (leftChild32 z) = leftChild (unat z)"
    by (rule unat_leftChild32 [OF z])
  have l1: "unat (leftChild32 z + 1) = leftChild (unat z) + 1"
    using assms l by (simp add: unat_word_ariths leftChild_def)
  have r: "rightChild32 z = leftChild32 z + 1"
    by (simp add: rightChild32_def leftChild32_def)
  have ll: "unat (leftChild32 (leftChild32 z)) = leftChild (leftChild (unat z))"
    using assms by (subst unat_leftChild32) (simp_all add: l leftChild_def)
  have "leftChild32 z \<noteq> 0" "rightChild32 z \<noteq> 0"
    using l l1 unfolding r leftChild_def by auto
  then show ?thesis
    using l l1 ll by (simp add: unat_parent32 r rightChild_def leftChild_def parent_def)
qed

theorem heap_indices_fit_witness:
  "unat (leftChild32 (1073741823 :: u32)) = leftChild (unat (1073741823 :: u32))
    \<and> unat (leftChild32 (1073741823 :: u32) + 1) = leftChild (unat (1073741823 :: u32)) + 1
    \<and> unat (rightChild32 (1073741823 :: u32)) = rightChild (unat (1073741823 :: u32))
    \<and> unat (leftChild32 (leftChild32 (1073741823 :: u32)))
        = leftChild (leftChild (unat (1073741823 :: u32)))
    \<and> unat (parent32 (leftChild32 (1073741823 :: u32))) = unat (1073741823 :: u32)
    \<and> unat (parent32 (rightChild32 (1073741823 :: u32))) = unat (1073741823 :: u32)"
  by (rule heap_indices_fit [of _ "2 ^ 30"]) simp_all

end
