(* ===== verification/PolyQueues.thy ===== *)
theory PolyQueues
  imports MinMaxHeap
begin

text \<open>
  The three bounded priority queues of the polynomial selection, which are clients of the
  min-max heap: \<^verbatim>\<open>best_polynomials_queue.cpp\<close>, \<^verbatim>\<open>ropt_sublattice_priority_queue.cpp\<close> and
  \<^verbatim>\<open>ropt_single_sublattice_priority_queue.cpp\<close> under \<^verbatim>\<open>src/polyselect/\<close>. Scores are floating point
  numbers; their comparison is a parameter \<^term>\<open>flt\<close>, which the theorems take to be a strict weak
  order, as it is on the numbers that are not NaN.
\<close>

section \<open>Orders built from orders\<close>

definition lex_less ::
    "('b \<Rightarrow> 'b \<Rightarrow> bool) \<Rightarrow> ('a \<Rightarrow> 'b) \<Rightarrow> ('a \<Rightarrow> 'a \<Rightarrow> bool) \<Rightarrow> 'a \<Rightarrow> 'a \<Rightarrow> bool" where
  "lex_less lt key rest x y =
    (if lt (key x) (key y) then True else if lt (key y) (key x) then False else rest x y)"

lemma strict_weak_order_lex:
  assumes "strict_weak_order lt" "strict_weak_order rest"
  shows "strict_weak_order (lex_less lt key rest)"
proof
  fix x y z
  note a = strict_weak_order.lt_asym [OF assms(1)] strict_weak_order.lt_asym [OF assms(2)]
  note t = strict_weak_order.nlt_trans [OF assms(1)] strict_weak_order.nlt_trans [OF assms(2)]
  show "lex_less lt key rest x y \<Longrightarrow> \<not> lex_less lt key rest y x"
    using a by (auto simp: lex_less_def split: if_splits)
  assume n: "\<not> lex_less lt key rest x y" "\<not> lex_less lt key rest y z"
  have xz: "\<not> lt (key x) (key z)"
    using n t(1) [of "key x" "key y" "key z"] by (auto simp: lex_less_def split: if_splits)
  show "\<not> lex_less lt key rest x z"
  proof
    assume "lex_less lt key rest x z"
    with xz have r: "\<not> lt (key z) (key x)" "rest x z"
      by (auto simp: lex_less_def split: if_splits)
    have "\<not> lt (key y) (key x)"
      using n(2) r(1) t(1) [of "key y" "key z" "key x"] by (auto simp: lex_less_def split: if_splits)
    moreover have "\<not> lt (key z) (key y)"
      using n(1) r(1) t(1) [of "key z" "key x" "key y"] by (auto simp: lex_less_def split: if_splits)
    ultimately have "\<not> rest x y" "\<not> rest y z"
      using n by (auto simp: lex_less_def split: if_splits)
    then show False
      using t(2) r(2) by blast
  qed
qed

lemma strict_weak_order_key:
  assumes "strict_weak_order lt"
  shows "strict_weak_order (\<lambda>x y. lt (key x) (key y))"
  using strict_weak_order.lt_asym [OF assms] strict_weak_order.nlt_trans [OF assms]
  by unfold_locales blast+

section \<open>Emptying a copy of a queue\<close>

text \<open>
  \<^verbatim>\<open>single_sublattice_priority_queue_pop_all\<close>: the elements in the order in which they are written
  out. The functions that call a function on every element run the same loop.
\<close>

function pop_all :: "('a \<Rightarrow> 'a \<Rightarrow> bool) \<Rightarrow> 'a list \<Rightarrow> heap_error + 'a list" where
  "pop_all lt cpi =
    (if heap_empty cpi then Inr []
     else case popMax lt cpi of
       Inl e \<Rightarrow> Inl e
     | Inr (x, cpi') \<Rightarrow>
         (case pop_all lt cpi' of Inl e \<Rightarrow> Inl e | Inr out \<Rightarrow> Inr (x # out)))"
  by pat_completeness auto
termination
  by (relation "measure (\<lambda>(lt, h). length h)") (auto dest!: popMax_length)

declare pop_all.simps [simp del]

function do_loop ::
    "('a \<Rightarrow> 'a \<Rightarrow> bool) \<Rightarrow> (int \<Rightarrow> 'a \<Rightarrow> 's \<Rightarrow> 's) \<Rightarrow> int \<Rightarrow> 'a list \<Rightarrow> 's \<Rightarrow> heap_error + 's" where
  "do_loop lt f i cpi arg =
    (if heap_empty cpi then Inr arg
     else case popMax lt cpi of
       Inl e \<Rightarrow> Inl e
     | Inr (x, cpi') \<Rightarrow> do_loop lt f (i + 1) cpi' (f i x arg))"
  by pat_completeness auto
termination
  by (relation "measure (\<lambda>(lt, f, i, h, arg). length h)") (auto dest!: popMax_length)

declare do_loop.simps [simp del]

fun apply_ranked :: "(int \<Rightarrow> 'a \<Rightarrow> 's \<Rightarrow> 's) \<Rightarrow> int \<Rightarrow> 'a list \<Rightarrow> 's \<Rightarrow> 's" where
  "apply_ranked f i [] arg = arg"
| "apply_ranked f i (x # xs) arg = apply_ranked f (i + 1) xs (f i x arg)"

lemma do_loop_pop_all:
  "pop_all lt h = Inr xs \<Longrightarrow> do_loop lt f i h arg = Inr (apply_ranked f i xs arg)"
proof (induction lt h arbitrary: xs i arg rule: pop_all.induct)
  case (1 lt h)
  show ?case
  proof (cases "heap_empty h")
    case True
    then show ?thesis
      using 1(2) by (auto simp: pop_all.simps do_loop.simps)
  next
    case False
    then obtain x h' ys where x: "popMax lt h = Inr (x, h')" "pop_all lt h' = Inr ys" "xs = x # ys"
      using 1(2) pop_all.simps [of lt h] by (auto split: sum.splits prod.splits)
    then show ?thesis
      using 1(1) [OF False x(1) refl x(2)] False by (subst do_loop.simps) simp
  qed
qed

context strict_weak_order
begin

lemma pop_all_sorted:
  assumes "min_max_ordered lt h"
  shows "\<exists>xs. pop_all lt h = Inr xs \<and> mset xs = mset h \<and> sorted_wrt (\<lambda>x y. \<not> lt x y) xs"
  using assms
proof (induction "length h" arbitrary: h)
  case 0
  then show ?case
    by (subst pop_all.simps) (simp add: heap_empty_def)
next
  case (Suc n)
  then have ne: "mset h \<noteq> {#}"
    by auto
  obtain x h' where x: "popMax lt h = Inr (x, h')" "min_max_ordered lt h'"
    "mset h = add_mset x (mset h')" "\<forall>y\<in>#mset h'. \<not> lt x y"
    using heap.pop_max_next [OF Suc.prems ne] by blast
  obtain xs where xs: "pop_all lt h' = Inr xs" "mset xs = mset h'" "sorted_wrt (\<lambda>x y. \<not> lt x y) xs"
    using Suc.hyps(1) [of h'] x(2) popMax_length [OF x(1)] Suc.hyps(2) by auto
  have "set xs = set h'"
    using xs(2) by (metis set_mset_mset)
  then show ?case
    using x xs Suc.hyps(2) by (subst pop_all.simps) (auto simp: heap_empty_def)
qed

end

section \<open>Best polynomials queue\<close>

record ('f, 'p) best_polynomials_queue =
  max_count :: nat
  bq :: "('f \<times> 'p) list"

definition compare_by_score :: "('f \<Rightarrow> 'f \<Rightarrow> bool) \<Rightarrow> 'f \<times> 'p \<Rightarrow> 'f \<times> 'p \<Rightarrow> bool" where
  "compare_by_score flt a b = flt (fst a) (fst b)"

text \<open>The length is an \<^verbatim>\<open>int\<close> that is converted to \<^verbatim>\<open>size_t\<close>.\<close>

definition best_polynomials_queue_init :: "int \<Rightarrow> ('f, 'p) best_polynomials_queue" where
  "best_polynomials_queue_init queue_lenth = \<lparr>max_count = nat (queue_lenth mod 2 ^ 64), bq = []\<rparr>"

text \<open>The scores of an empty queue are NaN, here \<^term>\<open>None\<close>.\<close>

definition best_polynomials_queue_get_best_score ::
    "('f, 'p) best_polynomials_queue \<Rightarrow> heap_error + 'f option" where
  "best_polynomials_queue_get_best_score b =
    (if heap_empty (bq b) then Inr None
     else case findMax (bq b) of Inl e \<Rightarrow> Inl e | Inr x \<Rightarrow> Inr (Some (fst x)))"

definition best_polynomials_queue_get_worst_score ::
    "('f \<Rightarrow> 'f \<Rightarrow> bool) \<Rightarrow> ('f, 'p) best_polynomials_queue \<Rightarrow> heap_error + 'f option" where
  "best_polynomials_queue_get_worst_score flt b =
    (if heap_empty (bq b) then Inr None
     else case findMin (compare_by_score flt) (bq b) of
       Inl e \<Rightarrow> Inl e | Inr x \<Rightarrow> Inr (Some (fst x)))"

definition best_polynomials_queue_get_count :: "('f, 'p) best_polynomials_queue \<Rightarrow> nat" where
  "best_polynomials_queue_get_count b = heap_size (bq b)"

definition best_polynomials_queue_try_push ::
    "('f \<Rightarrow> 'f \<Rightarrow> bool) \<Rightarrow> 'p \<Rightarrow> 'f \<Rightarrow> ('f, 'p) best_polynomials_queue
      \<Rightarrow> heap_error + ('f, 'p) best_polynomials_queue" where
  "best_polynomials_queue_try_push flt cpoly score b =
    (case heap_push (compare_by_score flt) (score, cpoly) (bq b) of
       Inl e \<Rightarrow> Inl e
     | Inr h \<Rightarrow>
         (if heap_size h > max_count b
          then case popMin (compare_by_score flt) h of
                 Inl e \<Rightarrow> Inl e | Inr (_, h') \<Rightarrow> Inr (b\<lparr>bq := h'\<rparr>)
          else Inr (b\<lparr>bq := h\<rparr>)))"

text \<open>
  The callback gets the rank, the score, the polynomial and the argument, here a state that it
  returns. Printing runs the same loop; a line is the tuple of the values that it shows.
\<close>

definition best_polynomials_queue_do ::
    "('f \<Rightarrow> 'f \<Rightarrow> bool) \<Rightarrow> ('f, 'p) best_polynomials_queue \<Rightarrow> (int \<Rightarrow> 'f \<Rightarrow> 'p \<Rightarrow> 's \<Rightarrow> 's) \<Rightarrow> 's
      \<Rightarrow> heap_error + 's" where
  "best_polynomials_queue_do flt b f arg =
    do_loop (compare_by_score flt) (\<lambda>i x. f i (fst x) (snd x)) 0 (bq b) arg"

definition best_polynomials_queue_print ::
    "('f \<Rightarrow> 'f \<Rightarrow> bool) \<Rightarrow> ('f, 'p) best_polynomials_queue \<Rightarrow> string
      \<Rightarrow> heap_error + (string \<times> int \<times> 'f \<times> 'p) list" where
  "best_polynomials_queue_print flt b prefix =
    do_loop (compare_by_score flt) (\<lambda>i x out. out @ [(prefix, i, fst x, snd x)]) 0 (bq b) []"

section \<open>Sublattice queue\<close>

text \<open>Sublattices over a product of prime powers, ordered by their components.\<close>

datatype sublattice_info = Sublattice_info (sl_u: int) (sl_v: int) (sl_modulus: int)

definition sublattice_less :: "sublattice_info \<Rightarrow> sublattice_info \<Rightarrow> bool" where
  "sublattice_less s o' =
    (if sl_u s < sl_u o' then True
     else if sl_u s > sl_u o' then False
     else if sl_v s < sl_v o' then True
     else if sl_v s > sl_v o' then False
     else if sl_modulus s < sl_modulus o' then True
     else if sl_modulus s > sl_modulus o' then False
     else False)"

instantiation sublattice_info :: linorder
begin

definition less_sublattice_info :: "sublattice_info \<Rightarrow> sublattice_info \<Rightarrow> bool" where
  "less_sublattice_info s o' = sublattice_less s o'"

definition less_eq_sublattice_info :: "sublattice_info \<Rightarrow> sublattice_info \<Rightarrow> bool" where
  "less_eq_sublattice_info s o' = (s = o' \<or> s < o')"

instance
proof
  fix x y z :: sublattice_info
  show "(x < y) = (x \<le> y \<and> \<not> y \<le> x)"
    by (auto simp: less_eq_sublattice_info_def less_sublattice_info_def sublattice_less_def split: if_splits)
  show "x \<le> x"
    by (simp add: less_eq_sublattice_info_def)
  show "x \<le> y \<Longrightarrow> y \<le> z \<Longrightarrow> x \<le> z"
    by (auto simp: less_eq_sublattice_info_def less_sublattice_info_def sublattice_less_def split: if_splits)
  show "x \<le> y \<Longrightarrow> y \<le> x \<Longrightarrow> x = y"
    by (auto simp: less_eq_sublattice_info_def less_sublattice_info_def sublattice_less_def split: if_splits)
  show "x \<le> y \<or> y \<le> x"
    by (cases x; cases y)
      (auto simp: less_eq_sublattice_info_def less_sublattice_info_def sublattice_less_def)
qed

end

text \<open>The order of \<^verbatim>\<open>std::pair\<close>: first the score, then the sublattice.\<close>

definition pair_less ::
    "('f \<Rightarrow> 'f \<Rightarrow> bool) \<Rightarrow> 'f \<times> sublattice_info \<Rightarrow> 'f \<times> sublattice_info \<Rightarrow> bool" where
  "pair_less flt a b = (flt (fst a) (fst b) \<or> \<not> flt (fst b) (fst a) \<and> snd a < snd b)"

record 'f sublattice_pq =
  spq_max_count :: nat
  spq :: "('f \<times> sublattice_info) list"

definition sublattice_priority_queue_init :: "nat \<Rightarrow> 'f sublattice_pq" where
  "sublattice_priority_queue_init max_len =
    \<lparr>spq_max_count = (if max_len = 0 then 1 else max_len), spq = []\<rparr>"

definition sublattice_priority_queue_push ::
    "('f \<Rightarrow> 'f \<Rightarrow> bool) \<Rightarrow> 'f sublattice_pq \<Rightarrow> int \<Rightarrow> int \<Rightarrow> int \<Rightarrow> 'f \<Rightarrow> heap_error + 'f sublattice_pq"
where
  "sublattice_priority_queue_push flt q u v m val =
    (case heap_push (pair_less flt) (val, Sublattice_info u v m) (spq q) of
       Inl e \<Rightarrow> Inl e
     | Inr h \<Rightarrow>
         (if heap_size h > spq_max_count q
          then case popMin (pair_less flt) h of
                 Inl e \<Rightarrow> Inl e | Inr (_, h') \<Rightarrow> Inr (q\<lparr>spq := h'\<rparr>)
          else Inr (q\<lparr>spq := h\<rparr>)))"

definition sublattice_priority_queue_size :: "'f sublattice_pq \<Rightarrow> nat" where
  "sublattice_priority_queue_size q = heap_size (spq q)"

definition sublattice_priority_queue_empty :: "'f sublattice_pq \<Rightarrow> bool" where
  "sublattice_priority_queue_empty q = heap_empty (spq q)"

definition sublattice_priority_queue_do ::
    "('f \<Rightarrow> 'f \<Rightarrow> bool) \<Rightarrow> 'f sublattice_pq \<Rightarrow> (int \<Rightarrow> int \<Rightarrow> int \<Rightarrow> 's \<Rightarrow> 's) \<Rightarrow> 's \<Rightarrow> heap_error + 's" where
  "sublattice_priority_queue_do flt q f arg =
    do_loop (pair_less flt)
      (\<lambda>i x. f (sl_u (snd x)) (sl_v (snd x)) (sl_modulus (snd x))) 0 (spq q) arg"

section \<open>Queue of sublattices modulo one prime power\<close>

text \<open>The exponent is a \<^verbatim>\<open>char\<close>, which is signed on the platforms of the code.\<close>

record 'f single_sublattice_info =
  ssl_val :: 'f
  ssl_u :: u32
  ssl_v :: u32
  ssl_e :: "8 word"

definition single_sublattice_less ::
    "('f \<Rightarrow> 'f \<Rightarrow> bool) \<Rightarrow> 'f single_sublattice_info \<Rightarrow> 'f single_sublattice_info \<Rightarrow> bool" where
  "single_sublattice_less flt s o' =
    (if flt (ssl_val s) (ssl_val o') then True
     else if flt (ssl_val o') (ssl_val s) then False
     else if ssl_u s < ssl_u o' then True
     else if ssl_u s > ssl_u o' then False
     else if ssl_v s < ssl_v o' then True
     else if ssl_v s > ssl_v o' then False
     else if sint (ssl_e s) < sint (ssl_e o') then True
     else if sint (ssl_e s) > sint (ssl_e o') then False
     else False)"

record 'f single_sublattice_pq =
  sspq_max_count :: nat
  sspq :: "'f single_sublattice_info list"

definition single_sublattice_priority_queue_init :: "nat \<Rightarrow> 'f single_sublattice_pq" where
  "single_sublattice_priority_queue_init max_len =
    \<lparr>sspq_max_count = (if max_len = 0 then 1 else max_len), sspq = []\<rparr>"

definition single_sublattice_priority_queue_push ::
    "('f \<Rightarrow> 'f \<Rightarrow> bool) \<Rightarrow> 'f single_sublattice_pq \<Rightarrow> 'f single_sublattice_info
      \<Rightarrow> heap_error + 'f single_sublattice_pq" where
  "single_sublattice_priority_queue_push flt q z =
    (case heap_push (single_sublattice_less flt) z (sspq q) of
       Inl e \<Rightarrow> Inl e
     | Inr h \<Rightarrow>
         (if heap_size h > sspq_max_count q
          then case popMin (single_sublattice_less flt) h of
                 Inl e \<Rightarrow> Inl e | Inr (_, h') \<Rightarrow> Inr (q\<lparr>sspq := h'\<rparr>)
          else Inr (q\<lparr>sspq := h\<rparr>)))"

definition single_sublattice_priority_queue_size :: "'f single_sublattice_pq \<Rightarrow> nat" where
  "single_sublattice_priority_queue_size q = heap_size (sspq q)"

definition single_sublattice_priority_queue_empty :: "'f single_sublattice_pq \<Rightarrow> bool" where
  "single_sublattice_priority_queue_empty q = heap_empty (sspq q)"

definition single_sublattice_priority_queue_pop_all ::
    "('f \<Rightarrow> 'f \<Rightarrow> bool) \<Rightarrow> 'f single_sublattice_pq \<Rightarrow> heap_error + 'f single_sublattice_info list" where
  "single_sublattice_priority_queue_pop_all flt q = pop_all (single_sublattice_less flt) (sspq q)"

section \<open>The comparisons are strict weak orders\<close>

lemma compare_by_score_order:
  "strict_weak_order flt \<Longrightarrow> strict_weak_order (compare_by_score flt)"
  unfolding compare_by_score_def [abs_def] by (rule strict_weak_order_key)

lemma strict_weak_order_less:
  "strict_weak_order (\<lambda>x y. key x < (key y :: 'b::linorder))"
  by (rule strict_weak_order_key) (rule linorder_lt.strict_weak_order_axioms)

lemma strict_weak_order_False: "strict_weak_order (\<lambda>x y. False)"
  by unfold_locales auto

lemma pair_less_order:
  assumes "strict_weak_order flt"
  shows "strict_weak_order (pair_less flt)"
proof -
  have "pair_less flt = lex_less flt fst (\<lambda>a b. snd a < snd b)"
    using strict_weak_order.lt_asym [OF assms] by (auto simp: pair_less_def lex_less_def fun_eq_iff)
  then show ?thesis
    using strict_weak_order_lex [OF assms strict_weak_order_less] by simp
qed

lemma single_sublattice_less_order:
  assumes "strict_weak_order flt"
  shows "strict_weak_order (single_sublattice_less flt)"
proof -
  have "single_sublattice_less flt = lex_less flt ssl_val (lex_less (<) ssl_u (lex_less (<) ssl_v
      (lex_less (<) (\<lambda>s. sint (ssl_e s)) (\<lambda>x y. False))))"
    by (simp add: single_sublattice_less_def lex_less_def fun_eq_iff)
  then show ?thesis
    by (simp add: strict_weak_order_lex assms linorder_lt.strict_weak_order_axioms
        strict_weak_order_False)
qed

section \<open>The queues keep the best elements\<close>

context strict_weak_order
begin

lemmas heap_keeps_best = heap.push_pop_keeps_best

end

text \<open>What a bounded queue promises after a sequence of additions.\<close>

definition holds_best :: "('a \<Rightarrow> 'a \<Rightarrow> bool) \<Rightarrow> nat \<Rightarrow> 'a multiset \<Rightarrow> 'a list \<Rightarrow> bool" where
  "holds_best lt cap all h = (min_max_ordered lt h \<and> best_of lt cap all (mset h))"

lemma holds_best_empty: "holds_best lt cap {#} []"
  by (simp add: holds_best_def best_of_def min_max_ordered_def)

lemma holds_best_push:
  assumes "strict_weak_order lt" "holds_best lt cap all h"
  obtains h' where "heap_push lt x h = Inr h'" "heap_size h' \<le> cap" "holds_best lt cap (add_mset x all) h'"
  | h' y h'' where "heap_push lt x h = Inr h'" "cap < heap_size h'" "popMin lt h' = Inr (y, h'')"
      "holds_best lt cap (add_mset x all) h''"
proof -
  obtain q' where q': "heap_push lt x h = Inr q'" "min_max_ordered lt q'"
    and c: "if cap < heap_size q'
       then \<exists>y q''. popMin lt q' = Inr (y, q'') \<and> min_max_ordered lt q''
         \<and> best_of lt cap (add_mset x all) (mset q'')
       else best_of lt cap (add_mset x all) (mset q')"
    using strict_weak_order.heap_keeps_best [OF assms(1), of h cap all x] assms(2)
    unfolding holds_best_def by blast
  show thesis
  proof (cases "cap < heap_size q'")
    case True
    then obtain y q'' where "popMin lt q' = Inr (y, q'')" "holds_best lt cap (add_mset x all) q''"
      using c unfolding holds_best_def by auto
    then show ?thesis
      using that(2) q'(1) True by blast
  next
    case False
    then have "holds_best lt cap (add_mset x all) q'"
      using c q'(2) unfolding holds_best_def by simp
    then show ?thesis
      using that(1) q'(1) False by simp
  qed
qed


lemma holds_best_pop_all:
  assumes "strict_weak_order lt" "holds_best lt cap all h"
  shows "\<exists>xs. pop_all lt h = Inr xs \<and> best_of lt cap all (mset xs)
    \<and> sorted_wrt (\<lambda>x y. \<not> lt x y) xs"
  using strict_weak_order.pop_all_sorted [OF assms(1)] assms(2) by (force simp: holds_best_def)

lemma try_push_holds_best:
  assumes "strict_weak_order flt"
    and "holds_best (compare_by_score flt) (max_count b) all (bq b)"
  shows "\<exists>h. best_polynomials_queue_try_push flt p s b = Inr (b\<lparr>bq := h\<rparr>)
    \<and> holds_best (compare_by_score flt) (max_count b) (add_mset (s, p) all) h"
  by (rule holds_best_push [OF compare_by_score_order [OF assms(1)] assms(2), of "(s, p)"])
    (auto simp: best_polynomials_queue_try_push_def)

lemma sublattice_push_holds_best:
  assumes "strict_weak_order flt" "holds_best (pair_less flt) (spq_max_count q) all (spq q)"
  shows "\<exists>h. sublattice_priority_queue_push flt q u v m val = Inr (q\<lparr>spq := h\<rparr>)
    \<and> holds_best (pair_less flt) (spq_max_count q) (add_mset (val, Sublattice_info u v m) all) h"
  by (rule holds_best_push [OF pair_less_order [OF assms(1)] assms(2),
        of "(val, Sublattice_info u v m)"])
    (auto simp: sublattice_priority_queue_push_def)

lemma single_sublattice_push_holds_best:
  assumes "strict_weak_order flt"
    and "holds_best (single_sublattice_less flt) (sspq_max_count q) all (sspq q)"
  shows "\<exists>h. single_sublattice_priority_queue_push flt q z = Inr (q\<lparr>sspq := h\<rparr>)
    \<and> holds_best (single_sublattice_less flt) (sspq_max_count q) (add_mset z all) h"
  by (rule holds_best_push [OF single_sublattice_less_order [OF assms(1)] assms(2), of z])
    (auto simp: single_sublattice_priority_queue_push_def)

text \<open>Sequences of additions.\<close>

fun best_polynomials_run :: "('f \<Rightarrow> 'f \<Rightarrow> bool) \<Rightarrow> ('f \<times> 'p) list \<Rightarrow> ('f, 'p) best_polynomials_queue
    \<Rightarrow> heap_error + ('f, 'p) best_polynomials_queue" where
  "best_polynomials_run flt [] b = Inr b"
| "best_polynomials_run flt (x # xs) b =
    (case best_polynomials_queue_try_push flt (snd x) (fst x) b of
       Inl e \<Rightarrow> Inl e | Inr b' \<Rightarrow> best_polynomials_run flt xs b')"

fun single_sublattice_run :: "('f \<Rightarrow> 'f \<Rightarrow> bool) \<Rightarrow> 'f single_sublattice_info list
    \<Rightarrow> 'f single_sublattice_pq \<Rightarrow> heap_error + 'f single_sublattice_pq" where
  "single_sublattice_run flt [] q = Inr q"
| "single_sublattice_run flt (z # zs) q =
    (case single_sublattice_priority_queue_push flt q z of
       Inl e \<Rightarrow> Inl e | Inr q' \<Rightarrow> single_sublattice_run flt zs q')"

lemma best_polynomials_run_best:
  assumes "strict_weak_order flt"
    and "holds_best (compare_by_score flt) (max_count b) all (bq b)"
  shows "\<exists>h. best_polynomials_run flt xs b = Inr (b\<lparr>bq := h\<rparr>)
    \<and> holds_best (compare_by_score flt) (max_count b) (all + mset xs) h"
  using assms(2)
proof (induction xs arbitrary: b all)
  case Nil
  have "b\<lparr>bq := bq b\<rparr> = b"
    by simp
  then show ?case
    using Nil by (metis add_0_right best_polynomials_run.simps(1) mset.simps(1))
next
  case (Cons x xs)
  obtain h where h: "best_polynomials_queue_try_push flt (snd x) (fst x) b = Inr (b\<lparr>bq := h\<rparr>)"
    "holds_best (compare_by_score flt) (max_count b) (add_mset x all) h"
    using try_push_holds_best [OF assms(1) Cons.prems, of "snd x" "fst x"] by auto
  then show ?case
    using Cons.IH [of "b\<lparr>bq := h\<rparr>" "add_mset x all"] by simp
qed

lemma single_sublattice_run_best:
  assumes "strict_weak_order flt"
    and "holds_best (single_sublattice_less flt) (sspq_max_count q) all (sspq q)"
  shows "\<exists>h. single_sublattice_run flt zs q = Inr (q\<lparr>sspq := h\<rparr>)
    \<and> holds_best (single_sublattice_less flt) (sspq_max_count q) (all + mset zs) h"
  using assms(2)
proof (induction zs arbitrary: q all)
  case Nil
  have "q\<lparr>sspq := sspq q\<rparr> = q"
    by simp
  then show ?case
    using Nil by (metis add_0_right single_sublattice_run.simps(1) mset.simps(1))
next
  case (Cons z zs)
  obtain h where h: "single_sublattice_priority_queue_push flt q z = Inr (q\<lparr>sspq := h\<rparr>)"
    "holds_best (single_sublattice_less flt) (sspq_max_count q) (add_mset z all) h"
    using single_sublattice_push_holds_best [OF assms(1) Cons.prems] by blast
  then show ?case
    using Cons.IH [of "q\<lparr>sspq := h\<rparr>" "add_mset z all"] by simp
qed

section \<open>Properties\<close>

text \<open>
  C20: A queue created for $n$ polynomials, to which any sequence of scored polynomials is offered,
  hands exactly the best $n$ of them to the callback, in the order of decreasing score and
  with their ranks. No step fails.
\<close>

theorem best_polynomials_queue_correct:
  fixes xs :: "('f \<times> 'p) list"
  assumes "strict_weak_order flt" "0 \<le> n" "n < 2 ^ 31"
  shows "\<exists>b ys. best_polynomials_run flt xs (best_polynomials_queue_init n) = Inr b
    \<and> best_of (compare_by_score flt) (nat n) (mset xs) (mset ys)
    \<and> sorted_wrt (\<lambda>x y. \<not> flt (fst x) (fst y)) ys
    \<and> best_polynomials_queue_do flt b f arg
        = Inr (apply_ranked (\<lambda>i x. f i (fst x) (snd x)) 0 ys arg)"
proof -
  let ?b = "best_polynomials_queue_init n :: ('f, 'p) best_polynomials_queue"
  have n: "max_count ?b = nat n" "bq ?b = []"
    using assms(2,3) by (simp_all add: best_polynomials_queue_init_def)
  obtain h where h: "best_polynomials_run flt xs ?b = Inr (?b\<lparr>bq := h\<rparr>)"
    "holds_best (compare_by_score flt) (nat n) (mset xs) h"
    using best_polynomials_run_best [OF assms(1), of ?b "{#}" xs] holds_best_empty n by auto
  obtain ys where ys: "pop_all (compare_by_score flt) h = Inr ys"
    "best_of (compare_by_score flt) (nat n) (mset xs) (mset ys)"
    "sorted_wrt (\<lambda>x y. \<not> compare_by_score flt x y) ys"
    using holds_best_pop_all [OF compare_by_score_order [OF assms(1)] h(2)] by blast
  have "best_polynomials_queue_do flt (?b\<lparr>bq := h\<rparr>) f arg
      = Inr (apply_ranked (\<lambda>i x. f i (fst x) (snd x)) 0 ys arg)"
    by (simp add: best_polynomials_queue_do_def do_loop_pop_all [OF ys(1)])
  then show ?thesis
    using h(1) ys(2,3) by (auto simp: compare_by_score_def)
qed

theorem best_polynomials_queue_correct_witness:
  "\<exists>b ys. best_polynomials_run (<) [(3 :: int, ''a''), (5, ''b''), (4, ''c'')]
        (best_polynomials_queue_init 2) = Inr b
    \<and> best_of (compare_by_score (<)) (nat 2) (mset [(3 :: int, ''a''), (5, ''b''), (4, ''c'')]) (mset ys)
    \<and> sorted_wrt (\<lambda>x y. \<not> fst x < fst y) ys
    \<and> best_polynomials_queue_do (<) b (\<lambda>i s p out. out @ [p]) []
        = Inr (apply_ranked (\<lambda>i x out. out @ [snd x]) 0 ys [])"
  by (rule best_polynomials_queue_correct [OF linorder_lt.strict_weak_order_axioms]) simp_all

text \<open>
  The queue of sublattices modulo one prime power, created with any length, returns from
  \<^verbatim>\<open>pop_all\<close> the best sublattices that were pushed, best first; a length of zero counts as one.
\<close>

theorem single_sublattice_queue_correct:
  fixes zs :: "'f single_sublattice_info list"
  assumes "strict_weak_order flt"
  shows "\<exists>q ys. single_sublattice_run flt zs (single_sublattice_priority_queue_init n) = Inr q
    \<and> single_sublattice_priority_queue_pop_all flt q = Inr ys
    \<and> best_of (single_sublattice_less flt) (max 1 n) (mset zs) (mset ys)
    \<and> sorted_wrt (\<lambda>x y. \<not> single_sublattice_less flt x y) ys"
proof -
  let ?q = "single_sublattice_priority_queue_init n :: 'f single_sublattice_pq"
  have n: "sspq_max_count ?q = max 1 n" "sspq ?q = []"
    by (simp_all add: single_sublattice_priority_queue_init_def)
  obtain h where h: "single_sublattice_run flt zs ?q = Inr (?q\<lparr>sspq := h\<rparr>)"
    "holds_best (single_sublattice_less flt) (max 1 n) (mset zs) h"
    using single_sublattice_run_best [OF assms(1), of ?q "{#}" zs] holds_best_empty n by auto
  then show ?thesis
    using holds_best_pop_all [OF single_sublattice_less_order [OF assms(1)] h(2)]
    by (auto simp: single_sublattice_priority_queue_pop_all_def)
qed

theorem single_sublattice_queue_correct_witness:
  "\<exists>q ys. single_sublattice_run (<)
        [\<lparr>ssl_val = 1 :: int, ssl_u = 2, ssl_v = 3, ssl_e = 1\<rparr>,
         \<lparr>ssl_val = 1, ssl_u = 4, ssl_v = 0, ssl_e = 1\<rparr>]
        (single_sublattice_priority_queue_init 0) = Inr q
    \<and> single_sublattice_priority_queue_pop_all (<) q = Inr ys
    \<and> best_of (single_sublattice_less (<)) (max 1 0)
        (mset [\<lparr>ssl_val = 1 :: int, ssl_u = 2, ssl_v = 3, ssl_e = 1\<rparr>,
               \<lparr>ssl_val = 1, ssl_u = 4, ssl_v = 0, ssl_e = 1\<rparr>]) (mset ys)
    \<and> sorted_wrt (\<lambda>x y. \<not> single_sublattice_less (<) x y) ys"
  by (rule single_sublattice_queue_correct [OF linorder_lt.strict_weak_order_axioms])

text \<open>
  One addition to the queue of sublattices over a product of prime powers: the queue goes on
  holding the best sublattices of all that were offered.
\<close>

theorem sublattice_queue_push_keeps_best:
  assumes "strict_weak_order flt" "holds_best (pair_less flt) (spq_max_count q) all (spq q)"
  shows "\<exists>q'. sublattice_priority_queue_push flt q u v m val = Inr q'
    \<and> spq_max_count q' = spq_max_count q
    \<and> holds_best (pair_less flt) (spq_max_count q') (add_mset (val, Sublattice_info u v m) all) (spq q')"
  using sublattice_push_holds_best [OF assms, of u v m val] by auto

theorem sublattice_queue_push_keeps_best_witness:
  "\<exists>q'. sublattice_priority_queue_push (<) (sublattice_priority_queue_init 0) 1 2 6 (7 :: int) = Inr q'
    \<and> spq_max_count q' = spq_max_count (sublattice_priority_queue_init 0 :: int sublattice_pq)
    \<and> holds_best (pair_less (<)) (spq_max_count q') (add_mset (7, Sublattice_info 1 2 6) {#}) (spq q')"
  by (rule sublattice_queue_push_keeps_best [OF linorder_lt.strict_weak_order_axioms])
    (simp add: sublattice_priority_queue_init_def holds_best_empty)

end
