(* ===== verification/PurgeMatrix.thy ===== *)
theory PurgeMatrix
  imports Prelude
begin

text \<open>
  The matrix of the purge program and the removal of singletons: \<^verbatim>\<open>src/filter/purge_matrix.hpp\<close> and
  \<^verbatim>\<open>src/filter/purge_matrix.cpp\<close>. A row is a relation, a column an ideal. The rows are a list in which a null
  pointer is \<open>None\<close>; the end marker of a row is the end of its list. The counters are integers. The
  threads of a pass visit the rows in an order that is an argument; each visit is one step. A failed
  assertion gives \<open>None\<close>. Statistics and messages are not modelled.
\<close>

section \<open>The matrix\<close>

definition OVERWEIGHT :: nat where
  "OVERWEIGHT = 255"

record purge_matrix =
  rows :: "nat list option list"
  column_weights :: "nat list"
  remaining_rows :: int
  remaining_columns :: int

definition empty_matrix :: purge_matrix where
  "empty_matrix = \<lparr>rows = [], column_weights = [], remaining_rows = 0, remaining_columns = 0\<rparr>"

definition excess :: "purge_matrix \<Rightarrow> int" where
  "excess M = remaining_rows M - remaining_columns M"

definition is_active :: "purge_matrix \<Rightarrow> nat \<Rightarrow> bool" where
  "is_active M i \<longleftrightarrow> i < length (rows M) \<and> rows M ! i \<noteq> None"

definition row_of :: "purge_matrix \<Rightarrow> nat \<Rightarrow> nat list" where
  "row_of M i = (case rows M ! i of None \<Rightarrow> [] | Some p \<Rightarrow> p)"

text \<open>The vectors are extended by zeroes and null pointers up to an index.\<close>

definition extend_to :: "'a \<Rightarrow> nat \<Rightarrow> 'a list \<Rightarrow> 'a list" where
  "extend_to z h xs = (if h \<ge> length xs then xs @ replicate (h + 1 - length xs) z else xs)"

definition count_prime :: "nat \<Rightarrow> nat list \<times> int \<Rightarrow> nat list \<times> int" where
  "count_prime h = (\<lambda>(W, newcols).
     let W = extend_to 0 h W;
         newcols = (if W ! h = 0 then newcols + 1 else newcols)
     in (if W ! h < OVERWEIGHT then W[h := W ! h + 1] else W, newcols))"

definition new_row :: "nat \<Rightarrow> nat \<Rightarrow> nat \<Rightarrow> nat list \<Rightarrow> purge_matrix \<Rightarrow> purge_matrix" where
  "new_row i col0 col1 primes M =
     (let (W, newcols) = fold count_prime primes (column_weights M, 0)
      in \<lparr>rows = (extend_to None i (rows M))[i := Some (filter (\<lambda>h. col0 \<le> h \<and> h < col1) primes)],
          column_weights = W, remaining_rows = remaining_rows M + 1,
          remaining_columns = remaining_columns M + newcols\<rparr>)"

section \<open>Deletion\<close>

definition discount_column :: "nat \<Rightarrow> (nat list \<times> int) option \<Rightarrow> (nat list \<times> int) option" where
  "discount_column h s = (case s of None \<Rightarrow> None | Some (W, killed) \<Rightarrow>
     if W ! h = 0 then None
     else if W ! h < OVERWEIGHT
          then Some (W[h := W ! h - 1], if W ! h - 1 = 0 then killed + 1 else killed)
          else Some (W, killed))"

definition delete_row :: "nat \<Rightarrow> purge_matrix \<Rightarrow> purge_matrix option" where
  "delete_row i M =
     (if \<not> is_active M i then None
      else case fold discount_column (row_of M i) (Some (column_weights M, 0)) of
             None \<Rightarrow> None
           | Some (W, killed) \<Rightarrow>
               Some (M\<lparr>rows := (rows M)[i := None], column_weights := W,
                 remaining_columns := remaining_columns M - killed, remaining_rows := remaining_rows M - 1\<rparr>))"

section \<open>Singletons\<close>

definition visit_row :: "nat \<Rightarrow> purge_matrix option \<Rightarrow> purge_matrix option" where
  "visit_row i s = (case s of None \<Rightarrow> None | Some M \<Rightarrow>
     if is_active M i \<and> list_ex (\<lambda>h. column_weights M ! h = 1) (row_of M i) then delete_row i M else Some M)"

definition one_singleton_removal :: "nat list \<Rightarrow> purge_matrix \<Rightarrow> (int \<times> purge_matrix) option" where
  "one_singleton_removal order M =
     (case fold visit_row order (Some M) of None \<Rightarrow> None
      | Some M' \<Rightarrow> Some (remaining_rows M - remaining_rows M', M'))"

text \<open>Every deletion takes a row away: the loop ends.\<close>

definition active_rows :: "purge_matrix \<Rightarrow> nat" where
  "active_rows M = length (filter (\<lambda>r. r \<noteq> None) (rows M))"

lemma active_rows_update:
  "i < length rs \<Longrightarrow> rs ! i \<noteq> None \<Longrightarrow>
    Suc (length (filter (\<lambda>r. r \<noteq> None) (rs[i := None]))) = length (filter (\<lambda>r. r \<noteq> None) rs)"
proof (induction rs arbitrary: i)
  case (Cons r rs)
  then show ?case by (cases i) auto
qed simp

lemma delete_row_counts:
  assumes "delete_row i M = Some M'"
  shows "int (active_rows M) - remaining_rows M = int (active_rows M') - remaining_rows M'"
    "active_rows M' < active_rows M"
proof -
  have "is_active M i" "rows M' = (rows M)[i := None]" "remaining_rows M' = remaining_rows M - 1"
    using assms by (auto simp: delete_row_def split: if_splits option.splits)
  then have "Suc (active_rows M') = active_rows M" "remaining_rows M' = remaining_rows M - 1"
    using active_rows_update [of i "rows M"] by (auto simp: active_rows_def is_active_def)
  then show "int (active_rows M) - remaining_rows M = int (active_rows M') - remaining_rows M'"
    "active_rows M' < active_rows M" by simp_all
qed

lemma visit_rows_None [simp]: "fold visit_row order None = None"
  by (induction order) (simp_all add: visit_row_def)

lemma visit_rows_counts:
  "fold visit_row order (Some M) = Some M' \<Longrightarrow>
    int (active_rows M) - remaining_rows M = int (active_rows M') - remaining_rows M' \<and> active_rows M' \<le> active_rows M"
proof (induction order arbitrary: M)
  case (Cons i order)
  obtain M1 where 1: "visit_row i (Some M) = Some M1" "fold visit_row order (Some M1) = Some M'"
    using Cons.prems by (cases "visit_row i (Some M)") simp_all
  then have "M1 = M \<or> delete_row i M = Some M1" by (auto simp: visit_row_def split: if_splits)
  then show ?case using delete_row_counts [of i M M1] Cons.IH [OF 1(2)] by auto
qed simp

function singleton_removal :: "(nat \<Rightarrow> nat list) \<Rightarrow> nat \<Rightarrow> purge_matrix \<Rightarrow> (int \<times> purge_matrix) option" where
  "singleton_removal orders iter M =
     (let e = remaining_rows M - remaining_columns M
      in case one_singleton_removal (orders iter) M of
           None \<Rightarrow> None
         | Some (removed, M') \<Rightarrow>
             if removed = 0 then Some (e, M') else singleton_removal orders (iter + 1) M')"
  by pat_completeness auto

termination
proof (relation "measure (\<lambda>(orders, iter, M). active_rows M)", goal_cases)
  case (2 orders iter M e r removed M')
  then have "fold visit_row (orders iter) (Some M) = Some M'" "removed = remaining_rows M - remaining_rows M'"
    by (auto simp: one_singleton_removal_def split: option.splits)
  then show ?case using visit_rows_counts [of "orders iter" M M'] 2 by auto
qed simp

declare singleton_removal.simps [simp del]

section \<open>The invariant\<close>

text \<open>The occurrences of a column in the rows that are left.\<close>

definition weight_in :: "purge_matrix \<Rightarrow> nat set \<Rightarrow> nat \<Rightarrow> nat" where
  "weight_in M X h = (\<Sum>i\<in>X. count_list (row_of M i) h)"

definition active :: "purge_matrix \<Rightarrow> nat set" where
  "active M = {i. is_active M i}"

definition wt :: "nat list \<Rightarrow> nat \<Rightarrow> nat" where
  "wt W h = (if h < length W then W ! h else 0)"

definition used :: "nat list \<Rightarrow> nat set" where
  "used W = {h. wt W h \<noteq> 0}"

text \<open>
  The stored weight of a column between \<open>col0\<close> and \<open>col1\<close> is its number of occurrences, unless it
  has reached the largest value: then it stays there.
\<close>

definition matrix_ok :: "nat \<Rightarrow> nat \<Rightarrow> purge_matrix \<Rightarrow> bool" where
  "matrix_ok col0 col1 M \<longleftrightarrow>
     remaining_rows M = int (card (active M))
     \<and> remaining_columns M = int (card (used (column_weights M)))
     \<and> (\<forall>i\<in>active M. \<forall>h\<in>set (row_of M i). col0 \<le> h \<and> h < col1)
     \<and> (\<forall>h. wt (column_weights M) h \<le> OVERWEIGHT
          \<and> (col0 \<le> h \<longrightarrow> h < col1 \<longrightarrow> wt (column_weights M) h < OVERWEIGHT \<longrightarrow>
              wt (column_weights M) h = weight_in M (active M) h))"

lemma finite_active [simp]: "finite (active M)"
  by (rule finite_subset [of _ "{..<length (rows M)}"]) (auto simp: active_def is_active_def)

lemma finite_used [simp]: "finite (used W)"
  by (rule finite_subset [of _ "{..<length W}"]) (auto simp: used_def wt_def)

lemma empty_matrix_ok: "matrix_ok col0 col1 empty_matrix"
  by (simp add: matrix_ok_def empty_matrix_def active_def is_active_def wt_def used_def weight_in_def)

lemma wt_update: "h < length W \<Longrightarrow> wt (W[h := x]) = (wt W)(h := x)"
  by (auto simp: wt_def fun_eq_iff)

lemma wt_extend: "wt (extend_to 0 h W) = wt W"
  by (auto simp: wt_def extend_to_def fun_eq_iff nth_append)

lemma extend_to_length: "h < length (extend_to z h xs)"
  by (simp add: extend_to_def)

lemma used_iff: "h \<in> used W \<longleftrightarrow> wt W h \<noteq> 0"
  by (simp add: used_def)

lemma count_prime_value:
  assumes "wt W h \<le> OVERWEIGHT" "count_prime h (W, n) = (W', n')"
  shows "wt W' = (wt W)(h := min OVERWEIGHT (wt W h + 1))" "n' - int (card (used W')) = n - int (card (used W))"
proof -
  define V where "V = extend_to 0 h W"
  have V: "h < length V" "V ! h = wt W h" "wt V = wt W"
    using wt_extend [of h W] extend_to_length [of h 0 W] by (simp_all add: V_def) (metis wt_def)
  have W': "W' = (if V ! h < OVERWEIGHT then V[h := V ! h + 1] else V)" "n' = (if V ! h = 0 then n + 1 else n)"
    using assms(2) by (auto simp: count_prime_def V_def Let_def split: if_splits)
  show w: "wt W' = (wt W)(h := min OVERWEIGHT (wt W h + 1))"
    using V assms(1) by (auto simp: W' wt_update fun_eq_iff)
  have "used W' = insert h (used W)"
    unfolding used_def w by (auto simp: OVERWEIGHT_def)
  then show "n' - int (card (used W')) = n - int (card (used W))"
    using V(2) by (simp add: W'(2) card_insert_if used_iff)
qed

lemma count_primes_value:
  "(\<And>h. wt W h \<le> OVERWEIGHT) \<Longrightarrow> fold count_prime ps (W, n) = (W', n') \<Longrightarrow>
    wt W' = (\<lambda>h. min OVERWEIGHT (wt W h + count_list ps h)) \<and> n' - int (card (used W')) = n - int (card (used W))"
proof (induction ps arbitrary: W n)
  case Nil
  then show ?case by (auto simp: fun_eq_iff min_def intro: antisym)
next
  case (Cons p ps)
  obtain W1 n1 where 1: "count_prime p (W, n) = (W1, n1)" by (metis surj_pair)
  note c = count_prime_value [OF Cons.prems(1) 1]
  have "wt W1 h \<le> OVERWEIGHT" for h using Cons.prems(1) by (simp add: c(1))
  then have "wt W' = (\<lambda>h. min OVERWEIGHT (wt W1 h + count_list ps h)) \<and> n' - int (card (used W')) = n1 - int (card (used W1))"
    using Cons.IH Cons.prems(2) 1 by simp
  then show ?case using c by (auto simp: fun_eq_iff)
qed

lemma new_row_ok:
  assumes ok: "matrix_ok col0 col1 M" and free: "\<not> is_active M i"
  shows "matrix_ok col0 col1 (new_row i col0 col1 primes M)"
proof -
  obtain W n where W: "fold count_prime primes (column_weights M, 0) = (W, n)" by (metis surj_pair)
  define M' where "M' = new_row i col0 col1 primes M"
  have w: "wt (column_weights M) h \<le> OVERWEIGHT" for h using ok by (simp add: matrix_ok_def)
  note c = count_primes_value [OF w W]
  have M': "rows M' = (extend_to None i (rows M))[i := Some (filter (\<lambda>h. col0 \<le> h \<and> h < col1) primes)]"
    "column_weights M' = W" "remaining_rows M' = remaining_rows M + 1" "remaining_columns M' = remaining_columns M + n"
    using W by (simp_all add: M'_def new_row_def)
  have l: "i < length (extend_to None i (rows M))" by (rule extend_to_length)
  have act: "active M' = insert i (active M)" "i \<notin> active M"
    using l free by (auto simp: active_def is_active_def M'(1) nth_list_update extend_to_def nth_append split: if_splits)
  have row: "row_of M' j = (if j = i then filter (\<lambda>h. col0 \<le> h \<and> h < col1) primes else row_of M j)" if "j \<in> active M'" for j
    using l that act by (auto simp: row_of_def M'(1) extend_to_def nth_append active_def is_active_def nth_list_update split: if_splits)
  have sum: "weight_in M' (active M') h = count_list primes h + weight_in M (active M) h" if "col0 \<le> h" "h < col1" for h
  proof -
    have "(\<Sum>j\<in>active M. count_list (row_of M' j) h) = (\<Sum>j\<in>active M. count_list (row_of M j) h)"
      using row act by (intro sum.cong) auto
    moreover have "count_list (filter (\<lambda>h. col0 \<le> h \<and> h < col1) primes) h = count_list primes h"
      using that by (induction primes) auto
    ultimately show ?thesis using row act by (simp add: weight_in_def)
  qed
  show ?thesis
    unfolding M'_def [symmetric] using ok c act row sum
    by (auto simp: matrix_ok_def M' min_def)
qed

lemma discount_value:
  assumes "wt W h \<le> OVERWEIGHT" "0 < wt W h"
  obtains W' where "discount_column h (Some (W, k)) = Some (W', k + (if wt W h = 1 then 1 else 0))"
    "wt W' = (wt W)(h := if wt W h < OVERWEIGHT then wt W h - 1 else wt W h)"
    "int (card (used W')) = int (card (used W)) - (if wt W h = 1 then 1 else 0)"
proof -
  have h: "h < length W" "W ! h = wt W h" using assms(2) by (simp_all add: wt_def split: if_splits)
  define W' where "W' = (if W ! h < OVERWEIGHT then W[h := W ! h - 1] else W)"
  have w: "wt W' = (wt W)(h := if wt W h < OVERWEIGHT then wt W h - 1 else wt W h)"
    using h by (auto simp: W'_def wt_update)
  have "used W' = (if wt W h = 1 then used W - {h} else used W)"
    using assms(2) unfolding used_def w by (auto simp: OVERWEIGHT_def)
  moreover have "Suc (card (used W - {h})) = card (used W)"
    using assms(2) by (intro card_Suc_Diff1) (simp_all add: used_iff)
  ultimately have "int (card (used W')) = int (card (used W)) - (if wt W h = 1 then 1 else 0)"
    by (auto simp del: card_Diff_insert)
  moreover have "discount_column h (Some (W, k)) = Some (W', k + (if wt W h = 1 then 1 else 0))"
    using h assms by (auto simp: discount_column_def W'_def OVERWEIGHT_def)
  ultimately show ?thesis using that w by blast
qed

lemma discounts_value:
  assumes "\<And>h. wt W h \<le> OVERWEIGHT" "\<And>h. wt W h < OVERWEIGHT \<Longrightarrow> count_list ps h \<le> wt W h"
  shows "\<exists>W' k'. fold discount_column ps (Some (W, k)) = Some (W', k')
    \<and> wt W' = (\<lambda>h. if wt W h < OVERWEIGHT then wt W h - count_list ps h else wt W h)
    \<and> int (card (used W')) + k' = int (card (used W)) + k"
  using assms
proof (induction ps arbitrary: W k)
  case (Cons p ps)
  have "0 < wt W p" using Cons.prems(2) [of p] by (cases "wt W p < OVERWEIGHT") (auto simp: OVERWEIGHT_def)
  then obtain W1 where W1: "discount_column p (Some (W, k)) = Some (W1, k + (if wt W p = 1 then 1 else 0))"
    "wt W1 = (wt W)(p := if wt W p < OVERWEIGHT then wt W p - 1 else wt W p)"
    "int (card (used W1)) = int (card (used W)) - (if wt W p = 1 then 1 else 0)"
    using discount_value [OF Cons.prems(1)] by blast
  have "wt W1 h \<le> OVERWEIGHT" for h using Cons.prems(1) [of h] Cons.prems(1) [of p] by (auto simp: W1(2))
  moreover have "wt W1 h < OVERWEIGHT \<Longrightarrow> count_list ps h \<le> wt W1 h" for h
    using Cons.prems(2) [of h] by (auto simp: W1(2) split: if_splits)
  ultimately obtain W' k' where W': "fold discount_column ps (Some (W1, k + (if wt W p = 1 then 1 else 0))) = Some (W', k')"
    "wt W' = (\<lambda>h. if wt W1 h < OVERWEIGHT then wt W1 h - count_list ps h else wt W1 h)"
    "int (card (used W')) + k' = int (card (used W1)) + (k + (if wt W p = 1 then 1 else 0))"
    using Cons.IH by blast
  have "wt W' = (\<lambda>h. if wt W h < OVERWEIGHT then wt W h - count_list (p # ps) h else wt W h)"
    unfolding W'(2) W1(2) using Cons.prems(1) by (auto simp: fun_eq_iff)
  then show ?case using W1 W' by simp
qed (auto simp: fun_eq_iff)

lemma weight_in_mono: "X \<subseteq> Y \<Longrightarrow> finite Y \<Longrightarrow> weight_in M X h \<le> weight_in M Y h"
  unfolding weight_in_def by (rule sum_mono2) auto

lemma weight_in_cong: "(\<And>i. i \<in> X \<Longrightarrow> row_of M i = row_of M' i) \<Longrightarrow> weight_in M X h = weight_in M' X h"
  by (simp add: weight_in_def)

lemma row_range:
  "matrix_ok col0 col1 M \<Longrightarrow> i \<in> active M \<Longrightarrow> h \<in> set (row_of M i) \<Longrightarrow> col0 \<le> h \<and> h < col1"
  by (auto simp: matrix_ok_def)

lemma column_weight:
  assumes "matrix_ok col0 col1 M" "i \<in> active M" "h \<in> set (row_of M i)"
  shows "wt (column_weights M) h = OVERWEIGHT \<or> wt (column_weights M) h = weight_in M (active M) h"
  using assms row_range [OF assms] by (auto simp: matrix_ok_def order.order_iff_strict)

lemma stored_weight: "wt (column_weights M) h \<noteq> 0 \<Longrightarrow> column_weights M ! h = wt (column_weights M) h"
  by (auto simp: wt_def split: if_splits)

text \<open>What a deletion does to a matrix that keeps the invariant.\<close>

definition deleted :: "nat set \<Rightarrow> purge_matrix \<Rightarrow> purge_matrix \<Rightarrow> bool" where
  "deleted X M M' \<longleftrightarrow> active M' = active M - X \<and> (\<forall>j\<in>active M'. row_of M' j = row_of M j)
     \<and> length (rows M') = length (rows M)
     \<and> (\<forall>h. wt (column_weights M') h \<le> wt (column_weights M) h)"

lemma delete_row_ok:
  assumes ok: "matrix_ok col0 col1 M" and i: "i \<in> active M"
  obtains M' where "delete_row i M = Some M'" "matrix_ok col0 col1 M'" "deleted {i} M M'"
proof -
  have wl: "wt (column_weights M) h \<le> OVERWEIGHT" for h using ok by (simp add: matrix_ok_def)
  have wsum: "weight_in M (active M) h = count_list (row_of M i) h + weight_in M (active M - {i}) h" for h
    using i by (simp add: weight_in_def sum.remove)
  have cl: "count_list (row_of M i) h \<le> wt (column_weights M) h" if "wt (column_weights M) h < OVERWEIGHT" for h
  proof (cases "h \<in> set (row_of M i)")
    case True
    then show ?thesis using column_weight [OF ok i True] that wsum [of h] by simp
  next
    case False
    then show ?thesis by (simp add: count_list_0_iff [THEN iffD2])
  qed
  obtain W k where W: "fold discount_column (row_of M i) (Some (column_weights M, 0)) = Some (W, k)"
    "wt W = (\<lambda>h. if wt (column_weights M) h < OVERWEIGHT then wt (column_weights M) h - count_list (row_of M i) h
       else wt (column_weights M) h)"
    "int (card (used W)) + k = int (card (used (column_weights M))) + 0"
    using discounts_value [OF wl cl] by blast
  define M' where "M' = M\<lparr>rows := (rows M)[i := None], column_weights := W,
    remaining_columns := remaining_columns M - k, remaining_rows := remaining_rows M - 1\<rparr>"
  have act: "active M' = active M - {i}"
    using i by (auto simp: active_def is_active_def M'_def nth_list_update split: if_splits)
  have row: "row_of M' j = row_of M j" if "j \<noteq> i" for j using that by (simp add: row_of_def M'_def)
  have sum: "weight_in M' (active M') h = weight_in M (active M - {i}) h" for h
    unfolding act by (rule weight_in_cong) (use row in auto)
  have "Suc (card (active M - {i})) = card (active M)" using i by (intro card_Suc_Diff1) simp_all
  then have "remaining_rows M' = int (card (active M'))"
    using ok unfolding act by (simp add: matrix_ok_def M'_def del: card_Diff_insert)
  moreover have "remaining_columns M' = int (card (used (column_weights M')))"
    using ok W(3) by (simp add: matrix_ok_def M'_def)
  moreover have "\<forall>j\<in>active M'. \<forall>h\<in>set (row_of M' j). col0 \<le> h \<and> h < col1"
    using ok row unfolding act matrix_ok_def by auto
  moreover have "wt (column_weights M') h \<le> OVERWEIGHT
      \<and> (col0 \<le> h \<longrightarrow> h < col1 \<longrightarrow> wt (column_weights M') h < OVERWEIGHT \<longrightarrow>
         wt (column_weights M') h = weight_in M' (active M') h)" for h
  proof -
    have "wt (column_weights M') h = (if wt (column_weights M) h < OVERWEIGHT
        then wt (column_weights M) h - count_list (row_of M i) h else wt (column_weights M) h)"
      using W(2) by (simp add: M'_def)
    then show ?thesis using ok wl [of h] wsum [of h] sum [of h] by (auto simp: matrix_ok_def)
  qed
  ultimately have "matrix_ok col0 col1 M'" by (simp add: matrix_ok_def)
  moreover have "delete_row i M = Some M'"
    using i W(1) by (simp add: delete_row_def active_def M'_def)
  moreover have "deleted {i} M M'"
    using act row W(2) by (auto simp: deleted_def) (simp add: M'_def)+
  ultimately show ?thesis using that by blast
qed

lemma deleted_refl: "deleted {} M M"
  by (simp add: deleted_def)

lemma deleted_trans: "deleted X M M1 \<Longrightarrow> deleted Y M1 M2 \<Longrightarrow> deleted (X \<union> Y) M M2"
  unfolding deleted_def by (auto intro: le_trans)

lemma deleted_row: "deleted X M M' \<Longrightarrow> j \<in> active M - X \<Longrightarrow> row_of M' j = row_of M j"
  by (auto simp: deleted_def)

section \<open>The removal of singletons\<close>

text \<open>A set of rows without singletons: each of its columns occurs at least twice in it.\<close>

definition self_supporting :: "purge_matrix \<Rightarrow> nat set \<Rightarrow> bool" where
  "self_supporting M X \<longleftrightarrow> X \<subseteq> active M \<and> (\<forall>i\<in>X. \<forall>h\<in>set (row_of M i). 2 \<le> weight_in M X h)"

definition has_singleton :: "purge_matrix \<Rightarrow> nat \<Rightarrow> bool" where
  "has_singleton M i \<longleftrightarrow> i \<in> active M \<and> (\<exists>h\<in>set (row_of M i). wt (column_weights M) h = 1)"

lemma occurs_positive:
  assumes "matrix_ok col0 col1 M" "i \<in> active M" "h \<in> set (row_of M i)"
  shows "0 < weight_in M (active M) h" "0 < wt (column_weights M) h"
proof -
  have "count_list (row_of M i) h \<noteq> 0" using assms(3) by (simp add: count_list_0_iff)
  moreover have "weight_in M (active M) h = count_list (row_of M i) h + weight_in M (active M - {i}) h"
    using assms(2) by (simp add: weight_in_def sum.remove)
  ultimately show w: "0 < weight_in M (active M) h" by simp
  show "0 < wt (column_weights M) h"
    using column_weight [OF assms] w by (auto simp: OVERWEIGHT_def)
qed

lemma singleton_outside:
  assumes ok: "matrix_ok col0 col1 M" and X: "self_supporting M X" and i: "has_singleton M i"
  shows "i \<notin> X"
proof
  assume "i \<in> X"
  obtain h where h: "h \<in> set (row_of M i)" "wt (column_weights M) h = 1" "i \<in> active M"
    using i by (auto simp: has_singleton_def)
  then have "weight_in M (active M) h = 1" using column_weight [OF ok h(3,1)] by (auto simp: OVERWEIGHT_def)
  moreover have "2 \<le> weight_in M X h" using X \<open>i \<in> X\<close> h(1) by (auto simp: self_supporting_def)
  moreover have "weight_in M X h \<le> weight_in M (active M) h"
    using X by (intro weight_in_mono) (auto simp: self_supporting_def)
  ultimately show False by simp
qed

lemma self_supporting_deleted:
  assumes "deleted Y M M'" "self_supporting M X" "X \<inter> Y = {}"
  shows "self_supporting M' X"
proof -
  have r: "row_of M' i = row_of M i" if "i \<in> X" for i
    using deleted_row [OF assms(1)] that assms(2,3) by (auto simp: self_supporting_def)
  then have "weight_in M' X h = weight_in M X h" for h by (intro weight_in_cong)
  then show ?thesis using assms r by (auto simp: self_supporting_def deleted_def)
qed

text \<open>One deletion of a row with a singleton does not lower the excess.\<close>

lemma delete_singleton_excess:
  assumes ok: "matrix_ok col0 col1 M" "matrix_ok col0 col1 M'" and d: "deleted {i} M M'" and i: "has_singleton M i"
  shows "excess M \<le> excess M'"
proof -
  obtain h where h: "h \<in> set (row_of M i)" "wt (column_weights M) h = 1" "i \<in> active M"
    using i by (auto simp: has_singleton_def)
  have "weight_in M (active M) h = 1" using column_weight [OF ok(1) h(3,1)] h(2) by (auto simp: OVERWEIGHT_def)
  moreover have "weight_in M (active M) h = count_list (row_of M i) h + weight_in M (active M - {i}) h"
    using h(3) by (simp add: weight_in_def sum.remove)
  moreover have "count_list (row_of M i) h \<noteq> 0" using h(1) by (simp add: count_list_0_iff)
  ultimately have "weight_in M (active M - {i}) h = 0" by simp
  moreover have "weight_in M' (active M') h = weight_in M (active M - {i}) h"
    using d by (auto simp: deleted_def intro: weight_in_cong)
  ultimately have "weight_in M' (active M') h = 0" by simp
  moreover have "wt (column_weights M') h < OVERWEIGHT"
    using d h(2) by (auto simp: deleted_def OVERWEIGHT_def intro: le_less_trans)
  ultimately have "wt (column_weights M') h = 0"
    using ok(2) row_range [OF ok(1) h(3,1)] by (auto simp: matrix_ok_def)
  then have "used (column_weights M') \<subseteq> used (column_weights M) - {h}"
    using d unfolding used_def deleted_def by (auto simp: neq0_conv) (metis le_zero_eq neq0_conv)
  then have "card (used (column_weights M')) \<le> card (used (column_weights M) - {h})" by (intro card_mono) auto
  moreover have "Suc (card (used (column_weights M) - {h})) = card (used (column_weights M))"
    using h(2) by (intro card_Suc_Diff1) (simp_all add: used_iff)
  moreover have "Suc (card (active M - {i})) = card (active M)" using h(3) by (intro card_Suc_Diff1) simp_all
  moreover have "active M' = active M - {i}" using d by (simp add: deleted_def)
  ultimately show ?thesis using ok by (simp add: excess_def matrix_ok_def del: card_Diff_insert)
qed

text \<open>What any sequence of deletions of rows with singletons achieves.\<close>

definition pruned :: "nat \<Rightarrow> nat \<Rightarrow> purge_matrix \<Rightarrow> purge_matrix \<Rightarrow> bool" where
  "pruned col0 col1 M M' \<longleftrightarrow> matrix_ok col0 col1 M' \<and> (\<exists>Y. deleted Y M M') \<and> excess M \<le> excess M'
     \<and> (\<forall>X. self_supporting M X \<longrightarrow> self_supporting M' X)"

lemma pruned_refl: "matrix_ok col0 col1 M \<Longrightarrow> pruned col0 col1 M M"
  using deleted_refl by (auto simp: pruned_def)

lemma pruned_trans: "pruned col0 col1 M M1 \<Longrightarrow> pruned col0 col1 M1 M2 \<Longrightarrow> pruned col0 col1 M M2"
  using deleted_trans by (fastforce simp: pruned_def)

lemma list_ex_singleton:
  assumes ok: "matrix_ok col0 col1 M" and i: "is_active M i"
  shows "list_ex (\<lambda>h. column_weights M ! h = 1) (row_of M i) \<longleftrightarrow> has_singleton M i"
proof -
  have "column_weights M ! h = wt (column_weights M) h" if "h \<in> set (row_of M i)" for h
    using occurs_positive(2) [OF ok _ that] i by (intro stored_weight) (simp add: active_def)
  then show ?thesis using i by (auto simp: list_ex_iff has_singleton_def active_def)
qed

lemma visit_row_ok:
  assumes ok: "matrix_ok col0 col1 M"
  obtains M' where "visit_row i (Some M) = Some M'" "pruned col0 col1 M M'"
    "if has_singleton M i then remaining_rows M' < remaining_rows M else M' = M"
proof (cases "has_singleton M i")
  case True
  then have i: "i \<in> active M" "is_active M i" by (auto simp: has_singleton_def active_def)
  obtain M' where M': "delete_row i M = Some M'" "matrix_ok col0 col1 M'" "deleted {i} M M'"
    using delete_row_ok [OF ok i(1)] by blast
  have "self_supporting M' X" if "self_supporting M X" for X
    using self_supporting_deleted [OF M'(3) that] singleton_outside [OF ok that True] by simp
  then have "pruned col0 col1 M M'"
    using M' delete_singleton_excess [OF ok M'(2,3) True] by (auto simp: pruned_def)
  moreover have "remaining_rows M' < remaining_rows M" using delete_row_counts [OF M'(1)] by simp
  moreover have "visit_row i (Some M) = Some M'"
    using list_ex_singleton [OF ok i(2)] True i(2) M'(1) by (simp add: visit_row_def)
  ultimately show ?thesis using that True by simp
next
  case False
  then have "visit_row i (Some M) = Some M" using list_ex_singleton [OF ok] by (auto simp: visit_row_def)
  then show ?thesis using that False pruned_refl [OF ok] by simp
qed

lemma visit_rows_ok:
  assumes "matrix_ok col0 col1 M"
  shows "\<exists>M'. fold visit_row order (Some M) = Some M' \<and> pruned col0 col1 M M' \<and> remaining_rows M' \<le> remaining_rows M
    \<and> (remaining_rows M' = remaining_rows M \<longrightarrow> M' = M \<and> (\<forall>i\<in>set order. \<not> has_singleton M i))"
  using assms
proof (induction order arbitrary: M)
  case Nil
  then show ?case using pruned_refl by auto
next
  case (Cons i order)
  obtain M1 where M1: "visit_row i (Some M) = Some M1" "pruned col0 col1 M M1"
    "if has_singleton M i then remaining_rows M1 < remaining_rows M else M1 = M"
    using visit_row_ok [OF Cons.prems] by blast
  have ok: "matrix_ok col0 col1 M1" using M1(2) by (simp add: pruned_def)
  obtain M' where "fold visit_row order (Some M1) = Some M'" "pruned col0 col1 M1 M'" "remaining_rows M' \<le> remaining_rows M1"
    "remaining_rows M' = remaining_rows M1 \<longrightarrow> M' = M1 \<and> (\<forall>i\<in>set order. \<not> has_singleton M1 i)"
    using Cons.IH [OF ok] by blast
  then show ?case using M1 pruned_trans [OF M1(2)] by (intro exI [of _ M']) (auto split: if_splits)
qed

lemma singleton_removal_ok:
  assumes "matrix_ok col0 col1 M" "\<And>k. {..<length (rows M)} \<subseteq> set (orders k)"
  shows "\<exists>M'. singleton_removal orders iter M = Some (excess M', M') \<and> pruned col0 col1 M M' \<and> (\<forall>i. \<not> has_singleton M' i)"
  using assms
proof (induction orders iter M rule: singleton_removal.induct)
  case (1 orders iter M)
  obtain M1 where M1: "fold visit_row (orders iter) (Some M) = Some M1" "pruned col0 col1 M M1"
    "remaining_rows M1 = remaining_rows M \<longrightarrow> M1 = M \<and> (\<forall>i\<in>set (orders iter). \<not> has_singleton M i)"
    using visit_rows_ok [OF 1(2)] by blast
  have step: "one_singleton_removal (orders iter) M = Some (remaining_rows M - remaining_rows M1, M1)"
    by (simp add: one_singleton_removal_def M1(1))
  show ?case
  proof (cases "remaining_rows M1 = remaining_rows M")
    case True
    then have "\<not> has_singleton M i" for i
      using M1(3) 1(3) [of iter] by (auto simp: has_singleton_def active_def is_active_def)
    then show ?thesis
      using step True M1 by (subst singleton_removal.simps) (simp add: excess_def)
  next
    case False
    have ok: "matrix_ok col0 col1 M1" "length (rows M1) = length (rows M)"
      using M1(2) by (auto simp: pruned_def deleted_def)
    have "\<exists>M'. singleton_removal orders (iter + 1) M1 = Some (excess M', M') \<and> pruned col0 col1 M1 M' \<and> (\<forall>i. \<not> has_singleton M' i)"
      by (rule "1.IH" [OF refl step refl]) (use False ok 1(3) in auto)
    then show ?thesis
      using step False pruned_trans [OF M1(2)] by (subst singleton_removal.simps) auto
  qed
qed

section \<open>Properties\<close>

text \<open>
  The matrix keeps its invariant (counters, weights of the columns up to saturation, range of the columns)
  when a row is inserted at a free index; a row that is there can be deleted without a failed
  assertion, which keeps the invariant and the other rows.
\<close>

theorem purge_matrix_invariant:
  assumes "matrix_ok col0 col1 M"
  shows "(\<not> is_active M i \<longrightarrow> matrix_ok col0 col1 (new_row i col0 col1 primes M))
    \<and> (is_active M i \<longrightarrow> (\<exists>M'. delete_row i M = Some M' \<and> matrix_ok col0 col1 M' \<and> active M' = active M - {i}
        \<and> (\<forall>j\<in>active M'. row_of M' j = row_of M j)))"
proof (cases "is_active M i")
  case True
  then obtain M' where "delete_row i M = Some M'" "matrix_ok col0 col1 M'" "deleted {i} M M'"
    using delete_row_ok [OF assms, of i] by (auto simp: active_def)
  then show ?thesis using True by (auto simp: deleted_def)
qed (use new_row_ok [OF assms] in simp)

text \<open>
  C13: The removal of singletons ends, in whatever order the threads visit the rows: no row that is left has a
  column of weight one, so each of its columns occurs at least twice or is saturated; the rows left are unchanged; every
  set of rows without singletons in itself is still there; the excess returned is the one of the matrix left, and
  not smaller than before.
\<close>

theorem singleton_removal_correct:
  assumes "matrix_ok col0 col1 M" "\<And>k. {..<length (rows M)} \<subseteq> set (orders k)"
  shows "\<exists>M'. singleton_removal orders iter M = Some (excess M', M') \<and> matrix_ok col0 col1 M' \<and> excess M \<le> excess M'
    \<and> active M' \<subseteq> active M \<and> (\<forall>i\<in>active M'. row_of M' i = row_of M i)
    \<and> (\<forall>i\<in>active M'. \<forall>h\<in>set (row_of M' i). wt (column_weights M') h = OVERWEIGHT \<or> 2 \<le> weight_in M' (active M') h)
    \<and> (\<forall>X. self_supporting M X \<longrightarrow> X \<subseteq> active M')"
proof -
  obtain M' where M': "singleton_removal orders iter M = Some (excess M', M')" "pruned col0 col1 M M'" "\<forall>i. \<not> has_singleton M' i"
    using singleton_removal_ok [of col0 col1 M orders iter] assms by blast
  have ok: "matrix_ok col0 col1 M'" using M'(2) by (simp add: pruned_def)
  have "wt (column_weights M') h = OVERWEIGHT \<or> 2 \<le> weight_in M' (active M') h"
    if i: "i \<in> active M'" "h \<in> set (row_of M' i)" for i h
  proof -
    have "wt (column_weights M') h \<noteq> 1" using M'(3) i by (auto simp: has_singleton_def)
    then show ?thesis using column_weight [OF ok i] occurs_positive(1) [OF ok i] by auto
  qed
  then show ?thesis
    using M'(1,2) by (intro exI [of _ M']) (auto simp: pruned_def deleted_def self_supporting_def)
qed

text \<open>An example: the last two rows go, one after the other.\<close>

definition ex_matrix :: purge_matrix where
  "ex_matrix = new_row 3 0 100 [1, 2] (new_row 4 0 100 [2, 3] (new_row 2 0 100 [0, 1, 7] (new_row 1 0 100 [7, 0]
     (new_row 0 0 100 [0, 1] empty_matrix))))"

lemma ex_matrix_ok: "matrix_ok 0 100 ex_matrix"
  unfolding ex_matrix_def by (intro new_row_ok empty_matrix_ok) code_simp+

theorem singleton_removal_correct_witness:
  "(\<exists>M'. singleton_removal (\<lambda>k. rev [0..<5]) 0 ex_matrix = Some (excess M', M') \<and> matrix_ok 0 100 M')
   \<and> map_option (\<lambda>(e, M). (e, map (\<lambda>r. r \<noteq> None) (rows M))) (singleton_removal (\<lambda>k. rev [0..<5]) 0 ex_matrix)
     = Some (0, [True, True, True, False, False])"
proof
  have "length (rows ex_matrix) = 5" by code_simp
  then have "{..<length (rows ex_matrix)} \<subseteq> set (rev [0..<5])" by auto
  then show "\<exists>M'. singleton_removal (\<lambda>k. rev [0..<5]) 0 ex_matrix = Some (excess M', M') \<and> matrix_ok 0 100 M'"
    using singleton_removal_correct [OF ex_matrix_ok, of "\<lambda>k. rev [0..<5]" 0] by blast
  show "map_option (\<lambda>(e, M). (e, map (\<lambda>r. r \<noteq> None) (rows M))) (singleton_removal (\<lambda>k. rev [0..<5]) 0 ex_matrix)
     = Some (0, [True, True, True, False, False])" by code_simp
qed

end
