(* ===== verification/CliqueRemoval.thy ===== *)
theory CliqueRemoval
  imports PurgeMatrix "HOL-Library.Product_Lexorder"
begin

text \<open>
  The removal of cliques in the purge program: \<^verbatim>\<open>src/filter/clique_removal.cpp\<close> and the driver in
  \<^verbatim>\<open>src/filter/purge.cpp\<close>. Rows that share a column of weight two are linked; the heaviest connected
  components are deleted until the excess is the wanted one. Weights are floating point numbers in the
  code, here elements of an ordered type with an addition; the weight function is a parameter. A failed
  assertion or the use of a null pointer gives \<open>None\<close>.
\<close>

section \<open>Connected components\<close>

definition sum2_row :: "purge_matrix \<Rightarrow> nat \<Rightarrow> nat list \<Rightarrow> nat list" where
  "sum2_row M i S = fold (\<lambda>h S. if column_weights M ! h = 2 then S[h := S ! h + i] else S) (row_of M i) S"

definition compute_sum2 :: "nat list \<Rightarrow> purge_matrix \<Rightarrow> nat list" where
  "compute_sum2 order M =
     fold (\<lambda>i S. if is_active M i then sum2_row M i S else S) order (replicate (length (column_weights M)) 0)"

text \<open>The scan of one row: a failed assertion, an earlier row in the component, too many rows, or all columns seen.\<close>

datatype 'w scan = Failed | Earlier "nat list" | Too_long | Scanned "nat list" 'w

definition ccc_quadratic_abort :: nat where
  "ccc_quadratic_abort = 10"

fun scan_row :: "(nat \<Rightarrow> 'w :: plus) \<Rightarrow> purge_matrix \<Rightarrow> nat list \<Rightarrow> nat \<Rightarrow> nat \<Rightarrow> nat list \<Rightarrow> nat list \<Rightarrow> 'w \<Rightarrow> 'w scan" where
  "scan_row f M S i0 i [] buf w = Scanned buf w"
| "scan_row f M S i0 i (h # hs) buf w =
     (let wh = column_weights M ! h; w = w + f wh
      in if wh = 2 \<and> S ! h \<noteq> 0
         then if \<not> i \<le> S ! h then Failed
              else let i1 = S ! h - i
                   in if i1 < i0 then Earlier buf
                      else if length buf \<ge> ccc_quadratic_abort then Too_long
                      else scan_row f M S i0 i hs (if i1 \<in> set buf then buf else buf @ [i1]) w
         else scan_row f M S i0 i hs buf w)"

fun scan_row_set :: "(nat \<Rightarrow> 'w :: plus) \<Rightarrow> purge_matrix \<Rightarrow> nat list \<Rightarrow> nat \<Rightarrow> nat \<Rightarrow> nat list
    \<Rightarrow> nat set \<Rightarrow> nat list \<Rightarrow> 'w \<Rightarrow> 'w scan \<times> nat set" where
  "scan_row_set f M S i0 i [] H buf w = (Scanned buf w, H)"
| "scan_row_set f M S i0 i (h # hs) H buf w =
     (let wh = column_weights M ! h; w = w + f wh
      in if wh = 2 \<and> S ! h \<noteq> 0
         then if \<not> i \<le> S ! h then (Failed, H)
              else let i1 = S ! h - i
                   in if i1 < i0 then (Earlier buf, H)
                      else if i1 \<in> H then scan_row_set f M S i0 i hs H buf w
                      else scan_row_set f M S i0 i hs (insert i1 H) (buf @ [i1]) w
         else scan_row_set f M S i0 i hs H buf w)"

text \<open>
  The loop over the rows of the buffer: the size (zero if the component has an earlier row), the
  weight, and the buffer, which the caller sees.
\<close>

type_synonym 'w found_component = "nat \<times> 'w \<times> nat list"

fun component_set_loop :: "(nat \<Rightarrow> 'w :: {plus, zero}) \<Rightarrow> purge_matrix \<Rightarrow> nat list \<Rightarrow> nat \<Rightarrow> nat \<Rightarrow> nat
    \<Rightarrow> nat set \<Rightarrow> nat list \<Rightarrow> 'w \<Rightarrow> 'w found_component option" where
  "component_set_loop f M S i0 0 k H buf w = None"
| "component_set_loop f M S i0 (Suc fuel) k H buf w =
     (if k < length buf
      then if \<not> is_active M (buf ! k) then None
           else case scan_row_set f M S i0 (buf ! k) (row_of M (buf ! k)) H buf w of
                  (Earlier buf, H) \<Rightarrow> Some (0, 0, buf)
                | (Scanned buf w, H) \<Rightarrow> component_set_loop f M S i0 fuel (k + 1) H buf w
                | _ \<Rightarrow> None
      else Some (length buf, w, buf))"

definition compute_connected_component_with_set ::
    "nat \<Rightarrow> nat list \<Rightarrow> (nat \<Rightarrow> 'w :: {plus, zero}) \<Rightarrow> purge_matrix \<Rightarrow> 'w found_component option" where
  "compute_connected_component_with_set i0 S f M =
     component_set_loop f M S i0 (length (rows M) + 2) 0 {i0} [i0] 0"

fun component_loop :: "(nat \<Rightarrow> 'w :: {plus, zero}) \<Rightarrow> purge_matrix \<Rightarrow> nat list \<Rightarrow> nat \<Rightarrow> nat \<Rightarrow> nat
    \<Rightarrow> nat list \<Rightarrow> 'w \<Rightarrow> 'w found_component option" where
  "component_loop f M S i0 0 k buf w = None"
| "component_loop f M S i0 (Suc fuel) k buf w =
     (if k < length buf
      then if \<not> is_active M (buf ! k) then None
           else case scan_row f M S i0 (buf ! k) (row_of M (buf ! k)) buf w of
                  Failed \<Rightarrow> None
                | Earlier buf \<Rightarrow> Some (0, 0, buf)
                | Too_long \<Rightarrow> compute_connected_component_with_set i0 S f M
                | Scanned buf w \<Rightarrow> component_loop f M S i0 fuel (k + 1) buf w
      else Some (length buf, w, buf))"

definition compute_connected_component ::
    "nat \<Rightarrow> nat list \<Rightarrow> (nat \<Rightarrow> 'w :: {plus, zero}) \<Rightarrow> purge_matrix \<Rightarrow> 'w found_component option" where
  "compute_connected_component i0 S f M = component_loop f M S i0 (length (rows M) + 2) 0 [i0] 0"

definition delete_rows :: "nat list \<Rightarrow> purge_matrix \<Rightarrow> purge_matrix option" where
  "delete_rows is M = fold (\<lambda>i s. case s of None \<Rightarrow> None | Some M \<Rightarrow> delete_row i M) is (Some M)"

definition delete_connected_component :: "nat \<Rightarrow> nat list \<Rightarrow> purge_matrix \<Rightarrow> purge_matrix option" where
  "delete_connected_component i0 S M =
     (case compute_connected_component i0 S (\<lambda>wh. 0 :: int) M of
        None \<Rightarrow> None
      | Some (len, w, buf) \<Rightarrow> delete_rows buf M)"

section \<open>Selection and removal\<close>

text \<open>
  A component is its weight and its first row, compared in this order. The heap of the code shows
  its least element only: here it is the sorted list.
\<close>

definition consider_component :: "nat \<Rightarrow> 'w :: linorder \<times> nat \<Rightarrow> ('w \<times> nat) list \<Rightarrow> ('w \<times> nat) list" where
  "consider_component max_nb_comp C Q =
     (if length Q < max_nb_comp then insort C Q
      else if fst C < fst (hd Q) then Q
      else insort C (tl Q))"

definition fragment :: "nat \<Rightarrow> nat list \<Rightarrow> (nat \<Rightarrow> 'w :: {linorder, plus, zero}) \<Rightarrow> purge_matrix \<Rightarrow> nat list
    \<Rightarrow> ('w \<times> nat) list option" where
  "fragment max_nb_comp S f M is =
     fold (\<lambda>i s. case s of None \<Rightarrow> None | Some Q \<Rightarrow>
        if is_active M i
        then (case compute_connected_component i S f M of
                None \<Rightarrow> None
              | Some (len, w, buf) \<Rightarrow> Some (if len = 0 then Q else consider_component max_nb_comp (w, i) Q))
        else Some Q) is (Some [])"

text \<open>The rows that thread \<open>k\<close> looks at: its turns are the blocks of 1024 rows.\<close>

definition thread_rows :: "nat \<Rightarrow> nat \<Rightarrow> nat \<Rightarrow> nat list" where
  "thread_rows nrows nthreads k = filter (\<lambda>i. (i div 1024) mod nthreads = k) [0..<nrows]"

fun all_fragments :: "('a \<Rightarrow> 'b list option) \<Rightarrow> 'a list \<Rightarrow> 'b list option" where
  "all_fragments g [] = Some []"
| "all_fragments g (x # xs) =
     (case g x of None \<Rightarrow> None | Some Q \<Rightarrow> map_option (\<lambda>Qs. Q @ Qs) (all_fragments g xs))"

text \<open>The components are taken from the heaviest on.\<close>

fun remove_components :: "int \<Rightarrow> nat list \<Rightarrow> nat list \<Rightarrow> nat \<Rightarrow> purge_matrix \<Rightarrow> (nat \<times> purge_matrix) option" where
  "remove_components target S [] n M = Some (n, M)"
| "remove_components target S (i # is) n M =
     (if excess M > target
      then case delete_connected_component i S M of None \<Rightarrow> None
           | Some M \<Rightarrow> remove_components target S is (n + 1) M
      else Some (n, M))"

definition clique_removal_core :: "nat list \<Rightarrow> int \<Rightarrow> nat \<Rightarrow> nat \<Rightarrow> (nat \<Rightarrow> 'w :: {linorder, plus, zero}) \<Rightarrow> purge_matrix
    \<Rightarrow> (nat \<times> purge_matrix) option" where
  "clique_removal_core S target max_nb_comp nthreads f M =
     (case all_fragments (\<lambda>k. fragment max_nb_comp S f M (thread_rows (length (rows M)) nthreads k)) [0..<nthreads] of
        None \<Rightarrow> None
      | Some all_Q \<Rightarrow> remove_components target S (map snd (rev (sort all_Q))) 0 M)"

definition clique_removal :: "nat list \<Rightarrow> int \<Rightarrow> nat \<Rightarrow> (nat \<Rightarrow> 'w :: {linorder, plus, zero}) \<Rightarrow> purge_matrix
    \<Rightarrow> purge_matrix option" where
  "clique_removal order target nthreads f M =
     (if excess M \<le> target then Some M
      else let max_nb_comp = nat (excess M - target);
               max_nb_comp = (if nthreads = 1 then max_nb_comp + max_nb_comp div 4 else max_nb_comp)
           in map_option snd (clique_removal_core (compute_sum2 order M) target max_nb_comp nthreads f M))"

section \<open>The driver\<close>

text \<open>
  The first pass after reading. \<open>Not_enough\<close> is the exit of the program with status two; \<open>too_small\<close> is the
  comparison of the excess with the required proportion of the columns; \<open>orders\<close> and \<open>sums\<close> are the
  schedules of the threads in each step. The quotient is the one of the language, which
  rounds to zero.
\<close>

datatype purge_outcome = Not_enough purge_matrix | Purged purge_matrix

definition trunc_div :: "int \<Rightarrow> int \<Rightarrow> int" where
  "trunc_div a b = (if a < 0 then - (- a div b) else a div b)"

definition choose_nsteps :: "int \<Rightarrow> int \<Rightarrow> int \<Rightarrow> int" where
  "choose_nsteps nsteps delta_excess ncols =
     (if nsteps < 0
      then if delta_excess \<le> 0 then 0
           else if delta_excess div 50 < ncols div 100 then 1 + (100 * delta_excess) div ncols
           else 50
      else nsteps)"

definition one_step :: "(nat \<Rightarrow> nat list) \<Rightarrow> nat list \<Rightarrow> nat \<Rightarrow> (nat \<Rightarrow> 'w :: {linorder, plus, zero}) \<Rightarrow> int \<Rightarrow> purge_matrix
    \<Rightarrow> purge_matrix option" where
  "one_step orders sums nthreads f target M =
     (case clique_removal sums target nthreads f M of None \<Rightarrow> None
      | Some M \<Rightarrow> map_option snd (singleton_removal orders 0 M))"

fun purge_steps :: "(nat \<Rightarrow> nat \<Rightarrow> nat list) \<Rightarrow> (nat \<Rightarrow> nat list) \<Rightarrow> nat \<Rightarrow> (nat \<Rightarrow> 'w :: {linorder, plus, zero}) \<Rightarrow> int \<Rightarrow> int
    \<Rightarrow> nat \<Rightarrow> purge_matrix \<Rightarrow> purge_matrix option" where
  "purge_steps orders sums nthreads f keep chunk 0 M = Some M"
| "purge_steps orders sums nthreads f keep chunk (Suc n) M =
     (if excess M > 0
      then case one_step (orders n) (sums n) nthreads f (max (excess M - chunk) keep) M of None \<Rightarrow> None
           | Some M \<Rightarrow> purge_steps orders sums nthreads f keep chunk n M
      else Some M)"

definition singleton_and_clique_removal :: "(nat \<Rightarrow> nat \<Rightarrow> nat list) \<Rightarrow> (nat \<Rightarrow> nat list) \<Rightarrow> nat \<Rightarrow> (nat \<Rightarrow> 'w :: {linorder, plus, zero})
    \<Rightarrow> (int \<Rightarrow> int \<Rightarrow> bool) \<Rightarrow> int \<Rightarrow> int \<Rightarrow> purge_matrix \<Rightarrow> purge_outcome option" where
  "singleton_and_clique_removal orders sums nthreads f too_small keep nsteps M =
     (case singleton_removal (orders 0) 0 M of None \<Rightarrow> None
      | Some (e, M) \<Rightarrow>
          if excess M \<le> 0 \<or> too_small (excess M) (remaining_columns M) then Some (Not_enough M)
          else
            let delta_excess = excess M - keep;
                nsteps = choose_nsteps nsteps delta_excess (remaining_columns M);
                chunk = (if nsteps > 0 then trunc_div delta_excess nsteps else 0)
            in case purge_steps (orders \<circ> Suc) sums nthreads f keep chunk (nat nsteps) M of None \<Rightarrow> None
               | Some M \<Rightarrow>
                   if excess M > keep \<and> nsteps > 0
                   then map_option Purged (one_step (orders 0) (sums 0) nthreads f keep M)
                   else Some (Purged M))"

definition pass1_end :: "int \<Rightarrow> purge_outcome \<Rightarrow> purge_outcome" where
  "pass1_end keep r = (case r of Not_enough M \<Rightarrow> Not_enough M
     | Purged M \<Rightarrow> if remaining_rows M < remaining_columns M + keep then Not_enough M
         else if remaining_rows M = 0 \<or> remaining_rows M = 0 then Not_enough M
         else Purged M)"

section \<open>The two versions\<close>

lemma scan_versions:
  "scan_row f M S i0 i hs buf w = Too_long \<or> scan_row f M S i0 i hs buf w = fst (scan_row_set f M S i0 i hs (set buf) buf w)"
proof (induction hs arbitrary: buf w)
  case (Cons h hs)
  have "set (buf @ [S ! h - i]) = insert (S ! h - i) (set buf)" by simp
  then show ?case
    using Cons.IH [of "buf @ [S ! h - i]" "w + f (column_weights M ! h)"] Cons.IH [of buf "w + f (column_weights M ! h)"]
    by (auto simp: Let_def)
qed simp

lemma scan_row_set_buffer:
  "scan_row_set f M S i0 i hs (set buf) buf w = (Scanned buf' w', H') \<Longrightarrow> H' = set buf'"
proof (induction hs arbitrary: buf w)
  case (Cons h hs)
  have e: "set (buf @ [S ! h - i]) = insert (S ! h - i) (set buf)" by simp
  show ?case
    using Cons.prems Cons.IH [of "buf @ [S ! h - i]"] Cons.IH [of buf] unfolding e
    by (auto simp: Let_def split: if_splits)
qed simp

lemma loop_versions:
  "component_loop f M S i0 fuel k buf w = compute_connected_component_with_set i0 S f M
   \<or> component_loop f M S i0 fuel k buf w = component_set_loop f M S i0 fuel k (set buf) buf w"
proof (induction fuel arbitrary: k buf w)
  case (Suc fuel)
  define i where "i = buf ! k"
  consider "scan_row f M S i0 i (row_of M i) buf w = Too_long"
    | "scan_row f M S i0 i (row_of M i) buf w = fst (scan_row_set f M S i0 i (row_of M i) (set buf) buf w)"
    using scan_versions by blast
  then show ?case
  proof cases
    case 1
    then show ?thesis by (simp add: i_def)
  next
    case 2
    obtain r H where r: "scan_row_set f M S i0 i (row_of M i) (set buf) buf w = (r, H)" by (metis surj_pair)
    show ?thesis
    proof (cases r)
      case (Scanned buf' w')
      then show ?thesis
        using 2 r Suc.IH [of "k + 1" buf' w'] scan_row_set_buffer [of f M S i0 i "row_of M i" buf w buf' w' H]
        by (auto simp: i_def)
    qed (use 2 r in \<open>auto simp: i_def\<close>)
  qed
qed simp

lemma component_versions:
  "compute_connected_component i0 S f M = compute_connected_component_with_set i0 S f M"
  using loop_versions [of f M S i0 "length (rows M) + 2" 0 "[i0]" 0]
  by (auto simp: compute_connected_component_def compute_connected_component_with_set_def)

section \<open>Links\<close>

text \<open>The sums that the components are found by, as they are while components are deleted.\<close>

definition sum2_ok :: "purge_matrix \<Rightarrow> nat list \<Rightarrow> bool" where
  "sum2_ok M S \<longleftrightarrow> (\<forall>i\<in>active M. \<forall>h\<in>set (row_of M i). S ! h \<noteq> 0 \<longrightarrow> wt (column_weights M) h \<le> 2
     \<and> (wt (column_weights M) h = 2 \<longrightarrow> S ! h = (\<Sum>j\<in>active M. j * count_list (row_of M j) h)))"

definition link :: "purge_matrix \<Rightarrow> nat list \<Rightarrow> (nat \<times> nat) set" where
  "link M S = {(i, j). i \<in> active M \<and> j \<in> active M
     \<and> (\<exists>h. h \<in> set (row_of M i) \<and> h \<in> set (row_of M j) \<and> wt (column_weights M) h = 2 \<and> S ! h \<noteq> 0 \<and> S ! h = i + j)}"

lemma partner:
  assumes ok: "matrix_ok col0 col1 M" and S: "sum2_ok M S" and i: "i \<in> active M" "h \<in> set (row_of M i)"
    and h: "wt (column_weights M) h = 2" "S ! h \<noteq> 0"
  shows "\<exists>j\<in>active M. h \<in> set (row_of M j) \<and> S ! h = i + j \<and> (\<forall>j'\<in>active M. h \<in> set (row_of M j') \<longrightarrow> j' = i \<or> j' = j)"
proof -
  define c where "c = (\<lambda>j. count_list (row_of M j) h)"
  define A where "A = active M - {i}"
  have A: "finite A" "i \<notin> A" "active M = insert i A" using i(1) by (auto simp: A_def)
  have c: "h \<in> set (row_of M j) \<longleftrightarrow> c j \<noteq> 0" for j by (simp add: c_def count_list_0_iff)
  have "weight_in M (active M) h = 2" using column_weight [OF ok i] h(1) by (auto simp: OVERWEIGHT_def)
  then have two: "c i + sum c A = 2" using A by (simp add: weight_in_def c_def)
  have "S ! h = (\<Sum>j\<in>active M. j * c j)" using S i h by (auto simp: sum2_ok_def c_def)
  then have sum: "S ! h = i * c i + (\<Sum>j\<in>A. j * c j)" using A by simp
  have "c i \<noteq> 0" using i(2) c by simp
  then consider "c i = 2" "sum c A = 0" | "c i = 1" "sum c A = 1" using two by linarith
  then show ?thesis
  proof cases
    case 1
    then have "\<forall>j\<in>A. c j = 0" using A(1) by simp
    then show ?thesis using 1 sum i c A by (intro bexI [of _ i]) auto
  next
    case 2
    then obtain j where j: "j \<in> A" "c j \<noteq> 0" by (metis sum.neutral zero_neq_one)
    then have "c j + sum c (A - {j}) = 1" using 2(2) A(1) by (metis sum.remove)
    then have "c j = 1" "sum c (A - {j}) = 0" using j(2) by simp_all
    then have z: "\<forall>j'\<in>A - {j}. c j' = 0" using A(1) by simp
    have "(\<Sum>j\<in>A. j * c j) = j * c j + (\<Sum>j\<in>A - {j}. j * c j)" using j(1) A(1) by (rule sum.remove [rotated])
    then have "S ! h = i + j" using sum 2(1) \<open>c j = 1\<close> z by simp
    then show ?thesis using j z c A by (intro bexI [of _ j]) auto
  qed
qed

text \<open>The columns of weight two that do not leave a set of rows.\<close>

definition inner :: "purge_matrix \<Rightarrow> nat set \<Rightarrow> nat set" where
  "inner M X = {h. wt (column_weights M) h = 2 \<and> (\<exists>i\<in>X. h \<in> set (row_of M i)) \<and> (\<forall>j\<in>active M - X. h \<notin> set (row_of M j))}"

lemma finite_inner [simp]: "finite (inner M X)"
  by (rule finite_subset [OF _ finite_used [of "column_weights M"]]) (auto simp: inner_def used_def)

text \<open>The invariant of the buffer: rows of one component, tied together by columns of weight two.\<close>

definition buffer_ok :: "purge_matrix \<Rightarrow> nat list \<Rightarrow> nat \<Rightarrow> nat list \<Rightarrow> bool" where
  "buffer_ok M S i0 buf \<longleftrightarrow> distinct buf \<and> set buf \<subseteq> active M \<and> (\<forall>j\<in>set buf. i0 \<le> j \<and> (i0, j) \<in> (link M S)\<^sup>*)
     \<and> length buf \<le> 1 + card (inner M (set buf))"

lemma buffer_grows:
  assumes ok: "matrix_ok col0 col1 M" and S: "sum2_ok M S" and buf: "buffer_ok M S i0 buf" and i: "i \<in> set buf"
    and h: "h \<in> set (row_of M i)" "wt (column_weights M) h = 2" "S ! h \<noteq> 0" and new: "i0 \<le> S ! h - i" "S ! h - i \<notin> set buf"
  shows "buffer_ok M S i0 (buf @ [S ! h - i])"
proof -
  have ia: "i \<in> active M" using buf i by (auto simp: buffer_ok_def)
  obtain j where j: "j \<in> active M" "h \<in> set (row_of M j)" "S ! h = i + j"
    "\<forall>j'\<in>active M. h \<in> set (row_of M j') \<longrightarrow> j' = i \<or> j' = j"
    using partner [OF ok S ia h] by blast
  then have [simp]: "S ! h - i = j" by simp
  have "(i, j) \<in> link M S" using j ia h by (auto simp: link_def)
  then have reach: "(i0, j) \<in> (link M S)\<^sup>*" using buf i by (auto simp: buffer_ok_def intro: rtrancl_into_rtrancl)
  have "h \<in> inner M (insert j (set buf))" using h j i by (auto simp: inner_def)
  moreover have "h \<notin> inner M (set buf)" using j new(2) by (auto simp: inner_def)
  moreover have "inner M (set buf) \<subseteq> inner M (insert j (set buf))" by (auto simp: inner_def)
  ultimately have "card (inner M (set buf)) < card (inner M (insert j (set buf)))" by (intro psubset_card_mono) auto
  then show ?thesis using buf new j(1) reach by (auto simp: buffer_ok_def)
qed

lemma link_next:
  assumes ok: "matrix_ok col0 col1 M" and S: "sum2_ok M S" and i: "i \<in> active M"
    and h: "h \<in> set (row_of M i)" "wt (column_weights M) h = 2" "S ! h \<noteq> 0"
  shows "i \<le> S ! h" "(i, S ! h - i) \<in> link M S"
proof -
  obtain j where j: "j \<in> active M" "h \<in> set (row_of M j)" "S ! h = i + j"
    using partner [OF ok S i h] by blast
  then show "i \<le> S ! h" "(i, S ! h - i) \<in> link M S" using i h by (auto simp: link_def)
qed

text \<open>The scan of a row: an earlier row of the component, or all rows that a part of the columns links to.\<close>

definition links_by :: "purge_matrix \<Rightarrow> nat list \<Rightarrow> nat \<Rightarrow> nat list \<Rightarrow> nat set" where
  "links_by M S i hs = {S ! h - i |h. h \<in> set hs \<and> wt (column_weights M) h = 2 \<and> S ! h \<noteq> 0}"

lemma links_by_Cons:
  "links_by M S i (h # hs) =
    (if wt (column_weights M) h = 2 \<and> S ! h \<noteq> 0 then insert (S ! h - i) (links_by M S i hs) else links_by M S i hs)"
  by (auto simp: links_by_def)

lemma links_by_row: "(i, j) \<in> link M S \<Longrightarrow> j \<in> links_by M S i (row_of M i)"
  unfolding link_def links_by_def by force

lemma scan_row_set_ok:
  assumes ok: "matrix_ok col0 col1 M" and S: "sum2_ok M S" and ia: "i \<in> active M"
  shows "buffer_ok M S i0 buf \<Longrightarrow> i \<in> set buf \<Longrightarrow> set hs \<subseteq> set (row_of M i) \<Longrightarrow>
    (\<exists>j H. scan_row_set f M S i0 i hs (set buf) buf w = (Earlier j, H)) \<and> (\<exists>j<i0. (i, j) \<in> link M S)
    \<or> (\<exists>extra w'. scan_row_set f M S i0 i hs (set buf) buf w = (Scanned (buf @ extra) w', set (buf @ extra))
        \<and> buffer_ok M S i0 (buf @ extra) \<and> links_by M S i hs \<subseteq> set (buf @ extra))"
proof (induction hs arbitrary: buf w)
  case Nil
  then show ?case by (intro disjI2 exI [of _ "[]"]) (simp add: links_by_def)
next
  case (Cons h hs)
  have h: "h \<in> set (row_of M i)" "set hs \<subseteq> set (row_of M i)" using Cons.prems(3) by simp_all
  have st: "column_weights M ! h = wt (column_weights M) h"
    using occurs_positive(2) [OF ok ia h(1)] by (intro stored_weight) simp
  define j where "j = S ! h - i"
  define w1 where "w1 = w + f (column_weights M ! h)"
  show ?case
  proof (cases "wt (column_weights M) h = 2 \<and> S ! h \<noteq> 0")
    case False
    then show ?thesis
      using Cons.IH [OF Cons.prems(1,2) h(2), of w1] st by (auto simp: Let_def links_by_Cons w1_def)
  next
    case True
    note l = link_next [OF ok S ia h(1) conjunct1 [OF True] conjunct2 [OF True], folded j_def]
    consider "j < i0" | "i0 \<le> j" "j \<in> set buf" | "i0 \<le> j" "j \<notin> set buf" by linarith
    then show ?thesis
    proof cases
      case 1
      then show ?thesis using True l st by (auto simp: Let_def j_def)
    next
      case 2
      then have "scan_row_set f M S i0 i (h # hs) (set buf) buf w = scan_row_set f M S i0 i hs (set buf) buf w1"
        using True l st by (auto simp: Let_def j_def w1_def)
      then show ?thesis
        using Cons.IH [OF Cons.prems(1,2) h(2), of w1] True 2 by (auto simp: links_by_Cons j_def)
    next
      case 3
      have e: "set (buf @ [j]) = insert j (set buf)" by simp
      have step: "scan_row_set f M S i0 i (h # hs) (set buf) buf w = scan_row_set f M S i0 i hs (set (buf @ [j])) (buf @ [j]) w1"
        using True l st 3 unfolding e by (auto simp: Let_def j_def w1_def)
      have "buffer_ok M S i0 (buf @ [j])"
        using buffer_grows [OF ok S Cons.prems(1,2) h(1)] True 3 by (simp add: j_def)
      then have "(\<exists>j' H. scan_row_set f M S i0 i hs (set (buf @ [j])) (buf @ [j]) w1 = (Earlier j', H)) \<and> (\<exists>j<i0. (i, j) \<in> link M S)
        \<or> (\<exists>extra w'. scan_row_set f M S i0 i hs (set (buf @ [j])) (buf @ [j]) w1 = (Scanned ((buf @ [j]) @ extra) w', set ((buf @ [j]) @ extra))
            \<and> buffer_ok M S i0 ((buf @ [j]) @ extra) \<and> links_by M S i hs \<subseteq> set ((buf @ [j]) @ extra))"
        by (rule Cons.IH) (use Cons.prems(2) h(2) in auto)
      then show ?thesis
      proof (elim disjE exE conjE)
        fix j' H jj
        assume "scan_row_set f M S i0 i hs (set (buf @ [j])) (buf @ [j]) w1 = (Earlier j', H)" "jj < i0" "(i, jj) \<in> link M S"
        then show ?thesis unfolding step by blast
      next
        fix extra w'
        assume "scan_row_set f M S i0 i hs (set (buf @ [j])) (buf @ [j]) w1 = (Scanned ((buf @ [j]) @ extra) w', set ((buf @ [j]) @ extra))"
          "buffer_ok M S i0 ((buf @ [j]) @ extra)" "links_by M S i hs \<subseteq> set ((buf @ [j]) @ extra)"
        then show ?thesis unfolding step
          using True by (intro disjI2 exI [of _ "j # extra"] exI [of _ w']) (auto simp: links_by_Cons j_def)
      qed
    qed
  qed
qed

lemma buffer_length: "buffer_ok M S i0 buf \<Longrightarrow> length buf \<le> length (rows M)"
proof -
  assume "buffer_ok M S i0 buf"
  then have "distinct buf" "set buf \<subseteq> {..<length (rows M)}" by (auto simp: buffer_ok_def active_def is_active_def)
  then have "card (set buf) \<le> card {..<length (rows M)}" by (intro card_mono) auto
  then show ?thesis using \<open>distinct buf\<close> by (simp add: distinct_card)
qed

definition component :: "purge_matrix \<Rightarrow> nat list \<Rightarrow> nat \<Rightarrow> nat set" where
  "component M S i0 = {j. (i0, j) \<in> (link M S)\<^sup>*}"

text \<open>The loop: no failure; size zero if a row of the component comes before the first, otherwise the component.\<close>

lemma component_set_loop_ok:
  assumes ok: "matrix_ok col0 col1 M" and S: "sum2_ok M S"
  shows "buffer_ok M S i0 buf \<Longrightarrow> i0 \<in> set buf \<Longrightarrow> k \<le> length buf \<Longrightarrow> length (rows M) < fuel + k \<Longrightarrow>
    (\<forall>i\<in>set (take k buf). links_by M S i (row_of M i) \<subseteq> set buf) \<Longrightarrow>
    (\<exists>buf'. component_set_loop f M S i0 fuel k (set buf) buf w = Some (0, 0, buf')) \<and> (\<exists>j\<in>component M S i0. j < i0)
    \<or> (\<exists>buf' w'. component_set_loop f M S i0 fuel k (set buf) buf w = Some (length buf', w', buf')
        \<and> buffer_ok M S i0 buf' \<and> set buf' = component M S i0)"
proof (induction fuel arbitrary: k buf w)
  case 0
  then show ?case using buffer_length [OF 0(1)] by simp
next
  case (Suc fuel)
  show ?case
  proof (cases "k < length buf")
    case False
    then have closed: "links_by M S i (row_of M i) \<subseteq> set buf" if "i \<in> set buf" for i using Suc.prems(3,5) that by simp
    have "j \<in> set buf" if "(i0, j) \<in> (link M S)\<^sup>*" for j
      using that by (induction rule: rtrancl_induct) (use Suc.prems(2) closed links_by_row in blast)+
    then have "set buf = component M S i0" using Suc.prems(1) by (auto simp: component_def buffer_ok_def)
    then show ?thesis using False Suc.prems(1) by auto
  next
    case True
    define i where "i = buf ! k"
    have i: "i \<in> set buf" "i \<in> active M" using True Suc.prems(1) by (auto simp: i_def buffer_ok_def)
    from scan_row_set_ok [OF ok S i(2) Suc.prems(1) i(1) subset_refl, of f w]
    show ?thesis
    proof (elim disjE conjE exE)
      fix b H j
      assume e: "scan_row_set f M S i0 i (row_of M i) (set buf) buf w = (Earlier b, H)" and j: "j < i0" "(i, j) \<in> link M S"
      have "j \<in> component M S i0"
        using Suc.prems(1) i j by (auto simp: buffer_ok_def component_def intro: rtrancl_into_rtrancl)
      then show ?thesis using e True i(2) j(1) by (auto simp: i_def [symmetric] active_def)
    next
      fix extra w'
      assume e: "scan_row_set f M S i0 i (row_of M i) (set buf) buf w = (Scanned (buf @ extra) w', set (buf @ extra))"
        and b: "buffer_ok M S i0 (buf @ extra)" and l: "links_by M S i (row_of M i) \<subseteq> set (buf @ extra)"
      have t: "take (k + 1) (buf @ extra) = take k buf @ [i]"
        using True by (simp add: take_Suc_conv_app_nth i_def)
      have c: "\<forall>i\<in>set (take (k + 1) (buf @ extra)). links_by M S i (row_of M i) \<subseteq> set (buf @ extra)"
        unfolding t using Suc.prems(5) l by auto
      have "component_set_loop f M S i0 (Suc fuel) k (set buf) buf w = component_set_loop f M S i0 fuel (k + 1) (set (buf @ extra)) (buf @ extra) w'"
        using e True i(2) by (simp add: i_def [symmetric] active_def)
      moreover have "(\<exists>buf'. component_set_loop f M S i0 fuel (k + 1) (set (buf @ extra)) (buf @ extra) w' = Some (0, 0, buf')) \<and> (\<exists>j\<in>component M S i0. j < i0)
        \<or> (\<exists>buf' w''. component_set_loop f M S i0 fuel (k + 1) (set (buf @ extra)) (buf @ extra) w' = Some (length buf', w'', buf')
            \<and> buffer_ok M S i0 buf' \<and> set buf' = component M S i0)"
        by (rule Suc.IH) (use b c Suc.prems(2-4) True in auto)
      ultimately show ?thesis by simp
    qed
  qed
qed

lemma component_ok:
  assumes "matrix_ok col0 col1 M" "sum2_ok M S" "i0 \<in> active M"
  shows "(\<exists>buf. compute_connected_component i0 S f M = Some (0, 0, buf)) \<and> (\<exists>j\<in>component M S i0. j < i0)
    \<or> (\<exists>buf w. compute_connected_component i0 S f M = Some (length buf, w, buf)
        \<and> buffer_ok M S i0 buf \<and> set buf = component M S i0)"
proof -
  have b: "buffer_ok M S i0 [i0]" using assms(3) by (simp add: buffer_ok_def)
  have s: "{i0} = set [i0]" by simp
  show ?thesis
    unfolding component_versions compute_connected_component_with_set_def s
    by (rule component_set_loop_ok [OF assms(1,2) b]) auto
qed

section \<open>Deleting a component\<close>

lemma delete_rows_ok:
  "matrix_ok col0 col1 M \<Longrightarrow> distinct is \<Longrightarrow> set is \<subseteq> active M \<Longrightarrow>
    \<exists>M'. delete_rows is M = Some M' \<and> matrix_ok col0 col1 M' \<and> deleted (set is) M M'"
proof (induction "is" arbitrary: M)
  case Nil
  then show ?case using deleted_refl by (simp add: delete_rows_def)
next
  case (Cons i "is")
  obtain M1 where M1: "delete_row i M = Some M1" "matrix_ok col0 col1 M1" "deleted {i} M M1"
    using delete_row_ok [OF Cons.prems(1)] Cons.prems(3) by auto
  have "set is \<subseteq> active M1" using Cons.prems M1(3) by (auto simp: deleted_def)
  then obtain M' where "delete_rows is M1 = Some M'" "matrix_ok col0 col1 M'" "deleted (set is) M1 M'"
    using Cons.IH [OF M1(2)] Cons.prems(2) by auto
  then show ?case using M1 deleted_trans [OF M1(3), of "set is" M'] by (simp add: delete_rows_def)
qed

lemma sum_kept:
  fixes c :: "nat \<Rightarrow> nat"
  assumes "finite A" "B \<subseteq> A" "sum c A = sum c B"
  shows "(\<Sum>j\<in>A. j * c j) = (\<Sum>j\<in>B. j * c j)"
proof -
  have "sum c A = sum c (A - B) + sum c B" using assms(1,2) by (rule sum.subset_diff [rotated])
  then have "\<forall>j\<in>A - B. c j = 0" using assms by simp
  then show ?thesis using assms(1,2) by (intro sum.mono_neutral_right) auto
qed

lemma sum2_ok_deleted:
  assumes ok: "matrix_ok col0 col1 M" "matrix_ok col0 col1 M'" and d: "deleted Y M M'" and S: "sum2_ok M S"
  shows "sum2_ok M' S"
  unfolding sum2_ok_def
proof (intro ballI impI conjI)
  fix i h
  assume i: "i \<in> active M'" "h \<in> set (row_of M' i)" "S ! h \<noteq> 0"
  have iM: "i \<in> active M" "h \<in> set (row_of M i)" using i d by (auto simp: deleted_def)
  have w: "wt (column_weights M') h \<le> wt (column_weights M) h" using d by (simp add: deleted_def)
  have w2: "wt (column_weights M) h \<le> 2" using S iM i(3) by (auto simp: sum2_ok_def)
  then show "wt (column_weights M') h \<le> 2" using w by simp
  assume two: "wt (column_weights M') h = 2"
  then have eq: "wt (column_weights M) h = 2" using w w2 by simp
  define c where "c = (\<lambda>j. count_list (row_of M j) h)"
  have c': "count_list (row_of M' j) h = c j" if "j \<in> active M'" for j using d that by (simp add: c_def deleted_def)
  have "weight_in M (active M) h = weight_in M' (active M') h"
    using column_weight [OF ok(1) iM] column_weight [OF ok(2) i(1,2)] two eq by (auto simp: OVERWEIGHT_def)
  then have "sum c (active M) = sum c (active M')" using c' by (simp add: weight_in_def c_def)
  then have "(\<Sum>j\<in>active M. j * c j) = (\<Sum>j\<in>active M'. j * c j)"
    using d by (intro sum_kept) (auto simp: deleted_def)
  then show "S ! h = (\<Sum>j\<in>active M'. j * count_list (row_of M' j) h)"
    using S iM i(3) eq c' by (auto simp: sum2_ok_def c_def)
qed

lemma link_sym: "sym (link M S)"
  by (auto simp: link_def sym_def add.commute)

lemma link_deleted:
  assumes "deleted Y M M'" "sum2_ok M S"
  shows "link M' S \<subseteq> link M S"
proof
  fix x
  assume "x \<in> link M' S"
  then obtain i j h where x: "x = (i, j)" "i \<in> active M'" "j \<in> active M'" "h \<in> set (row_of M' i)" "h \<in> set (row_of M' j)"
    "wt (column_weights M') h = 2" "S ! h \<noteq> 0" "S ! h = i + j" by (auto simp: link_def)
  then have m: "i \<in> active M" "j \<in> active M" "h \<in> set (row_of M i)" "h \<in> set (row_of M j)"
    using assms(1) by (auto simp: deleted_def)
  moreover have "wt (column_weights M) h \<le> 2" "wt (column_weights M') h \<le> wt (column_weights M) h"
    using assms m(1,3) x(7) by (auto simp: sum2_ok_def deleted_def)
  ultimately show "x \<in> link M S" using x by (auto simp: link_def)
qed

lemma link_kept:
  assumes ok: "matrix_ok col0 col1 M" "matrix_ok col0 col1 M'" and d: "deleted Y M M'"
    and l: "(i, j) \<in> link M S" "i \<in> active M'" "j \<in> active M'" "i \<noteq> j"
  shows "(i, j) \<in> link M' S"
proof -
  obtain h where h: "h \<in> set (row_of M i)" "h \<in> set (row_of M j)" "wt (column_weights M) h = 2" "S ! h \<noteq> 0" "S ! h = i + j"
    using l(1) by (auto simp: link_def)
  have h': "h \<in> set (row_of M' i)" "h \<in> set (row_of M' j)" using h d l by (auto simp: deleted_def)
  have "weight_in M' {i, j} h \<le> weight_in M' (active M') h" using l by (intro weight_in_mono) auto
  moreover have "2 \<le> weight_in M' {i, j} h"
    using h' l(4) count_list_0_iff [of "row_of M' i" h] count_list_0_iff [of "row_of M' j" h] by (simp add: weight_in_def)
  moreover have "wt (column_weights M') h \<le> 2" using d h(3) by (auto simp: deleted_def dest: spec [of _ h])
  ultimately have "wt (column_weights M') h = 2"
    using column_weight [OF ok(2) l(2) h'(1)] by (auto simp: OVERWEIGHT_def)
  then show ?thesis using h h' l by (auto simp: link_def)
qed

lemma component_refl: "i \<in> component M S i"
  by (simp add: component_def)

lemma component_closed: "(a, b) \<in> link M S \<Longrightarrow> a \<in> component M S i \<longleftrightarrow> b \<in> component M S i"
  unfolding component_def using link_sym [of M S] by (auto simp: sym_def intro: rtrancl_into_rtrancl)

lemma component_eq: "j \<in> component M S i \<Longrightarrow> component M S j = component M S i"
proof -
  assume "j \<in> component M S i"
  then have "(i, j) \<in> (link M S)\<^sup>*" "(j, i) \<in> (link M S)\<^sup>*"
    using sym_rtrancl [OF link_sym [of M S]] by (auto simp: component_def sym_def)
  then show ?thesis by (auto simp: component_def intro: rtrancl_trans)
qed

lemma component_active: "i \<in> active M \<Longrightarrow> component M S i \<subseteq> active M"
  unfolding component_def by (auto elim: rtranclE simp: link_def)

text \<open>A component that keeps its rows is a component of the smaller matrix too.\<close>

lemma component_deleted:
  assumes ok: "matrix_ok col0 col1 M" "matrix_ok col0 col1 M'" and d: "deleted Y M M'" and S: "sum2_ok M S"
    and c: "component M S i \<inter> Y = {}" and i: "i \<in> active M"
  shows "component M' S i = component M S i"
proof
  show "component M' S i \<subseteq> component M S i"
    unfolding component_def using rtrancl_mono [OF link_deleted [OF d S]] by auto
  have act: "component M S i \<subseteq> active M'" using c component_active [OF i] d by (auto simp: deleted_def)
  have "(i, j) \<in> (link M' S)\<^sup>*" if "(i, j) \<in> (link M S)\<^sup>*" for j
    using that
  proof (induction rule: rtrancl_induct)
    case (step a b)
    have "a \<in> active M'" "b \<in> active M'"
      using act step(1,2) by (auto simp: component_def intro: rtrancl_into_rtrancl)
    then have "a = b \<or> (a, b) \<in> link M' S" using link_kept [OF ok d step(2)] by blast
    then show ?case using step(3) by (auto intro: rtrancl_into_rtrancl)
  qed simp
  then show "component M S i \<subseteq> component M' S i" by (auto simp: component_def)
qed

lemma inner_unused:
  assumes ok: "matrix_ok col0 col1 M" "matrix_ok col0 col1 M'" and d: "deleted X M M'" and X: "X \<subseteq> active M"
  shows "used (column_weights M') \<subseteq> used (column_weights M) - inner M X"
proof
  fix h
  assume h: "h \<in> used (column_weights M')"
  have le: "wt (column_weights M') h \<le> wt (column_weights M) h" using d by (simp add: deleted_def)
  have "h \<notin> inner M X"
  proof
    assume "h \<in> inner M X"
    then obtain i where i: "i \<in> X" "h \<in> set (row_of M i)" and two: "wt (column_weights M) h = 2"
      and out: "\<forall>j\<in>active M - X. h \<notin> set (row_of M j)" by (auto simp: inner_def)
    have "weight_in M' (active M') h = 0"
      using out d by (auto simp: weight_in_def deleted_def count_list_0_iff)
    moreover have "col0 \<le> h \<and> h < col1" using row_range [OF ok(1) _ i(2)] i(1) X by auto
    ultimately show False using h le two ok(2) by (auto simp: matrix_ok_def used_iff OVERWEIGHT_def)
  qed
  then show "h \<in> used (column_weights M) - inner M X" using h le by (auto simp: used_iff)
qed

lemma delete_component_excess:
  assumes ok: "matrix_ok col0 col1 M" "matrix_ok col0 col1 M'" and d: "deleted (set buf) M M'" and b: "buffer_ok M S i0 buf"
  shows "excess M \<le> excess M' + 1"
proof -
  have X: "set buf \<subseteq> active M" "card (set buf) = length buf" "length buf \<le> 1 + card (inner M (set buf))"
    using b by (auto simp: buffer_ok_def distinct_card)
  have "inner M (set buf) \<subseteq> used (column_weights M)" by (auto simp: inner_def used_def)
  then have "card (used (column_weights M) - inner M (set buf)) + card (inner M (set buf)) = card (used (column_weights M))"
    by (subst card_Diff_subset) (auto simp: card_mono)
  moreover have "card (used (column_weights M')) \<le> card (used (column_weights M) - inner M (set buf))"
    using inner_unused [OF ok d X(1)] by (intro card_mono) auto
  moreover have "card (active M') + length buf = card (active M)"
    using d X card_mono [OF _ X(1)] by (simp add: deleted_def card_Diff_subset)
  ultimately show ?thesis using ok X(3) by (simp add: excess_def matrix_ok_def)
qed

lemma delete_component_ok:
  assumes ok: "matrix_ok col0 col1 M" and S: "sum2_ok M S" and i: "i \<in> active M" and first: "\<forall>j\<in>component M S i. i \<le> j"
  obtains M' where "delete_connected_component i S M = Some M'" "matrix_ok col0 col1 M'" "sum2_ok M' S"
    "deleted (component M S i) M M'" "excess M \<le> excess M' + 1"
proof -
  obtain buf w where b: "compute_connected_component i S (\<lambda>wh. 0 :: int) M = Some (length buf, w, buf)"
    "buffer_ok M S i buf" "set buf = component M S i"
    using component_ok [OF ok S i, of "\<lambda>wh. 0 :: int"] first by force
  have "distinct buf" "set buf \<subseteq> active M" using b(2) by (simp_all add: buffer_ok_def)
  then obtain M' where M': "delete_rows buf M = Some M'" "matrix_ok col0 col1 M'" "deleted (set buf) M M'"
    using delete_rows_ok [OF ok, of buf] by blast
  show ?thesis
    by (rule that [of M']) (use b M' sum2_ok_deleted [OF ok M'(2,3) S] delete_component_excess [OF ok M'(2,3) b(2)] in
      \<open>simp_all add: delete_connected_component_def\<close>)
qed

section \<open>The removal loop\<close>

text \<open>The first rows of components.\<close>

definition first_rows :: "purge_matrix \<Rightarrow> nat list \<Rightarrow> nat set" where
  "first_rows M S = {i \<in> active M. \<forall>j\<in>component M S i. i \<le> j}"

lemma first_rows_disjoint:
  assumes "i \<in> first_rows M S" "j \<in> first_rows M S" "i \<noteq> j"
  shows "component M S i \<inter> component M S j = {}"
proof (rule ccontr)
  assume "component M S i \<inter> component M S j \<noteq> {}"
  then have "component M S i = component M S j" by (auto dest: component_eq)
  then have "i \<le> j" "j \<le> i" using assms component_refl [of i M S] component_refl [of j M S] by (auto simp: first_rows_def)
  then show False using assms(3) by simp
qed

text \<open>What removing components amounts to: a number of them, from the start of the list, is deleted.\<close>

lemma remove_components_ok:
  "matrix_ok col0 col1 M \<Longrightarrow> sum2_ok M S \<Longrightarrow> distinct is \<Longrightarrow> set is \<subseteq> first_rows M S \<Longrightarrow> target \<le> excess M \<Longrightarrow>
    \<exists>m M'. m \<le> length is \<and> remove_components target S is n M = Some (n + m, M') \<and> matrix_ok col0 col1 M'
      \<and> deleted (\<Union>i\<in>set (take m is). component M S i) M M' \<and> target \<le> excess M' \<and> (m < length is \<longrightarrow> excess M' = target)"
proof (induction "is" arbitrary: n M)
  case Nil
  then show ?case using deleted_refl by simp
next
  case (Cons i "is")
  show ?case
  proof (cases "excess M > target")
    case False
    then show ?thesis using Cons.prems deleted_refl by (intro exI [of _ 0] exI [of _ M]) simp
  next
    case True
    have i: "i \<in> active M" "\<forall>j\<in>component M S i. i \<le> j" using Cons.prems(4) by (auto simp: first_rows_def)
    obtain M1 where M1: "delete_connected_component i S M = Some M1" "matrix_ok col0 col1 M1" "sum2_ok M1 S"
      "deleted (component M S i) M M1" "excess M \<le> excess M1 + 1"
      using delete_component_ok [OF Cons.prems(1,2) i] by blast
    have other: "component M1 S j = component M S j" "j \<in> active M1" if "j \<in> set is" for j
    proof -
      have "j \<in> first_rows M S" "j \<noteq> i" using that Cons.prems(3,4) by auto
      then have disj: "component M S j \<inter> component M S i = {}" and "j \<in> active M"
        using first_rows_disjoint [of j M S i] Cons.prems(4) by (auto simp: first_rows_def)
      then show "component M1 S j = component M S j" by (intro component_deleted [OF Cons.prems(1) M1(2,4) Cons.prems(2)])
      show "j \<in> active M1" using disj \<open>j \<in> active M\<close> M1(4) component_refl [of j M S] by (auto simp: deleted_def)
    qed
    have "set is \<subseteq> first_rows M1 S" using other Cons.prems(4) by (auto simp: first_rows_def)
    then obtain m M' where M': "m \<le> length is" "remove_components target S is (n + 1) M1 = Some (n + 1 + m, M')" "matrix_ok col0 col1 M'"
      "deleted (\<Union>j\<in>set (take m is). component M1 S j) M1 M'" "target \<le> excess M'" "m < length is \<longrightarrow> excess M' = target"
      using Cons.IH [OF M1(2,3), of "n + 1"] Cons.prems(3) True M1(5) by auto
    have "(\<Union>j\<in>set (take m is). component M1 S j) = (\<Union>j\<in>set (take m is). component M S j)"
      using other by (auto dest: in_set_takeD)
    then have "deleted (component M S i \<union> (\<Union>j\<in>set (take m is). component M S j)) M M'"
      using deleted_trans [OF M1(4)] M'(4) by simp
    then show ?thesis using M' M1(1) True by (intro exI [of _ "Suc m"] exI [of _ M']) auto
  qed
qed

section \<open>The sums\<close>

lemma sum2_row_value:
  assumes "h < length S"
  shows "length (sum2_row M i S) = length S"
    "sum2_row M i S ! h = S ! h + (if column_weights M ! h = 2 then i * count_list (row_of M i) h else 0)"
proof -
  have "length (fold (\<lambda>h S. if column_weights M ! h = 2 then S[h := S ! h + i] else S) hs S) = length S
      \<and> fold (\<lambda>h S. if column_weights M ! h = 2 then S[h := S ! h + i] else S) hs S ! h
        = S ! h + (if column_weights M ! h = 2 then i * count_list hs h else 0)" for hs
    using assms
  proof (induction hs arbitrary: S)
    case (Cons g hs)
    define S1 where "S1 = (if column_weights M ! g = 2 then S[g := S ! g + i] else S)"
    have "h < length S1" using Cons.prems by (simp add: S1_def)
    then show ?case using Cons.IH [of S1] Cons.prems by (auto simp: S1_def nth_list_update algebra_simps)
  qed simp
  then show "length (sum2_row M i S) = length S"
    "sum2_row M i S ! h = S ! h + (if column_weights M ! h = 2 then i * count_list (row_of M i) h else 0)"
    by (simp_all add: sum2_row_def)
qed

lemma compute_sum2_fold:
  "h < length S \<Longrightarrow> fold (\<lambda>i S. if is_active M i then sum2_row M i S else S) is S ! h
    = S ! h + (if column_weights M ! h = 2 then (\<Sum>i\<leftarrow>filter (is_active M) is. i * count_list (row_of M i) h) else 0)"
proof (induction "is" arbitrary: S)
  case (Cons i "is")
  then show ?case using sum2_row_value [OF Cons.prems, of M i] by auto
qed simp

lemma compute_sum2_ok:
  assumes ok: "matrix_ok col0 col1 M" and order: "distinct order" "set order = {..<length (rows M)}"
  shows "sum2_ok M (compute_sum2 order M)"
  unfolding sum2_ok_def
proof (intro ballI impI)
  fix i h
  assume i: "i \<in> active M" "h \<in> set (row_of M i)" and nz: "compute_sum2 order M ! h \<noteq> 0"
  have h: "h < length (column_weights M)" "column_weights M ! h = wt (column_weights M) h"
    using occurs_positive(2) [OF ok i] stored_weight by (auto simp: wt_def split: if_splits)
  have act: "set (filter (is_active M) order) = active M" using order(2) by (auto simp: active_def is_active_def)
  have "compute_sum2 order M ! h = (if column_weights M ! h = 2 then (\<Sum>i\<leftarrow>filter (is_active M) order. i * count_list (row_of M i) h) else 0)"
    using h(1) compute_sum2_fold [of h "replicate (length (column_weights M)) 0" M order] by (simp add: compute_sum2_def)
  moreover have "(\<Sum>i\<leftarrow>filter (is_active M) order. i * count_list (row_of M i) h) = (\<Sum>i\<in>active M. i * count_list (row_of M i) h)"
    using order(1) act by (simp add: sum_list_distinct_conv_sum_set)
  ultimately show "wt (column_weights M) h \<le> 2 \<and> (wt (column_weights M) h = 2 \<longrightarrow>
      compute_sum2 order M ! h = (\<Sum>j\<in>active M. j * count_list (row_of M j) h))"
    using nz h(2) by (auto split: if_splits)
qed

section \<open>The heaviest components\<close>

definition heaviest :: "nat \<Rightarrow> 'a :: linorder list \<Rightarrow> 'a list" where
  "heaviest K xs = drop (length xs - K) (sort xs)"

definition push_bounded :: "nat \<Rightarrow> 'a :: linorder \<Rightarrow> 'a list \<Rightarrow> 'a list" where
  "push_bounded K x Q = drop (length Q + 1 - K) (insort x Q)"

lemma insort_drop_small:
  "sorted s \<Longrightarrow> m < length s \<Longrightarrow> x \<le> s ! m \<Longrightarrow> drop (Suc m) (insort x s) = drop m s"
proof (induction s arbitrary: m)
  case (Cons a s)
  show ?case
  proof (cases m)
    case (Suc m')
    then show ?thesis using Cons by (cases "x \<le> a") auto
  qed (use Cons.prems in auto)
qed simp

lemma insort_drop_large:
  "sorted s \<Longrightarrow> m < length s \<Longrightarrow> s ! m < x \<Longrightarrow> drop (Suc m) (insort x s) = insort x (drop (Suc m) s)"
proof (induction s arbitrary: m)
  case (Cons a s)
  have "a \<le> (a # s) ! m" using Cons.prems(1,2) by (cases m) auto
  then have "a < x" using Cons.prems(3) by simp
  then show ?case using Cons by (cases m) auto
qed simp

lemma sort_snoc: "sort (xs @ [x]) = insort x (sort xs)"
  by (rule properties_for_sort) (simp_all add: sorted_insort)

lemma heaviest_snoc: "heaviest K (xs @ [x]) = push_bounded K x (heaviest K xs)"
proof (cases "length xs < K")
  case True
  then show ?thesis by (simp add: heaviest_def push_bounded_def sort_snoc)
next
  case False
  define m where "m = length xs - K"
  have e: "heaviest K (xs @ [x]) = drop (Suc m) (insort x (sort xs))" "length xs + 1 - K = Suc m"
    using False by (simp_all add: heaviest_def sort_snoc m_def Suc_diff_le)
  have l: "length (heaviest K xs) = K" using False by (simp add: heaviest_def)
  show ?thesis
  proof (cases "K = 0")
    case True
    then show ?thesis by (simp add: heaviest_def push_bounded_def)
  next
    case False
    then have m: "m < length (sort xs)" using \<open>\<not> length xs < K\<close> by (simp add: m_def)
    have q: "heaviest K xs = sort xs ! m # drop (Suc m) (sort xs)"
      using m by (simp add: heaviest_def m_def [symmetric] Cons_nth_drop_Suc)
    have "push_bounded K x (heaviest K xs) = drop 1 (insort x (heaviest K xs))" by (simp add: push_bounded_def l)
    also have "\<dots> = (if x \<le> sort xs ! m then heaviest K xs else insort x (drop (Suc m) (sort xs)))" by (simp add: q)
    also have "\<dots> = drop (Suc m) (insort x (sort xs))"
      using insort_drop_small [OF sorted_sort m, of x] insort_drop_large [OF sorted_sort m, of x]
      by (auto simp: heaviest_def m_def [symmetric])
    finally show ?thesis using e(1) by simp
  qed
qed

lemma heaviest_fold: "heaviest K (xs @ ys) = fold (push_bounded K) ys (heaviest K xs)"
proof (induction ys rule: rev_induct)
  case (snoc y ys)
  then show ?case using heaviest_snoc [of K "xs @ ys" y] by simp
qed simp

lemma heaviest_heaviest: "heaviest K (heaviest K xs) = heaviest K xs"
  by (simp add: heaviest_def sorted_wrt_drop sort_key_id_if_sorted)

lemma heaviest_mset: "mset xs = mset ys \<Longrightarrow> heaviest K xs = heaviest K ys"
  by (metis heaviest_def mset_sort properties_for_sort size_mset sorted_sort)

lemma heaviest_append: "heaviest K (heaviest K xs @ ys) = heaviest K (xs @ ys)"
  by (simp add: heaviest_fold heaviest_heaviest)

lemma heaviest_commute: "heaviest K (xs @ ys) = heaviest K (ys @ xs)"
  by (rule heaviest_mset) simp

lemma heaviest_concat: "heaviest K (concat (map (heaviest K) xss)) = heaviest K (concat xss)"
proof (induction xss)
  case (Cons xs xss)
  have "heaviest K (concat (map (heaviest K) (xs # xss))) = heaviest K (concat (map (heaviest K) xss) @ xs)"
    by (simp add: heaviest_append heaviest_commute)
  also have "\<dots> = heaviest K (heaviest K (concat xss) @ xs)"
    using heaviest_append [of K "concat (map (heaviest K) xss)" xs] Cons.IH by simp
  also have "\<dots> = heaviest K (concat (xs # xss))"
    using heaviest_append [of K "concat xss" xs] heaviest_commute [of K "concat xss" xs] by simp
  finally show ?case .
qed simp

lemma take_rev_sort: "take K (rev (sort xs)) = rev (heaviest K xs)"
  by (cases "K \<le> length xs") (simp_all add: heaviest_def rev_drop)

lemma consider_push:
  assumes "0 < K" "length Q \<le> K" "sorted Q" "\<And>c. c \<in> set Q \<Longrightarrow> snd c < snd C"
  shows "consider_component K C Q = push_bounded K C Q"
proof (cases "length Q < K")
  case False
  then obtain q Q' where q: "Q = q # Q'" "length Q = K" using assms(1,2) by (cases Q) auto
  then have "C \<le> q \<longleftrightarrow> fst C < fst q" using assms(4) [of q] by (cases C; cases q) (auto simp: less_le_not_le)
  then show ?thesis using q by (simp add: consider_component_def push_bounded_def)
qed (simp add: consider_component_def push_bounded_def)

lemma push_bounded_facts:
  assumes "sorted Q" "length Q \<le> K"
  shows "sorted (push_bounded K C Q)" "length (push_bounded K C Q) \<le> K" "set (push_bounded K C Q) \<subseteq> insert C (set Q)"
  using assms set_drop_subset [of "length Q + 1 - K" "insort C Q"]
  by (auto simp: push_bounded_def sorted_wrt_drop sorted_insort set_insort_key)

lemma consider_all:
  assumes "0 < K"
  shows "sorted Q \<Longrightarrow> length Q \<le> K \<Longrightarrow> sorted_wrt (<) (map snd cs) \<Longrightarrow> (\<And>c d. c \<in> set Q \<Longrightarrow> d \<in> set cs \<Longrightarrow> snd c < snd d)
    \<Longrightarrow> fold (consider_component K) cs Q = fold (push_bounded K) cs Q"
proof (induction cs arbitrary: Q)
  case (Cons c cs)
  note p = push_bounded_facts [OF Cons.prems(1,2), of c]
  have "fold (consider_component K) cs (push_bounded K c Q) = fold (push_bounded K) cs (push_bounded K c Q)"
  proof (rule Cons.IH [OF p(1,2)])
    show "snd x < snd d" if "x \<in> set (push_bounded K c Q)" "d \<in> set cs" for x d
      using that p(3) Cons.prems(3) Cons.prems(4) [of x d] by auto
  qed (use Cons.prems(3) in simp)
  moreover have "consider_component K c Q = push_bounded K c Q"
    using Cons.prems by (intro consider_push [OF assms]) auto
  ultimately show ?case by simp
qed simp

definition component_weight :: "(nat \<Rightarrow> 'w :: {linorder, plus, zero}) \<Rightarrow> purge_matrix \<Rightarrow> nat list \<Rightarrow> nat \<Rightarrow> 'w" where
  "component_weight f M S i = (case compute_connected_component i S f M of None \<Rightarrow> 0 | Some (len, w, buf) \<Rightarrow> w)"

definition components_among :: "(nat \<Rightarrow> 'w :: {linorder, plus, zero}) \<Rightarrow> purge_matrix \<Rightarrow> nat list \<Rightarrow> nat list \<Rightarrow> ('w \<times> nat) list" where
  "components_among f M S is = map (\<lambda>i. (component_weight f M S i, i)) (filter (\<lambda>i. i \<in> first_rows M S) is)"

lemma fragment_value:
  assumes ok: "matrix_ok col0 col1 M" and S: "sum2_ok M S" and K: "0 < K" and "is": "sorted_wrt (<) is"
  shows "fragment K S f M is = Some (heaviest K (components_among f M S is))"
proof -
  have "fold (\<lambda>i s. case s of None \<Rightarrow> None | Some Q \<Rightarrow>
        if is_active M i
        then (case compute_connected_component i S f M of
                None \<Rightarrow> None
              | Some (len, w, buf) \<Rightarrow> Some (if len = 0 then Q else consider_component K (w, i) Q))
        else Some Q) xs (Some Q) = Some (fold (consider_component K) (components_among f M S xs) Q)" for xs Q
  proof (induction xs arbitrary: Q)
    case (Cons i xs)
    show ?case
    proof (cases "i \<in> active M")
      case False
      then show ?thesis using Cons by (simp add: components_among_def first_rows_def active_def)
    next
      case True
      then have a: "is_active M i" by (simp add: active_def)
      from component_ok [OF ok S True, of f] show ?thesis
      proof (elim disjE conjE exE bexE)
        fix buf j
        assume c: "compute_connected_component i S f M = Some (0, 0, buf)" and "j \<in> component M S i" "j < i"
        then have "i \<notin> first_rows M S" unfolding first_rows_def by (metis (mono_tags, lifting) mem_Collect_eq not_le)
        then show ?thesis using a c Cons by (simp add: components_among_def)
      next
        fix buf w
        assume c: "compute_connected_component i S f M = Some (length buf, w, buf)" and b: "buffer_ok M S i buf" "set buf = component M S i"
        have "i \<in> first_rows M S" using True b by (auto simp: first_rows_def buffer_ok_def)
        moreover have "length buf \<noteq> 0" using b(2) component_refl [of i M S] by auto
        ultimately show ?thesis using a c Cons by (simp add: components_among_def component_weight_def)
      qed
    qed
  qed (simp add: components_among_def)
  moreover have "fold (consider_component K) (components_among f M S is) [] = fold (push_bounded K) (components_among f M S is) []"
    using "is" by (intro consider_all [OF K]) (auto simp: components_among_def comp_def sorted_wrt_filter)
  moreover have "fold (push_bounded K) (components_among f M S is) [] = heaviest K (components_among f M S is)"
    using heaviest_fold [of K "[]" "components_among f M S is"] by (simp add: heaviest_def)
  ultimately show ?thesis by (simp add: fragment_def)
qed

lemma all_fragments_value:
  "(\<And>k. k \<in> set ks \<Longrightarrow> g k = Some (Q k)) \<Longrightarrow> all_fragments g ks = Some (concat (map Q ks))"
  by (induction ks) auto

lemma distinct_concat_by:
  "distinct ks \<Longrightarrow> (\<And>k. distinct (F k)) \<Longrightarrow> (\<And>k x. x \<in> set (F k) \<Longrightarrow> p x = k) \<Longrightarrow> distinct (concat (map F ks))"
proof (induction ks)
  case (Cons a ks)
  have "set (F a) \<inter> set (concat (map F ks)) = {}"
    using Cons.prems(1,3) by (auto dest!: Cons.prems(3))
  then show ?case using Cons by simp
qed simp

lemma heaviest_subset: "set (heaviest K xs) \<subseteq> set xs"
  using set_drop_subset [of "length xs - K" "sort xs"] by (simp add: heaviest_def)

lemma distinct_map_sort: "distinct (map g (sort xs)) \<longleftrightarrow> distinct (map g xs)"
  by (metis mset_eq_imp_distinct_iff mset_map mset_sort)

lemma heaviest_distinct: "distinct (map g xs) \<Longrightarrow> distinct (map g (heaviest K xs))"
  unfolding heaviest_def drop_map [symmetric] by (intro distinct_drop) (simp add: distinct_map_sort)

lemma components_distinct: "distinct is \<Longrightarrow> distinct (map snd (components_among f M S is))"
  by (simp add: components_among_def comp_def)

lemma components_in: "x \<in> set (components_among f M S is) \<Longrightarrow> snd x \<in> set is \<inter> first_rows M S"
  by (auto simp: components_among_def)

text \<open>The lists of all threads hold, as far as the bound goes, the heaviest components of the matrix.\<close>

lemma thread_components:
  fixes f :: "nat \<Rightarrow> 'w :: {linorder, plus, zero}" and M S K
  assumes t: "0 < nthreads"
  defines "n \<equiv> length (rows M)"
  defines "Q \<equiv> concat (map (\<lambda>k. heaviest K (components_among f M S (thread_rows n nthreads k))) [0..<nthreads])"
  shows "heaviest K Q = heaviest K (components_among f M S [0..<n])" "distinct (map snd Q)" "set (map snd Q) \<subseteq> first_rows M S"
proof -
  define C where "C = (\<lambda>k. components_among f M S (thread_rows n nthreads k))"
  define p where "p = (\<lambda>i :: nat. (i div 1024) mod nthreads)"
  have C: "snd x \<in> first_rows M S \<and> p (snd x) = k" if "x \<in> set (C k)" for x k
    using components_in [OF that [unfolded C_def]] by (simp add: thread_rows_def p_def)
  have Cd: "distinct (map snd (C k))" for k unfolding C_def by (intro components_distinct) (simp add: thread_rows_def)
  have Q: "Q = concat (map (heaviest K) (map C [0..<nthreads]))" by (simp add: Q_def C_def comp_def)
  have "distinct (concat (map C [0..<nthreads]))"
    by (rule distinct_concat_by [where p = "\<lambda>x. p (snd x)"]) (use C Cd in \<open>auto simp: distinct_map\<close>)
  moreover have "distinct (components_among f M S [0..<n])"
    using components_distinct [of "[0..<n]" f M S] by (simp add: distinct_map)
  moreover have "set (concat (map C [0..<nthreads])) = set (components_among f M S [0..<n])"
    using t by (fastforce simp: C_def components_among_def thread_rows_def)
  ultimately have "mset (concat (map C [0..<nthreads])) = mset (components_among f M S [0..<n])"
    using set_eq_iff_mset_eq_distinct by blast
  then show "heaviest K Q = heaviest K (components_among f M S [0..<n])"
    unfolding Q heaviest_concat by (rule heaviest_mset)
  have s: "map snd Q = concat (map (\<lambda>k. map snd (heaviest K (C k))) [0..<nthreads])"
    by (simp add: Q map_concat comp_def)
  show "distinct (map snd Q)"
    unfolding s by (rule distinct_concat_by [where p = p]) (use C heaviest_subset [of K] heaviest_distinct [OF Cd] in fastforce)+
  show "set (map snd Q) \<subseteq> first_rows M S" unfolding Q using C heaviest_subset by fastforce
qed

lemma clique_removal_core_ok:
  assumes ok: "matrix_ok col0 col1 M" and S: "sum2_ok M S" and K: "0 < K" and t: "0 < nthreads" and target: "target \<le> excess M"
  shows "\<exists>L m M'. clique_removal_core S target K nthreads f M = Some (m, M') \<and> m \<le> length L
    \<and> take K L = take K (map snd (rev (sort (components_among f M S [0..<length (rows M)]))))
    \<and> distinct L \<and> set L \<subseteq> first_rows M S \<and> matrix_ok col0 col1 M'
    \<and> deleted (\<Union>i\<in>set (take m L). component M S i) M M' \<and> target \<le> excess M' \<and> (m < length L \<longrightarrow> excess M' = target)"
proof -
  define n where "n = length (rows M)"
  define Q where "Q = concat (map (\<lambda>k. heaviest K (components_among f M S (thread_rows n nthreads k))) [0..<nthreads])"
  define L where "L = map snd (rev (sort Q))"
  have "sorted_wrt (<) (thread_rows n nthreads k)" for k
    unfolding thread_rows_def by (intro sorted_wrt_filter) simp
  then have q: "all_fragments (\<lambda>k. fragment K S f M (thread_rows n nthreads k)) [0..<nthreads] = Some Q"
    unfolding Q_def by (intro all_fragments_value fragment_value [OF ok S K])
  note c = thread_components [OF t, of K f M S, folded n_def, folded Q_def]
  have d: "distinct L" "set L \<subseteq> first_rows M S"
    using c(2,3) by (auto simp: L_def rev_map [symmetric] distinct_map_sort)
  have "take K L = map snd (take K (rev (sort Q)))" by (simp add: L_def take_map)
  also have "\<dots> = take K (map snd (rev (sort (components_among f M S [0..<n]))))"
    unfolding take_rev_sort c(1) by (simp add: take_map take_rev_sort)
  finally have e: "take K L = take K (map snd (rev (sort (components_among f M S [0..<n]))))" .
  obtain m M' where "m \<le> length L" "remove_components target S L 0 M = Some (m, M')" "matrix_ok col0 col1 M'"
    "deleted (\<Union>i\<in>set (take m L). component M S i) M M'" "target \<le> excess M'" "m < length L \<longrightarrow> excess M' = target"
    using remove_components_ok [OF ok S d target, of 0] by auto
  then show ?thesis
    using q d e by (intro exI [of _ L] exI [of _ m] exI [of _ M']) (simp add: clique_removal_core_def n_def L_def)
qed

section \<open>Steps and the driver\<close>

text \<open>The schedules visit every row, those of the sums exactly once.\<close>

definition schedules_ok :: "nat \<Rightarrow> (nat \<Rightarrow> nat \<Rightarrow> nat list) \<Rightarrow> (nat \<Rightarrow> nat list) \<Rightarrow> bool" where
  "schedules_ok n orders sums \<longleftrightarrow> (\<forall>s k. {..<n} \<subseteq> set (orders s k)) \<and> (\<forall>s. distinct (sums s) \<and> set (sums s) = {..<n})"

definition no_singletons :: "purge_matrix \<Rightarrow> bool" where
  "no_singletons M \<longleftrightarrow> (\<forall>i. \<not> has_singleton M i)"

text \<open>What the driver keeps: the invariant, the rows that are left as they were, an excess not below the wanted one.\<close>

definition kept :: "nat \<Rightarrow> nat \<Rightarrow> purge_matrix \<Rightarrow> purge_matrix \<Rightarrow> bool" where
  "kept col0 col1 M M' \<longleftrightarrow> matrix_ok col0 col1 M' \<and> (\<exists>Y. deleted Y M M')"

lemma kept_trans: "kept col0 col1 M M1 \<Longrightarrow> kept col0 col1 M1 M2 \<Longrightarrow> kept col0 col1 M M2"
  using deleted_trans by (fastforce simp: kept_def)

lemma kept_length: "kept col0 col1 M M' \<Longrightarrow> length (rows M') = length (rows M)"
  by (auto simp: kept_def deleted_def)

lemma clique_removal_ok:
  assumes ok: "matrix_ok col0 col1 M" and order: "distinct order" "set order = {..<length (rows M)}" and t: "0 < nthreads"
  shows "\<exists>M'. clique_removal order target nthreads f M = Some M' \<and> kept col0 col1 M M' \<and> min (excess M) target \<le> excess M'"
proof (cases "excess M \<le> target")
  case True
  then show ?thesis using ok deleted_refl by (auto simp: clique_removal_def kept_def)
next
  case False
  define K where "K = (if nthreads = 1 then nat (excess M - target) + nat (excess M - target) div 4 else nat (excess M - target))"
  have K: "0 < K" using False by (auto simp: K_def)
  have le: "target \<le> excess M" using False by simp
  obtain m M' L where "clique_removal_core (compute_sum2 order M) target K nthreads f M = Some (m, M')" "matrix_ok col0 col1 M'"
    "deleted (\<Union>i\<in>set (take m L). component M (compute_sum2 order M) i) M M'" "target \<le> excess M'"
    using clique_removal_core_ok [OF ok compute_sum2_ok [OF ok order] K t le, of f] by blast
  then show ?thesis using False by (auto simp: clique_removal_def kept_def K_def Let_def)
qed

lemma one_step_ok:
  assumes "matrix_ok col0 col1 M" "schedules_ok (length (rows M)) orders sums" "0 < nthreads"
  shows "\<exists>M'. one_step (orders s) (sums s') nthreads f target M = Some M' \<and> kept col0 col1 M M' \<and> no_singletons M'
    \<and> min (excess M) target \<le> excess M'"
proof -
  have order: "distinct (sums s')" "set (sums s') = {..<length (rows M)}" using assms(2) by (simp_all add: schedules_ok_def)
  obtain M1 where M1: "clique_removal (sums s') target nthreads f M = Some M1" "kept col0 col1 M M1" "min (excess M) target \<le> excess M1"
    using clique_removal_ok [OF assms(1) order assms(3), of target f] by blast
  have "matrix_ok col0 col1 M1" "\<And>k. {..<length (rows M1)} \<subseteq> set (orders s k)"
    using M1(2) assms(2) kept_length [OF M1(2)] by (simp_all add: kept_def schedules_ok_def)
  then obtain M' where "singleton_removal (orders s) 0 M1 = Some (excess M', M')" "pruned col0 col1 M1 M'" "no_singletons M'"
    using singleton_removal_ok [of col0 col1 M1 "orders s" 0] by (auto simp: no_singletons_def)
  moreover from this have "kept col0 col1 M1 M'" "excess M1 \<le> excess M'" by (auto simp: kept_def pruned_def)
  ultimately show ?thesis using M1 kept_trans by (fastforce simp: one_step_def)
qed

lemma purge_steps_ok:
  assumes "0 < nthreads"
  shows "matrix_ok col0 col1 M \<Longrightarrow> schedules_ok (length (rows M)) orders sums \<Longrightarrow> no_singletons M \<Longrightarrow>
    \<exists>M'. purge_steps orders sums nthreads f keep chunk n M = Some M' \<and> kept col0 col1 M M' \<and> no_singletons M'
      \<and> min (excess M) keep \<le> excess M'"
proof (induction n arbitrary: M)
  case 0
  then show ?case using deleted_refl by (auto simp: kept_def)
next
  case (Suc n)
  show ?case
  proof (cases "excess M > 0")
    case False
    then show ?thesis using Suc.prems deleted_refl by (auto simp: kept_def)
  next
    case True
    obtain M1 where M1: "one_step (orders n) (sums n) nthreads f (max (excess M - chunk) keep) M = Some M1" "kept col0 col1 M M1"
      "no_singletons M1" "min (excess M) (max (excess M - chunk) keep) \<le> excess M1"
      using one_step_ok [OF Suc.prems(1,2) assms] by blast
    have "matrix_ok col0 col1 M1" "schedules_ok (length (rows M1)) orders sums"
      using M1(2) Suc.prems(2) kept_length [OF M1(2)] by (simp_all add: kept_def)
    then obtain M' where "purge_steps orders sums nthreads f keep chunk n M1 = Some M'" "kept col0 col1 M1 M'" "no_singletons M'"
      "min (excess M1) keep \<le> excess M'"
      using Suc.IH M1(3) by blast
    then show ?thesis using M1 True kept_trans [OF M1(2)] by (auto simp: min_le_iff_disj le_max_iff_disj)
  qed
qed

section \<open>Components and shared columns\<close>

text \<open>Two rows share a column of weight two.\<close>

definition shares :: "purge_matrix \<Rightarrow> (nat \<times> nat) set" where
  "shares M = {(i, j). i \<in> active M \<and> j \<in> active M
     \<and> (\<exists>h. h \<in> set (row_of M i) \<and> h \<in> set (row_of M j) \<and> wt (column_weights M) h = 2)}"

lemma compute_sum2_value:
  assumes "distinct order" "set order = {..<length (rows M)}" "wt (column_weights M) h = 2"
  shows "compute_sum2 order M ! h = (\<Sum>i\<in>active M. i * count_list (row_of M i) h)"
proof -
  have h: "h < length (column_weights M)" "column_weights M ! h = 2"
    using assms(3) by (auto simp: wt_def split: if_splits)
  have "set (filter (is_active M) order) = active M" using assms(2) by (auto simp: active_def is_active_def)
  then have "(\<Sum>i\<leftarrow>filter (is_active M) order. i * count_list (row_of M i) h) = (\<Sum>i\<in>active M. i * count_list (row_of M i) h)"
    using assms(1) by (simp add: sum_list_distinct_conv_sum_set)
  then show ?thesis
    using h compute_sum2_fold [of h "replicate (length (column_weights M)) 0" M order] by (simp add: compute_sum2_def)
qed

lemma shares_link:
  assumes ok: "matrix_ok col0 col1 M" and order: "distinct order" "set order = {..<length (rows M)}"
    and ij: "(i, j) \<in> shares M" "i \<noteq> j"
  shows "(i, j) \<in> link M (compute_sum2 order M)"
proof -
  obtain h where a: "i \<in> active M" "j \<in> active M" and h: "h \<in> set (row_of M i)" "h \<in> set (row_of M j)" "wt (column_weights M) h = 2"
    using ij(1) by (auto simp: shares_def)
  define c where "c = (\<lambda>k. count_list (row_of M k) h)"
  have "c i \<noteq> 0" "c j \<noteq> 0" using h by (simp_all add: c_def count_list_0_iff)
  moreover have "sum c (active M) = 2"
    using column_weight [OF ok a(1) h(1)] h(3) by (simp add: weight_in_def c_def OVERWEIGHT_def)
  moreover have "sum c {i, j} \<le> sum c (active M)" using a by (intro sum_mono2) auto
  moreover have "sum c {i, j} = c i + c j" using ij(2) by simp
  ultimately have "sum c (active M) = sum c {i, j}" "c i = 1" "c j = 1" by linarith+
  then have "(\<Sum>k\<in>active M. k * c k) = (\<Sum>k\<in>{i, j}. k * c k)" using a by (intro sum_kept) auto
  then have "compute_sum2 order M ! h = i + j"
    using compute_sum2_value [OF order h(3)] ij(2) \<open>c i = 1\<close> \<open>c j = 1\<close> by (simp add: c_def)
  then show ?thesis using a h ij(2) by (auto simp: link_def)
qed

lemma component_shares:
  assumes "matrix_ok col0 col1 M" "distinct order" "set order = {..<length (rows M)}"
  shows "component M (compute_sum2 order M) i = {j. (i, j) \<in> (shares M)\<^sup>*}"
proof -
  have "link M (compute_sum2 order M) \<subseteq> shares M" by (auto simp: link_def shares_def)
  moreover have "shares M \<subseteq> (link M (compute_sum2 order M))\<^sup>*"
    using shares_link [OF assms] by (auto intro: r_into_rtrancl)
  ultimately have "(link M (compute_sum2 order M))\<^sup>* = (shares M)\<^sup>*" by (rule rtrancl_subset [symmetric])
  then show ?thesis by (simp add: component_def)
qed

section \<open>Properties\<close>

text \<open>An example with a component of two rows.\<close>

definition ex_cliques :: purge_matrix where
  "ex_cliques = new_row 6 0 100 [3, 1] (new_row 5 0 100 [3, 0] (new_row 4 0 100 [0, 2] (new_row 3 0 100 [2, 1]
     (new_row 2 0 100 [1, 2] (new_row 1 0 100 [0, 1] (new_row 0 0 100 [0, 1] empty_matrix))))))"

lemma ex_cliques_ok: "matrix_ok 0 100 ex_cliques"
  unfolding ex_cliques_def by (intro new_row_ok empty_matrix_ok) code_simp+

lemma ex_cliques_rows: "length (rows ex_cliques) = 7" "set [0..<7] = {..<length (rows ex_cliques)}" "excess ex_cliques = 3"
proof -
  show 7: "length (rows ex_cliques) = 7" by code_simp
  show "set [0..<7] = {..<length (rows ex_cliques)}" unfolding 7 by auto
  show "excess ex_cliques = 3" by code_simp
qed

text \<open>
  C17: The search of a component with the buffer alone, which starts again with a set once ten rows are
  found, and the search with a set return the same size, weight and buffer, on every matrix.
\<close>

theorem component_searches_agree:
  "compute_connected_component i0 S f M = compute_connected_component_with_set i0 S f M"
  by (rule component_versions)

text \<open>
  C16: The connected component of a row: no assertion fails and the loop ends; the size is zero exactly if a row that
  is connected to it comes before it, otherwise the buffer holds, each once, the rows that are connected to it by
  columns of weight two.
\<close>

theorem connected_component_correct:
  assumes "matrix_ok col0 col1 M" "distinct order" "set order = {..<length (rows M)}" "i0 \<in> active M"
  shows "\<exists>len w buf. compute_connected_component i0 (compute_sum2 order M) f M = Some (len, w, buf)
    \<and> (if \<exists>j<i0. (i0, j) \<in> (shares M)\<^sup>* then len = 0
       else len = length buf \<and> distinct buf \<and> set buf = {j. (i0, j) \<in> (shares M)\<^sup>*})"
  using component_ok [OF assms(1) compute_sum2_ok [OF assms(1-3)] assms(4), of f]
proof (elim disjE conjE exE bexE)
  fix buf j
  assume "compute_connected_component i0 (compute_sum2 order M) f M = Some (0, 0, buf)" "j \<in> component M (compute_sum2 order M) i0" "j < i0"
  then show ?thesis unfolding component_shares [OF assms(1-3)] by (intro exI [of _ 0] exI [of _ buf]) auto
next
  fix buf w
  assume c: "compute_connected_component i0 (compute_sum2 order M) f M = Some (length buf, w, buf)"
    and b: "buffer_ok M (compute_sum2 order M) i0 buf" "set buf = component M (compute_sum2 order M) i0"
  then have "\<not> (\<exists>j<i0. (i0, j) \<in> (shares M)\<^sup>*)"
    unfolding component_shares [OF assms(1-3)] buffer_ok_def by (metis mem_Collect_eq not_le)
  then show ?thesis
    using c b unfolding component_shares [OF assms(1-3)] by (auto simp: buffer_ok_def)
qed

theorem connected_component_correct_witness:
  "(\<exists>len w buf. compute_connected_component 5 (compute_sum2 [0..<7] ex_cliques) int ex_cliques = Some (len, w, buf)
    \<and> (if \<exists>j<5. (5, j) \<in> (shares ex_cliques)\<^sup>* then len = 0
       else len = length buf \<and> distinct buf \<and> set buf = {j. (5, j) \<in> (shares ex_cliques)\<^sup>*}))
   \<and> compute_connected_component 5 (compute_sum2 [0..<7] ex_cliques) int ex_cliques = Some (2, 13, [5, 6])"
proof
  have "is_active ex_cliques 5" by code_simp
  then show "\<exists>len w buf. compute_connected_component 5 (compute_sum2 [0..<7] ex_cliques) int ex_cliques = Some (len, w, buf)
    \<and> (if \<exists>j<5. (5, j) \<in> (shares ex_cliques)\<^sup>* then len = 0
       else len = length buf \<and> distinct buf \<and> set buf = {j. (5, j) \<in> (shares ex_cliques)\<^sup>*})"
    using connected_component_correct [OF ex_cliques_ok distinct_upt ex_cliques_rows(2), of 5 int] by (simp add: active_def)
  show "compute_connected_component 5 (compute_sum2 [0..<7] ex_cliques) int ex_cliques = Some (2, 13, [5, 6])" by code_simp
qed

text \<open>
  C14: Clique removal, with any number of threads: whole components are deleted, from a list of first
  rows that starts with the heaviest components of the matrix, as many as the bound allows; the
  excess never gets below its target, and reaches it unless the list runs out.
\<close>

theorem clique_removal_correct:
  fixes f :: "nat \<Rightarrow> 'w :: {linorder, plus, zero}"
  assumes "matrix_ok col0 col1 M" "distinct order" "set order = {..<length (rows M)}" "0 < nthreads" "target < excess M"
  defines "K \<equiv> nat (excess M - target)"
  shows "\<exists>L m M'. clique_removal order target nthreads f M = Some M' \<and> matrix_ok col0 col1 M' \<and> m \<le> length L \<and> distinct L
    \<and> take K L = take K (map snd (rev (sort (components_among f M (compute_sum2 order M) [0..<length (rows M)]))))
    \<and> active M' = active M - {j. \<exists>i\<in>set (take m L). (i, j) \<in> (shares M)\<^sup>*}
    \<and> (\<forall>j\<in>active M'. row_of M' j = row_of M j) \<and> target \<le> excess M' \<and> (m < length L \<longrightarrow> excess M' = target)"
proof -
  define S where "S = compute_sum2 order M"
  define K' where "K' = (if nthreads = 1 then K + K div 4 else K)"
  have K': "0 < K'" "K \<le> K'" using assms(5) by (auto simp: K'_def K_def)
  have S: "sum2_ok M S" unfolding S_def by (rule compute_sum2_ok [OF assms(1-3)])
  obtain L m M' where L: "clique_removal_core S target K' nthreads f M = Some (m, M')" "m \<le> length L"
    "take K' L = take K' (map snd (rev (sort (components_among f M S [0..<length (rows M)]))))" "distinct L" "matrix_ok col0 col1 M'"
    "deleted (\<Union>i\<in>set (take m L). component M S i) M M'" "target \<le> excess M'" "m < length L \<longrightarrow> excess M' = target"
    using clique_removal_core_ok [OF assms(1) S K'(1) assms(4) less_imp_le [OF assms(5)], of f] by blast
  have "take K L = take K (take K' L)" using K'(2) by simp
  also have "\<dots> = take K (map snd (rev (sort (components_among f M S [0..<length (rows M)]))))"
    unfolding L(3) using K'(2) by simp
  finally have t: "take K L = take K (map snd (rev (sort (components_among f M S [0..<length (rows M)]))))" .
  have "(\<Union>i\<in>set (take m L). component M S i) = {j. \<exists>i\<in>set (take m L). (i, j) \<in> (shares M)\<^sup>*}"
    unfolding S_def component_shares [OF assms(1-3)] by auto
  then have d: "active M' = active M - {j. \<exists>i\<in>set (take m L). (i, j) \<in> (shares M)\<^sup>*}" "\<forall>j\<in>active M'. row_of M' j = row_of M j"
    using L(6) by (auto simp: deleted_def)
  have "clique_removal order target nthreads f M = Some M'"
    using L(1) assms(5) by (auto simp: clique_removal_def S_def K'_def K_def Let_def)
  then show ?thesis using L t d unfolding S_def by blast
qed

theorem clique_removal_correct_witness:
  "(\<exists>L m M'. clique_removal [0..<7] 2 3 int ex_cliques = Some M' \<and> matrix_ok 0 100 M' \<and> m \<le> length L \<and> distinct L
    \<and> active M' = active ex_cliques - {j. \<exists>i\<in>set (take m L). (i, j) \<in> (shares ex_cliques)\<^sup>*} \<and> 2 \<le> excess M')
   \<and> map_option (\<lambda>M. (excess M, map (\<lambda>r. r \<noteq> None) (rows M))) (clique_removal [0..<7] 2 3 int ex_cliques)
     = Some (2, [True, True, True, True, True, False, False])"
proof
  show "\<exists>L m M'. clique_removal [0..<7] 2 3 int ex_cliques = Some M' \<and> matrix_ok 0 100 M' \<and> m \<le> length L \<and> distinct L
    \<and> active M' = active ex_cliques - {j. \<exists>i\<in>set (take m L). (i, j) \<in> (shares ex_cliques)\<^sup>*} \<and> 2 \<le> excess M'"
  proof -
    have "0 < (3 :: nat)" "2 < excess ex_cliques" using ex_cliques_rows(3) by simp_all
    from clique_removal_correct [OF ex_cliques_ok distinct_upt ex_cliques_rows(2) this, of int]
    show ?thesis by (elim exE conjE) (intro exI conjI, assumption+)
  qed
  show "map_option (\<lambda>M. (excess M, map (\<lambda>r. r \<noteq> None) (rows M))) (clique_removal [0..<7] 2 3 int ex_cliques)
     = Some (2, [True, True, True, True, True, False, False])" by code_simp
qed

text \<open>
  C15: The whole first pass of the purge program: it ends without a failed assertion; if it does not give up for lack of excess
  after the first removal of singletons, the matrix that is left has no singletons, its rows are as they were, its
  counters are right and its excess is not below the wanted one, unless it already was.
\<close>

theorem singleton_and_clique_removal_correct:
  assumes "matrix_ok col0 col1 M" "schedules_ok (length (rows M)) orders sums" "0 < nthreads"
  shows "\<exists>M1 r. singleton_removal (orders 0) 0 M = Some (excess M1, M1)
    \<and> singleton_and_clique_removal orders sums nthreads f too_small keep nsteps M = Some r
    \<and> (if excess M1 \<le> 0 \<or> too_small (excess M1) (remaining_columns M1) then r = Not_enough M1
       else \<exists>M'. r = Purged M' \<and> kept col0 col1 M1 M' \<and> no_singletons M' \<and> min (excess M1) keep \<le> excess M')"
proof -
  have "\<And>k. {..<length (rows M)} \<subseteq> set (orders 0 k)" using assms(2) by (simp add: schedules_ok_def)
  then obtain M1 where M1: "singleton_removal (orders 0) 0 M = Some (excess M1, M1)" "pruned col0 col1 M M1" "no_singletons M1"
    using singleton_removal_ok [of col0 col1 M "orders 0" 0] assms(1) by (auto simp: no_singletons_def)
  have ok: "matrix_ok col0 col1 M1" "length (rows M1) = length (rows M)" using M1(2) by (auto simp: pruned_def deleted_def)
  then have sch: "schedules_ok (length (rows M1)) (orders \<circ> Suc) sums" "schedules_ok (length (rows M1)) orders sums"
    using assms(2) by (simp_all add: schedules_ok_def)
  define n where "n = choose_nsteps nsteps (excess M1 - keep) (remaining_columns M1)"
  define chunk where "chunk = (if n > 0 then trunc_div (excess M1 - keep) n else 0)"
  obtain M2 where M2: "purge_steps (orders \<circ> Suc) sums nthreads f keep chunk (nat n) M1 = Some M2" "kept col0 col1 M1 M2"
    "no_singletons M2" "min (excess M1) keep \<le> excess M2"
    using purge_steps_ok [OF assms(3) ok(1) sch(1) M1(3)] by blast
  have ok2: "matrix_ok col0 col1 M2" "schedules_ok (length (rows M2)) orders sums"
    using M2(2) sch(2) kept_length [OF M2(2)] by (simp_all add: kept_def)
  obtain M3 where M3: "one_step (orders 0) (sums 0) nthreads f keep M2 = Some M3" "kept col0 col1 M2 M3" "no_singletons M3"
    "min (excess M2) keep \<le> excess M3"
    using one_step_ok [OF ok2 assms(3)] by blast
  define M' where "M' = (if excess M2 > keep \<and> n > 0 then M3 else M2)"
  have "kept col0 col1 M1 M'" "no_singletons M'" "min (excess M1) keep \<le> excess M'"
    using M2 M3 kept_trans [OF M2(2) M3(2)] by (auto simp: M'_def)
  moreover have "singleton_and_clique_removal orders sums nthreads f too_small keep nsteps M =
      Some (if excess M1 \<le> 0 \<or> too_small (excess M1) (remaining_columns M1) then Not_enough M1 else Purged M')"
    unfolding singleton_and_clique_removal_def Let_def M1(1) option.case prod.case n_def [symmetric] chunk_def [symmetric] M2(1)
    using M3(1) by (simp add: M'_def)
  ultimately show ?thesis using M1(1) by auto
qed

theorem singleton_and_clique_removal_correct_witness:
  "\<exists>M1 r. singleton_removal (\<lambda>k. [0..<7]) 0 ex_cliques = Some (excess M1, M1)
    \<and> singleton_and_clique_removal (\<lambda>s k. [0..<7]) (\<lambda>s. [0..<7]) 2 int (\<lambda>e n. False) 1 (- 1) ex_cliques = Some r
    \<and> (if excess M1 \<le> 0 then r = Not_enough M1
       else \<exists>M'. r = Purged M' \<and> kept 0 100 M1 M' \<and> no_singletons M' \<and> min (excess M1) 1 \<le> excess M')"
proof -
  have "schedules_ok (length (rows ex_cliques)) (\<lambda>s k. [0..<7]) (\<lambda>s. [0..<7])"
    using ex_cliques_rows(2) by (simp add: schedules_ok_def)
  then show ?thesis
    using singleton_and_clique_removal_correct [OF ex_cliques_ok, of "\<lambda>s k. [0..<7]" "\<lambda>s. [0..<7]" 2 int "\<lambda>e n. False" 1 "- 1"]
    by simp
qed

end
