(* ===== verification/BaseTwo.thy ===== *)
theory BaseTwo
  imports Prelude
begin

text \<open>
  The powers of two modulo an odd prime that the strong pseudoprime test to base two looks at: whether
  two is a square, by counting signs, the square roots of one, and the power of two in \<open>p - 1\<close> for the residues modulo
  eight.
\<close>

text \<open>An odd prime: its positive divisors are one and itself.\<close>

definition odd_prime :: "int \<Rightarrow> bool" where
  "odd_prime p \<longleftrightarrow> odd p \<and> 1 < p \<and> (\<forall>d>0. d dvd p \<longrightarrow> d = 1 \<or> d = p)"

lemma odd_prime_coprime:
  assumes "odd_prime p" "\<not> p dvd x"
  shows "coprime x p"
proof -
  have "gcd x p dvd p" "0 < gcd x p" "gcd x p dvd x"
    using assms by (auto simp: odd_prime_def gcd_pos_int)
  then have "gcd x p = 1"
    using assms unfolding odd_prime_def by metis
  then show ?thesis
    by (simp add: coprime_iff_gcd_eq_1)
qed

lemma odd_prime_square:
  assumes "odd_prime p" "(x * x) mod p = 1"
  shows "x mod p = 1 \<or> x mod p = p - 1"
proof -
  have p: "1 < p"
    using assms(1) by (simp add: odd_prime_def)
  have "p dvd x * x - 1"
    using assms(2) p by (simp add: mod_eq_dvd_iff [of "x * x" p 1, symmetric])
  then have d: "p dvd (x - 1) * (x + 1)"
    by (simp add: algebra_simps)
  show ?thesis
  proof (cases "p dvd x - 1")
    case True
    then show ?thesis
      using p by (simp add: mod_eq_dvd_iff [of x p 1, symmetric])
  next
    case False
    then have "p dvd x + 1"
      using d odd_prime_coprime [OF assms(1) False] by (simp add: coprime_dvd_mult_right_iff coprime_commute)
    then have "x mod p = (- 1) mod p"
      by (simp add: mod_eq_dvd_iff)
    then show ?thesis
      using p by (simp add: zmod_minus1)
  qed
qed

text \<open>
  The even numbers up to \<open>p - 1\<close>, with those above the middle taken negative, are up to the
  modulus and the sign the numbers up to the middle.
\<close>

lemma two_permutes:
  fixes h :: nat
  defines "f j \<equiv> (if 2 * j \<le> h then 2 * j else 2 * h + 1 - 2 * j)"
  shows "bij_betw f {1..h} {1..h}"
proof -
  have inj: "inj_on f {1..h}"
  proof (rule inj_onI)
    fix i j
    assume ij: "i \<in> {1..h}" "j \<in> {1..h}" "f i = f j"
    then show "i = j"
      unfolding f_def by (auto split: if_splits) presburger+
  qed
  moreover have "f ` {1..h} \<subseteq> {1..h}"
    by (auto simp: f_def)
  ultimately show ?thesis
    by (simp add: bij_betw_def endo_inj_surj)
qed

lemma two_power_half:
  assumes p: "odd_prime p" and h: "p = 2 * int h + 1"
  shows "2 ^ h mod p = (if p mod 8 = 1 \<or> p mod 8 = 7 then 1 else p - 1)"
proof -
  define f where "f j = (if 2 * j \<le> h then 2 * j else 2 * h + 1 - 2 * j)" for j
  define e :: "nat \<Rightarrow> int" where "e j = (if 2 * j \<le> h then 1 else - 1)" for j
  define P where "P = (\<Prod>j\<in>{1..h}. int j)"
  have p1: "1 < p"
    using p by (simp add: odd_prime_def)
  have "(\<Prod>j\<in>{1..h}. int (f j)) = P"
    unfolding P_def using two_permutes [of h] unfolding f_def by (rule prod.reindex_bij_betw)
  have step: "(2 * int j) mod p = (e j * int (f j)) mod p" if "j \<in> {1..h}" for j
  proof -
    have "e j * int (f j) = (if 2 * j \<le> h then 2 * int j else 2 * int j - p)"
      using that h by (auto simp: e_def f_def of_nat_diff)
    then show ?thesis
      by (simp only: minus_mod_self2 split: if_split) simp
  qed
  have "2 ^ h * P = (\<Prod>j\<in>{1..h}. 2 * int j)"
    by (simp add: P_def prod.distrib)
  also have "\<dots> mod p = (\<Prod>j\<in>{1..h}. (2 * int j) mod p) mod p"
    by (rule mod_prod_eq [symmetric])
  also have "(\<Prod>j\<in>{1..h}. (2 * int j) mod p) = (\<Prod>j\<in>{1..h}. (e j * int (f j)) mod p)"
    by (rule prod.cong) (use step in simp_all)
  also have "\<dots> mod p = (\<Prod>j\<in>{1..h}. e j * int (f j)) mod p"
    by (rule mod_prod_eq)
  also have "(\<Prod>j\<in>{1..h}. e j * int (f j)) = (\<Prod>j\<in>{1..h}. e j) * P"
    using \<open>(\<Prod>j\<in>{1..h}. int (f j)) = P\<close> by (simp add: prod.distrib)
  finally have 1: "(2 ^ h * P) mod p = ((\<Prod>j\<in>{1..h}. e j) * P) mod p" .
  have "(\<Prod>j\<in>{1..h}. e j) = (\<Prod>j\<in>{1..h div 2}. 1) * (\<Prod>j\<in>{h div 2 + 1..h}. - 1)"
  proof -
    have "{1..h} = {1..h div 2} \<union> {h div 2 + 1..h}" "{1..h div 2} \<inter> {h div 2 + 1..h} = {}"
      by auto
    then have "(\<Prod>j\<in>{1..h}. e j) = (\<Prod>j\<in>{1..h div 2}. e j) * (\<Prod>j\<in>{h div 2 + 1..h}. e j)"
      by (metis finite_atLeastAtMost prod.union_disjoint)
    moreover have "(\<Prod>j\<in>{1..h div 2}. e j) = (\<Prod>j\<in>{1..h div 2}. 1)"
      by (rule prod.cong) (auto simp: e_def)
    moreover have "(\<Prod>j\<in>{h div 2 + 1..h}. e j) = (\<Prod>j\<in>{h div 2 + 1..h}. - 1)"
      by (rule prod.cong) (auto simp: e_def)
    ultimately show ?thesis
      by simp
  qed
  then have 2: "(\<Prod>j\<in>{1..h}. e j) = (- 1) ^ (h - h div 2)"
    by simp
  have "\<not> p dvd int j" if "j \<in> {1..h}" for j
    using that h by (auto dest!: zdvd_imp_le)
  then have "coprime P p"
    unfolding P_def using odd_prime_coprime [OF p] by (intro prod_coprime_left) auto
  moreover have "p dvd (2 ^ h - (- 1) ^ (h - h div 2)) * P"
    using 1 unfolding 2 by (simp add: mod_eq_dvd_iff left_diff_distrib)
  ultimately have "p dvd 2 ^ h - (- 1) ^ (h - h div 2)"
    by (simp add: coprime_dvd_mult_left_iff coprime_commute)
  then have 3: "2 ^ h mod p = (- 1) ^ (h - h div 2) mod p"
    by (simp add: mod_eq_dvd_iff)
  have "even (h - h div 2) \<longleftrightarrow> p mod 8 = 1 \<or> p mod 8 = 7"
    unfolding h by presburger
  then show ?thesis
    using 3 p1 by (auto simp: zmod_minus1)
qed


text \<open>From a square root of one down to the odd part of the exponent.\<close>

lemma odd_prime_descend:
  assumes "odd_prime p" "2 ^ (d * 2 ^ j) mod p = 1"
  shows "2 ^ d mod p = 1 \<or> (\<exists>i<j. 2 ^ (d * 2 ^ i) mod p = p - 1)"
  using assms(2)
proof (induction j)
  case (Suc j)
  have "(2 ^ (d * 2 ^ j) * 2 ^ (d * 2 ^ j)) mod p = 1"
    using Suc.prems by (simp flip: power_add add: mult_2_right [symmetric] ac_simps)
  then consider "2 ^ (d * 2 ^ j) mod p = 1" | "2 ^ (d * 2 ^ j) mod p = p - 1"
    using odd_prime_square [OF assms(1)] by blast
  then show ?case
    using Suc.IH less_SucI by cases blast+
qed simp

lemma odd_prime_sprp:
  assumes p: "odd_prime p" and d: "p - 1 = int (d * 2 ^ Suc k)"
  shows "2 ^ d mod p = 1 \<or> (\<exists>i < (if p mod 8 = 1 then k else Suc k). 2 ^ (d * 2 ^ i) mod p = p - 1)"
proof -
  have h: "p = 2 * int (d * 2 ^ k) + 1"
    using d by simp
  show ?thesis
  proof (cases "p mod 8 = 1 \<or> p mod 8 = 7")
    case True
    then have "2 ^ (d * 2 ^ k) mod p = 1"
      using two_power_half [OF p h] by simp
    then have "2 ^ d mod p = 1 \<or> (\<exists>i<k. 2 ^ (d * 2 ^ i) mod p = p - 1)"
      by (rule odd_prime_descend [OF p])
    moreover have "i < (if p mod 8 = 1 then k else Suc k)" if "i < k" for i
      using that by simp
    ultimately show ?thesis
      by blast
  next
    case False
    then show ?thesis
      using two_power_half [OF p h] by (intro disjI2 exI [of _ k]) simp
  qed
qed

text \<open>The exponents of two in \<open>m - 1\<close> for the residues of \<open>m\<close> modulo eight.\<close>

lemma odd_part_mod8:
  assumes "odd d" "m - 1 = int (d * 2 ^ Suc k)"
  shows "(m mod 8 = 1 \<longrightarrow> 1 < k) \<and> (m mod 8 = 7 \<longrightarrow> k = 0)"
proof -
  consider "k = 0" | "k = 1" | j where "k = Suc (Suc j)"
    by (metis One_nat_def not0_implies_Suc)
  then show ?thesis
  proof cases
    case 1
    obtain j where "d = 2 * j + 1"
      using assms(1) by (rule oddE)
    then have "m = 4 * int j + 3"
      using assms(2) 1 by simp
    then show ?thesis
      using 1 by presburger
  next
    case 2
    obtain j where "d = 2 * j + 1"
      using assms(1) by (rule oddE)
    then have "m = 8 * int j + 5"
      using assms(2) 2 by simp
    then show ?thesis
      by presburger
  next
    case 3
    then have "m = 8 * int (d * 2 ^ j) + 1"
      using assms(2) by simp
    then show ?thesis
      using 3 by presburger
  qed
qed

end
