(* ===== verification/ModRedc64.thy ===== *)
theory ModRedc64
  imports ModLayer BaseTwo
begin

text \<open>
  The class \<open>arithxx_modredc64::Modulus\<close> of \<^verbatim>\<open>utils/arithxx/modredc64.hpp\<close> and \<^verbatim>\<open>modredc64.cpp\<close> with its base
  classes \<open>redc\<close> and \<open>redc64\<close> (\<^verbatim>\<open>arithxx_redc.hpp\<close>, \<^verbatim>\<open>arithxx_redc64.hpp\<close>, \<^verbatim>\<open>arithxx_redc64_impl.hpp\<close>,
  \<^verbatim>\<open>arithxx_redc_impl.hpp\<close>, \<^verbatim>\<open>arithxx_batch_Q_to_Fp_impl.hpp\<close>): residues modulo an odd word in
  Montgomery form.
\<close>

section \<open>Definitions\<close>

record Modulus_redc64 =
  mr :: u64
  one :: u64
  invm :: u64
  mrecip :: u64

definition redc64_valid :: "u64 \<Rightarrow> bool" where
  "redc64_valid m = (m mod 2 = 1)"

text \<open>The constructor; \<open>None\<close> is the count of leading zeros of a zero modulus.\<close>

definition redc64_new :: "u64 \<Rightarrow> Modulus_redc64 option" where
  "redc64_new m =
     do {
       shift \<leftarrow> u64arith_clz m;
       let ml = push_bit shift m;
       let mrecip = u64arith_reciprocal_for_div ml;
       let (dummy, one) = u64arith_divqr_2_1_1_recip_precomp 0 1 ml mrecip shift;
       Some \<lparr>mr = m, one = one, invm = - u64arith_invmod m, mrecip = mrecip\<rparr>
     }"

text \<open>A modulus object is not zero, so that the count of leading zeros below is always found.\<close>

definition unredc1 :: "Modulus_redc64 \<Rightarrow> u64 \<Rightarrow> u64" where
  "unredc1 M a =
     (case u64arith_clz (mr M) of None \<Rightarrow> 0
      | Some shift \<Rightarrow>
          let ml = push_bit shift (mr M);
              (dummy, r) = u64arith_divqr_2_1_1_recip_precomp 0 a ml (mrecip M) shift
          in r)"

definition redc1 :: "Modulus_redc64 \<Rightarrow> u64 \<Rightarrow> u64" where
  "redc1 M a =
     (let tlow = a * invm M;
          (tlow, thigh) = u64arith_mul_1_1_2 tlow (mr M)
      in thigh + of_bool (a \<noteq> 0))"

definition tomontgomery :: "Modulus_redc64 \<Rightarrow> u64 \<Rightarrow> u64" where
  "tomontgomery M s = unredc1 M s"

definition frommontgomery :: "Modulus_redc64 \<Rightarrow> u64 \<Rightarrow> u64" where
  "frommontgomery M s = redc1 M s"

definition redc_set_u64 :: "Modulus_redc64 \<Rightarrow> u64 \<Rightarrow> u64" where
  "redc_set_u64 M s = tomontgomery M (if s \<ge> mr M then s mod mr M else s)"

definition redc_set :: "Modulus_redc64 \<Rightarrow> u64 \<Rightarrow> u64" where
  "redc_set M s = (let r = (if s < mr M then s else s mod mr M) in tomontgomery M r)"

definition redc_set_reduced :: "Modulus_redc64 \<Rightarrow> u64 \<Rightarrow> u64" where
  "redc_set_reduced M s = tomontgomery M s"

definition redc_set1 :: "Modulus_redc64 \<Rightarrow> u64" where
  "redc_set1 M = one M"

definition redc_get :: "Modulus_redc64 \<Rightarrow> u64 \<Rightarrow> u64" where
  "redc_get M s = frommontgomery M s"

definition redc_is1 :: "Modulus_redc64 \<Rightarrow> u64 \<Rightarrow> bool" where
  "redc_is1 M a = api_equal a (one M)"

definition redc_add :: "Modulus_redc64 \<Rightarrow> u64 \<Rightarrow> u64 \<Rightarrow> u64" where
  "redc_add M a b = u64arith_addmod_1_1 a b (mr M)"

definition redc_sub :: "Modulus_redc64 \<Rightarrow> u64 \<Rightarrow> u64 \<Rightarrow> u64" where
  "redc_sub M a b = u64arith_submod_1_1 a b (mr M)"

definition redc_add1 :: "Modulus_redc64 \<Rightarrow> u64 \<Rightarrow> u64" where
  "redc_add1 M a = redc_add M a (one M)"

definition redc_sub1 :: "Modulus_redc64 \<Rightarrow> u64 \<Rightarrow> u64" where
  "redc_sub1 M a = redc_sub M a (one M)"

definition redc_add_u64 :: "Modulus_redc64 \<Rightarrow> u64 \<Rightarrow> u64 \<Rightarrow> u64" where
  "redc_add_u64 M a b = redc_add M a (redc_set_u64 M b)"

definition redc_sub_u64 :: "Modulus_redc64 \<Rightarrow> u64 \<Rightarrow> u64 \<Rightarrow> u64" where
  "redc_sub_u64 M a b = redc_sub M a (redc_set_u64 M b)"

definition redc_div2 :: "Modulus_redc64 \<Rightarrow> u64 \<Rightarrow> u64" where
  "redc_div2 M a = u64arith_div2mod a (mr M)"

definition mul_u64_u64 :: "Modulus_redc64 \<Rightarrow> u64 \<Rightarrow> u64 \<Rightarrow> u64" where
  "mul_u64_u64 M a b =
     (let (plow, phigh) = u64arith_mul_1_1_2 a b
      in u64arith_redc plow phigh (mr M) (invm M))"

definition redc_mul :: "Modulus_redc64 \<Rightarrow> u64 \<Rightarrow> u64 \<Rightarrow> u64" where
  "redc_mul M a b = mul_u64_u64 M a b"

definition redc_sqr :: "Modulus_redc64 \<Rightarrow> u64 \<Rightarrow> u64" where
  "redc_sqr M a =
     (let (plow, phigh) = u64arith_sqr_1_2 a
      in u64arith_redc plow phigh (mr M) (invm M))"

subsection \<open>Inversion\<close>

text \<open>
  The two inner loops of \<open>inv\<close> are the same with the roles of the pairs exchanged: \<open>a\<close> is reduced by
  \<open>b\<close>, with cofactors \<open>p\<close> and \<open>q\<close>, and \<open>t\<close> counts the powers of two.
\<close>

partial_function (option) inv_reduce ::
    "u64 \<Rightarrow> u64 \<Rightarrow> u64 \<Rightarrow> u64 \<Rightarrow> nat \<Rightarrow> (u64 \<times> u64 \<times> u64 \<times> nat) option" where
  "inv_reduce a b p q t =
     (let a = a - b;
          q = q + p
      in if a = 0 then Some (a, p, q, t)
         else do {
           lsh \<leftarrow> Integer_ctz [a];
           let a = drop_bit lsh a;
           let t = t + lsh;
           let p = push_bit lsh p;
           if a > b then inv_reduce a b p q t else Some (a, p, q, t)
         })"

declare inv_reduce.simps [code]

partial_function (option) inv_loop ::
    "u64 \<Rightarrow> u64 \<Rightarrow> u64 \<Rightarrow> u64 \<Rightarrow> nat \<Rightarrow> (u64 \<times> u64 \<times> u64 \<times> u64 \<times> nat) option" where
  "inv_loop x y u v t =
     do {
       (x, u, v, t) \<leftarrow> inv_reduce x y u v t;
       if x \<le> 1 then Some (x, y, u, v, t)
       else do {
         (y, v, u, t) \<leftarrow> inv_reduce y x v u t;
         if y > 1 then inv_loop x y u v t else Some (x, y, u, v, t)
       }
     }"

declare inv_loop.simps [code]

text \<open>The division by \<open>2 ^ t\<close>: a full reduction, then one of variable width. \<open>None\<close> is a failed assertion.\<close>

definition redc_shift :: "Modulus_redc64 \<Rightarrow> u64 \<Rightarrow> nat \<Rightarrow> u64 option" where
  "redc_shift M u t =
     (let (u, t) =
            (if t \<ge> 64
             then let tlow = u * invm M;
                      (tlow, thigh) = u64arith_mul_1_1_2 tlow (mr M)
                  in (thigh + of_bool (u \<noteq> 0), t - 64)
             else (u, t))
      in if \<not> t < 64 then None
         else if t > 0 then
           let tlow = (u * invm M) AND (push_bit t 1 - 1);
               (tlow, thigh) = u64arith_mul_1_1_2 tlow (mr M);
               (tlow, thigh) = u64arith_add_1_2 tlow thigh u
           in Some (u64arith_shrd thigh tlow t)
         else Some u)"

text \<open>\<open>Some None\<close> is the return value \<open>false\<close>.\<close>

definition redc_inv_full :: "Modulus_redc64 \<Rightarrow> u64 \<Rightarrow> u64 option option" where
  "redc_inv_full M A =
     (if A = 0 then Some None
      else do {
        let x = mr M;
        let y = frommontgomery M A;
        let y = frommontgomery M y;
        lsh \<leftarrow> Integer_ctz [y];
        let y = drop_bit lsh y;
        (x, y, u, v, t) \<leftarrow> inv_loop x y 1 0 lsh;
        if x AND y = 0 then Some None
        else do {
          let u = (if y \<noteq> 1 then mr M - v else u);
          r \<leftarrow> redc_shift M u t;
          Some (Some r)
        }
      })"

definition redc_inv :: "Modulus_redc64 \<Rightarrow> u64 \<Rightarrow> u64 option" where
  "redc_inv M A = (case redc_inv_full M A of Some r \<Rightarrow> r | None \<Rightarrow> None)"

text \<open>The variant for integers out of Montgomery form: its inner loops do not test for zero.\<close>

partial_function (option) intinv_reduce ::
    "u64 \<Rightarrow> u64 \<Rightarrow> u64 \<Rightarrow> u64 \<Rightarrow> nat \<Rightarrow> (u64 \<times> u64 \<times> u64 \<times> nat) option" where
  "intinv_reduce a b p q t =
     do {
       let a = a - b;
       let q = q + p;
       lsh \<leftarrow> u64arith_ctz a;
       let a = drop_bit lsh a;
       let t = t + lsh;
       let p = push_bit lsh p;
       if a > b then intinv_reduce a b p q t else Some (a, p, q, t)
     }"

declare intinv_reduce.simps [code]

partial_function (option) intinv_loop ::
    "u64 \<Rightarrow> u64 \<Rightarrow> u64 \<Rightarrow> u64 \<Rightarrow> nat \<Rightarrow> (u64 \<times> u64 \<times> u64 \<times> u64 \<times> nat) option" where
  "intinv_loop x y u v t =
     do {
       (x, u, v, t) \<leftarrow> intinv_reduce x y u v t;
       if x = y then Some (x, y, u, v, t)
       else do {
         (y, v, u, t) \<leftarrow> intinv_reduce y x v u t;
         if x \<noteq> y then intinv_loop x y u v t else Some (x, y, u, v, t)
       }
     }"

declare intinv_loop.simps [code]

definition redc_intinv :: "Modulus_redc64 \<Rightarrow> u64 \<Rightarrow> u64 option option" where
  "redc_intinv M A =
     (if A = 0 then Some None
      else do {
        let x = mr M;
        let y = (if A \<ge> mr M then A mod mr M else A);
        lsh \<leftarrow> u64arith_ctz y;
        let y = drop_bit lsh y;
        (x, y, u, v, t) \<leftarrow> intinv_loop x y 1 0 lsh;
        if x > 1 then Some None
        else do {
          let u = (if u mod 2 = 0 then mr M - v else u);
          r \<leftarrow> redc_shift M u t;
          Some (Some r)
        }
      })"

subsection \<open>Batches\<close>

fun redc_products :: "Modulus_redc64 \<Rightarrow> u64 \<Rightarrow> u64 list \<Rightarrow> u64 list" where
  "redc_products M R [] = []"
| "redc_products M R (x # xs) = (let R = mul_u64_u64 M R x in R # redc_products M R xs)"

fun redc_back :: "Modulus_redc64 \<Rightarrow> u64 \<Rightarrow> u64 list \<Rightarrow> u64 list \<Rightarrow> u64 list \<Rightarrow> u64 list" where
  "redc_back M R (p # ps) (a # as) acc =
     redc_back M (mul_u64_u64 M R a) ps as (mul_u64_u64 M R p # acc)"
| "redc_back M R ps as acc = R # acc"

text \<open>The empty list is the failure; the vectors are reversed for the loop that runs down.\<close>

definition batchinv_redc :: "Modulus_redc64 \<Rightarrow> u64 list \<Rightarrow> u64 \<Rightarrow> u64 list" where
  "batchinv_redc M as c =
     (if as = [] then []
      else let r = redc_products M (one M) as
           in case redc_inv M (last r) of None \<Rightarrow> []
              | Some R \<Rightarrow>
                  let R = mul_u64_u64 M R c;
                      R = frommontgomery M R
                  in redc_back M R (tl (rev r)) (butlast (rev as)) [])"

record batch_Q_to_Fp_context =
  remainder :: u64
  quotient :: u64
  D :: Modulus_redc64

definition batch_Q_to_Fp_new :: "u64 \<Rightarrow> u64 \<Rightarrow> batch_Q_to_Fp_context option" where
  "batch_Q_to_Fp_new num den =
     do {
       d \<leftarrow> redc64_new den;
       Some \<lparr>remainder = num mod den, quotient = num div den, D = d\<rparr>
     }"

text \<open>The call operator; \<open>None\<close> is the failed assertion of the post-processing.\<close>

definition batch_Q_to_Fp_call :: "batch_Q_to_Fp_context \<Rightarrow> u64 list \<Rightarrow> nat \<Rightarrow> u64 list option" where
  "batch_Q_to_Fp_call C p k =
     (let r = batchinv_redc (D C) p (mr (D C) - remainder C)
      in if r = [] then Some []
         else those (map2 (\<lambda>ri pi. u64arith_post_process_inverse ri pi (remainder C) (- invm (D C)) (quotient C) k) r p))"

definition batch_Q_to_Fp :: "u64 \<Rightarrow> u64 \<Rightarrow> nat \<Rightarrow> u64 list \<Rightarrow> u64 list option" where
  "batch_Q_to_Fp num den k p =
     do {
       C \<leftarrow> batch_Q_to_Fp_new num den;
       batch_Q_to_Fp_call C p k
     }"

text \<open>The record of operations for the functions of the base class.\<close>

definition redc64_layer :: "Modulus_redc64 \<Rightarrow> layer" where
  "redc64_layer M =
     \<lparr>op_m = mr M, op_set1 = redc_set1 M, op_set = redc_set_u64 M, op_get = redc_get M,
      op_is1 = redc_is1 M, op_add = redc_add M, op_sub = redc_sub M, op_add1 = redc_add1 M,
      op_mul = redc_mul M, op_sqr = redc_sqr M, op_inv = redc_inv M,
      op_even_moduli_allowed = False, op_overflow_bits = 0\<rparr>"

section \<open>Well-formed modulus objects\<close>

definition redc64_ok :: "Modulus_redc64 \<Rightarrow> bool" where
  "redc64_ok M \<longleftrightarrow> odd (uint (mr M)) \<and> redc64_new (mr M) = Some M"

lemma redc64_ok_unfold:
  assumes "redc64_ok M"
  obtains s where "s < 64" "u64arith_clz (mr M) = Some s" "uint (push_bit s (mr M)) = uint (mr M) * 2 ^ s"
    "2 ^ 63 \<le> uint (push_bit s (mr M))" "W64 \<le> 2 * uint (push_bit s (mr M))"
    "mrecip M = u64arith_reciprocal_for_div (push_bit s (mr M))"
    "one M = snd (u64arith_divqr_2_1_1_recip_precomp 0 1 (push_bit s (mr M)) (mrecip M) s)"
    "invm M * mr M = - 1"
proof -
  have odd: "odd (uint (mr M))" and new: "redc64_new (mr M) = Some M" using assms by (simp_all add: redc64_ok_def)
  have "mr M \<noteq> 0" using odd by auto
  then obtain s where s: "s < 64" "u64arith_clz (mr M) = Some s" "uint (push_bit s (mr M)) = uint (mr M) * 2 ^ s"
    "2 ^ 63 \<le> uint (push_bit s (mr M))" "W64 \<le> 2 * uint (push_bit s (mr M))" by (rule normalised_divisor)
  define ml where "ml = push_bit s (mr M)"
  have M: "M = \<lparr>mr = mr M,
      one = snd (u64arith_divqr_2_1_1_recip_precomp 0 1 ml (u64arith_reciprocal_for_div ml) s),
      invm = - u64arith_invmod (mr M), mrecip = u64arith_reciprocal_for_div ml\<rparr>"
    using new s(2) by (simp add: redc64_new_def Let_def ml_def split: prod.splits)
  have r: "mrecip M = u64arith_reciprocal_for_div ml" by (subst M) simp
  moreover have "one M = snd (u64arith_divqr_2_1_1_recip_precomp 0 1 ml (mrecip M) s)"
    unfolding r by (subst M) simp
  moreover have "invm M = - u64arith_invmod (mr M)" by (subst M) simp
  then have "invm M * mr M = - 1" using invmod_value [OF odd] by (simp add: mult.commute)
  ultimately show thesis using that s by (simp only: ml_def)
qed

lemma redc64_new_ok:
  assumes "odd (uint m)"
  shows "\<exists>M. redc64_new m = Some M \<and> redc64_ok M \<and> mr M = m"
proof -
  have "m \<noteq> 0" using assms by auto
  then obtain s where "u64arith_clz m = Some s" using clz_value by blast
  then have "\<exists>M. redc64_new m = Some M \<and> mr M = m"
    by (simp add: redc64_new_def Let_def split: prod.splits)
  then obtain M where M: "redc64_new m = Some M" "mr M = m" by blast
  then show ?thesis using assms by (simp add: redc64_ok_def)
qed

lemma redc64_inv: "redc64_ok M \<Longrightarrow> invm M * mr M = - 1"
  by (erule redc64_ok_unfold)

lemma redc64_odd: "redc64_ok M \<Longrightarrow> odd (uint (mr M))"
  by (simp add: redc64_ok_def)

lemma redc64_pos: "redc64_ok M \<Longrightarrow> 0 < uint (mr M)"
  by (simp add: redc64_ok_def odd_pos64)

section \<open>Into and out of Montgomery form\<close>

lemma unredc1_value:
  assumes M: "redc64_ok M" and a: "a < mr M"
  shows "uint (unredc1 M a) = (uint a * W64) mod uint (mr M)"
proof -
  obtain s where s: "s < 64" "u64arith_clz (mr M) = Some s" "uint (push_bit s (mr M)) = uint (mr M) * 2 ^ s"
    "2 ^ 63 \<le> uint (push_bit s (mr M))" "W64 \<le> 2 * uint (push_bit s (mr M))"
    "mrecip M = u64arith_reciprocal_for_div (push_bit s (mr M))"
    using M by (rule redc64_ok_unfold)
  obtain q r where qr: "u64arith_divqr_2_1_1_recip_precomp 0 a (push_bit s (mr M)) (mrecip M) s = (q, r)"
    by (meson surj_pair)
  have "uint (mrecip M) + W64 = (W64 * W64 - 1) div uint (push_bit s (mr M))"
    unfolding s(6) using s(4) by (rule reciprocal_value)
  from recip_precomp_value(2) [OF s(3,5) this a s(1) qr]
  show ?thesis using s(2) qr by (simp add: unredc1_def Let_def dw_def mult.commute)
qed

lemma one_value:
  assumes M: "redc64_ok M"
  shows "uint (one M) = W64 mod uint (mr M)"
proof (cases "1 < mr M")
  case True
  obtain s where s: "s < 64" "u64arith_clz (mr M) = Some s" "uint (push_bit s (mr M)) = uint (mr M) * 2 ^ s"
    "2 ^ 63 \<le> uint (push_bit s (mr M))" "W64 \<le> 2 * uint (push_bit s (mr M))"
    "mrecip M = u64arith_reciprocal_for_div (push_bit s (mr M))"
    "one M = snd (u64arith_divqr_2_1_1_recip_precomp 0 1 (push_bit s (mr M)) (mrecip M) s)"
    using M by (rule redc64_ok_unfold)
  obtain q r where qr: "u64arith_divqr_2_1_1_recip_precomp 0 1 (push_bit s (mr M)) (mrecip M) s = (q, r)"
    by (meson surj_pair)
  have "uint (mrecip M) + W64 = (W64 * W64 - 1) div uint (push_bit s (mr M))"
    unfolding s(6) using s(4) by (rule reciprocal_value)
  from recip_precomp_value(2) [OF s(3,5) this True s(1) qr]
  show ?thesis using s(7) qr by (simp add: dw_def)
next
  case False
  then have "uint (mr M) = 1" using redc64_pos [OF M] by (simp add: word_less_def)
  then have m1: "mr M = 1" by (simp add: word_uint_eq_iff)
  obtain s where s: "u64arith_clz (mr M) = Some s" "2 ^ 63 \<le> uint (push_bit s (mr M))"
    "mrecip M = u64arith_reciprocal_for_div (push_bit s (mr M))"
    "one M = snd (u64arith_divqr_2_1_1_recip_precomp 0 1 (push_bit s (mr M)) (mrecip M) s)"
    using M by (rule redc64_ok_unfold)
  have "u64arith_clz 1 = Some 63" by code_simp
  then have "s = 63" using s(1) m1 by simp
  then have ml: "push_bit s (mr M) = 9223372036854775808" using m1 by simp
  have "uint (mrecip M) + W64 = (W64 * W64 - 1) div 9223372036854775808"
    using reciprocal_value [OF s(2)] unfolding s(3) ml by simp
  then have rc: "mrecip M = 18446744073709551615" by (simp add: W64_def word_uint_eq_iff)
  have "u64arith_divqr_2_1_1_recip_precomp 0 1 9223372036854775808 18446744073709551615 63 = (0, 0)"
    by (simp add: u64arith_divqr_2_1_1_recip_precomp_def u64arith_shl_2_def u64arith_shld_def
        u64arith_mul_1_1_2_def u64arith_add_2_2_def u64arith_add_1_2_def Let_def)
  moreover have "one M = snd (u64arith_divqr_2_1_1_recip_precomp 0 1 9223372036854775808 18446744073709551615 63)"
    using s(4) ml rc \<open>s = 63\<close> by metis
  ultimately have "one M = 0" by simp
  then show ?thesis using m1 by simp
qed

text \<open>One word reduction, also of a word that is not reduced.\<close>

lemma redc1_words:
  assumes inv: "i * m = (- 1 :: u64)" and mul: "u64arith_mul_1_1_2 (a * i) m = (tlow, thigh)"
  shows "(uint thigh + of_bool (a \<noteq> 0)) * W64 = uint (a * i) * uint m + uint a"
proof -
  have dw: "uint tlow + W64 * uint thigh = uint (a * i) * uint m"
    using mul_1_1_2_value [OF mul] by (simp add: dw_def)
  have "tlow = a * i * m" using mul_1_1_2_words(1) [OF mul] by (simp add: word_uint_eq_iff uint_mult64)
  also have "\<dots> = - a" using inv by (simp add: mult.assoc)
  finally have "tlow + a = 0" by simp
  then have "uint tlow + uint a = W64 * of_bool (a \<noteq> 0)"
    using uint_carry_sum [of tlow a] uint_pos64 [of a]
    by (cases "a = 0") (auto simp: word_less_def uint_0_iff)
  then show ?thesis using dw by (simp add: algebra_simps)
qed

lemma redc1_bound:
  assumes "0 \<le> k" "k < W64" "0 \<le> a" "0 < m" "r * W64 = k * m + a" 
  shows "a < m \<Longrightarrow> r < m" "a < W64 \<Longrightarrow> r \<le> m" "0 \<le> r"
proof -
  have km: "k * m \<le> (W64 - 1) * m" using assms by (intro mult_right_mono) simp_all
  show "r < m" if "a < m"
  proof -
    have "r * W64 < m * W64" using km that assms(5) by (simp add: algebra_simps)
    then show ?thesis by (rule mult_right_less_imp_less) simp
  qed
  show "r \<le> m" if "a < W64"
  proof -
    have "r * W64 < (m + 1) * W64" using km that assms(4,5) by (simp add: algebra_simps)
    then have "r < m + 1" by (rule mult_right_less_imp_less) simp
    then show ?thesis by simp
  qed
  have "0 \<le> r * W64" unfolding assms(5) using assms by simp
  then show "0 \<le> r" using mult_le_cancel_right_pos [of W64 0 r] by simp
qed

lemma redc1_value:
  assumes M: "redc64_ok M" and a: "a < mr M"
  shows "redc1 M a < mr M" "(uint (redc1 M a) * W64) mod uint (mr M) = uint a"
    "uint (redc1 M a) * W64 = uint (a * invm M) * uint (mr M) + uint a"
proof -
  obtain tlow thigh where mul: "u64arith_mul_1_1_2 (a * invm M) (mr M) = (tlow, thigh)" by (meson surj_pair)
  define r where "r = uint thigh + of_bool (a \<noteq> 0)"
  have eq: "r * W64 = uint (a * invm M) * uint (mr M) + uint a"
    unfolding r_def by (rule redc1_words [OF redc64_inv [OF M] mul])
  have lt: "uint a < uint (mr M)" using a by (simp add: word_less_def)
  note b = redc1_bound [OF uint_nonnegative uint_lt64 uint_nonnegative redc64_pos [OF M] eq]
  have "r < W64" using b(1) [OF lt] uint_lt64 [of "mr M"] by linarith
  then have r: "uint (redc1 M a) = r"
    by (simp add: redc1_def mul r_def uint_add64_no_wrap)
  show "redc1 M a < mr M" using b(1) [OF lt] by (simp add: word_less_def r)
  show "uint (redc1 M a) * W64 = uint (a * invm M) * uint (mr M) + uint a" using eq r by simp
  then show "(uint (redc1 M a) * W64) mod uint (mr M) = uint a"
    using lt by simp
qed

lemma coprime_W64_odd: "odd n \<Longrightarrow> coprime W64 n" for n :: int
  unfolding W64_def using coprime_power_left_iff [of 2 64 n] by (simp only: coprime_left_2_iff_odd) simp

lemma W64_cancel:
  fixes m x y :: int
  assumes "odd m" "(x * W64) mod m = (y * W64) mod m"
  shows "x mod m = y mod m"
proof -
  have "m dvd (x - y) * W64" using assms(2) by (simp add: mod_eq_dvd_iff left_diff_distrib)
  then have "m dvd x - y" using coprime_W64_odd [OF assms(1)]
    by (metis coprime_commute coprime_dvd_mult_left_iff)
  then show ?thesis by (simp add: mod_eq_dvd_iff)
qed

section \<open>The operations compute on classes\<close>

definition redc64_value :: "Modulus_redc64 \<Rightarrow> u64 \<Rightarrow> int" where
  "redc64_value M a = uint (redc1 M a)"

lemma redc64_value_char:
  assumes M: "redc64_ok M" and a: "a < mr M"
  shows "0 \<le> redc64_value M a" "redc64_value M a < uint (mr M)" "(redc64_value M a * W64) mod uint (mr M) = uint a"
  using redc1_value [OF M a] by (simp_all add: redc64_value_def word_less_def)

lemma redc64_value_unique:
  assumes M: "redc64_ok M" and a: "a < mr M" and x: "(x * W64) mod uint (mr M) = uint a"
  shows "redc64_value M a = x mod uint (mr M)"
proof -
  have "redc64_value M a mod uint (mr M) = x mod uint (mr M)"
    by (rule W64_cancel [OF redc64_odd [OF M] trans [OF redc64_value_char(3) [OF M a] x [symmetric]]])
  then show ?thesis using redc64_value_char(1,2) [OF M a] by simp
qed

lemma mul_u64_u64_value:
  assumes M: "redc64_ok M" and a: "a < mr M"
  shows "mul_u64_u64 M a b < mr M" "(uint (mul_u64_u64 M a b) * W64) mod uint (mr M) = (uint a * uint b) mod uint (mr M)"
proof -
  obtain p q where pq: "u64arith_mul_1_1_2 a b = (p, q)" by (meson surj_pair)
  have dw: "dw p q = uint a * uint b" using pq by (rule mul_1_1_2_value)
  have "uint a * uint b < uint (mr M) * W64"
    using a redc64_pos [OF M] by (intro mult_strict_mono) (simp_all add: word_less_def)
  then have q: "q < mr M" using dw_high_lt [of p q "mr M"] dw by simp
  show "mul_u64_u64 M a b < mr M" "(uint (mul_u64_u64 M a b) * W64) mod uint (mr M) = (uint a * uint b) mod uint (mr M)"
    using redc_value [OF redc64_inv [OF M] q, of p] by (simp_all add: mul_u64_u64_def pq dw)
qed

lemma redc_sqr_eq: "redc_sqr M a = mul_u64_u64 M a a"
  by (simp add: redc_sqr_def mul_u64_u64_def sqr_1_2_eq_mul)

lemma redc64_value_mul:
  assumes M: "redc64_ok M" and a: "a < mr M" and b: "b < mr M"
  shows "redc64_value M (mul_u64_u64 M a b) = (redc64_value M a * redc64_value M b) mod uint (mr M)"
proof -
  define m where "m = uint (mr M)"
  note r = mul_u64_u64_value [OF M a, of b]
  have "(redc64_value M a * redc64_value M b * W64 * W64) mod m = ((redc64_value M a * W64) * (redc64_value M b * W64)) mod m"
    by (simp add: ac_simps)
  also have "\<dots> = (uint a * uint b) mod m"
    using redc64_value_char(3) [OF M a] redc64_value_char(3) [OF M b] a b
    by (intro mod_mult_cong) (simp_all add: m_def word_less_def)
  also have "\<dots> = (uint (mul_u64_u64 M a b) * W64) mod m" using r(2) by (simp add: m_def)
  finally have "(redc64_value M a * redc64_value M b * W64) mod m = uint (mul_u64_u64 M a b) mod m"
    unfolding m_def by (rule W64_cancel [OF redc64_odd [OF M]])
  also have "\<dots> = uint (mul_u64_u64 M a b)" using r(1) by (simp add: m_def word_less_def)
  finally show ?thesis using redc64_value_unique [OF M r(1)] by (simp add: m_def)
qed

lemma redc64_layer_sel [simp]:
  "op_m (redc64_layer M) = mr M" "op_set1 (redc64_layer M) = redc_set1 M"
  "op_set (redc64_layer M) = redc_set_u64 M" "op_get (redc64_layer M) = redc_get M"
  "op_is1 (redc64_layer M) = redc_is1 M" "op_add (redc64_layer M) = redc_add M"
  "op_sub (redc64_layer M) = redc_sub M" "op_add1 (redc64_layer M) = redc_add1 M"
  "op_mul (redc64_layer M) = redc_mul M" "op_sqr (redc64_layer M) = redc_sqr M"
  "op_inv (redc64_layer M) = redc_inv M" "\<not> op_even_moduli_allowed (redc64_layer M)"
  "op_overflow_bits (redc64_layer M) = 0"
  by (simp_all add: redc64_layer_def)

lemma residue_mod: "redc64_ok M \<Longrightarrow> uint a = z mod uint (mr M) \<Longrightarrow> a < mr M"
  using redc64_pos [of M] by (simp add: word_less_def)

text \<open>Linear operations on the stored words are linear on the classes.\<close>

lemma redc64_value_linear:
  assumes M: "redc64_ok M" and a: "a < mr M" and b: "b < mr M" and c: "c < mr M"
    and eq: "uint c = (k * uint a + l * uint b) mod uint (mr M)"
  shows "redc64_value M c = (k * redc64_value M a + l * redc64_value M b) mod uint (mr M)"
proof (rule redc64_value_unique [OF M c])
  have "((k * redc64_value M a + l * redc64_value M b) * W64) mod uint (mr M)
      = (k * (redc64_value M a * W64) + l * (redc64_value M b * W64)) mod uint (mr M)"
    by (simp add: algebra_simps)
  also have "\<dots> = (k * uint a + l * uint b) mod uint (mr M)"
    using redc64_value_char(3) [OF M a] redc64_value_char(3) [OF M b] a b
    by (intro mod_add_cong mod_mult_cong refl) (simp_all add: word_less_def)
  finally show "((k * redc64_value M a + l * redc64_value M b) * W64) mod uint (mr M) = uint c"
    using eq by simp
qed

lemma one_lt: "redc64_ok M \<Longrightarrow> one M < mr M"
  using one_value residue_mod by blast

lemma redc64_value_one:
  assumes M: "redc64_ok M"
  shows "redc64_value M (one M) = 1 mod uint (mr M)"
  using redc64_value_unique [OF M one_lt [OF M], of 1] one_value [OF M] by simp

lemma redc_set_u64_value:
  assumes M: "redc64_ok M"
  shows "redc_set_u64 M s < mr M" "redc64_value M (redc_set_u64 M s) = uint s mod uint (mr M)"
proof -
  define r where "r = (if s \<ge> mr M then s mod mr M else s)"
  have r: "uint r = uint s mod uint (mr M)" by (simp add: r_def uint_mod_distrib word_le_def)
  note lt = residue_mod [OF M r]
  have u: "uint (redc_set_u64 M s) = (uint r * W64) mod uint (mr M)"
    using unredc1_value [OF M lt] by (simp add: redc_set_u64_def tomontgomery_def r_def)
  show "redc_set_u64 M s < mr M" by (rule residue_mod [OF M u])
  then show "redc64_value M (redc_set_u64 M s) = uint s mod uint (mr M)"
    using redc64_value_unique [OF M, of "redc_set_u64 M s" "uint r"] u r by simp
qed

lemma redc_add_value:
  assumes M: "redc64_ok M" and a: "a < mr M" and b: "b < mr M"
  shows "redc_add M a b < mr M" "redc64_value M (redc_add M a b) = (redc64_value M a + redc64_value M b) mod uint (mr M)"
proof -
  have u: "uint (redc_add M a b) = (uint a + uint b) mod uint (mr M)"
    using addmod_1_1_correct [OF a] b by (simp add: redc_add_def)
  show lt: "redc_add M a b < mr M" by (rule residue_mod [OF M u])
  show "redc64_value M (redc_add M a b) = (redc64_value M a + redc64_value M b) mod uint (mr M)"
    using redc64_value_linear [OF M a b lt, of 1 1] u by simp
qed

lemma redc_sub_value:
  assumes M: "redc64_ok M" and a: "a < mr M" and b: "b < mr M"
  shows "redc_sub M a b < mr M" "redc64_value M (redc_sub M a b) = (redc64_value M a - redc64_value M b) mod uint (mr M)"
proof -
  have u: "uint (redc_sub M a b) = (uint a - uint b) mod uint (mr M)"
    using submod_1_1_correct [OF a b] by (simp add: redc_sub_def)
  show lt: "redc_sub M a b < mr M" by (rule residue_mod [OF M u])
  show "redc64_value M (redc_sub M a b) = (redc64_value M a - redc64_value M b) mod uint (mr M)"
    using redc64_value_linear [OF M a b lt, of 1 "- 1"] u by simp
qed

lemma redc64_value_inj:
  assumes M: "redc64_ok M" and a: "a < mr M" and b: "b < mr M" and eq: "redc64_value M a = redc64_value M b"
  shows "a = b"
  using redc64_value_char(3) [OF M a] redc64_value_char(3) [OF M b] eq by (simp add: word_uint_eq_iff)

interpretation redc64: arith_layer redc64_layer redc64_ok redc64_value
proof (unfold_locales, goal_cases)
  case (1 M)
  then show ?case using redc64_pos by (simp add: modulus_def)
next
  case (2 M a)
  then show ?case using redc64_value_char by (simp add: modulus_def residue_def)
next
  case (3 M a b)
  then show ?case using redc64_value_inj by (simp add: residue_def)
next
  case (4 M)
  then have "0 < mr M" using redc64_pos by (simp add: word_less_def)
  with 4 show ?case using redc64_value_unique [of M 0 0] by simp
next
  case (5 M a b k)
  then show ?case using redc64_value_linear [of M a a b k 0] by (simp add: residue_def modulus_def)
next
  case (6 M)
  then show ?case using one_lt redc64_value_one by (simp add: residue_def modulus_def redc_set1_def)
next
  case (7 M s)
  then show ?case using redc_set_u64_value by (simp add: residue_def modulus_def)
next
  case (8 M a)
  then show ?case by (simp add: redc_get_def frommontgomery_def redc64_value_def)
next
  case (9 M a)
  then show ?case
    using redc64_value_one [of M] redc64_value_inj [of M a "one M"] one_lt [of M]
    by (auto simp: redc_is1_def api_equal_def modulus_def residue_def)
next
  case (10 M a b)
  then show ?case using redc_add_value by (simp add: residue_def modulus_def)
next
  case (11 M a b)
  then show ?case using redc_sub_value by (simp add: residue_def modulus_def)
next
  case (12 M a)
  then show ?case
    using redc_add_value [of M a "one M"] one_lt [of M] redc64_value_one [of M]
    by (simp add: residue_def modulus_def redc_add1_def mod_simps)
next
  case (13 M a b)
  then show ?case
    using mul_u64_u64_value(1) [of M a b] redc64_value_mul [of M a b] by (simp add: residue_def modulus_def redc_mul_def)
next
  case (14 M a)
  then show ?case
    using mul_u64_u64_value(1) [of M a a] redc64_value_mul [of M a a] by (simp add: residue_def modulus_def redc_sqr_eq)
qed

section \<open>Properties\<close>

lemma redc64_set_get:
  assumes "redc64_ok M"
  shows "redc_set_u64 M s < mr M" "uint (redc_get M (redc_set_u64 M s)) = uint s mod uint (mr M)"
  using redc64.set [OF assms, of s] redc64.get [OF assms, of "redc_set_u64 M s"]
  by (simp_all add: residue_def modulus_def)

text \<open>
  C22: Montgomery form is a faithful representation: for every odd modulus the constructor
  succeeds, a word goes into reduced Montgomery form and comes out reduced modulo \<open>m\<close>, and
  every reduced word is the form of the value it comes out as.
\<close>

theorem redc64_round_trip:
  assumes "odd (uint m)" "a < m"
  shows "\<exists>M. redc64_new m = Some M \<and> mr M = m \<and> redc_set_u64 M s < m
    \<and> uint (redc_get M (redc_set_u64 M s)) = uint s mod uint m
    \<and> redc_set_u64 M (redc_get M a) = a"
proof -
  obtain M where M: "redc64_new m = Some M" "redc64_ok M" "mr M = m" using redc64_new_ok [OF assms(1)] by blast
  have a: "residue (redc64_layer M) a" using assms(2) M(3) by (simp add: residue_def)
  have "redc64_value M (redc_set_u64 M (redc_get M a)) = redc64_value M a"
    using redc64.set [OF M(2), of "redc_get M a"] redc64.get [OF M(2) a] redc64.val_range [OF M(2) a] by simp
  then have "redc_set_u64 M (redc_get M a) = a"
    using redc64.val_inj [OF M(2) _ a] redc64.set [OF M(2), of "redc_get M a"] by simp
  then show ?thesis using M redc64_set_get [OF M(2), of s] by auto
qed

theorem redc64_round_trip_witness:
  "\<exists>M. redc64_new 15 = Some M \<and> uint (redc_get M (redc_set_u64 M 100)) = 10"
  using redc64_round_trip [of 15 3 100] by auto

text \<open>
  C23: The Montgomery class computes in the ring of integers modulo an odd \<open>m\<close>: taken out of
  Montgomery form, sum, difference, product, square and negation are the ones of the values.
\<close>

theorem redc64_ring:
  assumes "odd (uint m)"
  shows "\<exists>M. redc64_new m = Some M
    \<and> uint (redc_get M (redc_add M (redc_set_u64 M a) (redc_set_u64 M b))) = (uint a + uint b) mod uint m
    \<and> uint (redc_get M (redc_sub M (redc_set_u64 M a) (redc_set_u64 M b))) = (uint a - uint b) mod uint m
    \<and> uint (redc_get M (redc_mul M (redc_set_u64 M a) (redc_set_u64 M b))) = (uint a * uint b) mod uint m
    \<and> uint (redc_get M (redc_sqr M (redc_set_u64 M a))) = (uint a * uint a) mod uint m
    \<and> uint (redc_get M (neg (redc64_layer M) (redc_set_u64 M a))) = (- uint a) mod uint m"
proof -
  obtain M where M: "redc64_new m = Some M" "redc64_ok M" "mr M = m" using redc64_new_ok [OF assms] by blast
  note set = redc64.set [OF M(2), simplified]
  have res: "residue (redc64_layer M) (redc_set_u64 M x)" for x using set by simp
  show ?thesis
    using redc64.add [OF M(2) res res, of a b] redc64.sub [OF M(2) res res, of a b]
      redc64.mul [OF M(2) res res, of a b] redc64.sqr [OF M(2) res, of a] redc64.neg_value [OF M(2) res, of a]
      redc64.get [OF M(2)] set M(1,3)
    by (intro exI [of _ M]) (simp add: modulus_def mod_simps)
qed

theorem redc64_ring_witness:
  "\<exists>M. redc64_new 15 = Some M \<and> uint (redc_get M (redc_mul M (redc_set_u64 M 7) (redc_set_u64 M 8))) = 11"
  using redc64_ring [of 15 7 8] by auto

text \<open>
  C24: Exponentiation of the base class on the Montgomery class: for an exponent of any number
  of words, leading zero words included, the binary powering returns the power, and so does the variant
  for base two.
\<close>

theorem redc64_pow:
  assumes "odd (uint m)"
  shows "\<exists>M r s. redc64_new m = Some M
    \<and> pow (redc64_layer M) (redc_set_u64 M b) e = Some r \<and> uint (redc_get M r) = uint b ^ nvalue e mod uint m
    \<and> pow2 (redc64_layer M) e = Some s \<and> uint (redc_get M s) = 2 ^ nvalue e mod uint m"
proof -
  obtain M where M: "redc64_new m = Some M" "redc64_ok M" "mr M = m" using redc64_new_ok [OF assms] by blast
  note set = redc64.set [OF M(2), simplified]
  obtain r where "pow (redc64_layer M) (redc_set_u64 M b) e = Some r" "residue (redc64_layer M) r"
    "redc64_value M r = (uint b mod uint m) ^ nvalue e mod uint m"
    using redc64.pow_value [OF M(2), of "redc_set_u64 M b" e] set [of b] M(3) by (auto simp: modulus_def)
  moreover obtain s where "pow2 (redc64_layer M) e = Some s" "residue (redc64_layer M) s"
    "redc64_value M s = 2 ^ nvalue e mod uint m"
    using redc64.pow2_value [OF M(2), of e] M(3) by (auto simp: modulus_def)
  ultimately show ?thesis using M(1) redc64.get [OF M(2)] by (intro exI [of _ M]) (simp add: power_mod)
qed

theorem redc64_pow_witness:
  "\<exists>M r. redc64_new 15 = Some M \<and> pow (redc64_layer M) (redc_set_u64 M 7) [5, 0] = Some r \<and> uint (redc_get M r) = 7"
proof -
  have "nvalue [5, 0] = 5" by (simp add: nvalue_def)
  then show ?thesis using redc64_pow [of 15 7 "[5, 0]"] by auto
qed

lemma lucasV_mod: "lucasV (b mod N) n mod N = lucasV b n mod N"
proof (induction b n rule: lucasV.induct)
  case (3 b n)
  then show ?case unfolding lucasV.simps(3) by (intro mod_diff_cong mod_mult_cong) simp_all
qed simp_all

text \<open>
  The Lucas chain on the Montgomery class: for every index the ladder returns the terms
  \<open>V k\<close> and \<open>V (k + 1)\<close> of the Lucas sequence of the base.
\<close>

theorem redc64_lucas:
  assumes "odd (uint m)"
  shows "\<exists>M r rp1. redc64_new m = Some M \<and> V (redc64_layer M) (redc_set_u64 M b) k = Some (r, rp1)
    \<and> uint (redc_get M r) = lucasV (uint b) (unat k) mod uint m
    \<and> uint (redc_get M rp1) = lucasV (uint b) (Suc (unat k)) mod uint m"
proof -
  obtain M where M: "redc64_new m = Some M" "redc64_ok M" "mr M = m" using redc64_new_ok [OF assms] by blast
  note set = redc64.set [OF M(2), simplified]
  obtain r rp1 where "V (redc64_layer M) (redc_set_u64 M b) k = Some (r, rp1)"
    "residue (redc64_layer M) r" "residue (redc64_layer M) rp1"
    "redc64_value M r = lucasV (uint b mod uint m) (unat k) mod uint m"
    "redc64_value M rp1 = lucasV (uint b mod uint m) (Suc (unat k)) mod uint m"
    using redc64.V_value [OF M(2), of "redc_set_u64 M b" k] set [of b] M(3) by (auto simp: modulus_def)
  then show ?thesis using M(1) redc64.get [OF M(2)] by (intro exI [of _ M]) (simp add: lucasV_mod)
qed

theorem redc64_lucas_witness:
  "\<exists>M r rp1. redc64_new 15 = Some M \<and> V (redc64_layer M) (redc_set_u64 M 3) 2 = Some (r, rp1)
    \<and> uint (redc_get M r) = 7 \<and> uint (redc_get M rp1) = 3"
proof -
  have "lucasV 3 2 = 7" "lucasV 3 (Suc 2) = 18" by (simp_all add: numeral_2_eq_2)
  then show ?thesis using redc64_lucas [of 15 3 2] by auto
qed

text \<open>
  C25: The strong pseudoprime test to base two on the Montgomery class, for an odd modulus above one written
  as \<open>d * 2 ^ (k + 1) + 1\<close> with odd \<open>d\<close>: it always answers, and the answer is whether \<open>2 ^ d\<close> is one or one of
  its squarings \<open>2 ^ (d * 2 ^ i)\<close> is minus one, for \<open>i\<close> up to \<open>k\<close>, and below \<open>k\<close> when the modulus is one modulo
  eight. Every odd prime passes, and a modulus that passes satisfies Fermat's congruence.
\<close>

theorem redc64_sprp2:
  assumes "odd (uint m)" "1 < uint m"
  shows "\<exists>M b d k. redc64_new m = Some M \<and> is_strong_pseudoprime_base2 (redc64_layer M) = Some b
    \<and> odd d \<and> uint m - 1 = int (d * 2 ^ Suc k)
    \<and> (b \<longleftrightarrow> 2 ^ d mod uint m = 1
         \<or> (\<exists>i < (if uint m mod 8 = 1 then k else Suc k). 2 ^ (d * 2 ^ i) mod uint m = uint m - 1))
    \<and> ((\<forall>e>0. e dvd uint m \<longrightarrow> e = 1 \<or> e = uint m) \<longrightarrow> b)
    \<and> (b \<longrightarrow> 2 ^ nat (uint m - 1) mod uint m = 1)"
proof -
  obtain M where M: "redc64_new m = Some M" "redc64_ok M" "mr M = m" using redc64_new_ok [OF assms(1)] by blast
  have N: "modulus (redc64_layer M) = uint m" using M(3) by (simp add: modulus_def)
  obtain b k d where b: "is_strong_pseudoprime_base2 (redc64_layer M) = Some b" "odd d" "uint m - 1 = int (d * 2 ^ Suc k)"
    "b \<longleftrightarrow> 2 ^ d mod uint m = 1 \<or> 2 ^ d mod uint m = uint m - 1
      \<or> (\<exists>i\<in>{1..<k + of_bool (uint m mod 8 \<noteq> 1 \<and> uint m mod 8 \<noteq> 7)}. 2 ^ (d * 2 ^ i) mod uint m = uint m - 1)"
    using redc64.sprp2_value [OF M(2)] N assms by auto
  have range: "i < (if uint m mod 8 = 1 then k else Suc k)
      \<longleftrightarrow> i = 0 \<or> i \<in> {1..<k + of_bool (uint m mod 8 \<noteq> 1 \<and> uint m mod 8 \<noteq> 7)}" for i
    using odd_part_mod8 [OF b(2,3)] by (auto simp: less_Suc_eq)
  have iff: "b \<longleftrightarrow> 2 ^ d mod uint m = 1
       \<or> (\<exists>i < (if uint m mod 8 = 1 then k else Suc k). 2 ^ (d * 2 ^ i) mod uint m = uint m - 1)"
    unfolding b(4) range by auto
  have "b" if "\<forall>e>0. e dvd uint m \<longrightarrow> e = 1 \<or> e = uint m"
    unfolding iff by (rule odd_prime_sprp [OF _ b(3)]) (use that assms in \<open>simp add: odd_prime_def\<close>)
  moreover have "b \<longrightarrow> 2 ^ nat (uint m - 1) mod uint m = 1"
    using redc64.sprp2_fermat [OF M(2)] N assms b(1) by auto
  ultimately show ?thesis using M(1) b(1-3) iff by blast
qed


theorem redc64_sprp2_witness:
  "(\<exists>M. redc64_new 2047 = Some M \<and> is_strong_pseudoprime_base2 (redc64_layer M) = Some True)
   \<and> (\<exists>M. redc64_new 341 = Some M \<and> is_strong_pseudoprime_base2 (redc64_layer M) = Some False)"
proof
  have h: "odd (uint (2047 :: u64))" "1 < uint (2047 :: u64)" by simp_all
  from redc64_sprp2 [OF h] obtain M b d k where M: "redc64_new 2047 = Some M" "is_strong_pseudoprime_base2 (redc64_layer M) = Some b"
    "odd d" "uint (2047 :: u64) - 1 = int (d * 2 ^ Suc k)"
    "b \<longleftrightarrow> 2 ^ d mod uint (2047 :: u64) = 1 \<or> (\<exists>i < (if uint (2047 :: u64) mod 8 = 1 then k else Suc k).
       2 ^ (d * 2 ^ i) mod uint (2047 :: u64) = uint (2047 :: u64) - 1)"
    by metis
  have "int 2046 = int (d * 2 ^ Suc k)" using M(4) by simp
  then have e: "2046 = d * 2 ^ Suc k" by (simp only: of_nat_eq_iff)
  have "d = 1023"
  proof (cases k)
    case (Suc j)
    then have "1023 = 2 * (d * 2 ^ j)" using e by simp
    then show ?thesis by presburger
  qed (use e in simp)
  then have b unfolding M(5) by simp
  then show "\<exists>M. redc64_new 2047 = Some M \<and> is_strong_pseudoprime_base2 (redc64_layer M) = Some True"
    using M(1,2) by simp
next
  have h: "odd (uint (341 :: u64))" "1 < uint (341 :: u64)" by simp_all
  from redc64_sprp2 [OF h] obtain M b d k where M: "redc64_new 341 = Some M" "is_strong_pseudoprime_base2 (redc64_layer M) = Some b"
    "odd d" "uint (341 :: u64) - 1 = int (d * 2 ^ Suc k)"
    "b \<longleftrightarrow> 2 ^ d mod uint (341 :: u64) = 1 \<or> (\<exists>i < (if uint (341 :: u64) mod 8 = 1 then k else Suc k).
       2 ^ (d * 2 ^ i) mod uint (341 :: u64) = uint (341 :: u64) - 1)"
    by metis
  have "int 340 = int (d * 2 ^ Suc k)" using M(4) by simp
  then have e: "340 = d * 2 ^ Suc k" by (simp only: of_nat_eq_iff)
  have dk: "d = 85 \<and> k = 1"
  proof -
    consider "k = 0" | "k = 1" | j where "k = Suc (Suc j)" by (metis One_nat_def not0_implies_Suc)
    then show ?thesis
    proof cases
      case 1
      then have "d = 170" using e by simp
      then show ?thesis using M(3) by simp
    next
      case 3
      then have "85 = 2 * (d * 2 ^ j)" using e by simp
      then show ?thesis by presburger
    qed (use e in simp)
  qed
  have "(2 :: int) ^ (85 * 2 ^ i) mod 341 \<noteq> 340" if i: "i < 2" for i :: nat
  proof -
    consider "i = 0" | "i = 1" using i by linarith
    then show ?thesis by cases simp_all
  qed
  then have "\<not> b" unfolding M(5) using dk by simp
  then show "\<exists>M. redc64_new 341 = Some M \<and> is_strong_pseudoprime_base2 (redc64_layer M) = Some False"
    using M(1,2) by simp
qed

lemma coprime_three: "coprime 3 x \<longleftrightarrow> x mod 3 \<noteq> 0" for x :: int
proof -
  have "coprime 3 x \<longleftrightarrow> gcd 3 (x mod 3) = 1"
    by (simp only: coprime_iff_gcd_eq_1 gcd.commute [of 3 x] gcd_red_int [of x 3])
  then show ?thesis using mod3_cases [of x] by (auto simp: gcd_non_0_int)
qed

text \<open>
  Division by the constants three, five, seven, eleven and thirteen on the Montgomery class:
  it fails exactly when the constant divides the modulus, and otherwise returns a reduced
  residue whose multiple by the constant is the argument.
\<close>

theorem redc64_small_division:
  assumes "odd (uint m)" "n \<in> {3, 5, 7, 11, 13}"
  shows "\<exists>M. redc64_new m = Some M \<and>
    (let me = redc64_layer M; a = redc_set_u64 M s; res = (if n = 3 then Some (div3 me a) else divn n me a)
     in if coprime (int n) (uint m)
        then \<exists>r. res = Some (Some r) \<and> r < m \<and> (int n * uint (redc_get M r)) mod uint m = uint s mod uint m
        else res = Some None)"
proof -
  obtain M where M: "redc64_new m = Some M" "redc64_ok M" "mr M = m" using redc64_new_ok [OF assms(1)] by blast
  define me a where "me = redc64_layer M" and "a = redc_set_u64 M s"
  have mm: "op_m me = m" using M(3) by (simp add: me_def)
  have a: "a < op_m me" "residue me a" "redc64_value M a = uint s mod uint m"
    using redc64.set [OF M(2), of s] M(3) by (simp_all add: me_def a_def residue_def modulus_def)
  have conc: "(int n * uint (redc_get M r)) mod uint m = uint s mod uint m"
    if r: "r < m" "(int n * uint r) mod uint m = uint a" for r
    using redc64.val_scale [OF M(2), of r a "int n"] redc64.get [OF M(2), of r] a r M(3)
    by (simp add: residue_def modulus_def me_def)
  have c3: "coprime 3 (uint m) \<longleftrightarrow> uint m mod 3 \<noteq> 0"
    by (rule coprime_three)
  have "let res = (if n = 3 then Some (div3 me a) else divn n me a)
     in if coprime (int n) (uint m)
        then \<exists>r. res = Some (Some r) \<and> r < m \<and> (int n * uint (redc_get M r)) mod uint m = uint s mod uint m
        else res = Some None"
  proof (cases "n = 3")
    case True
    then show ?thesis using div3_value [OF a(1)] c3 conc mm by (auto simp: Let_def)
  next
    case False
    then have "odd n" "1 < n" "n < 2 ^ 16" using assms(2) by auto
    from divn_value [OF this a(1)] show ?thesis using False conc mm by (auto simp: Let_def)
  qed
  then show ?thesis using M(1) by (auto simp: me_def a_def Let_def)
qed

theorem redc64_small_division_witness:
  "\<exists>M r. redc64_new 49 = Some M \<and> div3 (redc64_layer M) (redc_set_u64 M 10) = Some r
    \<and> (3 * uint (redc_get M r)) mod 49 = 10"
  using redc64_small_division [of 49 3 10] by (auto simp: Let_def coprime_three)

end
