(* ===== verification/RedcInv.thy ===== *)
theory RedcInv
  imports ModRedc64
begin

text \<open>
  Inversion in Montgomery form and out of it (\<^verbatim>\<open>inv\<close> and \<^verbatim>\<open>intinv\<close> of \<^verbatim>\<open>arithxx/modredc64.cpp\<close>): the
  two binary algorithms end for every residue, their assertion on the number of shifts holds, and
  they return the reduced inverse or fail for a residue that has none. With this the Montgomery
  class satisfies the contract for simultaneous inversion.
\<close>

section \<open>The invariant of the binary algorithms\<close>

text \<open>
  The state of an inner loop: \<open>a\<close> is reduced by \<open>b\<close>, with the cofactors \<open>p\<close> and \<open>q\<close>, after \<open>t\<close>
  shifts; \<open>s\<close> is 1 when \<open>a\<close> is the variable \<open>x\<close> of the code and -1 when it is \<open>y\<close>. The modulus is \<open>m\<close>,
  the number to invert is \<open>c\<close>.
\<close>

definition bin_inv :: "int \<Rightarrow> int \<Rightarrow> int \<Rightarrow> int \<Rightarrow> int \<Rightarrow> int \<Rightarrow> int \<Rightarrow> nat \<Rightarrow> bool" where
  "bin_inv m c s a b p q t \<longleftrightarrow>
     odd a \<and> odd b \<and> 0 < a \<and> 0 < b \<and> 0 < p \<and> 0 \<le> q
     \<and> a * p + b * q = m
     \<and> m dvd b * 2 ^ t - s * p * c
     \<and> m dvd a * 2 ^ t + s * q * c
     \<and> gcd a b = gcd m c
     \<and> a * b * 2 ^ t \<le> m * c"

lemma bin_inv_swap: "bin_inv m c s a b p q t \<Longrightarrow> 0 < q \<Longrightarrow> bin_inv m c (- s) b a q p t"
  by (auto simp: bin_inv_def algebra_simps gcd.commute)

lemma gcd_odd_part:
  fixes a b :: int
  assumes "odd b" "a - b = a' * 2 ^ l"
  shows "gcd a' b = gcd a b"
proof -
  have "gcd a b = gcd (a - b) b"
    by (simp add: gcd_diff1)
  also have "\<dots> = gcd a' b"
    using assms by (simp add: gcd_mult_left_right_cancel coprime_power_left_iff coprime_commute)
  finally show ?thesis by simp
qed

lemma bin_inv_step:
  assumes J: "bin_inv m c s a b p q t" and lt: "b < a" and a': "a - b = a' * 2 ^ l" "odd a'"
  shows "bin_inv m c s a' b (p * 2 ^ l) (q + p) (t + l)"
proof -
  have "0 < a' * 2 ^ l" using lt a'(1) by simp
  then have pos: "0 < a'" by (simp add: zero_less_mult_iff)
  have id: "a' * (p * 2 ^ l) + b * (q + p) = (a' * 2 ^ l) * p + b * p + b * q"
    by (simp add: algebra_simps)
  have "a' * 2 ^ (t + l) = (a - b) * 2 ^ t"
    using a'(1) by (simp add: power_add algebra_simps)
  then have c2: "a' * 2 ^ (t + l) + s * (q + p) * c
      = (a * 2 ^ t + s * q * c) - (b * 2 ^ t - s * p * c)"
    by (simp add: algebra_simps)
  have c1: "b * 2 ^ (t + l) - s * (p * 2 ^ l) * c = (b * 2 ^ t - s * p * c) * 2 ^ l"
    by (simp add: power_add algebra_simps)
  have "a' * b * 2 ^ (t + l) = a' * 2 ^ l * b * 2 ^ t"
    by (simp add: power_add)
  also have "\<dots> = (a - b) * b * 2 ^ t" by (simp add: a'(1))
  also have "\<dots> \<le> a * b * 2 ^ t"
    using J by (intro mult_right_mono) (simp_all add: bin_inv_def)
  also have "\<dots> \<le> m * c" using J by (simp add: bin_inv_def)
  finally have bnd: "a' * b * 2 ^ (t + l) \<le> m * c" .
  have J': "odd b" "0 < b" "0 < p" "0 \<le> q" "a * p + b * q = m" "gcd a b = gcd m c"
    "m dvd b * 2 ^ t - s * p * c" "m dvd a * 2 ^ t + s * q * c"
    using J by (simp_all add: bin_inv_def)
  have "a' * (p * 2 ^ l) + b * (q + p) = m"
    unfolding id a'(1) [symmetric] using J'(5) by (simp add: algebra_simps)
  moreover have "m dvd b * 2 ^ (t + l) - s * (p * 2 ^ l) * c"
    unfolding c1 using J'(7) by (rule dvd_mult2)
  moreover have "m dvd a' * 2 ^ (t + l) + s * (q + p) * c"
    unfolding c2 using J'(8,7) by (rule dvd_diff)
  ultimately show ?thesis
    using J' pos a'(2) bnd gcd_odd_part [OF J'(1) a'(1)] by (simp add: bin_inv_def)
qed

text \<open>The variables stay below the modulus, and the number of shifts below twice the word size.\<close>

lemma bin_inv_bounds:
  assumes "bin_inv m c s a b p q t"
  shows "a \<le> m" "p \<le> m" "q \<le> m" "p + q \<le> m"
proof -
  have J: "0 < a" "0 < b" "0 < p" "0 \<le> q" "a * p + b * q = m"
    using assms by (simp_all add: bin_inv_def)
  have ap: "p \<le> a * p" "a \<le> a * p" and bq: "q \<le> b * q"
    using J mult_right_mono [of 1 a p] mult_left_mono [of 1 p a] mult_right_mono [of 1 b q] by simp_all
  show "a \<le> m" "p \<le> m" "q \<le> m" "p + q \<le> m"
    using ap bq J by linarith+
qed

lemma bin_inv_shifts:
  assumes J: "bin_inv m c s a b p q t" and "m < W64" "0 < c" "c < m"
  shows "t < 128"
proof -
  have ab: "1 \<le> a * b" using J by (simp add: bin_inv_def int_one_le_iff_zero_less)
  have "1 * 2 ^ t \<le> a * b * 2 ^ t"
    by (intro mult_right_mono ab) simp
  also have "\<dots> \<le> m * c" using J by (simp add: bin_inv_def)
  also have "\<dots> < W64 * W64" using assms by (intro mult_strict_mono) simp_all
  also have "\<dots> = 2 ^ 128" by (simp add: W64_def)
  finally have "(2 :: int) ^ t < 2 ^ 128" by simp
  then show ?thesis by (rule power_less_imp_less_exp [rotated]) simp
qed

section \<open>The inner loops\<close>

lemma odd_part64:
  assumes "a \<noteq> 0"
  obtains l where "l < 64" "u64arith_ctz a = Some l" "uint a = uint (drop_bit l a) * 2 ^ l"
    "odd (uint (drop_bit l a))"
proof -
  obtain l where "l < 64" "u64arith_ctz a = Some l" "2 ^ l dvd uint a" "odd (uint a div 2 ^ l)"
    using ctz_uint [OF assms] by blast
  then show thesis
    using that [of l] by (simp add: uint_drop_bit64)
qed

lemma Integer_ctz_word: "a \<noteq> 0 \<Longrightarrow> Integer_ctz [a] = u64arith_ctz a"
  using ctz_uint [of a] by (auto simp: Integer_ctz_def)

text \<open>One round of an inner loop on words.\<close>

lemma reduce_round:
  fixes a b p q :: u64
  assumes J: "bin_inv m c s (uint a) (uint b) (uint p) (uint q) t" and m: "m < W64" and lt: "b < a"
  obtains l where "u64arith_ctz (a - b) = Some l" "a - b \<noteq> 0"
    "bin_inv m c s (uint (drop_bit l (a - b))) (uint b) (uint (push_bit l p)) (uint (q + p)) (t + l)"
    "drop_bit l (a - b) < a" "0 < uint (q + p)"
proof -
  have d: "uint (a - b) = uint a - uint b"
    using lt uint_lt64 [of a] uint_nonnegative [of b] unfolding uint_sub64 word_less_def
    by (intro mod_W64_id) linarith+
  then have nz: "a - b \<noteq> 0" using lt by (auto simp: word_less_def)
  obtain l where l: "l < 64" "u64arith_ctz (a - b) = Some l"
    "uint (a - b) = uint (drop_bit l (a - b)) * 2 ^ l" "odd (uint (drop_bit l (a - b)))"
    using odd_part64 [OF nz] by metis
  have J': "bin_inv m c s (uint (drop_bit l (a - b))) (uint b) (uint p * 2 ^ l) (uint q + uint p) (t + l)"
    using bin_inv_step [OF J _ _ l(4), of l] l(3) d lt by (simp add: word_less_def)
  note bd = bin_inv_bounds [OF J']
  have up: "uint (push_bit l p) = uint p * 2 ^ l"
    using bd(2) m by (simp add: uint_push_bit64)
  have uq: "uint (q + p) = uint q + uint p"
    using bd(3) m by (simp add: uint_add64)
  have "uint (drop_bit l (a - b)) \<le> uint (a - b)"
    using l(3) mult_left_mono [of 1 "2 ^ l" "uint (drop_bit l (a - b))"] by simp
  moreover have pos: "0 < uint b" "0 < uint p" "0 \<le> uint q" using J by (simp_all add: bin_inv_def)
  ultimately have "drop_bit l (a - b) < a" using d unfolding word_less_def by linarith
  moreover have "0 < uint (q + p)" using pos uq by linarith
  ultimately show thesis
    using that [of l] l(2) nz J' up uq by simp
qed

lemma intinv_reduce_value:
  assumes "bin_inv m c s (uint a) (uint b) (uint p) (uint q) t" "m < W64" "b < a"
  shows "\<exists>a' p' q' t'. intinv_reduce a b p q t = Some (a', p', q', t')
    \<and> bin_inv m c s (uint a') (uint b) (uint p') (uint q') t' \<and> a' \<le> b \<and> 0 < uint q'"
  using assms
proof (induction "unat a" arbitrary: a p q t rule: less_induct)
  case less
  obtain l where l: "u64arith_ctz (a - b) = Some l"
    "bin_inv m c s (uint (drop_bit l (a - b))) (uint b) (uint (push_bit l p)) (uint (q + p)) (t + l)"
    "drop_bit l (a - b) < a" "0 < uint (q + p)"
    using reduce_round [OF less.prems] by metis
  show ?case
  proof (cases "drop_bit l (a - b) > b")
    case True
    then show ?thesis
      using less.hyps [OF _ l(2) less.prems(2)] l(1) unat_mono [OF l(3)]
      by (subst intinv_reduce.simps) (simp add: Let_def)
  next
    case False
    then show ?thesis
      using l by (subst intinv_reduce.simps) (auto simp: Let_def not_less)
  qed
qed

lemma inv_reduce_value:
  assumes "bin_inv m c s (uint a) (uint b) (uint p) (uint q) t" "m < W64" "b < a"
  shows "inv_reduce a b p q t = intinv_reduce a b p q t"
  using assms
proof (induction "unat a" arbitrary: a p q t rule: less_induct)
  case less
  obtain l where l: "u64arith_ctz (a - b) = Some l" "a - b \<noteq> 0"
    "bin_inv m c s (uint (drop_bit l (a - b))) (uint b) (uint (push_bit l p)) (uint (q + p)) (t + l)"
    "drop_bit l (a - b) < a"
    using reduce_round [OF less.prems] by metis
  have "inv_reduce (drop_bit l (a - b)) b (push_bit l p) (q + p) (t + l)
      = intinv_reduce (drop_bit l (a - b)) b (push_bit l p) (q + p) (t + l)" if "b < drop_bit l (a - b)"
    using less.hyps [OF _ l(3) less.prems(2) that] unat_mono [OF l(4)] by simp
  then show ?case
    using l by (subst inv_reduce.simps, subst intinv_reduce.simps) (simp add: Let_def Integer_ctz_word)
qed

section \<open>The outer loops\<close>

lemma intinv_loop_value:
  assumes "bin_inv m c 1 (uint x) (uint y) (uint u) (uint v) t" "m < W64" "y < x"
  shows "\<exists>x' u' v' t'. intinv_loop x y u v t = Some (x', x', u', v', t')
    \<and> bin_inv m c 1 (uint x') (uint x') (uint u') (uint v') t' \<and> 0 < uint v'"
  using assms
proof (induction "unat y" arbitrary: x y u v t rule: less_induct)
  case less
  obtain x1 u1 v1 t1 where 1: "intinv_reduce x y u v t = Some (x1, u1, v1, t1)"
    "bin_inv m c 1 (uint x1) (uint y) (uint u1) (uint v1) t1" "x1 \<le> y" "0 < uint v1"
    using intinv_reduce_value [OF less.prems] by blast
  show ?case
  proof (cases "x1 = y")
    case True
    then show ?thesis using 1 by (subst intinv_loop.simps) auto
  next
    case False
    then have "x1 < y" using 1(3) by simp
    then obtain y2 v2 u2 t2 where 2: "intinv_reduce y x1 v1 u1 t1 = Some (y2, v2, u2, t2)"
      "bin_inv m c (- 1) (uint y2) (uint x1) (uint v2) (uint u2) t2" "y2 \<le> x1" "0 < uint u2"
      using intinv_reduce_value [OF bin_inv_swap [OF 1(2,4)] less.prems(2)] by auto
    have J: "bin_inv m c 1 (uint x1) (uint y2) (uint u2) (uint v2) t2"
      using bin_inv_swap [OF 2(2,4)] by simp
    have v2: "0 < uint v2" using 2(2) by (simp add: bin_inv_def)
    show ?thesis
    proof (cases "x1 = y2")
      case True
      then show ?thesis using 1(1) 2(1) False J v2 by (subst intinv_loop.simps) auto
    next
      case neq: False
      then have "y2 < x1" using 2(3) by simp
      then have "unat y2 < unat y" using \<open>x1 < y\<close> by (intro unat_mono) simp
      from less.hyps [OF this J less.prems(2) \<open>y2 < x1\<close>] show ?thesis
        using 1(1) 2(1) False neq by (subst intinv_loop.simps) simp
    qed
  qed
qed

text \<open>
  The loop of \<^verbatim>\<open>inv\<close> ends with one of the two numbers one, or with zero when they are not
  coprime.
\<close>

lemma bin_inv_equal:
  assumes "bin_inv m c s a a p q t"
  shows "a = gcd m c"
  using assms by (auto simp: bin_inv_def)

lemma inv_reduce_equal: "inv_reduce a a p q t = Some (0, p, q + p, t)"
  by (subst inv_reduce.simps) simp

lemma inv_loop_value:
  assumes "bin_inv m c 1 (uint x) (uint y) (uint u) (uint v) t" "m < W64" "y < x"
  shows "\<exists>x' y' u' v' t'. inv_loop x y u v t = Some (x', y', u', v', t')
    \<and> ((x' = 0 \<or> y' = 0) \<and> 1 < gcd m c
       \<or> (x' = 1 \<or> y' = 1) \<and> bin_inv m c 1 (uint x') (uint y') (uint u') (uint v') t' \<and> 0 < uint v')"
  using assms
proof (induction "unat y" arbitrary: x y u v t rule: less_induct)
  case less
  obtain x1 u1 v1 t1 where 1: "inv_reduce x y u v t = Some (x1, u1, v1, t1)"
    "bin_inv m c 1 (uint x1) (uint y) (uint u1) (uint v1) t1" "x1 \<le> y" "0 < uint v1"
    using intinv_reduce_value [OF less.prems] inv_reduce_value [OF less.prems] by auto
  have x1: "0 < x1" using 1(2) by (simp add: bin_inv_def word_less_def)
  show ?case
  proof (cases "x1 \<le> 1")
    case True
    then have "x1 = 1" using x1 by (simp add: word_le_def word_less_def word_uint_eq_iff)
    then show ?thesis using 1 by (subst inv_loop.simps) auto
  next
    case gt: False
    show ?thesis
    proof (cases "x1 = y")
      case True
      then have "1 < gcd m c" using bin_inv_equal [of m c 1 "uint y"] 1(2) gt
        by (simp add: word_le_def)
      then show ?thesis using 1 gt True by (subst inv_loop.simps) (simp add: inv_reduce_equal)
    next
      case False
      then have "x1 < y" using 1(3) by simp
      then obtain y2 v2 u2 t2 where 2: "inv_reduce y x1 v1 u1 t1 = Some (y2, v2, u2, t2)"
        "bin_inv m c (- 1) (uint y2) (uint x1) (uint v2) (uint u2) t2" "y2 \<le> x1" "0 < uint u2"
        using intinv_reduce_value [OF bin_inv_swap [OF 1(2,4)] less.prems(2)]
          inv_reduce_value [OF bin_inv_swap [OF 1(2,4)] less.prems(2)] by auto
      have J: "bin_inv m c 1 (uint x1) (uint y2) (uint u2) (uint v2) t2"
        using bin_inv_swap [OF 2(2,4)] by simp
      have v2: "0 < uint v2" "0 < uint y2" using 2(2) by (simp_all add: bin_inv_def)
      show ?thesis
      proof (cases "y2 \<le> 1")
        case True
        then have "y2 = 1" using v2 by (simp add: word_le_def word_less_def word_uint_eq_iff)
        then show ?thesis using 1(1) 2(1) gt J v2 by (subst inv_loop.simps) auto
      next
        case y2: False
        show ?thesis
        proof (cases "y2 = x1")
          case True
          moreover have "inv_loop x1 x1 u2 v2 t2 = Some (0, x1, u2, v2 + u2, t2)"
            by (subst inv_loop.simps) (simp add: inv_reduce_equal)
          ultimately have "inv_loop x y u v t = Some (0, x1, u2, v2 + u2, t2)"
            using 1(1) 2(1) gt not_le_imp_less [OF gt] by (subst inv_loop.simps) simp
          moreover have "1 < gcd m c" using bin_inv_equal [of m c 1 "uint x1"] J True gt
            by (simp add: word_le_def)
          ultimately show ?thesis by simp
        next
          case neq: False
          then have "y2 < x1" using 2(3) by simp
          then have "unat y2 < unat y" using \<open>x1 < y\<close> by (intro unat_mono) simp
          from less.hyps [OF this J less.prems(2) \<open>y2 < x1\<close>] show ?thesis
            using 1(1) 2(1) gt not_le_imp_less [OF y2] by (subst inv_loop.simps) simp
        qed
      qed
    qed
  qed
qed

section \<open>The division by a power of two\<close>

lemma uint_low_bits: "uint (a AND (push_bit t 1 - 1) :: u64) = uint a mod 2 ^ t"
proof -
  have "a AND (push_bit t 1 - 1) = take_bit t a"
    by (simp add: take_bit_eq_mask mask_eq_exp_minus_1 push_bit_of_1)
  then have "uint (a AND (push_bit t 1 - 1)) = take_bit t (uint a)"
    by (simp only: unsigned_take_bit_eq)
  then show ?thesis by (simp only: take_bit_eq_mod)
qed

lemma invm_low_bits:
  assumes M: "redc64_ok M" and t: "t < 64"
  shows "2 ^ t dvd uint ((u * invm M) AND (push_bit t 1 - 1)) * uint (mr M) + uint u"
proof -
  define k where "k = uint ((u * invm M) AND (push_bit t 1 - 1))"
  have W: "(2 :: int) ^ t dvd W64" unfolding W64_def using t by (intro le_imp_power_dvd) simp
  have "k = uint (u * invm M) mod 2 ^ t" unfolding k_def by (rule uint_low_bits)
  then have "k mod 2 ^ t = (uint u * uint (invm M)) mod 2 ^ t"
    using W by (simp add: uint_mult64 mod_mod_cancel)
  then have "(k * uint (mr M) + uint u) mod 2 ^ t = (uint u * (uint (invm M) * uint (mr M)) + uint u) mod 2 ^ t"
    by (intro mod_add_cong refl) (simp add: mult.assoc mod_mult_left_eq flip: mod_mult_left_eq [of k])
  also have "uint u * (uint (invm M) * uint (mr M)) + uint u = uint u * (uint (invm M) * uint (mr M) + 1)"
    by (simp add: algebra_simps)
  finally have e: "(k * uint (mr M) + uint u) mod 2 ^ t = (uint u * (uint (invm M) * uint (mr M) + 1)) mod 2 ^ t" .
  have "uint (invm M * mr M + 1) = 0" using redc64_inv [OF M] by simp
  then have "W64 dvd uint (invm M) * uint (mr M) + 1"
    by (simp add: uint_add64 uint_mult64 mod_simps dvd_eq_mod_eq_0)
  then have "2 ^ t dvd uint u * (uint (invm M) * uint (mr M) + 1)"
    using W by (meson dvd_mult dvd_trans)
  then show ?thesis using e by (simp add: k_def dvd_eq_mod_eq_0)
qed

lemma shrd_exact:
  assumes "i < 64" "dw lo hi div 2 ^ i < W64"
  shows "uint (u64arith_shrd hi lo i) = dw lo hi div 2 ^ i"
proof -
  obtain lo' hi' where s: "u64arith_shr_2 lo hi i = (lo', hi')" by (meson surj_pair)
  have d: "dw lo' hi' = dw lo hi div 2 ^ i" by (rule dw_shr_2 [OF s assms(1)])
  then have "uint lo' + W64 * uint hi' < W64 * 1"
    using assms(2) by (simp add: dw_def)
  then have "W64 * uint hi' < W64 * 1" using uint_nonnegative [of lo'] by linarith
  then have "uint hi' < 1" by (rule mult_left_less_imp_less) simp
  then have "uint hi' = 0" using uint_nonnegative [of hi'] by linarith
  then show ?thesis using s d by (auto simp: u64arith_shr_2_def Let_def dw_def)
qed

text \<open>The reduction of variable width, for fewer shifts than the word has bits.\<close>

lemma redc_shift_short:
  assumes M: "redc64_ok M" and u: "u < mr M" and t: "t < 64"
  shows "\<exists>r. redc_shift M u t = Some r \<and> r < mr M \<and> uint (mr M) dvd uint r * 2 ^ t - uint u"
proof (cases "t = 0")
  case True
  then show ?thesis using u by (simp add: redc_shift_def)
next
  case False
  define k where "k = (u * invm M) AND (push_bit t 1 - 1)"
  define m where "m = uint (mr M)"
  obtain tl th where mul: "u64arith_mul_1_1_2 k (mr M) = (tl, th)" by (meson surj_pair)
  obtain sl sh where add: "u64arith_add_1_2 tl th u = (sl, sh)" by (meson surj_pair)
  have dvd: "2 ^ t dvd uint k * m + uint u"
    unfolding k_def m_def by (rule invm_low_bits [OF M t])
  have k: "uint k < 2 ^ t" unfolding k_def uint_low_bits by simp
  have lt: "uint u < m" "0 < m" "m < W64" using u redc64_pos [OF M] by (simp_all add: m_def word_less_def)
  have "uint k * m \<le> (2 ^ t - 1) * m" using k lt by (intro mult_right_mono) simp_all
  then have b: "uint k * m + uint u < 2 ^ t * m" using lt by (simp add: algebra_simps)
  also have "\<dots> \<le> W64 * m" unfolding W64_def using t lt by (intro mult_right_mono power_increasing) simp_all
  also have "\<dots> < W64 * W64" using lt by simp
  finally have b2: "uint k * m + uint u < W64 * W64" .
  have d: "dw sl sh = uint k * m + uint u"
    using dw_add_2_2_exact [of tl th u 0 sl sh] add mul_1_1_2_value [OF mul] b2
    by (simp add: u64arith_add_1_2_def dw_def m_def)
  obtain q where q: "uint k * m + uint u = 2 ^ t * q" using dvd by (elim dvdE)
  have q': "dw sl sh div 2 ^ t = q" by (simp add: d q)
  have "2 ^ t * q < 2 ^ t * m" using b q by simp
  then have "q < m" by (rule mult_left_less_imp_less) simp
  then have r: "uint (u64arith_shrd sh sl t) = q" using shrd_exact [OF t, of sl sh] q' lt by simp
  have "q * 2 ^ t - uint u = uint k * m" using q by (simp only: mult.commute [of q])
  moreover have "redc_shift M u t = Some (u64arith_shrd sh sl t)"
    using False t mul [unfolded k_def] add by (simp add: redc_shift_def Let_def)
  ultimately show ?thesis
    using r \<open>q < m\<close> by (simp add: word_less_def flip: m_def)
qed

lemma redc_shift_value:
  assumes M: "redc64_ok M" and u: "u < mr M" and t: "t < 128"
  shows "\<exists>r. redc_shift M u t = Some r \<and> r < mr M \<and> uint (mr M) dvd uint r * 2 ^ t - uint u"
proof (cases "t < 64")
  case True
  then show ?thesis by (rule redc_shift_short [OF M u])
next
  case False
  define w where "w = redc1 M u"
  have w: "w < mr M" "uint w * W64 = uint (u * invm M) * uint (mr M) + uint u"
    using redc1_value [OF M u] by (simp_all add: w_def)
  have "redc_shift M u t = redc_shift M w (t - 64)"
    using False t by (auto simp: redc_shift_def Let_def w_def redc1_def split: prod.splits)
  moreover obtain r where r: "redc_shift M w (t - 64) = Some r" "r < mr M"
    "uint (mr M) dvd uint r * 2 ^ (t - 64) - uint w"
    using redc_shift_short [OF M w(1), of "t - 64"] t less_diff_conv2 [of 64 t 64] False by auto
  moreover have "uint r * 2 ^ t - uint u = (uint r * 2 ^ (t - 64) - uint w) * W64 + (uint w * W64 - uint u)"
    using False power_add [of "2 :: int" "t - 64" 64] by (simp add: W64_def algebra_simps)
  then have "uint (mr M) dvd uint r * 2 ^ t - uint u"
    using r(3) w(2) by (simp add: dvd_add)
  ultimately show ?thesis by simp
qed

section \<open>Inversion\<close>

text \<open>The start of the loops: \<open>c\<close> without its factors of two.\<close>

lemma bin_inv_start:
  assumes "odd m" "0 < c" "c < m" "c = c' * 2 ^ l" "odd c'"
  shows "bin_inv m c 1 m c' 1 0 l" "c' < m"
proof -
  have "0 < c' * 2 ^ l" using assms by simp
  then have c': "0 < c'" by (simp add: zero_less_mult_iff)
  have "gcd m c = gcd m c'"
    using assms(1) by (simp add: assms(4) gcd_mult_right_right_cancel coprime_power_right_iff)
  then show "bin_inv m c 1 m c' 1 0 l"
    using assms c' order_less_trans [OF assms(2,3)] by (simp add: bin_inv_def algebra_simps)
  have "c' \<le> c" using mult_left_mono [of 1 "2 ^ l" c'] c' by (simp add: assms(4))
  then show "c' < m" using assms(3) by simp
qed

text \<open>A cofactor that is left when one of the numbers is one, divided by the power of two, is the inverse.\<close>

lemma bin_inv_inverse:
  fixes u v :: u64
  assumes J: "bin_inv (uint (mr M)) c 1 x y (uint u) (uint v) t"
    and x: "w = u \<and> y = 1 \<or> w = mr M - v \<and> x = 1" and v: "0 < uint v"
  shows "w < mr M" "uint (mr M) dvd uint w * c - 2 ^ t"
proof -
  define m where "m = uint (mr M)"
  note b = bin_inv_bounds [OF J]
  have J': "m dvd y * 2 ^ t - uint u * c" "m dvd x * 2 ^ t + uint v * c" "0 < uint u"
    using J by (simp_all add: bin_inv_def m_def)
  have e: "uint (mr M - v) = m - uint v"
    using b(3) v uint_lt64 [of "mr M"] unfolding m_def uint_sub64 by (intro mod_W64_id) linarith+
  show "w < mr M" using x b(4) v J'(3) e by (auto simp: word_less_def m_def)
  show "uint (mr M) dvd uint w * c - 2 ^ t"
  proof (cases "w = u \<and> y = 1")
    case True
    then show ?thesis using J'(1) by (simp add: m_def dvd_diff_commute)
  next
    case False
    then have "w = mr M - v" "x = 1" using x by auto
    moreover have "m dvd m * c - (x * 2 ^ t + uint v * c)" using J'(2) by (intro dvd_diff) simp_all
    moreover have "(m - uint v) * c - 2 ^ t = m * c - (1 * 2 ^ t + uint v * c)" by (simp add: algebra_simps)
    ultimately show ?thesis using e by (simp only: flip: m_def)
  qed
qed

lemma odd_power_cancel:
  fixes m a t
  assumes "odd (m :: int)" "m dvd a * 2 ^ t"
  shows "m dvd a"
  using assms by (simp add: coprime_dvd_mult_left_iff coprime_power_right_iff)

lemma redc_shift_inverse:
  fixes u v w :: u64
  assumes M: "redc64_ok M" and c: "0 < c" "c < uint (mr M)"
    and J: "bin_inv (uint (mr M)) c 1 x y (uint u) (uint v) t"
    and x: "w = u \<and> y = 1 \<or> w = mr M - v \<and> x = 1" and v: "0 < uint v"
  shows "\<exists>r. redc_shift M w t = Some r \<and> r < mr M \<and> (uint r * c) mod uint (mr M) = 1"
proof -
  define m where "m = uint (mr M)"
  note w = bin_inv_inverse [OF J x v]
  have t: "t < 128" by (rule bin_inv_shifts [OF J _ c]) simp
  obtain r where r: "redc_shift M w t = Some r" "r < mr M" "m dvd uint r * 2 ^ t - uint w"
    using redc_shift_value [OF M w(1) t] by (auto simp: m_def)
  have "(uint r * c - 1) * 2 ^ t = (uint r * 2 ^ t - uint w) * c + (uint w * c - 2 ^ t)"
    by (simp add: algebra_simps)
  then have "m dvd (uint r * c - 1) * 2 ^ t"
    using dvd_mult2 [OF r(3), of c] w(2) by (simp only: flip: m_def) (rule dvd_add)
  then have "m dvd uint r * c - 1" using odd_power_cancel redc64_odd [OF M] by (simp only: m_def)
  then have "(uint r * c) mod m = 1 mod m" by (simp only: mod_eq_dvd_iff)
  also have "1 mod m = 1" using c by (simp add: m_def)
  finally show ?thesis using r(1,2) by (simp only: m_def) blast
qed

text \<open>The two results: \<open>None\<close> stands for \<^verbatim>\<open>false\<close>; the outer option never fails.\<close>

lemma redc_intinv_value:
  assumes M: "redc64_ok M" and A: "A < mr M" "A \<noteq> 0"
  shows "\<exists>r. redc_intinv M A = Some r
    \<and> (case r of None \<Rightarrow> \<not> coprime (uint A) (uint (mr M))
       | Some r \<Rightarrow> r < mr M \<and> (uint r * uint A) mod uint (mr M) = 1)"
proof -
  define m where "m = uint (mr M)"
  have c: "0 < uint A" "uint A < m" "m < W64" "odd m"
    using A redc64_odd [OF M] uint_pos64 [OF A(2)] by (simp_all add: m_def word_less_def)
  obtain l where l: "u64arith_ctz A = Some l" "uint A = uint (drop_bit l A) * 2 ^ l" "odd (uint (drop_bit l A))"
    using odd_part64 [OF A(2)] by metis
  note s = bin_inv_start [OF c(4) c(1,2) l(2,3)]
  have lt: "drop_bit l A < mr M" using s(2) by (simp add: word_less_def m_def)
  obtain g u v t where loop: "intinv_loop (mr M) (drop_bit l A) 1 0 l = Some (g, g, u, v, t)"
    and J: "bin_inv m (uint A) 1 (uint g) (uint g) (uint u) (uint v) t" and v: "0 < uint v"
    using intinv_loop_value [of m "uint A" "mr M" "drop_bit l A" 1 0 l] s(1) c(3) lt by (auto simp: m_def)
  have g: "uint g = gcd m (uint A)" by (rule bin_inv_equal [OF J])
  have nle: "\<not> mr M \<le> A" using A(1) by simp
  show ?thesis
  proof (cases "g > 1")
    case True
    then have "\<not> coprime (uint A) m" using g by (simp add: word_less_def coprime_iff_gcd_eq_1 gcd.commute)
    then show ?thesis using nle A(2) l(1) loop True by (simp add: redc_intinv_def Let_def m_def)
  next
    case False
    have "0 < uint g" using J by (auto simp: bin_inv_def)
    then have g1: "uint g = 1" using False by (simp add: word_less_def)
    define w where "w = (if u mod 2 = 0 then mr M - v else u)"
    have "w = u \<or> w = mr M - v" by (simp add: w_def)
    then obtain r where "redc_shift M w t = Some r" "r < mr M" "(uint r * uint A) mod m = 1"
      using redc_shift_inverse [OF M c(1) _ J [unfolded m_def], of w] c(2) v g1
      by (auto simp: m_def)
    then show ?thesis using nle A(2) l(1) loop False by (simp add: redc_intinv_def Let_def m_def w_def)
  qed
qed

lemma and_odd_one:
  fixes x :: u64
  assumes "odd (uint x)"
  shows "x AND 1 = 1" "1 AND x = 1"
proof -
  have "uint (x AND 1) = uint x mod 2" by (simp add: and_one_eq uint_mod)
  then show "x AND 1 = 1" using assms by (simp add: word_uint_eq_iff odd_iff_mod_2_eq_one)
  then show "1 AND x = 1" by (simp add: and.commute)
qed

text \<open>The same for \<^verbatim>\<open>inv\<close>, for the number \<open>c\<close> that its loop starts from.\<close>

lemma inv_core:
  assumes M: "redc64_ok M" and y: "y < mr M" "y \<noteq> 0"
  shows "\<exists>lsh x' y' u v t. Integer_ctz [y] = Some lsh
    \<and> inv_loop (mr M) (drop_bit lsh y) 1 0 lsh = Some (x', y', u, v, t)
    \<and> (if x' AND y' = 0 then \<not> coprime (uint y) (uint (mr M))
       else \<exists>r. redc_shift M (if y' \<noteq> 1 then mr M - v else u) t = Some r
         \<and> r < mr M \<and> (uint r * uint y) mod uint (mr M) = 1)"
proof -
  define m where "m = uint (mr M)"
  have c: "0 < uint y" "uint y < m" "m < W64" "odd m"
    using y redc64_odd [OF M] uint_pos64 [OF y(2)] by (simp_all add: m_def word_less_def)
  obtain l where l: "u64arith_ctz y = Some l" "uint y = uint (drop_bit l y) * 2 ^ l" "odd (uint (drop_bit l y))"
    using odd_part64 [OF y(2)] by metis
  note s = bin_inv_start [OF c(4) c(1,2) l(2,3)]
  have lt: "drop_bit l y < mr M" using s(2) by (simp add: word_less_def m_def)
  obtain x' y' u v t where loop: "inv_loop (mr M) (drop_bit l y) 1 0 l = Some (x', y', u, v, t)"
    and out: "(x' = 0 \<or> y' = 0) \<and> 1 < gcd m (uint y)
       \<or> (x' = 1 \<or> y' = 1) \<and> bin_inv m (uint y) 1 (uint x') (uint y') (uint u) (uint v) t \<and> 0 < uint v"
    using inv_loop_value [of m "uint y" "mr M" "drop_bit l y" 1 0 l] s(1) c(3) lt by (auto simp: m_def)
  have ctz: "Integer_ctz [y] = Some l" using Integer_ctz_word [OF y(2)] l(1) by simp
  from out show ?thesis
  proof
    assume a: "(x' = 0 \<or> y' = 0) \<and> 1 < gcd m (uint y)"
    then have "\<not> coprime (uint y) m" by (simp add: coprime_iff_gcd_eq_1 gcd.commute)
    moreover have "x' AND y' = 0" using a by auto
    ultimately show ?thesis using ctz loop by (simp add: m_def)
  next
    assume a: "(x' = 1 \<or> y' = 1) \<and> bin_inv m (uint y) 1 (uint x') (uint y') (uint u) (uint v) t \<and> 0 < uint v"
    then have J: "bin_inv m (uint y) 1 (uint x') (uint y') (uint u) (uint v) t" and v: "0 < uint v"
      and one: "x' = 1 \<or> y' = 1" by simp_all
    have "x' AND y' = 1" using one J and_odd_one by (auto simp: bin_inv_def)
    moreover have "\<exists>r. redc_shift M (if y' \<noteq> 1 then mr M - v else u) t = Some r
        \<and> r < mr M \<and> (uint r * uint y) mod uint (mr M) = 1"
      using one c(2) by (intro redc_shift_inverse [OF M c(1) _ J [unfolded m_def] _ v]) (auto simp: m_def)
    ultimately show ?thesis using ctz loop by simp
  qed
qed

lemma redc_inv_full_value:
  assumes M: "redc64_ok M" and A: "A < mr M"
  shows "\<exists>r. redc_inv_full M A = Some r
    \<and> (case r of None \<Rightarrow> \<not> coprime (redc64_value M A) (uint (mr M)) \<or> uint (mr M) = 1
       | Some r \<Rightarrow> r < mr M \<and> (redc64_value M r * redc64_value M A) mod uint (mr M) = 1)"
proof (cases "A = 0")
  case True
  then have "redc64_value M A = 0" using redc64_value_unique [OF M A, of 0] by simp
  then show ?thesis using True redc64_pos [OF M] by (auto simp: redc_inv_full_def)
next
  case False
  define m where "m = uint (mr M)"
  define B where "B = redc1 M A"
  define y where "y = redc1 M B"
  have B: "B < mr M" "(uint B * W64) mod m = uint A" using redc1_value [OF M A] by (simp_all add: B_def m_def)
  have y: "y < mr M" "(uint y * W64) mod m = uint B" using redc1_value [OF M B(1)] by (simp_all add: y_def m_def)
  have val: "redc64_value M A = uint B" by (simp add: redc64_value_def B_def)
  have "y \<noteq> 0" using False B(2) y(2) by (auto simp: word_uint_eq_iff)
  then obtain lsh x' y' u v t where core: "Integer_ctz [y] = Some lsh"
    "inv_loop (mr M) (drop_bit lsh y) 1 0 lsh = Some (x', y', u, v, t)"
    "if x' AND y' = 0 then \<not> coprime (uint y) m
     else \<exists>r. redc_shift M (if y' \<noteq> 1 then mr M - v else u) t = Some r
         \<and> r < mr M \<and> (uint r * uint y) mod m = 1"
    unfolding m_def using inv_core [OF M y(1)] by blast
  have run: "redc_inv_full M A = (if x' AND y' = 0 then Some None
      else map_option Some (redc_shift M (if y' \<noteq> 1 then mr M - v else u) t))"
    using False core(1,2) by (simp add: redc_inv_full_def frommontgomery_def B_def [symmetric] y_def [symmetric]
        Let_def map_conv_bind_option comp_def)
  show ?thesis
  proof (cases "x' AND y' = 0")
    case True
    have "coprime (uint B) m \<Longrightarrow> coprime (uint y) m"
      using y(2) by (metis coprime_mod_left_iff coprime_mult_left_iff redc64_pos [OF M] m_def less_irrefl)
    then show ?thesis using True core(3) run by (simp add: val flip: m_def) blast
  next
    case F: False
    then obtain r where r: "redc_shift M (if y' \<noteq> 1 then mr M - v else u) t = Some r" "r < mr M"
      "(uint r * uint y) mod m = 1" using core(3) by auto
    have "(redc64_value M r * uint B) mod m = (redc64_value M r * (uint y * W64)) mod m"
      unfolding y(2) [symmetric] by (simp add: mod_mult_right_eq)
    also have "\<dots> = ((redc64_value M r * W64) mod m * uint y) mod m"
      by (simp only: mod_mult_left_eq) (simp add: ac_simps)
    also have "\<dots> = 1" using redc64_value_char(3) [OF M r(2)] r(3) by (simp flip: m_def)
    finally show ?thesis using F r run by (simp add: val flip: m_def)
  qed
qed

lemma redc_inv_value:
  assumes M: "redc64_ok M" and A: "A < mr M"
  shows "case redc_inv M A of None \<Rightarrow> \<not> coprime (redc64_value M A) (uint (mr M)) \<or> uint (mr M) = 1
       | Some r \<Rightarrow> r < mr M \<and> (redc64_value M r * redc64_value M A) mod uint (mr M) = 1"
  using redc_inv_full_value [OF assms] by (auto simp: redc_inv_def split: option.splits)

interpretation redc64: inverting_layer redc64_layer redc64_ok redc64_value
proof (unfold_locales, goal_cases)
  case (1 M a r)
  have "uint (mr M) \<noteq> 1"
  proof
    assume "uint (mr M) = 1"
    then have "uint a < 1" using 1(2) by (simp add: residue_def word_less_def)
    then have "uint a = 0" using uint_nonnegative [of a] by linarith
    then have "a = 0" by (simp add: uint_0_iff)
    then show False using 1(3) by (simp add: redc_inv_def redc_inv_full_def)
  qed
  then have "1 mod uint (mr M) = 1" using redc64_pos [OF 1(1)] by simp
  then show ?case using redc_inv_value [of M a] 1 by (simp add: residue_def modulus_def)
next
  case (2 M a)
  then show ?case using redc_inv_value [of M a] by (simp add: residue_def modulus_def)
qed

section \<open>Batches\<close>

lemma redc_products_snoc:
  "redc_products M R (xs @ [x]) = redc_products M R xs @ [mul_u64_u64 M (last (R # redc_products M R xs)) x]"
  by (induction xs arbitrary: R) (simp_all add: Let_def)

lemma redc_products_Nil_iff [simp]: "redc_products M R xs = [] \<longleftrightarrow> xs = []"
  by (cases xs) (simp_all add: Let_def)

lemma redc_products_last:
  assumes M: "redc64_ok M" and R: "R < mr M"
  shows "last (R # redc_products M R xs) < mr M
    \<and> (uint (last (R # redc_products M R xs)) * W64 ^ length xs) mod uint (mr M)
      = (uint R * prod_list (map uint xs)) mod uint (mr M)"
proof (induction xs rule: rev_induct)
  case Nil
  then show ?case using R by simp
next
  case (snoc x xs)
  define m where "m = uint (mr M)"
  define l where "l = last (R # redc_products M R xs)"
  have l: "l < mr M" "(uint l * W64 ^ length xs) mod m = (uint R * prod_list (map uint xs)) mod m"
    using snoc by (simp_all only: l_def m_def)
  note v = mul_u64_u64_value [OF M l(1), of x]
  have "(uint (mul_u64_u64 M l x) * W64 ^ length (xs @ [x])) mod m
      = ((uint (mul_u64_u64 M l x) * W64) mod m * W64 ^ length xs) mod m"
    by (simp only: mod_mult_left_eq) (simp add: ac_simps)
  also have "\<dots> = ((uint l * W64 ^ length xs) mod m * uint x) mod m"
    using v(2) by (simp only: mod_mult_left_eq flip: m_def) (simp add: mod_mult_left_eq ac_simps)
  also have "\<dots> = (uint R * prod_list (map uint (xs @ [x]))) mod m"
    by (simp only: l(2) mod_mult_left_eq) (simp add: ac_simps)
  finally have "(uint (mul_u64_u64 M l x) * W64 ^ length (xs @ [x])) mod m
      = (uint R * prod_list (map uint (xs @ [x]))) mod m" .
  moreover have "last (R # redc_products M R (xs @ [x])) = mul_u64_u64 M l x"
    by (simp add: redc_products_snoc l_def)
  ultimately show ?case using v(1) by (simp only: m_def)
qed

lemma W64_power_cancel:
  fixes m x y :: int
  assumes "odd m" "(x * W64 ^ n) mod m = (y * W64 ^ n) mod m"
  shows "x mod m = y mod m"
  using assms(2)
proof (induction n arbitrary: x y)
  case (Suc n)
  have "(x * W64) mod m = (y * W64) mod m" by (rule Suc.IH) (use Suc.prems in \<open>simp only: power_Suc mult.assoc\<close>)
  then show ?case by (rule W64_cancel [OF assms(1)])
qed simp

lemma batch_products_last:
  fixes a :: u64 and xs :: "u64 list"
  assumes M: "redc64_ok M"
  defines "p \<equiv> last (redc_products M (one M) (a # xs))"
  shows "p < mr M" "(uint p * W64 ^ length xs) mod uint (mr M) = prod_list (map uint (a # xs)) mod uint (mr M)"
proof -
  define m where "m = uint (mr M)"
  have l: "last (one M # redc_products M (one M) (a # xs)) = p" by (simp add: p_def Let_def)
  have p: "p < mr M" "(uint p * W64 ^ length (a # xs)) mod m = (uint (one M) * prod_list (map uint (a # xs))) mod m"
    using redc_products_last [OF M one_lt [OF M], of "a # xs"] unfolding l m_def by blast+
  have "uint (one M) mod m = W64 mod m" using one_value [OF M] by (simp add: m_def)
  then have "(uint p * W64 ^ length xs * W64) mod m = (prod_list (map uint (a # xs)) * W64) mod m"
    using p(2) mod_mult_left_eq [of "uint (one M)" m "prod_list (map uint (a # xs))"]
      mod_mult_left_eq [of W64 m "prod_list (map uint (a # xs))"] by (simp add: ac_simps)
  then show "(uint p * W64 ^ length xs) mod uint (mr M) = prod_list (map uint (a # xs)) mod uint (mr M)"
    unfolding m_def by (rule W64_cancel [OF redc64_odd [OF M]])
  show "p < mr M" by (rule p(1))
qed

lemma redc_back_value:
  assumes M: "redc64_ok M" and R: "R < mr M"
    "(uint R * prod_list (map uint (a # xs))) mod uint (mr M) = (C * W64 ^ length xs) mod uint (mr M)"
  shows "\<exists>out. redc_back M R (tl (rev (redc_products M (one M) (a # xs)))) (rev xs) acc = out @ acc
    \<and> list_all2 (\<lambda>r x. r < mr M \<and> (uint r * uint x) mod uint (mr M) = C mod uint (mr M)) out (a # xs)"
  using R
proof (induction xs arbitrary: R acc rule: rev_induct)
  case Nil
  then show ?case by (intro exI [of _ "[R]"]) (simp add: Let_def)
next
  case (snoc x xs)
  define m where "m = uint (mr M)"
  define n where "n = length xs"
  define P where "P = prod_list (map uint (a # xs))"
  define rs where "rs = redc_products M (one M) (a # xs)"
  define p where "p = last rs"
  have p: "(uint p * W64 ^ n) mod m = P mod m"
    using batch_products_last(2) [OF M, of a xs] by (simp only: p_def rs_def n_def P_def m_def)
  have inv: "(uint R * (P * uint x)) mod m = (C * W64 ^ Suc n) mod m"
    using snoc.prems(2) by (simp add: P_def n_def m_def ac_simps)
  note mx = mul_u64_u64_value [OF M snoc.prems(1), of x] and mp = mul_u64_u64_value [OF M snoc.prems(1), of p]
  define Rx Rp where "Rx = mul_u64_u64 M R x" and "Rp = mul_u64_u64 M R p"
  have Rx: "Rx < mr M" "(uint Rx * W64) mod m = (uint R * uint x) mod m"
    and Rp: "Rp < mr M" "(uint Rp * W64) mod m = (uint R * uint p) mod m"
    using mx mp by (simp_all only: Rx_def Rp_def m_def)
  have "(uint Rx * P * W64) mod m = ((uint Rx * W64) mod m * P) mod m"
    by (simp only: mod_mult_left_eq) (simp add: ac_simps)
  also have "\<dots> = (uint R * (P * uint x)) mod m"
    by (simp only: Rx(2) mod_mult_left_eq) (simp add: ac_simps)
  also have "\<dots> = (C * W64 ^ n * W64) mod m" using inv by (simp add: ac_simps)
  finally have c1: "(uint Rx * P) mod m = (C * W64 ^ n) mod m"
    unfolding m_def by (rule W64_cancel [OF redc64_odd [OF M]])
  have "(uint Rp * uint x * W64 ^ Suc n) mod m = ((uint Rp * W64) mod m * (uint x * W64 ^ n)) mod m"
    by (simp only: mod_mult_left_eq) (simp add: ac_simps)
  also have "\<dots> = ((uint p * W64 ^ n) mod m * (uint R * uint x)) mod m"
    by (simp only: Rp(2) mod_mult_left_eq) (simp add: ac_simps)
  also have "\<dots> = (uint R * (P * uint x)) mod m"
    by (simp only: p mod_mult_left_eq) (simp add: ac_simps)
  also have "\<dots> = (C * W64 ^ Suc n) mod m" by (rule inv)
  finally have c2: "(uint Rp * uint x) mod m = C mod m"
    unfolding m_def by (rule W64_power_cancel [OF redc64_odd [OF M]])
  obtain out where out: "redc_back M Rx (tl (rev rs)) (rev xs) (Rp # acc) = out @ Rp # acc"
    "list_all2 (\<lambda>r x. r < mr M \<and> (uint r * uint x) mod m = C mod m) out (a # xs)"
    using snoc.IH [OF Rx(1), of "Rp # acc"] c1 by (auto simp: P_def n_def m_def rs_def)
  have "rs \<noteq> []" by (simp add: rs_def Let_def)
  then have "rev rs = p # tl (rev rs)" using rev_last [of rs] by (simp add: p_def)
  moreover have "redc_products M (one M) (a # xs @ [x]) = rs @ [mul_u64_u64 M p x]"
    using redc_products_snoc [of M "one M" "a # xs" x] \<open>rs \<noteq> []\<close> by (simp add: rs_def p_def Let_def)
  ultimately have "tl (rev (redc_products M (one M) (a # xs @ [x]))) = p # tl (rev rs)"
    by (simp del: redc_products.simps rev_eq_Cons_iff)
  then have "redc_back M R (tl (rev (redc_products M (one M) (a # xs @ [x])))) (rev (xs @ [x])) acc
      = (out @ [Rp]) @ acc"
    using out(1) by (simp add: Rx_def Rp_def del: redc_products.simps)
  moreover have "list_all2 (\<lambda>r x. r < mr M \<and> (uint r * uint x) mod m = C mod m) (out @ [Rp]) (a # xs @ [x])"
    using list_all2_appendI [OF out(2), of "[Rp]" "[x]"] Rp(1) c2 by simp
  ultimately show ?case unfolding m_def by blast
qed

lemma coprime_prod_list_iff: "coprime (prod_list xs) m \<longleftrightarrow> (\<forall>x\<in>set xs. coprime x m)"
  for m :: int
  by (induction xs) (simp_all add: coprime_mult_left_iff)

lemma batch_products_coprime:
  assumes M: "redc64_ok M" and p: "p = last (redc_products M (one M) (a # xs))"
  shows "coprime (redc64_value M p) (uint (mr M)) \<longleftrightarrow> (\<forall>x\<in>set (a # xs). coprime (uint x) (uint (mr M)))"
proof -
  define m where "m = uint (mr M)"
  have m: "m \<noteq> 0" using redc64_pos [OF M] by (simp add: m_def)
  have W: "coprime (W64 ^ k) m" for k
    using coprime_W64_odd [OF redc64_odd [OF M]] by (simp add: m_def coprime_power_left_iff)
  note last = batch_products_last [OF M, of a xs, folded p]
  have "coprime (redc64_value M p) m \<longleftrightarrow> coprime ((redc64_value M p * W64) mod m) m"
    using W [of 1] m by (simp add: coprime_mod_left_iff)
  also have "\<dots> \<longleftrightarrow> coprime (uint p) m" using redc64_value_char(3) [OF M last(1)] by (simp add: m_def)
  also have "\<dots> \<longleftrightarrow> coprime ((uint p * W64 ^ length xs) mod m) m"
    using W [of "length xs"] m by (auto simp: coprime_mod_left_iff)
  also have "\<dots> \<longleftrightarrow> coprime (prod_list (map uint (a # xs))) m"
    using last(2) m by (simp add: coprime_mod_left_iff flip: m_def)
  also have "\<dots> \<longleftrightarrow> (\<forall>x\<in>set (a # xs). coprime (uint x) m)"
    by (simp only: coprime_prod_list_iff) simp
  finally show ?thesis by (simp only: m_def)
qed

lemma batchinv_redc_value:
  assumes M: "redc64_ok M" and m: "uint (mr M) \<noteq> 1" and as: "as \<noteq> []"
  shows "if \<forall>x\<in>set as. coprime (uint x) (uint (mr M))
    then list_all2 (\<lambda>r x. r < mr M \<and> (uint r * uint x) mod uint (mr M) = uint c mod uint (mr M))
           (batchinv_redc M as c) as
    else batchinv_redc M as c = []"
proof -
  obtain a xs where ax: "as = a # xs" using as by (cases as) simp_all
  define m where "m = uint (mr M)"
  define p where "p = last (redc_products M (one M) as)"
  have p: "p < mr M" "(uint p * W64 ^ length xs) mod m = prod_list (map uint as) mod m"
    using batch_products_last [OF M, of a xs] by (simp_all only: p_def ax m_def)
  have cop: "coprime (redc64_value M p) m \<longleftrightarrow> (\<forall>x\<in>set as. coprime (uint x) m)"
    using batch_products_coprime [OF M, of p a xs] by (simp only: p_def ax m_def)
  show ?thesis
  proof (cases "redc_inv M p")
    case None
    then have "\<not> coprime (redc64_value M p) m" using redc_inv_value [OF M p(1)] assms(2) by (simp add: m_def)
    moreover have "batchinv_redc M as c = []" using as None by (simp add: batchinv_redc_def p_def Let_def)
    ultimately show ?thesis using cop by (auto simp: m_def)
  next
    case (Some R)
    then have R: "R < mr M" "(redc64_value M R * redc64_value M p) mod m = 1"
      using redc_inv_value [OF M p(1)] by (simp_all add: m_def)
    then have "coprime (redc64_value M p) m"
      by (metis coprime_1_left coprime_mod_left_iff coprime_mult_left_iff less_irrefl m_def redc64_pos [OF M])
    then have cp: "\<forall>x\<in>set as. coprime (uint x) m" by (simp only: cop)
    define R1 R2 where "R1 = mul_u64_u64 M R c" and "R2 = frommontgomery M R1"
    have R1: "R1 < mr M" "(uint R1 * W64) mod m = (uint R * uint c) mod m"
      using mul_u64_u64_value [OF M R(1), of c] by (simp_all add: R1_def m_def)
    have R2: "R2 < mr M" "(uint R2 * W64) mod m = uint R1"
      using redc1_value [OF M R1(1)] by (simp_all add: R2_def m_def frommontgomery_def)
    have Rp: "(uint R * uint p) mod m = (W64 * W64) mod m"
    proof -
      have "(uint R * uint p) mod m = ((redc64_value M R * W64) * (redc64_value M p * W64)) mod m"
        using redc64_value_char(3) [OF M R(1)] redc64_value_char(3) [OF M p(1)]
        by (metis m_def mod_mult_eq)
      also have "\<dots> = ((redc64_value M R * redc64_value M p) mod m * (W64 * W64)) mod m"
        by (simp only: mod_mult_left_eq) (simp add: ac_simps)
      finally show ?thesis using R(2) by simp
    qed
    have "(uint R2 * prod_list (map uint as) * W64 ^ 2) mod m
        = (((uint R2 * W64) mod m * W64) mod m * prod_list (map uint as)) mod m"
      by (simp only: mod_mult_left_eq) (simp add: ac_simps power2_eq_square)
    also have "\<dots> = (uint R * uint c * (prod_list (map uint as) mod m)) mod m"
      by (simp only: R2(2) R1(2) mod_mult_left_eq mod_mult_right_eq)
    also have "\<dots> = ((uint R * uint p) mod m * (uint c * W64 ^ length xs)) mod m"
      by (simp only: mod_mult_left_eq mod_mult_right_eq flip: p(2)) (simp add: ac_simps)
    also have "\<dots> = (uint c * W64 ^ length xs * W64 ^ 2) mod m"
      by (simp only: Rp mod_mult_left_eq) (simp add: ac_simps power2_eq_square)
    finally have "(uint R2 * prod_list (map uint as)) mod m = (uint c * W64 ^ length xs) mod m"
      unfolding m_def by (rule W64_power_cancel [OF redc64_odd [OF M]])
    then obtain out where "redc_back M R2 (tl (rev (redc_products M (one M) as))) (rev xs) [] = out"
      "list_all2 (\<lambda>r x. r < mr M \<and> (uint r * uint x) mod m = uint c mod m) out as"
      using redc_back_value [OF M R2(1), of a xs "uint c" "[]"] unfolding ax m_def by auto
    moreover have "batchinv_redc M as c = redc_back M R2 (tl (rev (redc_products M (one M) as))) (rev xs) []"
      using Some by (simp add: batchinv_redc_def Let_def R1_def R2_def p_def ax del: redc_products.simps)
    ultimately show ?thesis using cp by (simp add: m_def)
  qed
qed

lemma batch_Q_to_Fp_value:
  assumes den: "odd (uint den)" "uint den \<noteq> 1" and ps: "ps \<noteq> []"
    "\<forall>p\<in>set ps. odd (uint p) \<and> 1 < uint p \<and> coprime (uint p) (uint den)"
  shows "\<exists>ts. batch_Q_to_Fp num den k ps = Some ts
    \<and> list_all2 (\<lambda>t p. t < p \<and> (uint t * uint den * 2 ^ k) mod uint p = uint num mod uint p) ts ps"
proof -
  obtain M where M: "redc64_new den = Some M" "redc64_ok M" "mr M = den"
    using redc64_new_ok [OF den(1)] by blast
  define rem quo where "rem = num mod den" and "quo = num div den"
  have pos: "0 < uint den" using redc64_pos [OF M(2)] M(3) by simp
  have rem: "uint rem = uint num mod uint den" "uint quo = uint num div uint den"
    by (simp_all add: rem_def quo_def uint_mod uint_div)
  have lt: "uint rem < uint den" using pos rem by simp
  define rs where "rs = batchinv_redc M ps (den - rem)"
  have c: "uint (den - rem) = uint den - uint rem"
    using lt uint_lt64 [of den] uint_nonnegative [of rem] unfolding uint_sub64 by (intro mod_W64_id) linarith+
  have "(- invm M) * den = 1" using redc64_inv [OF M(2)] M(3) by simp
  then have inv: "den * (- invm M) = 1" by (simp add: mult.commute)
  have rs: "list_all2 (\<lambda>r p. r < den \<and> (uint r * uint p) mod uint den = (uint den - uint rem) mod uint den) rs ps"
    using batchinv_redc_value [OF M(2) _ ps(1), of "den - rem"] den(2) ps(2) by (simp add: M(3) rs_def c)
  define f where "f = (\<lambda>r p. u64arith_post_process_inverse r p rem (- invm M) quo k)"
  have "\<exists>ts. those (map2 f rs ps) = Some ts
      \<and> list_all2 (\<lambda>t p. t < p \<and> (uint t * uint den * 2 ^ k) mod uint p = uint num mod uint p) ts ps"
    using rs ps(2)
  proof (induction rs ps rule: list_all2_induct)
    case Nil
    then show ?case by simp
  next
    case (Cons r rs p ps)
    have "(uint r * uint p + uint rem) mod uint den = ((uint den - uint rem) mod uint den + uint rem) mod uint den"
      using Cons.hyps(1) by (metis mod_add_left_eq)
    also have "\<dots> = 0" by (simp add: mod_add_left_eq)
    finally have "uint den dvd uint r * uint p + uint rem" by (simp add: dvd_eq_mod_eq_0)
    then obtain t where "f r p = Some t" "t < p"
      "(uint t * uint den * 2 ^ k) mod uint p = (uint quo * uint den + uint rem) mod uint p"
      unfolding f_def
      using post_process_inverse_value [of p den "- invm M" r rem quo k] inv lt Cons.hyps(1) Cons.prems
      by (auto simp: word_less_def)
    then show ?case using Cons.IH Cons.prems by (auto simp: rem)
  qed
  moreover have "rs \<noteq> []" using rs ps(1) by auto
  ultimately show ?thesis
    using M by (simp add: batch_Q_to_Fp_def batch_Q_to_Fp_new_def batch_Q_to_Fp_call_def Let_def f_def
        flip: rem_def quo_def rs_def)
qed

section \<open>Properties\<close>

text \<open>
  C36: Inversion modulo an odd number above one, in Montgomery form: it always ends without a failed
  assertion, with the reduced Montgomery form of the inverse, or with failure for a number that
  has no inverse. The variant on plain integers is right for every nonzero reduced argument.
\<close>

theorem redc64_inversion:
  assumes "odd (uint m)" "1 < uint m"
  shows "\<exists>M. redc64_new m = Some M
    \<and> (case redc_inv_full M (redc_set_u64 M s) of
         None \<Rightarrow> False
       | Some None \<Rightarrow> \<not> coprime (uint s) (uint m)
       | Some (Some r) \<Rightarrow> r < m \<and> (uint (redc_get M r) * uint s) mod uint m = 1)
    \<and> (0 < a \<and> a < m \<longrightarrow> (case redc_intinv M a of
         None \<Rightarrow> False
       | Some None \<Rightarrow> \<not> coprime (uint a) (uint m)
       | Some (Some r) \<Rightarrow> r < m \<and> (uint r * uint a) mod uint m = 1))"
proof -
  obtain M where M: "redc64_new m = Some M" "redc64_ok M" "mr M = m" using redc64_new_ok [OF assms(1)] by blast
  note S = redc64_set_get [OF M(2), of s, unfolded M(3)]
  have v: "redc64_value M x = uint (redc_get M x)" for x
    by (simp add: redc64_value_def redc_get_def frommontgomery_def)
  have c: "coprime (uint s mod uint m) (uint m) = coprime (uint s) (uint m)"
    using assms(2) by (simp add: coprime_mod_left_iff)
  have "\<exists>r. redc_inv_full M (redc_set_u64 M s) = Some r
    \<and> (case r of None \<Rightarrow> \<not> coprime (uint s) (uint m)
       | Some r \<Rightarrow> r < m \<and> (uint (redc_get M r) * uint s) mod uint m = 1)"
    using redc_inv_full_value [OF M(2), of "redc_set_u64 M s"] S assms(2)
    by (auto simp: v M(3) c mod_mult_right_eq split: option.splits)
  moreover have "\<exists>r. redc_intinv M a = Some r
    \<and> (case r of None \<Rightarrow> \<not> coprime (uint a) (uint m) | Some r \<Rightarrow> r < m \<and> (uint r * uint a) mod uint m = 1)"
    if "0 < a" "a < m"
    using redc_intinv_value [OF M(2), of a] that word_neq_0_conv [of a] by (simp only: M(3))
  ultimately show ?thesis using M(1) by (intro exI [of _ M]) (auto split: option.splits)
qed

theorem redc64_inversion_witness:
  "\<exists>M. redc64_new 15 = Some M
    \<and> (case redc_inv_full M (redc_set_u64 M 7) of
         None \<Rightarrow> False
       | Some None \<Rightarrow> \<not> coprime (uint (7 :: u64)) (uint (15 :: u64))
       | Some (Some r) \<Rightarrow> r < 15 \<and> (uint (redc_get M r) * uint (7 :: u64)) mod uint (15 :: u64) = 1)
    \<and> (case redc_intinv M 6 of
         None \<Rightarrow> False
       | Some None \<Rightarrow> \<not> coprime (uint (6 :: u64)) (uint (15 :: u64))
       | Some (Some r) \<Rightarrow> r < 15 \<and> (uint r * uint (6 :: u64)) mod uint (15 :: u64) = 1)"
  using redc64_inversion [of 15 7 6] by simp

text \<open>
  C37: The division of a rational by many primes at once: for an odd denominator above one and odd
  numbers \<open>p\<close> above one that are coprime to it, every result is reduced and is the numerator
  divided by the denominator and by \<open>2 ^ k\<close> modulo its \<open>p\<close>; no assertion fails.
\<close>

theorem batch_Q_to_Fp_correct:
  assumes "odd (uint den)" "1 < uint den" "ps \<noteq> []"
    "\<forall>p\<in>set ps. odd (uint p) \<and> 1 < uint p \<and> coprime (uint p) (uint den)"
  shows "\<exists>ts. batch_Q_to_Fp num den k ps = Some ts
    \<and> list_all2 (\<lambda>t p. t < p \<and> (uint t * uint den * 2 ^ k) mod uint p = uint num mod uint p) ts ps"
  using batch_Q_to_Fp_value [of den ps num k] assms by simp

theorem batch_Q_to_Fp_correct_witness:
  "\<exists>ts. batch_Q_to_Fp 100 7 2 [11, 15] = Some ts
    \<and> list_all2 (\<lambda>t p. t < p \<and> (uint t * 7 * 2 ^ 2) mod uint p = 100 mod uint p) ts [11, 15 :: u64]"
proof -
  have "coprime (11 :: int) 7 \<and> coprime (15 :: int) 7" by code_simp
  then show ?thesis using batch_Q_to_Fp_correct [of 7 "[11, 15]" 100 2] by simp
qed

end
