(* ===== verification/RelationTools.thy ===== *)
theory RelationTools
  imports RedcInv
begin

text \<open>
  The root of a prime in a relation: \<^verbatim>\<open>src/utils/relation-tools.c\<close>, with the functions of the older
  one word arithmetic in C that it calls (\<^verbatim>\<open>arith/ularith.h\<close>, \<^verbatim>\<open>arith/mod_ul.h\<close>, \<^verbatim>\<open>arith/mod_ul.c\<close>,
  \<^verbatim>\<open>arith/modredc_ul.h\<close>, \<^verbatim>\<open>arith/modredc_ul.c\<close>), and the conversions of integers to strings. An
  \<^verbatim>\<open>unsigned long\<close> has 64 bits. A failed \<^verbatim>\<open>ASSERT\<close> is the outer \<open>None\<close>, a return value of zero the
  inner one.
\<close>

section \<open>Word arithmetic\<close>

definition ularith_add_ul_2ul :: "u64 \<Rightarrow> u64 \<Rightarrow> u64 \<Rightarrow> u64 \<times> u64" where
  "ularith_add_ul_2ul r1 r2 a = (let r1 = r1 + a in (r1, if r1 < a then r2 + 1 else r2))"

text \<open>The branches with a 128 bit integer type.\<close>

definition ularith_mul_ul_ul_2ul :: "u64 \<Rightarrow> u64 \<Rightarrow> u64 \<times> u64" where
  "ularith_mul_ul_ul_2ul a b =
     (let r = uint a * uint b in (word_of_int r, word_of_int (drop_bit 64 r)))"

definition ularith_div_2ul_ul_ul_r :: "u64 \<Rightarrow> u64 \<Rightarrow> u64 \<Rightarrow> u64 option" where
  "ularith_div_2ul_ul_ul_r a1 a2 b =
     (if a2 < b then Some (word_of_int ((uint a1 + push_bit 64 (uint a2)) mod uint b)) else None)"

definition ularith_shrd :: "u64 \<Rightarrow> u64 \<Rightarrow> nat \<Rightarrow> u64" where
  "ularith_shrd hi lo i = (if i > 0 then drop_bit i lo OR push_bit (64 - i) hi else lo)"

definition ularith_invmod_T :: "u64 list" where
  "ularith_invmod_T =
    [1, 171, 205, 183, 57, 163, 197, 239, 241, 27, 61, 167, 41, 19, 53, 223, 225, 139, 173, 151, 25,
     131, 165, 207, 209, 251, 29, 135, 9, 243, 21, 191, 193, 107, 141, 119, 249, 99, 133, 175, 177,
     219, 253, 103, 233, 211, 245, 159, 161, 75, 109, 87, 217, 67, 101, 143, 145, 187, 221, 71, 201,
     179, 213, 127, 129, 43, 77, 55, 185, 35, 69, 111, 113, 155, 189, 39, 169, 147, 181, 95, 97, 11,
     45, 23, 153, 3, 37, 79, 81, 123, 157, 7, 137, 115, 149, 63, 65, 235, 13, 247, 121, 227, 5, 47,
     49, 91, 125, 231, 105, 83, 117, 31, 33, 203, 237, 215, 89, 195, 229, 15, 17, 59, 93, 199, 73,
     51, 85, 255]"

definition ularith_invmod :: "u64 \<Rightarrow> u64" where
  "ularith_invmod n =
     (let r = ularith_invmod_T ! unat (drop_bit 1 (n AND 255));
          r = 2 * r - r * r * n;
          r = 2 * r - r * r * n;
          r = 2 * r - r * r * n
      in r)"

section \<open>Residues\<close>

definition modul_set_uint64 :: "u64 \<Rightarrow> u64 \<Rightarrow> u64" where
  "modul_set_uint64 m s = s mod m"

definition modul_neg :: "u64 \<Rightarrow> u64 \<Rightarrow> u64" where
  "modul_neg m a = (if a = 0 then a else m - a)"

text \<open>The signed argument is a word; \<^verbatim>\<open>llabs\<close> of the least integer wraps around to itself.\<close>

definition modul_set_int64 :: "u64 \<Rightarrow> u64 \<Rightarrow> u64" where
  "modul_set_int64 m s =
     (let r = (if sint s < 0 then - s else s) mod m
      in if sint s < 0 then modul_neg m r else r)"

definition modul_mul :: "u64 \<Rightarrow> u64 \<Rightarrow> u64 \<Rightarrow> u64 option" where
  "modul_mul m a b = (let (t1, t2) = ularith_mul_ul_ul_2ul a b in ularith_div_2ul_ul_ul_r t1 t2 m)"

record modulusredcul =
  m_ul :: u64
  invm_ul :: u64

definition modredcul_initmod_ul_raw :: "u64 \<Rightarrow> modulusredcul" where
  "modredcul_initmod_ul_raw s = \<lparr>m_ul = s, invm_ul = - ularith_invmod s\<rparr>"

text \<open>
  The loops of \<^verbatim>\<open>modredcul_intinv\<close> are the ones of \<^verbatim>\<open>intinv\<close>, \<^term>\<open>intinv_loop\<close>; the division by \<open>2 ^ t\<close>
  follows.
\<close>

definition modredcul_shift :: "modulusredcul \<Rightarrow> u64 \<Rightarrow> nat \<Rightarrow> u64 option" where
  "modredcul_shift m u t =
     (let (u, t) =
            (if t \<ge> 64
             then let tlow = u * invm_ul m;
                      (tlow, thigh) = ularith_mul_ul_ul_2ul tlow (m_ul m)
                  in (thigh + (if u \<noteq> 0 then 1 else 0), t - 64)
             else (u, t))
      in if \<not> t < 64 then None
         else if t > 0 then
           let tlow = (u * invm_ul m) AND (push_bit t 1 - 1);
               (tlow, thigh) = ularith_mul_ul_ul_2ul tlow (m_ul m);
               (tlow, thigh) = ularith_add_ul_2ul tlow thigh u
           in Some (ularith_shrd thigh tlow t)
         else Some u)"

definition modredcul_intinv :: "modulusredcul \<Rightarrow> u64 \<Rightarrow> u64 option option" where
  "modredcul_intinv m A =
     (if \<not> A < m_ul m \<or> m_ul m AND 1 = 0 then None
      else if A = 0 then Some None
      else do {
        lsh \<leftarrow> u64arith_ctz A;
        (x, y, u, v, t) \<leftarrow> intinv_loop (m_ul m) (drop_bit lsh A) 1 0 lsh;
        if x > 1 then Some None
        else do {
          let u = (if u mod 2 = 0 then m_ul m - v else u);
          r \<leftarrow> modredcul_shift m u t;
          Some (Some r)
        }
      })"

definition modul_inv_odd :: "u64 \<Rightarrow> u64 \<Rightarrow> u64 option option" where
  "modul_inv_odd m A = modredcul_intinv (modredcul_initmod_ul_raw m) A"

definition modul_even_inv_lookup_table :: "u64 list" where
  "modul_even_inv_lookup_table =
    [1, 43, 77, 55, 57, 35, 69, 111, 113, 27, 61, 39, 41, 19, 53, 95, 97, 11, 45,
     23, 25, 3, 37, 79, 81, 123, 29, 7, 9, 115, 21, 63, 65, 107, 13, 119, 121, 99,
     5, 47, 49, 91, 125, 103, 105, 83, 117, 31, 33, 75, 109, 87, 89, 67, 101, 15,
     17, 59, 93, 71, 73, 51, 85, 127]"

text \<open>
  The recursive call cannot return zero, since its argument keeps its low bit: the code does not
  look at the value it returns.
\<close>

partial_function (option) modul_inv_powerof2 :: "u64 \<Rightarrow> u64 \<Rightarrow> u64 option option" where
  "modul_inv_powerof2 x y =
     (if x AND (x - 1) \<noteq> 0 \<or> \<not> y < x then None
      else if y AND 1 = 0 then Some None
      else if drop_bit 4 x = 0 then Some (Some y)
      else if drop_bit 8 x = 0
      then Some (Some ((modul_even_inv_lookup_table ! unat (drop_bit 1 (y - 1))) AND (x - 1)))
      else do {
        k \<leftarrow> u64arith_ctz x;
        let h = drop_bit (k div 2) x;
        r0 \<leftarrow> modul_inv_powerof2 h (y AND (h - 1));
        r \<leftarrow> r0;
        let t = (r * r) AND (x - 1);
        let t = (t * y) AND (x - 1);
        let r = push_bit 1 r AND (x - 1);
        Some (Some ((r - t) AND (x - 1)))
      })"

declare modul_inv_powerof2.simps [code]

definition relation_compute_r :: "u64 \<Rightarrow> u64 \<Rightarrow> u64 \<Rightarrow> u64 option" where
  "relation_compute_r a b p =
     do {
       let br = modul_set_uint64 p b;
       inv \<leftarrow> (if p AND 1 \<noteq> 0 then modul_inv_odd p br else modul_inv_powerof2 p br);
       case inv of
         None \<Rightarrow> Some p
       | Some t \<Rightarrow>
           let pa = modul_set_int64 p a
           in modul_mul p t pa
     }"

section \<open>Integers as strings\<close>

definition hex_digits :: string where
  "hex_digits = ''0123456789abcdef''"

lemma unat_div_less: "m div n \<noteq> 0 \<Longrightarrow> 1 < unat n \<Longrightarrow> unat (m div n) < unat m" for m n :: u64
  by (cases "m = 0") (simp_all add: unat_div unat_gt_0)

text \<open>
  The loops write the digits from the right and \<^verbatim>\<open>sswap\<close> turns them round; a string stands for the
  characters between the two pointers.
\<close>

function u64toa16_loop :: "u64 \<Rightarrow> string" where
  "u64toa16_loop m =
     hex_digits ! unat (m AND 15) # (let m = drop_bit 4 m in if m \<noteq> 0 then u64toa16_loop m else [])"
  by pat_completeness auto
termination
  by (relation "measure unat") (auto simp: drop_bit_eq_div intro: unat_div_less)

definition u64toa16 :: "u64 \<Rightarrow> string" where
  "u64toa16 m = rev (u64toa16_loop m)"

function u64toa10_loop :: "u64 \<Rightarrow> string" where
  "u64toa10_loop m =
     (let n = m div 10
      in char_of (48 + unat (m - n * 10)) # (if n \<noteq> 0 then u64toa10_loop n else []))"
  by pat_completeness auto
termination
  by (relation "measure unat") (auto intro: unat_div_less simp del: unat_div)

definition u64toa10 :: "u64 \<Rightarrow> string" where
  "u64toa10 m = rev (u64toa10_loop m)"

definition d64toa10 :: "u64 \<Rightarrow> string" where
  "d64toa10 m = (if sint m < 0 then CHR ''-'' # u64toa10 (- m) else u64toa10 m)"

definition d64toa16 :: "u64 \<Rightarrow> string" where
  "d64toa16 m = (if sint m < 0 then CHR ''-'' # u64toa16 (- m) else u64toa16 m)"

section \<open>Word arithmetic: values\<close>

lemma word_of_int_64: "uint (word_of_int r :: u64) = r mod W64"
  by (simp add: W64_def uint_word_of_int)

lemma ularith_mul_eq: "ularith_mul_ul_ul_2ul a b = u64arith_mul_1_1_2 a b"
proof -
  obtain l h where lh: "u64arith_mul_1_1_2 a b = (l, h)" by (meson surj_pair)
  have "uint h = (uint a * uint b) div W64" by (rule mul_1_1_2_words(2) [OF lh])
  then have "drop_bit 64 (uint a * uint b) = uint h" by (simp only: drop_bit_eq_div W64_def)
  then have "word_of_int (drop_bit 64 (uint a * uint b)) = h" by (simp only: word_of_int_uint)
  moreover have "word_of_int (uint a * uint b) = l"
    using mul_1_1_2_words(1) [OF lh] by (simp only: word_uint_eq_iff word_of_int_64)
  ultimately show ?thesis using lh by (simp add: ularith_mul_ul_ul_2ul_def Let_def)
qed

lemma ularith_add_eq: "ularith_add_ul_2ul r1 r2 a = u64arith_add_1_2 r1 r2 a"
  by (simp add: ularith_add_ul_2ul_def u64arith_add_1_2_def u64arith_add_2_2_def Let_def)

lemma ularith_shrd_eq: "ularith_shrd hi lo i = u64arith_shrd hi lo i"
  by (simp add: ularith_shrd_def u64arith_shrd_def)

lemma newton_word:
  fixes n r :: u64
  assumes q: "q dvd uint n * uint r - 1" and W: "q * q dvd W64"
  shows "q * q dvd uint n * uint (2 * r - r * r * n) - 1"
proof -
  define e where "e = 2 * uint r - uint r * uint r * uint n"
  have "uint (2 * r - r * r * n) = e mod W64"
    by (simp add: e_def u64_simps uint_numeral mod_simps W64_def [symmetric])
  then have "W64 dvd uint (2 * r - r * r * n) - e" by (simp add: mod_eq_dvd_iff [symmetric])
  then have "q * q dvd uint n * (uint (2 * r - r * r * n) - e)"
    using W by (meson dvd_mult dvd_trans)
  moreover have "q * q dvd uint n * e - 1" unfolding e_def by (rule newton_dvd [OF q])
  ultimately have "q * q dvd uint n * (uint (2 * r - r * r * n) - e) + (uint n * e - 1)" by (rule dvd_add)
  then show ?thesis by (simp add: algebra_simps)
qed

lemma invmod_T_entries: "list_all (\<lambda>i. (uint (ularith_invmod_T ! i) * (2 * int i + 1)) mod 256 = 1) [0..<128]"
  by code_simp

lemma odd_low_bits:
  fixes n :: u64
  assumes "odd (uint n)" and k: "0 < k" "k \<le> 64"
  defines "i \<equiv> unat (drop_bit 1 (n AND (push_bit k 1 - 1)))"
  shows "int i = uint n mod 2 ^ k div 2" "uint n mod 2 ^ k = 2 * int i + 1" "i < 2 ^ (k - 1)"
proof -
  have "int i = uint (drop_bit 1 (n AND (push_bit k 1 - 1)))" by (simp add: i_def)
  also have "\<dots> = uint n mod 2 ^ k div 2" unfolding uint_drop_bit64 uint_low_bits by simp
  finally show e: "int i = uint n mod 2 ^ k div 2" .
  have "odd (uint n mod 2 ^ k)" using assms(1) k(1) by (simp add: dvd_mod_iff)
  then show "uint n mod 2 ^ k = 2 * int i + 1" unfolding e by (elim oddE) simp
  then have "2 * int i + 1 < 2 ^ k" by (simp flip: \<open>uint n mod 2 ^ k = 2 * int i + 1\<close>)
  also have "(2 :: int) ^ k = 2 * 2 ^ (k - 1)" using k(1) by (cases k) simp_all
  finally have "int i < 2 ^ (k - 1)" by linarith
  then have "int i < int (2 ^ (k - 1))" by simp
  then show "i < 2 ^ (k - 1)" by (simp only: of_nat_less_iff)
qed

lemma ularith_invmod_value:
  assumes "odd (uint n)"
  shows "n * ularith_invmod n = 1"
proof -
  define i where "i = unat (drop_bit 1 (n AND (push_bit 8 1 - 1)))"
  note i = odd_low_bits [OF assms, of 8, folded i_def]
  define r0 where "r0 = ularith_invmod_T ! i"
  have i': "uint n mod 256 = 2 * int i + 1" "i < 128" using i by simp_all
  then have "(uint r0 * (uint n mod 256)) mod 256 = 1"
    using invmod_T_entries by (simp add: list_all_iff r0_def)
  then have "(uint n * uint r0) mod 256 = 1 mod 256" by (simp add: mod_mult_right_eq mult.commute)
  then have "256 dvd uint n * uint r0 - 1" by (simp only: mod_eq_dvd_iff)
  then have 0: "2 ^ 8 dvd uint n * uint r0 - 1" by simp
  define r1 r2 r3 where "r1 = 2 * r0 - r0 * r0 * n" and "r2 = 2 * r1 - r1 * r1 * n" and "r3 = 2 * r2 - r2 * r2 * n"
  have 1: "2 ^ 16 dvd uint n * uint r1 - 1" using newton_word [OF 0] by (simp add: r1_def W64_def)
  have 2: "2 ^ 32 dvd uint n * uint r2 - 1" using newton_word [OF 1] by (simp add: r2_def W64_def)
  have "W64 dvd uint n * uint r3 - 1" using newton_word [OF 2] by (simp add: r3_def W64_def)
  then have "uint (n * r3) = 1 mod W64" unfolding uint_mult64 by (simp only: mod_eq_dvd_iff)
  then have "n * r3 = 1" by (simp add: word_uint_eq_iff)
  moreover have "ularith_invmod n = r3"
    by (simp add: ularith_invmod_def Let_def r3_def r2_def r1_def r0_def i_def)
  ultimately show ?thesis by simp
qed

section \<open>Inverses\<close>

lemma modredcul_shift_eq:
  assumes "mr M = m_ul m" "invm M = invm_ul m"
  shows "modredcul_shift m u t = redc_shift M u t"
  unfolding modredcul_shift_def redc_shift_def ularith_mul_eq ularith_add_eq ularith_shrd_eq assms
    of_bool_def by (rule refl)

lemma modul_inv_odd_value:
  assumes p: "odd (uint p)" and A: "A < p"
  shows "\<exists>r. modul_inv_odd p A = Some r
    \<and> (case r of None \<Rightarrow> \<not> coprime (uint A) (uint p) \<or> uint p = 1
       | Some r \<Rightarrow> r < p \<and> (uint r * uint A) mod uint p = 1)"
proof -
  obtain M where M: "redc64_ok M" "mr M = p" using redc64_new_ok [OF p] by blast
  define m where "m = modredcul_initmod_ul_raw p"
  have m: "m_ul m = p" "invm_ul m = - ularith_invmod p" by (simp_all add: m_def modredcul_initmod_ul_raw_def)
  have "invm M = invm M * (p * ularith_invmod p)" using ularith_invmod_value [OF p] by simp
  also have "\<dots> = - ularith_invmod p" using redc64_inv [OF M(1)] M(2) by (simp add: mult.assoc [symmetric])
  finally have i: "invm M = - ularith_invmod p" .
  have "p AND 1 \<noteq> 0" using and_odd_one(1) [OF p] by simp
  moreover have "\<not> p \<le> A" using A by simp
  moreover have "modredcul_shift m u t = redc_shift M u t" for u t
    using M m i by (intro modredcul_shift_eq) simp_all
  then have sh: "modredcul_shift m = redc_shift M" by (intro ext)
  ultimately have eq: "modul_inv_odd p A = redc_intinv M A"
    using A unfolding modul_inv_odd_def m_def [symmetric] modredcul_intinv_def redc_intinv_def M m sh
    by simp
  show ?thesis
  proof (cases "A = 0")
    case True
    then have "modul_inv_odd p A = Some None" unfolding eq by (simp add: redc_intinv_def)
    then show ?thesis using True redc64_pos [OF M(1)] M(2) by simp
  next
    case False
    then show ?thesis using redc_intinv_value [OF M(1), of A] A M(2) by (auto simp: eq split: option.splits)
  qed
qed

text \<open>Powers of two as words.\<close>

lemma uint_mask64: "uint (a AND (2 ^ k - 1) :: u64) = uint a mod 2 ^ k"
  using uint_low_bits [of a k] by (simp only: push_bit_of_1)

lemma exp_div_exp: "(2 :: int) ^ k div 2 ^ j = (if j \<le> k then 2 ^ (k - j) else 0)"
  by (simp add: exp_div_exp_eq)

lemma ctz_exp64:
  assumes "k < 64"
  shows "u64arith_ctz (2 ^ k) = Some k"
proof -
  have u: "uint (2 ^ k :: u64) = 2 ^ k" by (rule uint_exp64 [OF assms])
  then have "(2 ^ k :: u64) \<noteq> 0" unfolding word_uint_eq_iff by simp
  then obtain j where j: "u64arith_ctz (2 ^ k) = Some j" "odd ((2 :: int) ^ k div 2 ^ j)"
    "(2 :: int) ^ j dvd 2 ^ k" using ctz_uint unfolding u [symmetric] by blast
  have "\<not> k < j" "\<not> j < k" using j(2) by (auto simp: exp_div_exp)
  then have "j = k" by simp
  then show ?thesis using j(1) by simp
qed

lemma drop_exp64:
  assumes "k < 64"
  shows "drop_bit j (2 ^ k :: u64) = (if j \<le> k then 2 ^ (k - j) else 0)"
  unfolding word_uint_eq_iff uint_drop_bit64 uint_exp64 [OF assms] exp_div_exp
  using assms by (simp add: uint_exp64)

lemma drop_exp64_0:
  assumes "k < 64"
  shows "drop_bit j (2 ^ k :: u64) = 0 \<longleftrightarrow> k < j"
  unfolding word_uint_eq_iff uint_drop_bit64 uint_exp64 [OF assms] exp_div_exp by simp

lemma odd_square_8: "odd y \<Longrightarrow> 8 dvd y * y - 1" for y :: int
proof -
  assume "odd y"
  then obtain j where j: "y = 2 * j + 1" by (elim oddE)
  have "even (j * (j + 1))" by simp
  then obtain i where "j * (j + 1) = 2 * i" by (elim evenE)
  then have "y * y - 1 = 8 * i" by (simp add: j algebra_simps)
  then show ?thesis by simp
qed

lemma modul_even_inv_entries: "list_all (\<lambda>i. (uint (modul_even_inv_lookup_table ! i) * (2 * int i + 1)) mod 128 = 1) [0..<64]"
  by code_simp

lemma exp64_power_of_two:
  assumes "k < 64"
  shows "(2 ^ k :: u64) AND (2 ^ k - 1) = 0"
  by (simp only: word_uint_eq_iff uint_mask64 uint_exp64 [OF assms]) simp

lemma and_one_zero: "y AND 1 = 0 \<longleftrightarrow> even (uint y)" for y :: u64
  using uint_mask64 [of y 1] by (simp only: word_uint_eq_iff power_one_right) (simp add: even_iff_mod_2_eq_zero)

text \<open>One step of the recursion: an inverse modulo half the bits gives one modulo all of them.\<close>

lemma inv_powerof2_step:
  fixes r y :: u64
  assumes k: "k < 64" "k \<le> 2 * l" and r: "2 ^ l dvd uint y * uint r - 1"
  defines "t1 \<equiv> (r * r) AND (2 ^ k - 1)"
  defines "t2 \<equiv> (t1 * y) AND (2 ^ k - 1)"
  defines "r1 \<equiv> push_bit 1 r AND (2 ^ k - 1)"
  defines "r2 \<equiv> (r1 - t2) AND (2 ^ k - 1)"
  shows "uint r2 < 2 ^ k" "2 ^ k dvd uint y * uint r2 - 1"
proof -
  define e where "e = 2 * uint r - uint r * uint r * uint y"
  have W: "(2 :: int) ^ k dvd W64" unfolding W64_def using k(1) by (intro le_imp_power_dvd) simp
  have c: "x mod W64 mod 2 ^ k = x mod 2 ^ k" for x :: int by (rule mod_mod_cancel [OF W])
  have t1: "uint t1 = (uint r * uint r) mod 2 ^ k" by (simp only: t1_def uint_mask64 uint_mult64 c)
  have t2: "uint t2 = (uint r * uint r * uint y) mod 2 ^ k"
    by (simp only: t2_def uint_mask64 uint_mult64 c t1 mod_mult_left_eq)
  have r1: "uint r1 = (2 * uint r) mod 2 ^ k"
    by (simp only: r1_def uint_mask64 uint_push_bit64 c) (simp add: mult.commute)
  have r2: "uint r2 = e mod 2 ^ k"
    by (simp only: r2_def uint_mask64 uint_sub64 c r1 t2 mod_diff_left_eq mod_diff_right_eq e_def)
  then show "uint r2 < 2 ^ k" by simp
  have "(2 :: int) ^ l * 2 ^ l dvd uint y * e - 1" unfolding e_def by (rule newton_dvd [OF r])
  moreover have "(2 :: int) ^ k dvd 2 ^ l * 2 ^ l"
    using k(2) by (simp add: le_imp_power_dvd flip: power_add)
  ultimately have "2 ^ k dvd uint y * e - 1" using dvd_trans by blast
  moreover have "2 ^ k dvd uint y * (uint r2 - e)"
    using r2 by (intro dvd_mult) (simp add: mod_eq_dvd_iff [symmetric])
  ultimately have "2 ^ k dvd uint y * (uint r2 - e) + (uint y * e - 1)" by (intro dvd_add)
  then show "2 ^ k dvd uint y * uint r2 - 1" by (simp add: algebra_simps)
qed

lemma inv_powerof2_small:
  fixes y :: u64
  assumes k: "0 < k" "k < 8" and y: "odd (uint y)" "uint y < 2 ^ k"
  shows "\<exists>r. modul_inv_powerof2 (2 ^ k) y = Some (Some r) \<and> uint r < 2 ^ k \<and> 2 ^ k dvd uint y * uint r - 1"
proof -
  have k': "k < 64" using k by simp
  have lt: "y < 2 ^ k" using y(2) by (simp add: word_less_def uint_exp64 [OF k'])
  have y1: "y AND 1 \<noteq> 0" using y(1) and_one_zero by simp
  show ?thesis
  proof (cases "k < 4")
    case True
    have "(2 :: int) ^ k dvd 2 ^ 3" using True by (intro le_imp_power_dvd) simp
    then have "2 ^ k dvd uint y * uint y - 1" using odd_square_8 [OF y(1)] by (auto intro: dvd_trans)
    moreover have "modul_inv_powerof2 (2 ^ k) y = Some (Some y)"
      using True k' lt y1
      by (subst modul_inv_powerof2.simps) (simp add: exp64_power_of_two drop_exp64_0)
    ultimately show ?thesis using y(2) by simp
  next
    case False
    define i where "i = unat (drop_bit 1 (y - 1))"
    define r where "r = (modul_even_inv_lookup_table ! i) AND (2 ^ k - 1)"
    have "uint (y - 1) = uint y - 1"
      using uint_lt64 [of y] odd_pos64 [OF y(1)] unfolding uint_sub64 uint_1 by (intro mod_W64_id) linarith+
    then have "int i = (uint y - 1) div 2" by (simp add: i_def uint_drop_bit64)
    then have i: "uint y = 2 * int i + 1" using y(1) by (elim oddE) simp
    have "(2 :: int) ^ k \<le> 2 ^ 7" using k by (intro power_increasing) simp_all
    then have "i < 64" using i y(2) by simp
    then have "(uint (modul_even_inv_lookup_table ! i) * uint y) mod 128 = 1 mod 128"
      using modul_even_inv_entries by (simp add: list_all_iff i)
    then have "128 dvd uint (modul_even_inv_lookup_table ! i) * uint y - 1" by (simp only: mod_eq_dvd_iff)
    moreover have "(2 :: int) ^ k dvd 2 ^ 7" using k by (intro le_imp_power_dvd) simp
    ultimately have "2 ^ k dvd uint (modul_even_inv_lookup_table ! i) * uint y - 1" by (auto intro: dvd_trans)
    then have "(uint (modul_even_inv_lookup_table ! i) * uint y) mod 2 ^ k = 1 mod 2 ^ k" by (simp only: mod_eq_dvd_iff)
    then have "(uint y * uint r) mod 2 ^ k = 1 mod 2 ^ k"
      by (simp only: r_def uint_mask64 mod_mult_right_eq) (simp add: mult.commute)
    then have "2 ^ k dvd uint y * uint r - 1" by (simp only: mod_eq_dvd_iff)
    moreover have "uint r < 2 ^ k" unfolding r_def uint_mask64 by simp
    moreover have "modul_inv_powerof2 (2 ^ k) y = Some (Some r)"
      using False k k' lt y1
      by (subst modul_inv_powerof2.simps) (simp add: exp64_power_of_two drop_exp64_0 r_def i_def)
    ultimately show ?thesis by blast
  qed
qed

lemma inv_powerof2_odd:
  fixes y :: u64
  assumes "0 < k" "k < 64" "odd (uint y)" "uint y < 2 ^ k"
  shows "\<exists>r. modul_inv_powerof2 (2 ^ k) y = Some (Some r) \<and> uint r < 2 ^ k \<and> 2 ^ k dvd uint y * uint r - 1"
  using assms
proof (induction k arbitrary: y rule: less_induct)
  case (less k)
  show ?case
  proof (cases "k < 8")
    case True
    then show ?thesis by (rule inv_powerof2_small [OF less.prems(1) _ less.prems(3,4)])
  next
    case False
    define l where "l = k - k div 2"
    define y' where "y' = y AND (2 ^ l - 1)"
    have l: "0 < l" "l < k" "l < 64" "k \<le> 2 * l" using False less.prems by (auto simp: l_def)
    have uy': "uint y' = uint y mod 2 ^ l" by (simp only: y'_def uint_mask64)
    then have y': "odd (uint y')" "uint y' < 2 ^ l" using less.prems(3) l(1) by (simp_all add: dvd_mod_iff)
    obtain r where r: "modul_inv_powerof2 (2 ^ l) y' = Some (Some r)" "2 ^ l dvd uint y' * uint r - 1"
      using less.IH [OF l(2,1,3) y'] by blast
    have "(uint y * uint r) mod 2 ^ l = (uint y' * uint r) mod 2 ^ l" by (simp only: uy' mod_mult_left_eq)
    also have "\<dots> = 1 mod 2 ^ l" using r(2) by (simp only: mod_eq_dvd_iff)
    finally have "2 ^ l dvd uint y * uint r - 1" by (simp only: mod_eq_dvd_iff)
    note st = inv_powerof2_step [OF less.prems(2) l(4) this]
    have lt: "y < 2 ^ k" using less.prems(4) by (simp add: word_less_def uint_exp64 [OF less.prems(2)])
    have y1: "y AND 1 \<noteq> 0" using less.prems(3) and_one_zero by simp
    have "drop_bit (k div 2) (2 ^ k :: u64) = 2 ^ l" using drop_exp64 [OF less.prems(2), of "k div 2"] by (simp add: l_def)
    then show ?thesis
      using False lt y1 r(1) st less.prems(2)
      by (subst modul_inv_powerof2.simps)
        (simp add: exp64_power_of_two drop_exp64_0 ctz_exp64 y'_def Let_def del: push_bit_of_1)
  qed
qed

lemma modul_inv_powerof2_value:
  fixes y :: u64
  assumes k: "0 < k" "k < 64" and y: "uint y < 2 ^ k"
  shows "\<exists>r. modul_inv_powerof2 (2 ^ k) y = Some r
    \<and> (case r of None \<Rightarrow> \<not> coprime (uint y) (2 ^ k) | Some r \<Rightarrow> uint r < 2 ^ k \<and> (uint r * uint y) mod 2 ^ k = 1)"
proof (cases "odd (uint y)")
  case True
  obtain r where r: "modul_inv_powerof2 (2 ^ k) y = Some (Some r)" "uint r < 2 ^ k" "2 ^ k dvd uint y * uint r - 1"
    using inv_powerof2_odd [OF k True y] by blast
  have "(uint r * uint y) mod 2 ^ k = 1 mod 2 ^ k"
    using r(3) by (simp only: mod_eq_dvd_iff mult.commute [of "uint r"])
  moreover have "(1 :: int) mod 2 ^ k = 1" using k(1) by (simp add: mod_pos_pos_trivial)
  ultimately show ?thesis using r by simp
next
  case False
  then have "\<not> coprime (uint y) (2 ^ k)" using k(1) by (simp add: coprime_power_right_iff)
  moreover have "y < 2 ^ k" using y by (simp add: word_less_def uint_exp64 [OF k(2)])
  then have "modul_inv_powerof2 (2 ^ k) y = Some None"
    using False and_one_zero k by (subst modul_inv_powerof2.simps) (simp add: exp64_power_of_two)
  ultimately show ?thesis by simp
qed

section \<open>Roots\<close>

lemma modul_set_int64_value:
  assumes "0 < uint m"
  shows "uint (modul_set_int64 m s) = sint s mod uint m" "modul_set_int64 m s < m"
proof -
  define r where "r = (if sint s < 0 then - s else s) mod m"
  have s: "uint s = sint s mod W64" by (simp add: W64_def uint_sint take_bit_eq_mod)
  have b: "- (2 ^ 63) \<le> sint s" "sint s < 2 ^ 63" using sint_range_size [of s] by (simp_all add: word_size)
  have "uint (if sint s < 0 then - s else s) = \<bar>sint s\<bar>"
  proof (cases "sint s < 0")
    case True
    have "uint (- s) = (- sint s) mod W64" unfolding uint_uminus64 s by (rule mod_minus_eq)
    also have "\<dots> = - sint s" using True b unfolding W64_def by (intro mod_pos_pos_trivial) simp_all
    finally show ?thesis using True by simp
  next
    case False
    have "sint s mod W64 = sint s" using False b unfolding W64_def by (intro mod_pos_pos_trivial) simp_all
    then show ?thesis using False s by simp
  qed
  then have r: "uint r = \<bar>sint s\<bar> mod uint m" by (simp add: r_def uint_mod)
  then have lt: "uint r < uint m" using assms by simp
  show v: "uint (modul_set_int64 m s) = sint s mod uint m"
  proof (cases "sint s < 0")
    case False
    then show ?thesis using r by (simp add: modul_set_int64_def Let_def r_def)
  next
    case True
    then have e: "modul_set_int64 m s = modul_neg m r" by (simp add: modul_set_int64_def Let_def r_def)
    have rr: "uint r = (- sint s) mod uint m" using r True by simp
    show ?thesis
    proof (cases "r = 0")
      case True
      then have "uint m dvd sint s" using rr by (simp add: dvd_eq_mod_eq_0 [symmetric])
      then show ?thesis using True e by (simp add: modul_neg_def)
    next
      case False
      then have "0 < uint r" using uint_pos64 [of r] by simp
      then have "uint (m - r) = uint m - uint r"
        using lt uint_lt64 [of m] unfolding uint_sub64 by (intro mod_W64_id) linarith+
      moreover have "sint s mod uint m = uint m - uint r"
        using \<open>0 < uint r\<close> rr by (simp add: zmod_zminus1_eq_if split: if_splits)
      ultimately show ?thesis using False e by (simp add: modul_neg_def)
    qed
  qed
  then show "modul_set_int64 m s < m" using assms by (simp add: word_less_def)
qed

lemma modul_mul_value:
  assumes "a < m" "b < m"
  shows "\<exists>r. modul_mul m a b = Some r \<and> uint r = (uint a * uint b) mod uint m"
proof -
  obtain l h where lh: "u64arith_mul_1_1_2 a b = (l, h)" by (meson surj_pair)
  have dw: "dw l h = uint a * uint b" by (rule mul_1_1_2_value [OF lh])
  have m: "0 < uint m" "uint m < W64" using assms(1) uint_nonnegative [of a] unfolding word_less_def by (linarith, simp)
  have "uint a * uint b < uint m * W64"
    using assms m uint_lt64 [of b] by (intro mult_strict_mono) (simp_all add: word_less_def)
  then have h: "h < m" using dw_high_lt [of l h m] dw by simp
  have "uint l + push_bit 64 (uint h) = uint a * uint b" using dw by (simp add: dw_def push_bit_eq_mult W64_def)
  moreover have "(uint a * uint b) mod uint m < W64" using m by (meson less_trans pos_mod_bound)
  ultimately show ?thesis
    using lh h m by (simp add: modul_mul_def ularith_mul_eq ularith_div_2ul_ul_ul_r_def word_of_int_64)
qed

lemma relation_compute_r_value:
  assumes p: "odd (uint p) \<and> 1 < uint p \<or> (\<exists>k. 0 < k \<and> k < 64 \<and> p = 2 ^ k)"
  shows "\<exists>r. relation_compute_r a b p = Some r
    \<and> (if coprime (uint b) (uint p) then r < p \<and> (uint r * uint b) mod uint p = sint a mod uint p else r = p)"
proof -
  define br where "br = modul_set_uint64 p b"
  have p1: "1 < uint p" using p by (auto simp: uint_exp64 one_less_power)
  have br: "uint br = uint b mod uint p" "br < p"
    using p1 by (simp_all add: br_def modul_set_uint64_def uint_mod word_less_def)
  have cop: "coprime (uint br) (uint p) \<longleftrightarrow> coprime (uint b) (uint p)"
    using p1 by (simp add: br(1) coprime_mod_left_iff)
  define f where "f = (if p AND 1 \<noteq> 0 then modul_inv_odd p br else modul_inv_powerof2 p br)"
  have "\<exists>r. f = Some r
    \<and> (case r of None \<Rightarrow> \<not> coprime (uint br) (uint p) | Some r \<Rightarrow> r < p \<and> (uint r * uint br) mod uint p = 1)"
    using p
  proof
    assume o: "odd (uint p) \<and> 1 < uint p"
    then have "f = modul_inv_odd p br" using and_one_zero [of p] by (simp add: f_def)
    then show ?thesis using modul_inv_odd_value [of p br] o br(2) by (auto split: option.splits)
  next
    assume "\<exists>k. 0 < k \<and> k < 64 \<and> p = 2 ^ k"
    then obtain k where k: "0 < k" "k < 64" "p = 2 ^ k" by blast
    have u: "uint p = 2 ^ k" using k by (simp add: uint_exp64)
    then have "f = modul_inv_powerof2 (2 ^ k) br" using and_one_zero [of p] k by (simp add: f_def)
    then show ?thesis using modul_inv_powerof2_value [OF k(1,2), of br] br(2) u
      by (auto simp: word_less_def split: option.splits)
  qed
  then obtain inv where inv: "f = Some inv"
    "case inv of None \<Rightarrow> \<not> coprime (uint br) (uint p) | Some r \<Rightarrow> r < p \<and> (uint r * uint br) mod uint p = 1"
    by blast
  have run: "relation_compute_r a b p = (case inv of None \<Rightarrow> Some p | Some t \<Rightarrow> modul_mul p t (modul_set_int64 p a))"
    using inv(1) unfolding relation_compute_r_def Let_def br_def [symmetric] f_def [symmetric] by simp
  show ?thesis
  proof (cases inv)
    case None
    then show ?thesis using run inv(2) cop by simp
  next
    case (Some t)
    then have t: "t < p" "(uint t * uint br) mod uint p = 1" using inv(2) by simp_all
    have "coprime (uint br) (uint p)"
      using t(2) p1 by (metis coprime_1_left coprime_mod_left_iff coprime_mult_left_iff not_one_less_zero)
    note pa = modul_set_int64_value [of p a]
    obtain r where r: "modul_mul p t (modul_set_int64 p a) = Some r"
      "uint r = (uint t * (sint a mod uint p)) mod uint p"
      using modul_mul_value [OF t(1), of "modul_set_int64 p a"] pa p1 by auto
    have "(uint r * uint b) mod uint p = ((uint t * uint br) mod uint p * sint a) mod uint p"
      unfolding r(2) br(1) by (simp add: mod_simps ac_simps)
    then have "(uint r * uint b) mod uint p = sint a mod uint p" using t(2) by simp
    moreover have "r < p" using r(2) p1 by (simp add: word_less_def)
    ultimately show ?thesis using run Some r(1) cop \<open>coprime (uint br) (uint p)\<close> by simp
  qed
qed

section \<open>Digits\<close>

text \<open>The number that a string of digits stands for, in a base of at most sixteen.\<close>

definition digit_value :: "char \<Rightarrow> nat" where
  "digit_value c =
     (if of_char c < (58 :: nat) then of_char c - 48
      else if of_char c < (71 :: nat) then of_char c - 55 else of_char c - 87)"

definition digits_value :: "nat \<Rightarrow> string \<Rightarrow> nat" where
  "digits_value b cs = foldl (\<lambda>n c. n * b + digit_value c) 0 cs"

lemma digits_value_snoc: "digits_value b (cs @ [c]) = digits_value b cs * b + digit_value c"
  by (simp add: digits_value_def)

lemma hex_digit_char: "i < 16 \<Longrightarrow> digit_value (hex_digits ! i) = i \<and> hex_digits ! i \<in> set hex_digits"
proof -
  have "list_all (\<lambda>i. digit_value (hex_digits ! i) = i) [0..<16]" by code_simp
  moreover have "length hex_digits = 16" by (simp add: hex_digits_def)
  ultimately show "i < 16 \<Longrightarrow> digit_value (hex_digits ! i) = i \<and> hex_digits ! i \<in> set hex_digits"
    by (simp add: list_all_iff)
qed

lemma decimal_digit_char:
  assumes "i < 10"
  shows "digit_value (char_of (48 + i)) = i" "char_of (48 + i) \<in> set (take 10 hex_digits)"
proof -
  have "list_all (\<lambda>i. digit_value (char_of (48 + i :: nat)) = i \<and> char_of (48 + i) \<in> set (take 10 hex_digits)) [0..<10]"
    by code_simp
  then show "digit_value (char_of (48 + i)) = i" "char_of (48 + i) \<in> set (take 10 hex_digits)"
    using assms by (simp_all add: list_all_iff)
qed

declare u64toa16_loop.simps [simp del] u64toa10_loop.simps [simp del]

lemma unat_low_nibble: "unat (m AND 15 :: u64) = unat m mod 16"
proof -
  have "int (unat (m AND 15)) = int (unat m mod 16)"
    using uint_mask64 [of m 4] by (simp add: zmod_int)
  then show ?thesis by (simp only: of_nat_eq_iff)
qed

lemma unat_drop_nibble: "unat (drop_bit 4 m :: u64) = unat m div 16"
  by (simp add: drop_bit_eq_div unat_div)

lemma u64toa16_loop_value:
  "digits_value 16 (rev (u64toa16_loop m)) = unat m \<and> set (u64toa16_loop m) \<subseteq> set hex_digits
   \<and> u64toa16_loop m \<noteq> [] \<and> (m \<noteq> 0 \<longrightarrow> last (u64toa16_loop m) \<noteq> CHR ''0'')"
proof (induction m rule: u64toa16_loop.induct)
  case (1 m)
  define d where "d = hex_digits ! unat (m AND 15)"
  have d: "digit_value d = unat m mod 16" "d \<in> set hex_digits"
    using hex_digit_char [of "unat m mod 16"] by (simp_all add: d_def unat_low_nibble)
  show ?case
  proof (cases "drop_bit 4 m = 0")
    case True
    then have m: "unat m div 16 = 0" using unat_drop_nibble [of m] by simp
    then have "d \<noteq> CHR ''0''" if "m \<noteq> 0"
      using that d(1) by (auto simp: digit_value_def div_eq_0_iff unat_eq_zero)
    moreover have "u64toa16_loop m = [d]"
      using True by (subst u64toa16_loop.simps) (simp add: Let_def d_def)
    ultimately show ?thesis using d m by (simp add: digits_value_def div_eq_0_iff)
  next
    case False
    have e: "u64toa16_loop m = d # u64toa16_loop (drop_bit 4 m)"
      using False by (subst u64toa16_loop.simps) (simp add: Let_def d_def)
    show ?thesis
      using "1.IH" [OF refl False] False d unfolding e
      by (simp add: digits_value_snoc unat_drop_nibble)
  qed
qed

lemma u64toa10_loop_value:
  "digits_value 10 (rev (u64toa10_loop m)) = unat m \<and> set (u64toa10_loop m) \<subseteq> set (take 10 hex_digits)
   \<and> u64toa10_loop m \<noteq> [] \<and> (m \<noteq> 0 \<longrightarrow> last (u64toa10_loop m) \<noteq> CHR ''0'')"
proof (induction m rule: u64toa10_loop.induct)
  case (1 m)
  define d where "d = (char_of (48 + unat (m - m div 10 * 10)) :: char)"
  have r: "unat (m - m div 10 * 10) = unat m mod 10"
  proof -
    have "m - m div 10 * 10 = m mod 10" by (simp add: minus_div_mult_eq_mod)
    then show ?thesis by (simp add: unat_mod)
  qed
  have d: "digit_value d = unat m mod 10" "d \<in> set (take 10 hex_digits)"
    using decimal_digit_char [of "unat m mod 10"] by (simp_all add: d_def r)
  show ?case
  proof (cases "m div 10 = 0")
    case True
    then have m: "unat m div 10 = 0" using unat_div [of m 10] by simp
    then have "d \<noteq> CHR ''0''" if "m \<noteq> 0"
      using that d(1) by (auto simp: digit_value_def div_eq_0_iff unat_eq_zero)
    moreover have "u64toa10_loop m = [d]"
      using True by (subst u64toa10_loop.simps) (simp add: Let_def d_def)
    ultimately show ?thesis using d m by (simp add: digits_value_def div_eq_0_iff)
  next
    case False
    have e: "u64toa10_loop m = d # u64toa10_loop (m div 10)"
      using False by (subst u64toa10_loop.simps) (simp add: Let_def d_def)
    show ?thesis
      using "1.IH" [OF refl False] False d unfolding e
      by (simp add: digits_value_snoc unat_div)
  qed
qed

lemma sint_uint_cases: "uint m = (if sint m < 0 then sint m + W64 else sint m)" for m :: u64
proof -
  have b: "- (2 ^ 63) \<le> sint m" "sint m < 2 ^ 63" using sint_range_size [of m] by (simp_all add: word_size)
  have "uint m = sint m mod W64" by (simp add: W64_def uint_sint take_bit_eq_mod)
  also have "\<dots> = (if sint m < 0 then sint m + W64 else sint m) mod W64" by simp
  also have "\<dots> = (if sint m < 0 then sint m + W64 else sint m)"
    using b unfolding W64_def by (intro mod_pos_pos_trivial) auto
  finally show ?thesis .
qed

lemma unat_magnitude: "int (unat (if sint m < 0 then - m else m)) = \<bar>sint m\<bar>" for m :: u64
proof (cases "sint m < 0")
  case True
  then have "uint (- m) = (- sint m - W64) mod W64" unfolding uint_uminus64 by (simp add: sint_uint_cases)
  also have "\<dots> = (- sint m) mod W64" by (rule minus_mod_self2)
  also have "\<dots> = - sint m"
    using True sint_range_size [of m] unfolding W64_def by (intro mod_pos_pos_trivial) (simp_all add: word_size)
  finally show ?thesis using True by simp
next
  case False
  then show ?thesis by (simp add: sint_uint_cases)
qed

section \<open>Properties\<close>

text \<open>
  C38: The root that a relation has modulo a prime: for an odd \<open>p\<close> above one and for a power of two the
  computation ends without a failed assertion; it gives the reduced \<open>a / b\<close> modulo \<open>p\<close>, and \<open>p\<close> itself
  when \<open>b\<close> is not invertible.
\<close>

theorem relation_compute_r_correct:
  assumes "odd (uint p) \<and> 1 < uint p \<or> (\<exists>k. 0 < k \<and> k < 64 \<and> p = 2 ^ k)"
  shows "\<exists>r. relation_compute_r a b p = Some r
    \<and> (if coprime (uint b) (uint p) then r < p \<and> (uint r * uint b) mod uint p = sint a mod uint p else r = p)"
  by (rule relation_compute_r_value [OF assms])

theorem relation_compute_r_correct_witness:
  "(\<exists>r. relation_compute_r (- 100) 7 11 = Some r
     \<and> (if coprime (uint (7 :: u64)) (uint (11 :: u64))
        then r < 11 \<and> (uint r * uint (7 :: u64)) mod uint (11 :: u64) = sint (- 100 :: u64) mod uint (11 :: u64)
        else r = 11))
   \<and> (\<exists>r. relation_compute_r 5 3 (2 ^ 9) = Some r
     \<and> (if coprime (uint (3 :: u64)) (uint (2 ^ 9 :: u64))
        then r < 2 ^ 9 \<and> (uint r * uint (3 :: u64)) mod uint (2 ^ 9 :: u64) = sint (5 :: u64) mod uint (2 ^ 9 :: u64)
        else r = 2 ^ 9))"
  using relation_compute_r_correct [of 11 "- 100" 7] relation_compute_r_correct [of "2 ^ 9" 5 3]
    exI [of "\<lambda>k. 0 < k \<and> k < 64 \<and> (2 ^ 9 :: u64) = 2 ^ k" 9] by simp

text \<open>
  The conversions to strings: the digits of a word stand for its value, in lower case and
  without leading zeroes; a sign goes before the digits of a negative integer, also of the least
  one.
\<close>

theorem integer_strings_correct:
  "digits_value 16 (u64toa16 m) = unat m \<and> set (u64toa16 m) \<subseteq> set hex_digits
   \<and> digits_value 10 (u64toa10 m) = unat m \<and> set (u64toa10 m) \<subseteq> set (take 10 hex_digits)
   \<and> (m = 0 \<or> hd (u64toa16 m) \<noteq> CHR ''0'' \<and> hd (u64toa10 m) \<noteq> CHR ''0'')
   \<and> (\<exists>ds. d64toa10 m = (if sint m < 0 then ''-'' else []) @ ds \<and> int (digits_value 10 ds) = \<bar>sint m\<bar>)
   \<and> (\<exists>ds. d64toa16 m = (if sint m < 0 then ''-'' else []) @ ds \<and> int (digits_value 16 ds) = \<bar>sint m\<bar>)"
proof -
  note h = u64toa16_loop_value and t = u64toa10_loop_value
  have "int (digits_value 10 (u64toa10 (if sint m < 0 then - m else m))) = \<bar>sint m\<bar>"
    "int (digits_value 16 (u64toa16 (if sint m < 0 then - m else m))) = \<bar>sint m\<bar>"
    using h t unat_magnitude [of m] by (simp_all only: u64toa16_def u64toa10_def)
  moreover have "d64toa10 m = (if sint m < 0 then ''-'' else []) @ u64toa10 (if sint m < 0 then - m else m)"
    "d64toa16 m = (if sint m < 0 then ''-'' else []) @ u64toa16 (if sint m < 0 then - m else m)"
    by (simp_all add: d64toa10_def d64toa16_def)
  ultimately show ?thesis
    using h [of m] t [of m] by (auto simp: u64toa16_def u64toa10_def hd_rev)
qed

end
