(* ===== verification/Relations.thy ===== *)
theory Relations
  imports RelationTools MpzPolyDiv "HOL-Library.Product_Lexorder"
begin

text \<open>
  Relations: \<^verbatim>\<open>src/utils/relation.hpp\<close> and \<^verbatim>\<open>src/utils/relation.cpp\<close>, with \<^verbatim>\<open>mpz_get_int64\<close> of
  \<^verbatim>\<open>src/utils/gmp_aux.c\<close> and \<^verbatim>\<open>expect\<close> of \<^verbatim>\<open>src/utils/utils_cxx.hpp\<close>. A relation is a pair \<open>(a, b)\<close> with the
  primes that divide its norms on two sides; the filtering programs read and write it as a line of
  text. The exponent of a prime is an \<^verbatim>\<open>int\<close> in the code and an integer without bound here. The
  input stream of the C++ library is a record of the characters that are left and the two
  error bits that matter here. Reading and printing of GMP integers and the modular inverse of GMP
  are parameters.
\<close>

section \<open>Data\<close>

record pr =
  pr_p :: int
  pr_r :: int
  pr_e :: int

record relation =
  rel_a :: u64
  rel_b :: u64
  az :: int
  bz :: int
  active_sides :: "int list"
  rational_side :: int
  sides :: "pr list list"

definition mpz_get_uint64 :: "int \<Rightarrow> u64" where
  "mpz_get_uint64 z = word_of_int \<bar>z\<bar>"

definition mpz_get_int64 :: "int \<Rightarrow> u64" where
  "mpz_get_int64 z =
     (let l = mpz_get_uint64 z
      in if z \<ge> 0 then l AND 9223372036854775807
         else - (((l - 1) AND 9223372036854775807) + 1))"

definition relation_default :: relation where
  "relation_default =
     \<lparr>rel_a = 0, rel_b = 0, az = 0, bz = 0, active_sides = [0, 1], rational_side = - 1, sides = [[], []]\<rparr>"

definition relation_new :: "u64 \<Rightarrow> u64 \<Rightarrow> int \<Rightarrow> relation" where
  "relation_new a b rs =
     relation_default\<lparr>rel_a := a, rel_b := b, az := sint a, bz := uint b, rational_side := rs\<rparr>"

definition relation_new_mpz :: "int \<Rightarrow> int \<Rightarrow> int \<Rightarrow> relation" where
  "relation_new_mpz a b rs =
     relation_default\<lparr>rel_a := mpz_get_int64 a, rel_b := mpz_get_uint64 b, az := a, bz := b, rational_side := rs\<rparr>"

definition relation_bool :: "relation \<Rightarrow> bool" where
  "relation_bool rel \<longleftrightarrow> rel_a rel \<noteq> 0 \<or> rel_b rel \<noteq> 0"

text \<open>The order of pairs \<open>(a, b)\<close> is the one of the tuples of \<open>a\<close>, \<open>b\<close> and the two sides.\<close>

definition ab_key :: "relation \<Rightarrow> int \<times> int \<times> int \<times> int" where
  "ab_key rel = (az rel, bz rel, active_sides rel ! 0, active_sides rel ! 1)"

definition ab_less :: "relation \<Rightarrow> relation \<Rightarrow> bool" where
  "ab_less r s \<longleftrightarrow> ab_key r < ab_key s"

text \<open>The comparison of primes ignores the exponent.\<close>

definition pr_key :: "pr \<Rightarrow> int \<times> int" where
  "pr_key x = (pr_p x, pr_r x)"

section \<open>Primes\<close>

definition add_pr :: "nat \<Rightarrow> int \<Rightarrow> int \<Rightarrow> relation \<Rightarrow> relation" where
  "add_pr side p r rel =
     rel\<lparr>sides := (sides rel)[side := sides rel ! side @ [\<lparr>pr_p = p, pr_r = r, pr_e = 1\<rparr>]]\<rparr>"

text \<open>The root \<open>a / b\<close> with GMP: \<^verbatim>\<open>mpz_invert\<close>, and \<open>p\<close> when there is no inverse.\<close>

definition mpz_root :: "(int \<Rightarrow> int \<Rightarrow> int option) \<Rightarrow> int \<Rightarrow> int \<Rightarrow> int \<Rightarrow> int" where
  "mpz_root invert a b p = (case invert b p of Some r \<Rightarrow> (r * a) mod p | None \<Rightarrow> p)"

definition add_mpz :: "(int \<Rightarrow> int \<Rightarrow> int option) \<Rightarrow> nat \<Rightarrow> int \<Rightarrow> relation \<Rightarrow> relation" where
  "add_mpz invert side p rel =
     (if active_sides rel ! side = rational_side rel then add_pr side p 0 rel
      else rel\<lparr>sides := (sides rel)[side := sides rel ! side @
             [\<lparr>pr_p = p, pr_r = mpz_root invert (az rel) (bz rel) p, pr_e = 0\<rparr>]]\<rparr>)"

text \<open>
  The variant for machine words. \<open>w\<close> is the number of bits of \<^verbatim>\<open>p_r_values_t\<close>, 32 or 64, to which the
  prime is cut before the root is computed; \<open>None\<close> is a failed assertion there.
\<close>

definition add_ul :: "nat \<Rightarrow> nat \<Rightarrow> u64 \<Rightarrow> relation \<Rightarrow> relation option" where
  "add_ul w side p rel =
     (if active_sides rel ! side = rational_side rel then Some (add_pr side (uint p) 0 rel)
      else map_option (\<lambda>r. add_pr side (uint p) (uint r) rel)
             (relation_compute_r (rel_a rel) (rel_b rel) (take_bit w p)))"

definition fixup_pr :: "(int \<Rightarrow> int \<Rightarrow> int option) \<Rightarrow> relation \<Rightarrow> pr \<Rightarrow> pr" where
  "fixup_pr invert rel x = (if pr_r x = 0 then x\<lparr>pr_r := mpz_root invert (az rel) (bz rel) (pr_p x)\<rparr> else x)"

definition fixup_r :: "(int \<Rightarrow> int \<Rightarrow> int option) \<Rightarrow> bool \<Rightarrow> relation \<Rightarrow> relation" where
  "fixup_r invert also_rational rel =
     rel\<lparr>sides := map (\<lambda>i.
           if \<not> also_rational \<and> active_sides rel ! i = rational_side rel then sides rel ! i
           else map (fixup_pr invert rel) (sides rel ! i)) [0..<length (sides rel)]\<rparr>"

text \<open>The loop that adds up the exponents of equal neighbours.\<close>

fun merge_runs :: "pr list \<Rightarrow> pr list" where
  "merge_runs [] = []"
| "merge_runs [x] = [x]"
| "merge_runs (x # y # zs) =
     (if pr_key y = pr_key x then merge_runs (x\<lparr>pr_e := pr_e x + pr_e y\<rparr> # zs)
      else x # merge_runs (y # zs))"

definition compress :: "relation \<Rightarrow> relation" where
  "compress rel = rel\<lparr>sides := map (\<lambda>v. merge_runs (sort_key pr_key v)) (sides rel)\<rparr>"

section \<open>Streams\<close>

record istream =
  buf :: string
  eofbit :: bool
  failbit :: bool

definition open_stream :: "string \<Rightarrow> istream" where
  "open_stream s = \<lparr>buf = s, eofbit = False, failbit = False\<rparr>"

definition is_good :: "istream \<Rightarrow> bool" where
  "is_good is \<longleftrightarrow> \<not> eofbit is \<and> \<not> failbit is"

text \<open>Every input function starts by setting the fail bit of a stream that is not good.\<close>

definition is_peek :: "istream \<Rightarrow> char option \<times> istream" where
  "is_peek is =
     (if \<not> is_good is then (None, is\<lparr>failbit := True\<rparr>)
      else case buf is of [] \<Rightarrow> (None, is\<lparr>eofbit := True\<rparr>) | c # _ \<Rightarrow> (Some c, is))"

definition is_get :: "istream \<Rightarrow> istream" where
  "is_get is =
     (if \<not> is_good is then is\<lparr>failbit := True\<rparr>
      else case buf is of [] \<Rightarrow> is\<lparr>eofbit := True, failbit := True\<rparr> | c # cs \<Rightarrow> is\<lparr>buf := cs\<rparr>)"

text \<open>
  \<^verbatim>\<open>expect\<close> with a string of one character: \<^verbatim>\<open>get(t, 2)\<close> reads one character other than a newline.
  Implementations of the library differ in whether it then looks for the end of the stream;
  \<open>eager\<close> says that it does.
\<close>

definition expect :: "bool \<Rightarrow> char \<Rightarrow> istream \<Rightarrow> istream" where
  "expect eager s is =
     (if \<not> is_good is then is\<lparr>failbit := True\<rparr>
      else case buf is of
        [] \<Rightarrow> is\<lparr>eofbit := True, failbit := True\<rparr>
      | c # cs \<Rightarrow>
          if c = CHR 0x0A then is\<lparr>failbit := True\<rparr>
          else is\<lparr>buf := cs, eofbit := (eager \<and> cs = []), failbit := c \<noteq> s\<rparr>)"

text \<open>In the locale that \<^verbatim>\<open>parse\<close> sets up everything but digits, letters up to f and the minus is space.\<close>

definition is_decimal :: "char \<Rightarrow> bool" where
  "is_decimal c \<longleftrightarrow> c \<in> set ''0123456789''"

definition is_hex :: "char \<Rightarrow> bool" where
  "is_hex c \<longleftrightarrow> c \<in> set ''0123456789abcdefABCDEF''"

definition relation_space :: "char \<Rightarrow> bool" where
  "relation_space c \<longleftrightarrow> \<not> is_hex c \<and> c \<noteq> CHR ''-''"

text \<open>
  The number that a formatted input finds at the start of a string without leading space: sign,
  digits, and what is left. In base sixteen a prefix 0x is skipped.
\<close>

definition scan_sign :: "string \<Rightarrow> bool \<times> string" where
  "scan_sign cs =
     (case cs of [] \<Rightarrow> (False, []) | c # cs' \<Rightarrow> if c = CHR ''-'' then (True, cs') else (False, cs))"

definition scan_prefix :: "string \<Rightarrow> string" where
  "scan_prefix cs =
     (case cs of c # x # cs' \<Rightarrow> if c = CHR ''0'' \<and> (x = CHR ''x'' \<or> x = CHR ''X'') then cs' else cs
      | _ \<Rightarrow> cs)"

definition digits_int :: "int \<Rightarrow> string \<Rightarrow> int" where
  "digits_int b cs = foldl (\<lambda>n c. n * b + int (digit_value c)) 0 cs"

definition read_ulong :: "istream \<Rightarrow> u64 \<times> istream" where
  "read_ulong is =
     (let cs = dropWhile relation_space (buf is)
      in if \<not> is_good is then (0, is\<lparr>failbit := True\<rparr>)
         else if cs = [] then (0, is\<lparr>buf := [], eofbit := True, failbit := True\<rparr>)
         else
           let (neg, cs) = scan_sign cs;
               cs = scan_prefix cs;
               ds = takeWhile is_hex cs;
               rest = dropWhile is_hex cs;
               v = digits_int 16 ds;
               bad = (ds = [] \<or> v \<ge> 18446744073709551616)
           in (word_of_int (if neg then - v else v),
               is\<lparr>buf := rest, eofbit := rest = [], failbit := bad\<rparr>))"

text \<open>
  The signed variant, in base ten, for the type \<^verbatim>\<open>int\<close>; the variable keeps its value only if the stream
  is not good.
\<close>

definition read_int :: "istream \<Rightarrow> int \<Rightarrow> int \<times> istream" where
  "read_int is old =
     (let cs = dropWhile relation_space (buf is)
      in if \<not> is_good is then (old, is\<lparr>failbit := True\<rparr>)
         else if cs = [] then (old, is\<lparr>buf := [], eofbit := True, failbit := True\<rparr>)
         else
           let (neg, cs) = scan_sign cs;
               ds = takeWhile is_decimal cs;
               rest = dropWhile is_decimal cs;
               v = digits_int 10 ds;
               v = (if neg then - v else v);
               bad = (ds = [] \<or> v < - 2147483648 \<or> 2147483648 \<le> v)
           in (max (- 2147483648) (min 2147483647 v),
               is\<lparr>buf := rest, eofbit := rest = [], failbit := bad\<rparr>))"

section \<open>Reading\<close>

type_synonym mpz_reader = "istream \<Rightarrow> int option \<times> istream"

definition read_relation_ab :: "mpz_reader \<Rightarrow> bool \<Rightarrow> istream \<Rightarrow> relation \<Rightarrow> istream \<times> relation" where
  "read_relation_ab read eager is rel =
     (let (x, is) = read is;
          rel = (case x of Some a \<Rightarrow> rel\<lparr>az := a\<rparr> | None \<Rightarrow> rel);
          is = expect eager CHR '','' is;
          (y, is) = read is;
          rel = (case y of Some b \<Rightarrow> rel\<lparr>bz := b\<rparr> | None \<Rightarrow> rel);
          rel = (if failbit is then rel
                 else rel\<lparr>rel_a := mpz_get_int64 (az rel), rel_b := mpz_get_uint64 (bz rel)\<rparr>)
      in (is, rel))"

lemma scan_sign_length: "length (snd (scan_sign cs)) \<le> length cs"
  by (cases cs) (simp_all add: scan_sign_def)

lemma scan_prefix_length: "length (scan_prefix cs) \<le> length cs"
  by (auto simp: scan_prefix_def split: list.splits)

lemma dropWhile_less: "takeWhile P cs \<noteq> [] \<Longrightarrow> length (dropWhile P cs) < length cs"
  by (cases cs) (auto simp: length_dropWhile_le le_imp_less_Suc split: if_splits)

lemma read_ulong_consumes:
  assumes "\<not> failbit (snd (read_ulong is))"
  shows "length (buf (snd (read_ulong is))) < length (buf is)"
proof -
  define cs where "cs = dropWhile relation_space (buf is)"
  define ds where "ds = scan_prefix (snd (scan_sign cs))"
  have d: "buf (snd (read_ulong is)) = dropWhile is_hex ds" "takeWhile is_hex ds \<noteq> []"
    using assms by (auto simp: read_ulong_def Let_def cs_def ds_def split: prod.splits if_splits)
  have "length ds \<le> length (buf is)"
    using scan_prefix_length [of "snd (scan_sign cs)"] scan_sign_length [of cs]
      length_dropWhile_le [of relation_space "buf is"] by (simp add: ds_def cs_def)
  then show ?thesis using dropWhile_less [OF d(2)] d(1) by simp
qed

lemma is_peek_buf [simp]: "buf (snd (is_peek is)) = buf is"
  by (simp add: is_peek_def split: list.splits)

lemma is_peek_Some: "fst (is_peek is) = Some c \<Longrightarrow> is_good is \<and> snd (is_peek is) = is \<and> (\<exists>cs. buf is = c # cs)"
  by (simp add: is_peek_def split: if_splits list.splits)

lemma is_get_length: "length (buf (is_get is)) \<le> length (buf is)"
  by (simp add: is_get_def split: list.splits)

lemma is_get_consumes: "fst (is_peek is) = Some c \<Longrightarrow> length (buf (is_get (snd (is_peek is)))) < length (buf is)"
  using is_peek_Some [of "is" c] by (auto simp: is_get_def)

text \<open>The loop over the primes. \<open>None\<close> is a failed assertion, a return value of zero is \<open>False\<close>.\<close>

function parse_loop :: "nat \<Rightarrow> istream \<Rightarrow> bool \<Rightarrow> nat \<Rightarrow> relation \<Rightarrow> (bool \<times> relation) option" where
  "parse_loop w is comma_allowed side rel =
     (if eofbit is then Some (True, rel)
      else
        let (c, is') = is_peek is
        in if c = Some CHR '':''
           then (if Suc side < 2 then parse_loop w (is_get is') False (Suc side) rel else None)
           else if \<not> (comma_allowed \<and> c = Some CHR '','') \<and> c = Some CHR 0x0A then Some (True, rel)
           else
             let is' = (if comma_allowed \<and> c = Some CHR '','' then is_get is' else is');
                 (p, is') = read_ulong is'
             in if failbit is' then Some (False, rel)
                else case add_ul w side p rel of
                       None \<Rightarrow> None
                     | Some rel \<Rightarrow> parse_loop w is' True side rel)"
  by pat_completeness auto

termination
proof (relation "measure (\<lambda>(w, is, comma, side, rel). length (buf is))", goal_cases)
  case (2 w "is" comma side rel x c is')
  then have "is_peek is = (Some CHR '':'', is')" by simp
  then show ?case using is_get_consumes [of "is"] by simp
next
  case (3 w "is" comma side rel x c is' i2 y p i3 rel')
  then have r: "is_peek is = (c, is')" "read_ulong i2 = (p, i3)" by simp_all
  have i: "i3 = snd (read_ulong i2)" "is' = snd (is_peek is)" by (simp_all only: r snd_conv)
  have j: "\<not> failbit i3" "i2 = (if comma \<and> c = Some CHR '','' then is_get is' else is')"
    using 3 by blast+
  have "length (buf i3) < length (buf i2)" unfolding i(1)
    by (rule read_ulong_consumes) (use i(1) j(1) in simp)
  moreover have "length (buf i2) \<le> length (buf is)"
    using is_get_length [of is'] i(2) j(2) by auto
  ultimately show ?case by simp
qed simp

declare parse_loop.simps [simp del]

text \<open>The sides may be given after the pair \<open>(a, b)\<close>.\<close>

definition read_sides :: "bool \<Rightarrow> istream \<Rightarrow> relation \<Rightarrow> istream \<times> relation" where
  "read_sides eager is rel =
     (let (c, is) = is_peek is
      in if c = Some CHR ''@''
         then let is = expect eager CHR ''@'' is;
                  (s0, is) = read_int is (active_sides rel ! 0);
                  is = expect eager CHR '','' is;
                  (s1, is) = read_int is (active_sides rel ! 1)
              in (is, rel\<lparr>active_sides := [s0, s1]\<rparr>)
         else (is, rel\<lparr>active_sides := [0, 1]\<rparr>))"

definition parse ::
    "(int \<Rightarrow> int \<Rightarrow> int option) \<Rightarrow> mpz_reader \<Rightarrow> bool \<Rightarrow> nat \<Rightarrow> string \<Rightarrow> relation \<Rightarrow> (bool \<times> relation) option" where
  "parse invert read eager w line rel =
     (if take 1 line = ''#'' then Some (False, rel)
      else
        let (is, rel) = read_relation_ab read eager (open_stream line) rel
        in if failbit is then Some (False, rel)
           else
             let (is, rel) = read_sides eager is rel;
                 is = expect eager CHR '':'' is;
                 rel = rel\<lparr>sides := [[], []]\<rparr>
             in case parse_loop w is False 0 rel of
                  None \<Rightarrow> None
                | Some (ok, rel) \<Rightarrow>
                    if ok then Some (True, fixup_r invert False (compress rel)) else Some (False, rel))"

text \<open>
  Extraction from a stream: a line is read and parsed; when that fails the object is reset. \<^verbatim>\<open>getline\<close>
  takes the newline off.
\<close>

definition extract_relation ::
    "(int \<Rightarrow> int \<Rightarrow> int option) \<Rightarrow> mpz_reader \<Rightarrow> bool \<Rightarrow> nat \<Rightarrow> string \<Rightarrow> relation \<Rightarrow> (bool \<times> relation \<times> string) option" where
  "extract_relation invert read eager w input rel =
     (let line = takeWhile (\<lambda>c. c \<noteq> CHR 0x0A) input;
          rest = drop (Suc (length line)) input
      in if input = [] then Some (False, relation_default, [])
         else case parse invert read eager w line rel of
                None \<Rightarrow> None
              | Some (ok, rel) \<Rightarrow> Some (ok, if ok then rel else relation_default, rest))"

section \<open>Printing\<close>

text \<open>Printing of small integers by the library.\<close>

function digits_string :: "int \<Rightarrow> int \<Rightarrow> string" where
  "digits_string b n =
     (if b < 2 \<or> n < b then [hex_digits ! nat n]
      else digits_string b (n div b) @ [hex_digits ! nat (n mod b)])"
  by pat_completeness auto
termination
  by (relation "measure (\<lambda>(b, n). nat n)") (auto intro: int_div_less_self simp: zless_nat_conj)

declare digits_string.simps [simp del]

definition signed_string :: "int \<Rightarrow> int \<Rightarrow> string" where
  "signed_string b z = (if z < 0 then CHR ''-'' # digits_string b (- z) else digits_string b z)"

definition join_commas :: "string list \<Rightarrow> string" where
  "join_commas xs = concat (case xs of [] \<Rightarrow> [] | y # ys \<Rightarrow> y # map ((#) CHR '','') ys)"

text \<open>\<open>dec\<close> and \<open>hex\<close> print GMP integers in the two bases.\<close>

definition print_relation_ab :: "(int \<Rightarrow> string) \<Rightarrow> relation \<Rightarrow> string" where
  "print_relation_ab dec rel =
     dec (az rel) @ '','' @ dec (bz rel) @
     (if active_sides rel ! 0 \<noteq> 0 \<or> active_sides rel ! 1 \<noteq> 1
      then ''@'' @ signed_string 10 (active_sides rel ! 0) @ '','' @ signed_string 10 (active_sides rel ! 1)
      else [])"

text \<open>Every prime is printed as often as its exponent says. A negative exponent would make the loop overflow.\<close>

definition print_side :: "(int \<Rightarrow> string) \<Rightarrow> pr list \<Rightarrow> string" where
  "print_side hex s = '':'' @ join_commas (concat (map (\<lambda>v. replicate (nat (pr_e v)) (hex (pr_p v))) s))"

definition print_relation :: "(int \<Rightarrow> string) \<Rightarrow> (int \<Rightarrow> string) \<Rightarrow> relation \<Rightarrow> string" where
  "print_relation dec hex rel = print_relation_ab dec rel @ concat (map (print_side hex) (sides rel))"

definition read_decimal :: mpz_reader where
  "read_decimal is =
     (let (neg, cs) = scan_sign (buf is);
          ds = takeWhile is_decimal cs;
          rest = dropWhile is_decimal cs
      in if \<not> is_good is \<or> ds = [] then (None, is\<lparr>failbit := True\<rparr>)
         else (Some (if neg then - digits_int 10 ds else digits_int 10 ds),
               is\<lparr>buf := rest, eofbit := rest = []\<rparr>))"

section \<open>Exponents\<close>

definition compress_side :: "pr list \<Rightarrow> pr list" where
  "compress_side v = merge_runs (sort_key pr_key v)"

lemma compress_sides: "sides (compress rel) = map compress_side (sides rel)"
  by (simp add: compress_def compress_side_def [abs_def])

definition exponent :: "int \<times> int \<Rightarrow> pr list \<Rightarrow> int" where
  "exponent k v = sum_list (map pr_e (filter (\<lambda>x. pr_key x = k) v))"

lemma exponent_Cons: "exponent k (x # v) = (if pr_key x = k then pr_e x else 0) + exponent k v"
  by (simp add: exponent_def)

lemma pr_key_exponent [simp]: "pr_key (x\<lparr>pr_e := e\<rparr>) = pr_key x"
  by (simp add: pr_key_def)

lemma merge_runs_keys: "set (map pr_key (merge_runs v)) = set (map pr_key v)"
  by (induction v rule: merge_runs.induct) (auto simp: image_iff)

lemma merge_runs_exponent: "exponent k (merge_runs v) = exponent k v"
  by (induction v rule: merge_runs.induct) (auto simp: exponent_Cons)

lemma merge_runs_sorted: "sorted (map pr_key v) \<Longrightarrow> sorted_wrt (<) (map pr_key (merge_runs v))"
proof (induction v rule: merge_runs.induct)
  case (3 x y zs)
  show ?case
  proof (cases "pr_key y = pr_key x")
    case True
    then show ?thesis using 3 by simp
  next
    case False
    then have "pr_key x < pr_key y" using 3(3) by auto
    moreover have "\<forall>z\<in>set (map pr_key (y # zs)). pr_key y \<le> z" using 3(3) by simp
    ultimately have "\<forall>z\<in>set (map pr_key (merge_runs (y # zs))). pr_key x < z"
      unfolding merge_runs_keys by (auto intro: less_le_trans)
    then show ?thesis using False 3(2) [OF False] 3(3) by simp
  qed
qed simp_all

lemma exponent_sort: "exponent k (sort_key f v) = exponent k v"
proof -
  have "mset (map pr_e (filter (\<lambda>x. pr_key x = k) (sort_key f v))) = mset (map pr_e (filter (\<lambda>x. pr_key x = k) v))"
    by simp
  then show ?thesis unfolding exponent_def using sum_mset_sum_list by metis
qed

lemma compress_side_correct:
  "sorted_wrt (<) (map pr_key (compress_side v))
   \<and> set (map pr_key (compress_side v)) = set (map pr_key v)
   \<and> exponent k (compress_side v) = exponent k v"
  using merge_runs_sorted [of "sort_key pr_key v"] merge_runs_keys [of "sort_key pr_key v"]
  by (simp add: compress_side_def merge_runs_exponent exponent_sort)

text \<open>The multiset of primes, each as often as its exponent says, in which a side is printed.\<close>

definition expand :: "pr list \<Rightarrow> pr list" where
  "expand v = concat (map (\<lambda>x. replicate (nat (pr_e x)) (x\<lparr>pr_e := 1\<rparr>)) v)"

lemma merge_runs_absorb:
  "0 \<le> e \<Longrightarrow> merge_runs (x\<lparr>pr_e := e\<rparr> # replicate n (x\<lparr>pr_e := 1\<rparr>) @ v) = merge_runs (x\<lparr>pr_e := e + int n\<rparr> # v)"
  by (induction n arbitrary: e) (simp_all add: add.assoc)

lemma merge_runs_apart: "(\<And>y. y \<in> set v \<Longrightarrow> pr_key y \<noteq> pr_key x) \<Longrightarrow> merge_runs (x # v) = x # merge_runs v"
  by (cases v) auto

lemma expand_Cons:
  assumes "0 < pr_e x"
  shows "expand (x # v) = x\<lparr>pr_e := 1\<rparr> # replicate (nat (pr_e x) - 1) (x\<lparr>pr_e := 1\<rparr>) @ expand v"
  using assms by (cases "nat (pr_e x)") (simp_all add: expand_def)

lemma expand_keys: "set (map pr_key (expand v)) \<subseteq> set (map pr_key v)"
  by (auto simp: expand_def)

lemma merge_runs_expand:
  "sorted_wrt (<) (map pr_key v) \<Longrightarrow> \<forall>x\<in>set v. 0 < pr_e x \<Longrightarrow> merge_runs (expand v) = v"
proof (induction v)
  case (Cons x v)
  have a: "pr_key y \<noteq> pr_key x" if "y \<in> set (expand v)" for y
  proof -
    have "pr_key y \<in> pr_key ` set v" using that expand_keys [of v] by auto
    then show ?thesis using Cons.prems(1) by auto
  qed
  have "merge_runs (expand (x # v)) = merge_runs (x\<lparr>pr_e := 1 + int (nat (pr_e x) - 1)\<rparr> # expand v)"
    using Cons.prems(2) merge_runs_absorb [of 1 x "nat (pr_e x) - 1" "expand v"] by (simp add: expand_Cons)
  also have "1 + int (nat (pr_e x) - 1) = pr_e x" using Cons.prems(2) by (simp, linarith)
  finally show ?case using Cons merge_runs_apart [of "expand v" x] a by simp
qed (simp add: expand_def)

lemma expand_sorted:
  "sorted_wrt (<) (map pr_key v) \<Longrightarrow> sorted (map pr_key (expand v))"
proof (induction v)
  case (Cons x v)
  have "\<forall>k\<in>set (map pr_key (expand v)). pr_key x \<le> k"
    using Cons.prems expand_keys [of v] by fastforce
  then show ?case using Cons by (auto simp: expand_def sorted_append)
qed (simp add: expand_def)

lemma compress_expand:
  "sorted_wrt (<) (map pr_key v) \<Longrightarrow> \<forall>x\<in>set v. 0 < pr_e x \<Longrightarrow> compress_side (expand v) = v"
  by (simp add: compress_side_def merge_runs_expand expand_sorted sort_key_id_if_sorted)

section \<open>Numbers in text\<close>

lemma digits_int_snoc: "digits_int b (cs @ [c]) = digits_int b cs * b + int (digit_value c)"
  by (simp add: digits_int_def)

lemma is_hex_iff: "is_hex c \<longleftrightarrow> c \<in> set hex_digits \<or> c \<in> set ''ABCDEF''"
  by (auto simp: is_hex_def hex_digits_def)

lemma is_decimal_iff: "is_decimal c \<longleftrightarrow> c \<in> set (take 10 hex_digits)"
  by (simp add: is_decimal_def hex_digits_def)

lemma length_hex_digits: "length hex_digits = 16"
  by (simp add: hex_digits_def)

lemma digits_string_value:
  assumes "2 \<le> b" "b \<le> 16" "0 \<le> n"
  shows "digits_int b (digits_string b n) = n \<and> set (digits_string b n) \<subseteq> set (take (nat b) hex_digits)
    \<and> digits_string b n \<noteq> []"
  using assms
proof (induction b n rule: digits_string.induct)
  case (1 b n)
  have d: "int (digit_value (hex_digits ! nat i)) = i \<and> hex_digits ! nat i \<in> set (take (nat b) hex_digits)"
    if "0 \<le> i" "i < b" for i
    using that 1(3) hex_digit_char [of "nat i"] nth_mem [of "nat i" "take (nat b) hex_digits"] length_hex_digits
    by (simp add: min_def nat_less_iff split: if_splits)
  show ?case
  proof (cases "n < b")
    case True
    then have "digits_string b n = [hex_digits ! nat n]" by (subst digits_string.simps) simp
    then show ?thesis using d [of n] True 1(4) by (simp add: digits_int_def)
  next
    case False
    then have e: "digits_string b n = digits_string b (n div b) @ [hex_digits ! nat (n mod b)]"
      using 1(2) by (subst digits_string.simps) simp
    have "digits_int b (digits_string b (n div b)) = n div b
        \<and> set (digits_string b (n div b)) \<subseteq> set (take (nat b) hex_digits)"
      using "1.IH" False 1(2-4) by (simp add: pos_imp_zdiv_nonneg_iff)
    then show ?thesis using d [of "n mod b"] 1(2) unfolding e by (simp add: digits_int_snoc)
  qed
qed

lemma takeWhile_run: "list_all P xs \<Longrightarrow> (ys = [] \<or> \<not> P (hd ys)) \<Longrightarrow> takeWhile P (xs @ ys) = xs \<and> dropWhile P (xs @ ys) = ys"
  by (induction xs) (cases ys; auto)+

definition strm :: "string \<Rightarrow> istream" where
  "strm cs = \<lparr>buf = cs, eofbit = False, failbit = False\<rparr>"

definition strm_end :: "string \<Rightarrow> istream" where
  "strm_end cs = \<lparr>buf = cs, eofbit = (cs = []), failbit = False\<rparr>"

lemma strm_end_nonempty: "cs \<noteq> [] \<Longrightarrow> strm_end cs = strm cs"
  by (simp add: strm_def strm_end_def)

text \<open>The characters that may come after a number.\<close>

definition stops :: "string \<Rightarrow> bool" where
  "stops rest \<longleftrightarrow> rest = [] \<or> hd rest \<in> set [CHR '','', CHR '':'', CHR ''@'', CHR 0x0A]"

lemma stops_not_hex: "stops rest \<Longrightarrow> rest = [] \<or> \<not> is_hex (hd rest) \<and> \<not> is_decimal (hd rest)"
  by (auto simp: stops_def is_hex_def is_decimal_def)

lemma scan_prefix_none: "cs = [] \<or> tl cs = [] \<or> hd (tl cs) \<notin> {CHR ''x'', CHR ''X''} \<Longrightarrow> scan_prefix cs = cs"
  by (cases cs; cases "tl cs") (auto simp: scan_prefix_def)

lemma read_ulong_number:
  assumes h: "list_all is_hex h" "h \<noteq> []" and v: "digits_int 16 h < W64" and r: "stops rest"
  shows "read_ulong (strm (h @ rest)) = (word_of_int (digits_int 16 h), strm_end rest)"
proof -
  have "relation_space (hd (h @ rest)) = False" and s: "hd (h @ rest) \<noteq> CHR ''-''"
    using h by (cases h; auto simp: relation_space_def is_hex_def)+
  then have d: "dropWhile relation_space (h @ rest) = h @ rest"
    using h(2) by (cases h) simp_all
  have g: "scan_sign (h @ rest) = (False, h @ rest)" using s h(2) by (cases h) (simp_all add: scan_sign_def)
  have "hd (tl (h @ rest)) \<notin> {CHR ''x'', CHR ''X''}" if "tl (h @ rest) \<noteq> []"
  proof (cases "tl h = []")
    case True
    then show ?thesis using r that h(2) by (cases h) (auto simp: stops_def)
  next
    case False
    then have "is_hex (hd (tl h))" using h(1) by (cases h; cases "tl h") auto
    then show ?thesis using False h(2) by (auto simp: is_hex_def tl_append2 hd_append2)
  qed
  then have p: "scan_prefix (h @ rest) = h @ rest" using scan_prefix_none by blast
  have t: "takeWhile is_hex (h @ rest) = h" "dropWhile is_hex (h @ rest) = rest"
    using takeWhile_run [OF h(1), of rest] stops_not_hex [OF r] by blast+
  show ?thesis
    using h(2) v by (auto simp: read_ulong_def strm_def strm_end_def is_good_def W64_def Let_def d g p t
      simp del: takeWhile_append dropWhile_append dropWhile_eq_Nil_conv)
qed

lemma read_int_number:
  assumes z: "- 2147483648 \<le> z" "z < 2147483648" and r: "stops rest"
  shows "read_int (strm (signed_string 10 z @ rest)) old = (z, strm_end rest)"
proof -
  define h where "h = digits_string 10 \<bar>z\<bar>"
  have h: "digits_int 10 h = \<bar>z\<bar>" "list_all is_decimal h" "h \<noteq> []"
    using digits_string_value [of 10 "\<bar>z\<bar>"] by (auto simp: h_def is_decimal_iff list_all_iff)
  have hd: "is_decimal (hd h)" using h by (cases h) simp_all
  then have s: "hd h \<noteq> CHR ''-''" "\<not> relation_space (hd h)"
    by (auto simp: relation_space_def is_hex_def is_decimal_def)
  have b: "signed_string 10 z = (if z < 0 then ''-'' else []) @ h" by (simp add: signed_string_def h_def)
  have d: "dropWhile relation_space (signed_string 10 z @ rest) = signed_string 10 z @ rest"
    using s h(3) unfolding b by (cases h) (simp_all add: relation_space_def)
  have g: "scan_sign (signed_string 10 z @ rest) = (z < 0, h @ rest)"
    using s h(3) unfolding b by (cases h) (simp_all add: scan_sign_def)
  have n: "signed_string 10 z \<noteq> []" using h(3) by (simp add: b)
  have t: "takeWhile is_decimal (h @ rest) = h" "dropWhile is_decimal (h @ rest) = rest"
    using takeWhile_run [OF h(2), of rest] stops_not_hex [OF r] by blast+
  show ?thesis
    using z by (auto simp: read_int_def strm_def strm_end_def is_good_def Let_def d g t h n
      simp del: takeWhile_append dropWhile_append dropWhile_eq_Nil_conv)
qed

lemma expect_char: "expect eager c (strm (c # d # cs)) = (if c = CHR 0x0A then (strm (c # d # cs))\<lparr>failbit := True\<rparr> else strm (d # cs))"
  by (simp add: expect_def strm_def is_good_def)

section \<open>Roots\<close>

lemma sint_of_int64: "- (2 ^ 63) \<le> z \<Longrightarrow> z < 2 ^ 63 \<Longrightarrow> sint (word_of_int z :: u64) = z"
  by (simp add: signed_of_int signed_take_bit_int_eq_self)

lemma mpz_get_int64_value:
  assumes "- (2 ^ 63) \<le> z" "z < 2 ^ 63"
  shows "sint (mpz_get_int64 z) = z"
proof -
  have m: "x AND 9223372036854775807 = x" if "uint x < 2 ^ 63" for x :: u64
    using that uint_mask64 [of x 63] by (simp add: word_uint_eq_iff)
  have u: "uint (word_of_int y :: u64) = y" if "0 \<le> y" "y < 2 ^ 64" for y
    using that by (simp add: uint_word_of_int)
  have "mpz_get_int64 z = word_of_int z"
  proof (cases "0 \<le> z")
    case True
    then show ?thesis using assms m [of "word_of_int z"] u [of z] by (simp add: mpz_get_int64_def mpz_get_uint64_def)
  next
    case False
    have "(word_of_int \<bar>z\<bar> - 1 :: u64) = word_of_int (- z - 1)" using False by simp
    moreover have "(word_of_int (- z - 1) :: u64) AND 9223372036854775807 = word_of_int (- z - 1)"
      by (rule m) (use False assms u [of "- z - 1"] in simp)
    ultimately show ?thesis using False by (simp add: mpz_get_int64_def mpz_get_uint64_def Let_def)
  qed
  then show ?thesis using assms by (simp add: sint_of_int64)
qed

text \<open>The numbers modulo which the roots are computed without a failed assertion.\<close>

definition good_prime :: "nat \<Rightarrow> int \<Rightarrow> bool" where
  "good_prime w p \<longleftrightarrow> 1 < p \<and> p < 2 ^ w \<and> (odd p \<or> (\<exists>k\<in>{0..<w}. p = 2 ^ k))"

definition root_of :: "(int \<Rightarrow> int \<Rightarrow> int option) \<Rightarrow> relation \<Rightarrow> nat \<Rightarrow> int \<Rightarrow> int" where
  "root_of invert rel side p =
     (if active_sides rel ! side = rational_side rel then 0 else mpz_root invert (az rel) (bz rel) p)"

text \<open>The pair \<open>(a, b)\<close> fits the machine words that go with it.\<close>

definition ab_fits :: "relation \<Rightarrow> bool" where
  "ab_fits rel \<longleftrightarrow> - (2 ^ 63) \<le> az rel \<and> az rel < 2 ^ 63 \<and> 0 \<le> bz rel \<and> bz rel < 2 ^ 64
     \<and> rel_a rel = mpz_get_int64 (az rel) \<and> rel_b rel = mpz_get_uint64 (bz rel)"

lemma mpz_root_cases:
  assumes "invert_ok invert" "1 < p"
  shows "if coprime b p then 0 \<le> mpz_root invert a b p \<and> mpz_root invert a b p < p \<and> (mpz_root invert a b p * b) mod p = a mod p
    else mpz_root invert a b p = p"
proof (cases "invert b p")
  case None
  then show ?thesis using invert_NoneD [OF assms(1) None] assms(2) by (simp add: mpz_root_def coprime_iff_gcd_eq_1)
next
  case (Some x)
  have x: "(b * x) mod p = 1" using invert_SomeD [OF assms(1) Some] assms(2) by simp
  then have "coprime b p"
    using assms(2) by (metis coprime_1_left coprime_mod_left_iff coprime_mult_left_iff not_one_less_zero)
  moreover have "((x * a) mod p * b) mod p = ((b * x) mod p * a) mod p" by (simp add: mod_simps ac_simps)
  ultimately show ?thesis using Some x assms(2) by (simp add: mpz_root_def)
qed

lemma root_unique:
  assumes "coprime b p" "0 \<le> r" "r < p" "0 \<le> s" "s < p" "(r * b) mod p = (s * b) mod p"
  shows "r = (s :: int)"
proof -
  have "p dvd (r - s) * b" using assms(6) by (simp add: mod_eq_dvd_iff left_diff_distrib)
  then have "p dvd r - s" using assms(1) by (simp add: coprime_dvd_mult_left_iff coprime_commute)
  moreover have "\<bar>r - s\<bar> < p" using assms(2-5) by linarith
  ultimately show ?thesis using zdvd_not_zless [of "\<bar>r - s\<bar>" p] by (cases "r = s") simp_all
qed

lemma add_ul_root:
  assumes inv: "invert_ok invert" and w: "w \<le> 64" and p: "good_prime w p" and ab: "ab_fits rel"
  shows "add_ul w side (word_of_int p) rel = Some (add_pr side p (root_of invert rel side p) rel)"
proof -
  define q where "q = (word_of_int p :: u64)"
  have "p < 2 ^ 64" using p w power_increasing [of w 64 "2 :: int"] by (auto simp: good_prime_def)
  then have q: "uint q = p" using p by (simp add: q_def uint_word_of_int good_prime_def)
  have t: "take_bit w q = q"
    by (rule word_uint_eqI) (use q p in \<open>simp add: unsigned_take_bit_eq take_bit_int_eq_self good_prime_def\<close>)
  have "odd (uint q) \<and> 1 < uint q \<or> (\<exists>k. 0 < k \<and> k < 64 \<and> q = 2 ^ k)"
  proof (cases "odd p")
    case False
    then obtain k where k: "k < w" "p = 2 ^ k" using p by (auto simp: good_prime_def)
    then have "0 < k" using p by (cases k) (simp_all add: good_prime_def)
    moreover have "q = 2 ^ k" using k by (simp add: q_def)
    ultimately show ?thesis using k w by (intro disjI2 exI [of _ k]) simp
  qed (use p q in \<open>simp add: good_prime_def\<close>)
  note R = relation_compute_r_value [OF this, of "rel_a rel" "rel_b rel"]
  have a: "sint (rel_a rel) = az rel" using ab mpz_get_int64_value [of "az rel"] by (simp add: ab_fits_def)
  have b: "uint (rel_b rel) = bz rel" using ab by (simp add: ab_fits_def mpz_get_uint64_def uint_word_of_int)
  obtain r where r: "relation_compute_r (rel_a rel) (rel_b rel) q = Some r"
    "if coprime (bz rel) p then r < q \<and> (uint r * bz rel) mod p = az rel mod p else r = q"
    using R unfolding a b q by blast
  have "uint r = mpz_root invert (az rel) (bz rel) p"
    using mpz_root_cases [OF inv, of p "bz rel" "az rel"] r(2) q p
      root_unique [of "bz rel" p "uint r" "mpz_root invert (az rel) (bz rel) p"]
    by (auto simp: good_prime_def word_less_def split: if_splits)
  then show ?thesis using r(1) t q by (simp add: add_ul_def root_of_def q_def [symmetric])
qed

end
