(* ===== verification/RelationIO.thy ===== *)
theory RelationIO
  imports Relations
begin

text \<open>
  Reading and printing relations (\<^verbatim>\<open>relation::parse\<close> and the stream operators of
  \<^verbatim>\<open>src/utils/relation.cpp\<close>): the loop over the primes on the lines that printing produces, round
  trips, and the inputs where the code behaves unexpectedly.
\<close>

section \<open>The loop over the primes\<close>

definition add_primes :: "(int \<Rightarrow> int \<Rightarrow> int option) \<Rightarrow> nat \<Rightarrow> int list \<Rightarrow> relation \<Rightarrow> relation" where
  "add_primes invert side ps rel = rel\<lparr>sides := (sides rel)[side := sides rel ! side @
     map (\<lambda>p. \<lparr>pr_p = p, pr_r = root_of invert rel side p, pr_e = 1\<rparr>) ps]\<rparr>"

text \<open>The law of printing a GMP integer that is not negative in base sixteen.\<close>

definition hex_ok :: "(int \<Rightarrow> string) \<Rightarrow> bool" where
  "hex_ok hex \<longleftrightarrow> (\<forall>p. 0 \<le> p \<longrightarrow> list_all is_hex (hex p) \<and> hex p \<noteq> [] \<and> digits_int 16 (hex p) = p)"

lemma add_pr_keeps [simp]:
  "root_of invert (add_pr side p r rel) i = root_of invert rel i" "ab_fits (add_pr side p r rel) = ab_fits rel"
  by (auto simp: add_pr_def root_of_def ab_fits_def fun_eq_iff)

lemma add_primes_keeps [simp]:
  "root_of invert (add_primes invert side ps rel) i = root_of invert rel i"
  "ab_fits (add_primes invert side ps rel) = ab_fits rel"
  by (auto simp: add_primes_def root_of_def ab_fits_def fun_eq_iff)

lemma add_primes_Cons:
  assumes "side < length (sides rel)"
  shows "add_primes invert side (p # ps) rel =
    add_primes invert side ps (add_pr side p (root_of invert rel side p) rel)"
  unfolding add_primes_def add_pr_keeps using assms by (simp add: add_pr_def)

lemma add_primes_Nil [simp]: "add_primes invert side [] rel = rel"
  by (simp add: add_primes_def)

lemma strm_ends [simp]:
  "eofbit (strm cs) = False" "eofbit (strm_end cs) = (cs = [])" "failbit (strm_end cs) = False"
  "is_peek (strm (c # cs)) = (Some c, strm (c # cs))" "is_get (strm (c # cs)) = strm cs"
  by (simp_all add: strm_def strm_end_def is_peek_def is_get_def is_good_def)

lemma parse_loop_colon: "parse_loop w (strm (CHR '':'' # cs)) comma 0 rel = parse_loop w (strm cs) False 1 rel"
  by (subst parse_loop.simps) simp

lemma parse_loop_newline: "parse_loop w (strm (CHR 0x0A # cs)) comma side rel = Some (True, rel)"
  by (subst parse_loop.simps) simp

lemma parse_loop_eof: "parse_loop w (strm_end []) comma side rel = Some (True, rel)"
  by (subst parse_loop.simps) simp

lemma parse_loop_prime:
  assumes inv: "invert_ok invert" "w \<le> 64" "good_prime w p" "ab_fits rel" and h: "hex_ok hex" and r: "stops rest"
  shows "parse_loop w (strm (hex p @ rest)) False side rel =
      parse_loop w (strm_end rest) True side (add_pr side p (root_of invert rel side p) rel)"
    and "parse_loop w (strm (CHR '','' # hex p @ rest)) True side rel =
      parse_loop w (strm_end rest) True side (add_pr side p (root_of invert rel side p) rel)"
proof -
  have p: "1 < p" "p < W64" using inv(2,3) power_increasing [of w 64 "2 :: int"]
    by (auto simp: good_prime_def W64_def)
  then have x: "list_all is_hex (hex p)" "hex p \<noteq> []" "digits_int 16 (hex p) = p"
    using h by (auto simp: hex_ok_def)
  have u: "read_ulong (strm (hex p @ rest)) = (word_of_int p, strm_end rest)"
    using read_ulong_number [OF x(1,2) _ r] p x(3) by simp
  note add = add_ul_root [OF inv, of side]
  obtain c cs where c: "hex p @ rest = c # cs" "is_hex c" using x by (cases "hex p") auto
  then have c': "c \<noteq> CHR '':''" "c \<noteq> CHR 0x0A" by (auto simp: is_hex_def)
  show "parse_loop w (strm (hex p @ rest)) False side rel =
      parse_loop w (strm_end rest) True side (add_pr side p (root_of invert rel side p) rel)"
    using u add unfolding c(1) by (subst parse_loop.simps) (simp add: c')
  show "parse_loop w (strm (CHR '','' # hex p @ rest)) True side rel =
      parse_loop w (strm_end rest) True side (add_pr side p (root_of invert rel side p) rel)"
    using u add by (subst parse_loop.simps) simp
qed

lemma parse_loop_tail:
  assumes "invert_ok invert" "w \<le> 64" "hex_ok hex"
  shows "\<forall>p\<in>set ps. good_prime w p \<Longrightarrow> ab_fits rel \<Longrightarrow> stops rest \<Longrightarrow> side < length (sides rel)
    \<Longrightarrow> parse_loop w (strm_end (concat (map (\<lambda>p. CHR '','' # hex p) ps) @ rest)) True side rel =
      parse_loop w (strm_end rest) True side (add_primes invert side ps rel)"
proof (induction ps arbitrary: rel)
  case (Cons p ps)
  define t where "t = concat (map (\<lambda>p. CHR '','' # hex p) ps) @ rest"
  have "stops t" using Cons.prems(3) by (cases ps) (simp_all add: t_def stops_def)
  note step = parse_loop_prime(2) [OF assms(1,2) _ Cons.prems(2) assms(3) this, of p side]
  have s: "side < length (sides (add_pr side p (root_of invert rel side p) rel))"
    using Cons.prems(4) by (simp add: add_pr_def)
  have e: "concat (map (\<lambda>p. CHR '','' # hex p) (p # ps)) @ rest = CHR '','' # hex p @ t" by (simp add: t_def)
  show ?case
    unfolding e strm_end_nonempty [OF list.distinct(2)] add_primes_Cons [OF Cons.prems(4)]
    using step Cons.IH [OF _ _ Cons.prems(3) s] Cons.prems(1,2) by (simp add: t_def)
qed simp

lemma parse_loop_primes:
  assumes "invert_ok invert" "w \<le> 64" "hex_ok hex" "\<forall>p\<in>set ps. good_prime w p" "ab_fits rel" "stops rest"
    "side < length (sides rel)"
  shows "parse_loop w (strm (join_commas (map hex ps) @ rest)) False side rel =
    parse_loop w (if ps = [] then strm rest else strm_end rest) (ps \<noteq> []) side (add_primes invert side ps rel)"
proof (cases ps)
  case (Cons p qs)
  define t where "t = concat (map (\<lambda>p. CHR '','' # hex p) qs) @ rest"
  have "stops t" using assms(6) by (cases qs) (simp_all add: t_def stops_def)
  note step = parse_loop_prime(1) [OF assms(1,2) _ assms(5,3) this, of p side]
  have s: "side < length (sides (add_pr side p (root_of invert rel side p) rel))"
    using assms(7) by (simp add: add_pr_def)
  have e: "join_commas (map hex ps) @ rest = hex p @ t"
    by (simp add: join_commas_def Cons t_def comp_def)
  show ?thesis
    unfolding e using step parse_loop_tail [OF assms(1-3) _ _ assms(6) s, of qs] assms(4,5)
    by (simp add: Cons add_primes_Cons [OF assms(7)] t_def)
qed (simp add: join_commas_def)

section \<open>Lines\<close>

text \<open>The law of reading and printing GMP integers in base ten.\<close>

definition decimal_io_ok :: "mpz_reader \<Rightarrow> (int \<Rightarrow> string) \<Rightarrow> bool" where
  "decimal_io_ok read dec \<longleftrightarrow> (\<forall>z rest.
     list_all (\<lambda>c. is_decimal c \<or> c = CHR ''-'') (dec z) \<and> dec z \<noteq> []
     \<and> (stops rest \<longrightarrow> read (strm (dec z @ rest)) = (Some z, strm_end rest)))"

definition relation_ok :: "(int \<Rightarrow> int \<Rightarrow> int option) \<Rightarrow> nat \<Rightarrow> relation \<Rightarrow> bool" where
  "relation_ok invert w rel \<longleftrightarrow> ab_fits rel \<and> length (sides rel) = 2
     \<and> length (active_sides rel) = 2 \<and> list_all (\<lambda>s. - 2147483648 \<le> s \<and> s < 2147483648) (active_sides rel)
     \<and> list_all (\<lambda>i. sorted_wrt (<) (map pr_key (sides rel ! i))
          \<and> list_all (\<lambda>x. good_prime w (pr_p x) \<and> 0 < pr_e x \<and> pr_r x = root_of invert rel i (pr_p x)) (sides rel ! i)) [0, 1]"

lemma read_decimal_ok: "decimal_io_ok read_decimal (signed_string 10)"
  unfolding decimal_io_ok_def
proof (intro allI conjI impI)
  fix z :: int and rest
  define h where "h = digits_string 10 \<bar>z\<bar>"
  have h: "digits_int 10 h = \<bar>z\<bar>" "list_all is_decimal h" "h \<noteq> []"
    using digits_string_value [of 10 "\<bar>z\<bar>"] by (auto simp: h_def is_decimal_iff list_all_iff)
  have b: "signed_string 10 z = (if z < 0 then ''-'' else []) @ h" by (simp add: signed_string_def h_def)
  show "list_all (\<lambda>c. is_decimal c \<or> c = CHR ''-'') (signed_string 10 z)" "signed_string 10 z \<noteq> []"
    using h by (auto simp: b list_all_iff)
  assume r: "stops rest"
  have "is_decimal (hd h)" using h by (cases h) simp_all
  then have "hd h \<noteq> CHR ''-''" by (auto simp: is_decimal_def)
  then have g: "scan_sign (signed_string 10 z @ rest) = (z < 0, h @ rest)"
    using h(3) unfolding b by (cases h) (simp_all add: scan_sign_def)
  have t: "takeWhile is_decimal (h @ rest) = h" "dropWhile is_decimal (h @ rest) = rest"
    using takeWhile_run [OF h(2), of rest] stops_not_hex [OF r] by blast+
  show "read_decimal (strm (signed_string 10 z @ rest)) = (Some z, strm_end rest)"
    by (simp add: read_decimal_def strm_def strm_end_def is_good_def g t h Let_def
      del: takeWhile_append dropWhile_append dropWhile_eq_Nil_conv)
qed

lemma signed_string_hex_ok: "hex_ok (signed_string 16)"
  using digits_string_value [of 16]
  by (auto simp: hex_ok_def signed_string_def list_all_iff is_hex_iff length_hex_digits)

lemma failbit_strm: "failbit (strm cs) = False"
  by (simp add: strm_def)

lemma read_relation_ab_line:
  assumes "decimal_io_ok read dec" "stops rest" "rest \<noteq> []"
  shows "read_relation_ab read eager (strm (dec a @ CHR '','' # dec b @ rest)) rel =
    (strm rest, rel\<lparr>rel_a := mpz_get_int64 a, rel_b := mpz_get_uint64 b, az := a, bz := b\<rparr>)"
proof -
  have "stops (CHR '','' # dec b @ rest)" by (simp add: stops_def)
  then have r: "read (strm (dec a @ CHR '','' # dec b @ rest)) = (Some a, strm (CHR '','' # dec b @ rest))"
    "read (strm (dec b @ rest)) = (Some b, strm rest)" "dec b @ rest \<noteq> []"
    using assms strm_end_nonempty [of rest] strm_end_nonempty [of "CHR '','' # dec b @ rest"]
    by (auto simp: decimal_io_ok_def)
  have "expect eager CHR '','' (strm (CHR '','' # dec b @ rest)) = strm (dec b @ rest)"
    using r(3) expect_char [of eager "CHR '',''" "hd (dec b @ rest)" "tl (dec b @ rest)"] by simp
  then show ?thesis using r by (simp add: read_relation_ab_def Let_def failbit_strm)
qed

lemma read_sides_given:
  assumes "- 2147483648 \<le> s0" "s0 < 2147483648" "- 2147483648 \<le> s1" "s1 < 2147483648"
  shows "read_sides eager (strm (CHR ''@'' # signed_string 10 s0 @ CHR '','' # signed_string 10 s1 @ CHR '':'' # rest)) rel =
    (strm (CHR '':'' # rest), rel\<lparr>active_sides := [s0, s1]\<rparr>)"
proof -
  have e: "expect eager c (strm (c # signed_string 10 s @ d # cs)) = strm (signed_string 10 s @ d # cs)"
    if "c \<noteq> CHR 0x0A" for c s d cs
    using that expect_char [of eager c "hd (signed_string 10 s @ d # cs)" "tl (signed_string 10 s @ d # cs)"] by simp
  have st: "stops (CHR '','' # cs)" "stops (CHR '':'' # cs)" for cs by (simp_all add: stops_def)
  show ?thesis
    using read_int_number [OF assms(1,2) st(1)] read_int_number [OF assms(3,4) st(2)]
    by (simp add: read_sides_def e strm_end_nonempty)
qed

lemma read_sides_default:
  "read_sides eager (strm (CHR '':'' # rest)) rel = (strm (CHR '':'' # rest), rel\<lparr>active_sides := [0, 1]\<rparr>)"
  by (simp add: read_sides_def)

lemma parse_front:
  assumes "decimal_io_ok read dec" "length (active_sides rel) = 2"
    "list_all (\<lambda>s. - 2147483648 \<le> s \<and> s < 2147483648) (active_sides rel)"
    "rel_a rel = mpz_get_int64 (az rel)" "rel_b rel = mpz_get_uint64 (bz rel)" "rational_side old = rational_side rel"
    "rest \<noteq> []"
  shows "parse invert read eager w (print_relation_ab dec rel @ CHR '':'' # rest) old =
    (case parse_loop w (strm rest) False 0 (rel\<lparr>sides := [[], []]\<rparr>) of
       None \<Rightarrow> None
     | Some (ok, rel) \<Rightarrow> if ok then Some (True, fixup_r invert False (compress rel)) else Some (False, rel))"
proof -
  obtain s0 s1 where s: "active_sides rel = [s0, s1]"
    using assms(2) by (cases "active_sides rel"; cases "tl (active_sides rel)") auto
  define t where "t = (if s0 \<noteq> 0 \<or> s1 \<noteq> 1 then CHR ''@'' # signed_string 10 s0 @ CHR '','' # signed_string 10 s1 @ CHR '':'' # rest
    else CHR '':'' # rest)"
  have t: "stops t" "t \<noteq> []" by (simp_all add: t_def stops_def)
  have l: "print_relation_ab dec rel @ CHR '':'' # rest = dec (az rel) @ CHR '','' # dec (bz rel) @ t"
    by (simp add: print_relation_ab_def s t_def)
  have "list_all (\<lambda>c. is_decimal c \<or> c = CHR ''-'') (dec (az rel))" "dec (az rel) \<noteq> []"
    using assms(1) unfolding decimal_io_ok_def by blast+
  then have n: "take 1 (dec (az rel) @ u) \<noteq> ''#''" for u
    by (cases "dec (az rel)") (auto simp: is_decimal_def)
  have sd: "read_sides eager (strm t) r = (strm (CHR '':'' # rest), r\<lparr>active_sides := [s0, s1]\<rparr>)" for r
    using read_sides_given [of s0 s1] assms(3) by (auto simp: t_def s read_sides_default)
  have x: "expect eager CHR '':'' (strm (CHR '':'' # rest)) = strm rest"
    using assms(7) expect_char [of eager "CHR '':''" "hd rest" "tl rest"] by simp
  have r: "old\<lparr>rel_a := mpz_get_int64 (az rel), rel_b := mpz_get_uint64 (bz rel), az := az rel, bz := bz rel,
      active_sides := [s0, s1], sides := [[], []]\<rparr> = rel\<lparr>sides := [[], []]\<rparr>"
    using assms(4-6) s by simp
  show ?thesis
    unfolding l parse_def using read_relation_ab_line [OF assms(1) t] n sd x r
    by (simp add: open_stream_def strm_def [symmetric] failbit_strm)
qed

lemma compress_primes:
  assumes "sorted_wrt (<) (map pr_key v)"
    "list_all (\<lambda>x. good_prime w (pr_p x) \<and> 0 < pr_e x \<and> pr_r x = root_of invert rel i (pr_p x)) v"
  shows "compress_side (map (\<lambda>p. \<lparr>pr_p = p, pr_r = root_of invert rel i p, pr_e = 1\<rparr>) (map pr_p (expand v))) = v"
proof -
  have "map (\<lambda>p. \<lparr>pr_p = p, pr_r = root_of invert rel i p, pr_e = 1\<rparr>) (map pr_p (expand v)) = expand v"
    unfolding map_map by (rule map_idI) (use assms(2) in \<open>auto simp: expand_def list_all_iff\<close>)
  then show ?thesis using compress_expand [OF assms(1)] assms(2) by (simp add: list_all_iff)
qed

lemma print_side_expand: "print_side hex v = CHR '':'' # join_commas (map hex (map pr_p (expand v)))"
proof -
  have "concat (map (\<lambda>v. replicate (nat (pr_e v)) (hex (pr_p v))) v) = map hex (map pr_p (expand v))"
    by (induction v) (simp_all add: expand_def)
  then show ?thesis by (simp add: print_side_def)
qed

lemma expand_primes:
  "list_all (\<lambda>x. good_prime w (pr_p x) \<and> P x) v \<Longrightarrow> \<forall>p\<in>set (map pr_p (expand v)). good_prime w p"
  by (auto simp: expand_def list_all_iff)

lemma expand_Nil_iff: "list_all (\<lambda>x. P x \<and> 0 < pr_e x \<and> Q x) v \<Longrightarrow> expand v = [] \<longleftrightarrow> v = []"
  by (cases v) (auto simp: expand_def)

lemma fixup_pr_root: "pr_r x = mpz_root invert (az rel) (bz rel) (pr_p x) \<Longrightarrow> fixup_pr invert rel x = x"
  by (simp add: fixup_pr_def)

lemma fixup_r_roots:
  assumes "sides rel = [u, v]" "list_all (\<lambda>x. pr_r x = root_of invert rel 0 (pr_p x)) u"
    "list_all (\<lambda>x. pr_r x = root_of invert rel 1 (pr_p x)) v"
  shows "fixup_r invert False rel = rel"
proof -
  have "map (fixup_pr invert rel) u = u" if "active_sides rel ! 0 \<noteq> rational_side rel"
    using assms(2) that by (intro map_idI) (auto simp: list_all_iff root_of_def intro: fixup_pr_root)
  moreover have "map (fixup_pr invert rel) v = v" if "active_sides rel ! 1 \<noteq> rational_side rel"
    using assms(3) that by (intro map_idI) (auto simp: list_all_iff root_of_def intro: fixup_pr_root)
  ultimately show ?thesis using assms(1) by (simp add: fixup_r_def upt_rec)
qed

lemma relation_ok_sides:
  assumes "relation_ok invert w rel"
  obtains u v where "sides rel = [u, v]" "sorted_wrt (<) (map pr_key u)" "sorted_wrt (<) (map pr_key v)"
    "list_all (\<lambda>x. good_prime w (pr_p x) \<and> 0 < pr_e x \<and> pr_r x = root_of invert rel 0 (pr_p x)) u"
    "list_all (\<lambda>x. good_prime w (pr_p x) \<and> 0 < pr_e x \<and> pr_r x = root_of invert rel 1 (pr_p x)) v"
  using assms by (cases "sides rel"; cases "tl (sides rel)") (auto simp: relation_ok_def)

text \<open>The line up to the end of the second side.\<close>

lemma parse_print_front:
  assumes inv: "invert_ok invert" "w \<le> 64" and io: "decimal_io_ok read dec" "hex_ok hex" and rel: "relation_ok invert w rel"
    and old: "rational_side old = rational_side rel" and st: "stops nl"
  obtains rel2 where "compress rel2 = rel"
    "parse invert read eager w (print_relation dec hex rel @ nl) old =
      (case parse_loop w (if sides rel ! 1 = [] then strm nl else strm_end nl) (sides rel ! 1 \<noteq> []) 1 rel2 of
         None \<Rightarrow> None
       | Some (ok, rel) \<Rightarrow> if ok then Some (True, fixup_r invert False (compress rel)) else Some (False, rel))"
proof -
  from rel obtain u v where s: "sides rel = [u, v]" and "sorted_wrt (<) (map pr_key u)" "sorted_wrt (<) (map pr_key v)"
    and u: "list_all (\<lambda>x. good_prime w (pr_p x) \<and> 0 < pr_e x \<and> pr_r x = root_of invert rel 0 (pr_p x)) u"
    and v: "list_all (\<lambda>x. good_prime w (pr_p x) \<and> 0 < pr_e x \<and> pr_r x = root_of invert rel 1 (pr_p x)) v"
    by (rule relation_ok_sides)
  note cu = compress_primes [OF \<open>sorted_wrt (<) (map pr_key u)\<close> u] and cv = compress_primes [OF \<open>sorted_wrt (<) (map pr_key v)\<close> v]
  have ab: "ab_fits rel" using rel by (simp add: relation_ok_def)
  define rel0 where "rel0 = rel\<lparr>sides := [[], []]\<rparr>"
  define rel1 where "rel1 = add_primes invert 0 (map pr_p (expand u)) rel0"
  define rel2 where "rel2 = add_primes invert 1 (map pr_p (expand v)) rel1"
  have f: "ab_fits rel0" "ab_fits rel1" "0 < length (sides rel0)" "1 < length (sides rel1)"
    using ab by (simp_all add: rel0_def rel1_def ab_fits_def add_primes_def)
  define rest where "rest = join_commas (map hex (map pr_p (expand v))) @ nl"
  have l: "print_relation dec hex rel @ nl
      = print_relation_ab dec rel @ CHR '':'' # join_commas (map hex (map pr_p (expand u))) @ CHR '':'' # rest"
    by (simp add: print_relation_def s print_side_expand rest_def)
  have "parse_loop w (strm (join_commas (map hex (map pr_p (expand u))) @ CHR '':'' # rest)) False 0 rel0
      = parse_loop w (strm rest) False 1 rel1"
    using parse_loop_primes [OF inv io(2) expand_primes [OF u] f(1) _ f(3), of "CHR '':'' # rest"]
    by (simp add: rel1_def strm_end_nonempty parse_loop_colon stops_def)
  also have "\<dots> = parse_loop w (if sides rel ! 1 = [] then strm nl else strm_end nl) (sides rel ! 1 \<noteq> []) 1 rel2"
    using parse_loop_primes [OF inv io(2) expand_primes [OF v] f(2) st f(4)] s expand_Nil_iff [OF v]
    by (simp add: rest_def rel2_def)
  finally have loop: "parse_loop w (strm (join_commas (map hex (map pr_p (expand u))) @ CHR '':'' # rest)) False 0 rel0
      = parse_loop w (if sides rel ! 1 = [] then strm nl else strm_end nl) (sides rel ! 1 \<noteq> []) 1 rel2" .
  have "root_of invert rel0 = root_of invert rel" "root_of invert rel1 = root_of invert rel"
    by (simp_all add: rel0_def rel1_def add_primes_def root_of_def fun_eq_iff)
  then have "sides rel2 = [map (\<lambda>p. \<lparr>pr_p = p, pr_r = root_of invert rel 0 p, pr_e = 1\<rparr>) (map pr_p (expand u)),
      map (\<lambda>p. \<lparr>pr_p = p, pr_r = root_of invert rel 1 p, pr_e = 1\<rparr>) (map pr_p (expand v))]"
    by (simp add: rel2_def add_primes_def) (simp add: rel1_def add_primes_def rel0_def)
  then have "compress rel2 = rel2\<lparr>sides := [u, v]\<rparr>"
    using cu cv by (simp add: compress_def compress_side_def [symmetric])
  also have "\<dots> = rel" by (simp add: rel2_def rel1_def rel0_def add_primes_def s [symmetric])
  finally show ?thesis
    by (rule that) (use parse_front [OF io(1), of rel old] rel ab old loop l in \<open>simp add: relation_ok_def ab_fits_def rel0_def\<close>)
qed

lemma parse_print:
  assumes "invert_ok invert" "w \<le> 64" "decimal_io_ok read dec" "hex_ok hex" "relation_ok invert w rel"
    "rational_side old = rational_side rel" "nl = [CHR 0x0A] \<or> nl = [] \<and> sides rel ! 1 \<noteq> []"
  shows "parse invert read eager w (print_relation dec hex rel @ nl) old = Some (True, rel)"
proof -
  have "stops nl" using assms(7) by (auto simp: stops_def)
  from parse_print_front [OF assms(1-6) this]
  obtain rel2 where r: "compress rel2 = rel"
    "parse invert read eager w (print_relation dec hex rel @ nl) old =
      (case parse_loop w (if sides rel ! 1 = [] then strm nl else strm_end nl) (sides rel ! 1 \<noteq> []) 1 rel2 of
         None \<Rightarrow> None
       | Some (ok, rel) \<Rightarrow> if ok then Some (True, fixup_r invert False (compress rel)) else Some (False, rel))" .
  have "fixup_r invert False rel = rel"
    using assms(5) by (rule relation_ok_sides) (rule fixup_r_roots; auto simp: list_all_iff)
  then show ?thesis
    using r assms(7) by (auto simp: strm_end_nonempty parse_loop_newline parse_loop_eof)
qed

lemma parse_loop_fails: "parse_loop w (strm []) comma side rel = Some (False, rel)"
  by (subst parse_loop.simps) (simp add: strm_def is_peek_def read_ulong_def is_good_def Let_def)

lemma parse_print_empty:
  assumes "invert_ok invert" "w \<le> 64" "decimal_io_ok read dec" "hex_ok hex" "relation_ok invert w rel"
    "rational_side old = rational_side rel" "sides rel ! 1 = []"
  shows "\<exists>r. parse invert read eager w (print_relation dec hex rel) old = Some (False, r)"
proof -
  have "stops []" by (simp add: stops_def)
  from parse_print_front [OF assms(1-6) this]
  obtain rel2 where "compress rel2 = rel"
    "parse invert read eager w (print_relation dec hex rel @ []) old =
      (case parse_loop w (if sides rel ! 1 = [] then strm [] else strm_end []) (sides rel ! 1 \<noteq> []) 1 rel2 of
         None \<Rightarrow> None
       | Some (ok, rel) \<Rightarrow> if ok then Some (True, fixup_r invert False (compress rel)) else Some (False, rel))"
    .
  then show ?thesis using assms(7) by (simp add: parse_loop_fails)
qed

lemma signed_string_chars: "set (signed_string 10 z) \<subseteq> set ''-0123456789''"
proof -
  have "set (digits_string 10 \<bar>z\<bar>) \<subseteq> set ''0123456789''"
    using digits_string_value [of 10 "\<bar>z\<bar>"] by (simp add: hex_digits_def)
  then show ?thesis by (auto simp: signed_string_def)
qed

lemma print_relation_one_line:
  assumes "decimal_io_ok read dec" "hex_ok hex" "list_all (list_all (\<lambda>x. 0 \<le> pr_p x)) (sides rel)"
  shows "CHR 0x0A \<notin> set (print_relation dec hex rel)"
proof -
  have "list_all (\<lambda>c. is_decimal c \<or> c = CHR ''-'') (dec z)" for z
    using assms(1) unfolding decimal_io_ok_def by blast
  then have d: "CHR 0x0A \<notin> set (dec z)" for z by (fastforce simp: list_all_iff is_decimal_def)
  have h: "CHR 0x0A \<notin> set (hex p)" if "0 \<le> p" for p
    using assms(2) that by (fastforce simp: hex_ok_def list_all_iff is_hex_def)
  have s: "CHR 0x0A \<notin> set (signed_string 10 z)" for z using signed_string_chars [of z] by auto
  have "CHR 0x0A \<notin> set (join_commas xs)" if "\<forall>x\<in>set xs. CHR 0x0A \<notin> set x" for xs
    using that by (cases xs) (auto simp: join_commas_def)
  then have "CHR 0x0A \<notin> set (print_side hex v)" if "list_all (\<lambda>x. 0 \<le> pr_p x) v" for v
    using that h by (auto simp: print_side_def list_all_iff)
  then show ?thesis using assms(3) d s by (auto simp: print_relation_def print_relation_ab_def list_all_iff)
qed

lemma relation_ok_primes: "relation_ok invert w rel \<Longrightarrow> list_all (list_all (\<lambda>x. 0 \<le> pr_p x)) (sides rel)"
  by (cases "sides rel"; cases "tl (sides rel)") (auto simp: relation_ok_def good_prime_def list_all_iff)

lemma extract_line:
  assumes "CHR 0x0A \<notin> set line"
  shows "extract_relation invert read eager w (line @ CHR 0x0A # rest) rel =
    (case parse invert read eager w line rel of
       None \<Rightarrow> None | Some (ok, rel) \<Rightarrow> Some (ok, if ok then rel else relation_default, rest))"
proof -
  have t: "takeWhile (\<lambda>c. c \<noteq> CHR 0x0A) (line @ CHR 0x0A # rest) = line"
    using takeWhile_run [of "\<lambda>c. c \<noteq> CHR 0x0A" line "CHR 0x0A # rest"] assms
    unfolding list_all_iff by (metis list.sel(1))
  have d: "drop (Suc (length line)) (line @ CHR 0x0A # rest) = rest" by simp
  show ?thesis unfolding extract_relation_def Let_def t d by simp
qed

section \<open>Properties\<close>

text \<open>
  C11: Compression of a relation: on each side the pairs of prime and root are strictly increasing
  afterwards, they are the ones there were, and the exponents of each add up to the same number.
\<close>

theorem relation_compress_correct:
  "list_all2 (\<lambda>v v'. sorted_wrt (<) (map pr_key v') \<and> set (map pr_key v') = set (map pr_key v)
     \<and> (\<forall>k. exponent k v' = exponent k v)) (sides rel) (sides (compress rel))
   \<and> (\<exists>ss. compress rel = rel\<lparr>sides := ss\<rparr>)"
proof -
  have "compress rel = rel\<lparr>sides := map compress_side (sides rel)\<rparr>"
    by (simp add: compress_def compress_side_def [abs_def])
  then show ?thesis
    using compress_side_correct by (auto simp: list_all2_conv_all_nth)
qed

text \<open>
  C6: Printing and reading: a relation whose pair \<open>(a, b)\<close> fits its machine words, with primes in order,
  positive exponents and the roots that belong to them, is read back as it was from the line it is
  printed as, with the newline, or without it if the second side has a prime.
\<close>

theorem relation_print_parse:
  assumes "invert_ok invert" "w \<le> 64" "decimal_io_ok read dec" "hex_ok hex" "relation_ok invert w rel"
    "rational_side old = rational_side rel" "nl = [CHR 0x0A] \<or> nl = [] \<and> sides rel ! 1 \<noteq> []"
  shows "parse invert read eager w (print_relation dec hex rel @ nl) old = Some (True, rel)"
  by (rule parse_print [OF assms])

definition example_relation :: relation where
  "example_relation = (relation_new_mpz (- 12) 5 0)\<lparr>active_sides := [0, 2],
     sides := [[\<lparr>pr_p = 3, pr_r = 0, pr_e = 2\<rparr>], [\<lparr>pr_p = 8, pr_r = 4, pr_e = 1\<rparr>, \<lparr>pr_p = 13, pr_r = 8, pr_e = 3\<rparr>]]\<rparr>"

lemma example_relation_ok: "relation_ok bezout_invert 32 example_relation"
  by code_simp

theorem relation_print_parse_witness:
  "parse bezout_invert read_decimal True 32
     (print_relation (signed_string 10) (signed_string 16) example_relation @ [CHR 0x0A])
     (relation_default\<lparr>rational_side := 0\<rparr>) = Some (True, example_relation)"
  by (rule relation_print_parse [OF bezout_invert_ok _ read_decimal_ok signed_string_hex_ok example_relation_ok])
    (simp_all add: example_relation_def relation_new_mpz_def)

text \<open>
  C7: Printing followed by extraction from a stream: the line is consumed, and the relation comes back unless
  its second side has no primes; then the extraction fails and the object is reset.
\<close>

theorem relation_extract_print:
  assumes "invert_ok invert" "w \<le> 64" "decimal_io_ok read dec" "hex_ok hex" "relation_ok invert w rel"
    "rational_side old = rational_side rel"
  shows "extract_relation invert read eager w (print_relation dec hex rel @ CHR 0x0A # others) old =
    (if sides rel ! 1 \<noteq> [] then Some (True, rel, others) else Some (False, relation_default, others))"
proof (cases "sides rel ! 1 = []")
  case False
  then show ?thesis
    using parse_print [OF assms, of "[]"] extract_line print_relation_one_line [OF assms(3,4)] relation_ok_primes [OF assms(5)]
    by simp
next
  case True
  then show ?thesis
    using parse_print_empty [OF assms True, of eager] extract_line print_relation_one_line [OF assms(3,4) relation_ok_primes [OF assms(5)]]
    by auto
qed

theorem relation_extract_print_witness:
  "extract_relation bezout_invert read_decimal False 32
     (print_relation (signed_string 10) (signed_string 16) example_relation @ CHR 0x0A # ''1'') (relation_default\<lparr>rational_side := 0\<rparr>)
     = Some (True, example_relation, ''1'')
   \<and> extract_relation bezout_invert read_decimal False 32
     (print_relation (signed_string 10) (signed_string 16) (relation_new_mpz 7 2 0) @ CHR 0x0A # []) (relation_default\<lparr>rational_side := 0\<rparr>)
     = Some (False, relation_default, [])"
proof -
  have "relation_ok bezout_invert 32 (relation_new_mpz 7 2 0)" by code_simp
  note small = relation_extract_print [OF bezout_invert_ok _ read_decimal_ok signed_string_hex_ok this]
    and example = relation_extract_print [OF bezout_invert_ok _ read_decimal_ok signed_string_hex_ok example_relation_ok]
  have "sides example_relation ! 1 \<noteq> []" "sides (relation_new_mpz 7 2 0) ! 1 = []"
    "rational_side example_relation = 0" "rational_side (relation_new_mpz 7 2 0) = 0"
    by (simp_all add: example_relation_def relation_new_mpz_def relation_default_def)
  then show ?thesis
    using small [of "relation_default\<lparr>rational_side := 0\<rparr>" False "[]"]
      example [of "relation_default\<lparr>rational_side := 0\<rparr>" False "''1''"] by simp
qed

text \<open>
  A line that ends after the pair \<open>(a, b)\<close> is accepted, as a relation without primes.
\<close>

theorem parse_truncated_line:
  assumes "decimal_io_ok read dec"
  shows "parse invert read eager w (dec a @ CHR '','' # dec b) old =
    Some (True, old\<lparr>rel_a := mpz_get_int64 a, rel_b := mpz_get_uint64 b, az := a, bz := b,
      active_sides := [0, 1], sides := [[], []]\<rparr>)"
proof -
  have c: "list_all (\<lambda>c. is_decimal c \<or> c = CHR ''-'') (dec z)" "dec z \<noteq> []" for z
    using assms unfolding decimal_io_ok_def by blast+
  have n: "take 1 (dec a @ u) \<noteq> ''#''" for u using c [of a] by (cases "dec a") (auto simp: is_decimal_def)
  have st: "stops (CHR '','' # dec b)" "stops []" by (simp_all add: stops_def)
  have r: "read (strm (dec a @ CHR '','' # dec b)) = (Some a, strm (CHR '','' # dec b))"
    "read (strm (dec b)) = (Some b, strm_end [])"
    using assms st strm_end_nonempty [of "CHR '','' # dec b"] append_Nil2 [of "dec b"]
    unfolding decimal_io_ok_def by (metis list.distinct(2))+
  have e: "expect eager CHR '','' (strm (CHR '','' # dec b)) = strm (dec b)"
    using c(2) [of b] expect_char [of eager "CHR '',''" "hd (dec b)" "tl (dec b)"] by simp
  have p: "is_peek (strm_end []) = (None, (strm_end [])\<lparr>failbit := True\<rparr>)"
    "expect eager CHR '':'' ((strm_end [])\<lparr>failbit := True\<rparr>) = (strm_end [])\<lparr>failbit := True\<rparr>"
    by (simp_all add: is_peek_def expect_def is_good_def)
  have l: "parse_loop w ((strm_end [])\<lparr>failbit := True\<rparr>) False 0 x = Some (True, x)" for x
    by (subst parse_loop.simps) simp
  show ?thesis
    unfolding parse_def read_relation_ab_def read_sides_def open_stream_def strm_def [symmetric]
    using n by (simp add: r e p l compress_def fixup_r_def Let_def upt_rec)
qed

theorem parse_truncated_line_witness:
  "parse bezout_invert read_decimal True 64 ''12,5'' relation_default
     = Some (True, relation_default\<lparr>rel_a := mpz_get_int64 12, rel_b := mpz_get_uint64 5, az := 12, bz := 5\<rparr>)"
proof -
  have "signed_string 10 12 @ CHR '','' # signed_string 10 5 = ''12,5''" by code_simp
  then show ?thesis
    using parse_truncated_line [OF read_decimal_ok, of bezout_invert True 64 12 5 relation_default]
    by (simp add: relation_default_def)
qed

text \<open>What is left of an integer when it is cut to a signed word.\<close>

lemma mpz_get_int64_cut:
  "sint (mpz_get_int64 a) = (if 0 \<le> a then a mod 2 ^ 63 else - ((- a - 1) mod 2 ^ 63) - 1)"
proof -
  have small: "(word_of_int k :: u64) AND 9223372036854775807 = word_of_int (k mod 2 ^ 63)" for k
  proof (rule word_uint_eqI)
    have "uint (word_of_int k :: u64) mod 2 ^ 63 = k mod 2 ^ 63"
      by (simp add: uint_word_of_int mod_mod_cancel)
    then show "uint ((word_of_int k :: u64) AND 9223372036854775807) = uint (word_of_int (k mod 2 ^ 63) :: u64)"
      using uint_mask64 [of "word_of_int k" 63] pos_mod_bound [of "2 ^ 63 :: int" k] by (simp add: uint_word_of_int)
  qed
  show ?thesis
  proof (cases "0 \<le> a")
    case True
    then have "mpz_get_int64 a = word_of_int (a mod 2 ^ 63)"
      by (simp add: mpz_get_int64_def mpz_get_uint64_def small)
    then show ?thesis
      using True sint_of_int64 [of "a mod 2 ^ 63"] pos_mod_bound [of "2 ^ 63" a] pos_mod_sign [of "2 ^ 63" a] by simp
  next
    case False
    define k where "k = (- a - 1) mod 2 ^ 63"
    have k: "0 \<le> k" "k < 2 ^ 63"
      by (simp_all add: k_def)
    have "(word_of_int \<bar>a\<bar> - 1) AND 9223372036854775807 = (word_of_int k :: u64)"
      using small [of "- a - 1"] False by (simp add: k_def)
    then have "mpz_get_int64 a = word_of_int (- k - 1)"
      using False by (simp add: mpz_get_int64_def mpz_get_uint64_def Let_def)
    then show ?thesis
      using k False sint_of_int64 [of "- k - 1"] by (simp add: k_def)
  qed
qed

text \<open>
  C12: A relation with an \<open>a\<close> that does not fit a machine word. Adding a prime as a machine word stores the
  root of the pair with \<open>a\<close> cut to 64 bits, which is the root of the relation exactly when the prime
  divides what was cut off. Adding it as a GMP integer stores the root, but with exponent zero, so that
  the prime is never printed.
\<close>

theorem relation_large_pair:
  fixes p :: u64 and a b rs :: int
  defines "rel \<equiv> relation_new_mpz a b rs"
  assumes "invert_ok invert" "odd (uint p)" "1 < uint p" "0 \<le> b" "b < 2 ^ 64" "coprime b (uint p)"
    "side < 2" "rs \<noteq> int side"
  shows "(\<exists>r. add_ul 64 side p rel = Some (add_pr side (uint p) r rel) \<and> 0 \<le> r \<and> r < uint p
      \<and> ((r * b) mod uint p = a mod uint p \<longleftrightarrow> uint p dvd (if 0 \<le> a then a else - a - 1) div 2 ^ 63))
    \<and> (\<exists>r. sides (add_mpz invert side (uint p) rel) ! side = [\<lparr>pr_p = uint p, pr_r = r, pr_e = 0\<rparr>]
      \<and> 0 \<le> r \<and> r < uint p \<and> (r * b) mod uint p = a mod uint p)
    \<and> print_relation dec hex (add_mpz invert side (uint p) rel) = print_relation dec hex rel"
proof -
  have alg: "active_sides rel ! side \<noteq> rational_side rel" and ab: "az rel = a" "bz rel = b"
    and ss: "sides rel = [[], []]" "active_sides rel = [0, 1]"
    using assms(8,9) by (auto simp: rel_def relation_new_mpz_def relation_default_def less_2_cases_iff)
  define h where "h = (if 0 \<le> a then a else - a - 1) div 2 ^ 63"
  have e: "x mod 2 ^ 63 = x - x div 2 ^ 63 * 2 ^ 63" for x :: int
    by (rule minus_div_mult_eq_mod [symmetric])
  have cut: "sint (mpz_get_int64 a) = a - (if 0 \<le> a then h else - h) * 2 ^ 63"
    unfolding mpz_get_int64_cut h_def e [of a] e [of "- a - 1"] by (simp only: split: if_split) linarith
  have ra: "sint (rel_a rel) = a - (if 0 \<le> a then h else - h) * 2 ^ 63" "uint (rel_b rel) = b"
    using cut assms(5,6) by (simp_all add: rel_def relation_new_mpz_def relation_default_def mpz_get_uint64_def uint_word_of_int)
  have t: "take_bit 64 p = p"
    by (rule take_bit_word_eq_self) simp
  obtain w where w: "relation_compute_r (rel_a rel) (rel_b rel) p = Some w" "w < p"
    "(uint w * b) mod uint p = (a - (if 0 \<le> a then h else - h) * 2 ^ 63) mod uint p"
    using relation_compute_r_value [of p "rel_a rel" "rel_b rel"] assms(3,4,7) unfolding ra by auto
  have "coprime (2 ^ 63) (uint p)"
    using assms(3) by (simp only: coprime_power_left_iff coprime_left_2_iff_odd simp_thms)
  then have d: "uint p dvd (if 0 \<le> a then h else - h) * 2 ^ 63 \<longleftrightarrow> uint p dvd h"
    by (cases "0 \<le> a") (simp_all only: if_True if_False coprime_dvd_mult_left_iff coprime_commute dvd_minus_iff)
  have "(uint w * b) mod uint p = a mod uint p \<longleftrightarrow> uint p dvd h"
    unfolding w(3) mod_eq_dvd_iff using d by (simp add: dvd_diff_commute)
  moreover have "add_ul 64 side p rel = Some (add_pr side (uint p) (uint w) rel)"
    using alg w(1) by (simp add: add_ul_def t)
  moreover have "uint w < uint p"
    using w(2) by (simp add: word_less_def)
  moreover have "sides (add_mpz invert side (uint p) rel) ! side
      = [\<lparr>pr_p = uint p, pr_r = mpz_root invert a b (uint p), pr_e = 0\<rparr>]"
    using alg assms(8) by (auto simp: add_mpz_def ab ss less_2_cases_iff)
  moreover have "print_relation dec hex (add_mpz invert side (uint p) rel) = print_relation dec hex rel"
    using alg assms(8)
    by (auto simp: add_mpz_def print_relation_def print_relation_ab_def print_side_def ss less_2_cases_iff)
  ultimately show ?thesis
    using mpz_root_cases [OF assms(2), of "uint p" b a] assms(4,7) unfolding h_def by auto
qed

theorem relation_large_pair_witness:
  "(\<exists>r. add_ul 64 0 7 (relation_new_mpz (2 ^ 64 + 1) 1 (- 1)) = Some (add_pr 0 7 r (relation_new_mpz (2 ^ 64 + 1) 1 (- 1)))
      \<and> (r * 1) mod 7 \<noteq> (2 ^ 64 + 1) mod 7)
   \<and> (\<exists>r. sides (add_mpz bezout_invert 0 7 (relation_new_mpz (2 ^ 64 + 1) 1 (- 1))) ! 0 = [\<lparr>pr_p = 7, pr_r = r, pr_e = 0\<rparr>]
      \<and> (r * 1) mod 7 = (2 ^ 64 + 1) mod 7)
   \<and> print_relation (signed_string 10) (signed_string 16) (add_mpz bezout_invert 0 7 (relation_new_mpz (2 ^ 64 + 1) 1 (- 1)))
     = print_relation (signed_string 10) (signed_string 16) (relation_new_mpz (2 ^ 64 + 1) 1 (- 1))"
  using relation_large_pair [OF bezout_invert_ok, of 7 1 0 "- 1" "2 ^ 64 + 1" "signed_string 10" "signed_string 16"]
  by auto

end
