(* ===== verification/TaskTree.thy ===== *)
theory TaskTree
  imports Prelude
begin

text \<open>
  The tree of special-q tasks of the individual logarithm descent:
  \<^verbatim>\<open>las-special-q-task-tree.\<close>, \<^verbatim>\<open>las-special-q-task-collection.\<close>, \<^verbatim>\<open>las-special-q-task.hpp\<close> and
  \<^verbatim>\<open>las-special-q-task-simple.hpp\<close> under \<^verbatim>\<open>src/sieve/\<close>, and the special-q of
  \<^verbatim>\<open>src/utils/special-q.hpp\<close>. The nodes live in a list, a pointer to a node is an index, and the
  root (\<^verbatim>\<open>forest\<close>) is node 0. Operations run under the lock of the tree, so each is one step of the
  collection. Failed assertions and exceptions are values of a sum type. The two recursive
  operations take fuel; the theorems show how much is enough. The clock is a field that does not
  change during an operation; a call of \<^verbatim>\<open>notify_all\<close> is counted. Messages are not modelled.
\<close>

section \<open>Special-q\<close>

datatype special_q = Special_q (sq_p: int) (sq_r: int) (sq_side: int)

definition special_q_less :: "special_q \<Rightarrow> special_q \<Rightarrow> bool" where
  "special_q_less q o' =
    (if sq_p q \<noteq> sq_p o' then sq_p q < sq_p o'
     else if sq_side q \<noteq> sq_side o' then sq_side q < sq_side o'
     else if sq_r q \<noteq> sq_r o' then sq_r q < sq_r o'
     else False)"

instantiation special_q :: linorder
begin

definition less_special_q :: "special_q \<Rightarrow> special_q \<Rightarrow> bool" where
  "less_special_q q o' = special_q_less q o'"

definition less_eq_special_q :: "special_q \<Rightarrow> special_q \<Rightarrow> bool" where
  "less_eq_special_q q o' = (q = o' \<or> q < o')"

instance
proof
  fix x y z :: special_q
  show "(x < y) = (x \<le> y \<and> \<not> y \<le> x)"
    by (auto simp: less_eq_special_q_def less_special_q_def special_q_less_def split: if_splits)
  show "x \<le> x"
    by (simp add: less_eq_special_q_def)
  show "x \<le> y \<Longrightarrow> y \<le> z \<Longrightarrow> x \<le> z"
    by (auto simp: less_eq_special_q_def less_special_q_def special_q_less_def split: if_splits)
  show "x \<le> y \<Longrightarrow> y \<le> x \<Longrightarrow> x = y"
    by (auto simp: less_eq_special_q_def less_special_q_def special_q_less_def split: if_splits)
  show "x \<le> y \<or> y \<le> x"
    by (cases x; cases y) (auto simp: less_eq_special_q_def less_special_q_def special_q_less_def)
qed

end

text \<open>The conversion to \<^verbatim>\<open>bool\<close>: the default object has p = 0.\<close>

definition sq_bool :: "special_q \<Rightarrow> bool" where
  "sq_bool q = (sq_p q \<noteq> 0)"

definition default_special_q :: special_q where
  "default_special_q = Special_q 0 0 0"

section \<open>Nodes and collections\<close>

datatype status_code = PENDING | IN_PROGRESS | IN_RECURSION | DONE | ABANDONED

text \<open>
  Of the candidate relation, the decisions use the relation itself, if there is one, and the
  special-q that remain to be split.
\<close>

record 'rel candidate =
  rel :: "'rel option"
  outstanding :: "special_q list"

record 'rel node =
  sq :: special_q
  status :: status_code
  root_depth :: int
  spent :: int
  contender :: "'rel candidate"
  children :: "nat list"
  children_by_status :: "status_code \<Rightarrow> nat list"
  parent :: "nat option"
  try_again :: int

record 'rel collection =
  nodes :: "'rel node list"
  visited :: "'rel list"
  all_pending :: "nat list"
  created :: nat
  pulled :: nat
  done_count :: nat
  abandoned :: nat
  notified :: nat
  clock :: int

datatype tree_error = Assertion_failed | Node_not_found | Out_of_fuel

definition sbind :: "'e + 'a \<Rightarrow> ('a \<Rightarrow> 'e + 'b) \<Rightarrow> 'e + 'b" where
  "sbind m f = (case m of Inl e \<Rightarrow> Inl e | Inr x \<Rightarrow> f x)"

definition assert_always :: "bool \<Rightarrow> tree_error + unit" where
  "assert_always b = (if b then Inr () else Inl Assertion_failed)"

definition node_at :: "'rel collection \<Rightarrow> nat \<Rightarrow> 'rel node" where
  "node_at s i = nodes s ! i"

definition update_node :: "nat \<Rightarrow> ('rel node \<Rightarrow> 'rel node) \<Rightarrow> 'rel collection \<Rightarrow> 'rel collection" where
  "update_node i f s = s\<lparr>nodes := (nodes s)[i := f (nodes s ! i)]\<rparr>"

definition notify_all :: "'rel collection \<Rightarrow> 'rel collection" where
  "notify_all s = s\<lparr>notified := notified s + 1\<rparr>"

definition new_tree_node :: "special_q \<Rightarrow> nat option \<Rightarrow> int \<Rightarrow> 'rel node" where
  "new_tree_node q par depth =
    \<lparr>sq = q, status = PENDING, root_depth = depth, spent = 0,
     contender = \<lparr>rel = None, outstanding = []\<rparr>, children = [],
     children_by_status = (\<lambda>_. []), parent = par, try_again = 0\<rparr>"

definition init_collection :: "int \<Rightarrow> 'rel collection" where
  "init_collection now =
    \<lparr>nodes = [(new_tree_node default_special_q None 0)\<lparr>status := IN_RECURSION, spent := - now\<rparr>],
     visited = [], all_pending = [], created = 0, pulled = 0, done_count = 0, abandoned = 0,
     notified = 0, clock = now\<rparr>"

text \<open>
  The sets of children are ordered by the special-q: inserting an element that is equivalent
  to one of the set changes nothing, and erasing removes the equivalent element.
\<close>

fun set_insert :: "(nat \<Rightarrow> special_q) \<Rightarrow> nat \<Rightarrow> nat list \<Rightarrow> nat list" where
  "set_insert key x [] = [x]"
| "set_insert key x (y # ys) =
    (if key x < key y then x # y # ys
     else if key y < key x then y # set_insert key x ys
     else y # ys)"

fun set_erase :: "(nat \<Rightarrow> special_q) \<Rightarrow> nat \<Rightarrow> nat list \<Rightarrow> nat list" where
  "set_erase key x [] = []"
| "set_erase key x (y # ys) =
    (if \<not> key x < key y \<and> \<not> key y < key x then ys else y # set_erase key x ys)"

section \<open>Operations\<close>

definition update_child_status ::
    "nat \<Rightarrow> nat \<Rightarrow> status_code \<Rightarrow> status_code \<Rightarrow> 'rel collection \<Rightarrow> tree_error + 'rel collection" where
  "update_child_status this item before after s =
    sbind (assert_always (status (node_at s item) = before)) (\<lambda>_.
      let s1 = update_node item (\<lambda>n. n\<lparr>status := after\<rparr>) s;
          key = (\<lambda>i. sq (node_at s1 i));
          s2 = update_node this (\<lambda>n. n\<lparr>children_by_status := (children_by_status n)
                 (after := set_insert key item (children_by_status n after))\<rparr>) s1;
          L = children_by_status (node_at s2 this) before;
          s3 = update_node this (\<lambda>n. n\<lparr>children_by_status := (children_by_status n)
                 (before := set_erase key item L)\<rparr>) s2
      in if length (set_erase key item L) = length L then Inl Node_not_found else Inr s3)"

definition update_status ::
    "nat \<Rightarrow> status_code \<Rightarrow> status_code \<Rightarrow> 'rel collection \<Rightarrow> tree_error + 'rel collection" where
  "update_status item before after s =
    (case parent (node_at s item) of
       Some p \<Rightarrow> update_child_status p item before after s
     | None \<Rightarrow>
         sbind (assert_always (status (node_at s item) = before)) (\<lambda>_.
           Inr (update_node item (\<lambda>n. n\<lparr>status := after\<rparr>) s)))"

definition new_node_unlocked :: "special_q \<Rightarrow> nat option \<Rightarrow> 'rel collection \<Rightarrow> 'rel collection" where
  "new_node_unlocked doing par s =
    (let p = (case par of None \<Rightarrow> 0 | Some p \<Rightarrow> p);
         kid = length (nodes s);
         s1 = s\<lparr>nodes := nodes s @ [new_tree_node doing (Some p) (1 + root_depth (node_at s p))],
                all_pending := all_pending s @ [kid]\<rparr>;
         key = (\<lambda>i. sq (node_at s1 i));
         s2 = update_node p (\<lambda>n. n\<lparr>children_by_status := (children_by_status n)
                (PENDING := set_insert key kid (children_by_status n PENDING)),
                children := children n @ [kid]\<rparr>) s1
     in s2\<lparr>created := created s2 + 1\<rparr>)"

definition no_live_children :: "nat \<Rightarrow> 'rel collection \<Rightarrow> bool" where
  "no_live_children i s =
    (children_by_status (node_at s i) PENDING = []
     \<and> children_by_status (node_at s i) IN_PROGRESS = []
     \<and> children_by_status (node_at s i) IN_RECURSION = [])"

fun done_node_unlocked :: "nat \<Rightarrow> nat \<Rightarrow> 'rel collection \<Rightarrow> tree_error + 'rel collection" where
  "done_node_unlocked 0 item s = Inl Out_of_fuel"
| "done_node_unlocked (Suc fuel) item s =
    sbind (assert_always (no_live_children item s)) (\<lambda>_.
    sbind
      (if item \<noteq> 0
       then sbind (assert_always (status (node_at s item) \<in> {IN_PROGRESS, IN_RECURSION})) (\<lambda>_.
            sbind (update_status item (status (node_at s item)) DONE s) (\<lambda>s.
            Inr (s\<lparr>done_count := done_count s + 1\<rparr>)))
       else Inr s) (\<lambda>s.
    let s = update_node item (\<lambda>n. n\<lparr>spent := spent n + clock s\<rparr>) s;
        s = (if parent (node_at s item) = Some 0 then notify_all s else s)
    in case parent (node_at s item) of
         None \<Rightarrow> Inr s
       | Some p \<Rightarrow> if no_live_children p s then done_node_unlocked fuel p s else Inr s))"

definition recurse_node_unlocked :: "nat \<Rightarrow> 'rel collection \<Rightarrow> tree_error + 'rel collection" where
  "recurse_node_unlocked item s = update_status item IN_PROGRESS IN_RECURSION s"

text \<open>
  The loop of \<^verbatim>\<open>pull_internal\<close> over the pending nodes. It is structural in the queue; the nodes are
  not changed.
\<close>

fun pull_pending :: "'rel node list \<Rightarrow> nat list \<Rightarrow> nat \<Rightarrow> nat option \<times> nat list \<times> nat" where
  "pull_pending ns [] n = (None, [], n)"
| "pull_pending ns (item # rest) n =
    (if status (ns ! item) \<noteq> ABANDONED then (Some item, rest, n + 1)
     else pull_pending ns rest (n + 1))"

text \<open>The value that \<^verbatim>\<open>feed_and_pop\<close> of the todo list returns when it is called is an argument.\<close>

definition pull_internal ::
    "special_q \<Rightarrow> 'rel collection \<Rightarrow> tree_error + nat option \<times> 'rel collection" where
  "pull_internal q s =
    (case pull_pending (nodes s) (all_pending s) (pulled s) of
       (Some item, rest, n) \<Rightarrow> Inr (Some item, s\<lparr>all_pending := rest, pulled := n\<rparr>)
     | (None, rest, n) \<Rightarrow>
         (let s = s\<lparr>all_pending := rest, pulled := n\<rparr> in
          if \<not> sq_bool q then Inr (None, s)
          else let s = new_node_unlocked q None (s\<lparr>pulled := pulled s + 1\<rparr>);
                   item = hd (all_pending s);
                   s = s\<lparr>all_pending := tl (all_pending s)\<rparr>
               in sbind (assert_always (sq (node_at s item) = q)) (\<lambda>_.
                  sbind (assert_always (status (node_at s item) = PENDING)) (\<lambda>_.
                  Inr (Some item, s)))))"

text \<open>
  One round of the loop of \<^verbatim>\<open>pull\<close>: it returns a task, no task, or waits on the condition variable
  and tries again when it is notified.
\<close>

datatype pull_result = Pulled nat | No_task | Must_wait

definition pull :: "special_q \<Rightarrow> 'rel collection \<Rightarrow> tree_error + pull_result \<times> 'rel collection" where
  "pull q s =
    sbind (pull_internal q s) (\<lambda>(item, s).
      case item of
        None \<Rightarrow> if done_count s + abandoned s < created s then Inr (Must_wait, s) else Inr (No_task, s)
      | Some i \<Rightarrow>
          sbind (update_status i PENDING IN_PROGRESS s) (\<lambda>s.
          Inr (Pulled i, update_node i (\<lambda>n. n\<lparr>spent := - clock s\<rparr>) s)))"

definition must_avoid :: "'rel \<Rightarrow> 'rel collection \<Rightarrow> bool" where
  "must_avoid ab s = (ab \<in> set (visited s))"

text \<open>The loop over the special-q of the decision that are pushed as new nodes.\<close>

definition push_outstanding :: "nat \<Rightarrow> special_q list \<Rightarrow> 'rel collection \<Rightarrow> 'rel collection" where
  "push_outstanding item qs s = fold (\<lambda>qq s. new_node_unlocked qq (Some item) s) qs s"

definition take_decision ::
    "nat \<Rightarrow> bool \<Rightarrow> nat \<Rightarrow> 'rel collection \<Rightarrow> tree_error + 'rel collection" where
  "take_decision fuel recursive_descent item s =
    (if status (node_at s item) = ABANDONED then Inr s
     else
       sbind (assert_always (children_by_status (node_at s item) PENDING = [])) (\<lambda>_.
       sbind (assert_always (children_by_status (node_at s item) IN_PROGRESS = [])) (\<lambda>_.
       let c = contender (node_at s item);
           s = (case rel c of None \<Rightarrow> s | Some r \<Rightarrow> s\<lparr>visited := List.insert r (visited s)\<rparr>)
       in if recursive_descent
          then sbind (recurse_node_unlocked item s) (\<lambda>s.
               let s = push_outstanding item (outstanding c) s
               in if outstanding c = [] then done_node_unlocked fuel item s
                  else Inr (notify_all s))
          else done_node_unlocked fuel item s)))"

text \<open>
  \<^verbatim>\<open>abandon_node_unlocked\<close> and its loop over the children with a given status. The loop looks at
  the list again after every call, since abandoning a child changes it.
\<close>

fun abandon_node_unlocked ::
    "nat \<Rightarrow> nat \<Rightarrow> int \<Rightarrow> bool \<Rightarrow> 'rel collection \<Rightarrow> tree_error + 'rel collection"
  and abandon_children ::
    "nat \<Rightarrow> nat \<Rightarrow> status_code \<Rightarrow> int \<Rightarrow> 'rel collection \<Rightarrow> tree_error + 'rel collection" where
  "abandon_node_unlocked 0 item max_attempts recursive_failure s = Inl Out_of_fuel"
| "abandon_node_unlocked (Suc fuel) item max_attempts recursive_failure s =
    (if status (node_at s item) = ABANDONED then Inr s
     else
       sbind (abandon_children fuel item PENDING max_attempts s) (\<lambda>s.
       sbind (abandon_children fuel item IN_PROGRESS max_attempts s) (\<lambda>s.
       sbind (abandon_children fuel item IN_RECURSION max_attempts s) (\<lambda>s.
       let st = status (node_at s item) in
       if recursive_failure
       then (if st \<noteq> DONE
             then update_status item st ABANDONED
                    (s\<lparr>abandoned := abandoned s + (if item \<noteq> 0 then 1 else 0)\<rparr>)
             else Inr s)
       else
         sbind (assert_always (st \<in> {IN_PROGRESS, IN_RECURSION})) (\<lambda>_.
         if \<not> sq_bool (sq (node_at s item))
         then update_status item st ABANDONED
                (s\<lparr>abandoned := abandoned s + (if item \<noteq> 0 then 1 else 0)\<rparr>)
         else if try_again (node_at s item) < max_attempts
         then let s = update_node item (\<lambda>n. n\<lparr>spent := spent n + clock s,
                        try_again := try_again n + 1\<rparr>) s;
                  s = s\<lparr>all_pending := all_pending s @ [item]\<rparr>
              in update_status item st PENDING s
         else
           sbind (assert_always (item \<noteq> 0)) (\<lambda>_.
           let s = update_node item (\<lambda>n. n\<lparr>spent := spent n + clock s\<rparr>) s;
               s = s\<lparr>abandoned := abandoned s + 1\<rparr>
           in sbind (update_status item st ABANDONED s) (\<lambda>s.
              abandon_node_unlocked fuel (the (parent (node_at s item))) max_attempts False s)))))))"
| "abandon_children 0 item st max_attempts s = Inl Out_of_fuel"
| "abandon_children (Suc fuel) item st max_attempts s =
    (case children_by_status (node_at s item) st of
       [] \<Rightarrow> Inr s
     | c # _ \<Rightarrow>
         sbind (abandon_node_unlocked fuel c max_attempts True s) (\<lambda>s.
         abandon_children fuel item st max_attempts s))"

definition abandon_node :: "nat \<Rightarrow> nat \<Rightarrow> int \<Rightarrow> 'rel collection \<Rightarrow> tree_error + 'rel collection" where
  "abandon_node fuel item max_attempts s = abandon_node_unlocked fuel item max_attempts False s"

definition postprocess ::
    "nat \<Rightarrow> bool \<Rightarrow> nat \<Rightarrow> int \<Rightarrow> 'rel collection \<Rightarrow> tree_error + 'rel collection" where
  "postprocess fuel recursive_descent tt max_attempts s =
    (if rel (contender (node_at s tt)) \<noteq> None
     then take_decision fuel recursive_descent tt s
     else abandon_node fuel tt max_attempts s)"

section \<open>The simple collection\<close>

text \<open>
  Outside the descent, a task is a special-q with a status and a collection only keeps the
  history of its tasks.
\<close>

record simple_task =
  simple_sq :: special_q
  simple_status :: status_code

record simple_collection =
  simple_created :: nat
  simple_pulled :: nat
  history :: "simple_task list"

definition simple_update_status ::
    "status_code \<Rightarrow> status_code \<Rightarrow> simple_task \<Rightarrow> tree_error + simple_task" where
  "simple_update_status before after t =
    sbind (assert_always (simple_status t = before)) (\<lambda>_. Inr (t\<lparr>simple_status := after\<rparr>))"

definition simple_pull :: "special_q \<Rightarrow> simple_collection \<Rightarrow> simple_task option \<times> simple_collection" where
  "simple_pull q s =
    (if \<not> sq_bool q then (None, s)
     else let kid = \<lparr>simple_sq = q, simple_status = PENDING\<rparr>
          in (Some kid, s\<lparr>simple_created := simple_created s + 1, simple_pulled := simple_pulled s + 1,
                history := history s @ [kid]\<rparr>))"

text \<open>The one-letter codes of the tree display.\<close>

fun shortcode :: "status_code \<Rightarrow> string" where
  "shortcode PENDING = ''?''"
| "shortcode DONE = ''.''"
| "shortcode ABANDONED = ''#''"
| "shortcode IN_PROGRESS = ''/''"
| "shortcode IN_RECURSION = ''*''"

end
