(* ===== verification/TaskTreeInv.thy ===== *)
theory TaskTreeInv
  imports TaskTree
begin

text \<open>
  The invariant of the special-q task tree and its preservation by the operations on nodes:
  changing a status, creating, finishing and abandoning nodes. The lemmas also give the fuel that
  the recursive operations need and the statuses that they change.
\<close>

section \<open>Reading the state\<close>

definition stat :: "'rel collection \<Rightarrow> nat \<Rightarrow> status_code" where
  "stat s i = status (node_at s i)"

definition par :: "'rel collection \<Rightarrow> nat \<Rightarrow> nat option" where
  "par s i = parent (node_at s i)"

definition key :: "'rel collection \<Rightarrow> nat \<Rightarrow> special_q" where
  "key s i = sq (node_at s i)"

definition kids :: "'rel collection \<Rightarrow> nat \<Rightarrow> status_code \<Rightarrow> nat list" where
  "kids s i = children_by_status (node_at s i)"

definition cand :: "'rel collection \<Rightarrow> nat \<Rightarrow> 'rel candidate" where
  "cand s i = contender (node_at s i)"

definition size_of :: "'rel collection \<Rightarrow> nat" where
  "size_of s = length (nodes s)"

definition live :: "status_code \<Rightarrow> bool" where
  "live st = (st \<in> {PENDING, IN_PROGRESS, IN_RECURSION})"

lemmas read_defs = stat_def par_def key_def kids_def cand_def

lemma live_simps [simp]: "live PENDING" "live IN_PROGRESS" "live IN_RECURSION" "\<not> live DONE"
  "\<not> live ABANDONED"
  by (simp_all add: live_def)

lemma sbind_simps [simp]: "sbind (Inr x) f = f x" "sbind (Inl e) f = Inl e"
  by (simp_all add: sbind_def)

lemma assert_always_simps [simp]:
  "assert_always True = Inr ()" "assert_always False = Inl Assertion_failed"
  by (simp_all add: assert_always_def)

lemma node_at_update [simp]:
  "i < size_of s \<Longrightarrow> node_at (update_node i f s) j = (if j = i then f (node_at s i) else node_at s j)"
  by (simp add: node_at_def update_node_def size_of_def nth_list_update)

lemma update_node_fields [simp]:
  "visited (update_node i f s) = visited s" "all_pending (update_node i f s) = all_pending s"
  "created (update_node i f s) = created s" "pulled (update_node i f s) = pulled s"
  "done_count (update_node i f s) = done_count s" "abandoned (update_node i f s) = abandoned s"
  "notified (update_node i f s) = notified s" "clock (update_node i f s) = clock s"
  "size_of (update_node i f s) = size_of s"
  by (simp_all add: update_node_def size_of_def)

lemma node_at_fields [simp]:
  "node_at (s\<lparr>visited := v\<rparr>) = node_at s" "node_at (s\<lparr>all_pending := q\<rparr>) = node_at s"
  "node_at (s\<lparr>created := n\<rparr>) = node_at s" "node_at (s\<lparr>pulled := n\<rparr>) = node_at s"
  "node_at (s\<lparr>done_count := n\<rparr>) = node_at s" "node_at (s\<lparr>abandoned := n\<rparr>) = node_at s"
  "node_at (s\<lparr>notified := n\<rparr>) = node_at s"
  by (simp_all add: node_at_def fun_eq_iff)

lemma size_of_fields [simp]:
  "size_of (s\<lparr>visited := v\<rparr>) = size_of s" "size_of (s\<lparr>all_pending := q\<rparr>) = size_of s"
  "size_of (s\<lparr>created := n\<rparr>) = size_of s" "size_of (s\<lparr>pulled := n\<rparr>) = size_of s"
  "size_of (s\<lparr>done_count := n\<rparr>) = size_of s" "size_of (s\<lparr>abandoned := n\<rparr>) = size_of s"
  "size_of (s\<lparr>notified := n\<rparr>) = size_of s"
  by (simp_all add: size_of_def)

lemma set_set_insert:
  "(\<And>y. y \<in> set xs \<Longrightarrow> f y \<noteq> f x) \<Longrightarrow> set (set_insert f x xs) = insert x (set xs)"
proof (induction xs)
  case (Cons y ys)
  then have "f x < f y \<or> f y < f x"
    by (metis list.set_intros(1) neqE)
  then show ?case
    using Cons by auto
qed simp

lemma distinct_set_insert:
  "(\<And>y. y \<in> set xs \<Longrightarrow> f y \<noteq> f x) \<Longrightarrow> distinct xs \<Longrightarrow> distinct (set_insert f x xs)"
proof (induction xs)
  case (Cons y ys)
  then have "set (set_insert f x ys) = insert x (set ys)"
    by (intro set_set_insert) auto
  then show ?case
    using Cons by auto
qed auto

lemma set_erase_unique:
  assumes "x \<in> set xs" "distinct xs" "\<And>y. y \<in> set xs \<Longrightarrow> y \<noteq> x \<Longrightarrow> f y \<noteq> f x"
  shows "set (set_erase f x xs) = set xs - {x} \<and> distinct (set_erase f x xs)
    \<and> length xs = Suc (length (set_erase f x xs))"
  using assms
proof (induction xs)
  case (Cons y ys)
  show ?case
  proof (cases "y = x")
    case True
    then show ?thesis
      using Cons.prems by auto
  next
    case False
    then have "f y \<noteq> f x"
      using Cons.prems by simp
    then have e: "set_erase f x (y # ys) = y # set_erase f x ys"
      by (auto simp: not_less_iff_gr_or_eq)
    have "set (set_erase f x ys) = set ys - {x} \<and> distinct (set_erase f x ys)
        \<and> length ys = Suc (length (set_erase f x ys))"
      using Cons False by auto
    then show ?thesis
      unfolding e using Cons.prems False by auto
  qed
qed auto

section \<open>The structure of the tree\<close>

text \<open>
  Each set of children of a node is in the strict order of the special-q, holds only children with
  its status, and the special-q of every such child is in it. (Of two finished children with the
  same special-q, which a retry can make, the set keeps the first.)
\<close>

definition child_set :: "'rel collection \<Rightarrow> nat \<Rightarrow> status_code \<Rightarrow> nat set" where
  "child_set s p st = {c. c < size_of s \<and> par s c = Some p \<and> stat s c = st}"

definition ordered_kids :: "(nat \<Rightarrow> special_q) \<Rightarrow> nat set \<Rightarrow> nat list \<Rightarrow> bool" where
  "ordered_kids f C xs =
    (sorted_wrt (\<lambda>c d. f c < f d) xs \<and> set xs \<subseteq> C \<and> f ` C \<subseteq> f ` set xs)"

definition sets_ok :: "'rel collection \<Rightarrow> bool" where
  "sets_ok s = (\<forall>p < size_of s. \<forall>st. ordered_kids (key s) (child_set s p st) (kids s p st))"

lemma sets_okD: "sets_ok s \<Longrightarrow> p < size_of s \<Longrightarrow> ordered_kids (key s) (child_set s p st) (kids s p st)"
  by (simp add: sets_ok_def)

lemma ordered_kids_cong:
  assumes "ordered_kids f C xs" "\<And>c. c \<in> C \<Longrightarrow> g c = f c"
  shows "ordered_kids g C xs"
proof -
  have "g c = f c" if "c \<in> set xs" for c
    using assms that by (auto simp: ordered_kids_def)
  then have "sorted_wrt (\<lambda>c d. g c < g d) xs"
    using assms(1) by (auto simp: ordered_kids_def intro: sorted_wrt_mono_rel [of xs "\<lambda>c d. f c < f d"])
  moreover have "g ` C = f ` C" "g ` set xs = f ` set xs" "set xs \<subseteq> C"
    using assms by (auto simp: ordered_kids_def intro!: image_cong)
  ultimately show ?thesis
    using assms(1) by (simp add: ordered_kids_def)
qed

lemma set_insert_keys:
  "f ` set (set_insert f x xs) = insert (f x) (f ` set xs) \<and> set (set_insert f x xs) \<subseteq> insert x (set xs)"
  by (induction xs) (auto simp: not_less_iff_gr_or_eq)

lemma ordered_kids_insert:
  assumes "ordered_kids f C xs"
  shows "ordered_kids f (insert i C) (set_insert f i xs)"
proof -
  have "sorted_wrt (\<lambda>c d. f c < f d) xs \<Longrightarrow> sorted_wrt (\<lambda>c d. f c < f d) (set_insert f i xs)"
  proof (induction xs)
    case (Cons y ys)
    have "\<forall>c \<in> set (set_insert f i ys). f y < f c" if "f y < f i"
      using set_insert_keys [of f i ys] Cons.prems that by auto
    then show ?case
      using Cons by (auto dest: less_trans)
  qed simp
  then show ?thesis
    using assms set_insert_keys [of f i xs] by (auto simp: ordered_kids_def)
qed

lemma ordered_kids_erase:
  assumes "ordered_kids f C xs" "i \<in> C" "\<And>c. c \<in> C \<Longrightarrow> c \<noteq> i \<Longrightarrow> f c \<noteq> f i"
  shows "ordered_kids f (C - {i}) (set_erase f i xs)"
proof -
  have s: "sorted_wrt (\<lambda>c d. f c < f d) xs" and sub: "set xs \<subseteq> C" "f ` C \<subseteq> f ` set xs"
    using assms(1) by (simp_all add: ordered_kids_def)
  have keys: "set xs \<subseteq> C \<Longrightarrow> sorted_wrt (\<lambda>c d. f c < f d) xs \<Longrightarrow> set (set_erase f i xs) = set xs - {i}
      \<and> sorted_wrt (\<lambda>c d. f c < f d) (set_erase f i xs)"
  proof (induction xs)
    case (Cons y ys)
    show ?case
    proof (cases "y = i")
      case True
      then show ?thesis
        using Cons.prems by auto
    next
      case False
      then have "f y \<noteq> f i"
        using Cons.prems(1) assms(3) by auto
      then have "set_erase f i (y # ys) = y # set_erase f i ys"
        by (auto simp: not_less_iff_gr_or_eq)
      then show ?thesis
        using Cons False by auto
    qed
  qed simp
  have "f ` (C - {i}) \<subseteq> f ` (set xs - {i})"
  proof
    fix k
    assume "k \<in> f ` (C - {i})"
    then obtain c where c: "c \<in> C" "c \<noteq> i" "k = f c"
      by blast
    then obtain x where "x \<in> set xs" "f x = f c"
      using sub(2) by (metis image_iff subsetD)
    then show "k \<in> f ` (set xs - {i})"
      using c assms(3) by (metis DiffI imageI singletonD)
  qed
  then show ?thesis
    using keys [OF sub(1) s] sub(1) by (auto simp: ordered_kids_def)
qed

lemma sets_ok_same:
  assumes "sets_ok s" "size_of s' = size_of s"
    and "\<And>i. i < size_of s \<Longrightarrow> par s' i = par s i \<and> key s' i = key s i \<and> kids s' i = kids s i
      \<and> (par s i \<noteq> None \<longrightarrow> stat s' i = stat s i)"
  shows "sets_ok s'"
  unfolding sets_ok_def assms(2)
proof (intro allI impI)
  fix p st
  assume p: "p < size_of s"
  have "child_set s' p st = child_set s p st"
    using assms(2,3) by (auto simp: child_set_def)
  moreover have "ordered_kids (key s') (child_set s p st) (kids s p st)"
    using sets_okD [OF assms(1) p] by (rule ordered_kids_cong) (use assms(3) in \<open>auto simp: child_set_def\<close>)
  ultimately show "ordered_kids (key s') (child_set s' p st) (kids s' p st)"
    using assms(3) [OF p] by simp
qed

text \<open>
  Parents come before their children, the sets of a node with a live status are the sets of its
  children with that status, and the live children of a node have different special-q.
\<close>

definition struct_ok :: "'rel collection \<Rightarrow> bool" where
  "struct_ok s =
    (0 < size_of s \<and> par s 0 = None \<and> \<not> sq_bool (key s 0)
     \<and> (\<forall>i < size_of s. 0 < i \<longrightarrow> (\<exists>p<i. par s i = Some p) \<and> sq_bool (key s i))
     \<and> (\<forall>p < size_of s. \<forall>st. live st \<longrightarrow> distinct (kids s p st)
          \<and> set (kids s p st) = {c. c < size_of s \<and> par s c = Some p \<and> stat s c = st})
     \<and> (\<forall>c < size_of s. \<forall>d < size_of s. c \<noteq> d \<longrightarrow> par s c = par s d \<longrightarrow> live (stat s c)
          \<longrightarrow> live (stat s d) \<longrightarrow> key s c \<noteq> key s d)
     \<and> sets_ok s)"

definition same_shape :: "'rel collection \<Rightarrow> 'rel collection \<Rightarrow> bool" where
  "same_shape s s' =
    (size_of s' = size_of s
     \<and> (\<forall>i < size_of s. par s' i = par s i \<and> key s' i = key s i \<and> cand s' i = cand s i))"

lemma same_shape_refl [simp]: "same_shape s s"
  by (simp add: same_shape_def)

lemma same_shape_trans [trans]: "same_shape s t \<Longrightarrow> same_shape t u \<Longrightarrow> same_shape s u"
  by (simp add: same_shape_def)

lemma struct_par:
  assumes "struct_ok s" "0 < i" "i < size_of s"
  obtains p where "par s i = Some p" "p < i" "p < size_of s"
proof -
  obtain p where "p < i" "par s i = Some p"
    using assms unfolding struct_ok_def by blast
  then show thesis
    using that assms(3) by simp
qed

lemma struct_kids:
  assumes "struct_ok s" "p < size_of s" "live st"
  shows "distinct (kids s p st)"
    "set (kids s p st) = {c. c < size_of s \<and> par s c = Some p \<and> stat s c = st}"
  using assms by (auto simp: struct_ok_def)

lemma struct_keys:
  assumes "struct_ok s" "c < size_of s" "d < size_of s" "c \<noteq> d" "par s c = par s d"
    "live (stat s c)" "live (stat s d)"
  shows "key s c \<noteq> key s d"
  using assms unfolding struct_ok_def by blast

text \<open>Changing the status of a node that has a parent.\<close>

lemma update_status_nodes:
  assumes p: "par s i = Some p" "p < i" "i < size_of s" and ne: "after \<noteq> stat s i"
    and found: "length (kids s p (stat s i)) \<noteq> length (set_erase (key s) i (kids s p (stat s i)))"
  shows "\<exists>s'. update_status i (stat s i) after s = Inr s' \<and> size_of s' = size_of s
    \<and> (\<forall>j < size_of s. par s' j = par s j \<and> key s' j = key s j \<and> cand s' j = cand s j
        \<and> stat s' j = (if j = i then after else stat s j)
        \<and> try_again (node_at s' j) = try_again (node_at s j)
        \<and> kids s' j = (if j = p then (kids s p)
            (after := set_insert (key s) i (kids s p after),
             stat s i := set_erase (key s) i (kids s p (stat s i))) else kids s j))
    \<and> s'\<lparr>nodes := nodes s\<rparr> = s"
proof -
  let ?b = "stat s i"
  define s1 where "s1 = update_node i (\<lambda>n. n\<lparr>status := after\<rparr>) s"
  define s2 where "s2 = update_node p (\<lambda>n. n\<lparr>children_by_status := (children_by_status n)
      (after := set_insert (key s) i (children_by_status n after))\<rparr>) s1"
  define s3 where "s3 = update_node p (\<lambda>n. n\<lparr>children_by_status := (children_by_status n)
      (?b := set_erase (key s) i (kids s p ?b))\<rparr>) s2"
  have sz: "size_of s1 = size_of s" "size_of s2 = size_of s" "size_of s3 = size_of s"
    by (simp_all add: s1_def s2_def s3_def)
  have p': "p < size_of s" "p \<noteq> i"
    using p by auto
  have k: "(\<lambda>j. sq (node_at s1 j)) = key s"
    using p(3) by (auto simp: s1_def key_def fun_eq_iff)
  have L: "children_by_status (node_at s2 p) ?b = kids s p ?b"
    using p' p(3) ne by (simp add: s2_def s1_def kids_def)
  have "update_status i ?b after s = update_child_status p i ?b after s"
    using p(1) by (simp add: update_status_def par_def)
  also have "\<dots> = Inr s3"
    using found
    unfolding update_child_status_def Let_def s1_def [symmetric]
    unfolding k
    unfolding s2_def [symmetric]
    unfolding L
    unfolding s3_def [symmetric]
    by (simp add: stat_def [symmetric])
  finally have upd: "update_status i ?b after s = Inr s3" .
  have at: "node_at s3 j = (if j = i then (node_at s i)\<lparr>status := after\<rparr>
      else if j = p then (node_at s p)\<lparr>children_by_status := (kids s p)
            (after := set_insert (key s) i (kids s p after),
             ?b := set_erase (key s) i (kids s p ?b))\<rparr>
      else node_at s j)" for j
    using p' p(3) ne by (simp add: s3_def s2_def s1_def kids_def)
  have "s3\<lparr>nodes := nodes s\<rparr> = s"
    by (simp add: s3_def s2_def s1_def update_node_def)
  then show ?thesis
    using upd sz p' by (auto simp: read_defs at)
qed

lemma update_status_ok:
  assumes ok: "struct_ok s" and i: "0 < i" "i < size_of s" and lv: "live (stat s i)"
    and ne: "after \<noteq> stat s i"
  obtains s' where "update_status i (stat s i) after s = Inr s'" "struct_ok s'" "same_shape s s'"
    "\<forall>j < size_of s. stat s' j = (if j = i then after else stat s j)"
    "\<forall>j < size_of s. try_again (node_at s' j) = try_again (node_at s j)"
    "s'\<lparr>nodes := nodes s\<rparr> = s"
proof -
  obtain p where p: "par s i = Some p" "p < i" "p < size_of s"
    using struct_par [OF ok i] .
  define b where "b = stat s i"
  note kb = struct_kids [OF ok p(3) lv]
  have ib: "i \<in> set (kids s p b)"
    using kb(2) p i(2) by (simp add: b_def)
  have uniq: "key s y \<noteq> key s i" if "y < size_of s" "par s y = Some p" "live (stat s y)" "y \<noteq> i" for y
    using struct_keys [OF ok that(1) i(2) that(4)] that p lv by simp
  have er: "set (set_erase (key s) i (kids s p b)) = set (kids s p b) - {i}
      \<and> distinct (set_erase (key s) i (kids s p b))
      \<and> length (kids s p b) = Suc (length (set_erase (key s) i (kids s p b)))"
    using kb uniq lv ib by (intro set_erase_unique) (auto simp: b_def)
  obtain s' where s': "update_status i b after s = Inr s'" "size_of s' = size_of s"
    and at: "\<And>j. j < size_of s \<Longrightarrow> par s' j = par s j \<and> key s' j = key s j \<and> cand s' j = cand s j
        \<and> stat s' j = (if j = i then after else stat s j)
        \<and> try_again (node_at s' j) = try_again (node_at s j)
        \<and> kids s' j = (if j = p then (kids s p)
            (after := set_insert (key s) i (kids s p after),
             b := set_erase (key s) i (kids s p b)) else kids s j)"
    and fr: "s'\<lparr>nodes := nodes s\<rparr> = s"
    using update_status_nodes [OF p(1,2) i(2) ne] er unfolding b_def by auto
  have ins: "set (set_insert (key s) i (kids s p after)) = insert i (set (kids s p after))
      \<and> distinct (set_insert (key s) i (kids s p after))" if "live after"
  proof -
    note ka = struct_kids [OF ok p(3) that]
    have "key s y \<noteq> key s i" if "y \<in> set (kids s p after)" for y
      using that ka(2) uniq \<open>live after\<close> ne by auto
    then show ?thesis
      using set_set_insert distinct_set_insert ka(1) by blast
  qed
  have kids': "distinct (kids s' q st)
      \<and> set (kids s' q st) = {c. c < size_of s \<and> par s c = Some q \<and> stat s' c = st}"
    if "q < size_of s" "live st" for q st
  proof -
    have old: "distinct (kids s q st)"
      "set (kids s q st) = {c. c < size_of s \<and> par s c = Some q \<and> stat s c = st}"
      using struct_kids [OF ok that] .
    have st': "stat s' c = (if c = i then after else stat s c)" if "c < size_of s" for c
      using at [OF that] by blast
    show ?thesis
    proof (cases "q = p")
      case False
      have "kids s' q = kids s q"
        using at [OF that(1)] False by simp
      moreover have "{c. c < size_of s \<and> par s c = Some q \<and> stat s' c = st}
          = {c. c < size_of s \<and> par s c = Some q \<and> stat s c = st}"
        using st' False p(1) by auto
      ultimately show ?thesis
        using old by simp
    next
      case True
      have kp: "kids s' q = (kids s p)(after := set_insert (key s) i (kids s p after),
             b := set_erase (key s) i (kids s p b))"
        using at [OF p(3)] True by simp
      consider "st = b" | "st = after" "st \<noteq> b" | "st \<noteq> b" "st \<noteq> after"
        by blast
      then show ?thesis
      proof cases
        case 1
        moreover have "{c. c < size_of s \<and> par s c = Some p \<and> stat s' c = b} = set (kids s p b) - {i}"
          using kb(2) st' ne by (auto simp: b_def split: if_splits)
        ultimately show ?thesis
          using er kp True by simp
      next
        case 2
        moreover have "{c. c < size_of s \<and> par s c = Some p \<and> stat s' c = after}
            = insert i (set (kids s p after))"
          using old(2) st' True 2 p(1) i(2) by auto
        ultimately show ?thesis
          using ins that(2) kp True by simp
      next
        case 3
        moreover have "{c. c < size_of s \<and> par s c = Some p \<and> stat s' c = st}
            = {c. c < size_of s \<and> par s c = Some p \<and> stat s c = st}"
          using st' 3 by (auto simp: b_def split: if_splits)
        ultimately show ?thesis
          using old kp True by simp
      qed
    qed
  qed
  have sets': "sets_ok s'"
    unfolding sets_ok_def s'(2)
  proof (intro allI impI)
    fix q st
    assume q: "q < size_of s"
    have o: "ordered_kids (key s) (child_set s q x) (kids s q x)" for x
      using ok q by (simp add: struct_ok_def sets_okD)
    have cs: "child_set s' q st = (if q = p \<and> st = after then insert i (child_set s q st)
        else if q = p \<and> st = b then child_set s q st - {i} else child_set s q st)"
      using at p(1) i(2) ne by (auto simp: child_set_def s'(2) b_def split: if_splits)
    have ks: "kids s' q st = (if q = p \<and> st = after then set_insert (key s) i (kids s p after)
        else if q = p \<and> st = b then set_erase (key s) i (kids s p b) else kids s q st)"
      using at [OF q] ne by (auto simp: b_def)
    have mem: "i \<in> child_set s p b" "\<And>c. c \<in> child_set s p b \<Longrightarrow> c \<noteq> i \<Longrightarrow> key s c \<noteq> key s i"
      using p(1) i(2) uniq lv by (auto simp: child_set_def b_def)
    have "ordered_kids (key s) (child_set s' q st) (kids s' q st)"
      unfolding cs ks using o ordered_kids_insert [of "key s"] ordered_kids_erase [OF o _ mem(2)] mem(1) by auto
    then show "ordered_kids (key s') (child_set s' q st) (kids s' q st)"
      by (rule ordered_kids_cong) (use at s'(2) in \<open>auto simp: child_set_def\<close>)
  qed
  have keys': "key s c \<noteq> key s d" if "c < size_of s" "d < size_of s" "c \<noteq> d" "par s c = par s d"
    "live (stat s' c)" "live (stat s' d)" for c d
  proof -
    have "live (stat s c)" "live (stat s d)"
      using that at [OF that(1)] at [OF that(2)] lv by (auto split: if_splits)
    then show ?thesis
      using struct_keys [OF ok that(1-4)] by blast
  qed
  have shape: "same_shape s s'"
    using s'(2) at by (simp add: same_shape_def)
  have "struct_ok s'"
    using ok kids' keys' sets' shape unfolding struct_ok_def same_shape_def by auto
  then show thesis
    using that s'(1) shape at fr unfolding b_def by blast
qed

section \<open>The invariant of the collection\<close>

text \<open>
  A live node is below the root or below a node in recursion. The root is in recursion until it
  fails.
\<close>

definition order_ok :: "'rel collection \<Rightarrow> bool" where
  "order_ok s =
    (stat s 0 \<in> {IN_RECURSION, ABANDONED}
     \<and> (\<forall>i < size_of s. \<forall>p. live (stat s i) \<longrightarrow> par s i = Some p \<longrightarrow> p = 0 \<or> stat s p = IN_RECURSION))"

text \<open>The queue holds every pending node once, and else only abandoned nodes.\<close>

definition queue_ok :: "'rel collection \<Rightarrow> bool" where
  "queue_ok s =
    ((\<forall>i\<in>set (all_pending s). 0 < i \<and> i < size_of s \<and> stat s i \<in> {PENDING, ABANDONED})
     \<and> distinct (filter (\<lambda>i. stat s i = PENDING) (all_pending s))
     \<and> (\<forall>i < size_of s. stat s i = PENDING \<longrightarrow> i \<in> set (all_pending s)))"

text \<open>The counters agree with the tree; the root does not count.\<close>

definition tally :: "'rel collection \<Rightarrow> status_code \<Rightarrow> nat" where
  "tally s st = card {i. 0 < i \<and> i < size_of s \<and> stat s i = st}"

definition counts_ok :: "'rel collection \<Rightarrow> bool" where
  "counts_ok s =
    (Suc (created s) = size_of s \<and> done_count s = tally s DONE \<and> abandoned s = tally s ABANDONED)"

text \<open>The special-q that a candidate relation leaves to be split are valid and different.\<close>

definition cand_ok :: "'rel collection \<Rightarrow> bool" where
  "cand_ok s =
    (\<forall>i < size_of s. distinct (outstanding (cand s i))
       \<and> (\<forall>q\<in>set (outstanding (cand s i)). sq_bool q))"

text \<open>Except for the nodes of a set, a node in recursion has a live child.\<close>

definition rec_ok :: "nat set \<Rightarrow> 'rel collection \<Rightarrow> bool" where
  "rec_ok X s =
    (\<forall>i < size_of s. 0 < i \<longrightarrow> i \<notin> X \<longrightarrow> stat s i = IN_RECURSION
       \<longrightarrow> (\<exists>c < size_of s. par s c = Some i \<and> live (stat s c)))"

definition tree_ok :: "'rel collection \<Rightarrow> bool" where
  "tree_ok s = (struct_ok s \<and> order_ok s \<and> queue_ok s \<and> counts_ok s \<and> cand_ok s)"

definition tree_inv :: "'rel collection \<Rightarrow> bool" where
  "tree_inv s = (tree_ok s \<and> rec_ok {} s)"

definition childless :: "nat \<Rightarrow> 'rel collection \<Rightarrow> bool" where
  "childless i s = (\<forall>c < size_of s. par s c = Some i \<longrightarrow> \<not> live (stat s c))"

lemma no_live_children_iff:
  assumes "struct_ok s" "i < size_of s"
  shows "no_live_children i s = childless i s"
proof -
  have "(kids s i st = []) = (\<forall>c < size_of s. par s c = Some i \<longrightarrow> stat s c \<noteq> st)" if "live st" for st
    using struct_kids(2) [OF assms that] by (cases "kids s i st") auto
  then show ?thesis
    by (auto simp: no_live_children_def childless_def live_def kids_def [symmetric])
qed

lemma fields_eq:
  assumes "s'\<lparr>nodes := nodes s\<rparr> = s"
  shows "visited s' = visited s" "all_pending s' = all_pending s" "created s' = created s"
    "pulled s' = pulled s" "done_count s' = done_count s" "abandoned s' = abandoned s"
    "notified s' = notified s" "clock s' = clock s"
  using arg_cong [OF assms, of visited] arg_cong [OF assms, of all_pending]
    arg_cong [OF assms, of created] arg_cong [OF assms, of pulled]
    arg_cong [OF assms, of done_count] arg_cong [OF assms, of abandoned]
    arg_cong [OF assms, of notified] arg_cong [OF assms, of clock]
  by simp_all

lemma tally_change:
  assumes "0 < i" "i < size_of s" "size_of s' = size_of s" "after \<noteq> stat s i"
    and "\<forall>j < size_of s. stat s' j = (if j = i then after else stat s j)"
  shows "tally s' x =
    (if x = after then tally s x + 1 else if x = stat s i then tally s x - 1 else tally s x)"
proof -
  define A where "A = {j. 0 < j \<and> j < size_of s \<and> stat s j = x}"
  have fin: "finite A"
    by (rule finite_subset [of _ "{..<size_of s}"]) (auto simp: A_def)
  have new: "{j. 0 < j \<and> j < size_of s' \<and> stat s' j = x} =
      (if x = after then insert i A else if x = stat s i then A - {i} else A)"
    using assms by (auto simp: A_def split: if_splits)
  have mem: "(i \<in> A) = (x = stat s i)" and old: "tally s x = card A"
    using assms by (auto simp: A_def tally_def)
  consider "x = after" | "x = stat s i" "x \<noteq> after" | "x \<noteq> stat s i" "x \<noteq> after"
    by blast
  then show ?thesis
  proof cases
    case 1
    then have "i \<notin> A"
      using mem assms(4) by simp
    then show ?thesis
      using 1 new fin old by (simp add: tally_def [of s'])
  next
    case 2
    then show ?thesis
      using new mem fin old by (simp add: tally_def [of s'])
  next
    case 3
    then show ?thesis
      using new old by (simp add: tally_def [of s'])
  qed
qed

lemma tally_pos:
  assumes "0 < i" "i < size_of s"
  shows "0 < tally s (stat s i)"
proof -
  have "finite {j. 0 < j \<and> j < size_of s \<and> stat s j = stat s i}"
    by (rule finite_subset [of _ "{..<size_of s}"]) auto
  then show ?thesis
    using assms by (auto simp: tally_def card_gt_0_iff)
qed

text \<open>The change of one status, with what it does to the parts of the invariant.\<close>

lemma change_status:
  assumes ok: "struct_ok s" "order_ok s" "cand_ok s" and i: "0 < i" "i < size_of s"
    and lv: "live (stat s i)" and ne: "after \<noteq> stat s i"
    and ch: "after = IN_RECURSION \<or> childless i s"
  obtains s' where "update_status i (stat s i) after s = Inr s'"
    "struct_ok s'" "order_ok s'" "cand_ok s'" "same_shape s s'"
    "\<forall>j < size_of s. stat s' j = (if j = i then after else stat s j)"
    "\<forall>j < size_of s. try_again (node_at s' j) = try_again (node_at s j)"
    "s'\<lparr>nodes := nodes s\<rparr> = s"
proof -
  obtain s' where s': "update_status i (stat s i) after s = Inr s'" "struct_ok s'" "same_shape s s'"
    and st: "\<forall>j < size_of s. stat s' j = (if j = i then after else stat s j)"
    and rest: "\<forall>j < size_of s. try_again (node_at s' j) = try_again (node_at s j)"
      "s'\<lparr>nodes := nodes s\<rparr> = s"
    using update_status_ok [OF ok(1) i lv ne] .
  have sz: "size_of s' = size_of s"
    using s'(3) by (simp add: same_shape_def)
  have sh: "par s' j = par s j" "cand s' j = cand s j" if "j < size_of s" for j
    using s'(3) that by (simp_all add: same_shape_def)
  have "0 < size_of s"
    using i by simp
  have "p = 0 \<or> stat s' p = IN_RECURSION"
    if j: "j < size_of s" "live (stat s' j)" "par s j = Some p" for j p
  proof (cases "p = i")
    case True
    then have "live (stat s j)"
      using j st i struct_par [OF ok(1), of j] lv by (auto split: if_splits)
    then have "\<not> childless i s"
      using j True by (auto simp: childless_def)
    then show ?thesis
      using ch True st i by simp
  next
    case False
    have "0 < j"
      using ok(1) j(3) by (cases "j = 0") (auto simp: struct_ok_def)
    then have "p < size_of s"
      using struct_par [OF ok(1) _ j(1)] j(3) j(1) by (metis option.inject)
    moreover have "live (stat s j)"
      using j(1,2) st lv by (auto split: if_splits)
    ultimately show ?thesis
      using ok(2) j False st unfolding order_ok_def by auto
  qed
  then have "order_ok s'"
    using ok(2) st i sh \<open>0 < size_of s\<close> by (auto simp: order_ok_def sz)
  moreover have "cand_ok s'"
    using ok(3) sh by (simp add: cand_ok_def sz)
  ultimately show thesis
    using that s' st rest by blast
qed

section \<open>New nodes\<close>

lemma new_node_at:
  fixes s :: "'a collection"
  assumes p: "p < size_of s" "p = (case par' of None \<Rightarrow> 0 | Some p \<Rightarrow> p)"
    and s'_def: "s' = new_node_unlocked q par' s"
  shows "size_of s' = Suc (size_of s)"
    "all_pending s' = all_pending s @ [size_of s]" "created s' = created s + 1"
    "done_count s' = done_count s" "abandoned s' = abandoned s" "notified s' = notified s"
    "visited s' = visited s" "pulled s' = pulled s"
    "\<And>j. j < size_of s \<Longrightarrow> stat s' j = stat s j \<and> par s' j = par s j \<and> key s' j = key s j
      \<and> cand s' j = cand s j"
    "stat s' (size_of s) = PENDING" "par s' (size_of s) = Some p" "key s' (size_of s) = q"
    "cand s' (size_of s) = \<lparr>rel = None, outstanding = []\<rparr>" "kids s' (size_of s) st = []"
    "\<And>j. j < size_of s \<Longrightarrow> kids s' j = (if j = p
       then (kids s p)(PENDING := set_insert (key s') (size_of s) (kids s p PENDING)) else kids s j)"
proof -
  define n where "n = size_of s"
  define s1 where "s1 = s\<lparr>nodes := nodes s @ [new_tree_node q (Some p) (1 + root_depth (node_at s p))],
      all_pending := all_pending s @ [n]\<rparr>"
  define f where "f = (\<lambda>m :: 'a node. m\<lparr>children_by_status := (children_by_status m)
      (PENDING := set_insert (\<lambda>i. sq (node_at s1 i)) n (children_by_status m PENDING)),
      children := children m @ [n]\<rparr>)"
  have s': "s' = (update_node p f s1)\<lparr>created := created (update_node p f s1) + 1\<rparr>"
    unfolding s'_def new_node_unlocked_def Let_def p(2) [symmetric]
    by (simp add: s1_def f_def n_def size_of_def)
  have n1: "size_of s1 = Suc n"
    by (simp add: s1_def n_def size_of_def)
  have p1: "p < size_of s1" "p \<noteq> n"
    using p n1 by (auto simp: n_def)
  have at1: "node_at s1 j = (if j < n then node_at s j
      else new_tree_node q (Some p) (1 + root_depth (node_at s p)))" if "j \<le> n" for j
    using that by (auto simp: s1_def node_at_def n_def size_of_def nth_append)
  have at: "node_at s' j = (if j = p then f (node_at s1 p) else node_at s1 j)" for j
    using p1 by (simp add: s')
  have ks: "key s' j = sq (node_at s1 j)" for j
    by (simp add: key_def at f_def)
  then have ks': "(\<lambda>i. sq (node_at s1 i)) = key s'"
    by (simp add: fun_eq_iff)
  show "size_of s' = Suc (size_of s)"
    using n1 by (simp add: s' n_def)
  show "all_pending s' = all_pending s @ [size_of s]" "created s' = created s + 1"
    "done_count s' = done_count s" "abandoned s' = abandoned s" "notified s' = notified s"
    "visited s' = visited s" "pulled s' = pulled s"
    by (simp_all add: s' s1_def n_def)
  show "stat s' j = stat s j \<and> par s' j = par s j \<and> key s' j = key s j \<and> cand s' j = cand s j"
    if "j < size_of s" for j
    using that p at1 by (auto simp: read_defs at f_def n_def)
  show "stat s' (size_of s) = PENDING" "par s' (size_of s) = Some p" "key s' (size_of s) = q"
    "cand s' (size_of s) = \<lparr>rel = None, outstanding = []\<rparr>" "kids s' (size_of s) st = []"
    using p1 by (simp_all add: read_defs at at1 n_def [symmetric] new_tree_node_def)
  show "kids s' j = (if j = p
       then (kids s p)(PENDING := set_insert (key s') (size_of s) (kids s p PENDING)) else kids s j)"
    if "j < size_of s" for j
    using that p at1 by (auto simp: kids_def at f_def n_def ks' [unfolded n_def])
qed

lemma new_node_struct:
  fixes s :: "'a collection"
  assumes ok: "struct_ok s" and p: "p < size_of s" "p = (case par' of None \<Rightarrow> 0 | Some p \<Rightarrow> p)"
    and q: "sq_bool q" "\<forall>c < size_of s. par s c = Some p \<longrightarrow> live (stat s c) \<longrightarrow> key s c \<noteq> q"
    and s': "s' = new_node_unlocked q par' s"
  shows "struct_ok s'"
proof -
  define n where "n = size_of s"
  note at = new_node_at [OF p s', folded n_def]
  have old: "stat s' j = stat s j" "par s' j = par s j" "key s' j = key s j" if "j < n" for j
    using at(9) [OF that] by auto
  have ltn: "j < Suc n \<longleftrightarrow> j < n \<or> j = n" for j
    by auto
  have fresh: "key s' y \<noteq> key s' n" if "y \<in> set (kids s p PENDING)" for y
    using that struct_kids(2) [OF ok p(1), of PENDING] q(2) old at(12) by (auto simp: n_def)
  have kids': "distinct (kids s' r st)
      \<and> set (kids s' r st) = {c. c < Suc n \<and> par s' c = Some r \<and> stat s' c = st}"
    if r: "r < Suc n" "live st" for r st
  proof (cases "r = n")
    case True
    have "par s c \<noteq> Some n" if "c < n" for c
      using ok that struct_par [of s c] by (cases "c = 0") (force simp: struct_ok_def n_def)+
    then show ?thesis
      using True at(11,14) p old by (auto simp: ltn n_def [symmetric])
  next
    case False
    then have rn: "r < n"
      using r by simp
    have e: "{c. c < Suc n \<and> par s' c = Some r \<and> stat s' c = st} =
        {c. c < n \<and> par s c = Some r \<and> stat s c = st} \<union> (if r = p \<and> st = PENDING then {n} else {})"
      using old at(10,11) by (auto simp: ltn)
    note k = struct_kids [OF ok rn [unfolded n_def] r(2), folded n_def]
    show ?thesis
    proof (cases "r = p \<and> st = PENDING")
      case True
      then have kp: "kids s' r st = set_insert (key s') n (kids s p PENDING)"
        using at(15) [OF rn] by simp
      then have "set (kids s' r st) = insert n (set (kids s p PENDING))" "distinct (kids s' r st)"
        using set_set_insert [of "kids s p PENDING" "key s'" n, OF fresh]
          distinct_set_insert [of "kids s p PENDING" "key s'" n, OF fresh] k True by auto
      then show ?thesis
        unfolding e using k(2) True by auto
    next
      case False
      then have "kids s' r st = kids s r st"
        using at(15) [OF rn] by auto
      then show ?thesis
        unfolding e using k False by auto
    qed
  qed
  have keys': "key s' c \<noteq> key s' d" if cd: "c < Suc n" "d < Suc n" "c \<noteq> d" "par s' c = par s' d"
    "live (stat s' c)" "live (stat s' d)" for c d
  proof -
    consider "c < n" "d < n" | "c = n" "d < n" | "c < n" "d = n"
      using cd(1-3) unfolding ltn by blast
    then show ?thesis
      using cd old at(10-12) q(2) [folded n_def] struct_keys [OF ok, of c d, folded n_def]
      by cases auto
  qed
  have sets': "sets_ok s'"
    unfolding sets_ok_def at(1)
  proof (intro allI impI)
    fix r st
    assume r: "r < Suc n"
    have par_old: "par s c \<noteq> Some n" if "c < n" for c
      using ok that struct_par [of s c] by (cases "c = 0") (force simp: struct_ok_def n_def)+
    show "ordered_kids (key s') (child_set s' r st) (kids s' r st)"
    proof (cases "r = n")
      case True
      then show ?thesis
        using at(1,11,14) p par_old old by (auto simp: ordered_kids_def child_set_def ltn n_def [symmetric])
    next
      case False
      then have rn: "r < n"
        using r by simp
      have o: "ordered_kids (key s') (child_set s r st) (kids s r st)"
      proof (rule ordered_kids_cong)
        show "ordered_kids (key s) (child_set s r st) (kids s r st)"
          using ok rn by (simp add: struct_ok_def sets_okD n_def)
      qed (use old in \<open>auto simp: child_set_def n_def\<close>)
      have cs: "child_set s' r st = (if r = p \<and> st = PENDING then insert n (child_set s r st) else child_set s r st)"
        using at(1,10,11) old by (auto simp: child_set_def ltn n_def [symmetric])
      show ?thesis
        unfolding cs using o ordered_kids_insert [OF o, of n] at(15) [OF rn] by auto
    qed
  qed
  have par': "(\<exists>r<i. par s' i = Some r) \<and> sq_bool (key s' i)" if "i < Suc n" "0 < i" for i
  proof (cases "i = n")
    case True
    then show ?thesis
      using at(11,12) p(1) q(1) unfolding n_def by blast
  next
    case False
    then have "i < n"
      using that by simp
    then show ?thesis
      using ok that(2) old unfolding struct_ok_def n_def by simp
  qed
  show ?thesis
    using ok old [of 0] kids' keys' par' sets' unfolding struct_ok_def at(1) n_def [symmetric] by auto
qed

lemma new_node_ok:
  fixes s :: "'a collection"
  assumes ok: "tree_ok s" and p: "p < size_of s" "p = (case par' of None \<Rightarrow> 0 | Some p \<Rightarrow> p)"
    and pr: "p = 0 \<or> stat s p = IN_RECURSION"
    and q: "sq_bool q" "\<forall>c < size_of s. par s c = Some p \<longrightarrow> live (stat s c) \<longrightarrow> key s c \<noteq> q"
    and s': "s' = new_node_unlocked q par' s"
  shows "tree_ok s'" "rec_ok X s \<Longrightarrow> rec_ok (X - {p}) s'"
proof -
  define n where "n = size_of s"
  note at = new_node_at [OF p s', folded n_def]
  have so: "struct_ok s" "order_ok s" "queue_ok s" "counts_ok s" "cand_ok s"
    using ok by (simp_all add: tree_ok_def)
  have old: "stat s' j = stat s j" "par s' j = par s j" "cand s' j = cand s j" if "j < n" for j
    using at(9) [OF that] by auto
  have n0: "0 < n"
    using p by (simp add: n_def)
  have ltn: "j < Suc n \<longleftrightarrow> j < n \<or> j = n" for j
    by auto
  have parn: "r < n" if "par s j = Some r" "j < n" for j r
    using so(1) that struct_par [of s j] by (cases "j = 0") (force simp: struct_ok_def n_def)+
  have "struct_ok s'"
    using new_node_struct [OF so(1) p q s'] .
  moreover have "order_ok s'"
    using so(2) pr at(10,11) old parn n0 p unfolding order_ok_def at(1)
    by (auto simp: ltn n_def [symmetric])
  moreover have "queue_ok s'"
  proof -
    have "i < n \<and> stat s' i = stat s i" if "i \<in> set (all_pending s)" for i
      using so(3) that old by (auto simp: queue_ok_def n_def)
    moreover have "filter (\<lambda>i. stat s' i = PENDING) (all_pending s) =
        filter (\<lambda>i. stat s i = PENDING) (all_pending s)"
      using calculation by (intro filter_cong) auto
    ultimately show ?thesis
      using so(3) at(2,10) old n0 unfolding queue_ok_def at(1)
      by (auto simp: ltn n_def [symmetric])
  qed
  moreover have "counts_ok s'"
  proof -
    have "{i. 0 < i \<and> i < Suc n \<and> stat s' i = st} = {i. 0 < i \<and> i < n \<and> stat s i = st}"
      if "st \<noteq> PENDING" for st
      using old at(10) that by (auto simp: ltn)
    then have "tally s' st = tally s st" if "st \<noteq> PENDING" for st
      using that by (simp add: tally_def at(1) n_def)
    then show ?thesis
      using so(4) at by (simp add: counts_ok_def n_def)
  qed
  moreover have "cand_ok s'"
    using so(5) at(13) old unfolding cand_ok_def at(1) by (auto simp: ltn simp flip: n_def)
  ultimately show "tree_ok s'"
    by (simp add: tree_ok_def)
  show "rec_ok (X - {p}) s'" if r: "rec_ok X s"
    unfolding rec_ok_def at(1)
  proof (intro allI impI)
    fix i
    assume i: "i < Suc n" "0 < i" "i \<notin> X - {p}" "stat s' i = IN_RECURSION"
    then have "i < n"
      using at(10) by (auto simp: ltn)
    show "\<exists>c < Suc n. par s' c = Some i \<and> live (stat s' c)"
    proof (cases "i = p")
      case True
      then show ?thesis
        using at(10,11) by (intro exI [of _ n]) simp
    next
      case False
      then obtain c where "c < n" "par s c = Some i" "live (stat s c)"
        using r i old \<open>i < n\<close> unfolding rec_ok_def n_def by auto
      then show ?thesis
        using old by (intro exI [of _ c]) simp
    qed
  qed
qed

section \<open>Parts of the state that the invariant does not read\<close>

definition same_tree :: "'rel collection \<Rightarrow> 'rel collection \<Rightarrow> bool" where
  "same_tree s s' =
    (size_of s' = size_of s
     \<and> (\<forall>i < size_of s. stat s' i = stat s i \<and> par s' i = par s i \<and> key s' i = key s i
          \<and> kids s' i = kids s i \<and> cand s' i = cand s i))"

definition same_counts :: "'rel collection \<Rightarrow> 'rel collection \<Rightarrow> bool" where
  "same_counts s s' =
    (all_pending s' = all_pending s \<and> created s' = created s \<and> done_count s' = done_count s
     \<and> abandoned s' = abandoned s)"

lemma par_bound:
  assumes "struct_ok s" "i < size_of s" "par s i = Some p"
  shows "0 < i" "p < i" "p < size_of s"
proof -
  show "0 < i"
    using assms by (cases "i = 0") (auto simp: struct_ok_def)
  then show "p < i"
    using assms struct_par [of s i] by force
  then show "p < size_of s"
    using assms(2) by simp
qed

lemma same_tree_shape: "same_tree s s' \<Longrightarrow> same_shape s s'"
  by (simp add: same_tree_def same_shape_def)

lemma same_tree_struct:
  assumes "same_tree s s'" "struct_ok s"
  shows "struct_ok s'"
proof -
  have "sets_ok s'"
  proof (rule sets_ok_same)
    show "sets_ok s"
      using assms(2) by (simp add: struct_ok_def)
  qed (use assms(1) in \<open>simp_all add: same_tree_def\<close>)
  then show ?thesis
    using assms unfolding struct_ok_def same_tree_def by auto
qed

lemma same_tree_order:
  assumes "same_tree s s'" "struct_ok s" "order_ok s"
  shows "order_ok s'"
  unfolding order_ok_def
proof (intro conjI allI impI)
  show "stat s' 0 \<in> {IN_RECURSION, ABANDONED}"
    using assms by (simp add: order_ok_def same_tree_def struct_ok_def)
  fix i p
  assume i: "i < size_of s'" "live (stat s' i)" "par s' i = Some p"
  then have i': "i < size_of s" "live (stat s i)" "par s i = Some p"
    using assms(1) by (auto simp: same_tree_def)
  then show "p = 0 \<or> stat s' p = IN_RECURSION"
    using assms(1,3) par_bound(3) [OF assms(2) i'(1,3)] by (auto simp: order_ok_def same_tree_def)
qed

lemma same_tree_queue:
  assumes "same_tree s s'" "queue_ok s" "all_pending s' = all_pending s"
  shows "queue_ok s'"
proof -
  have st: "stat s' i = stat s i" if "i \<in> set (all_pending s)" for i
    using assms that by (auto simp: queue_ok_def same_tree_def)
  then have "filter (\<lambda>i. stat s' i = PENDING) (all_pending s) =
      filter (\<lambda>i. stat s i = PENDING) (all_pending s)"
    by (intro filter_cong) auto
  then show ?thesis
    using assms st by (auto simp: queue_ok_def same_tree_def)
qed

lemma same_tree_tally: "same_tree s s' \<Longrightarrow> tally s' x = tally s x"
  unfolding tally_def same_tree_def by (rule arg_cong [of _ _ card]) auto

lemma same_tree_rec: "same_tree s s' \<Longrightarrow> rec_ok X s \<Longrightarrow> rec_ok X s'"
  unfolding rec_ok_def same_tree_def by metis

lemma same_tree_cand: "same_tree s s' \<Longrightarrow> cand_ok s \<Longrightarrow> cand_ok s'"
  by (simp add: cand_ok_def same_tree_def)

lemma same_tree_childless: "same_tree s s' \<Longrightarrow> childless i s' = childless i s"
  by (auto simp: childless_def same_tree_def)

lemma same_tree_ok:
  assumes "same_tree s s'" "same_counts s s'" "tree_ok s"
  shows "tree_ok s'"
proof -
  have ok: "struct_ok s" "order_ok s" "queue_ok s" "counts_ok s" "cand_ok s"
    using assms(3) by (simp_all add: tree_ok_def)
  have "size_of s' = size_of s"
    using assms(1) by (simp add: same_tree_def)
  then have "counts_ok s'"
    using ok(4) assms(2) same_tree_tally [OF assms(1)] by (simp add: counts_ok_def same_counts_def)
  then show ?thesis
    using same_tree_struct [OF assms(1) ok(1)] same_tree_order [OF assms(1) ok(1,2)]
      same_tree_queue [OF assms(1) ok(3)] same_tree_cand [OF assms(1) ok(5)] assms(2)
    by (simp add: tree_ok_def same_counts_def)
qed

lemma same_tree_update:
  assumes "i < size_of s"
    and "\<And>n. status (f n) = status n \<and> parent (f n) = parent n \<and> sq (f n) = sq n
      \<and> children_by_status (f n) = children_by_status n \<and> contender (f n) = contender n"
  shows "same_tree s (update_node i f s)"
  using assms by (auto simp: same_tree_def read_defs)

lemma same_tree_fields [simp]:
  "same_tree s (s\<lparr>visited := v\<rparr>)" "same_tree s (s\<lparr>all_pending := q\<rparr>)"
  "same_tree s (s\<lparr>pulled := n\<rparr>)" "same_tree s (s\<lparr>done_count := n\<rparr>)"
  "same_tree s (s\<lparr>abandoned := n\<rparr>)" "same_tree s (notify_all s)"
  by (simp_all add: same_tree_def read_defs notify_all_def)

lemma same_tree_refl [simp]: "same_tree s s"
  by (simp add: same_tree_def)

lemma same_tree_trans [trans]: "same_tree s t \<Longrightarrow> same_tree t u \<Longrightarrow> same_tree s u"
  by (simp add: same_tree_def)

section \<open>Ending a node\<close>

text \<open>
  A live node without live children gets a final status. The nodes in recursion other than
  its parent keep a live child.
\<close>

lemma end_status:
  assumes ok: "struct_ok s" "order_ok s" "queue_ok s" "cand_ok s" and i: "0 < i" "i < size_of s"
    and lv: "live (stat s i)" and ch: "childless i s"
    and af: "after = ABANDONED \<or> after = DONE \<and> stat s i \<noteq> PENDING"
    and p: "par s i = Some p" and r: "rec_ok X s"
  obtains s' where "update_status i (stat s i) after s = Inr s'"
    "struct_ok s'" "order_ok s'" "queue_ok s'" "cand_ok s'" "same_shape s s'"
    "\<forall>j < size_of s. stat s' j = (if j = i then after else stat s j)"
    "tally s' after = tally s after + 1"
    "\<forall>x. \<not> live x \<longrightarrow> x \<noteq> after \<longrightarrow> tally s' x = tally s x"
    "rec_ok (X - {i} \<union> {p}) s'"
    "s'\<lparr>nodes := nodes s\<rparr> = s"
proof -
  have af': "\<not> live after" "after \<noteq> stat s i"
    using af lv by auto
  obtain s' where s': "update_status i (stat s i) after s = Inr s'" "struct_ok s'" "order_ok s'"
    "cand_ok s'" "same_shape s s'"
    and st: "\<forall>j < size_of s. stat s' j = (if j = i then after else stat s j)"
    and fr: "s'\<lparr>nodes := nodes s\<rparr> = s"
    using change_status [OF ok(1,2,4) i lv af'(2) disjI2 [OF ch]] by metis
  have sz: "size_of s' = size_of s" and sh: "\<And>j. j < size_of s \<Longrightarrow> par s' j = par s j"
    using s'(5) by (simp_all add: same_shape_def)
  have "queue_ok s'"
  proof -
    have q: "0 < j \<and> j < size_of s \<and> stat s j \<in> {PENDING, ABANDONED}
        \<and> stat s' j = (if j = i then after else stat s j)" if "j \<in> set (all_pending s)" for j
      using ok(3) that st unfolding queue_ok_def by blast
    have "filter (\<lambda>j. stat s' j = PENDING) (all_pending s) =
        filter (\<lambda>j. j \<noteq> i) (filter (\<lambda>j. stat s j = PENDING) (all_pending s))"
      using q af'(1) unfolding filter_filter by (intro filter_cong) auto
    moreover have "distinct (filter (\<lambda>j. j \<noteq> i) (filter (\<lambda>j. stat s j = PENDING) (all_pending s)))"
      using ok(3) unfolding queue_ok_def by (blast intro: distinct_filter)
    ultimately have "distinct (filter (\<lambda>j. stat s' j = PENDING) (all_pending s))"
      by (simp only:)
    moreover have "stat s' j \<in> {PENDING, ABANDONED}" if "j \<in> set (all_pending s)" for j
      using q [OF that] af lv by (auto split: if_splits)
    moreover have "j \<in> set (all_pending s)" if "j < size_of s" "stat s' j = PENDING" for j
      using that st ok(3) af'(1) unfolding queue_ok_def by (cases "j = i") auto
    ultimately show ?thesis
      using q fields_eq(2) [OF fr] unfolding queue_ok_def sz by auto
  qed
  moreover have "tally s' after = tally s after + 1"
    using tally_change [OF i sz af'(2) st] by simp
  moreover have "\<forall>x. \<not> live x \<longrightarrow> x \<noteq> after \<longrightarrow> tally s' x = tally s x"
    using tally_change [OF i sz af'(2) st] lv by auto
  moreover have "rec_ok (X - {i} \<union> {p}) s'"
    unfolding rec_ok_def sz
  proof (intro allI impI)
    fix j
    assume j: "j < size_of s" "0 < j" "j \<notin> X - {i} \<union> {p}" "stat s' j = IN_RECURSION"
    then have ne: "j \<noteq> i" "stat s j = IN_RECURSION"
      using st af'(1) by (auto split: if_splits)
    then obtain c where c: "c < size_of s" "par s c = Some j" "live (stat s c)"
      using r j unfolding rec_ok_def by auto
    then have "c \<noteq> i"
      using p j(3) by auto
    then show "\<exists>c < size_of s. par s' c = Some j \<and> live (stat s' c)"
      using c st sh by (intro exI [of _ c]) simp
  qed
  ultimately show thesis
    using that s' st fr by blast
qed

section \<open>Finishing nodes\<close>

definition only_done :: "nat \<Rightarrow> 'rel collection \<Rightarrow> 'rel collection \<Rightarrow> bool" where
  "only_done i s s' =
    (\<forall>j < size_of s. stat s' j = stat s j
      \<or> (stat s j = IN_RECURSION \<or> j = i \<and> stat s j = IN_PROGRESS) \<and> stat s' j = DONE)"

lemma only_done_up:
  assumes "\<forall>j < size_of s. stat t j = (if j = i then DONE else stat s j)"
    and "stat s i \<in> {IN_PROGRESS, IN_RECURSION}" "only_done p t u" "size_of t = size_of s"
    and "p = 0 \<and> stat s p \<noteq> IN_PROGRESS \<or> stat s p = IN_RECURSION" "p < size_of s"
  shows "only_done i s u"
  unfolding only_done_def
proof (intro allI impI)
  fix j
  assume j: "j < size_of s"
  then have "stat u j = stat t j
      \<or> (stat t j = IN_RECURSION \<or> j = p \<and> stat t j = IN_PROGRESS) \<and> stat u j = DONE"
    using assms(3,4) by (simp add: only_done_def)
  then show "stat u j = stat s j
      \<or> (stat s j = IN_RECURSION \<or> j = i \<and> stat s j = IN_PROGRESS) \<and> stat u j = DONE"
    using assms(1,2,5) j by (cases "j = i") auto
qed

lemma done_node_one:
  assumes ok: "tree_ok s" and r: "rec_ok {i} s" and i: "0 < i" "i < size_of s"
    and st: "stat s i \<in> {IN_PROGRESS, IN_RECURSION}" and ch: "childless i s" and p: "par s i = Some p"
  obtains s' where
    "done_node_unlocked (Suc fuel) i s =
      (if childless p s' then done_node_unlocked fuel p s' else Inr s')"
    "tree_ok s'" "rec_ok {p} s'" "same_shape s s'" "all_pending s' = all_pending s"
    "\<forall>j < size_of s. stat s' j = (if j = i then DONE else stat s j)"
proof -
  have so: "struct_ok s" "order_ok s" "queue_ok s" "counts_ok s" "cand_ok s"
    using ok by (simp_all add: tree_ok_def)
  have lv: "live (stat s i)" "stat s i \<noteq> PENDING"
    using st by auto
  obtain s1 where s1: "update_status i (stat s i) DONE s = Inr s1" "struct_ok s1" "order_ok s1"
    "queue_ok s1" "cand_ok s1" "same_shape s s1"
    and st1: "\<forall>j < size_of s. stat s1 j = (if j = i then DONE else stat s j)"
    and ta: "tally s1 DONE = tally s DONE + 1"
      "\<forall>x. \<not> live x \<longrightarrow> x \<noteq> DONE \<longrightarrow> tally s1 x = tally s x"
    and r1: "rec_ok ({i} - {i} \<union> {p}) s1" and fr: "s1\<lparr>nodes := nodes s\<rparr> = s"
    by (rule end_status [OF so(1-3,5) i lv(1) ch _ p r, of DONE]) (use lv(2) in simp)
  have sz: "size_of s1 = size_of s"
    using s1(6) by (simp add: same_shape_def)
  define s2 where "s2 = s1\<lparr>done_count := done_count s1 + 1\<rparr>"
  define s3 where "s3 = update_node i (\<lambda>n. n\<lparr>spent := spent n + clock s2\<rparr>) s2"
  define s4 where "s4 = (if parent (node_at s3 i) = Some 0 then notify_all s3 else s3)"
  have "same_tree s1 s2"
    by (simp add: s2_def)
  also have "same_tree s2 s3"
    unfolding s3_def by (rule same_tree_update) (simp_all add: s2_def sz i)
  also have "same_tree s3 s4"
    by (simp add: s4_def)
  finally have t: "same_tree s1 s4" .
  have pr: "p < size_of s"
    using par_bound(3) [OF so(1) i(2) p] .
  have c4: "all_pending s4 = all_pending s" "created s4 = created s"
    "done_count s4 = done_count s + 1" "abandoned s4 = abandoned s"
    using fields_eq [OF fr] by (simp_all add: s4_def s3_def s2_def notify_all_def)
  have sz4: "size_of s4 = size_of s"
    using t sz by (simp add: same_tree_def)
  have ok4: "tree_ok s4"
    using same_tree_struct [OF t s1(2)] same_tree_order [OF t s1(2,3)] same_tree_cand [OF t s1(5)]
      same_tree_queue [OF t s1(4)] same_tree_tally [OF t] ta so(4) c4 sz4 fields_eq(2) [OF fr]
    by (simp add: tree_ok_def counts_ok_def)
  have p3: "par s3 i = Some p" "par s4 i = Some p"
    using t p s1(6) i sz \<open>same_tree s2 s3\<close> \<open>same_tree s1 s2\<close>
    by (simp_all add: same_tree_def same_shape_def)
  have nl: "no_live_children i s"
    using no_live_children_iff [OF so(1) i(2)] ch by simp
  have nl4: "no_live_children p s4 = childless p s4"
    using no_live_children_iff [of s4 p] ok4 pr sz4 by (simp add: tree_ok_def)
  have "done_node_unlocked (Suc fuel) i s =
      (if childless p s4 then done_node_unlocked fuel p s4 else Inr s4)"
  proof -
    have "(if i \<noteq> 0
       then sbind (assert_always (status (node_at s i) \<in> {IN_PROGRESS, IN_RECURSION})) (\<lambda>_.
            sbind (update_status i (status (node_at s i)) DONE s) (\<lambda>s.
            Inr (s\<lparr>done_count := done_count s + 1\<rparr>)))
       else Inr s) = Inr s2"
      using i st s1(1) by (simp add: stat_def [symmetric] s2_def)
    then have "done_node_unlocked (Suc fuel) i s =
        (case parent (node_at s4 i) of
           None \<Rightarrow> Inr s4
         | Some p \<Rightarrow> if no_live_children p s4 then done_node_unlocked fuel p s4 else Inr s4)"
      unfolding done_node_unlocked.simps nl [THEN eqTrueI] assert_always_simps sbind_simps
      by (simp only: sbind_simps Let_def s3_def [symmetric] s4_def [symmetric])
    then show ?thesis
      using p3(2) nl4 by (simp add: par_def)
  qed
  moreover have "\<forall>j < size_of s. stat s4 j = (if j = i then DONE else stat s j)"
    using st1 t sz by (simp add: same_tree_def)
  moreover have "same_shape s s4"
    using same_shape_trans [OF s1(6) same_tree_shape [OF t]] .
  ultimately show thesis
    using that ok4 same_tree_rec [OF t r1] c4(1) by simp
qed

lemma done_node_ok:
  assumes "tree_ok s" "rec_ok {i} s" "i < size_of s"
    "i = 0 \<or> stat s i \<in> {IN_PROGRESS, IN_RECURSION}" "childless i s" "i < fuel"
  shows "\<exists>s'. done_node_unlocked fuel i s = Inr s' \<and> tree_inv s' \<and> same_shape s s'
    \<and> all_pending s' = all_pending s \<and> only_done i s s' \<and> (0 < i \<longrightarrow> stat s' i = DONE)"
  using assms
proof (induction i arbitrary: s fuel rule: less_induct)
  case (less i)
  obtain fuel' where fuel: "fuel = Suc fuel'"
    using less.prems(6) by (cases fuel) auto
  have so: "struct_ok s" "order_ok s"
    using less.prems(1) by (simp_all add: tree_ok_def)
  show ?case
  proof (cases "i = 0")
    case True
    define s' where "s' = update_node 0 (\<lambda>n. n\<lparr>spent := spent n + clock s\<rparr>) s"
    have t: "same_tree s s'"
      unfolding s'_def using less.prems(3) True by (intro same_tree_update) auto
    have "parent (node_at s' 0) = None"
      using t so(1) by (simp add: same_tree_def struct_ok_def par_def)
    moreover have "no_live_children 0 s"
      using no_live_children_iff [OF so(1)] less.prems True by simp
    ultimately have "done_node_unlocked fuel i s = Inr s'"
      using True by (simp add: fuel Let_def s'_def [symmetric])
    moreover have "rec_ok {} s"
      using less.prems(2) True by (simp add: rec_ok_def)
    moreover have "same_counts s s'"
      by (simp add: same_counts_def s'_def)
    ultimately show ?thesis
      using same_tree_ok [OF t _ less.prems(1)] same_tree_rec [OF t, of "{}"] same_tree_shape [OF t]
        True t by (auto simp: tree_inv_def same_counts_def only_done_def same_tree_def)
  next
    case False
    then have i: "0 < i" "stat s i \<in> {IN_PROGRESS, IN_RECURSION}"
      using less.prems(4) by auto
    obtain p where p: "par s i = Some p" "p < i" "p < size_of s"
      using struct_par [OF so(1) i(1) less.prems(3)] .
    obtain s1 where s1: "done_node_unlocked fuel i s =
        (if childless p s1 then done_node_unlocked fuel' p s1 else Inr s1)"
      "tree_ok s1" "rec_ok {p} s1" "same_shape s s1" "all_pending s1 = all_pending s"
      and st: "\<forall>j < size_of s. stat s1 j = (if j = i then DONE else stat s j)"
      using done_node_one [OF less.prems(1,2) i(1) less.prems(3) i(2) less.prems(5) p(1)] fuel by metis
    have sz: "size_of s1 = size_of s"
      using s1(4) by (simp add: same_shape_def)
    have od: "only_done i s s1"
      using st i by (auto simp: only_done_def)
    show ?thesis
    proof (cases "childless p s1")
      case True
      have pr: "p = 0 \<and> stat s p \<noteq> IN_PROGRESS \<or> stat s p = IN_RECURSION"
        using so(2) i p less.prems(3) unfolding order_ok_def by auto
      then have "p = 0 \<or> stat s1 p \<in> {IN_PROGRESS, IN_RECURSION}"
        using st p by auto
      then obtain s' where s': "done_node_unlocked fuel' p s1 = Inr s'" "tree_inv s'"
        "same_shape s1 s'" "all_pending s' = all_pending s1" "only_done p s1 s'"
        using less.IH [OF p(2) s1(2,3), of fuel'] p True sz less.prems(6) fuel by auto
      have "only_done i s s'"
        by (rule only_done_up [OF st i(2) s'(5) sz pr p(3)])
      moreover have "stat s' i = DONE"
        using s'(5) st less.prems(3) sz by (auto simp: only_done_def)
      ultimately show ?thesis
        using s1 s' True same_shape_trans [OF s1(4) s'(3)] by simp
    next
      case False
      have "rec_ok {} s1"
        using s1(3) False unfolding rec_ok_def childless_def by auto
      then show ?thesis
        using s1 False od st less.prems(3) by (auto simp: tree_inv_def)
    qed
  qed
qed

section \<open>Abandoning nodes\<close>

definition only_abandoned :: "nat \<Rightarrow> 'rel collection \<Rightarrow> 'rel collection \<Rightarrow> bool" where
  "only_abandoned c s s' =
    (\<forall>j < size_of s. stat s' j = stat s j \<or> c \<le> j \<and> live (stat s j) \<and> stat s' j = ABANDONED)"

definition live_after :: "'rel collection \<Rightarrow> nat \<Rightarrow> nat" where
  "live_after s i = card {j. i < j \<and> j < size_of s \<and> live (stat s j)}"

lemma only_abandoned_refl [simp]: "only_abandoned c s s"
  by (simp add: only_abandoned_def)

lemma only_abandonedD:
  "only_abandoned c s s' \<Longrightarrow> j < size_of s \<Longrightarrow>
    stat s' j = stat s j \<or> c \<le> j \<and> live (stat s j) \<and> stat s' j = ABANDONED"
  by (simp add: only_abandoned_def)

lemma only_abandoned_trans:
  assumes "only_abandoned c s t" "only_abandoned d t u" "size_of t = size_of s" "c \<le> d"
  shows "only_abandoned c s u"
  unfolding only_abandoned_def
proof (intro allI impI)
  fix j
  assume j: "j < size_of s"
  show "stat u j = stat s j \<or> c \<le> j \<and> live (stat s j) \<and> stat u j = ABANDONED"
    using only_abandonedD [OF assms(1) j] only_abandonedD [OF assms(2), of j] j assms(3,4) by auto
qed

lemma live_after_finite: "finite {j. i < j \<and> j < size_of s \<and> live (stat s j)}"
  by (rule finite_subset [of _ "{..<size_of s}"]) auto

lemma live_after_mono:
  assumes "only_abandoned c s s'" "size_of s' = size_of s"
  shows "live_after s' i \<le> live_after s i"
  unfolding live_after_def assms(2)
proof (rule card_mono [OF live_after_finite], rule subsetI)
  fix j
  assume "j \<in> {j. i < j \<and> j < size_of s \<and> live (stat s' j)}"
  then show "j \<in> {j. i < j \<and> j < size_of s \<and> live (stat s j)}"
    using only_abandonedD [OF assms(1), of j] by auto
qed

lemma live_after_less:
  assumes "only_abandoned c' s s'" "size_of s' = size_of s" "i < c" "c < size_of s" "live (stat s c)"
    "stat s' c = ABANDONED"
  shows "live_after s' i < live_after s i"
  unfolding live_after_def assms(2)
proof (rule psubset_card_mono [OF live_after_finite], rule psubsetI)
  show "{j. i < j \<and> j < size_of s \<and> live (stat s' j)} \<subseteq> {j. i < j \<and> j < size_of s \<and> live (stat s j)}"
    using only_abandonedD [OF assms(1)] by force
  show "{j. i < j \<and> j < size_of s \<and> live (stat s' j)} \<noteq> {j. i < j \<and> j < size_of s \<and> live (stat s j)}"
  proof
    assume "{j. i < j \<and> j < size_of s \<and> live (stat s' j)} = {j. i < j \<and> j < size_of s \<and> live (stat s j)}"
    then have "c \<in> {j. i < j \<and> j < size_of s \<and> live (stat s' j)}"
      using assms(3-5) by simp
    then show False
      using assms(6) by simp
  qed
qed

lemma live_after_child:
  assumes "i < c" "c < size_of s" "live (stat s c)"
  shows "live_after s c < live_after s i"
  unfolding live_after_def
proof (rule psubset_card_mono [OF live_after_finite], rule psubsetI)
  show "{j. c < j \<and> j < size_of s \<and> live (stat s j)} \<subseteq> {j. i < j \<and> j < size_of s \<and> live (stat s j)}"
    using assms by auto
  show "{j. c < j \<and> j < size_of s \<and> live (stat s j)} \<noteq> {j. i < j \<and> j < size_of s \<and> live (stat s j)}"
    using assms by auto
qed

lemma live_after_size: "live_after s i \<le> size_of s"
proof -
  have "live_after s i \<le> card {..<size_of s}"
    unfolding live_after_def by (rule card_mono) auto
  then show ?thesis
    by simp
qed

text \<open>What the loop over the children and the call on a child do, given enough fuel.\<close>

definition children_goal :: "int \<Rightarrow> nat \<Rightarrow> 'rel itself \<Rightarrow> bool" where
  "children_goal m d T =
    (\<forall>(s :: 'rel collection) i st X fuel. tree_ok s \<longrightarrow> rec_ok X s \<longrightarrow> i < size_of s \<longrightarrow> live st \<longrightarrow>
       live_after s i \<le> d \<longrightarrow> 2 * d + 1 \<le> fuel \<longrightarrow>
       (\<exists>s'. abandon_children fuel i st m s = Inr s' \<and> tree_ok s' \<and> rec_ok (insert i X) s'
          \<and> same_shape s s' \<and> all_pending s' = all_pending s \<and> only_abandoned (Suc i) s s'
          \<and> kids s' i st = []))"

definition node_goal :: "int \<Rightarrow> nat \<Rightarrow> 'rel itself \<Rightarrow> bool" where
  "node_goal m d T =
    (\<forall>(s :: 'rel collection) c p X fuel. tree_ok s \<longrightarrow> rec_ok X s \<longrightarrow> 0 < c \<longrightarrow> c < size_of s \<longrightarrow>
       live (stat s c) \<longrightarrow> par s c = Some p \<longrightarrow> live_after s c \<le> d \<longrightarrow> 2 * d + 2 \<le> fuel \<longrightarrow>
       (\<exists>s'. abandon_node_unlocked fuel c m True s = Inr s' \<and> tree_ok s' \<and> rec_ok (insert p X) s'
          \<and> same_shape s s' \<and> all_pending s' = all_pending s \<and> only_abandoned c s s'
          \<and> stat s' c = ABANDONED))"

lemma children_goalD:
  fixes s :: "'rel collection"
  assumes "children_goal m d TYPE('rel)" "tree_ok s" "rec_ok X s" "i < size_of s" "live st"
    "live_after s i \<le> d" "2 * d + 1 \<le> fuel"
  obtains s' where "abandon_children fuel i st m s = Inr s'" "tree_ok s'" "rec_ok (insert i X) s'"
    "same_shape s s'" "all_pending s' = all_pending s" "only_abandoned (Suc i) s s'" "kids s' i st = []"
  using assms unfolding children_goal_def by blast

lemma no_kids_kept:
  assumes "struct_ok s" "struct_ok s'" "same_shape s s'" "only_abandoned c s s'" "i < size_of s"
    "live st" "kids s i st = []"
  shows "kids s' i st = []"
proof -
  have sz: "size_of s' = size_of s"
    using assms(3) by (simp add: same_shape_def)
  have "c \<notin> set (kids s' i st)" for c
  proof
    assume "c \<in> set (kids s' i st)"
    then have c: "c < size_of s" "par s c = Some i" "stat s' c = st"
      using struct_kids(2) [OF assms(2) _ assms(6), of i] assms(3,5) sz by (auto simp: same_shape_def)
    then have "stat s c = st"
      using only_abandonedD [OF assms(4) c(1)] assms(6) by auto
    then show False
      using struct_kids(2) [OF assms(1,5,6)] assms(7) c by auto
  qed
  then show ?thesis
    by (cases "kids s' i st") auto
qed

text \<open>The three loops together leave no live child.\<close>

lemma three_loops:
  fixes s :: "'rel collection"
  assumes g: "children_goal m d TYPE('rel)" and ok: "tree_ok s" "rec_ok X s" and i: "i < size_of s"
    and d: "live_after s i \<le> d" "2 * d + 1 \<le> fuel"
  obtains s1 s2 s3 where "abandon_children fuel i PENDING m s = Inr s1"
    "abandon_children fuel i IN_PROGRESS m s1 = Inr s2"
    "abandon_children fuel i IN_RECURSION m s2 = Inr s3"
    "tree_ok s3" "rec_ok (insert i X) s3" "same_shape s s3" "all_pending s3 = all_pending s"
    "only_abandoned (Suc i) s s3" "childless i s3"
proof -
  obtain s1 where s1: "abandon_children fuel i PENDING m s = Inr s1" "tree_ok s1"
    "rec_ok (insert i X) s1" "same_shape s s1" "all_pending s1 = all_pending s"
    "only_abandoned (Suc i) s s1" "kids s1 i PENDING = []"
    by (rule children_goalD [OF g ok i _ d, of PENDING]) auto
  have z1: "size_of s1 = size_of s"
    using s1(4) by (simp add: same_shape_def)
  have d1: "live_after s1 i \<le> d"
    using live_after_mono [OF s1(6) z1, of i] d by simp
  obtain s2 where s2: "abandon_children fuel i IN_PROGRESS m s1 = Inr s2" "tree_ok s2"
    "rec_ok (insert i (insert i X)) s2" "same_shape s1 s2" "all_pending s2 = all_pending s1"
    "only_abandoned (Suc i) s1 s2" "kids s2 i IN_PROGRESS = []"
    by (rule children_goalD [OF g s1(2,3) _ _ d1 d(2), of IN_PROGRESS]) (use i z1 in auto)
  have z2: "size_of s2 = size_of s"
    using s2(4) z1 by (simp add: same_shape_def)
  have d2: "live_after s2 i \<le> d"
    using live_after_mono [OF s2(6), of i] d1 z1 z2 by simp
  obtain s3 where s3: "abandon_children fuel i IN_RECURSION m s2 = Inr s3" "tree_ok s3"
    "rec_ok (insert i (insert i (insert i X))) s3" "same_shape s2 s3" "all_pending s3 = all_pending s2"
    "only_abandoned (Suc i) s2 s3" "kids s3 i IN_RECURSION = []"
    by (rule children_goalD [OF g s2(2,3) _ _ d2 d(2), of IN_RECURSION]) (use i z2 in auto)
  have z3: "size_of s3 = size_of s"
    using s3(4) z2 by (simp add: same_shape_def)
  have so: "struct_ok s1" "struct_ok s2" "struct_ok s3"
    using s1(2) s2(2) s3(2) by (simp_all add: tree_ok_def)
  have "kids s2 i PENDING = []"
    by (rule no_kids_kept [OF so(1,2) s2(4,6)]) (use i z1 s1(7) in auto)
  then have "kids s3 i PENDING = []"
    by (intro no_kids_kept [OF so(2,3) s3(4,6)]) (use i z2 in auto)
  moreover have "kids s3 i IN_PROGRESS = []"
    by (rule no_kids_kept [OF so(2,3) s3(4,6)]) (use i z2 s2(7) in auto)
  ultimately have "childless i s3"
    using no_live_children_iff [OF so(3), of i] i z3 s3(7) by (simp add: no_live_children_def kids_def)
  moreover have "only_abandoned (Suc i) s s3"
    using only_abandoned_trans [OF only_abandoned_trans [OF s1(6) s2(6) z1] s3(6) z2] by simp
  moreover have "same_shape s s3"
    using same_shape_trans [OF same_shape_trans [OF s1(4) s2(4)] s3(4)] .
  ultimately show thesis
    using that s1(1,5) s2(1,5) s3(1,2,3,5) by simp
qed

lemma abandoned_field:
  assumes "tree_ok s"
  shows "struct_ok (s\<lparr>abandoned := n\<rparr>)" "order_ok (s\<lparr>abandoned := n\<rparr>)"
    "queue_ok (s\<lparr>abandoned := n\<rparr>)" "cand_ok (s\<lparr>abandoned := n\<rparr>)"
    "rec_ok X s \<Longrightarrow> rec_ok X (s\<lparr>abandoned := n\<rparr>)"
proof -
  have t: "same_tree s (s\<lparr>abandoned := n\<rparr>)"
    by simp
  have ok: "struct_ok s" "order_ok s" "queue_ok s" "cand_ok s"
    using assms by (simp_all add: tree_ok_def)
  show "struct_ok (s\<lparr>abandoned := n\<rparr>)" "order_ok (s\<lparr>abandoned := n\<rparr>)"
    "queue_ok (s\<lparr>abandoned := n\<rparr>)" "cand_ok (s\<lparr>abandoned := n\<rparr>)"
    "rec_ok X s \<Longrightarrow> rec_ok X (s\<lparr>abandoned := n\<rparr>)"
    using same_tree_struct [OF t ok(1)] same_tree_order [OF t ok(1,2)] same_tree_queue [OF t ok(3)]
      same_tree_cand [OF t ok(4)] same_tree_rec [OF t] by simp_all
qed

text \<open>A live node with no live child is abandoned and counted.\<close>

lemma abandon_one:
  assumes ok: "tree_ok s" "rec_ok X s" and i: "0 < i" "i < size_of s" "live (stat s i)"
    "childless i s" "par s i = Some p"
  obtains s' where "update_status i (stat s i) ABANDONED (s\<lparr>abandoned := abandoned s + 1\<rparr>) = Inr s'"
    "tree_ok s'" "rec_ok (X - {i} \<union> {p}) s'" "same_shape s s'" "all_pending s' = all_pending s"
    "only_abandoned i s s'" "stat s' i = ABANDONED"
    "\<forall>j < size_of s. stat s' j = (if j = i then ABANDONED else stat s j)"
    "notified s' = notified s"
proof -
  define s0 where "s0 = s\<lparr>abandoned := abandoned s + 1\<rparr>"
  have t: "same_tree s s0"
    by (simp add: s0_def)
  note ok0 = abandoned_field [OF ok(1), where n = "abandoned s + 1", folded s0_def]
  have i0: "i < size_of s0" "live (stat s0 i)" "childless i s0" "par s0 i = Some p" "stat s0 i = stat s i"
    using i t same_tree_childless [OF t] by (auto simp: same_tree_def)
  obtain s' where s': "update_status i (stat s0 i) ABANDONED s0 = Inr s'" "struct_ok s'" "order_ok s'"
    "queue_ok s'" "cand_ok s'" "same_shape s0 s'"
    "\<forall>j < size_of s0. stat s' j = (if j = i then ABANDONED else stat s0 j)"
    "tally s' ABANDONED = tally s0 ABANDONED + 1"
    "\<forall>x. \<not> live x \<longrightarrow> x \<noteq> ABANDONED \<longrightarrow> tally s' x = tally s0 x"
    "rec_ok (X - {i} \<union> {p}) s'" "s'\<lparr>nodes := nodes s0\<rparr> = s0"
    by (rule end_status [OF ok0(1-4) i(1) i0(1-3) _ i0(4) ok0(5) [OF ok(2)], of ABANDONED]) simp_all
  have f: "all_pending s' = all_pending s" "created s' = created s" "done_count s' = done_count s"
    "abandoned s' = abandoned s + 1" "notified s' = notified s"
    using fields_eq [OF s'(11)] by (simp_all add: s0_def)
  have sh: "same_shape s s'"
    using same_shape_trans [OF same_tree_shape [OF t] s'(6)] .
  have "counts_ok s'"
    using ok(1) f s'(8,9) same_tree_tally [OF t] sh
    by (simp add: tree_ok_def counts_ok_def same_shape_def)
  then have "tree_ok s'"
    using s' by (simp add: tree_ok_def)
  moreover have st: "\<forall>j < size_of s. stat s' j = (if j = i then ABANDONED else stat s j)"
    using s'(7) t by (simp add: same_tree_def)
  moreover have "only_abandoned i s s'"
    using st i by (simp add: only_abandoned_def)
  ultimately show thesis
    using that s'(1,10) sh f(1,5) i(2) i0(5) by (simp add: s0_def)
qed

lemma node_goal_from_children:
  assumes g: "children_goal m d TYPE('rel)"
  shows "node_goal m d TYPE('rel)"
  unfolding node_goal_def
proof (intro allI impI)
  fix s :: "'rel collection" and c p X and fuel :: nat
  assume ok: "tree_ok s" "rec_ok X s" and c: "0 < c" "c < size_of s" "live (stat s c)" "par s c = Some p"
    and d: "live_after s c \<le> d" "2 * d + 2 \<le> fuel"
  obtain f where f: "fuel = Suc f" "2 * d + 1 \<le> f"
    using d(2) by (cases fuel) auto
  obtain s1 s2 s3 where s3: "abandon_children f c PENDING m s = Inr s1"
    "abandon_children f c IN_PROGRESS m s1 = Inr s2"
    "abandon_children f c IN_RECURSION m s2 = Inr s3"
    "tree_ok s3" "rec_ok (insert c X) s3" "same_shape s s3" "all_pending s3 = all_pending s"
    "only_abandoned (Suc c) s s3" "childless c s3"
    by (rule three_loops [OF g ok c(2) d(1) f(2)])
  have sz: "size_of s3 = size_of s" and st3: "stat s3 c = stat s c" and p3: "par s3 c = Some p"
    using s3(6) only_abandonedD [OF s3(8) c(2)] c by (auto simp: same_shape_def)
  obtain s' where s': "update_status c (stat s3 c) ABANDONED (s3\<lparr>abandoned := abandoned s3 + 1\<rparr>) = Inr s'"
    "tree_ok s'" "rec_ok (insert c X - {c} \<union> {p}) s'" "same_shape s3 s'"
    "all_pending s' = all_pending s3" "only_abandoned c s3 s'" "stat s' c = ABANDONED"
    by (rule abandon_one [OF s3(4,5) c(1) _ _ s3(9) p3]) (use c sz st3 in auto)
  have "abandon_node_unlocked fuel c m True s = Inr s'"
    using c(1,3) s3(1-3) s'(1) st3 unfolding f(1) by (auto simp: Let_def stat_def)
  moreover have "rec_ok (insert p X) s'"
    using s'(3) by (rule rev_mp) (auto simp: rec_ok_def s'(7))
  moreover have "only_abandoned c s s'"
    unfolding only_abandoned_def
  proof (intro allI impI)
    fix j
    assume j: "j < size_of s"
    then show "stat s' j = stat s j \<or> c \<le> j \<and> live (stat s j) \<and> stat s' j = ABANDONED"
      using only_abandonedD [OF s3(8) j] only_abandonedD [OF s'(6), of j] sz by auto
  qed
  ultimately show "\<exists>s'. abandon_node_unlocked fuel c m True s = Inr s' \<and> tree_ok s'
      \<and> rec_ok (insert p X) s' \<and> same_shape s s' \<and> all_pending s' = all_pending s
      \<and> only_abandoned c s s' \<and> stat s' c = ABANDONED"
    using s' s3 same_shape_trans [OF s3(6) s'(4)] by auto
qed

lemma children_goal_step:
  assumes g: "d = 0 \<or> children_goal m (d - 1) TYPE('rel)"
  shows "children_goal m d TYPE('rel)"
  unfolding children_goal_def
proof (intro allI impI)
  fix s :: "'rel collection" and i st X and fuel :: nat
  assume ok: "tree_ok s" "rec_ok X s" and i: "i < size_of s" and lv: "live st"
    and d: "live_after s i \<le> d" "2 * d + 1 \<le> fuel"
  obtain f where f: "fuel = Suc f" "2 * d \<le> f"
    using d(2) by (cases fuel) auto
  have so: "struct_ok s"
    using ok by (simp add: tree_ok_def)
  let ?goal = "\<exists>s'. abandon_children fuel i st m s = Inr s' \<and> tree_ok s' \<and> rec_ok (insert i X) s'
      \<and> same_shape s s' \<and> all_pending s' = all_pending s \<and> only_abandoned (Suc i) s s'
      \<and> kids s' i st = []"
  show ?goal
  proof (cases "kids s i st")
    case Nil
    then have "abandon_children fuel i st m s = Inr s"
      by (simp add: f(1) kids_def)
    moreover have "rec_ok (insert i X) s"
      using ok(2) by (simp add: rec_ok_def)
    ultimately show ?thesis
      using ok Nil by simp
  next
    case (Cons c cs)
    then have c: "c < size_of s" "par s c = Some i" "stat s c = st"
      using struct_kids(2) [OF so i lv] by auto
    have ic: "i < c" "0 < c"
      using par_bound [OF so c(1,2)] by auto
    have lc: "live (stat s c)"
      using c lv by simp
    have dpos: "live_after s c < d"
      using live_after_child [OF ic(1) c(1) lc] d(1) by simp
    then have g': "children_goal m (d - 1) TYPE('rel)"
      using g by auto
    have "live_after s c \<le> d - 1" "2 * (d - 1) + 2 \<le> f"
      using dpos f(2) by auto
    then obtain s1 where s1: "abandon_node_unlocked f c m True s = Inr s1" "tree_ok s1"
      "rec_ok (insert i X) s1" "same_shape s s1" "all_pending s1 = all_pending s"
      "only_abandoned c s s1" "stat s1 c = ABANDONED"
      using node_goal_from_children [OF g', unfolded node_goal_def] ok ic(2) c lc by blast
    have sz: "size_of s1 = size_of s"
      using s1(4) by (simp add: same_shape_def)
    have l1: "live_after s1 i \<le> d - 1"
      using live_after_less [OF s1(6) sz ic(1) c(1) lc s1(7)] d(1) by simp
    obtain s2 where s2: "abandon_children f i st m s1 = Inr s2" "tree_ok s2"
      "rec_ok (insert i (insert i X)) s2" "same_shape s1 s2" "all_pending s2 = all_pending s1"
      "only_abandoned (Suc i) s1 s2" "kids s2 i st = []"
      by (rule children_goalD [OF g' s1(2,3) _ lv l1, of f]) (use i sz dpos f(2) in auto)
    have "abandon_children fuel i st m s = Inr s2"
      using Cons s1(1) s2(1) by (simp add: f(1) kids_def)
    moreover have "only_abandoned (Suc i) s s1"
      using s1(6) ic(1) by (auto simp: only_abandoned_def)
    then have "only_abandoned (Suc i) s s2"
      using only_abandoned_trans [OF _ s2(6) sz] by simp
    ultimately show ?thesis
      using s2 s1 same_shape_trans [OF s1(4) s2(4)] by simp
  qed
qed

lemma children_goal_all: "children_goal m d TYPE('rel)"
  by (induction d) (simp_all add: children_goal_step)

text \<open>The root fails: only its status changes.\<close>

lemma abandon_root:
  assumes ok: "tree_ok s" "rec_ok {0} s"
  obtains s' where "update_status 0 (stat s 0) ABANDONED s = Inr s'" "tree_inv s'" "same_shape s s'"
    "all_pending s' = all_pending s" "notified s' = notified s"
    "\<forall>j < size_of s. stat s' j = (if j = 0 then ABANDONED else stat s j)"
proof -
  have so: "struct_ok s" "order_ok s" "queue_ok s" "counts_ok s" "cand_ok s"
    using ok by (simp_all add: tree_ok_def)
  have p0: "0 < size_of s" "par s 0 = None"
    using so(1) by (simp_all add: struct_ok_def)
  define s' where "s' = update_node 0 (\<lambda>n. n\<lparr>status := ABANDONED\<rparr>) s"
  have upd: "update_status 0 (stat s 0) ABANDONED s = Inr s'"
    using p0 by (simp add: update_status_def par_def stat_def s'_def)
  have sz: "size_of s' = size_of s"
    by (simp add: s'_def)
  have at: "par s' j = par s j" "key s' j = key s j" "cand s' j = cand s j" "kids s' j = kids s j"
    "stat s' j = (if j = 0 then ABANDONED else stat s j)" for j
    using p0 by (simp_all add: s'_def read_defs)
  have np: "c \<noteq> 0" if "par s c = Some q" for c q
    using p0 that by (cases "c = 0") auto
  have "{c. c < size_of s \<and> par s c = Some q \<and> stat s' c = st} =
      {c. c < size_of s \<and> par s c = Some q \<and> stat s c = st}" for q st
    using at(5) np by auto
  moreover have "sets_ok s'"
  proof (rule sets_ok_same)
    show "sets_ok s"
      using so(1) by (simp add: struct_ok_def)
  qed (use at sz p0 in auto)
  ultimately have "struct_ok s'"
    using so(1) at unfolding struct_ok_def sz by (auto split: if_splits)
  moreover have "order_ok s'"
    using so(2) at p0 unfolding order_ok_def sz by auto
  moreover have q0: "j \<noteq> 0" if "j \<in> set (all_pending s)" for j
    using so(3) that by (auto simp: queue_ok_def)
  have "filter (\<lambda>j. stat s' j = PENDING) (all_pending s) = filter (\<lambda>j. stat s j = PENDING) (all_pending s)"
    using q0 at(5) by (intro filter_cong) auto
  then have "queue_ok s'"
    using so(3) at(5) q0 unfolding queue_ok_def sz by (auto simp: s'_def)
  moreover have "{i. 0 < i \<and> i < size_of s \<and> stat s' i = st} = {i. 0 < i \<and> i < size_of s \<and> stat s i = st}" for st
    using at(5) by auto
  then have "counts_ok s'"
    using so(4) unfolding counts_ok_def tally_def sz by (simp add: s'_def)
  moreover have "cand_ok s'"
    using so(5) at by (simp add: cand_ok_def sz)
  moreover have "rec_ok {} s'"
    unfolding rec_ok_def sz
  proof (intro allI impI)
    fix j
    assume j: "j < size_of s" "0 < j" "stat s' j = IN_RECURSION"
    then obtain c where c: "c < size_of s" "par s c = Some j" "live (stat s c)"
      using ok(2) at(5) unfolding rec_ok_def by auto
    then have "c \<noteq> 0"
      using np by blast
    then show "\<exists>c < size_of s. par s' c = Some j \<and> live (stat s' c)"
      using c at by auto
  qed
  ultimately have "tree_inv s'"
    by (simp add: tree_inv_def tree_ok_def)
  moreover have "same_shape s s'"
    using at sz by (simp add: same_shape_def)
  ultimately show thesis
    using that upd at(5) by (simp add: s'_def)
qed

text \<open>A node is put back into the queue for another attempt.\<close>

lemma retry_node:
  assumes ok: "tree_ok s" "rec_ok {i} s" and i: "0 < i" "i < size_of s"
    "stat s i \<in> {IN_PROGRESS, IN_RECURSION}" "childless i s"
    and s1: "same_tree s s1" "all_pending s1 = all_pending s @ [i]" "created s1 = created s"
      "done_count s1 = done_count s" "abandoned s1 = abandoned s"
  obtains s' where "update_status i (stat s i) PENDING s1 = Inr s'" "tree_inv s'" "same_shape s s'"
    "all_pending s' = all_pending s @ [i]" "notified s' = notified s1"
    "\<forall>j < size_of s. stat s' j = (if j = i then PENDING else stat s j)"
proof -
  have so: "struct_ok s" "order_ok s" "queue_ok s" "counts_ok s" "cand_ok s"
    using ok by (simp_all add: tree_ok_def)
  have lv: "live (stat s i)" "PENDING \<noteq> stat s i"
    using i by auto
  have z1: "size_of s1 = size_of s" and i1: "stat s1 i = stat s i"
    using s1(1) i by (auto simp: same_tree_def)
  obtain s' where s': "update_status i (stat s1 i) PENDING s1 = Inr s'" "struct_ok s'" "order_ok s'"
    "cand_ok s'" "same_shape s1 s'"
    and st1: "\<forall>j < size_of s1. stat s' j = (if j = i then PENDING else stat s1 j)"
    and fr: "s'\<lparr>nodes := nodes s1\<rparr> = s1"
    by (rule change_status [OF same_tree_struct [OF s1(1) so(1)] same_tree_order [OF s1(1) so(1,2)]
          same_tree_cand [OF s1(1) so(5)] i(1), of PENDING])
      (use i lv z1 i1 same_tree_childless [OF s1(1)] in auto)
  have st: "\<forall>j < size_of s. stat s' j = (if j = i then PENDING else stat s j)"
    using st1 s1(1) by (simp add: same_tree_def)
  have sh: "same_shape s s'"
    using same_shape_trans [OF same_tree_shape [OF s1(1)] s'(5)] .
  have sz: "size_of s' = size_of s" and pr: "\<And>j. j < size_of s \<Longrightarrow> par s' j = par s j"
    using sh by (simp_all add: same_shape_def)
  have q: "0 < j \<and> j < size_of s \<and> j \<noteq> i \<and> stat s' j = stat s j \<and> stat s j \<in> {PENDING, ABANDONED}"
    if "j \<in> set (all_pending s)" for j
    using so(3) that st i(3) unfolding queue_ok_def by auto
  have "queue_ok s'"
  proof -
    have "filter (\<lambda>j. stat s' j = PENDING) (all_pending s) = filter (\<lambda>j. stat s j = PENDING) (all_pending s)"
      using q by (intro filter_cong) auto
    moreover have "distinct (filter (\<lambda>j. stat s j = PENDING) (all_pending s))"
      using so(3) by (simp add: queue_ok_def)
    ultimately have d: "distinct (filter (\<lambda>j. stat s' j = PENDING) (all_pending s'))"
      using q st i(2) fields_eq(2) [OF fr] s1(2) by auto
    have m: "j \<in> set (all_pending s')" if "j < size_of s" "stat s' j = PENDING" for j
      using that st so(3) fields_eq(2) [OF fr] s1(2) unfolding queue_ok_def by (cases "j = i") auto
    show ?thesis
      using d m q st i(1,2) fields_eq(2) [OF fr] s1(2) unfolding queue_ok_def sz by auto
  qed
  moreover have "counts_ok s'"
  proof -
    have "tally s' x = tally s x" if "\<not> live x" for x
      using tally_change [OF i(1,2) sz lv(2) st, of x] that lv(1) by auto
    then show ?thesis
      using so(4) fields_eq [OF fr] s1(3-5) by (simp add: counts_ok_def sz)
  qed
  moreover have "rec_ok {} s'"
    unfolding rec_ok_def sz
  proof (intro allI impI)
    fix j
    assume j: "j < size_of s" "0 < j" "stat s' j = IN_RECURSION"
    then have "j \<noteq> i" "stat s j = IN_RECURSION"
      using st by (auto split: if_splits)
    then obtain c where "c < size_of s" "par s c = Some j" "live (stat s c)"
      using ok(2) j unfolding rec_ok_def by auto
    then show "\<exists>c < size_of s. par s' c = Some j \<and> live (stat s' c)"
      using st pr by (intro exI [of _ c]) simp
  qed
  ultimately have "tree_inv s'"
    using s' by (simp add: tree_inv_def tree_ok_def)
  then show thesis
    using that s'(1) i1 sh st fields_eq [OF fr] s1(2) by simp
qed

text \<open>The statuses that abandoning a node changes.\<close>

definition abandon_moves :: "nat \<Rightarrow> 'rel collection \<Rightarrow> 'rel collection \<Rightarrow> bool" where
  "abandon_moves i s s' =
    (\<forall>j < size_of s. stat s' j = stat s j \<or> live (stat s j) \<and> stat s' j = ABANDONED
      \<or> (stat s j = IN_RECURSION \<or> j = i \<and> stat s j = IN_PROGRESS) \<and> stat s' j = PENDING)"

lemma abandon_moves_after:
  assumes "only_abandoned c s t" "size_of t = size_of s"
    and "\<And>j. j < size_of s \<Longrightarrow> stat u j = stat t j \<or> live (stat t j) \<and> stat u j = ABANDONED
      \<or> (stat t j = IN_RECURSION \<or> j = i \<and> stat t j = IN_PROGRESS) \<and> stat u j = PENDING"
  shows "abandon_moves i s u"
  unfolding abandon_moves_def
proof (intro allI impI)
  fix j
  assume j: "j < size_of s"
  show "stat u j = stat s j \<or> live (stat s j) \<and> stat u j = ABANDONED
      \<or> (stat s j = IN_RECURSION \<or> j = i \<and> stat s j = IN_PROGRESS) \<and> stat u j = PENDING"
    using only_abandonedD [OF assms(1) j] assms(3) [OF j] by auto
qed

lemma abandon_unfold:
  assumes "stat s i \<noteq> ABANDONED" "abandon_children f i PENDING m s = Inr s1"
    "abandon_children f i IN_PROGRESS m s1 = Inr s2" "abandon_children f i IN_RECURSION m s2 = Inr s3"
    and "stat s3 i \<in> {IN_PROGRESS, IN_RECURSION}"
  shows "abandon_node_unlocked (Suc f) i m False s =
    (if \<not> sq_bool (key s3 i)
     then update_status i (stat s3 i) ABANDONED
            (s3\<lparr>abandoned := abandoned s3 + (if i \<noteq> 0 then 1 else 0)\<rparr>)
     else if try_again (node_at s3 i) < m
     then update_status i (stat s3 i) PENDING
            ((update_node i (\<lambda>n. n\<lparr>spent := spent n + clock s3, try_again := try_again n + 1\<rparr>) s3)
              \<lparr>all_pending := all_pending s3 @ [i]\<rparr>)
     else sbind (assert_always (i \<noteq> 0)) (\<lambda>_.
          sbind (update_status i (stat s3 i) ABANDONED
            ((update_node i (\<lambda>n. n\<lparr>spent := spent n + clock s3\<rparr>) s3)\<lparr>abandoned := abandoned s3 + 1\<rparr>))
            (\<lambda>s. abandon_node_unlocked f (the (par s i)) m False s)))"
proof -
  have "status (node_at s i) \<noteq> ABANDONED" "(status (node_at s3 i) \<in> {IN_PROGRESS, IN_RECURSION}) = True"
    using assms(1,5) by (simp_all add: stat_def)
  then show ?thesis
    unfolding abandon_node_unlocked.simps
    by (simp only: if_False assms(2-4) sbind_simps Let_def assert_always_simps stat_def key_def par_def
        update_node_fields)
qed

lemma abandon_ok:
  fixes s :: "'rel collection"
  assumes "tree_ok s" "rec_ok {i} s" "i < size_of s"
    "i = 0 \<or> stat s i \<in> {IN_PROGRESS, IN_RECURSION, ABANDONED}" "2 * size_of s + 2 + i \<le> fuel"
  shows "\<exists>s'. abandon_node_unlocked fuel i m False s = Inr s' \<and> tree_inv s' \<and> same_shape s s'
    \<and> abandon_moves i s s' \<and> (stat s i \<noteq> ABANDONED \<longrightarrow> stat s' i \<in> {PENDING, ABANDONED})"
  using assms
proof (induction i arbitrary: s fuel rule: less_induct)
  case (less i)
  obtain f where f: "fuel = Suc f" "2 * size_of s + 1 \<le> f"
    using less.prems(5) by (cases fuel) auto
  have so: "struct_ok s" "order_ok s"
    using less.prems(1) by (simp_all add: tree_ok_def)
  show ?case
  proof (cases "stat s i = ABANDONED")
    case True
    then have "rec_ok {} s"
      using less.prems(2) by (auto simp: rec_ok_def)
    then show ?thesis
      using True less.prems(1) by (simp add: f(1) stat_def [symmetric] tree_inv_def abandon_moves_def)
  next
    case False
    have st: "stat s i \<in> {IN_PROGRESS, IN_RECURSION}"
      using less.prems(4) False so(2) by (auto simp: order_ok_def)
    obtain s1 s2 s3 where s3: "abandon_children f i PENDING m s = Inr s1"
      "abandon_children f i IN_PROGRESS m s1 = Inr s2" "abandon_children f i IN_RECURSION m s2 = Inr s3"
      "tree_ok s3" "rec_ok (insert i {i}) s3" "same_shape s s3" "all_pending s3 = all_pending s"
      "only_abandoned (Suc i) s s3" "childless i s3"
      by (rule three_loops [OF children_goal_all less.prems(1-3) live_after_size f(2)])
    have sz: "size_of s3 = size_of s" and st3: "stat s3 i = stat s i" and k3: "key s3 i = key s i"
      and pr3: "par s3 i = par s i" and r3: "rec_ok {i} s3"
      using s3(5,6) only_abandonedD [OF s3(8) less.prems(3)] less.prems(3) by (auto simp: same_shape_def)
    note unfold = abandon_unfold [OF False s3(1-3), unfolded st3, OF st, folded f(1)]
    show ?thesis
    proof (cases "i = 0")
      case True
      obtain s' where s': "update_status 0 (stat s3 0) ABANDONED s3 = Inr s'" "tree_inv s'"
        "same_shape s3 s'" and st': "\<forall>j < size_of s3. stat s' j = (if j = 0 then ABANDONED else stat s3 j)"
        using abandon_root [OF s3(4)] r3 True by blast
      have "\<not> sq_bool (key s3 i)"
        using so(1) k3 True by (simp add: struct_ok_def)
      then have "abandon_node_unlocked fuel i m False s = Inr s'"
        using unfold s'(1) True st3 by simp
      moreover have "abandon_moves i s s'"
        by (rule abandon_moves_after [OF s3(8) sz]) (use st' sz st3 st True in auto)
      moreover have "stat s' i = ABANDONED"
        using st' True sz less.prems(3) by simp
      ultimately show ?thesis
        using s' same_shape_trans [OF s3(6) s'(3)] by blast
    next
      case pos: False
      then have i: "0 < i" "i < size_of s3" "sq_bool (key s3 i)"
        using so(1) less.prems(3) k3 sz by (auto simp: struct_ok_def)
      obtain p where p: "par s i = Some p" "p < i" "p < size_of s"
        using struct_par [OF so(1) i(1) less.prems(3)] .
      show ?thesis
      proof (cases "try_again (node_at s3 i) < m")
        case True
        define s4 where "s4 = (update_node i (\<lambda>n. n\<lparr>spent := spent n + clock s3,
            try_again := try_again n + 1\<rparr>) s3)\<lparr>all_pending := all_pending s3 @ [i]\<rparr>"
        have "same_tree s3 (update_node i (\<lambda>n. n\<lparr>spent := spent n + clock s3,
            try_again := try_again n + 1\<rparr>) s3)"
          by (rule same_tree_update [OF i(2)]) simp
        then have t: "same_tree s3 s4"
          unfolding s4_def by (rule same_tree_trans) simp
        obtain s' where s': "update_status i (stat s3 i) PENDING s4 = Inr s'" "tree_inv s'"
          "same_shape s3 s'" and st': "\<forall>j < size_of s3. stat s' j = (if j = i then PENDING else stat s3 j)"
          by (rule retry_node [OF s3(4) r3 i(1,2) _ s3(9) t]) (use st st3 in \<open>simp_all add: s4_def\<close>)
        have "abandon_node_unlocked fuel i m False s = Inr s'"
          using unfold i True s'(1) st3 by (simp add: s4_def)
        moreover have "abandon_moves i s s'"
          by (rule abandon_moves_after [OF s3(8) sz]) (use st' sz st3 st in auto)
        moreover have "stat s' i = PENDING"
          using st' sz less.prems(3) by simp
        ultimately show ?thesis
          using s' same_shape_trans [OF s3(6) s'(3)] by blast
      next
        case no: False
        define s4 where "s4 = update_node i (\<lambda>n. n\<lparr>spent := spent n + clock s3\<rparr>) s3"
        have t: "same_tree s3 s4"
          unfolding s4_def by (rule same_tree_update [OF i(2)]) simp
        have ok4: "tree_ok s4" "rec_ok {i} s4"
          using same_tree_ok [OF t _ s3(4)] same_tree_rec [OF t r3] by (simp_all add: same_counts_def s4_def)
        have i4: "i < size_of s4" "stat s4 i = stat s3 i" "childless i s4" "par s4 i = Some p"
          "abandoned s4 = abandoned s3"
          using t i s3(9) same_tree_childless [OF t] p(1) pr3 by (auto simp: same_tree_def s4_def)
        obtain s5 where s5: "update_status i (stat s4 i) ABANDONED (s4\<lparr>abandoned := abandoned s4 + 1\<rparr>) = Inr s5"
          "tree_ok s5" "rec_ok ({i} - {i} \<union> {p}) s5" "same_shape s4 s5"
          and st5: "\<forall>j < size_of s4. stat s5 j = (if j = i then ABANDONED else stat s4 j)"
          by (rule abandon_one [OF ok4 i(1) i4(1) _ i4(3,4)]) (use st st3 i4(2) in auto)
        have sh: "same_shape s s5"
          using same_shape_trans [OF same_shape_trans [OF s3(6) same_tree_shape [OF t]] s5(4)] .
        have st5': "stat s5 j = (if j = i then ABANDONED else stat s3 j)" if "j < size_of s" for j
          using st5 t that sz by (auto simp: same_tree_def)
        have pr: "p = 0 \<and> stat s p \<noteq> IN_PROGRESS \<or> stat s p = IN_RECURSION"
          using so(2) st p(1) less.prems(3) unfolding order_ok_def by auto
        then have "p = 0 \<or> stat s5 p \<in> {IN_PROGRESS, IN_RECURSION, ABANDONED}"
          using st5' [OF p(3)] only_abandonedD [OF s3(8) p(3)] p(2) by auto
        then obtain s' where s': "abandon_node_unlocked f p m False s5 = Inr s'" "tree_inv s'"
          "same_shape s5 s'" "abandon_moves p s5 s'"
          using less.IH [OF p(2) s5(2), of f] s5(3) p less.prems(5) f(1) sh by (auto simp: same_shape_def)
        have "par s5 i = Some p"
          using sh p(1) less.prems(3) by (simp add: same_shape_def)
        then have "abandon_node_unlocked fuel i m False s = Inr s'"
          using unfold i no s5(1) i4(2,5) s'(1) st3 pos by (simp add: s4_def)
        moreover have "abandon_moves i s s'"
        proof (rule abandon_moves_after [OF s3(8) sz])
          fix j
          assume j: "j < size_of s"
          have "stat s3 p = stat s p"
            using only_abandonedD [OF s3(8) p(3)] p(2) by auto
          then show "stat s' j = stat s3 j \<or> live (stat s3 j) \<and> stat s' j = ABANDONED
              \<or> (stat s3 j = IN_RECURSION \<or> j = i \<and> stat s3 j = IN_PROGRESS) \<and> stat s' j = PENDING"
            using s'(4) st5' [OF j] st3 st sh pr j unfolding abandon_moves_def same_shape_def
            by (cases "j = i") auto
        qed
        moreover have "stat s' i = ABANDONED"
          using s'(4) st5' [OF less.prems(3)] sh less.prems(3)
          unfolding abandon_moves_def same_shape_def by auto
        ultimately show ?thesis
          using s' same_shape_trans [OF sh s'(3)] by blast
      qed
    qed
  qed
qed

end
