(* ===== verification/TaskTreeRun.thy ===== *)
theory TaskTreeRun
  imports TaskTreeInv
begin

text \<open>
  The operations that the threads of the siever call on the special-q task tree (pulling a task,
  taking a decision on it or abandoning it), and the system of the tree and its threads as a step
  relation.
\<close>

section \<open>Decisions\<close>

lemma in_progress_childless:
  assumes "tree_ok s" "i < size_of s" "stat s i = IN_PROGRESS"
  shows "childless i s"
  unfolding childless_def
proof (intro allI impI notI)
  fix c
  assume "c < size_of s" "par s c = Some i" "live (stat s c)"
  then have "i = 0 \<or> stat s i = IN_RECURSION"
    using assms unfolding tree_ok_def order_ok_def by blast
  then show False
    using assms by (auto simp: tree_ok_def order_ok_def)
qed

lemma recurse_node_ok:
  assumes ok: "tree_ok s" "rec_ok {} s" and i: "0 < i" "i < size_of s" "stat s i = IN_PROGRESS"
  obtains s' where "recurse_node_unlocked i s = Inr s'" "tree_ok s'" "rec_ok {i} s'" "same_shape s s'"
    "all_pending s' = all_pending s" "childless i s'"
    "\<forall>j < size_of s. stat s' j = (if j = i then IN_RECURSION else stat s j)"
proof -
  have so: "struct_ok s" "order_ok s" "queue_ok s" "counts_ok s" "cand_ok s"
    using ok by (simp_all add: tree_ok_def)
  obtain s' where s': "update_status i (stat s i) IN_RECURSION s = Inr s'" "struct_ok s'" "order_ok s'"
    "cand_ok s'" "same_shape s s'"
    and st: "\<forall>j < size_of s. stat s' j = (if j = i then IN_RECURSION else stat s j)"
    and fr: "s'\<lparr>nodes := nodes s\<rparr> = s"
    by (rule change_status [OF so(1,2,5) i(1,2), of IN_RECURSION]) (use i in auto)
  have sz: "size_of s' = size_of s" and pr: "\<And>j. j < size_of s \<Longrightarrow> par s' j = par s j"
    using s'(5) by (simp_all add: same_shape_def)
  have q: "stat s' j = stat s j" if "j \<in> set (all_pending s)" for j
    using so(3) that st i unfolding queue_ok_def by fastforce
  then have "filter (\<lambda>j. stat s' j = PENDING) (all_pending s) = filter (\<lambda>j. stat s j = PENDING) (all_pending s)"
    by (intro filter_cong) auto
  then have "queue_ok s'"
    using so(3) q st i fields_eq(2) [OF fr] unfolding queue_ok_def sz by (auto split: if_splits)
  moreover have "tally s' x = tally s x" if "\<not> live x" for x
    using tally_change [OF i(1,2) sz _ st, of x] that i(3) by auto
  then have "counts_ok s'"
    using so(4) fields_eq [OF fr] by (simp add: counts_ok_def sz)
  ultimately have "tree_ok s'"
    using s' by (simp add: tree_ok_def)
  moreover have "rec_ok {i} s'"
    unfolding rec_ok_def sz
  proof (intro allI impI)
    fix j
    assume j: "j < size_of s" "0 < j" "j \<notin> {i}" "stat s' j = IN_RECURSION"
    then obtain c where "c < size_of s" "par s c = Some j" "live (stat s c)"
      using ok(2) st unfolding rec_ok_def by auto
    then show "\<exists>c < size_of s. par s' c = Some j \<and> live (stat s' c)"
      using st pr by (intro exI [of _ c]) simp
  qed
  moreover have "childless i s'"
    using in_progress_childless [OF ok(1) i(2,3)] st pr par_bound(2) [OF so(1) i(2), of i]
    by (auto simp: childless_def sz)
  ultimately show thesis
    using that s' st fields_eq(2) [OF fr] i(3) by (simp add: recurse_node_unlocked_def)
qed

text \<open>The new nodes for the special-q that remain to be split.\<close>

lemma push_outstanding_Cons:
  "push_outstanding i (q # qs) s = push_outstanding i qs (new_node_unlocked q (Some i) s)"
  by (simp add: push_outstanding_def)

lemma push_outstanding_ok:
  fixes s :: "'rel collection"
  assumes "tree_ok s" "rec_ok X s" "i < size_of s" "stat s i = IN_RECURSION"
    "distinct qs" "\<forall>q\<in>set qs. sq_bool q"
    "\<forall>c < size_of s. par s c = Some i \<longrightarrow> live (stat s c) \<longrightarrow> key s c \<notin> set qs"
    "s' = push_outstanding i qs s"
  shows "tree_ok s'" "rec_ok (if qs = [] then X else X - {i}) s'" "size_of s' = size_of s + length qs"
    "all_pending s' = all_pending s @ [size_of s..<size_of s + length qs]"
    "\<forall>j < size_of s. stat s' j = stat s j \<and> cand s' j = cand s j"
    "\<forall>j \<ge> size_of s. j < size_of s' \<longrightarrow> stat s' j = PENDING \<and> par s' j = Some i"
proof -
  have "tree_ok s' \<and> rec_ok (if qs = [] then X else X - {i}) s' \<and> size_of s' = size_of s + length qs
    \<and> all_pending s' = all_pending s @ [size_of s..<size_of s + length qs]
    \<and> (\<forall>j < size_of s. stat s' j = stat s j \<and> cand s' j = cand s j \<and> par s' j = par s j)
    \<and> (\<forall>j \<ge> size_of s. j < size_of s' \<longrightarrow> stat s' j = PENDING \<and> par s' j = Some i)"
    using assms
  proof (induction qs arbitrary: s X)
    case Nil
    then show ?case
      by (simp add: push_outstanding_def)
  next
    case (Cons q qs)
    define s1 where "s1 = new_node_unlocked q (Some i) s"
    define n where "n = size_of s"
    have ip: "i = (case Some i of None \<Rightarrow> 0 | Some p \<Rightarrow> p)"
      by simp
    note at = new_node_at [OF Cons.prems(3) ip s1_def, folded n_def]
    have fresh: "\<forall>c < size_of s. par s c = Some i \<longrightarrow> live (stat s c) \<longrightarrow> key s c \<noteq> q"
      using Cons.prems(7) by auto
    have ok1: "tree_ok s1" "rec_ok (X - {i}) s1"
      using new_node_ok [OF Cons.prems(1,3) ip _ _ fresh s1_def] Cons.prems(2,4,6) by auto
    have "key s1 c \<notin> set qs" if c: "c < size_of s1" "par s1 c = Some i" "live (stat s1 c)" for c
    proof (cases "c = n")
      case True
      then show ?thesis
        using at(12) Cons.prems(5) by simp
    next
      case False
      then have "c < n"
        using c(1) at(1) by simp
      then show ?thesis
        using Cons.prems(7) c at(9) [of c] by (auto simp: n_def)
    qed
    moreover have "i < size_of s1" "stat s1 i = IN_RECURSION"
      using Cons.prems(3,4) at(1) at(9) [of i] by (simp_all add: n_def)
    moreover have e: "s' = push_outstanding i qs s1"
      using Cons.prems(8) by (simp add: push_outstanding_Cons s1_def)
    ultimately have IH: "tree_ok s'" "rec_ok (if qs = [] then X - {i} else X - {i} - {i}) s'"
      "size_of s' = size_of s1 + length qs"
      "all_pending s' = all_pending s1 @ [size_of s1..<size_of s1 + length qs]"
      "\<forall>j < size_of s1. stat s' j = stat s1 j \<and> cand s' j = cand s1 j \<and> par s' j = par s1 j"
      "\<forall>j \<ge> size_of s1. j < size_of s' \<longrightarrow> stat s' j = PENDING \<and> par s' j = Some i"
      using Cons.IH [OF ok1] Cons.prems(5,6) by auto
    have "stat s' j = PENDING \<and> par s' j = Some i" if "n \<le> j" "j < size_of s'" for j
      using that IH(5,6) at(1,10,11) by (cases "j = n") auto
    moreover have "rec_ok (X - {i}) s'"
      using IH(2) by (simp split: if_splits)
    moreover have "[n..<n + length (q # qs)] = n # [Suc n..<Suc n + length qs]"
      by (subst upt_conv_Cons) simp_all
    ultimately show ?case
      using IH(1,3,4,5) at(1,2) at(9) by (simp add: n_def)
  qed
  then show "tree_ok s'" "rec_ok (if qs = [] then X else X - {i}) s'"
    "size_of s' = size_of s + length qs"
    "all_pending s' = all_pending s @ [size_of s..<size_of s + length qs]"
    "\<forall>j < size_of s. stat s' j = stat s j \<and> cand s' j = cand s j"
    "\<forall>j \<ge> size_of s. j < size_of s' \<longrightarrow> stat s' j = PENDING \<and> par s' j = Some i"
    by blast+
qed

text \<open>The statuses that a decision changes.\<close>

definition decision_moves :: "nat \<Rightarrow> 'rel collection \<Rightarrow> 'rel collection \<Rightarrow> bool" where
  "decision_moves i s s' =
    ((\<forall>j < size_of s. stat s' j = stat s j
        \<or> j = i \<and> stat s j = IN_PROGRESS \<and> stat s' j \<in> {IN_RECURSION, DONE}
        \<or> stat s j = IN_RECURSION \<and> stat s' j = DONE)
     \<and> (\<forall>j \<ge> size_of s. j < size_of s' \<longrightarrow> stat s' j = PENDING))"

lemma only_done_decision:
  assumes "only_done i s s'" "size_of s' = size_of s"
  shows "decision_moves i s s'"
  using assms by (auto simp: only_done_def decision_moves_def)

lemma take_decision_ok:
  fixes s :: "'rel collection"
  assumes inv: "tree_inv s" and i: "0 < i" "i < size_of s" "stat s i = IN_PROGRESS" and f: "i < fuel"
  shows "\<exists>s'. take_decision fuel rd i s = Inr s' \<and> tree_inv s' \<and> size_of s \<le> size_of s'
    \<and> decision_moves i s s' \<and> stat s' i \<in> {IN_RECURSION, DONE}"
proof -
  define c where "c = cand s i"
  define s0 where "s0 = (case rel c of None \<Rightarrow> s | Some r \<Rightarrow> s\<lparr>visited := List.insert r (visited s)\<rparr>)"
  have t: "same_tree s s0" and cn: "same_counts s s0"
    by (cases "rel c"; simp add: s0_def same_counts_def)+
  have ok: "tree_ok s" "rec_ok {} s"
    using inv by (simp_all add: tree_inv_def)
  have ok0: "tree_ok s0" "rec_ok {} s0"
    using same_tree_ok [OF t cn ok(1)] same_tree_rec [OF t ok(2)] by auto
  have z0: "size_of s0 = size_of s" and i0: "stat s0 i = IN_PROGRESS" and st0: "\<And>j. j < size_of s \<Longrightarrow> stat s0 j = stat s j"
    using t i by (auto simp: same_tree_def)
  have cl: "childless i s"
    using in_progress_childless [OF ok(1) i(2,3)] .
  have "no_live_children i s"
    using no_live_children_iff [of s i] cl i ok(1) by (simp add: tree_ok_def)
  then have unf: "take_decision fuel rd i s =
      (if rd
       then sbind (recurse_node_unlocked i s0) (\<lambda>s.
            let s = push_outstanding i (outstanding c) s
            in if outstanding c = [] then done_node_unlocked fuel i s else Inr (notify_all s))
       else done_node_unlocked fuel i s0)"
    using i(3) unfolding take_decision_def no_live_children_def
    by (simp add: stat_def [symmetric] cand_def [symmetric] c_def [symmetric] s0_def [symmetric])
  have qs: "distinct (outstanding c)" "\<forall>q\<in>set (outstanding c). sq_bool q"
    using ok(1) i(2) by (auto simp: tree_ok_def cand_ok_def c_def)
  show ?thesis
  proof (cases rd)
    case False
    have "rec_ok {i} s0"
      using ok0(2) by (auto simp: rec_ok_def)
    then obtain s' where s': "done_node_unlocked fuel i s0 = Inr s'" "tree_inv s'" "same_shape s0 s'"
      "only_done i s0 s'" "stat s' i = DONE"
      using done_node_ok [OF ok0(1), of i fuel] i z0 i0 f same_tree_childless [OF t] cl by auto
    have "decision_moves i s s'"
      using only_done_decision [OF s'(4)] s'(3) z0 st0 by (simp add: decision_moves_def same_shape_def)
    then show ?thesis
      using s' unf False z0 by (simp add: same_shape_def)
  next
    case True
    obtain s1 where s1: "recurse_node_unlocked i s0 = Inr s1" "tree_ok s1" "rec_ok {i} s1" "same_shape s0 s1"
      "childless i s1" and st1: "\<forall>j < size_of s0. stat s1 j = (if j = i then IN_RECURSION else stat s0 j)"
      by (rule recurse_node_ok [OF ok0 i(1) _ i0]) (use i z0 in auto)
    have z1: "size_of s1 = size_of s"
      using s1(4) z0 by (simp add: same_shape_def)
    have i1: "i < size_of s1" "stat s1 i = IN_RECURSION"
      using i z0 z1 st1 by auto
    define s2 where "s2 = push_outstanding i (outstanding c) s1"
    have fresh: "\<forall>d < size_of s1. par s1 d = Some i \<longrightarrow> live (stat s1 d) \<longrightarrow> key s1 d \<notin> set (outstanding c)"
      using s1(5) by (auto simp: childless_def)
    note s2 = push_outstanding_ok [OF s1(2,3) i1 qs fresh s2_def]
    show ?thesis
    proof (cases "outstanding c = []")
      case empty: True
      then have "s2 = s1"
        by (simp add: s2_def push_outstanding_def)
      obtain s' where s': "done_node_unlocked fuel i s1 = Inr s'" "tree_inv s'" "same_shape s1 s'"
        "only_done i s1 s'" "stat s' i = DONE"
        using done_node_ok [OF s1(2,3) i1(1) _ s1(5) f] i1(2) i(1) by auto
      have "take_decision fuel rd i s = Inr s'"
        using unf True s1(1) empty s'(1) \<open>s2 = s1\<close> by (simp add: s2_def)
      moreover have "decision_moves i s s'"
        unfolding decision_moves_def
      proof (intro conjI allI impI)
        fix j
        assume j: "j < size_of s"
        then show "stat s' j = stat s j
            \<or> j = i \<and> stat s j = IN_PROGRESS \<and> stat s' j \<in> {IN_RECURSION, DONE}
            \<or> stat s j = IN_RECURSION \<and> stat s' j = DONE"
          using s'(4,5) st1 st0 z0 z1 i(3) unfolding only_done_def by (cases "j = i") auto
      next
        fix j
        assume "size_of s \<le> j" "j < size_of s'"
        then show "stat s' j = PENDING"
          using s'(3) z1 by (simp add: same_shape_def)
      qed
      ultimately show ?thesis
        using s' z1 by (simp add: same_shape_def)
    next
      case False
      define s' where "s' = notify_all s2"
      have t2: "same_tree s2 s'"
        by (simp add: s'_def)
      have c2: "same_counts s2 s'"
        by (simp add: s'_def same_counts_def notify_all_def)
      have "rec_ok {} s2"
        using s2(2) False by simp
      then have "tree_inv s'"
        using same_tree_ok [OF t2 c2 s2(1)] same_tree_rec [OF t2] by (simp add: tree_inv_def)
      moreover have "take_decision fuel rd i s = Inr s'"
        using unf True s1(1) False by (simp add: s2_def s'_def Let_def)
      moreover have "decision_moves i s s'"
        using t2 s2(3,5,6) st1 st0 z0 z1 i(3) by (auto simp: decision_moves_def same_tree_def)
      moreover have "stat s' i = IN_RECURSION"
        using t2 s2(3,5) i1 by (simp add: same_tree_def)
      ultimately show ?thesis
        using t2 s2(3) z1 by (simp add: same_tree_def)
    qed
  qed
qed

section \<open>Pulling tasks\<close>

lemma pull_pending_cases:
  "(\<exists>pre i rest n'. pull_pending ns xs n = (Some i, rest, n') \<and> xs = pre @ i # rest
      \<and> (\<forall>j\<in>set pre. status (ns ! j) = ABANDONED) \<and> status (ns ! i) \<noteq> ABANDONED)
   \<or> (\<exists>n'. pull_pending ns xs n = (None, [], n') \<and> (\<forall>j\<in>set xs. status (ns ! j) = ABANDONED))"
proof (induction xs arbitrary: n)
  case Nil
  then show ?case
    by simp
next
  case (Cons x xs)
  show ?case
  proof (cases "status (ns ! x) = ABANDONED")
    case False
    then show ?thesis
      by (intro disjI1 exI [of _ "[]"]) simp
  next
    case True
    then have e: "pull_pending ns (x # xs) n = pull_pending ns xs (n + 1)"
      by simp
    consider pre i rest n' where "pull_pending ns xs (n + 1) = (Some i, rest, n')" "xs = pre @ i # rest"
        "\<forall>j\<in>set pre. status (ns ! j) = ABANDONED" "status (ns ! i) \<noteq> ABANDONED"
      | n' where "pull_pending ns xs (n + 1) = (None, [], n')" "\<forall>j\<in>set xs. status (ns ! j) = ABANDONED"
      using Cons.IH [of "n + 1"] by blast
    then show ?thesis
    proof cases
      case 1
      then show ?thesis
        unfolding e using True by (intro disjI1 exI [of _ "x # pre"]) auto
    next
      case 2
      then show ?thesis
        unfolding e using True by auto
    qed
  qed
qed

text \<open>The first pending node of the queue becomes a node in progress.\<close>

lemma pull_update:
  fixes s :: "'rel collection"
  assumes ok: "tree_ok s" "rec_ok {} s" and q: "all_pending s = pre @ i # rest"
    "\<forall>j\<in>set pre. stat s j = ABANDONED" "stat s i = PENDING"
    and s0: "same_tree s s0" "all_pending s0 = rest" "created s0 = created s"
      "done_count s0 = done_count s" "abandoned s0 = abandoned s"
  obtains s' where "update_status i PENDING IN_PROGRESS s0 = Inr s'" "tree_inv s'" "same_shape s s'"
    "\<forall>j < size_of s. stat s' j = (if j = i then IN_PROGRESS else stat s j)"
    "0 < i" "i < size_of s"
proof -
  have so: "struct_ok s" "order_ok s" "queue_ok s" "counts_ok s" "cand_ok s"
    using ok by (simp_all add: tree_ok_def)
  have i: "0 < i" "i < size_of s"
    using so(3) q(1) by (auto simp: queue_ok_def)
  have z0: "size_of s0 = size_of s" and i0: "stat s0 i = PENDING"
    using s0(1) i q(3) by (auto simp: same_tree_def)
  have "childless i s"
    unfolding childless_def
  proof (intro allI impI notI)
    fix c
    assume "c < size_of s" "par s c = Some i" "live (stat s c)"
    then have "i = 0 \<or> stat s i = IN_RECURSION"
      using so(2) unfolding order_ok_def by blast
    then show False
      using i(1) q(3) by simp
  qed
  then obtain s' where s': "update_status i (stat s0 i) IN_PROGRESS s0 = Inr s'" "struct_ok s'" "order_ok s'"
    "cand_ok s'" "same_shape s0 s'"
    and st1: "\<forall>j < size_of s0. stat s' j = (if j = i then IN_PROGRESS else stat s0 j)"
    and fr: "s'\<lparr>nodes := nodes s0\<rparr> = s0"
    using change_status [OF same_tree_struct [OF s0(1) so(1)] same_tree_order [OF s0(1) so(1,2)]
          same_tree_cand [OF s0(1) so(5)] i(1), of IN_PROGRESS] i i0 z0 same_tree_childless [OF s0(1)]
    by (metis live_simps(1) status_code.distinct(1))
  have st: "\<forall>j < size_of s. stat s' j = (if j = i then IN_PROGRESS else stat s j)"
    using st1 s0(1) by (simp add: same_tree_def)
  have sh: "same_shape s s'"
    using same_shape_trans [OF same_tree_shape [OF s0(1)] s'(5)] .
  have sz: "size_of s' = size_of s" and pr: "\<And>j. j < size_of s \<Longrightarrow> par s' j = par s j"
    using sh by (simp_all add: same_shape_def)
  have ap: "all_pending s' = rest"
    using fields_eq(2) [OF fr] s0(2) by simp
  have "filter (\<lambda>j. stat s j = PENDING) (all_pending s) = i # filter (\<lambda>j. stat s j = PENDING) rest"
    using q by simp
  then have d: "i \<notin> set (filter (\<lambda>j. stat s j = PENDING) rest)" "distinct (filter (\<lambda>j. stat s j = PENDING) rest)"
    using so(3) unfolding queue_ok_def by auto
  have r: "0 < j \<and> j < size_of s \<and> j \<noteq> i \<and> stat s' j = stat s j \<and> stat s j \<in> {PENDING, ABANDONED}"
    if "j \<in> set rest" for j
  proof -
    have "0 < j" "j < size_of s" "stat s j \<in> {PENDING, ABANDONED}"
      using so(3) q(1) that by (auto simp: queue_ok_def)
    moreover have "j \<noteq> i"
      using d(1) that q(3) by auto
    ultimately show ?thesis
      using st by simp
  qed
  have "filter (\<lambda>j. stat s' j = PENDING) rest = filter (\<lambda>j. stat s j = PENDING) rest"
    using r by (intro filter_cong) auto
  then have dd: "distinct (filter (\<lambda>j. stat s' j = PENDING) rest)"
    using d(2) by simp
  have m: "j \<in> set rest" if "j < size_of s" "stat s' j = PENDING" for j
  proof -
    have "j \<noteq> i" "stat s j = PENDING"
      using that st by (auto split: if_splits)
    moreover have "j \<in> set (all_pending s)"
      using so(3) that(1) \<open>stat s j = PENDING\<close> by (simp add: queue_ok_def)
    ultimately show ?thesis
      using q by auto
  qed
  have "queue_ok s'"
    using r dd m unfolding queue_ok_def sz ap by auto
  moreover have "tally s' x = tally s x" if "\<not> live x" for x
    using tally_change [OF i sz _ st, of x] that q(3) by auto
  then have "counts_ok s'"
    using so(4) fields_eq [OF fr] s0(3-5) by (simp add: counts_ok_def sz)
  moreover have "rec_ok {} s'"
    unfolding rec_ok_def sz
  proof (intro allI impI)
    fix j
    assume j: "j < size_of s" "0 < j" "stat s' j = IN_RECURSION"
    then have "stat s j = IN_RECURSION"
      using st by (auto split: if_splits)
    then obtain c where "c < size_of s" "par s c = Some j" "live (stat s c)"
      using ok(2) j unfolding rec_ok_def by auto
    then show "\<exists>c < size_of s. par s' c = Some j \<and> live (stat s' c)"
      using st pr by (intro exI [of _ c]) simp
  qed
  ultimately have "tree_inv s'"
    using s' by (simp add: tree_inv_def tree_ok_def)
  then show thesis
    using that s'(1) i0 sh st i by simp
qed

text \<open>
  What a round of pulling does to the tree. The special-q that the todo list gives must differ
  from those of the live nodes below the root.
\<close>

definition fresh_q :: "special_q \<Rightarrow> 'rel collection \<Rightarrow> bool" where
  "fresh_q q s =
    (\<forall>c < size_of s. par s c = Some 0 \<longrightarrow> live (stat s c) \<longrightarrow> key s c \<noteq> q)"

definition pull_moves :: "'rel collection \<Rightarrow> pull_result \<Rightarrow> 'rel collection \<Rightarrow> bool" where
  "pull_moves s r s' =
    (size_of s \<le> size_of s' \<and>
     (case r of
        Pulled i \<Rightarrow> 0 < i \<and> i < size_of s' \<and> stat s' i = IN_PROGRESS
          \<and> (i < size_of s \<longrightarrow> stat s i = PENDING)
          \<and> (\<forall>j < size_of s'. j \<noteq> i \<longrightarrow> j < size_of s \<and> stat s' j = stat s j)
      | _ \<Rightarrow> size_of s' = size_of s \<and> all_pending s' = []
          \<and> (\<forall>j < size_of s. stat s' j = stat s j \<and> stat s j \<noteq> PENDING)
          \<and> (r = No_task \<longleftrightarrow> \<not> done_count s' + abandoned s' < created s')))"

lemma pull_finish:
  assumes "update_status i PENDING IN_PROGRESS s0 = Inr s1" "tree_inv s1" "i < size_of s1"
  obtains s' where "sbind (update_status i PENDING IN_PROGRESS s0)
      (\<lambda>s. Inr (Pulled i, update_node i (\<lambda>n. n\<lparr>spent := - clock s\<rparr>) s)) = Inr (Pulled i, s')"
    "tree_inv s'" "same_tree s1 s'"
proof -
  define s' where "s' = update_node i (\<lambda>n. n\<lparr>spent := - clock s1\<rparr>) s1"
  have t: "same_tree s1 s'"
    unfolding s'_def by (rule same_tree_update [OF assms(3)]) simp
  then have "tree_inv s'"
    using assms(2) same_tree_ok [OF t] same_tree_rec [OF t]
    by (simp add: tree_inv_def same_counts_def s'_def)
  then show thesis
    using that assms(1) t by (simp add: s'_def)
qed

lemma pull_ok:
  fixes s :: "'rel collection"
  assumes inv: "tree_inv s" and fq: "sq_bool q \<longrightarrow> fresh_q q s"
  shows "\<exists>r s'. pull q s = Inr (r, s') \<and> tree_inv s' \<and> pull_moves s r s'"
proof -
  have ok: "tree_ok s" "rec_ok {} s"
    using inv by (simp_all add: tree_inv_def)
  have so: "struct_ok s" "queue_ok s"
    using ok by (simp_all add: tree_ok_def)
  have at: "status (nodes s ! j) = stat s j" for j
    by (simp add: stat_def node_at_def)
  consider pre i rest n where "pull_pending (nodes s) (all_pending s) (pulled s) = (Some i, rest, n)"
      "all_pending s = pre @ i # rest" "\<forall>j\<in>set pre. stat s j = ABANDONED" "stat s i \<noteq> ABANDONED"
    | n where "pull_pending (nodes s) (all_pending s) (pulled s) = (None, [], n)"
      "\<forall>j\<in>set (all_pending s). stat s j = ABANDONED"
    using pull_pending_cases [of "nodes s" "all_pending s" "pulled s"] unfolding at by blast
  then show ?thesis
  proof cases
    case 1
    define s0 where "s0 = s\<lparr>all_pending := rest, pulled := n\<rparr>"
    have t: "same_tree s s0"
      by (simp add: s0_def same_tree_def read_defs)
    have "stat s i = PENDING"
      using so(2) 1(2,4) by (auto simp: queue_ok_def)
    then obtain s1 where s1: "update_status i PENDING IN_PROGRESS s0 = Inr s1" "tree_inv s1" "same_shape s s1"
      "\<forall>j < size_of s. stat s1 j = (if j = i then IN_PROGRESS else stat s j)" "0 < i" "i < size_of s"
      using pull_update [OF ok 1(2,3) _ t] by (auto simp: s0_def)
    have z1: "size_of s1 = size_of s"
      using s1(3) by (simp add: same_shape_def)
    obtain s' where s': "sbind (update_status i PENDING IN_PROGRESS s0)
        (\<lambda>s. Inr (Pulled i, update_node i (\<lambda>n. n\<lparr>spent := - clock s\<rparr>) s)) = Inr (Pulled i, s')"
      "tree_inv s'" "same_tree s1 s'"
      using pull_finish [OF s1(1,2)] s1(6) z1 by auto
    have "pull q s = Inr (Pulled i, s')"
      using 1(1) s'(1) by (simp add: pull_def pull_internal_def s0_def)
    moreover have "pull_moves s (Pulled i) s'"
      using s'(3) s1(4-6) z1 \<open>stat s i = PENDING\<close> by (auto simp: pull_moves_def same_tree_def)
    ultimately show ?thesis
      using s'(2) by blast
  next
    case 2
    have none: "stat s j \<noteq> PENDING" if "j < size_of s" for j
      using so(2) that 2(2) by (fastforce simp: queue_ok_def)
    have ok0: "tree_ok s0" "rec_ok {} s0" if "same_tree s s0" "all_pending s0 = []" "created s0 = created s"
      "done_count s0 = done_count s" "abandoned s0 = abandoned s" for s0 :: "'rel collection"
    proof -
      have "queue_ok s0"
        using none that(1,2) by (auto simp: queue_ok_def same_tree_def)
      then show "tree_ok s0"
        using ok(1) that same_tree_struct [OF that(1)] same_tree_order [OF that(1)] same_tree_cand [OF that(1)]
          same_tree_tally [OF that(1)] by (auto simp: tree_ok_def counts_ok_def same_tree_def)
      show "rec_ok {} s0"
        using same_tree_rec [OF that(1) ok(2)] .
    qed
    show ?thesis
    proof (cases "sq_bool q")
      case False
      define s0 where "s0 = s\<lparr>all_pending := [], pulled := n\<rparr>"
      have t: "same_tree s s0"
        by (simp add: s0_def same_tree_def read_defs)
      have i0: "tree_inv s0"
        using ok0 [OF t] by (simp add: tree_inv_def s0_def)
      define r where "r = (if done_count s0 + abandoned s0 < created s0 then Must_wait else No_task)"
      have "pull q s = Inr (r, s0)"
        using 2(1) False by (simp add: pull_def pull_internal_def s0_def r_def)
      moreover have "pull_moves s r s0"
        using t none by (auto simp: pull_moves_def same_tree_def r_def s0_def)
      ultimately show ?thesis
        using i0 by blast
    next
      case True
      define s0 where "s0 = s\<lparr>all_pending := [], pulled := n + 1\<rparr>"
      have t: "same_tree s s0"
        by (simp add: s0_def same_tree_def read_defs)
      define s1 where "s1 = new_node_unlocked q None s0"
      define s2 where "s2 = s1\<lparr>all_pending := []\<rparr>"
      have z0: "size_of s0 = size_of s" "0 < size_of s0"
        using t so(1) by (auto simp: same_tree_def struct_ok_def)
      have p0: "(0 :: nat) = (case None of None \<Rightarrow> 0 | Some p \<Rightarrow> p)"
        by simp
      note new = new_node_at [OF z0(2) p0 s1_def, unfolded z0(1)]
      have "\<forall>c < size_of s0. par s0 c = Some 0 \<longrightarrow> live (stat s0 c) \<longrightarrow> key s0 c \<noteq> q"
        using fq True t by (auto simp: fresh_q_def same_tree_def)
      then have ok1: "tree_ok s1" "rec_ok {} s1"
        using new_node_ok(1) [OF ok0(1) [OF t] z0(2) p0 _ True _ s1_def]
          new_node_ok(2) [OF ok0(1) [OF t] z0(2) p0 _ True _ s1_def ok0(2) [OF t]]
        by (auto simp: s0_def)
      have q1: "all_pending s1 = [] @ size_of s # []"
        using new(2) by (simp add: s0_def)
      have t2: "same_tree s1 s2"
        by (simp add: s2_def)
      obtain s3 where s3: "update_status (size_of s) PENDING IN_PROGRESS s2 = Inr s3" "tree_inv s3"
        "same_shape s1 s3" "\<forall>j < size_of s1. stat s3 j = (if j = size_of s then IN_PROGRESS else stat s1 j)"
        by (rule pull_update [OF ok1 q1 _ new(10) t2]) (simp_all add: s2_def)
      have z3: "size_of s3 = Suc (size_of s)"
        using s3(3) new(1) by (simp add: same_shape_def)
      obtain s' where s': "sbind (update_status (size_of s) PENDING IN_PROGRESS s2)
          (\<lambda>s'. Inr (Pulled (size_of s), update_node (size_of s) (\<lambda>n. n\<lparr>spent := - clock s'\<rparr>) s'))
            = Inr (Pulled (size_of s), s')"
        "tree_inv s'" "same_tree s3 s'"
        using pull_finish [OF s3(1,2)] z3 by auto
      have e: "new_node_unlocked q None (s\<lparr>all_pending := [], pulled := Suc n\<rparr>) = s1"
        by (simp add: s1_def s0_def)
      have "pull_internal q s = Inr (Some (size_of s), s2)"
        using 2(1) True q1 new(10,12)
        by (simp add: pull_internal_def Let_def e s2_def stat_def key_def)
      then have "pull q s = Inr (Pulled (size_of s), s')"
        using s'(1) by (simp add: pull_def)
      moreover have "pull_moves s (Pulled (size_of s)) s'"
        using s'(3) s3(4) z3 new(1,9) z0 t so(1)
        by (auto simp: pull_moves_def same_tree_def struct_ok_def less_Suc_eq)
      ultimately show ?thesis
        using s'(2) by blast
    qed
  qed
qed

text \<open>
  Pulling itself succeeds with any special-q: when a new node is made no node is pending, so the
  set that it moves out of holds nothing else.
\<close>

lemma pull_new_defined:
  fixes s :: "'rel collection"
  assumes so: "struct_ok s" and none: "\<And>j. j < size_of s \<Longrightarrow> stat s j \<noteq> PENDING"
    and pp: "pull_pending (nodes s) (all_pending s) (pulled s) = (None, rest, n)" "rest = []"
    and q: "sq_bool q"
  shows "\<exists>s'. pull q s = Inr (Pulled (size_of s), s')"
proof -
  define s0 where "s0 = s\<lparr>all_pending := [], pulled := n + 1\<rparr>"
  define s1 where "s1 = new_node_unlocked q None s0"
  define s2 where "s2 = s1\<lparr>all_pending := []\<rparr>"
  have t: "same_tree s s0"
    by (simp add: s0_def same_tree_def read_defs)
  have z: "0 < size_of s" "size_of s0 = size_of s"
    using so t by (auto simp: struct_ok_def same_tree_def)
  have p0: "(0 :: nat) = (case None of None \<Rightarrow> 0 | Some p \<Rightarrow> p)"
    by simp
  note new = new_node_at [OF z(1) [folded z(2)] p0 s1_def, unfolded z(2)]
  have r2: "stat s2 = stat s1" "par s2 = par s1" "key s2 = key s1" "kids s2 = kids s1" "size_of s2 = size_of s1"
    by (simp_all add: s2_def read_defs fun_eq_iff)
  have "kids s 0 PENDING = []"
    using struct_kids(2) [OF so z(1), of PENDING] none by (simp add: set_empty [symmetric] del: set_empty)
  then have k: "kids s2 0 PENDING = [size_of s]"
    using new(15) [OF z(1)] t z(1) by (simp add: r2 same_tree_def)
  obtain s3 where s3: "update_status (size_of s) (stat s2 (size_of s)) IN_PROGRESS s2 = Inr s3"
    using update_status_nodes [of s2 "size_of s" 0 IN_PROGRESS] new(1,10,11) z(1) k by (auto simp: r2)
  have e: "new_node_unlocked q None (s\<lparr>all_pending := [], pulled := Suc n\<rparr>) = s1"
    by (simp add: s1_def s0_def)
  have "pull_internal q s = Inr (Some (size_of s), s2)"
    using pp q new(2,10,12) by (simp add: pull_internal_def Let_def e s0_def s2_def stat_def key_def)
  then show ?thesis
    using s3 new(10) by (simp add: pull_def r2)
qed

lemma pull_defined:
  fixes s :: "'rel collection"
  assumes inv: "tree_inv s"
  shows "\<exists>r s'. pull q s = Inr (r, s')"
proof -
  have so: "struct_ok s" "queue_ok s"
    using inv by (simp_all add: tree_inv_def tree_ok_def)
  have at: "status (nodes s ! j) = stat s j" for j
    by (simp add: stat_def node_at_def)
  obtain i rest n where pp: "pull_pending (nodes s) (all_pending s) (pulled s) = (i, rest, n)"
    by (metis surj_pair)
  have d: "\<not> sq_bool default_special_q"
    by (simp add: sq_bool_def default_special_q_def)
  show ?thesis
  proof (cases "i = None \<and> sq_bool q")
    case True
    then have r: "rest = []" "\<forall>j\<in>set (all_pending s). stat s j = ABANDONED"
      using pull_pending_cases [of "nodes s" "all_pending s" "pulled s"] pp unfolding at by auto
    then have "stat s j \<noteq> PENDING" if "j < size_of s" for j
      using so(2) that by (fastforce simp: queue_ok_def)
    then show ?thesis
      using pull_new_defined [OF so(1) _ _ r(1)] pp True by blast
  next
    case False
    then have "pull q s = pull default_special_q s"
      using d by (cases i) (simp_all add: pull_def pull_internal_def pp)
    then show ?thesis
      using pull_ok [OF inv, of default_special_q] d by auto
  qed
qed

text \<open>Postprocessing a task.\<close>

inductive status_edge :: "status_code \<Rightarrow> status_code \<Rightarrow> bool" where
  edge_pull: "status_edge PENDING IN_PROGRESS"
| edge_recurse: "status_edge IN_PROGRESS IN_RECURSION"
| edge_done: "st \<in> {IN_PROGRESS, IN_RECURSION} \<Longrightarrow> status_edge st DONE"
| edge_retry: "st \<in> {IN_PROGRESS, IN_RECURSION} \<Longrightarrow> status_edge st PENDING"
| edge_abandon: "live st \<Longrightarrow> status_edge st ABANDONED"

inductive_simps status_edge_simps: "status_edge st st'"

inductive_cases status_edge_from_final: "status_edge DONE st" "status_edge ABANDONED st"

definition finish_moves :: "nat \<Rightarrow> 'rel collection \<Rightarrow> 'rel collection \<Rightarrow> bool" where
  "finish_moves i s s' =
    (size_of s \<le> size_of s' \<and> stat s' i \<noteq> IN_PROGRESS
     \<and> (\<forall>j < size_of s. j \<noteq> i \<longrightarrow> stat s j = IN_PROGRESS \<longrightarrow> stat s' j \<in> {IN_PROGRESS, ABANDONED})
     \<and> (\<forall>j < size_of s. stat s j = ABANDONED \<longrightarrow> stat s' j = ABANDONED)
     \<and> (\<forall>j < size_of s. stat s' j = stat s j \<or> status_edge (stat s j) (stat s' j))
     \<and> (\<forall>j < size_of s'. stat s' j = IN_PROGRESS \<longrightarrow> j < size_of s \<and> stat s j = IN_PROGRESS))"

lemma postprocess_ok:
  fixes s :: "'rel collection"
  assumes inv: "tree_inv s" and i: "0 < i" "i < size_of s" "stat s i \<in> {IN_PROGRESS, ABANDONED}"
    and f: "2 * size_of s + 2 + i \<le> fuel"
  shows "\<exists>s'. postprocess fuel rd i m s = Inr s' \<and> tree_inv s' \<and> finish_moves i s s'"
proof -
  have ok: "tree_ok s" "rec_ok {i} s"
    using inv by (auto simp: tree_inv_def rec_ok_def)
  consider "rel (cand s i) \<noteq> None" "stat s i = ABANDONED"
    | "rel (cand s i) \<noteq> None" "stat s i = IN_PROGRESS" | "rel (cand s i) = None"
    using i(3) by auto
  then show ?thesis
  proof cases
    case 1
    then have "postprocess fuel rd i m s = Inr s"
      by (simp add: postprocess_def take_decision_def cand_def stat_def)
    then show ?thesis
      using inv 1 by (auto simp: finish_moves_def)
  next
    case 2
    obtain s' where s': "take_decision fuel rd i s = Inr s'" "tree_inv s'" "size_of s \<le> size_of s'"
      "decision_moves i s s'" "stat s' i \<in> {IN_RECURSION, DONE}"
      using take_decision_ok [OF inv i(1,2) 2(2), of fuel rd] f by auto
    have "postprocess fuel rd i m s = Inr s'"
      using 2(1) s'(1) by (simp add: postprocess_def cand_def)
    moreover have "finish_moves i s s'"
      unfolding finish_moves_def
    proof (intro conjI allI impI)
      fix j
      assume j: "j < size_of s'" "stat s' j = IN_PROGRESS"
      have l: "j < size_of s"
        using s'(4) j unfolding decision_moves_def by (metis not_less status_code.distinct(1))
      then show "j < size_of s" .
      show "stat s j = IN_PROGRESS"
        using s'(4) j l unfolding decision_moves_def by auto
    next
      fix j
      assume j: "j < size_of s"
      then show "stat s' j = stat s j \<or> status_edge (stat s j) (stat s' j)"
        using s'(4) unfolding decision_moves_def status_edge_simps by auto
    qed (use s' in \<open>auto simp: decision_moves_def\<close>)
    ultimately show ?thesis
      using s'(2) by blast
  next
    case 3
    obtain s' where s': "abandon_node_unlocked fuel i m False s = Inr s'" "tree_inv s'" "same_shape s s'"
      "abandon_moves i s s'" "stat s i \<noteq> ABANDONED \<longrightarrow> stat s' i \<in> {PENDING, ABANDONED}"
      using abandon_ok [OF ok i(2) _ f, of m] i(3) by auto
    have "postprocess fuel rd i m s = Inr s'"
      using 3 s'(1) by (simp add: postprocess_def abandon_node_def cand_def)
    moreover have "finish_moves i s s'"
    proof -
      have "\<forall>j < size_of s. stat s' j = stat s j \<or> status_edge (stat s j) (stat s' j)"
        using s'(4) unfolding abandon_moves_def status_edge_simps by auto
      moreover have "stat s' j \<in> {IN_PROGRESS, ABANDONED}"
        if "j < size_of s" "j \<noteq> i" "stat s j = IN_PROGRESS" for j
        using s'(4) that unfolding abandon_moves_def by auto
      moreover have "stat s' j = ABANDONED" if "j < size_of s" "stat s j = ABANDONED" for j
        using s'(4) that unfolding abandon_moves_def by auto
      moreover have "stat s j = IN_PROGRESS" if "j < size_of s" "stat s' j = IN_PROGRESS" for j
        using s'(4) that unfolding abandon_moves_def by auto
      moreover have "stat s' i \<noteq> IN_PROGRESS"
        using s'(4,5) i(2,3) unfolding abandon_moves_def by auto
      ultimately show ?thesis
        using s'(3) unfolding finish_moves_def same_shape_def by simp
    qed
    ultimately show ?thesis
      using s'(2) by blast
  qed
qed

end
