(* ===== verification/TaskTreeSys.thy ===== *)
theory TaskTreeSys
  imports TaskTreeRun
begin

text \<open>
  The system of the special-q task tree and the threads of the siever (the loop over tasks of
  \<^verbatim>\<open>las_subjob\<close> in \<^verbatim>\<open>src/sieve/las.cpp\<close>), as an inductive step relation, with the properties of its
  reachable states. A thread pulls a task, finds candidate relations for it, postprocesses it and
  goes on; it waits on the condition variable of the tree or ends as \<^verbatim>\<open>pull\<close> tells it, and it
  ends before a pull when \<^verbatim>\<open>global_exit_semaphore\<close> is set. When \<^verbatim>\<open>do_one_special_q\<close> discards the
  special-q, the thread goes on without postprocessing the task. Redoing a task with larger buckets
  changes neither the tree nor the threads. What the todo list may hand out is a parameter of the
  system.
\<close>

section \<open>The system\<close>

datatype thread = Idle | Working nat | Waiting | Exited

text \<open>The last field is not in the code: it remembers the tasks that were discarded.\<close>

record 'rel system =
  tree :: "'rel collection"
  threads :: "thread list"
  discarded :: "nat set"

definition init_system :: "int \<Rightarrow> nat \<Rightarrow> 'rel system" where
  "init_system now n = \<lparr>tree = init_collection now, threads = replicate n Idle, discarded = {}\<rparr>"

fun after_pull :: "pull_result \<Rightarrow> thread" where
  "after_pull (Pulled i) = Working i"
| "after_pull No_task = Exited"
| "after_pull Must_wait = Waiting"

text \<open>A notification wakes up all threads that wait.\<close>

definition wake :: "nat \<Rightarrow> nat \<Rightarrow> thread list \<Rightarrow> thread list" where
  "wake before after ths = (if before < after then map (\<lambda>t. if t = Waiting then Idle else t) ths else ths)"

definition enough_fuel :: "'rel collection \<Rightarrow> nat \<Rightarrow> nat" where
  "enough_fuel s i = 2 * size_of s + 2 + i"

definition set_contender :: "nat \<Rightarrow> 'rel candidate \<Rightarrow> 'rel collection \<Rightarrow> 'rel collection" where
  "set_contender i c s = update_node i (\<lambda>n. n\<lparr>contender := c\<rparr>) s"

text \<open>
  \<^term>\<open>feeds q s\<close> tells whether \<^verbatim>\<open>feed_and_pop\<close> may hand out \<open>q\<close> when the tree is \<open>s\<close>. The code does not
  restrict it; most of the properties below hold when it hands out no special-q that a live task
  below the root has (\<^term>\<open>fresh_q\<close>).
\<close>

inductive sys_step ::
    "(special_q \<Rightarrow> 'rel collection \<Rightarrow> bool) \<Rightarrow> bool \<Rightarrow> int \<Rightarrow> 'rel system \<Rightarrow> 'rel system \<Rightarrow> bool"
  for feeds rd m where
  pull_step: "t < length (threads S) \<Longrightarrow> threads S ! t = Idle \<Longrightarrow>
    sq_bool q \<longrightarrow> feeds q (tree S) \<Longrightarrow> pull q (tree S) = Inr (r, s') \<Longrightarrow>
    sys_step feeds rd m S (S\<lparr>tree := s', threads := (threads S)[t := after_pull r]\<rparr>)"
| candidate_step: "t < length (threads S) \<Longrightarrow> threads S ! t = Working i \<Longrightarrow>
    distinct (outstanding c) \<Longrightarrow> \<forall>q\<in>set (outstanding c). sq_bool q \<Longrightarrow>
    sys_step feeds rd m S (S\<lparr>tree := set_contender i c (tree S)\<rparr>)"
| finish_step: "t < length (threads S) \<Longrightarrow> threads S ! t = Working i \<Longrightarrow>
    postprocess (enough_fuel (tree S) i) rd i m (tree S) = Inr s' \<Longrightarrow>
    sys_step feeds rd m S
      (S\<lparr>tree := s', threads := wake (notified (tree S)) (notified s') ((threads S)[t := Idle])\<rparr>)"
| discard_step: "t < length (threads S) \<Longrightarrow> threads S ! t = Working i \<Longrightarrow>
    sys_step feeds rd m S
      (S\<lparr>threads := (threads S)[t := Idle], discarded := insert i (discarded S)\<rparr>)"
| exit_step: "t < length (threads S) \<Longrightarrow> threads S ! t = Idle \<Longrightarrow>
    sys_step feeds rd m S (S\<lparr>threads := (threads S)[t := Exited]\<rparr>)"
| tick_step: "sys_step feeds rd m S (S\<lparr>tree := (tree S)\<lparr>clock := now\<rparr>\<rparr>)"

inductive reachable ::
    "(special_q \<Rightarrow> 'rel collection \<Rightarrow> bool) \<Rightarrow> bool \<Rightarrow> int \<Rightarrow> 'rel system \<Rightarrow> bool" for feeds rd m where
  start: "reachable feeds rd m (init_system now n)"
| more: "reachable feeds rd m S \<Longrightarrow> sys_step feeds rd m S S' \<Longrightarrow> reachable feeds rd m S'"

section \<open>The invariant\<close>

text \<open>
  The tasks that threads work on are in progress or were abandoned meanwhile, no two threads work
  on the same task, every task in progress has its thread or was discarded, and a discarded task
  is in progress or abandoned and has no thread.
\<close>

definition one_thread_each :: "thread list \<Rightarrow> bool" where
  "one_thread_each ths =
    (\<forall>t < length ths. \<forall>u < length ths. \<forall>i. ths ! t = Working i \<longrightarrow> ths ! u = Working i \<longrightarrow> t = u)"

definition sys_inv :: "'rel system \<Rightarrow> bool" where
  "sys_inv S =
    (tree_inv (tree S)
     \<and> (\<forall>i. Working i \<in> set (threads S) \<longrightarrow>
          0 < i \<and> i < size_of (tree S) \<and> stat (tree S) i \<in> {IN_PROGRESS, ABANDONED})
     \<and> one_thread_each (threads S)
     \<and> (\<forall>i < size_of (tree S). stat (tree S) i = IN_PROGRESS \<longrightarrow>
          Working i \<in> set (threads S) \<or> i \<in> discarded S)
     \<and> (\<forall>i\<in>discarded S. 0 < i \<and> i < size_of (tree S) \<and> stat (tree S) i \<in> {IN_PROGRESS, ABANDONED}
          \<and> Working i \<notin> set (threads S)))"

lemma sys_invD:
  assumes "sys_inv S"
  shows "tree_inv (tree S)"
    and "Working i \<in> set (threads S) \<Longrightarrow>
      0 < i \<and> i < size_of (tree S) \<and> stat (tree S) i \<in> {IN_PROGRESS, ABANDONED}"
    and "one_thread_each (threads S)"
    and "i < size_of (tree S) \<Longrightarrow> stat (tree S) i = IN_PROGRESS \<Longrightarrow>
      Working i \<in> set (threads S) \<or> i \<in> discarded S"
    and "i \<in> discarded S \<Longrightarrow> 0 < i \<and> i < size_of (tree S) \<and> stat (tree S) i \<in> {IN_PROGRESS, ABANDONED}
      \<and> Working i \<notin> set (threads S)"
  using assms by (auto simp: sys_inv_def)

lemma sys_invI:
  assumes "tree_inv (tree S)" "one_thread_each (threads S)"
    and "\<And>i. Working i \<in> set (threads S) \<or> i \<in> discarded S \<Longrightarrow>
      0 < i \<and> i < size_of (tree S) \<and> stat (tree S) i \<in> {IN_PROGRESS, ABANDONED}"
    and "\<And>i. i < size_of (tree S) \<Longrightarrow> stat (tree S) i = IN_PROGRESS \<Longrightarrow>
      Working i \<in> set (threads S) \<or> i \<in> discarded S"
    and "\<And>i. i \<in> discarded S \<Longrightarrow> Working i \<notin> set (threads S)"
  shows "sys_inv S"
  unfolding sys_inv_def using assms by blast

lemma sys_inv_thread:
  assumes "sys_inv S" "t < length (threads S)" "threads S ! t = Working i"
  shows "0 < i \<and> i < size_of (tree S) \<and> stat (tree S) i \<in> {IN_PROGRESS, ABANDONED}"
proof -
  have "Working i \<in> set (threads S)"
    using assms(2,3) by (metis nth_mem)
  then show ?thesis
    using sys_invD(2) [OF assms(1)] by blast
qed

text \<open>A thread takes up a task, or leaves the one that it works on; a notification changes no work.\<close>

lemma one_thread_update:
  assumes "one_thread_each ths" "t < length ths" "\<And>i. x = Working i \<Longrightarrow> Working i \<notin> set ths"
  shows "one_thread_each (ths[t := x])"
proof -
  have "ths ! u \<noteq> x" if "u < length ths" "x = Working i" for u i
    using assms(3) [OF that(2)] that by (metis nth_mem)
  then show ?thesis
    using assms(1,2) unfolding one_thread_each_def by (auto simp: nth_list_update)
qed

lemma work_update:
  assumes "t < length ths"
  shows "Working j \<in> set (ths[t := x]) \<longleftrightarrow> x = Working j \<or> (\<exists>u < length ths. u \<noteq> t \<and> ths ! u = Working j)"
  unfolding in_set_conv_nth length_list_update using assms by (metis nth_list_update_eq nth_list_update_neq)

lemma work_taken:
  assumes "t < length ths" "\<And>i. ths ! t \<noteq> Working i"
  shows "Working j \<in> set (ths[t := x]) \<longleftrightarrow> x = Working j \<or> Working j \<in> set ths"
  using work_update [OF assms(1), of j x] assms(2) unfolding in_set_conv_nth by metis

lemma work_left:
  assumes "one_thread_each ths" "t < length ths" "ths ! t = Working i" "\<And>j. x \<noteq> Working j"
  shows "Working j \<in> set (ths[t := x]) \<longleftrightarrow> Working j \<in> set ths \<and> j \<noteq> i"
  using work_update [OF assms(2), of j x] assms unfolding one_thread_each_def in_set_conv_nth
  by (metis thread.inject)

lemma work_wake:
  "Working i \<in> set (wake a b ths) \<longleftrightarrow> Working i \<in> set ths"
  "one_thread_each (wake a b ths) \<longleftrightarrow> one_thread_each ths"
  by (auto simp: wake_def one_thread_each_def image_iff split: if_splits)

lemma init_tree_inv: "tree_inv (init_collection now)"
proof -
  define s where "s = (init_collection now :: 'a collection)"
  have sz: "size_of s = 1"
    by (simp add: s_def size_of_def init_collection_def)
  have at: "stat s 0 = IN_RECURSION" "par s 0 = None" "key s 0 = default_special_q" "kids s 0 st = []"
    "cand s 0 = \<lparr>rel = None, outstanding = []\<rparr>" for st
    by (simp_all add: s_def read_defs init_collection_def new_tree_node_def node_at_def)
  have f: "all_pending s = []" "created s = 0" "done_count s = 0" "abandoned s = 0"
    by (simp_all add: s_def init_collection_def)
  have "tally s x = 0" for x
    by (auto simp: tally_def sz)
  moreover have "par s c = Some 0 \<Longrightarrow> 0 < c" for c
    using at(2) by (cases "c = 0") auto
  ultimately have "tree_inv s"
    using at f by (auto simp add: tree_inv_def tree_ok_def struct_ok_def order_ok_def queue_ok_def counts_ok_def
        cand_ok_def rec_ok_def sets_ok_def ordered_kids_def child_set_def sz sq_bool_def default_special_q_def)
  then show ?thesis
    by (simp add: s_def)
qed

lemma init_sys_inv: "sys_inv (init_system now n)"
proof -
  have "stat (init_collection now :: 'a collection) i \<noteq> IN_PROGRESS" if "i < size_of (init_collection now :: 'a collection)" for i
    using that by (simp add: stat_def init_collection_def node_at_def size_of_def new_tree_node_def)
  then show ?thesis
    by (auto simp: sys_inv_def init_system_def init_tree_inv one_thread_each_def)
qed

lemma pull_step_inv:
  assumes inv: "sys_inv S" and t: "t < length (threads S)" "threads S ! t = Idle"
    and fq: "sq_bool q \<longrightarrow> fresh_q q (tree S)" and p: "pull q (tree S) = Inr (r, s')"
  shows "sys_inv (S\<lparr>tree := s', threads := (threads S)[t := after_pull r]\<rparr>)"
proof -
  have ok: "tree_inv s'" "pull_moves (tree S) r s'"
    using pull_ok [OF sys_invD(1) [OF inv] fq] p by auto
  have w: "Working j \<in> set ((threads S)[t := x]) \<longleftrightarrow> x = Working j \<or> Working j \<in> set (threads S)" for x j
    using t by (intro work_taken) auto
  have busy: "i < size_of (tree S) \<and> stat (tree S) i \<noteq> PENDING"
    if "Working i \<in> set (threads S) \<or> i \<in> discarded S" for i
    using that sys_invD(2) [OF inv, of i] sys_invD(5) [OF inv, of i] by (auto simp del: not_gr_zero)
  show ?thesis
  proof (cases r)
    case (Pulled i)
    then have i: "0 < i" "i < size_of s'" "stat s' i = IN_PROGRESS" "size_of (tree S) \<le> size_of s'"
      "Working i \<notin> set (threads S)" "i \<notin> discarded S"
      and old: "\<And>j. j < size_of s' \<Longrightarrow> j \<noteq> i \<Longrightarrow> j < size_of (tree S) \<and> stat s' j = stat (tree S) j"
      using ok(2) busy [of i] by (auto simp: pull_moves_def)
    have keep: "j < size_of s' \<and> j \<noteq> i \<and> stat s' j = stat (tree S) j"
      if "Working j \<in> set (threads S) \<or> j \<in> discarded S" for j
      using that busy [of j] i(4-6) old [of j] by auto
    have "one_thread_each ((threads S)[t := Working i])"
      using one_thread_update [OF sys_invD(3) [OF inv] t(1)] i(5) by auto
    moreover have "Working j \<in> set (threads S) \<or> j \<in> discarded S" if "j < size_of s'" "j \<noteq> i" "stat s' j = IN_PROGRESS" for j
      using sys_invD(4) [OF inv, of j] old [OF that(1,2)] that(3) by auto
    ultimately show ?thesis
      using ok(1) i keep sys_invD(2,5) [OF inv] unfolding sys_inv_def by (auto simp: w Pulled)
  next
    case No_task
    then have "size_of s' = size_of (tree S)" "\<And>j. j < size_of (tree S) \<Longrightarrow> stat s' j = stat (tree S) j"
      using ok(2) by (auto simp: pull_moves_def)
    then show ?thesis
      using ok(1) inv one_thread_update [OF sys_invD(3) [OF inv] t(1), of Exited]
      unfolding sys_inv_def No_task by (auto simp: w)
  next
    case Must_wait
    then have "size_of s' = size_of (tree S)" "\<And>j. j < size_of (tree S) \<Longrightarrow> stat s' j = stat (tree S) j"
      using ok(2) by (auto simp: pull_moves_def)
    then show ?thesis
      using ok(1) inv one_thread_update [OF sys_invD(3) [OF inv] t(1), of Waiting]
      unfolding sys_inv_def Must_wait by (auto simp: w)
  qed
qed

lemma contender_inv:
  assumes inv: "tree_inv s" and i: "i < size_of s"
    and c: "distinct (outstanding c)" "\<forall>q\<in>set (outstanding c). sq_bool q"
  shows "tree_inv (set_contender i c s)" "size_of (set_contender i c s) = size_of s"
    "stat (set_contender i c s) j = stat s j"
proof -
  define s' where "s' = set_contender i c s"
  have at: "stat s' j = stat s j" "par s' j = par s j" "key s' j = key s j" "kids s' j = kids s j"
    "cand s' j = (if j = i then c else cand s j)" for j
    using i by (simp_all add: s'_def set_contender_def read_defs)
  have sz: "size_of s' = size_of s" and f: "all_pending s' = all_pending s" "created s' = created s"
    "done_count s' = done_count s" "abandoned s' = abandoned s"
    by (simp_all add: s'_def set_contender_def)
  have tl: "tally s' x = tally s x" for x
    by (simp add: tally_def sz at)
  have "sets_ok s'"
  proof (rule sets_ok_same)
    show "sets_ok s"
      using inv by (simp add: tree_inv_def tree_ok_def struct_ok_def)
  qed (simp_all add: sz at)
  then have "tree_inv s'"
    using inv c unfolding tree_inv_def tree_ok_def struct_ok_def order_ok_def queue_ok_def counts_ok_def
      cand_ok_def rec_ok_def sz at f tl by (simp only: if_split) simp
  then show "tree_inv (set_contender i c s)"
    by (simp add: s'_def)
  show "size_of (set_contender i c s) = size_of s" "stat (set_contender i c s) j = stat s j"
    using sz at(1) by (simp_all add: s'_def)
qed

lemma candidate_step_inv:
  assumes inv: "sys_inv S" and t: "t < length (threads S)" "threads S ! t = Working i"
    and c: "distinct (outstanding c)" "\<forall>q\<in>set (outstanding c). sq_bool q"
  shows "sys_inv (S\<lparr>tree := set_contender i c (tree S)\<rparr>)"
proof -
  have "i < size_of (tree S)"
    using sys_inv_thread [OF inv t] by simp
  note k = contender_inv [OF sys_invD(1) [OF inv] this c]
  show ?thesis
    using inv k unfolding sys_inv_def by simp
qed

lemma clock_inv: "tree_inv s \<Longrightarrow> tree_inv (s\<lparr>clock := now\<rparr>)"
  and clock_stat: "stat (s\<lparr>clock := now\<rparr>) i = stat s i"
  and clock_size: "size_of (s\<lparr>clock := now\<rparr>) = size_of s"
proof -
  have t: "same_tree s (s\<lparr>clock := now\<rparr>)" and c: "same_counts s (s\<lparr>clock := now\<rparr>)"
    by (simp_all add: same_tree_def same_counts_def read_defs node_at_def size_of_def)
  show "tree_inv s \<Longrightarrow> tree_inv (s\<lparr>clock := now\<rparr>)"
    using same_tree_ok [OF t c] same_tree_rec [OF t] by (simp add: tree_inv_def)
  show "stat (s\<lparr>clock := now\<rparr>) i = stat s i" "size_of (s\<lparr>clock := now\<rparr>) = size_of s"
    by (simp_all add: stat_def node_at_def size_of_def)
qed

lemma finish_step_inv:
  assumes inv: "sys_inv S" and t: "t < length (threads S)" "threads S ! t = Working i"
    and p: "postprocess (enough_fuel (tree S) i) rd i m (tree S) = Inr s'"
  shows "sys_inv (S\<lparr>tree := s', threads := wake a b ((threads S)[t := Idle])\<rparr>)"
proof -
  have i: "0 < i" "i < size_of (tree S)" "stat (tree S) i \<in> {IN_PROGRESS, ABANDONED}"
    using sys_inv_thread [OF inv t] by auto
  have ok: "tree_inv s'" "finish_moves i (tree S) s'"
    using postprocess_ok [OF sys_invD(1) [OF inv] i, of "enough_fuel (tree S) i" rd m] p
    by (auto simp: enough_fuel_def)
  have w: "Working j \<in> set (wake a b ((threads S)[t := Idle])) \<longleftrightarrow> Working j \<in> set (threads S) \<and> j \<noteq> i" for j
    unfolding work_wake using work_left [OF sys_invD(3) [OF inv] t, of Idle] by simp
  have "Working i \<in> set (threads S)"
    using t by (metis nth_mem)
  then have d: "i \<notin> discarded S"
    using sys_invD(5) [OF inv] by blast
  have keep: "0 < j \<and> j < size_of s' \<and> stat s' j \<in> {IN_PROGRESS, ABANDONED}"
    if "Working j \<in> set (threads S) \<and> j \<noteq> i \<or> j \<in> discarded S" for j
  proof -
    have "j \<noteq> i" "0 < j" "j < size_of (tree S)" "stat (tree S) j \<in> {IN_PROGRESS, ABANDONED}"
      using that d sys_invD(2) [OF inv, of j] sys_invD(5) [OF inv, of j] by blast+
    then show ?thesis
      using ok(2) unfolding finish_moves_def by (metis insertCI insertE order_less_le_trans singletonD)
  qed
  have "Working j \<in> set (threads S) \<and> j \<noteq> i \<or> j \<in> discarded S"
    if "j < size_of s'" "stat s' j = IN_PROGRESS" for j
    using sys_invD(4) [OF inv, of j] ok(2) that unfolding finish_moves_def by metis
  moreover have "one_thread_each ((threads S)[t := Idle])"
    using one_thread_update [OF sys_invD(3) [OF inv] t(1)] by auto
  ultimately show ?thesis
    using ok(1) keep sys_invD(5) [OF inv] by (intro sys_invI) (simp_all add: w work_wake(2))
qed

lemma discard_step_inv:
  assumes inv: "sys_inv S" and t: "t < length (threads S)" "threads S ! t = Working i"
  shows "sys_inv (S\<lparr>threads := (threads S)[t := Idle], discarded := insert i (discarded S)\<rparr>)"
proof -
  have w: "Working j \<in> set ((threads S)[t := Idle]) \<longleftrightarrow> Working j \<in> set (threads S) \<and> j \<noteq> i" for j
    using work_left [OF sys_invD(3) [OF inv] t, of Idle] by simp
  have "one_thread_each ((threads S)[t := Idle])"
    using one_thread_update [OF sys_invD(3) [OF inv] t(1)] by auto
  then show ?thesis
    using inv sys_inv_thread [OF inv t] unfolding sys_inv_def by (auto simp: w)
qed

lemma exit_step_inv:
  assumes inv: "sys_inv S" and t: "t < length (threads S)" "threads S ! t = Idle"
  shows "sys_inv (S\<lparr>threads := (threads S)[t := Exited]\<rparr>)"
proof -
  have w: "Working j \<in> set ((threads S)[t := Exited]) \<longleftrightarrow> Working j \<in> set (threads S)" for j
    using t by (subst work_taken) auto
  have "one_thread_each ((threads S)[t := Exited])"
    using one_thread_update [OF sys_invD(3) [OF inv] t(1)] by auto
  then show ?thesis
    using inv unfolding sys_inv_def by (simp add: w)
qed

lemma sys_step_inv: "sys_step fresh_q rd m S S' \<Longrightarrow> sys_inv S \<Longrightarrow> sys_inv S'"
proof (induction rule: sys_step.induct)
  case (pull_step t S q r s')
  then show ?case
    using pull_step_inv by blast
next
  case (candidate_step t S i c)
  then show ?case
    using candidate_step_inv by blast
next
  case (finish_step t S i s')
  then show ?case
    using finish_step_inv by blast
next
  case (discard_step t S i)
  then show ?case
    using discard_step_inv by blast
next
  case (exit_step t S)
  then show ?case
    using exit_step_inv by blast
next
  case (tick_step S now)
  then show ?case
    by (simp add: sys_inv_def clock_inv clock_stat clock_size)
qed

lemma reachable_inv: "reachable fresh_q rd m S \<Longrightarrow> sys_inv S"
  by (induction rule: reachable.induct) (auto intro: init_sys_inv sys_step_inv)

section \<open>Consequences of the invariant\<close>

lemma tally_sum:
  assumes "tree_inv s"
  shows "done_count s + abandoned s + card {i. 0 < i \<and> i < size_of s \<and> live (stat s i)} = created s"
proof -
  define A where "A st = {i. 0 < i \<and> i < size_of s \<and> stat s i = st}" for st
  define L where "L = {i. 0 < i \<and> i < size_of s \<and> live (stat s i)}"
  have fin: "finite {1..<size_of s}"
    by simp
  have un: "{1..<size_of s} = A DONE \<union> A ABANDONED \<union> L"
    by (auto simp: A_def L_def live_def) (metis status_code.exhaust)
  then have "finite (A DONE)" "finite (A ABANDONED)" "finite L"
    using fin by (metis finite_Un)+
  moreover have "A DONE \<inter> A ABANDONED = {}" "(A DONE \<union> A ABANDONED) \<inter> L = {}"
    by (auto simp: A_def L_def)
  ultimately have "card {1..<size_of s} = card (A DONE) + card (A ABANDONED) + card L"
    unfolding un by (simp add: card_Un_disjoint)
  moreover have "Suc (created s) = size_of s" "done_count s = card (A DONE)" "abandoned s = card (A ABANDONED)"
    using assms by (simp_all add: tree_inv_def tree_ok_def counts_ok_def tally_def A_def)
  ultimately show ?thesis
    by (simp add: L_def)
qed

text \<open>Below a live node there is always one that is pending or in progress.\<close>

lemma live_has_work:
  assumes inv: "tree_inv s" and i: "0 < i" "i < size_of s" "live (stat s i)"
  shows "\<exists>j < size_of s. 0 < j \<and> stat s j \<in> {PENDING, IN_PROGRESS}"
  using i
proof (induction "size_of s - i" arbitrary: i rule: less_induct)
  case less
  show ?case
  proof (cases "stat s i = IN_RECURSION")
    case True
    then obtain c where c: "c < size_of s" "par s c = Some i" "live (stat s c)"
      using inv less.prems by (auto simp: tree_inv_def rec_ok_def)
    then have "i < c"
      using par_bound(2) inv by (auto simp: tree_inv_def tree_ok_def)
    then show ?thesis
      using less.hyps [of c] c less.prems by auto
  next
    case False
    then show ?thesis
      using less.prems by (auto simp: live_def)
  qed
qed

lemma live_node_counts:
  assumes "tree_inv s" "0 < i" "i < size_of s" "live (stat s i)"
  shows "done_count s + abandoned s < created s"
proof -
  have "i \<in> {i. 0 < i \<and> i < size_of s \<and> live (stat s i)}"
    using assms by simp
  then have "0 < card {i. 0 < i \<and> i < size_of s \<and> live (stat s i)}"
    using live_after_finite [of 0 s] by (metis card_gt_0_iff empty_iff)
  then show ?thesis
    using tally_sum [OF assms(1)] by linarith
qed

lemma pull_no_task_counts:
  assumes "pull q s = Inr (No_task, s')"
  shows "\<not> done_count s + abandoned s < created s"
proof -
  obtain i rest n where pp: "pull_pending (nodes s) (all_pending s) (pulled s) = (i, rest, n)"
    by (metis surj_pair)
  show ?thesis
    using assms by (cases i) (auto simp: pull_def pull_internal_def pp sbind_def Let_def assert_always_def
        split: if_splits sum.splits)
qed

section \<open>Example runs\<close>

text \<open>
  Two threads and one special-q, no retries: the first thread pulls the task, the second waits,
  the first finds nothing and ends.
\<close>

definition ex_q :: special_q where
  "ex_q = Special_q 7 3 0"

definition ex_s0 :: "nat collection" where
  "ex_s0 = init_collection 0"

definition ex_s1 :: "nat collection" where
  "ex_s1 = snd (projr (pull ex_q ex_s0))"

definition ex_s2 :: "nat collection" where
  "ex_s2 = snd (projr (pull default_special_q ex_s1))"

definition ex_s3 :: "nat collection" where
  "ex_s3 = projr (postprocess (enough_fuel ex_s2 1) True 1 0 ex_s2)"

definition ex_s4 :: "nat collection" where
  "ex_s4 = snd (projr (pull default_special_q ex_s3))"

lemma ex_pull1: "map_sum id fst (pull ex_q ex_s0) = Inr (Pulled 1)"
  by code_simp

lemma ex_pull2: "map_sum id fst (pull default_special_q ex_s1) = Inr Must_wait"
  by code_simp

lemma ex_finish3:
  "map_sum id (\<lambda>s. (notified s, done_count s + abandoned s, created s))
     (postprocess (enough_fuel ex_s2 1) True 1 0 ex_s2) = Inr (notified ex_s2, 1, 1)"
  by code_simp

lemma ex_pull4: "map_sum id fst (pull default_special_q ex_s3) = Inr No_task"
  by code_simp

lemma ex_end: "done_count ex_s4 + abandoned ex_s4 = created ex_s4 \<and> all_pending ex_s4 = []"
  by code_simp

lemma ex_fresh: "fresh_q ex_q ex_s0"
  by code_simp

lemma sum_fst: "map_sum id fst x = Inr r \<Longrightarrow> x = Inr (r, snd (projr x))"
  by (cases x) auto

lemma sum_any: "map_sum id f x = Inr r \<Longrightarrow> x = Inr (projr x) \<and> f (projr x) = r"
  by (cases x) auto

lemmas ex_results = sum_fst [OF ex_pull1, folded ex_s1_def] sum_fst [OF ex_pull2, folded ex_s2_def]
  sum_any [OF ex_finish3, folded ex_s3_def] sum_fst [OF ex_pull4, folded ex_s4_def]

definition ex_stuck :: "nat system" where
  "ex_stuck = \<lparr>tree = ex_s4, threads = [Exited, Waiting], discarded = {}\<rparr>"

lemma ex_stuck_reachable: "reachable fresh_q True 0 ex_stuck"
proof -
  have 0: "reachable fresh_q True 0 \<lparr>tree = ex_s0, threads = [Idle, Idle], discarded = {}\<rparr>"
    using reachable.start [of fresh_q True 0 0 2] by (simp add: init_system_def ex_s0_def numeral_2_eq_2)
  have 1: "reachable fresh_q True 0 \<lparr>tree = ex_s1, threads = [Working 1, Idle], discarded = {}\<rparr>"
    using reachable.more [OF 0 sys_step.pull_step [of 0 _ ex_q, OF _ _ _ ]] ex_results(1) ex_fresh
    by simp
  have 2: "reachable fresh_q True 0 \<lparr>tree = ex_s2, threads = [Working 1, Waiting], discarded = {}\<rparr>"
    using reachable.more [OF 1 sys_step.pull_step [of 1 _ default_special_q]] ex_results(2)
    by (simp add: sq_bool_def default_special_q_def)
  have 3: "reachable fresh_q True 0 \<lparr>tree = ex_s3, threads = [Idle, Waiting], discarded = {}\<rparr>"
    using reachable.more [OF 2 sys_step.finish_step [of 0 _ 1]] ex_results(3) by (simp add: wake_def)
  show ?thesis
    using reachable.more [OF 3 sys_step.pull_step [of 0 _ default_special_q]] ex_results(4)
    by (simp add: sq_bool_def default_special_q_def ex_stuck_def)
qed

text \<open>The same special-q is handed out twice: the second of the two tasks cannot be postprocessed.\<close>

definition dup_s1 :: "nat collection" where
  "dup_s1 = snd (projr (pull ex_q ex_s1))"

definition dup_s2 :: "nat collection" where
  "dup_s2 = projr (postprocess (enough_fuel dup_s1 1) True 1 1 dup_s1)"

lemma dup_pull: "map_sum id fst (pull ex_q ex_s1) = Inr (Pulled 2)"
  by code_simp

lemma dup_finish:
  "map_sum id notified (postprocess (enough_fuel dup_s1 1) True 1 1 dup_s1) = Inr (notified dup_s1)"
  by code_simp

lemma dup_error: "map_sum id notified (postprocess (enough_fuel dup_s2 2) True 2 1 dup_s2) = Inl Node_not_found"
  by code_simp

lemma dup_throws: "postprocess (enough_fuel dup_s2 2) True 2 1 dup_s2 = Inl Node_not_found"
  using dup_error by (cases "postprocess (enough_fuel dup_s2 2) True 2 1 dup_s2") simp_all

theorem duplicate_special_q_throws:
  "reachable (\<lambda>q s. True) True 1 \<lparr>tree = dup_s2, threads = [Idle, Working 2], discarded = {}\<rparr>
   \<and> postprocess (enough_fuel dup_s2 2) True 2 1 dup_s2 = Inl Node_not_found"
proof -
  let ?r = "reachable (\<lambda>q s. True) True 1"
  have 0: "?r \<lparr>tree = ex_s0, threads = [Idle, Idle], discarded = {}\<rparr>"
    using reachable.start [of "\<lambda>q s. True" True 1 0 2] by (simp add: init_system_def ex_s0_def numeral_2_eq_2)
  have 1: "?r \<lparr>tree = ex_s1, threads = [Working 1, Idle], discarded = {}\<rparr>"
    using reachable.more [OF 0 sys_step.pull_step [of 0 _ ex_q]] ex_results(1) by simp
  have 2: "?r \<lparr>tree = dup_s1, threads = [Working 1, Working 2], discarded = {}\<rparr>"
    using reachable.more [OF 1 sys_step.pull_step [of 1 _ ex_q]] sum_fst [OF dup_pull, folded dup_s1_def] by simp
  show ?thesis
    using reachable.more [OF 2 sys_step.finish_step [of 0 _ 1]] sum_any [OF dup_finish, folded dup_s2_def] dup_throws
    by (simp add: wake_def)
qed

text \<open>
  A discarded task is the only work left: the todo list is empty, no thread works and no node is
  pending. Then nothing changes this any more.
\<close>

definition blocked_by :: "nat \<Rightarrow> 'rel system \<Rightarrow> bool" where
  "blocked_by i S =
    (sys_inv S \<and> i \<in> discarded S \<and> stat (tree S) i = IN_PROGRESS
     \<and> (\<forall>j. Working j \<notin> set (threads S)) \<and> (\<forall>j < size_of (tree S). stat (tree S) j \<noteq> PENDING))"

lemma pull_nothing:
  assumes inv: "tree_inv s" and none: "\<And>j. j < size_of s \<Longrightarrow> stat s j \<noteq> PENDING" and q: "\<not> sq_bool q"
    and c: "done_count s + abandoned s < created s"
  shows "\<exists>n. pull q s = Inr (Must_wait, s\<lparr>all_pending := [], pulled := n\<rparr>)"
proof -
  have "queue_ok s"
    using inv by (simp add: tree_inv_def tree_ok_def)
  then have "\<forall>j\<in>set (all_pending s). status (nodes s ! j) = ABANDONED"
    using none by (auto simp: queue_ok_def stat_def node_at_def)
  then obtain n where "pull_pending (nodes s) (all_pending s) (pulled s) = (None, [], n)"
    using pull_pending_cases [of "nodes s" "all_pending s" "pulled s"] by auto
  then show ?thesis
    using q c by (intro exI [of _ n]) (simp add: pull_def pull_internal_def)
qed

lemma blocked_pull:
  assumes "blocked_by i S" "\<not> sq_bool q"
  shows "\<exists>n. pull q (tree S) = Inr (Must_wait, (tree S)\<lparr>all_pending := [], pulled := n\<rparr>)"
proof -
  have inv: "sys_inv S" and i: "i \<in> discarded S" "stat (tree S) i = IN_PROGRESS"
    using assms(1) by (simp_all add: blocked_by_def)
  have "done_count (tree S) + abandoned (tree S) < created (tree S)"
    using live_node_counts [OF sys_invD(1) [OF inv], of i] sys_invD(5) [OF inv i(1)] i(2) by simp
  then show ?thesis
    using pull_nothing [OF sys_invD(1) [OF inv] _ assms(2)] assms(1) by (simp add: blocked_by_def)
qed

lemma blocked_step:
  assumes "sys_step (\<lambda>q s. False) rd m S S'" "blocked_by i S"
  shows "blocked_by i S' \<and> length (threads S') = length (threads S)
    \<and> (\<forall>t < length (threads S). threads S ! t = Waiting \<longrightarrow> threads S' ! t = Waiting)"
proof -
  have inv: "sys_inv S" and i: "i \<in> discarded S" "stat (tree S) i = IN_PROGRESS"
    and idle: "\<And>j. Working j \<notin> set (threads S)"
    using assms(2) by (simp_all add: blocked_by_def)
  from assms(1) have "sys_step fresh_q rd m S S'"
    by cases (auto intro: sys_step.intros)
  then have inv': "sys_inv S'"
    by (rule sys_step_inv) (rule inv)
  have lazy: "threads S ! t \<noteq> Working j" if "t < length (threads S)" for t j
    using idle that by (metis nth_mem)
  from assms(1) show ?thesis
  proof cases
    case (pull_step t q r s')
    then obtain n where "r = Must_wait" "s' = (tree S)\<lparr>all_pending := [], pulled := n\<rparr>"
      using blocked_pull [OF assms(2), of q] by auto
    then show ?thesis
      using pull_step inv' assms(2) work_taken [OF pull_step(2), of _ Waiting]
      by (auto simp: blocked_by_def stat_def nth_list_update)
  next
    case (exit_step t)
    then show ?thesis
      using inv' assms(2) work_taken [OF exit_step(2), of _ Exited] by (auto simp: blocked_by_def nth_list_update)
  next
    case (tick_step now)
    then show ?thesis
      using inv' assms(2) by (simp add: blocked_by_def clock_stat clock_size)
  qed (use lazy in blast)+
qed

section \<open>Properties\<close>

text \<open>
  C1: Whenever the todo list hands out no special-q that a live task below the root has, every reachable
  state is well formed: parents come first, the sets of children by status are in the order of the
  special-q, exact for the live statuses and with every special-q of a done or abandoned child, live
  nodes hang below nodes in recursion, a node in recursion has a live child, every pending node is
  in the queue once, the counters agree with the statuses; the tasks of the threads are in progress
  or were abandoned, no task has two threads, and every task in progress has one or was discarded.
\<close>

theorem task_tree_invariant:
  assumes "reachable fresh_q rd m S"
  shows "sys_inv S"
  using reachable_inv [OF assms] .

theorem task_tree_invariant_witness: "sys_inv ex_stuck"
  by (rule task_tree_invariant [OF ex_stuck_reachable])

text \<open>
  C2: As long as the todo list has handed out no special-q that a live task below the root has, no
  assertion of the code fails, no node is missing from a set and no recursion runs out of fuel: a
  thread can pull, whatever special-q comes next, and can postprocess the task it works on.
\<close>

theorem task_tree_no_errors:
  assumes "reachable fresh_q rd m S"
  shows "(\<exists>r s'. pull q (tree S) = Inr (r, s'))
    \<and> (\<forall>t < length (threads S). \<forall>i. threads S ! t = Working i \<longrightarrow>
        (\<exists>s'. postprocess (enough_fuel (tree S) i) rd i m (tree S) = Inr s'))"
proof -
  note inv = reachable_inv [OF assms]
  have "\<exists>s'. postprocess (enough_fuel (tree S) i) rd i m (tree S) = Inr s'"
    if "t < length (threads S)" "threads S ! t = Working i" for t i
    using sys_inv_thread [OF inv that] postprocess_ok [OF sys_invD(1) [OF inv]]
    by (metis enough_fuel_def order_refl)
  then show ?thesis
    using pull_defined [OF sys_invD(1) [OF inv], of q] by blast
qed

text \<open>
  C3: The counters: \<^verbatim>\<open>done + abandoned\<close> is at most \<^verbatim>\<open>created\<close>, as the comment in the header says, and the
  two are equal exactly when no node below the root is pending, in progress or in recursion, so
  the loop of \<^verbatim>\<open>pull\<close> stops waiting exactly when no work can come. (The todo list hands out no special-q
  of a live task below the root.)
\<close>

theorem task_tree_counters:
  assumes "reachable fresh_q rd m S"
  shows "done_count (tree S) + abandoned (tree S) \<le> created (tree S)
    \<and> (done_count (tree S) + abandoned (tree S) = created (tree S)
       \<longleftrightarrow> {i. 0 < i \<and> i < size_of (tree S) \<and> live (stat (tree S) i)} = {})"
proof -
  define L where "L = {i. 0 < i \<and> i < size_of (tree S) \<and> live (stat (tree S) i)}"
  have "(card L = 0) = (L = {})"
    using live_after_finite [of 0 "tree S"] by (simp add: L_def)
  then show ?thesis
    using tally_sum [OF sys_invD(1) [OF reachable_inv [OF assms]]] unfolding L_def [symmetric] by linarith
qed

theorem task_tree_counters_witness:
  "done_count (tree ex_stuck) + abandoned (tree ex_stuck) \<le> created (tree ex_stuck)
    \<and> (done_count (tree ex_stuck) + abandoned (tree ex_stuck) = created (tree ex_stuck)
       \<longleftrightarrow> {i. 0 < i \<and> i < size_of (tree ex_stuck) \<and> live (stat (tree ex_stuck) i)} = {})"
  by (rule task_tree_counters [OF ex_stuck_reachable])

text \<open>
  C4: Progress, and what a discarded task does to it: while tasks are neither done nor abandoned, one
  is pending in the queue, or in progress with a thread that works on it, or in progress and
  discarded. A discarded task that is in progress keeps \<^verbatim>\<open>done + abandoned\<close> below \<^verbatim>\<open>created\<close>, so that no
  thread that pulls is told that there is no task left, and no thread works on it.
\<close>

theorem task_tree_progress:
  assumes "reachable fresh_q rd m S"
  shows "(done_count (tree S) + abandoned (tree S) < created (tree S) \<longrightarrow>
      (\<exists>i < size_of (tree S).
        i \<in> set (all_pending (tree S)) \<and> stat (tree S) i = PENDING
        \<or> stat (tree S) i = IN_PROGRESS \<and> (Working i \<in> set (threads S) \<or> i \<in> discarded S)))
    \<and> (\<forall>i\<in>discarded S. stat (tree S) i = IN_PROGRESS \<longrightarrow>
        done_count (tree S) + abandoned (tree S) < created (tree S)
        \<and> (\<forall>q s'. pull q (tree S) \<noteq> Inr (No_task, s')) \<and> Working i \<notin> set (threads S))"
proof -
  note inv = reachable_inv [OF assms]
  note sum = tally_sum [OF sys_invD(1) [OF inv]]
  have "\<exists>i < size_of (tree S). i \<in> set (all_pending (tree S)) \<and> stat (tree S) i = PENDING
      \<or> stat (tree S) i = IN_PROGRESS \<and> (Working i \<in> set (threads S) \<or> i \<in> discarded S)"
    if "done_count (tree S) + abandoned (tree S) < created (tree S)"
  proof -
    have "{i. 0 < i \<and> i < size_of (tree S) \<and> live (stat (tree S) i)} \<noteq> {}"
      using sum that by (metis add.right_neutral card.empty less_irrefl)
    then obtain j where j: "j < size_of (tree S)" "stat (tree S) j \<in> {PENDING, IN_PROGRESS}"
      using live_has_work [OF sys_invD(1) [OF inv]] by blast
    moreover have "queue_ok (tree S)"
      using sys_invD(1) [OF inv] by (simp add: tree_inv_def tree_ok_def)
    ultimately show ?thesis
      using sys_invD(4) [OF inv, of j] by (auto simp: queue_ok_def)
  qed
  moreover have "done_count (tree S) + abandoned (tree S) < created (tree S)"
    if "i \<in> discarded S" "stat (tree S) i = IN_PROGRESS" for i
    using that sys_invD(5) [OF inv that(1)] live_node_counts [OF sys_invD(1) [OF inv], of i] by simp
  moreover have "pull q (tree S) \<noteq> Inr (No_task, s')"
    if "done_count (tree S) + abandoned (tree S) < created (tree S)" for q s'
    using pull_no_task_counts that by (metis less_irrefl)
  ultimately show ?thesis
    using sys_invD(5) [OF inv] by blast
qed

lemma ex_working_reachable: "reachable fresh_q True 0 \<lparr>tree = ex_s1, threads = [Working 1], discarded = {}\<rparr>"
proof -
  have 0: "reachable fresh_q True 0 \<lparr>tree = ex_s0, threads = [Idle], discarded = {}\<rparr>"
    using reachable.start [of fresh_q True 0 0 1] by (simp add: init_system_def ex_s0_def)
  show ?thesis
    using reachable.more [OF 0 sys_step.pull_step [of 0 _ ex_q]] ex_results(1) ex_fresh by simp
qed

theorem task_tree_no_errors_witness:
  "(\<exists>r s'. pull ex_q ex_s1 = Inr (r, s'))
   \<and> (\<exists>s'. postprocess (enough_fuel ex_s1 1) True 1 0 ex_s1 = Inr s')"
  using task_tree_no_errors [OF ex_working_reachable, of ex_q] by simp

lemma ex_discarded_reachable: "reachable fresh_q True 0 \<lparr>tree = ex_s1, threads = [Idle], discarded = {1}\<rparr>"
  using reachable.more [OF ex_working_reachable sys_step.discard_step [of 0 _ 1]] by simp

theorem task_tree_progress_witness:
  "(\<exists>i < size_of ex_s1. i \<in> set (all_pending ex_s1) \<and> stat ex_s1 i = PENDING
      \<or> stat ex_s1 i = IN_PROGRESS \<and> i \<in> {1})
   \<and> (\<nexists>s'. pull default_special_q ex_s1 = Inr (No_task, s'))"
proof -
  have "done_count ex_s1 + abandoned ex_s1 < created ex_s1 \<and> stat ex_s1 1 = IN_PROGRESS"
    by code_simp
  then show ?thesis
    using task_tree_progress [OF ex_discarded_reachable] by auto
qed

text \<open>
  C5: The state machine of a node: a step of the system changes the status of an existing node only
  along the edges of \<^term>\<open>status_edge\<close>; done and abandoned nodes never change. (The todo list hands out
  no special-q of a live task below the root.)
\<close>

theorem task_status_machine:
  assumes "reachable fresh_q rd m S" "sys_step fresh_q rd m S S'" "i < size_of (tree S)"
  shows "stat (tree S') i = stat (tree S) i \<or> status_edge (stat (tree S) i) (stat (tree S') i)"
  using assms(2)
proof cases
  case (pull_step t q r s')
  have "pull_moves (tree S) r s'"
    using pull_ok [OF sys_invD(1) [OF reachable_inv [OF assms(1)]] pull_step(4)] pull_step(5) by auto
  then show ?thesis
    using pull_step(1) assms(3)
    by (cases r; cases "r = Pulled i") (auto simp: pull_moves_def status_edge_simps)
next
  case (candidate_step t j c)
  have "j < size_of (tree S)"
    using sys_inv_thread [OF reachable_inv [OF assms(1)] candidate_step(2,3)] by simp
  then show ?thesis
    using candidate_step(1) by (simp add: set_contender_def stat_def)
next
  case (finish_step t j s')
  have "0 < j" "j < size_of (tree S)" "stat (tree S) j \<in> {IN_PROGRESS, ABANDONED}"
    using sys_inv_thread [OF reachable_inv [OF assms(1)] finish_step(2,3)] by auto
  then have "finish_moves j (tree S) s'"
    using postprocess_ok [OF sys_invD(1) [OF reachable_inv [OF assms(1)]], of j "enough_fuel (tree S) j" rd m]
      finish_step(4) by (auto simp: enough_fuel_def)
  then show ?thesis
    using finish_step(1) assms(3) by (simp add: finish_moves_def)
next
  case (tick_step now)
  then show ?thesis
    by (simp add: clock_stat)
qed simp_all

theorem task_status_machine_witness:
  "stat ex_s1 0 = stat ex_s0 0 \<or> status_edge (stat ex_s0 0) (stat ex_s1 0)"
proof -
  have 0: "reachable fresh_q True 0 \<lparr>tree = ex_s0, threads = [Idle], discarded = {}\<rparr>"
    using reachable.start [of fresh_q True 0 0 1] by (simp add: init_system_def ex_s0_def)
  have "sys_step fresh_q True 0 \<lparr>tree = ex_s0, threads = [Idle], discarded = {}\<rparr> \<lparr>tree = ex_s1, threads = [Working 1], discarded = {}\<rparr>"
    using sys_step.pull_step [where t = 0 and S = "\<lparr>tree = ex_s0, threads = [Idle], discarded = {}\<rparr>" and q = ex_q
        and r = "Pulled 1" and s' = ex_s1 and feeds = fresh_q]
      ex_results(1) ex_fresh by simp
  moreover have "0 < size_of ex_s0"
    by code_simp
  ultimately show ?thesis
    using task_status_machine [OF 0, of _ 0] by fastforce
qed

text \<open>
  C21: A lost wake-up: abandoning a task notifies nobody. With two threads and one special-q that
  fails, a state is reachable in which all tasks are settled, one thread has ended and the other
  still waits on the condition variable, and no step of the system changes a thread any more.
\<close>

theorem waiting_thread_never_woken:
  "reachable fresh_q True 0 ex_stuck
   \<and> done_count (tree ex_stuck) + abandoned (tree ex_stuck) = created (tree ex_stuck)
   \<and> threads ex_stuck = [Exited, Waiting]
   \<and> \<not> (\<exists>S'. sys_step fresh_q True 0 ex_stuck S' \<and> threads S' \<noteq> threads ex_stuck)"
proof -
  have "threads S' = threads ex_stuck" if "sys_step fresh_q True 0 ex_stuck S'" for S'
    using that
  proof cases
    case (pull_step t q r s')
    then show ?thesis
      by (auto simp: ex_stuck_def less_Suc_eq)
  next
    case (finish_step t i s')
    then show ?thesis
      by (auto simp: ex_stuck_def less_Suc_eq)
  next
    case (discard_step t i)
    then show ?thesis
      by (auto simp: ex_stuck_def less_Suc_eq)
  next
    case (exit_step t)
    then show ?thesis
      by (auto simp: ex_stuck_def less_Suc_eq)
  qed simp_all
  then show ?thesis
    using ex_stuck_reachable ex_end by (auto simp: ex_stuck_def)
qed

text \<open>
  A task that fails keeps its candidate relation, and so do all tasks that are put back with it:
  when a task is tried again because its children failed, the relation that led to them is
  still its contender, and it is decided on again if no better one is found.
\<close>

theorem retry_keeps_contender:
  assumes "tree_inv s" "0 < i" "i < size_of s" "stat s i = IN_PROGRESS" "rel (cand s i) = None"
  shows "\<exists>s'. postprocess (enough_fuel s i) rd i m s = Inr s' \<and> (\<forall>j < size_of s. cand s' j = cand s j)"
proof -
  have ok: "tree_ok s" "rec_ok {i} s"
    using assms(1) by (auto simp: tree_inv_def rec_ok_def)
  obtain s' where "abandon_node_unlocked (enough_fuel s i) i m False s = Inr s'" "same_shape s s'"
    using abandon_ok [OF ok assms(3), of "enough_fuel s i" m] assms(4) by (auto simp: enough_fuel_def)
  then show ?thesis
    using assms(5) by (auto simp: postprocess_def abandon_node_def cand_def [symmetric] same_shape_def)
qed

theorem retry_keeps_contender_witness:
  "\<exists>s'. postprocess (enough_fuel ex_s1 1) True 1 5 ex_s1 = Inr s'
    \<and> cand s' 0 = cand ex_s1 0 \<and> cand s' 1 = cand ex_s1 1"
proof -
  have "size_of ex_s1 = 2 \<and> stat ex_s1 1 = IN_PROGRESS \<and> rel (cand ex_s1 1) = None"
    by code_simp
  then show ?thesis
    using retry_keeps_contender [of ex_s1 1 True 5]
      sys_invD(1) [OF reachable_inv [OF ex_working_reachable]] by fastforce
qed

text \<open>
  A discarded task is never settled when nothing else is left: once the todo list is empty, no thread works and
  no node is pending, a thread that pulls is told to wait, whatever steps follow, and a waiting thread waits for
  ever; only the exit semaphore ends a thread.
\<close>

theorem discarded_task_blocks:
  assumes "reachable fresh_q rd m S" "i \<in> discarded S" "stat (tree S) i = IN_PROGRESS"
    "\<forall>j. Working j \<notin> set (threads S)" "\<forall>j < size_of (tree S). stat (tree S) j \<noteq> PENDING"
    "(sys_step (\<lambda>q s. False) rd m)\<^sup>*\<^sup>* S S'"
  shows "stat (tree S') i = IN_PROGRESS \<and> length (threads S') = length (threads S)
    \<and> (\<forall>t < length (threads S). threads S ! t = Waiting \<longrightarrow> threads S' ! t = Waiting)
    \<and> (\<forall>q. \<not> sq_bool q \<longrightarrow> (\<exists>s'. pull q (tree S') = Inr (Must_wait, s')))"
proof -
  have b: "blocked_by i S"
    using assms(1-5) reachable_inv by (auto simp: blocked_by_def)
  from assms(6) b have "blocked_by i S' \<and> length (threads S') = length (threads S)
    \<and> (\<forall>t < length (threads S). threads S ! t = Waiting \<longrightarrow> threads S' ! t = Waiting)"
  proof (induction rule: rtranclp_induct)
    case (step y z)
    then show ?case
      using blocked_step [OF step(2)] by auto
  qed simp
  then show ?thesis
    using blocked_pull [of i S'] by (metis blocked_by_def)
qed

theorem discarded_task_blocks_witness:
  "stat ex_s1 1 = IN_PROGRESS \<and> (\<exists>s'. pull default_special_q ex_s1 = Inr (Must_wait, s'))"
proof -
  have "stat ex_s1 0 = IN_RECURSION \<and> stat ex_s1 1 = IN_PROGRESS \<and> size_of ex_s1 = 2"
    by code_simp
  then show ?thesis
    using discarded_task_blocks [OF ex_discarded_reachable, of 1 "\<lparr>tree = ex_s1, threads = [Idle], discarded = {1}\<rparr>"]
    by (simp add: less_2_cases_iff sq_bool_def default_special_q_def)
qed

end
