(* ===== verification/Candidates.thy ===== *)
theory Candidates
  imports RelationIO TaskTreeSys
begin

text \<open>
  From the factors of two norms to a candidate of the descent: \<^verbatim>\<open>cofac_standalone::get_relation\<close> of
  \<^verbatim>\<open>src/sieve/las-cofac-standalone.cpp\<close>, \<^verbatim>\<open>special_q_task_tree::new_candidate_relation\<close> of
  \<^verbatim>\<open>src/sieve/las-special-q-task-tree.cpp\<close> and \<^verbatim>\<open>src/sieve/las-descent-candidate-relation.hpp\<close>. Times are
  floating point numbers in the code: here they are a type parameter, with \<open>None\<close> for infinity, and
  their addition and comparison are arguments. The lists of visited relations and known
  logarithms and the hint table are arguments too. There are two sides, and messages are not modelled.
\<close>

section \<open>Operations\<close>

definition add_all :: "nat \<Rightarrow> int list \<Rightarrow> relation \<Rightarrow> relation" where
  "add_all side ps r = fold (\<lambda>p. add_pr side p 0) ps r"

text \<open>A special-q is prime when it has one prime factor.\<close>

definition get_relation :: "u64 \<Rightarrow> u64 \<Rightarrow> u64 list list \<Rightarrow> int list list \<Rightarrow> special_q \<Rightarrow> u64 list \<Rightarrow> relation" where
  "get_relation a b factors lps doing prime_factors =
     (let r = fold (\<lambda>side r. add_all side (lps ! side) (add_all side (map uint (factors ! side)) r))
                [0..<min 2 (length factors)] (relation_new a b (- 1));
          r = (if length prime_factors = 1 then add_pr (nat (sq_side doing)) (sq_p doing) 0 r
               else add_all (nat (sq_side doing)) (map uint prime_factors) r)
      in compress r)"

definition special_q_of :: "nat \<Rightarrow> pr \<Rightarrow> special_q" where
  "special_q_of side x = Special_q (pr_p x) (pr_r x) (int side)"

record 't timed_candidate = "relation candidate" +
  time_left :: "'t option"
  deadline :: "'t option"

definition no_candidate :: "'t timed_candidate" where
  "no_candidate = \<lparr>rel = None, outstanding = [], time_left = None, deadline = None\<rparr>"

definition candidate_bool :: "'t timed_candidate \<Rightarrow> bool" where
  "candidate_bool c = (case rel c of None \<Rightarrow> False | Some r \<Rightarrow> relation_bool r)"

definition candidate_less :: "('t :: linorder) timed_candidate \<Rightarrow> 't timed_candidate \<Rightarrow> bool" where
  "candidate_less c b =
     (if \<not> candidate_bool c then False
      else if \<not> candidate_bool b then True
      else case time_left c of
        Some t \<Rightarrow> (case time_left b of Some u \<Rightarrow> t < u | None \<Rightarrow> True)
      | None \<Rightarrow> length (outstanding c) < length (outstanding b))"

text \<open>Assignment keeps the earlier deadline.\<close>

fun earlier :: "('t :: linorder) option \<Rightarrow> 't option \<Rightarrow> 't option" where
  "earlier None d = d"
| "earlier d None = d"
| "earlier (Some d) (Some e) = Some (if e < d then e else d)"

definition candidate_assign :: "('t :: linorder) timed_candidate \<Rightarrow> 't timed_candidate \<Rightarrow> 't timed_candidate" where
  "candidate_assign c b = b\<lparr>deadline := earlier (deadline c) (deadline b)\<rparr>"

definition wins_the_game :: "('t :: linorder) \<Rightarrow> 't timed_candidate \<Rightarrow> bool" where
  "wins_the_game now c \<longleftrightarrow> candidate_bool c
     \<and> (outstanding c = [] \<or> (case deadline c of None \<Rightarrow> False | Some d \<Rightarrow> d \<le> now))"

text \<open>\<open>later\<close> is the deadline that the grace time ratio gives for the time left.\<close>

definition set_time_left :: "'t \<Rightarrow> ('t option \<Rightarrow> 't option) \<Rightarrow> 't option \<Rightarrow> 't timed_candidate \<Rightarrow> 't timed_candidate" where
  "set_time_left now later t c =
     c\<lparr>time_left := t, deadline := (if outstanding c = [] then Some now else later t)\<rparr>"

text \<open>The logarithm is looked up if the prime fits the \<open>w\<close> bits of the type of primes and roots.\<close>

definition log_known :: "nat \<Rightarrow> (int \<Rightarrow> u64 \<Rightarrow> u64 \<Rightarrow> bool) \<Rightarrow> special_q \<Rightarrow> bool" where
  "log_known w known v \<longleftrightarrow> 0 \<le> sq_p v \<and> sq_p v < 2 ^ w
     \<and> known (sq_side v) (mpz_get_uint64 (sq_p v)) (take_bit w (mpz_get_uint64 (sq_r v)))"

definition outstanding_of :: "nat \<Rightarrow> (int \<Rightarrow> u64 \<Rightarrow> u64 \<Rightarrow> bool) \<Rightarrow> special_q \<Rightarrow> relation \<Rightarrow> special_q list" where
  "outstanding_of w known q r =
     filter (\<lambda>v. sq_p q \<noteq> sq_p v \<and> \<not> log_known w known v)
       (concat (map (\<lambda>side. map (special_q_of side) (sides r ! side)) [0, 1]))"

definition expected_time :: "(special_q \<Rightarrow> 't :: {linorder, zero, plus} option) \<Rightarrow> special_q list \<Rightarrow> 't option" where
  "expected_time hint vs =
     foldl (\<lambda>t v. case hint v of None \<Rightarrow> None | Some e \<Rightarrow> map_option (\<lambda>x. x + e) t) (Some 0) vs"

definition new_candidate_relation ::
    "(int \<Rightarrow> int \<Rightarrow> int option) \<Rightarrow> (relation \<Rightarrow> bool) \<Rightarrow> nat \<Rightarrow> (int \<Rightarrow> u64 \<Rightarrow> u64 \<Rightarrow> bool)
     \<Rightarrow> (special_q \<Rightarrow> 't :: {linorder, zero, plus} option) \<Rightarrow> ('t option \<Rightarrow> 't option) \<Rightarrow> 't
     \<Rightarrow> special_q \<Rightarrow> relation \<Rightarrow> 't timed_candidate \<Rightarrow> bool \<times> 't timed_candidate" where
  "new_candidate_relation invert avoid w known hint later now q r c =
     (if avoid r then (True, c)
      else
        let r = fixup_r invert True r;
            vs = outstanding_of w known q r;
            newcomer = set_time_left now later (expected_time hint vs) (no_candidate\<lparr>rel := Some r, outstanding := vs\<rparr>);
            c = (if candidate_less newcomer c then candidate_assign c newcomer else c)
        in (wins_the_game now c, c))"

section \<open>The special-q of a candidate\<close>

definition side_primes :: "u64 list list \<Rightarrow> int list list \<Rightarrow> special_q \<Rightarrow> u64 list \<Rightarrow> nat \<Rightarrow> int list" where
  "side_primes factors lps doing prime_factors side =
     map uint (factors ! side) @ lps ! side @
     (if side = nat (sq_side doing)
      then if length prime_factors = 1 then [sq_p doing] else map uint prime_factors else [])"

definition plain_pr :: "int \<Rightarrow> pr" where
  "plain_pr p = \<lparr>pr_p = p, pr_r = 0, pr_e = 1\<rparr>"

lemma add_all_value:
  "side < length (sides r) \<Longrightarrow> add_all side ps r = r\<lparr>sides := (sides r)[side := sides r ! side @ map plain_pr ps]\<rparr>"
  by (induction ps arbitrary: r) (simp_all add: add_all_def add_pr_def plain_pr_def)

lemma add_pr_all: "add_pr side p 0 r = add_all side [p] r"
  by (simp add: add_all_def)

lemma get_relation_value:
  assumes "length factors = 2" "sq_side doing \<in> {0, 1}"
  shows "get_relation a b factors lps doing prime_factors = (relation_new a b (- 1))\<lparr>sides :=
    map (\<lambda>side. compress_side (map plain_pr (side_primes factors lps doing prime_factors side))) [0, 1]\<rparr>"
  using assms unfolding get_relation_def Let_def add_pr_all
  by (auto simp: add_all_value relation_new_def relation_default_def upt_rec compress_def
      compress_side_def side_primes_def)

lemma compress_plain:
  fixes ps
  defines "v \<equiv> compress_side (map plain_pr ps)"
  shows "distinct (map pr_p v)" "set (map pr_p v) = set ps" "x \<in> set v \<Longrightarrow> pr_r x = 0"
proof -
  have k: "sorted_wrt (<) (map pr_key v)" "set (map pr_key v) = (\<lambda>p. (p, 0)) ` set ps"
    using compress_side_correct [of "map plain_pr ps"] by (auto simp: v_def pr_key_def plain_pr_def image_image)
  have r: "pr_r x = 0 \<and> pr_p x \<in> set ps" if "x \<in> set v" for x
  proof -
    have "pr_key x \<in> (\<lambda>p. (p, 0)) ` set ps" using that k(2) by (metis image_eqI list.set_map)
    then show ?thesis by (auto simp: pr_key_def)
  qed
  then show "x \<in> set v \<Longrightarrow> pr_r x = 0" by blast
  have e: "map pr_p v = map fst (map pr_key v)" by (simp add: pr_key_def comp_def)
  show "set (map pr_p v) = set ps" unfolding e set_map [of fst] k(2) by (simp add: image_image)
  have "distinct (map pr_key v)" using k(1) strict_sorted_iff by blast
  moreover have "map pr_key v = map (\<lambda>x. (pr_p x, 0)) v" using r by (auto simp: pr_key_def)
  ultimately have "distinct (map (\<lambda>p. (p, 0 :: int)) (map pr_p v))" by (simp add: comp_def)
  then show "distinct (map pr_p v)" unfolding distinct_map [of "\<lambda>p. (p, 0)"] by blast
qed

definition candidate_special_qs :: "(int \<Rightarrow> int \<Rightarrow> int option) \<Rightarrow> int \<Rightarrow> int \<Rightarrow> (nat \<Rightarrow> int list) \<Rightarrow> special_q set" where
  "candidate_special_qs invert a b primes =
     (\<Union>side\<in>{0, 1}. (\<lambda>p. Special_q p (mpz_root invert a b p) (int side)) ` set (primes side))"

lemma special_qs_of_side:
  assumes "distinct (map pr_p v)" "\<And>x. x \<in> set v \<Longrightarrow> pr_r x = 0"
  shows "distinct (map (special_q_of side) (map (fixup_pr invert r) v))"
    "set (map (special_q_of side) (map (fixup_pr invert r) v))
     = (\<lambda>p. Special_q p (mpz_root invert (az r) (bz r) p) (int side)) ` set (map pr_p v)"
proof -
  have e: "map (special_q_of side) (map (fixup_pr invert r) v)
      = map (\<lambda>p. Special_q p (mpz_root invert (az r) (bz r) p) (int side)) (map pr_p v)"
    using assms(2) by (auto simp: special_q_of_def fixup_pr_def)
  show "distinct (map (special_q_of side) (map (fixup_pr invert r) v))"
    unfolding e using assms(1) by (subst distinct_map) (auto simp: inj_on_def)
  show "set (map (special_q_of side) (map (fixup_pr invert r) v))
     = (\<lambda>p. Special_q p (mpz_root invert (az r) (bz r) p) (int side)) ` set (map pr_p v)"
    unfolding e by (rule set_map)
qed

lemma outstanding_of_relation:
  fixes a b :: u64 and invert lps prime_factors
  assumes "length factors = 2" "sq_side doing \<in> {0, 1}"
  defines "r \<equiv> fixup_r invert True (get_relation a b factors lps doing prime_factors)"
  shows "distinct (outstanding_of w known q r)"
    "set (outstanding_of w known q r) = {v \<in> candidate_special_qs invert (sint a) (uint b) (side_primes factors lps doing prime_factors).
       sq_p q \<noteq> sq_p v \<and> \<not> log_known w known v}"
proof -
  define v where "v = (\<lambda>side. compress_side (map plain_pr (side_primes factors lps doing prime_factors side)))"
  define r0 where "r0 = (relation_new a b (- 1))\<lparr>sides := [v 0, v 1]\<rparr>"
  have r: "sides r = [map (fixup_pr invert r0) (v 0), map (fixup_pr invert r0) (v 1)]"
    unfolding r_def get_relation_value [OF assms(1,2)] by (simp add: fixup_r_def v_def r0_def upt_rec)
  have ab: "az r0 = sint a" "bz r0 = uint b" by (simp_all add: r0_def relation_new_def)
  have D: "distinct (map (special_q_of side) (map (fixup_pr invert r0) (v side)))"
    "set (map (special_q_of side) (map (fixup_pr invert r0) (v side)))
     = (\<lambda>p. Special_q p (mpz_root invert (sint a) (uint b) p) (int side)) ` set (side_primes factors lps doing prime_factors side)" for side
    using special_qs_of_side [of "v side" side invert r0]
      compress_plain [where ps = "side_primes factors lps doing prime_factors side"] by (simp_all add: v_def ab)
  show "distinct (outstanding_of w known q r)"
    unfolding outstanding_of_def r using D(1) [of 0] D(1) [of 1] by (auto simp: special_q_of_def)
  show "set (outstanding_of w known q r) = {v \<in> candidate_special_qs invert (sint a) (uint b) (side_primes factors lps doing prime_factors).
       sq_p q \<noteq> sq_p v \<and> \<not> log_known w known v}"
    unfolding outstanding_of_def r candidate_special_qs_def using D(2) [of 0] D(2) [of 1] by auto
qed

lemma new_candidate_outstanding:
  "outstanding (snd (new_candidate_relation invert avoid w known hint later now q r c))
     \<in> {outstanding c, outstanding_of w known q (fixup_r invert True r)}"
  by (simp add: new_candidate_relation_def Let_def candidate_assign_def set_time_left_def)

section \<open>Properties\<close>

text \<open>
  C9: The special-q that a relation found by the siever leaves to be split: no one twice, and exactly the
  factors of both norms that are neither the special-q at hand nor have a known logarithm, each with the
  root \<open>a / b\<close> modulo it.
\<close>

theorem candidate_outstanding:
  fixes a b :: u64
  assumes "length factors = 2" "sq_side doing \<in> {0, 1}"
  shows "distinct (outstanding_of w known q (fixup_r invert True (get_relation a b factors lps doing prime_factors)))
    \<and> set (outstanding_of w known q (fixup_r invert True (get_relation a b factors lps doing prime_factors)))
      = {v \<in> candidate_special_qs invert (sint a) (uint b) (side_primes factors lps doing prime_factors).
         sq_p q \<noteq> sq_p v \<and> \<not> log_known w known v}"
  using outstanding_of_relation [OF assms] by blast

theorem candidate_outstanding_witness:
  "distinct (outstanding_of 32 (\<lambda>side p r. p < 10) (Special_q 101 5 1)
     (fixup_r bezout_invert True (get_relation 12 5 [[2, 3], [7, 103, 103]] [[1009], []] (Special_q 101 5 1) [101])))
   \<and> set (outstanding_of 32 (\<lambda>side p r. p < 10) (Special_q 101 5 1)
       (fixup_r bezout_invert True (get_relation 12 5 [[2, 3], [7, 103, 103]] [[1009], []] (Special_q 101 5 1) [101])))
     = {v \<in> candidate_special_qs bezout_invert (sint (12 :: u64)) (uint (5 :: u64))
          (side_primes [[2, 3], [7, 103, 103]] [[1009], []] (Special_q 101 5 1) [101]).
         101 \<noteq> sq_p v \<and> \<not> log_known 32 (\<lambda>side p r. p < 10) v}"
  using candidate_outstanding [of "[[2, 3], [7, 103, 103]]" "Special_q 101 5 1" 32 "\<lambda>side p r. p < 10" "Special_q 101 5 1"
      bezout_invert 12 5 "[[1009], []]" "[101]"] by simp

text \<open>
  C8: Offering a relation that the siever found to the task that a thread works on leads to a reachable state
  of the tree and its threads: the contender it becomes, or the one that stays, leaves special-q that are
  valid and different. (The todo list hands out no special-q of a live task below the root.)
\<close>

theorem new_candidate_reachable:
  fixes a b :: u64 and c :: "'t :: {linorder, zero, plus} timed_candidate"
  assumes "reachable fresh_q rd m S" "t < length (threads S)" "threads S ! t = Working i"
    "candidate.truncate c = cand (tree S) i" "length factors = 2" "sq_side doing \<in> {0, 1}"
    "0 \<notin> set (side_primes factors lps doing prime_factors 0)" "0 \<notin> set (side_primes factors lps doing prime_factors 1)"
  shows "reachable fresh_q rd m (S\<lparr>tree := set_contender i (candidate.truncate (snd (new_candidate_relation invert avoid w known
      hint later now doing (get_relation a b factors lps doing prime_factors) c))) (tree S)\<rparr>)"
proof -
  define c' where "c' = snd (new_candidate_relation invert avoid w known hint later now doing
      (get_relation a b factors lps doing prime_factors) c)"
  define vs where "vs = outstanding_of w known doing (fixup_r invert True (get_relation a b factors lps doing prime_factors))"
  have inv: "sys_inv S" using assms(1) by (rule reachable_inv)
  then have "cand_ok (tree S)" "i < size_of (tree S)"
    using sys_invD(1) [OF inv] sys_inv_thread [OF inv assms(2,3)] by (auto simp: tree_inv_def tree_ok_def)
  then have old: "distinct (outstanding c)" "\<forall>q\<in>set (outstanding c). sq_bool q"
    using arg_cong [OF assms(4), of outstanding] by (auto simp: cand_ok_def candidate.defs)
  have new: "distinct vs" "\<forall>q\<in>set vs. sq_bool q"
    using outstanding_of_relation [OF assms(5,6)] assms(7,8)
    by (auto simp: vs_def candidate_special_qs_def sq_bool_def)
  have "outstanding c' = outstanding c \<or> outstanding c' = vs"
    using new_candidate_outstanding unfolding c'_def vs_def by fast
  then have "distinct (outstanding (candidate.truncate c'))" "\<forall>q\<in>set (outstanding (candidate.truncate c')). sq_bool q"
    using old new by (auto simp: candidate.defs)
  then have "sys_step fresh_q rd m S (S\<lparr>tree := set_contender i (candidate.truncate c') (tree S)\<rparr>)"
    using assms(2,3) by (rule candidate_step [rotated 2])
  then show ?thesis
    using reachable.more [OF assms(1)] unfolding c'_def by blast
qed

definition ex_sys :: "relation collection" where
  "ex_sys = snd (projr (pull ex_q (init_collection 0)))"

lemma ex_sys_pulled: "map_sum id fst (pull ex_q (init_collection 0 :: relation collection)) = Inr (Pulled 1)"
  by code_simp

lemma ex_sys_fresh: "fresh_q ex_q (init_collection 0 :: relation collection)"
  by code_simp

lemma ex_sys_candidate: "candidate.truncate no_candidate = cand ex_sys 1"
  by code_simp

lemma ex_sys_reachable: "reachable fresh_q True 0 \<lparr>tree = ex_sys, threads = [Working 1], discarded = {}\<rparr>"
proof -
  have 0: "reachable fresh_q True 0 \<lparr>tree = init_collection 0 :: relation collection, threads = [Idle], discarded = {}\<rparr>"
    using reachable.start [of fresh_q True 0 0 1] by (simp add: init_system_def)
  have "pull ex_q (init_collection 0 :: relation collection) = Inr (Pulled 1, ex_sys)"
    unfolding ex_sys_def by (rule sum_fst [OF ex_sys_pulled])
  then show ?thesis
    using reachable.more [OF 0 sys_step.pull_step [of 0 _ ex_q]] ex_sys_fresh by simp
qed

text \<open>Offering a relation of a first and of a second kind, with one hint table.\<close>

definition ex_offer :: "relation \<Rightarrow> int timed_candidate \<Rightarrow> int timed_candidate" where
  "ex_offer r c = snd (new_candidate_relation bezout_invert (\<lambda>r. False) 32 (\<lambda>side p r. p < 10)
     (\<lambda>v. if sq_p v < 1010 then Some 5 else None) (map_option (\<lambda>t. t + 100)) 100 ex_q r c)"

definition ex_first :: relation where
  "ex_first = get_relation 12 5 [[2], [11, 11]] [[], [1009]] ex_q [7]"

definition ex_second :: relation where
  "ex_second = get_relation 13 5 [[2], [1013]] [[], []] ex_q [7]"

theorem new_candidate_reachable_witness:
  "reachable fresh_q True 0 \<lparr>tree = set_contender 1 (candidate.truncate (ex_offer ex_first no_candidate)) ex_sys, threads = [Working 1], discarded = {}\<rparr>"
proof -
  have "0 \<notin> set (side_primes [[2], [11, 11]] [[], [1009]] ex_q [7] 0)"
    "0 \<notin> set (side_primes [[2], [11, 11]] [[], [1009]] ex_q [7] 1)"
    by (simp_all add: side_primes_def ex_q_def)
  then show ?thesis
    using new_candidate_reachable [OF ex_sys_reachable, of 0 1 no_candidate "[[2], [11, 11]]" ex_q] ex_sys_candidate
    by (simp add: ex_offer_def ex_first_def ex_q_def)
qed

text \<open>
  A siever that finds two relations in turn, at the times \<open>now\<close>: the contender after the first \<open>k\<close> offers.
\<close>

definition alternate :: "(nat \<Rightarrow> relation \<Rightarrow> 't timed_candidate \<Rightarrow> 't timed_candidate) \<Rightarrow> relation \<Rightarrow> relation
    \<Rightarrow> nat \<Rightarrow> 't :: linorder timed_candidate" where
  "alternate offer r1 r2 k = fold (\<lambda>j. offer j (if even j then r1 else r2)) [0..<k] no_candidate"

lemma alternate_Suc: "alternate offer r1 r2 (Suc k) = offer k (if even k then r1 else r2) (alternate offer r1 r2 k)"
  by (simp add: alternate_def)

text \<open>The candidate that a relation is offered as.\<close>

definition candidate_of ::
    "(int \<Rightarrow> int \<Rightarrow> int option) \<Rightarrow> nat \<Rightarrow> (int \<Rightarrow> u64 \<Rightarrow> u64 \<Rightarrow> bool) \<Rightarrow> (special_q \<Rightarrow> 't :: {linorder, zero, plus} option)
     \<Rightarrow> ('t option \<Rightarrow> 't option) \<Rightarrow> 't \<Rightarrow> special_q \<Rightarrow> relation \<Rightarrow> 't timed_candidate" where
  "candidate_of invert w known hint later now q r =
     (let vs = outstanding_of w known q (fixup_r invert True r)
      in \<lparr>rel = Some (fixup_r invert True r), outstanding = vs, time_left = expected_time hint vs,
          deadline = (if vs = [] then Some now else later (expected_time hint vs))\<rparr>)"

lemma new_candidate_taken:
  assumes "\<not> avoid r" "candidate_less (candidate_of invert w known hint later now q r) c"
  shows "snd (new_candidate_relation invert avoid w known hint later now q r c)
    = candidate_assign c (candidate_of invert w known hint later now q r)"
  using assms by (simp add: new_candidate_relation_def Let_def set_time_left_def no_candidate_def candidate_of_def)

lemma earlier_le: "\<exists>e \<le> d. earlier (Some (d :: 't :: linorder)) x = Some e"
  by (cases x) auto

text \<open>
  C10: The order of candidates is not an order: let a relation have a finite expected time, and another one
  no estimate but fewer special-q left. When the siever finds them in turn, at whatever times, each
  offer replaces the contender, for any number of offers, so every other contender has an infinite time left, under
  the finite deadline of a contender that it replaced.
\<close>

theorem candidates_replace_each_other:
  fixes t :: "'t :: {linorder, zero, plus}"
  assumes "\<not> avoid r1" "\<not> avoid r2" "relation_bool r1" "relation_bool r2"
    "expected_time hint (outstanding_of w known q (fixup_r invert True r1)) = Some t"
    "expected_time hint (outstanding_of w known q (fixup_r invert True r2)) = None"
    "length (outstanding_of w known q (fixup_r invert True r2)) < length (outstanding_of w known q (fixup_r invert True r1))"
    "later 0 (Some t) = Some d"
    "c = alternate (\<lambda>j r c. snd (new_candidate_relation invert avoid w known hint (later j) (now j) q r c)) r1 r2"
  shows "rel (c (Suc k)) = Some (fixup_r invert True (if even k then r1 else r2))
    \<and> time_left (c (Suc k)) = (if even k then Some t else None)
    \<and> (\<exists>e \<le> d. deadline (c (Suc k)) = Some e)"
proof -
  define left where "left r = outstanding_of w known q (fixup_r invert True r)" for r
  define who where "who j = (if even j then r1 else r2)" for j :: nat
  have rb: "relation_bool (fixup_r invert True (who j))" for j
    using assms(3,4) by (simp add: who_def relation_bool_def fixup_r_def)
  have step: "c (Suc j) = snd (new_candidate_relation invert avoid w known hint (later j) (now j) q (who j) (c j))" for j
    unfolding assms(9) by (simp add: alternate_Suc who_def)
  have av: "\<not> avoid (who j)" for j
    using assms(1,2) by (simp add: who_def)
  have ne: "left (who 0) \<noteq> []"
    using assms(7) by (auto simp: who_def left_def)
  define N where "N j = candidate_of invert w known hint (later j) (now j) q (who j)" for j
  have N: "rel (N j) = Some (fixup_r invert True (who j))" "outstanding (N j) = left (who j)"
    "time_left (N j) = expected_time hint (left (who j))"
    "deadline (N 0) = Some d" for j
    using ne assms(5,8) by (simp_all add: N_def candidate_of_def Let_def left_def who_def)
  have taken: "candidate_less (N j) (c j) \<Longrightarrow> c (Suc j) = candidate_assign (c j) (N j)" for j
    unfolding step N_def by (rule new_candidate_taken) (rule av)
  have "rel (c (Suc k)) = rel (N k) \<and> outstanding (c (Suc k)) = left (who k)
      \<and> time_left (c (Suc k)) = expected_time hint (left (who k)) \<and> (\<exists>e \<le> d. deadline (c (Suc k)) = Some e)"
  proof (induction k)
    case 0
    have c0: "rel (c 0) = None" "deadline (c 0) = None"
      by (simp_all add: assms(9) alternate_def no_candidate_def)
    then have "candidate_less (N 0) (c 0)"
      using rb by (simp add: candidate_less_def candidate_bool_def N)
    then show ?case
      using taken [of 0] c0 by (simp add: candidate_assign_def N)
  next
    case (Suc k)
    have "candidate_less (N (Suc k)) (c (Suc k))"
      using Suc.IH rb [of k] rb [of "Suc k"] assms(5-7)
      by (cases "even k") (simp_all add: candidate_less_def candidate_bool_def who_def left_def N)
    moreover obtain e where e: "e \<le> d" "deadline (c (Suc k)) = Some e"
      using Suc.IH by blast
    moreover obtain f where "f \<le> e" "earlier (Some e) (deadline (N (Suc k))) = Some f"
      using earlier_le by blast
    ultimately show ?case
      using taken [of "Suc k"] by (simp add: candidate_assign_def N)
  qed
  then show ?thesis
    using assms(5,6) by (auto simp: N who_def left_def)
qed

text \<open>Two relations of this kind, and the contender after five offers.\<close>

theorem candidates_replace_each_other_witness:
  "rel (alternate (\<lambda>j. ex_offer) ex_first ex_second 5) = Some (fixup_r bezout_invert True ex_first)
   \<and> time_left (alternate (\<lambda>j. ex_offer) ex_first ex_second 5) = Some 10
   \<and> (\<exists>e \<le> 110. deadline (alternate (\<lambda>j. ex_offer) ex_first ex_second 5) = Some e)"
proof -
  have h: "relation_bool ex_first \<and> relation_bool ex_second"
    by code_simp
  have e: "map (\<lambda>r. let vs = outstanding_of 32 (\<lambda>side p r. p < 10) ex_q (fixup_r bezout_invert True r) in
      (expected_time (\<lambda>v. if sq_p v < 1010 then Some 5 else None) vs, length vs)) [ex_first, ex_second]
      = [(Some (10 :: int), 2), (None, 1)]"
    by code_simp
  have o: "(\<lambda>j. ex_offer) = (\<lambda>j r c. snd (new_candidate_relation bezout_invert (\<lambda>r. False) 32 (\<lambda>side p r. p < 10)
     (\<lambda>v. if sq_p v < 1010 then Some 5 else None) (map_option (\<lambda>t. t + 100)) 100 ex_q r c))"
    by (intro ext) (simp add: ex_offer_def)
  show ?thesis
    unfolding o
    using candidates_replace_each_other [where k = 4 and ?r1.0 = ex_first and ?r2.0 = ex_second and t = "10 :: int" and d = 110
        and later = "\<lambda>j. map_option (\<lambda>t. t + 100)" and now = "\<lambda>j. 100" and invert = bezout_invert and w = 32
        and known = "\<lambda>side p r. p < 10" and q = ex_q and hint = "\<lambda>v. if sq_p v < 1010 then Some 5 else None"
        and avoid = "\<lambda>r. False", OF _ _ _ _ _ _ _ _ refl] h e
    by (simp add: Let_def)
qed

end
