(* ===== verification/Spec2Isabelle.thy ===== *)
theory Spec2Isabelle
  imports Mod64 MpzPolyModF PolyQueues CliqueRemoval Candidates
begin

text \<open>
  \<^bold>\<open>Verification of the arithmetic and data structure core of CADO-NFS\<close>

  CADO-NFS factors integers and computes discrete logarithms with the number field sieve. Its
  phases are separate programs (polynomial selection, sieving, filtering of relations, sparse linear
  algebra, square root or individual logarithms) that share the library under \<^verbatim>\<open>src/utils\<close>. This
  development models that library's arithmetic on machine words and on integer polynomials, the
  queues of the polynomial selection, the relations that the phases exchange as lines of text, the purge program, and the
  tree of tasks of the individual logarithm descent in the siever. All paths below are under
  \<^verbatim>\<open>src/\<close>.

  \<^bold>\<open>Words.\<close> \<open>Prelude\<close> names the types \<open>u64\<close> and \<open>u32\<close> and the shared lemmas; a C++ variable of type
  \<^verbatim>\<open>uint64_t\<close> is a \<open>u64\<close> throughout, one of type \<^verbatim>\<open>int64_t\<close> a \<open>u64\<close> that is read with \<open>sint\<close>.
  \<open>U64arith\<close> and \<open>U64div\<close> are \<^verbatim>\<open>utils/arithxx/u64arith.h\<close>: sums, products, shifts, Montgomery reduction,
  division by a reciprocal, with both the portable and the assembly branch where they differ.
  \<open>CompileTime\<close> is \<^verbatim>\<open>utils/cado_compile_time_hacks.hpp\<close>, \<open>ModInt\<close> is \<^verbatim>\<open>utils/arithxx/modint.hpp\<close>. The lemmas
  give the integer value of each result and the condition under which it does not wrap.

  \<^bold>\<open>Modular arithmetic.\<close> \<open>ModApi\<close> holds the algorithms that all modulus classes inherit
  (\<^verbatim>\<open>utils/arithxx/arithxx_api*.hpp\<close>) as functions of a layer, the record of the operations of one class.
  \<open>ModLayer\<close> states the contract of that layer as the locales \<open>arith_layer\<close> and \<open>inverting_layer\<close> and
  proves powers, Lucas sequences, simultaneous inversion and the strong pseudoprime test once inside
  them. \<open>BaseTwo\<close> has the number theory of that test: the power of two to the middle exponent modulo an odd prime. \<open>Mod64\<close> (\<^verbatim>\<open>mod64.hpp\<close>, \<^verbatim>\<open>mod64.cpp\<close>) and \<open>ModRedc64\<close> with \<open>RedcInv\<close> (\<^verbatim>\<open>modredc64.hpp\<close>,
  \<^verbatim>\<open>modredc64.cpp\<close>, \<^verbatim>\<open>arithxx_redc*.hpp\<close>, \<^verbatim>\<open>arithxx_batch_Q_to_Fp*.hpp\<close>) define the one word classes and interpret
  the locales on them. A residue is its stored word; \<open>mod64_value\<close> and \<open>redc64_value\<close> map it to the
  integer it stands for, so that the properties are refinements of arithmetic modulo \<open>m\<close>. Inversion
  loops end because a measure on the operands decreases; in the model that is the termination proof of the
  function. \<open>RelationTools\<close> is \<^verbatim>\<open>utils/relation-tools.c\<close> with the part of the older C arithmetic
  (\<^verbatim>\<open>utils/arith/*.h\<close>, \<^verbatim>\<open>utils/arith/*.c\<close>) it uses: the root of a relation modulo a prime, and integers as strings.

  \<^bold>\<open>Polynomials.\<close> \<open>PolySpec\<close> is the specification side: coefficient sequences with sum and convolution.
  \<open>MpzPoly\<close>, \<open>MpzPolyArith\<close>, \<open>MpzPolyMul\<close>, \<open>MpzPolyDiv\<close> and \<open>MpzPolyModF\<close> are \<^verbatim>\<open>utils/mpz_poly.cpp\<close> in the
  order of that file: the object (allocated cells and degree), operations that are linear, the
  products with their dispatch on the degree, the divisions, arithmetic modulo a polynomial. GMP integers
  are \<open>int\<close>. \<open>GmpAux\<close> has the reductions of one integer (\<^verbatim>\<open>utils/gmp_aux.c\<close> and Barrett reduction). Each
  product, division, power or evaluation is related to \<open>PolySpec\<close>. GMP's modular inverse is a
  parameter with the law \<open>invert_ok\<close>, which \<open>bezout_invert\<close> satisfies. The locale \<open>power_ops\<close> is the
  contract between a ring modulo a polynomial and the sliding window power.

  \<^bold>\<open>Queues.\<close> \<open>MinMaxHeap\<close> is \<^verbatim>\<open>utils/min_max_heap.hpp\<close>, on the list of the elements of the vector, with
  exceptions as values of a sum type. The locale \<open>strict_weak_order\<close> is what the comparison has to
  satisfy; the locale \<open>double_ended_queue\<close> is what the clients rely on, and the heap is a sublocale
  instance of it. The bound of 2 to the power 30 elements keeps the 32 bit indices of the code from wrapping.
  \<open>PolyQueues\<close> has the three clients: \<^verbatim>\<open>polyselect/best_polynomials_queue.cpp\<close> and the two sublattice queues.
  Their scores are floating point numbers in the code; the comparison is a parameter.

  \<^bold>\<open>Relations.\<close> \<open>Relations\<close> and \<open>RelationIO\<close> are \<^verbatim>\<open>utils/relation.hpp\<close> and \<^verbatim>\<open>utils/relation.cpp\<close>: the object,
  roots, compression, printing and parsing. The input stream of the C++ library is a record of the
  characters left and the error bits; the loop of the parser ends because every pass consumes a character.
  Reading and printing of GMP integers are parameters with the laws \<open>decimal_io_ok\<close> and \<open>hex_ok\<close>, and
  concrete instances satisfy them. The flag \<open>eager\<close> covers the two behaviours that libraries have at the
  end of a stream. Properties: round trip, what compression does, inputs on which the code errs.

  \<^bold>\<open>Purge.\<close> \<open>PurgeMatrix\<close> is \<^verbatim>\<open>filter/purge_matrix.hpp\<close> and \<^verbatim>\<open>filter/purge_matrix.cpp\<close>, \<open>CliqueRemoval\<close> is
  \<^verbatim>\<open>filter/clique_removal.cpp\<close> with the first pass of \<^verbatim>\<open>filter/purge.cpp\<close>. The matrix is a list of rows, in which a
  null pointer is \<open>None\<close>, with the stored weights of the columns, which saturate, and two counters. The order in
  which threads visit the rows is an argument, so the theorems hold for every schedule of whole visits;
  the weights of components are of an ordered type. The search of a component has the fuel of the number of rows
  plus two, since its buffer holds distinct rows; the theorems show that this is enough. The lemmas show that
  the counters stay right, what removing singletons leaves, that components are the rows connected by
  columns of weight two, that deleting one costs at most one of the excess, and that the heaviest go first.

  \<^bold>\<open>Task tree.\<close> \<open>TaskTree\<close> models \<^verbatim>\<open>sieve/las-special-q-task-*.{cpp,hpp}\<close> and \<^verbatim>\<open>utils/special-q.hpp\<close>: nodes
  in a list, pointers as indices, node 0 the root, sets of children per status as lists ordered by
  special-q, failed assertions and exceptions as values. \<open>TaskTreeInv\<close> has the invariant and its
  preservation by the operations on nodes, \<open>TaskTreeRun\<close> the operations that threads call, and
  \<open>TaskTreeSys\<close> the system of the tree and its threads as a step relation with its reachable states: the loop over tasks of
  \<^verbatim>\<open>las_subjob\<close> in \<^verbatim>\<open>sieve/las.cpp\<close>. A thread that is idle pulls or ends on the exit semaphore; one that works changes the
  contender of its task, postprocesses it, or goes on without postprocessing when the special-q was discarded. The
  tasks of the last kind are remembered in a field that the code does not have. What the todo list may hand out is the
  parameter \<open>feeds\<close> of the system, since the code does not rule out duplicates: the properties of the tree are those
  of the system with \<open>fresh_q\<close>, which hands out no special-q of a live task below the root; without that a task can
  be missing from the set of its status (\<open>duplicate_special_q_throws\<close>), and a discarded task blocks the threads that pull
  (\<open>discarded_task_blocks\<close>). An operation
  under the lock is one step; the clock is a field that any step may move, and calls of \<^verbatim>\<open>notify_all\<close> are
  counted so that waiting threads wake up. The fuel \<open>enough_fuel\<close> of the recursions is twice the number of
  nodes plus two plus the index of the node; the theorems show that it never runs out.
  \<open>Candidates\<close> connects the two last parts: the relation made of the factors that the siever found
  (\<^verbatim>\<open>sieve/las-cofac-standalone.cpp\<close>), the candidate it becomes
  (\<^verbatim>\<open>sieve/las-descent-candidate-relation.hpp\<close>) and its offer to a task; compression of the relation is why the
  special-q that are left differ, which the invariant of the tree needs. Times are elements of an ordered
  type with an addition, infinity is \<open>None\<close>.

  \<^bold>\<open>Not modelled.\<close> Functions whose content is GMP or floating point code (resultants and factorisation
  of polynomials, the skewness and score computations, time estimates from the hint file), messages and the
  display of the tree. The moduli of two and more words, whose classes repeat the structure shown
  here. The sieve engine (bucket sieving in memory-mapped arrays by many threads), cofactorisation with
  elliptic curves, the other filtering programs (passes over files of relations, merging in parallel), block
  Wiedemann over MPI, the square roots, and the scripts that start the programs. Vendored libraries
  are not part of the code base proper.
\<close>

end
